(* ===== verification/Platform_Prelude.thy ===== *)
theory Platform_Prelude
  imports Main "HOL-Library.Word"
begin

unbundle bit_operations_syntax

text \<open>
  Shared vocabulary of the development: the machine integers of the ilp32 target, the control and
  status registers the platform code names, the byte-addressed memory, the C results, and the
  generic facts on words and lists that the component theories use.
\<close>

section \<open>Types of the target\<close>

type_synonym u8 = "8 word"
type_synonym u16 = "16 word"
type_synonym u32 = "32 word"
type_synonym u64 = "64 word"

text \<open>Memory is byte addressed; an access is to any address (faults are the PMP's business).\<close>

type_synonym mem = "u32 \<Rightarrow> u8"

text \<open>The CSRs the platform code reads or writes by name.\<close>

datatype csr =
    mstatus | mie | mtvec | mtval | mcycle
  | pmpcfg0 | pmpcfg1
  | pmpaddr0 | pmpaddr1 | pmpaddr2 | pmpaddr3 | pmpaddr4 | pmpaddr5 | pmpaddr6 | pmpaddr7

section \<open>Collections of facts\<close>

named_theorems word_bits \<open>bit-level characterisations of word operations\<close>
named_theorems mem_simps \<open>reading memory after a write\<close>

lemmas [word_bits] = bit_and_iff bit_or_iff bit_xor_iff bit_not_iff bit_drop_bit_eq
  bit_push_bit_iff bit_mask_iff bit_take_bit_iff

section \<open>Memory access\<close>

definition ld32 :: "mem \<Rightarrow> u32 \<Rightarrow> u32" where
  "ld32 m a = ucast (m a) OR push_bit 8 (ucast (m (a + 1))) OR push_bit 16 (ucast (m (a + 2)))
              OR push_bit 24 (ucast (m (a + 3)))"

definition st32 :: "mem \<Rightarrow> u32 \<Rightarrow> u32 \<Rightarrow> mem" where
  "st32 m a v = m(a := ucast v, a + 1 := ucast (drop_bit 8 v), a + 2 := ucast (drop_bit 16 v),
                  a + 3 := ucast (drop_bit 24 v))"

lemma ld32_st32_same [mem_simps]: "ld32 (st32 m a v) a = v"
proof (rule bit_eqI)
  fix n
  assume "possible_bit TYPE(32 word) n"
  consider "n < 8" | "8 \<le> n" "n < 16" | "16 \<le> n" "n < 24" | "24 \<le> n" by linarith
  then show "bit (ld32 (st32 m a v) a) n \<longleftrightarrow> bit v n"
    by cases (auto simp: ld32_def st32_def word_bits bit_ucast_iff dest: bit_imp_le_length)
qed

section \<open>Powers of two and alignment\<close>

lemma u32_bound: "unat (w :: u32) < 2 ^ 32" and u64_bound: "unat (n :: u64) < 2 ^ 64"
  and u16_bound: "unat (h :: u16) < 2 ^ 16" and u8_bound: "unat (b :: u8) < 2 ^ 8"
proof -
  have "unat w < 2 ^ LENGTH(32)" "unat n < 2 ^ LENGTH(64)" "unat h < 2 ^ LENGTH(16)" "unat b < 2 ^ LENGTH(8)"
    by (rule unsigned_less)+
  then show "unat w < 2 ^ 32" "unat n < 2 ^ 64" "unat h < 2 ^ 16" "unat b < 2 ^ 8" by simp_all
qed

lemma unat_exp:
  assumes "k < LENGTH('a)"
  shows "unat (2 ^ k :: 'a::len word) = 2 ^ k"
proof -
  have "unat (of_nat (2 ^ k) :: 'a word) = 2 ^ k mod 2 ^ LENGTH('a)" by (rule unat_of_nat)
  then show ?thesis using assms by simp
qed

lemma pow2_of_and_pred:
  fixes w :: "'a::len word"
  assumes "w \<noteq> 0" "w AND (w - 1) = 0"
  shows "\<exists>k < LENGTH('a). w = 2 ^ k"
proof -
  obtain k where k: "2 ^ k \<le> unat w" "unat w < 2 ^ Suc k"
    using ex_power_ivl1 [of 2 "unat w"] assms(1) by (auto simp: Suc_le_eq unat_gt_0 word_neq_0_conv)
  have "(2::nat) ^ k < 2 ^ LENGTH('a)" using k(1) unsigned_less [of w] by (rule le_less_trans)
  then have kl: "k < LENGTH('a)" by simp
  have bitw: "bit v k" if "2 ^ k \<le> unat v" "unat v < 2 ^ Suc k" for v :: "'a word"
  proof -
    have "unat v div 2 ^ k = 1" using that by (simp add: div_nat_eqI)
    then have "bit (unat v) k" by (simp add: bit_iff_odd)
    then show ?thesis by (simp add: bit_unsigned_iff)
  qed
  have "w = 2 ^ k"
  proof (rule ccontr)
    assume ne: "w \<noteq> 2 ^ k"
    have "unat (2 ^ k :: 'a word) = 2 ^ k" using kl by (rule unat_exp)
    then have "unat w \<noteq> 2 ^ k" using ne by (metis word_unat_eq_iff)
    then have "2 ^ k \<le> unat (w - 1)" "unat (w - 1) < 2 ^ Suc k"
      using k assms(1) by (auto simp: unat_minus_one)
    then have "bit (w AND (w - 1)) k" using bitw k by (simp add: bit_and_iff)
    then show False using assms(2) by simp
  qed
  with kl show ?thesis by blast
qed

lemma drop_bit_eq_iff_interval:
  fixes a b :: "'a::len word"
  assumes "take_bit k b = 0"
  shows "drop_bit k a = drop_bit k b \<longleftrightarrow> unat b \<le> unat a \<and> unat a < unat b + 2 ^ k"
proof -
  have "take_bit k (unat b) = 0" using assms by (metis unsigned_take_bit_eq unsigned_0)
  then obtain q where q: "unat b = q * 2 ^ k" by (auto simp: take_bit_eq_mod mod_eq_0_iff_dvd mult.commute elim: dvdE)
  have "drop_bit k a = drop_bit k b \<longleftrightarrow> unat a div 2 ^ k = q"
    by (simp only: word_unat_eq_iff unat_drop_bit_eq drop_bit_nat_def q) simp
  also have "\<dots> \<longleftrightarrow> q * 2 ^ k \<le> unat a \<and> unat a < Suc q * 2 ^ k"
    by (auto simp: dividend_less_times_div div_nat_eqI mult.commute add.commute intro: div_nat_eqI) 
  finally show ?thesis by (simp add: q add.commute)
qed

lemma unat_uminus:
  fixes x :: "'a::len word"
  assumes "x \<noteq> 0"
  shows "unat (- x) = 2 ^ LENGTH('a) - unat x"
proof -
  have "(unat x + unat (- x)) mod 2 ^ LENGTH('a) = unat (x + - x)" by (simp only: unat_word_ariths)
  then have "2 ^ LENGTH('a) dvd unat x + unat (- x)" by (simp add: mod_eq_0_iff_dvd)
  then obtain k where k: "unat x + unat (- x) = 2 ^ LENGTH('a) * k" by (rule dvdE)
  moreover have "unat x < 2 ^ LENGTH('a)" "unat (- x) < 2 ^ LENGTH('a)" by simp_all
  ultimately have "2 ^ LENGTH('a) * k < 2 ^ LENGTH('a) * 2" by linarith
  then have "k < 2" by simp
  moreover have "0 < unat x" using assms by (simp add: unat_gt_0)
  then have "k \<noteq> 0" using k by (cases "k = 0") auto
  ultimately have "k = 1" by simp
  with k have "unat x + unat (- x) = 2 ^ LENGTH('a)" by simp
  then show ?thesis by simp
qed

section \<open>Bytes of a word\<close>

definition byte_of :: "nat \<Rightarrow> u32 \<Rightarrow> u32" where
  "byte_of j w = drop_bit (j * 8) w AND 0xFF"

lemma byte_of_replace:
  assumes "i < 4" "j < 4"
  shows "byte_of j (w AND NOT (push_bit (i * 8) 0xFF) OR push_bit (i * 8) (c AND 0xFF)) =
           (if j = i then c AND 0xFF else byte_of j w)"
proof -
  have ff: "(0xFF :: u32) = mask 8" by (simp add: mask_eq_exp_minus_1)
  have sep: "\<not> (i * 8 \<le> j * 8 + n \<and> j * 8 + n - i * 8 < 8)" if "n < 8" "i \<noteq> j" for n
    using that by linarith
  have in_range: "j * 8 + n < 32" if "n < 8" for n using that assms by simp
  show ?thesis
  proof (rule bit_eqI)
    fix n
    assume "possible_bit TYPE(32 word) n"
    show "bit (byte_of j (w AND NOT (push_bit (i * 8) 0xFF) OR push_bit (i * 8) (c AND 0xFF))) n =
      bit (if j = i then c AND 0xFF else byte_of j w) n"
      using sep [of n] in_range [of n]
      by (cases "n < 8") (auto simp: byte_of_def ff word_bits)
  qed
qed

lemma u32_less_4:
  "i < (4::u32) \<longleftrightarrow> i = 0 \<or> i = 1 \<or> i = 2 \<or> i = 3"
proof -
  have "i < 4 \<longleftrightarrow> unat i < 4" by (simp add: word_less_nat_alt)
  also have "\<dots> \<longleftrightarrow> unat i = 0 \<or> unat i = 1 \<or> unat i = 2 \<or> unat i = 3" by auto
  also have "\<dots> \<longleftrightarrow> i = 0 \<or> i = 1 \<or> i = 2 \<or> i = 3" by (simp add: word_unat_eq_iff)
  finally show ?thesis .
qed

lemma u32_less_8:
  "idx < (8::u32) \<longleftrightarrow> idx = 0 \<or> idx = 1 \<or> idx = 2 \<or> idx = 3 \<or> idx = 4 \<or> idx = 5 \<or> idx = 6 \<or> idx = 7"
proof -
  have "idx < 8 \<longleftrightarrow> unat idx < 8" by (simp add: word_less_nat_alt)
  also have "\<dots> \<longleftrightarrow> unat idx = 0 \<or> unat idx = 1 \<or> unat idx = 2 \<or> unat idx = 3 \<or> unat idx = 4
      \<or> unat idx = 5 \<or> unat idx = 6 \<or> unat idx = 7" by auto
  also have "\<dots> \<longleftrightarrow> idx = 0 \<or> idx = 1 \<or> idx = 2 \<or> idx = 3 \<or> idx = 4 \<or> idx = 5 \<or> idx = 6 \<or> idx = 7"
    by (simp add: word_unat_eq_iff)
  finally show ?thesis .
qed

end
