(* ===== verification/Pmp.thy ===== *)
theory Pmp
  imports Platform_Prelude
begin

text \<open>
  Platform/Common/Src/pmp.c and Inc/pmp.h: programming the Physical Memory Protection unit.
\<close>

definition PMP_NUM_REGIONS :: u32 where "PMP_NUM_REGIONS = 8"
definition PMP_PERM_X :: u32 where "PMP_PERM_X = 0x04"
definition PMP_PERM_RW :: u32 where "PMP_PERM_RW = 0x03"
definition PMP_PERM_RWX :: u32 where "PMP_PERM_RWX = 0x07"
definition PMP_MODE_OFF :: u32 where "PMP_MODE_OFF = 0x00"
definition PMP_MODE_NA4 :: u32 where "PMP_MODE_NA4 = 0x10"
definition PMP_MODE_NAPOT :: u32 where "PMP_MODE_NAPOT = 0x18"
definition PMP_LOCK :: u32 where "PMP_LOCK = 0x80"

lemmas pmp_consts = PMP_NUM_REGIONS_def PMP_PERM_RWX_def PMP_MODE_OFF_def PMP_MODE_NA4_def
  PMP_MODE_NAPOT_def PMP_LOCK_def

type_synonym 's csr_read = "csr \<Rightarrow> 's \<Rightarrow> u32"
type_synonym 's csr_write = "csr \<Rightarrow> u32 \<Rightarrow> 's \<Rightarrow> 's"

section \<open>Register access\<close>

definition pmpaddr_read :: "'s csr_read \<Rightarrow> u32 \<Rightarrow> 's \<Rightarrow> u32" where
  "pmpaddr_read rd idx s =
     (if idx = 0 then rd pmpaddr0 s
      else if idx = 1 then rd pmpaddr1 s
      else if idx = 2 then rd pmpaddr2 s
      else if idx = 3 then rd pmpaddr3 s
      else if idx = 4 then rd pmpaddr4 s
      else if idx = 5 then rd pmpaddr5 s
      else if idx = 6 then rd pmpaddr6 s
      else if idx = 7 then rd pmpaddr7 s
      else 0)"

definition pmpaddr_write :: "'s csr_write \<Rightarrow> u32 \<Rightarrow> u32 \<Rightarrow> 's \<Rightarrow> 's" where
  "pmpaddr_write wr idx v s =
     (if idx = 0 then wr pmpaddr0 v s
      else if idx = 1 then wr pmpaddr1 v s
      else if idx = 2 then wr pmpaddr2 v s
      else if idx = 3 then wr pmpaddr3 v s
      else if idx = 4 then wr pmpaddr4 v s
      else if idx = 5 then wr pmpaddr5 v s
      else if idx = 6 then wr pmpaddr6 v s
      else if idx = 7 then wr pmpaddr7 v s
      else s)"

definition pmpcfg_read_word :: "'s csr_read \<Rightarrow> u32 \<Rightarrow> 's \<Rightarrow> u32" where
  "pmpcfg_read_word rd widx s =
     (if widx = 0 then rd pmpcfg0 s else if widx = 1 then rd pmpcfg1 s else 0)"

definition pmpcfg_write_word :: "'s csr_write \<Rightarrow> u32 \<Rightarrow> u32 \<Rightarrow> 's \<Rightarrow> 's" where
  "pmpcfg_write_word wr widx v s =
     (if widx = 0 then wr pmpcfg0 v s else if widx = 1 then wr pmpcfg1 v s else s)"

definition pmpcfg_read_byte :: "'s csr_read \<Rightarrow> u32 \<Rightarrow> 's \<Rightarrow> u32" where
  "pmpcfg_read_byte rd idx s =
     (let w = pmpcfg_read_word rd (drop_bit 2 idx) s
      in drop_bit (unat ((idx AND 3) * 8)) w AND 0xFF)"

definition pmpcfg_write_byte :: "'s csr_read \<Rightarrow> 's csr_write \<Rightarrow> u32 \<Rightarrow> u32 \<Rightarrow> 's \<Rightarrow> 's" where
  "pmpcfg_write_byte rd wr idx cfg s =
     (let shift = unat ((idx AND 3) * 8);
          w = pmpcfg_read_word rd (drop_bit 2 idx) s;
          w = w AND NOT (push_bit shift 0xFF);
          w = w OR push_bit shift (cfg AND 0xFF)
      in pmpcfg_write_word wr (drop_bit 2 idx) w s)"

section \<open>NAPOT encoding\<close>

definition pmp_napot_encode :: "u32 \<Rightarrow> u32 \<Rightarrow> u32" where
  "pmp_napot_encode base sz =
     (if sz < 4 then 0
      else if sz AND (sz - 1) \<noteq> 0 then 0
      else if base AND (sz - 1) \<noteq> 0 then 0
      else if sz = 4 then drop_bit 2 base
      else drop_bit 2 base OR (drop_bit 3 sz - 1))"

section \<open>The interface\<close>

definition pmp_program ::
  "'s csr_read \<Rightarrow> 's csr_write \<Rightarrow> u32 \<Rightarrow> u32 \<Rightarrow> u32 \<Rightarrow> u32 \<Rightarrow> bool \<Rightarrow> 's \<Rightarrow> int \<times> 's" where
  "pmp_program rd wr idx base sz perm lock s =
     (if idx \<ge> PMP_NUM_REGIONS then (-1, s)
      else if perm AND NOT PMP_PERM_RWX \<noteq> 0 then (-2, s)
      else let addr = pmp_napot_encode base sz
      in if addr = 0 \<and> \<not> (base = 0 \<and> sz = 4) then (-3, s)
      else let cfg = perm OR (if sz = 4 then PMP_MODE_NA4 else PMP_MODE_NAPOT);
               cfg = (if lock then cfg OR PMP_LOCK else cfg);
               s = pmpaddr_write wr idx addr s;
               s = pmpcfg_write_byte rd wr idx cfg s
      in (0, s))"

definition pmp_set_region ::
  "'s csr_read \<Rightarrow> 's csr_write \<Rightarrow> u32 \<Rightarrow> u32 \<Rightarrow> u32 \<Rightarrow> u32 \<Rightarrow> 's \<Rightarrow> int \<times> 's" where
  "pmp_set_region rd wr idx base sz perm s = pmp_program rd wr idx base sz perm False s"

definition pmp_lock_region ::
  "'s csr_read \<Rightarrow> 's csr_write \<Rightarrow> u32 \<Rightarrow> u32 \<Rightarrow> u32 \<Rightarrow> u32 \<Rightarrow> 's \<Rightarrow> int \<times> 's" where
  "pmp_lock_region rd wr idx base sz perm s = pmp_program rd wr idx base sz perm True s"

definition pmp_clear_region :: "'s csr_read \<Rightarrow> 's csr_write \<Rightarrow> u32 \<Rightarrow> 's \<Rightarrow> int \<times> 's" where
  "pmp_clear_region rd wr idx s =
     (if idx \<ge> PMP_NUM_REGIONS then (-1, s)
      else let s = pmpcfg_write_byte rd wr idx PMP_MODE_OFF s;
               s = pmpaddr_write wr idx 0 s
      in (0, s))"

text \<open>The out-parameters \<open>cfg\<close> and \<open>addr\<close> become an optional pair; \<open>None\<close> is the argument error.\<close>

definition pmp_get_region :: "'s csr_read \<Rightarrow> u32 \<Rightarrow> 's \<Rightarrow> int \<times> (u32 \<times> u32) option" where
  "pmp_get_region rd idx s =
     (if idx \<ge> PMP_NUM_REGIONS then (-1, None)
      else (0, Some (pmpcfg_read_byte rd idx s, pmpaddr_read rd idx s)))"

section \<open>What a programmed entry matches\<close>

text \<open>
  The privileged specification's match rule for the two modes the driver programs: NA4 compares the
  word address, NAPOT ignores the trailing ones of the register and the zero above them.
\<close>

definition napot_match :: "u32 \<Rightarrow> u32 \<Rightarrow> bool" where
  "napot_match p a = (let m = p XOR (p + 1) in drop_bit 2 a AND NOT m = p AND NOT m)"

lemma napot_trailing_mask:
  fixes q :: u32
  assumes "take_bit (Suc j) q = 0" "j < 32"
  shows "(q OR mask j) XOR ((q OR mask j) + 1) = mask (Suc j)"
proof -
  have nq: "\<not> bit q n" if "n \<le> j" for n
    using assms(1) that by (metis bit_0_eq bit_take_bit_iff bot_apply bot_bool_def less_Suc_eq_le)
  have "(q OR mask j) + 1 = (q + mask j) + 1"
    by (subst disjunctive_add) (auto simp: bit_mask_iff nq)
  also have "\<dots> = q + 2 ^ j" by (simp add: mask_eq_exp_minus_1)
  also have "\<dots> = q OR 2 ^ j"
    by (rule disjunctive_add) (auto simp: bit_exp_iff nq)
  finally show ?thesis
    by (auto intro!: bit_eqI simp: bit_simps nq assms(2) dest: less_antisym)
qed

definition pmp_covers :: "u32 \<Rightarrow> u32 \<Rightarrow> u32 \<Rightarrow> bool" where
  "pmp_covers cfg p a =
     (if cfg AND 0x18 = PMP_MODE_NAPOT then napot_match p a
      else if cfg AND 0x18 = PMP_MODE_NA4 then drop_bit 2 a = p
      else False)"

lemma napot_match_interval:
  fixes base a :: u32
  assumes al: "take_bit k base = 0" and k: "3 \<le> k" "k < 32"
  shows "napot_match (drop_bit 2 base OR mask (k - 3)) a \<longleftrightarrow>
         unat base \<le> unat a \<and> unat a < unat base + 2 ^ k"
proof -
  have nb: "\<not> bit base n" if "n < k" for n
    using al that by (metis bit_0_eq bit_take_bit_iff bot_apply bot_bool_def)
  have "take_bit (Suc (k - 3)) (drop_bit 2 base) = 0"
    using k nb by (auto intro!: bit_eqI simp: bit_simps)
  then have m: "(drop_bit 2 base OR mask (k - 3)) XOR ((drop_bit 2 base OR mask (k - 3)) + 1) =
      mask (Suc (k - 3))" using k by (intro napot_trailing_mask) auto
  have hi: "bit a (2 + n) = bit base (2 + n)" if "Suc (k - 3) \<le> n"
    "drop_bit 2 a AND NOT (mask (Suc (k - 3))) =
     (drop_bit 2 base OR mask (k - 3)) AND NOT (mask (Suc (k - 3)))" for n
  proof (cases "n < 30")
    case True
    with that show ?thesis by (auto simp: bit_eq_iff bit_simps dest!: spec [of _ n])
  next
    case False
    then have "32 \<le> 2 + n" by simp
    then show ?thesis using bit_imp_le_length [of a "2 + n"] bit_imp_le_length [of base "2 + n"] by auto
  qed
  have "napot_match (drop_bit 2 base OR mask (k - 3)) a \<longleftrightarrow> drop_bit k a = drop_bit k base"
  proof
    assume "napot_match (drop_bit 2 base OR mask (k - 3)) a"
    then have e: "drop_bit 2 a AND NOT (mask (Suc (k - 3))) =
       (drop_bit 2 base OR mask (k - 3)) AND NOT (mask (Suc (k - 3)))"
      by (simp add: napot_match_def Let_def m)
    show "drop_bit k a = drop_bit k base"
    proof (rule bit_eqI)
      fix n assume "possible_bit TYPE(32 word) n"
      have kn: "2 + (k - 2 + n) = k + n" and le: "Suc (k - 3) \<le> k - 2 + n" using k by auto
      from hi [OF le e] have "bit a (k + n) = bit base (k + n)" unfolding kn .
      then show "bit (drop_bit k a) n = bit (drop_bit k base) n"
        by (simp add: bit_drop_bit_eq)
    qed
  next
    assume e: "drop_bit k a = drop_bit k base"
    have hb: "bit a (2 + n) = bit base (2 + n)" if "Suc (k - 3) \<le> n" for n
    proof -
      have "k + (2 + n - k) = 2 + n" using that k by simp
      then show ?thesis using e by (metis bit_drop_bit_eq comp_apply)
    qed
    then show "napot_match (drop_bit 2 base OR mask (k - 3)) a"
      unfolding napot_match_def Let_def m
    proof (intro bit_eqI)
      fix n assume "possible_bit TYPE(32 word) n"
      then show "bit (drop_bit 2 a AND NOT (mask (Suc (k - 3)))) n =
          bit ((drop_bit 2 base OR mask (k - 3)) AND NOT (mask (Suc (k - 3)))) n"
        using hb [of n] by (cases "Suc (k - 3) \<le> n") (simp_all add: word_bits)
    qed
  qed
  also have "\<dots> \<longleftrightarrow> unat base \<le> unat a \<and> unat a < unat base + 2 ^ k"
    using al by (rule drop_bit_eq_iff_interval)
  finally show ?thesis .
qed


lemma pmp_napot_encode_shape:
  assumes "4 \<le> sz" "sz AND (sz - 1) = 0" "base AND (sz - 1) = 0"
  obtains k where "2 \<le> k" "k < 32" "sz = 2 ^ k" "take_bit k base = 0"
    "pmp_napot_encode base sz = (if sz = 4 then drop_bit 2 base else drop_bit 2 base OR mask (k - 3))"
    "sz = 4 \<longleftrightarrow> k = 2"
proof -
  have "sz \<noteq> 0" using assms(1) by auto
  then obtain k where k: "k < 32" "sz = 2 ^ k" using pow2_of_and_pred [of sz] assms(2) by auto
  have usz: "unat sz = 2 ^ k" using k unat_exp [where 'a=32, of k] by simp
  have "unat (4::u32) \<le> unat sz" using assms(1) by (simp only: word_le_nat_alt)
  then have "(2::nat) ^ 2 \<le> 2 ^ k" by (simp add: usz)
  then have k2: "2 \<le> k" by (subst (asm) power_increasing_iff) auto
  have al: "take_bit k base = 0"
    using assms(3) k by (simp add: take_bit_eq_mask mask_eq_exp_minus_1)
  have four: "sz = 4 \<longleftrightarrow> k = 2"
  proof
    assume "sz = 4"
    then have "(2::nat) ^ k = 2 ^ 2" using usz by simp
    then show "k = 2" by (subst (asm) power_inject_exp) auto
  qed (simp add: k)
  have "drop_bit 3 sz - 1 = mask (k - 3)" if "k \<noteq> 2"
  proof -
    have "3 \<le> k" using k2 that by simp
    then obtain j where j: "k = 3 + j" by (auto simp: le_iff_add)
    have "drop_bit 3 sz = (2 ^ (k - 3) :: u32)"
      using k(1) by (auto intro!: bit_eqI simp: bit_drop_bit_eq bit_exp_iff k(2) j)
    then show ?thesis by (simp add: mask_eq_exp_minus_1)
  qed
  then have "pmp_napot_encode base sz =
      (if sz = 4 then drop_bit 2 base else drop_bit 2 base OR mask (k - 3))"
    using assms four by (auto simp: pmp_napot_encode_def)
  with that k k2 al four show thesis by blast
qed

text \<open>The arguments that the encoder accepts: exactly the aligned power-of-two regions.\<close>

definition pmp_valid_region :: "u32 \<Rightarrow> u32 \<Rightarrow> bool" where
  "pmp_valid_region base sz \<longleftrightarrow>
     4 \<le> sz \<and> sz AND (sz - 1) = 0 \<and> base AND (sz - 1) = 0"

lemma pmp_napot_encode_invalid: "\<not> pmp_valid_region base sz \<Longrightarrow> pmp_napot_encode base sz = 0"
  by (auto simp: pmp_napot_encode_def pmp_valid_region_def)

lemma pmp_napot_encode_covers:
  assumes "pmp_valid_region base sz"
    and "cfg AND 0x18 = (if sz = 4 then PMP_MODE_NA4 else PMP_MODE_NAPOT)"
  shows "pmp_covers cfg (pmp_napot_encode base sz) a \<longleftrightarrow>
           unat base \<le> unat a \<and> unat a < unat base + unat sz"
proof -
  from assms(1) obtain k where k: "2 \<le> k" "k < 32" "sz = 2 ^ k" "take_bit k base = 0"
    "pmp_napot_encode base sz = (if sz = 4 then drop_bit 2 base else drop_bit 2 base OR mask (k - 3))"
    "sz = 4 \<longleftrightarrow> k = 2"
    unfolding pmp_valid_region_def by (elim conjE) (rule pmp_napot_encode_shape)
  have usz: "unat sz = 2 ^ k" using k unat_exp [where 'a=32, of k] by simp
  show ?thesis
  proof (cases "k = 2")
    case True
    with k assms(2) have "pmp_covers cfg (pmp_napot_encode base sz) a \<longleftrightarrow> drop_bit k a = drop_bit k base"
      by (auto simp: pmp_covers_def pmp_consts)
    with drop_bit_eq_iff_interval [OF k(4), of a] usz show ?thesis by simp
  next
    case False
    with k assms(2) have "pmp_covers cfg (pmp_napot_encode base sz) a \<longleftrightarrow>
        napot_match (drop_bit 2 base OR mask (k - 3)) a"
      by (simp add: pmp_covers_def pmp_consts)
    with napot_match_interval [OF k(4)] False k usz show ?thesis by simp
  qed
qed

section \<open>The register file, as the privileged specification documents it\<close>

text \<open>
  A configuration byte is legal when its reserved bits are clear and it does not ask for write
  without read. The CSR instructions are not code of this repository: the driver takes them as
  \<open>rd\<close> and \<open>wr\<close>, and the locale states what the specification says of them. An address register is
  read-only while its entry is locked, or while the next entry is locked in TOR mode.
\<close>

definition pmp_cfg_legal :: "u32 \<Rightarrow> bool" where
  "pmp_cfg_legal c \<longleftrightarrow> \<not> bit c 5 \<and> \<not> bit c 6 \<and> (bit c 1 \<longrightarrow> bit c 0)"

definition pmp_entry_locked :: "'s csr_read \<Rightarrow> u32 \<Rightarrow> 's \<Rightarrow> bool" where
  "pmp_entry_locked rd idx s \<longleftrightarrow> pmpcfg_read_byte rd idx s AND PMP_LOCK \<noteq> 0"

definition pmp_addr_locked :: "'s csr_read \<Rightarrow> u32 \<Rightarrow> 's \<Rightarrow> bool" where
  "pmp_addr_locked rd idx s \<longleftrightarrow> pmp_entry_locked rd idx s \<or>
     idx < 7 \<and> pmp_entry_locked rd (idx + 1) s \<and> pmpcfg_read_byte rd (idx + 1) s AND 0x18 = 0x08"

locale pmp_csrs =
  fixes rd :: "'s csr_read" and wr :: "'s csr_write"
  assumes cfg_legal: "j < 8 \<Longrightarrow> pmp_cfg_legal (pmpcfg_read_byte rd j s)"
    and addr_write: "i < 8 \<Longrightarrow> j < 8 \<Longrightarrow> pmpaddr_read rd j (pmpaddr_write wr i v s) =
          (if j = i \<and> \<not> pmp_addr_locked rd i s then v else pmpaddr_read rd j s)"
    and addr_write_cfg: "i < 8 \<Longrightarrow> j < 8 \<Longrightarrow>
          pmpcfg_read_byte rd j (pmpaddr_write wr i v s) = pmpcfg_read_byte rd j s"
    and cfg_write: "j < 8 \<Longrightarrow> drop_bit 2 j = w \<Longrightarrow> \<not> pmp_entry_locked rd j s \<Longrightarrow>
          pmp_cfg_legal (byte_of (unat (j AND 3)) v) \<Longrightarrow>
          pmpcfg_read_byte rd j (pmpcfg_write_word wr w v s) = byte_of (unat (j AND 3)) v"
    and cfg_write_other: "j < 8 \<Longrightarrow> drop_bit 2 j \<noteq> w \<or> pmp_entry_locked rd j s \<Longrightarrow>
          pmpcfg_read_byte rd j (pmpcfg_write_word wr w v s) = pmpcfg_read_byte rd j s"
    and cfg_write_addr: "j < 8 \<Longrightarrow>
          pmpaddr_read rd j (pmpcfg_write_word wr w v s) = pmpaddr_read rd j s"

lemma unat_shift_of_index: "unat ((idx AND 3) * 8 :: u32) = unat (idx AND 3) * 8"
  and unat_index_less: "unat (idx AND 3 :: u32) < 4"
proof -
  have "unat (idx AND 3) \<le> unat (3::u32)"
    by (rule word_and_le1 [THEN word_le_nat_alt [THEN iffD1]])
  then show l: "unat (idx AND 3) < 4" by simp
  then show "unat ((idx AND 3) * 8) = unat (idx AND 3) * 8" by (simp add: unat_word_ariths)
qed

lemma pmpcfg_read_byte_of:
  "pmpcfg_read_byte rd idx s = byte_of (unat (idx AND 3)) (pmpcfg_read_word rd (drop_bit 2 idx) s)"
  by (simp add: pmpcfg_read_byte_def byte_of_def unat_shift_of_index Let_def)

lemma index_split: "drop_bit 2 i = drop_bit 2 j \<Longrightarrow> unat (i AND 3) = unat (j AND 3) \<Longrightarrow> i = (j::u32)"
proof -
  assume d: "drop_bit 2 i = drop_bit 2 j" and u: "unat (i AND 3) = unat (j AND 3)"
  from u have "i AND 3 = j AND 3" by (simp only: word_unat_eq_iff)
  moreover from d have "push_bit 2 (drop_bit 2 i) = push_bit 2 (drop_bit 2 j)" by (rule arg_cong)
  moreover have "push_bit 2 (drop_bit 2 x) + (x AND 3) = x" for x :: u32
    using bits_ident [of 2 x] by (simp add: take_bit_eq_mask mask_eq_exp_minus_1)
  ultimately show "i = j" by metis
qed

context pmp_csrs begin

lemma write_byte_cfg:
  assumes "i < 8" "j < 8" "pmp_cfg_legal (c AND 0xFF)"
  shows "pmpcfg_read_byte rd j (pmpcfg_write_byte rd wr i c s) =
     (if j = i \<and> \<not> pmp_entry_locked rd i s then c AND 0xFF else pmpcfg_read_byte rd j s)"
proof -
  let ?w = "pmpcfg_read_word rd (drop_bit 2 i) s"
  let ?v = "?w AND NOT (push_bit (unat (i AND 3) * 8) 0xFF) OR push_bit (unat (i AND 3) * 8) (c AND 0xFF)"
  have wb: "pmpcfg_write_byte rd wr i c s = pmpcfg_write_word wr (drop_bit 2 i) ?v s"
    by (simp add: pmpcfg_write_byte_def unat_shift_of_index Let_def)
  show ?thesis
  proof (cases "drop_bit 2 j = drop_bit 2 i \<and> \<not> pmp_entry_locked rd j s")
    case False
    then show ?thesis unfolding wb using assms by (auto simp: cfg_write_other)
  next
    case True
    then have d: "drop_bit 2 j = drop_bit 2 i" by simp
    have ix: "unat (j AND 3) = unat (i AND 3) \<longleftrightarrow> j = i" using index_split [OF d] by blast
    have b: "byte_of (unat (j AND 3)) ?v =
        (if j = i then c AND 0xFF else pmpcfg_read_byte rd j s)"
      by (simp only: byte_of_replace [OF unat_index_less unat_index_less] pmpcfg_read_byte_of ix d)
    have "pmp_cfg_legal (byte_of (unat (j AND 3)) ?v)"
      unfolding b using assms by (simp add: cfg_legal)
    from cfg_write [OF assms(2) d _ this] True
    have "pmpcfg_read_byte rd j (pmpcfg_write_byte rd wr i c s) =
        (if j = i then c AND 0xFF else pmpcfg_read_byte rd j s)"
      unfolding wb b by simp
    with True show ?thesis by auto
  qed
qed

lemma write_byte_addr:
  "j < 8 \<Longrightarrow> pmpaddr_read rd j (pmpcfg_write_byte rd wr i c s) = pmpaddr_read rd j s"
  by (simp add: pmpcfg_write_byte_def Let_def cfg_write_addr)

end

section \<open>What the calls leave in the registers\<close>

definition pmp_cfg_of :: "u32 \<Rightarrow> u32 \<Rightarrow> bool \<Rightarrow> u32" where
  "pmp_cfg_of sz perm lock =
     (let cfg = perm OR (if sz = 4 then PMP_MODE_NA4 else PMP_MODE_NAPOT)
      in if lock then cfg OR PMP_LOCK else cfg)"

definition pmp_perm_ok :: "u32 \<Rightarrow> bool" where
  "pmp_perm_ok perm \<longleftrightarrow> perm AND NOT PMP_PERM_RWX = 0 \<and> (bit perm 1 \<longrightarrow> bit perm 0)"

lemma perm_less_8:
  assumes "perm AND NOT (7 :: u32) = 0"
  shows "perm < 8"
proof -
  have "(perm AND m) OR (perm AND NOT m) = perm" for m
    by (rule bit_eqI) (auto simp: word_bits)
  from this [of 7] have "perm = take_bit 3 perm" using assms by (simp add: take_bit_eq_mask mask_eq_exp_minus_1)
  then have "unat perm = take_bit 3 (unat perm)" by (metis unsigned_take_bit_eq)
  then have "unat perm < 8" using take_bit_nat_less_exp [of 3 "unat perm"] by simp
  then show ?thesis by (simp add: word_less_nat_alt)
qed

lemma pmp_cfg_of_fields:
  assumes "pmp_perm_ok perm"
  shows "pmp_cfg_of sz perm lock AND 0xFF = pmp_cfg_of sz perm lock"
    and "pmp_cfg_legal (pmp_cfg_of sz perm lock)"
    and "pmp_cfg_of sz perm lock AND PMP_PERM_RWX = perm"
    and "pmp_cfg_of sz perm lock AND 0x18 = (if sz = 4 then PMP_MODE_NA4 else PMP_MODE_NAPOT)"
    and "pmp_cfg_of sz perm lock AND PMP_LOCK \<noteq> 0 \<longleftrightarrow> lock"
proof -
  have "perm = 0 \<or> perm = 1 \<or> perm = 3 \<or> perm = 4 \<or> perm = 5 \<or> perm = 7"
    using assms perm_less_8 [of perm] by (auto simp: pmp_perm_ok_def PMP_PERM_RWX_def u32_less_8)
  then show "pmp_cfg_of sz perm lock AND 0xFF = pmp_cfg_of sz perm lock"
    and "pmp_cfg_legal (pmp_cfg_of sz perm lock)"
    and "pmp_cfg_of sz perm lock AND PMP_PERM_RWX = perm"
    and "pmp_cfg_of sz perm lock AND 0x18 = (if sz = 4 then PMP_MODE_NA4 else PMP_MODE_NAPOT)"
    and "pmp_cfg_of sz perm lock AND PMP_LOCK \<noteq> 0 \<longleftrightarrow> lock"
    by (cases lock; auto simp: pmp_cfg_of_def pmp_consts pmp_cfg_legal_def)+
qed

lemma pmp_napot_encode_zero:
  assumes "pmp_valid_region base sz"
  shows "pmp_napot_encode base sz = 0 \<longleftrightarrow> base = 0 \<and> (sz = 4 \<or> sz = 8)"
proof
  assume "base = 0 \<and> (sz = 4 \<or> sz = 8)"
  then show "pmp_napot_encode base sz = 0" by (auto simp: pmp_napot_encode_def)
next
  assume z: "pmp_napot_encode base sz = 0"
  obtain k where k: "2 \<le> k" "k < 32" "sz = 2 ^ k" "take_bit k base = 0"
    "pmp_napot_encode base sz = (if sz = 4 then drop_bit 2 base else drop_bit 2 base OR mask (k - 3))"
    "sz = 4 \<longleftrightarrow> k = 2"
    using assms unfolding pmp_valid_region_def by (elim conjE) (rule pmp_napot_encode_shape)
  from z k have d: "drop_bit 2 base = 0" and m: "k = 2 \<or> mask (k - 3) = (0 :: u32)"
    by (auto simp: or_eq_0_iff split: if_splits)
  have "take_bit 2 base = take_bit 2 (take_bit k base)" using k(1) by (simp add: min_def)
  then have "take_bit 2 base = 0" using k(4) by simp
  with d bits_ident [of 2 base] have "base = 0" by simp
  moreover have "k = 2 \<or> k = 3"
  proof (rule ccontr)
    assume "\<not> (k = 2 \<or> k = 3)"
    with m k have "bit (mask (k - 3) :: u32) 0" by (simp add: bit_mask_iff)
    with m \<open>\<not> (k = 2 \<or> k = 3)\<close> show False by simp
  qed
  ultimately show "base = 0 \<and> (sz = 4 \<or> sz = 8)" using k(3) by auto
qed

lemma pmp_program_ok:
  assumes "idx < 8" "perm AND NOT PMP_PERM_RWX = 0"
    "pmp_valid_region base sz" "\<not> (base = 0 \<and> sz = 8)"
  shows "pmp_program rd wr idx base sz perm lock s =
    (0, pmpcfg_write_byte rd wr idx (pmp_cfg_of sz perm lock)
          (pmpaddr_write wr idx (pmp_napot_encode base sz) s))"
  using assms pmp_napot_encode_zero [of base sz]
  by (auto simp: pmp_program_def pmp_cfg_of_def PMP_NUM_REGIONS_def Let_def not_le [symmetric])

lemma pmp_program_error:
  assumes "\<not> (idx < 8 \<and> perm AND NOT PMP_PERM_RWX = 0 \<and> pmp_valid_region base sz
              \<and> \<not> (base = 0 \<and> sz = 8))"
  shows "pmp_program rd wr idx base sz perm lock s =
    ((if 8 \<le> idx then -1 else if perm AND NOT PMP_PERM_RWX \<noteq> 0 then -2 else -3), s)"
proof (cases "pmp_valid_region base sz")
  case True
  then show ?thesis using assms pmp_napot_encode_zero [of base sz]
    by (auto simp: pmp_program_def PMP_NUM_REGIONS_def Let_def not_le [symmetric])
next
  case False
  then have "\<not> (base = 0 \<and> sz = 4)" by (auto simp: pmp_valid_region_def)
  then show ?thesis using assms pmp_napot_encode_invalid [OF False]
    by (auto simp: pmp_program_def PMP_NUM_REGIONS_def Let_def not_le [symmetric])
qed

definition pmp_same_entry :: "'s csr_read \<Rightarrow> u32 \<Rightarrow> 's \<Rightarrow> 's \<Rightarrow> bool" where
  "pmp_same_entry rd j s s' \<longleftrightarrow> pmpcfg_read_byte rd j s' = pmpcfg_read_byte rd j s
     \<and> pmpaddr_read rd j s' = pmpaddr_read rd j s"

context pmp_csrs begin

lemma get_region: "j < 8 \<Longrightarrow> pmp_get_region rd j s = (0, Some (pmpcfg_read_byte rd j s, pmpaddr_read rd j s))"
  by (simp add: pmp_get_region_def PMP_NUM_REGIONS_def not_le [symmetric])

lemma program_entry:
  assumes "idx < 8" "pmp_perm_ok perm" "\<not> pmp_addr_locked rd idx s" "j < 8"
    and s'_def: "s' = pmpcfg_write_byte rd wr idx (pmp_cfg_of sz perm lock) (pmpaddr_write wr idx p s)"
  shows "pmpcfg_read_byte rd j s' = (if j = idx then pmp_cfg_of sz perm lock else pmpcfg_read_byte rd j s)"
    and "pmpaddr_read rd j s' = (if j = idx then p else pmpaddr_read rd j s)"
proof -
  have "\<not> pmp_entry_locked rd idx s" using assms(3) by (simp add: pmp_addr_locked_def)
  then have "\<not> pmp_entry_locked rd idx (pmpaddr_write wr idx p s)"
    using assms(1) by (simp add: pmp_entry_locked_def addr_write_cfg)
  then show "pmpcfg_read_byte rd j s' = (if j = idx then pmp_cfg_of sz perm lock else pmpcfg_read_byte rd j s)"
    using assms pmp_cfg_of_fields(1,2) [OF assms(2)]
    by (simp add: s'_def write_byte_cfg addr_write_cfg)
  show "pmpaddr_read rd j s' = (if j = idx then p else pmpaddr_read rd j s)"
    using assms by (simp add: s'_def write_byte_addr addr_write)
qed

lemma locked_entry_kept:
  assumes "j < 8" "pmp_entry_locked rd j s"
  shows "idx < 8 \<Longrightarrow> pmp_same_entry rd j s (pmpaddr_write wr idx v s)"
    and "pmp_same_entry rd j s (pmpcfg_write_byte rd wr idx c s)"
  using assms
  by (auto simp: pmp_same_entry_def addr_write addr_write_cfg pmp_addr_locked_def
      pmpcfg_write_byte_def Let_def cfg_write_other cfg_write_addr)

lemma same_entry_trans: "pmp_same_entry rd j s t \<Longrightarrow> pmp_same_entry rd j t u \<Longrightarrow> pmp_same_entry rd j s u"
  by (simp add: pmp_same_entry_def)

lemma same_entry_refl [simp]: "pmp_same_entry rd j s s"
  by (simp add: pmp_same_entry_def)

lemma same_entry_locked: "pmp_same_entry rd j s t \<Longrightarrow> pmp_entry_locked rd j s \<Longrightarrow> pmp_entry_locked rd j t"
  by (simp add: pmp_same_entry_def pmp_entry_locked_def)

lemma locked_two_writes:
  assumes "j < 8" "pmp_entry_locked rd j s" "idx < 8"
  shows "pmp_same_entry rd j s (pmpcfg_write_byte rd wr idx c (pmpaddr_write wr idx v s))"
    and "pmp_same_entry rd j s (pmpaddr_write wr idx v (pmpcfg_write_byte rd wr idx c s))"
proof -
  note l = locked_entry_kept [OF assms(1)] and i = assms(2,3)
  have "pmp_same_entry rd j s (pmpaddr_write wr idx v s)" using i by (intro l)
  from same_entry_trans [OF this l(2) [OF same_entry_locked [OF this assms(2)]]]
  show "pmp_same_entry rd j s (pmpcfg_write_byte rd wr idx c (pmpaddr_write wr idx v s))" .
  have "pmp_same_entry rd j s (pmpcfg_write_byte rd wr idx c s)" using i by (intro l)
  from same_entry_trans [OF this l(1) [OF same_entry_locked [OF this assms(2)] assms(3)]]
  show "pmp_same_entry rd j s (pmpaddr_write wr idx v (pmpcfg_write_byte rd wr idx c s))" .
qed

lemma locked_program:
  assumes "j < 8" "pmp_entry_locked rd j s"
  shows "pmp_same_entry rd j s (snd (pmp_program rd wr idx base sz perm lock s))"
  by (simp add: pmp_program_def PMP_NUM_REGIONS_def Let_def not_le locked_two_writes [OF assms])

lemma locked_clear:
  assumes "j < 8" "pmp_entry_locked rd j s"
  shows "pmp_same_entry rd j s (snd (pmp_clear_region rd wr idx s))"
  by (simp add: pmp_clear_region_def PMP_NUM_REGIONS_def Let_def not_le locked_two_writes [OF assms])

end

section \<open>A register file that keeps the laws\<close>

text \<open>
  A concrete PMP with full-width address registers and four-byte granularity: configuration bytes
  are legalised when read, locked entries ignore writes, and so does the address register below
  a locked TOR entry.
\<close>

record pmp_hw =
  hw_cfg :: "nat \<Rightarrow> u32"
  hw_addr :: "nat \<Rightarrow> u32"

definition hw_legalise :: "u32 \<Rightarrow> u32" where
  "hw_legalise c = (let c = unset_bit 5 (unset_bit 6 (c AND 0xFF))
     in if bit c 1 \<and> \<not> bit c 0 then unset_bit 1 c else c)"

definition hw_cfg_at :: "nat \<Rightarrow> pmp_hw \<Rightarrow> u32" where
  "hw_cfg_at j s = hw_legalise (hw_cfg s j)"

definition hw_cfg_word :: "nat \<Rightarrow> pmp_hw \<Rightarrow> u32" where
  "hw_cfg_word b s = hw_cfg_at b s OR push_bit 8 (hw_cfg_at (b + 1) s)
     OR push_bit 16 (hw_cfg_at (b + 2) s) OR push_bit 24 (hw_cfg_at (b + 3) s)"

definition hw_locked :: "nat \<Rightarrow> pmp_hw \<Rightarrow> bool" where
  "hw_locked j s \<longleftrightarrow> hw_cfg_at j s AND 0x80 \<noteq> 0"

definition hw_put_cfgs :: "nat \<Rightarrow> u32 \<Rightarrow> pmp_hw \<Rightarrow> pmp_hw" where
  "hw_put_cfgs b v s = s\<lparr>hw_cfg := (\<lambda>j. if b \<le> j \<and> j < b + 4 \<and> \<not> hw_locked j s
     then byte_of (j - b) v else hw_cfg s j)\<rparr>"

definition hw_put_addr :: "nat \<Rightarrow> u32 \<Rightarrow> pmp_hw \<Rightarrow> pmp_hw" where
  "hw_put_addr j v s =
     (if hw_locked j s \<or> j < 7 \<and> hw_locked (j + 1) s \<and> hw_cfg_at (j + 1) s AND 0x18 = 0x08 then s
      else s\<lparr>hw_addr := (hw_addr s)(j := v)\<rparr>)"

fun hw_read :: "csr \<Rightarrow> pmp_hw \<Rightarrow> u32" where
  "hw_read pmpcfg0 s = hw_cfg_word 0 s"
| "hw_read pmpcfg1 s = hw_cfg_word 4 s"
| "hw_read pmpaddr0 s = hw_addr s 0"
| "hw_read pmpaddr1 s = hw_addr s 1"
| "hw_read pmpaddr2 s = hw_addr s 2"
| "hw_read pmpaddr3 s = hw_addr s 3"
| "hw_read pmpaddr4 s = hw_addr s 4"
| "hw_read pmpaddr5 s = hw_addr s 5"
| "hw_read pmpaddr6 s = hw_addr s 6"
| "hw_read pmpaddr7 s = hw_addr s 7"
| "hw_read _ s = 0"

fun hw_write :: "csr \<Rightarrow> u32 \<Rightarrow> pmp_hw \<Rightarrow> pmp_hw" where
  "hw_write pmpcfg0 v s = hw_put_cfgs 0 v s"
| "hw_write pmpcfg1 v s = hw_put_cfgs 4 v s"
| "hw_write pmpaddr0 v s = hw_put_addr 0 v s"
| "hw_write pmpaddr1 v s = hw_put_addr 1 v s"
| "hw_write pmpaddr2 v s = hw_put_addr 2 v s"
| "hw_write pmpaddr3 v s = hw_put_addr 3 v s"
| "hw_write pmpaddr4 v s = hw_put_addr 4 v s"
| "hw_write pmpaddr5 v s = hw_put_addr 5 v s"
| "hw_write pmpaddr6 v s = hw_put_addr 6 v s"
| "hw_write pmpaddr7 v s = hw_put_addr 7 v s"
| "hw_write _ v s = s"

lemma byte_of_cfg_word:
  assumes "c0 AND 0xFF = c0" "c1 AND 0xFF = c1" "c2 AND 0xFF = c2" "c3 AND 0xFF = c3"
  defines "w \<equiv> c0 OR push_bit 8 c1 OR push_bit 16 c2 OR push_bit 24 c3"
  shows "byte_of 0 w = c0" "byte_of (Suc 0) w = c1" "byte_of 2 w = c2" "byte_of 3 w = c3"
proof -
  have ff: "(0xFF :: u32) = mask 8" by (simp add: mask_eq_exp_minus_1)
  have lo: "n < 8" if "bit c n" "c AND 0xFF = c" for c :: u32 and n
    using that unfolding ff by (metis bit_and_iff bit_mask_iff)
  note l = lo [OF _ assms(1)] lo [OF _ assms(2)] lo [OF _ assms(3)] lo [OF _ assms(4)]
  have sub: "byte_of j w = c" if "\<And>n. n < 8 \<Longrightarrow> bit w (j * 8 + n) = bit c n" "c AND 0xFF = c" "j < 4" for j c
    using that lo [OF _ that(2)] by (auto intro!: bit_eqI simp: byte_of_def ff word_bits)
  show "byte_of 0 w = c0" by (rule sub) (use assms l in \<open>auto simp: w_def word_bits\<close>)
  show "byte_of (Suc 0) w = c1" by (rule sub) (use assms in \<open>auto simp: w_def word_bits dest: l\<close>)
  show "byte_of 2 w = c2" by (rule sub) (use assms in \<open>auto simp: w_def word_bits dest: l\<close>)
  show "byte_of 3 w = c3" by (rule sub) (use assms in \<open>auto simp: w_def word_bits dest: l\<close>)
qed

lemma hw_legalise_byte [simp]: "hw_legalise c AND 0xFF = hw_legalise c"
proof -
  have ff: "(0xFF :: u32) = mask 8" by (simp add: mask_eq_exp_minus_1)
  show ?thesis unfolding hw_legalise_def Let_def ff
    by (rule bit_eqI) (auto simp: word_bits bit_unset_bit_iff)
qed

lemma hw_legalise_legal: "pmp_cfg_legal (hw_legalise c)"
  by (auto simp: hw_legalise_def pmp_cfg_legal_def Let_def bit_unset_bit_iff)

lemma hw_legalise_of_legal:
  assumes "pmp_cfg_legal (byte_of j v)"
  shows "hw_legalise (byte_of j v) = byte_of j v"
proof -
  have "unset_bit n c = c" if "\<not> bit c n" for n and c :: u32
    using that by (auto intro!: bit_eqI simp: bit_unset_bit_iff)
  then show ?thesis using assms
    by (auto simp: hw_legalise_def pmp_cfg_legal_def byte_of_def Let_def and.assoc)
qed

lemma hw_read_byte:
  assumes "j < 8"
  shows "pmpcfg_read_byte hw_read j s = hw_cfg_at (unat j) s"
proof -
  have "byte_of n (hw_cfg_word b s) = hw_cfg_at (b + n) s" if "n = 0 \<or> n = Suc 0 \<or> n = 2 \<or> n = 3" for n b
    using that by (auto simp: hw_cfg_word_def hw_cfg_at_def byte_of_cfg_word)
  then show ?thesis
    using assms by (auto simp: u32_less_8 pmpcfg_read_byte_of pmpcfg_read_word_def simp flip: numeral_2_eq_2)
qed

lemma hw_read_addr: "j < 8 \<Longrightarrow> pmpaddr_read hw_read j s = hw_addr s (unat j)"
  by (auto simp: u32_less_8 pmpaddr_read_def)

lemma hw_write_addr: "j < 8 \<Longrightarrow> pmpaddr_write hw_write j v s = hw_put_addr (unat j) v s"
  by (auto simp: u32_less_8 pmpaddr_write_def)

lemma hw_write_word:
  "pmpcfg_write_word hw_write w v s = (if w = 0 then hw_put_cfgs 0 v s else if w = 1 then hw_put_cfgs 4 v s else s)"
  by (simp add: pmpcfg_write_word_def)

lemma hw_cfg_at_put_addr [simp]: "hw_cfg_at j (hw_put_addr i v s) = hw_cfg_at j s"
  by (simp add: hw_put_addr_def hw_cfg_at_def)

lemma hw_addr_put_cfgs [simp]: "hw_addr (hw_put_cfgs b v s) = hw_addr s"
  by (simp add: hw_put_cfgs_def)

lemma hw_cfg_at_put_cfgs:
  "hw_cfg_at j (hw_put_cfgs b v s) =
     (if b \<le> j \<and> j < b + 4 \<and> \<not> hw_locked j s then hw_legalise (byte_of (j - b) v) else hw_cfg_at j s)"
  by (simp add: hw_put_cfgs_def hw_cfg_at_def)

lemma hw_entry_locked: "j < 8 \<Longrightarrow> pmp_entry_locked hw_read j s = hw_locked (unat j) s"
  by (simp add: pmp_entry_locked_def hw_read_byte hw_locked_def PMP_LOCK_def)

lemma hw_addr_locked:
  assumes "j < 8"
  shows "pmp_addr_locked hw_read j s \<longleftrightarrow> hw_locked (unat j) s \<or>
    unat j < 7 \<and> hw_locked (unat j + 1) s \<and> hw_cfg_at (unat j + 1) s AND 0x18 = 0x08"
proof -
  have "unat (j + 1) = unat j + 1" "j + 1 < 8" if "j < 7"
    using that by (auto simp: word_less_nat_alt unat_word_ariths)
  then show ?thesis using assms
    by (auto simp: pmp_addr_locked_def hw_entry_locked hw_read_byte word_less_nat_alt)
qed

lemma index_word:
  assumes "j < (8 :: u32)"
  shows "drop_bit 2 j = w \<longleftrightarrow> w = (if unat j < 4 then 0 else 1)" "unat (j AND 3) = unat j mod 4"
  using assms by (auto simp: u32_less_8)

interpretation hw: pmp_csrs hw_read hw_write
proof
  fix i j w v s
  show "pmp_cfg_legal (pmpcfg_read_byte hw_read j s)" if "j < 8"
    using that by (simp add: hw_read_byte hw_cfg_at_def hw_legalise_legal)
  show "pmpaddr_read hw_read j (pmpaddr_write hw_write i v s) =
      (if j = i \<and> \<not> pmp_addr_locked hw_read i s then v else pmpaddr_read hw_read j s)"
    if "i < 8" "j < 8"
    using that by (auto simp: hw_read_addr hw_write_addr hw_addr_locked hw_put_addr_def word_unat_eq_iff)
  show "pmpcfg_read_byte hw_read j (pmpaddr_write hw_write i v s) = pmpcfg_read_byte hw_read j s"
    if "i < 8" "j < 8"
    using that by (simp add: hw_read_byte hw_write_addr)
  show "pmpcfg_read_byte hw_read j (pmpcfg_write_word hw_write w v s) = byte_of (unat (j AND 3)) v"
    if "j < 8" "drop_bit 2 j = w" "\<not> pmp_entry_locked hw_read j s" "pmp_cfg_legal (byte_of (unat (j AND 3)) v)"
    using that by (auto simp: hw_read_byte hw_write_word hw_cfg_at_put_cfgs hw_entry_locked
        hw_legalise_of_legal index_word word_less_nat_alt le_mod_geq split: if_splits)
  show "pmpcfg_read_byte hw_read j (pmpcfg_write_word hw_write w v s) = pmpcfg_read_byte hw_read j s"
    if "j < 8" "drop_bit 2 j \<noteq> w \<or> pmp_entry_locked hw_read j s"
    using that by (auto simp: hw_read_byte hw_write_word hw_cfg_at_put_cfgs hw_entry_locked
        index_word word_less_nat_alt split: if_splits)
  show "pmpaddr_read hw_read j (pmpcfg_write_word hw_write w v s) = pmpaddr_read hw_read j s" if "j < 8"
    using that by (simp add: hw_read_addr hw_write_word)
qed

section \<open>Driver calls\<close>

text \<open>The calls of pmp.h that write the unit, and a run of them.\<close>

datatype pmp_call =
    Set_region u32 u32 u32 u32
  | Lock_region u32 u32 u32 u32
  | Clear_region u32

fun pmp_call_step :: "'s csr_read \<Rightarrow> 's csr_write \<Rightarrow> pmp_call \<Rightarrow> 's \<Rightarrow> 's" where
  "pmp_call_step rd wr (Set_region idx base sz perm) s = snd (pmp_set_region rd wr idx base sz perm s)"
| "pmp_call_step rd wr (Lock_region idx base sz perm) s = snd (pmp_lock_region rd wr idx base sz perm s)"
| "pmp_call_step rd wr (Clear_region idx) s = snd (pmp_clear_region rd wr idx s)"

fun pmp_run :: "'s csr_read \<Rightarrow> 's csr_write \<Rightarrow> pmp_call list \<Rightarrow> 's \<Rightarrow> 's" where
  "pmp_run rd wr [] s = s"
| "pmp_run rd wr (c # cs) s = pmp_run rd wr cs (pmp_call_step rd wr c s)"

text \<open>The readable effect of programming one entry: its byte and register, and nothing else.\<close>

definition pmp_programmed :: "'s csr_read \<Rightarrow> u32 \<Rightarrow> u32 \<Rightarrow> u32 \<Rightarrow> u32 \<Rightarrow> bool \<Rightarrow> 's \<Rightarrow> 's \<Rightarrow> bool" where
  "pmp_programmed rd idx base sz perm lock s s' \<longleftrightarrow> (\<exists>cfg addr.
      pmp_get_region rd idx s' = (0, Some (cfg, addr))
    \<and> cfg AND PMP_PERM_RWX = perm \<and> (cfg AND PMP_LOCK \<noteq> 0 \<longleftrightarrow> lock)
    \<and> (\<forall>a. pmp_covers cfg addr a \<longleftrightarrow> unat base \<le> unat a \<and> unat a < unat base + unat sz)
    \<and> (\<forall>j<8. j \<noteq> idx \<longrightarrow> pmp_get_region rd j s' = pmp_get_region rd j s))"

context pmp_csrs begin

lemma program_spec:
  assumes "idx < 8" "pmp_perm_ok perm"
    and "pmp_valid_region base sz" "\<not> (base = 0 \<and> sz = 8)"
    and "\<not> pmp_addr_locked rd idx s"
  shows "\<exists>s'. pmp_program rd wr idx base sz perm lock s = (0, s')
    \<and> pmp_programmed rd idx base sz perm lock s s'"
proof -
  define s' where s': "s' = pmpcfg_write_byte rd wr idx (pmp_cfg_of sz perm lock)
    (pmpaddr_write wr idx (pmp_napot_encode base sz) s)"
  have "perm AND NOT PMP_PERM_RWX = 0" using assms(2) by (simp add: pmp_perm_ok_def)
  with assms have run: "pmp_program rd wr idx base sz perm lock s = (0, s')"
    unfolding s' by (intro pmp_program_ok)
  note e = program_entry [OF assms(1,2,5) _ s']
  note f = pmp_cfg_of_fields [OF assms(2)]
  have g: "pmp_get_region rd idx s' = (0, Some (pmp_cfg_of sz perm lock, pmp_napot_encode base sz))"
    using assms(1) by (simp add: get_region e)
  have "\<forall>j<8. j \<noteq> idx \<longrightarrow> pmp_get_region rd j s' = pmp_get_region rd j s"
    by (simp add: get_region e)
  with run g f show ?thesis
    unfolding pmp_programmed_def
    by (intro exI conjI) (assumption | rule refl pmp_napot_encode_covers [OF assms(3)] allI)+
qed

lemma locked_run:
  assumes "j < 8" "pmp_entry_locked rd j s"
  shows "pmp_same_entry rd j s (pmp_run rd wr calls s)"
  using assms(2)
proof (induction calls arbitrary: s)
  case (Cons c calls)
  have step: "pmp_same_entry rd j s (pmp_call_step rd wr c s)"
    using Cons.prems assms(1)
    by (cases c) (simp_all add: pmp_set_region_def pmp_lock_region_def locked_program locked_clear)
  from same_entry_trans [OF step Cons.IH [OF same_entry_locked [OF step Cons.prems]]]
  show ?case by simp
qed simp

lemma lock_is_final:
  assumes "idx < 8" "pmp_perm_ok perm"
    and "pmp_valid_region base sz" "\<not> (base = 0 \<and> sz = 8)"
    and "\<not> pmp_addr_locked rd idx s"
  shows "\<exists>s'. pmp_lock_region rd wr idx base sz perm s = (0, s')
    \<and> pmp_programmed rd idx base sz perm True s s'
    \<and> (\<forall>calls. pmp_get_region rd idx (pmp_run rd wr calls s') = pmp_get_region rd idx s')"
proof -
  from program_spec [OF assms, of True] obtain s'
    where s': "pmp_program rd wr idx base sz perm True s = (0, s')"
      "pmp_programmed rd idx base sz perm True s s'" by blast
  from s'(2) assms(1) have "pmp_entry_locked rd idx s'"
    by (auto simp: pmp_programmed_def get_region pmp_entry_locked_def)
  from locked_run [OF assms(1) this]
  have "pmp_get_region rd idx (pmp_run rd wr calls s') = pmp_get_region rd idx s'" for calls
    using assms(1) by (simp add: get_region pmp_same_entry_def)
  with s' show ?thesis by (auto simp: pmp_lock_region_def)
qed

lemma clear_spec:
  assumes "idx < 8"
  shows "\<exists>s'. pmp_clear_region rd wr idx s = (0, s') \<and>
    pmp_get_region rd idx s' =
      (if pmp_entry_locked rd idx s then pmp_get_region rd idx s
       else (0, Some (0, if pmp_addr_locked rd idx s then pmpaddr_read rd idx s else 0))) \<and>
    (\<forall>j<8. j \<noteq> idx \<longrightarrow> pmp_get_region rd j s' = pmp_get_region rd j s)"
proof -
  let ?s = "pmpcfg_write_byte rd wr idx 0 s"
  have legal: "pmp_cfg_legal (0 AND 0xFF)" by (simp add: pmp_cfg_legal_def)
  have w: "pmpcfg_read_byte rd j ?s = (if j = idx \<and> \<not> pmp_entry_locked rd idx s then 0
      else pmpcfg_read_byte rd j s)" if "j < 8" for j
    using write_byte_cfg [OF assms that legal] by simp
  have next8: "idx + 1 < 8" "idx + 1 \<noteq> idx" if "idx < 7"
    using that by (auto simp: word_less_nat_alt unat_word_ariths)
  have l: "pmp_addr_locked rd idx ?s \<longleftrightarrow> pmp_addr_locked rd idx s"
    using assms next8 by (auto simp: pmp_addr_locked_def pmp_entry_locked_def w)
  show ?thesis using assms pmp_addr_locked_def [of rd idx s]
    by (simp add: pmp_clear_region_def PMP_NUM_REGIONS_def not_le [symmetric] Let_def get_region
        addr_write addr_write_cfg w write_byte_addr l PMP_MODE_OFF_def)
qed

end
section \<open>Properties\<close>

text \<open>A register file after reset, used by the witnesses.\<close>

definition hw_blank :: pmp_hw where
  "hw_blank = \<lparr>hw_cfg = (\<lambda>_. 0), hw_addr = (\<lambda>_. 0)\<rparr>"

lemma hw_blank_unlocked: "j < 8 \<Longrightarrow> \<not> pmp_addr_locked hw_read j hw_blank"
  by (simp add: hw_addr_locked hw_locked_def hw_cfg_at_def hw_blank_def hw_legalise_def)

text \<open>C1: A lock is final. \<open>pmp_lock_region\<close> on an unlocked entry returns 0 and leaves the entry
  with the permission asked for, the lock bit, and a match of exactly the region's bytes; after
  that no sequence of \<open>pmp_set_region\<close>, \<open>pmp_lock_region\<close> and \<open>pmp_clear_region\<close> calls,
  whatever their arguments, changes what \<open>pmp_get_region\<close> reads for it.\<close>

theorem pmp_lock_region_final:
  assumes "pmp_csrs rd wr" "idx < 8" "pmp_perm_ok perm"
    and "pmp_valid_region base sz" "\<not> (base = 0 \<and> sz = 8)"
    and "\<not> pmp_addr_locked rd idx s"
  shows "\<exists>s'. pmp_lock_region rd wr idx base sz perm s = (0, s')
    \<and> pmp_programmed rd idx base sz perm True s s'
    \<and> (\<forall>calls. pmp_get_region rd idx (pmp_run rd wr calls s') = pmp_get_region rd idx s')"
  using assms by (rule pmp_csrs.lock_is_final)

theorem pmp_lock_region_final_witness:
  "\<exists>s'. pmp_lock_region hw_read hw_write 1 0x80010000 0x10000 PMP_PERM_RW hw_blank = (0, s')
    \<and> pmp_programmed hw_read 1 0x80010000 0x10000 PMP_PERM_RW True hw_blank s'
    \<and> (\<forall>calls. pmp_get_region hw_read 1 (pmp_run hw_read hw_write calls s') = pmp_get_region hw_read 1 s')"
  by (rule pmp_lock_region_final [OF hw.pmp_csrs_axioms])
    (simp_all add: pmp_perm_ok_def pmp_valid_region_def hw_blank_unlocked PMP_PERM_RW_def PMP_PERM_RWX_def)

text \<open>C2: \<open>pmp_set_region\<close> on an unlocked entry with a valid region and a grantable permission
  returns 0; reading the entry back gives exactly the permission asked for, without the lock bit,
  and an address register that covers exactly the bytes from \<open>base\<close> up to \<open>base + size\<close>; every
  other entry reads as before.\<close>

theorem pmp_set_region_spec:
  assumes "pmp_csrs rd wr" "idx < 8" "pmp_perm_ok perm"
    and "pmp_valid_region base sz" "\<not> (base = 0 \<and> sz = 8)"
    and "\<not> pmp_addr_locked rd idx s"
  shows "\<exists>s'. pmp_set_region rd wr idx base sz perm s = (0, s')
    \<and> pmp_programmed rd idx base sz perm False s s'"
  unfolding pmp_set_region_def using assms by (rule pmp_csrs.program_spec)

theorem pmp_set_region_spec_witness:
  "\<exists>s'. pmp_set_region hw_read hw_write 7 0x4 4 PMP_PERM_X hw_blank = (0, s')
    \<and> pmp_programmed hw_read 7 0x4 4 PMP_PERM_X False hw_blank s'"
  by (rule pmp_set_region_spec [OF hw.pmp_csrs_axioms])
    (simp_all add: pmp_perm_ok_def pmp_valid_region_def hw_blank_unlocked PMP_PERM_X_def PMP_PERM_RWX_def)

text \<open>C3: The result codes of the programming calls, for every argument and every CSR behaviour:
  the checks come in the order index, permission, region; a refused call leaves the unit untouched;
  and the accepted regions are the aligned powers of two from 4 bytes up, except that the
  eight-byte region at address 0 is refused although it is one of them.\<close>

theorem pmp_program_result:
  "pmp_program rd wr idx base sz perm lock s =
    (if 8 \<le> idx then (-1, s)
     else if perm AND NOT PMP_PERM_RWX \<noteq> 0 then (-2, s)
     else if pmp_valid_region base sz \<and> \<not> (base = 0 \<and> sz = 8)
     then (0, pmpcfg_write_byte rd wr idx (pmp_cfg_of sz perm lock)
                (pmpaddr_write wr idx (pmp_napot_encode base sz) s))
     else (-3, s))"
proof (cases "idx < 8 \<and> perm AND NOT PMP_PERM_RWX = 0 \<and> pmp_valid_region base sz
    \<and> \<not> (base = 0 \<and> sz = 8)")
  case True
  then show ?thesis by (auto simp: pmp_program_ok not_le [symmetric])
next
  case False
  then show ?thesis unfolding pmp_program_error [OF False] by auto
qed

text \<open>\<open>pmp_clear_region\<close> on a valid index always returns 0. An unlocked entry then reads
  configuration byte 0 and, unless a locked TOR entry sits above it, address 0; a locked entry reads
  exactly as before, so its failure shows only through \<open>pmp_get_region\<close>. No other entry
  changes.\<close>

theorem pmp_clear_region_spec:
  assumes "pmp_csrs rd wr" "idx < 8"
  shows "\<exists>s'. pmp_clear_region rd wr idx s = (0, s') \<and>
    pmp_get_region rd idx s' =
      (if pmp_entry_locked rd idx s then pmp_get_region rd idx s
       else (0, Some (0, if pmp_addr_locked rd idx s then pmpaddr_read rd idx s else 0))) \<and>
    (\<forall>j<8. j \<noteq> idx \<longrightarrow> pmp_get_region rd j s' = pmp_get_region rd j s)"
  using assms by (rule pmp_csrs.clear_spec)

theorem pmp_clear_region_spec_witness:
  "\<exists>s'. pmp_clear_region hw_read hw_write 3 hw_blank = (0, s') \<and>
    pmp_get_region hw_read 3 s' =
      (if pmp_entry_locked hw_read 3 hw_blank then pmp_get_region hw_read 3 hw_blank
       else (0, Some (0, if pmp_addr_locked hw_read 3 hw_blank then pmpaddr_read hw_read 3 hw_blank else 0))) \<and>
    (\<forall>j<8. j \<noteq> 3 \<longrightarrow> pmp_get_region hw_read j s' = pmp_get_region hw_read j hw_blank)"
  by (rule pmp_clear_region_spec [OF hw.pmp_csrs_axioms]) simp

end
