(* ===== verification/Libc.thy ===== *)
theory Libc
  imports Platform_Prelude "HOL-Library.List_Lexorder"
begin

text \<open>
  The freestanding C library routines of the repository: Middleware/benchmark/common/bench_libc.c,
  the fill-ins of Middleware/FreeRTOS/port/RISC-V/port_glue.c, and the checked variants of
  Platform/Common/Src/util.c. All work on the byte-addressed memory; pointers are 32-bit words that
  wrap, \<open>size_t\<close> arguments are words whose countdown is a recursion on their value. A loop over a C
  string may not end, so it is a partial function, \<open>None\<close> when it never returns.
\<close>

section \<open>bench_libc.c: memory\<close>

text \<open>\<open>while (n--) *d++ = *s++;\<close>\<close>

fun copy_bytes :: "mem \<Rightarrow> u32 \<Rightarrow> u32 \<Rightarrow> nat \<Rightarrow> mem" where
  "copy_bytes m d s 0 = m"
| "copy_bytes m d s (Suc n) = copy_bytes (m(d := m s)) (d + 1) (s + 1) n"

text \<open>\<open>while (n >= 4) { *dw++ = *sw++; n -= 4; }\<close>\<close>

fun copy_words :: "mem \<Rightarrow> u32 \<Rightarrow> u32 \<Rightarrow> nat \<Rightarrow> mem \<times> u32 \<times> u32 \<times> nat" where
  "copy_words m d s n =
     (if 4 \<le> n then copy_words (st32 m d (ld32 m s)) (d + 4) (s + 4) (n - 4) else (m, d, s, n))"

definition bench_memcpy :: "mem \<Rightarrow> u32 \<Rightarrow> u32 \<Rightarrow> u32 \<Rightarrow> mem \<times> u32" where
  "bench_memcpy m dst src n =
     (let (m, d, s, k) = (if (dst OR src) AND 3 = 0 then copy_words m dst src (unat n)
                          else (m, dst, src, unat n))
      in (copy_bytes m d s k, dst))"

text \<open>\<open>while (n--) *--d = *--s;\<close>\<close>

fun copy_down :: "mem \<Rightarrow> u32 \<Rightarrow> u32 \<Rightarrow> nat \<Rightarrow> mem" where
  "copy_down m d s 0 = m"
| "copy_down m d s (Suc n) = copy_down (m(d - 1 := m (s - 1))) (d - 1) (s - 1) n"

definition bench_memmove :: "mem \<Rightarrow> u32 \<Rightarrow> u32 \<Rightarrow> u32 \<Rightarrow> mem \<times> u32" where
  "bench_memmove m dst src n =
     (if dst = src \<or> n = 0 then (m, dst)
      else if dst < src then bench_memcpy m dst src n
      else (copy_down m (dst + n) (src + n) (unat n), dst))"

fun set_bytes :: "mem \<Rightarrow> u32 \<Rightarrow> u8 \<Rightarrow> nat \<Rightarrow> mem" where
  "set_bytes m d v 0 = m"
| "set_bytes m d v (Suc n) = set_bytes (m(d := v)) (d + 1) v n"

fun set_words :: "mem \<Rightarrow> u32 \<Rightarrow> u32 \<Rightarrow> nat \<Rightarrow> mem \<times> u32 \<times> nat" where
  "set_words m d w n = (if 4 \<le> n then set_words (st32 m d w) (d + 4) w (n - 4) else (m, d, n))"

definition bench_memset :: "mem \<Rightarrow> u32 \<Rightarrow> u32 \<Rightarrow> u32 \<Rightarrow> mem \<times> u32" where
  "bench_memset m dst c n =
     (let v = (ucast c :: u8);
          w = push_bit 24 (ucast v) OR push_bit 16 (ucast v) OR push_bit 8 (ucast v) OR ucast v;
          (m, d, k) = (if dst AND 3 = 0 \<and> 4 \<le> n then set_words m dst w (unat n) else (m, dst, unat n))
      in (set_bytes m d v k, dst))"

fun cmp_bytes :: "mem \<Rightarrow> u32 \<Rightarrow> u32 \<Rightarrow> nat \<Rightarrow> int" where
  "cmp_bytes m p q 0 = 0"
| "cmp_bytes m p q (Suc n) =
     (if m p \<noteq> m q then uint (m p) - uint (m q) else cmp_bytes m (p + 1) (q + 1) n)"

definition bench_memcmp :: "mem \<Rightarrow> u32 \<Rightarrow> u32 \<Rightarrow> u32 \<Rightarrow> int" where
  "bench_memcmp m a b n = cmp_bytes m a b (unat n)"

section \<open>bench_libc.c: strings\<close>

text \<open>\<open>while (*p) p++;\<close>\<close>

partial_function (option) str_end :: "mem \<Rightarrow> u32 \<Rightarrow> u32 option" where
  [code]: "str_end m p = (if m p \<noteq> 0 then str_end m (p + 1) else Some p)"

definition bench_strlen :: "mem \<Rightarrow> u32 \<Rightarrow> u32 option" where
  "bench_strlen m s = map_option (\<lambda>p. p - s) (str_end m s)"

text \<open>\<open>while ((*d++ = *src++) != 0) { }\<close>\<close>

partial_function (option) str_copy :: "mem \<Rightarrow> u32 \<Rightarrow> u32 \<Rightarrow> mem option" where
  [code]: "str_copy m d s =
     (let c = m s; m' = m(d := c) in if c \<noteq> 0 then str_copy m' (d + 1) (s + 1) else Some m')"

definition bench_strcpy :: "mem \<Rightarrow> u32 \<Rightarrow> u32 \<Rightarrow> (mem \<times> u32) option" where
  "bench_strcpy m dst src = map_option (\<lambda>m'. (m', dst)) (str_copy m dst src)"

fun strncpy_copy :: "mem \<Rightarrow> u32 \<Rightarrow> u32 \<Rightarrow> nat \<Rightarrow> mem \<times> u32 \<times> nat" where
  "strncpy_copy m d s 0 = (m, d, 0)"
| "strncpy_copy m d s (Suc n) =
     (let c = m s; m' = m(d := c) in if c \<noteq> 0 then strncpy_copy m' (d + 1) (s + 1) n else (m', d, Suc n))"

definition bench_strncpy :: "mem \<Rightarrow> u32 \<Rightarrow> u32 \<Rightarrow> u32 \<Rightarrow> mem \<times> u32" where
  "bench_strncpy m dst src n =
     (let (m, d, k) = strncpy_copy m dst src (unat n) in (set_bytes m d 0 k, dst))"

partial_function (option) bench_strcmp :: "mem \<Rightarrow> u32 \<Rightarrow> u32 \<Rightarrow> int option" where
  [code]: "bench_strcmp m a b =
     (if m a \<noteq> 0 \<and> m a = m b then bench_strcmp m (a + 1) (b + 1)
      else Some (uint (m a) - uint (m b)))"

fun strncmp_loop :: "mem \<Rightarrow> u32 \<Rightarrow> u32 \<Rightarrow> nat \<Rightarrow> int" where
  "strncmp_loop m a b 0 = 0"
| "strncmp_loop m a b (Suc n) =
     (if m a \<noteq> 0 \<and> m a = m b then strncmp_loop m (a + 1) (b + 1) n else uint (m a) - uint (m b))"

definition bench_strncmp :: "mem \<Rightarrow> u32 \<Rightarrow> u32 \<Rightarrow> u32 \<Rightarrow> int" where
  "bench_strncmp m a b n = strncmp_loop m a b (unat n)"

definition bench_strcat :: "mem \<Rightarrow> u32 \<Rightarrow> u32 \<Rightarrow> (mem \<times> u32) option" where
  "bench_strcat m dst src =
     Option.bind (str_end m dst) (\<lambda>d. map_option (\<lambda>m'. (m', dst)) (str_copy m d src))"

section \<open>util.c: copies checked against the local memories\<close>

definition CODE_FAIL :: u32 where "CODE_FAIL = 1"
definition ITIM_BASE :: u32 where "ITIM_BASE = 0x80000000"
definition ITIM_SIZE :: u32 where "ITIM_SIZE = 0x10000"
definition DTIM_BASE :: u32 where "DTIM_BASE = 0x80010000"
definition DTIM_SIZE :: u32 where "DTIM_SIZE = 0x10000"

definition tim_refused :: "u32 \<Rightarrow> bool" where
  "tim_refused dst \<longleftrightarrow>
     dst < ITIM_BASE \<or> DTIM_BASE + DTIM_SIZE \<le> dst \<or> ITIM_BASE + ITIM_SIZE \<le> dst \<and> dst < DTIM_BASE"

definition wrap_memset :: "mem \<Rightarrow> u32 \<Rightarrow> u32 \<Rightarrow> u32 \<Rightarrow> mem \<times> u32" where
  "wrap_memset m dst val sz =
     (if tim_refused dst then (m, CODE_FAIL) else (set_bytes m dst (ucast val) (unat sz), dst))"

definition wrap_memcpy :: "mem \<Rightarrow> u32 \<Rightarrow> u32 \<Rightarrow> u32 \<Rightarrow> mem \<times> u32" where
  "wrap_memcpy m dst src sz =
     (if tim_refused dst then (m, CODE_FAIL) else (copy_bytes m dst src (unat sz), dst))"

text \<open>\<open>while (_Size > 0) { *dst++ = *src++; _Size -= 4; }\<close>: a size that is not a multiple of four
  wraps below zero and never reaches it, so the loop does not return.\<close>

function wordcpy_loop :: "mem \<Rightarrow> u32 \<Rightarrow> u32 \<Rightarrow> u32 \<Rightarrow> mem option" where
  "wordcpy_loop m d s sz =
     (if sz = 0 then Some m
      else if sz < 4 then None
      else wordcpy_loop (st32 m d (ld32 m s)) (d + 4) (s + 4) (sz - 4))"
  by auto
termination
  by (relation "measure (\<lambda>(m, d, s, sz). unat sz)") (auto simp: word_less_nat_alt unat_sub word_le_nat_alt)

definition wordcpy :: "mem \<Rightarrow> u32 \<Rightarrow> u32 \<Rightarrow> u32 \<Rightarrow> (mem \<times> u32) option" where
  "wordcpy m dst src sz =
     (if dst AND 3 \<noteq> 0 then Some (m, CODE_FAIL)
      else if src AND 3 \<noteq> 0 then Some (m, CODE_FAIL)
      else if sz AND 3 \<noteq> 0 then Some (m, CODE_FAIL)
      else map_option (\<lambda>m'. (m', dst)) (wordcpy_loop m dst src sz))"

section \<open>port_glue.c: the freestanding fill-ins\<close>

definition glue_memset :: "mem \<Rightarrow> u32 \<Rightarrow> u32 \<Rightarrow> u32 \<Rightarrow> mem \<times> u32" where
  "glue_memset m dst val len = (set_bytes m dst (ucast val) (unat len), dst)"

definition glue_memcpy :: "mem \<Rightarrow> u32 \<Rightarrow> u32 \<Rightarrow> u32 \<Rightarrow> mem \<times> u32" where
  "glue_memcpy m dst src len = (copy_bytes m dst src (unat len), dst)"

definition glue_memcmp :: "mem \<Rightarrow> u32 \<Rightarrow> u32 \<Rightarrow> u32 \<Rightarrow> int" where
  "glue_memcmp m a b len = cmp_bytes m a b (unat len)"

definition glue_strlen :: "mem \<Rightarrow> u32 \<Rightarrow> u32 option" where
  "glue_strlen m s = map_option (\<lambda>p. p - s) (str_end m s)"

section \<open>Word accesses as byte accesses\<close>

lemma ld32_bytes:
  "ucast (ld32 m a) = m a" "ucast (drop_bit 8 (ld32 m a)) = m (a + 1)"
  "ucast (drop_bit 16 (ld32 m a)) = m (a + 2)" "ucast (drop_bit 24 (ld32 m a)) = m (a + 3)"
  by (rule bit_eqI; auto simp: ld32_def word_bits bit_ucast_iff dest: bit_imp_le_length)+

lemma aligned_add:
  fixes x i :: u32
  assumes "x AND 3 = 0" "i AND 3 = i"
  shows "drop_bit 2 (x + i) = drop_bit 2 x"
proof -
  have m: "(3 :: u32) = mask 2" by (simp add: mask_eq_exp_minus_1)
  have x: "\<not> bit x n" if "n < 2" for n
    using assms(1) that unfolding m by (metis bit_0_eq bit_and_iff bit_mask_iff bot_apply bot_bool_def bit_imp_possible_bit)
  have i: "n < 2" if "bit i n" for n
    using assms(2) that unfolding m by (metis bit_and_iff bit_mask_iff)
  have "x + i = x OR i" by (rule disjunctive_add) (use x i in blast)
  moreover have "\<not> bit i (2 + n)" for n using i [of "2 + n"] by auto
  ultimately show ?thesis by (auto intro!: bit_eqI simp: bit_drop_bit_eq bit_or_iff)
qed

lemma aligned_eq: "x AND 3 = 0 \<Longrightarrow> y AND 3 = 0 \<Longrightarrow> drop_bit 2 x = drop_bit 2 y \<Longrightarrow> x = (y :: u32)"
  using bits_ident [of 2 x] bits_ident [of 2 y] by (simp add: take_bit_eq_mask mask_eq_exp_minus_1)

lemma aligned_words_disjoint:
  fixes s d :: u32
  assumes "s AND 3 = 0" "d AND 3 = 0" "s \<noteq> d" "i AND 3 = i" "j AND 3 = j"
  shows "s + i \<noteq> d + j"
  using assms by (metis aligned_add aligned_eq)

lemma st32_ld32:
  "st32 m d (ld32 m s) = m(d := m s, d + 1 := m (s + 1), d + 2 := m (s + 2), d + 3 := m (s + 3))"
  by (simp add: st32_def ld32_bytes)

lemma st32_ld32_copy:
  assumes "d AND 3 = 0" "s AND 3 = 0"
  shows "st32 m d (ld32 m s) = copy_bytes m d s 4"
proof (cases "s = d")
  case True
  then show ?thesis by (simp add: st32_ld32 numeral_eq_Suc add.assoc)
next
  case False
  note ne = aligned_words_disjoint [OF assms(2,1) False]
  have "s + 1 \<noteq> d" "s + 2 \<noteq> d" "s + 3 \<noteq> d"
    using ne [of 1 0] ne [of 2 0] ne [of 3 0] by simp_all
  moreover have "s + 1 \<noteq> d + 1" "s + 2 \<noteq> d + 1" "s + 3 \<noteq> d + 1" "s + 2 \<noteq> d + 2" "s + 3 \<noteq> d + 2"
    using ne [of 1 1] ne [of 2 1] ne [of 3 1] ne [of 2 2] ne [of 3 2] by simp_all
  ultimately show ?thesis by (simp add: st32_ld32 numeral_eq_Suc add.assoc)
qed

lemma copy_bytes_add: "copy_bytes m d s (i + j) = copy_bytes (copy_bytes m d s i) (d + of_nat i) (s + of_nat i) j"
  by (induction m d s i rule: copy_bytes.induct) (simp_all add: add.assoc del: fun_upd_apply)

lemma set_bytes_add: "set_bytes m d v (i + j) = set_bytes (set_bytes m d v i) (d + of_nat i) v j"
  by (induction m d v i rule: set_bytes.induct) (simp_all add: add.assoc del: fun_upd_apply)

lemma aligned_iff_mod: "(d :: u32) AND 3 = 0 \<longleftrightarrow> unat d mod 4 = 0"
proof -
  have "d AND 3 = take_bit 2 d" by (simp add: take_bit_eq_mask mask_eq_exp_minus_1)
  moreover have "unat (take_bit 2 d) = take_bit 2 (unat d)" by (simp only: unsigned_take_bit_eq)
  then have "unat (take_bit 2 d) = unat d mod 4" by (simp only: take_bit_nat_def) simp
  ultimately show ?thesis by (metis unat_eq_zero)
qed

lemma aligned_step: "(d :: u32) AND 3 = 0 \<Longrightarrow> (d + 4) AND 3 = 0"
  by (simp add: aligned_iff_mod unat_word_ariths mod_mod_cancel mod_add_eq)

text \<open>The word loop does what the byte loop would have done.\<close>

lemma copy_words_eq:
  assumes "copy_words m d s n = (m', d', s', k)" "d AND 3 = 0" "s AND 3 = 0"
  shows "copy_bytes m' d' s' k = copy_bytes m d s n"
  using assms
proof (induction m d s n rule: copy_words.induct)
  case (1 m d s n)
  show ?case
  proof (cases "4 \<le> n")
    case True
    with 1 have "copy_bytes m' d' s' k = copy_bytes (copy_bytes m d s 4) (d + 4) (s + 4) (n - 4)"
      by (simp add: aligned_step st32_ld32_copy)
    with copy_bytes_add [of m d s 4 "n - 4"] True show ?thesis by simp
  qed (use 1 in simp)
qed

lemma bench_memcpy_eq: "bench_memcpy m dst src n = (copy_bytes m dst src (unat n), dst)"
proof (cases "(dst OR src) AND 3 = 0")
  case True
  moreover have "(dst OR src) AND 3 = (dst AND 3) OR (src AND 3)"
    by (rule bit_eqI) (auto simp: bit_and_iff bit_or_iff)
  ultimately have "dst AND 3 = 0" "src AND 3 = 0" by (simp_all add: or_eq_0_iff)
  with True show ?thesis
    by (auto simp: bench_memcpy_def copy_words_eq split: prod.split simp del: copy_words.simps)
qed (simp add: bench_memcpy_def)

lemma st32_set:
  "st32 m d (push_bit 24 (ucast v) OR push_bit 16 (ucast v) OR push_bit 8 (ucast v) OR ucast v) = set_bytes m d v 4"
proof -
  let ?w = "push_bit 24 (ucast v) OR push_bit 16 (ucast v) OR push_bit 8 (ucast v) OR ucast v :: u32"
  have "ucast ?w = v" "ucast (drop_bit 8 ?w) = v" "ucast (drop_bit 16 ?w) = v" "ucast (drop_bit 24 ?w) = v"
    by (rule bit_eqI; auto simp: word_bits bit_ucast_iff dest: bit_imp_le_length)+
  then show ?thesis by (simp add: st32_def numeral_eq_Suc add.assoc)
qed

lemma set_words_eq:
  assumes "set_words m d w n = (m', d', k)"
    and w: "w = push_bit 24 (ucast v) OR push_bit 16 (ucast v) OR push_bit 8 (ucast v) OR ucast v"
  shows "set_bytes m' d' v k = set_bytes m d v n"
  using assms(1)
proof (induction n arbitrary: m d rule: less_induct)
  case (less n)
  show ?case
  proof (cases "4 \<le> n")
    case True
    with less.prems have "set_words (st32 m d w) (d + 4) w (n - 4) = (m', d', k)" by simp
    from less.IH [OF _ this] True
    have "set_bytes m' d' v k = set_bytes (set_bytes m d v 4) (d + 4) v (n - 4)"
      by (simp add: w st32_set)
    with set_bytes_add [of m d v 4 "n - 4"] True show ?thesis by simp
  qed (use less.prems in simp)
qed

section \<open>What the byte loops leave in memory\<close>

definition mem_copied :: "mem \<Rightarrow> u32 \<Rightarrow> u32 \<Rightarrow> nat \<Rightarrow> mem" where
  "mem_copied m d s n = (\<lambda>a. if unat (a - d) < n then m (s + (a - d)) else m a)"

definition mem_filled :: "mem \<Rightarrow> u32 \<Rightarrow> u8 \<Rightarrow> nat \<Rightarrow> mem" where
  "mem_filled m d v n = (\<lambda>a. if unat (a - d) < n then v else m a)"

lemma unat_offset_step:
  fixes a d :: u32
  assumes "a \<noteq> d"
  shows "unat (a - d) = Suc (unat (a - (d + 1)))"
proof -
  from assms have "a - d \<noteq> 0" by simp
  then have "unat (a - d) = Suc (unat (a - d - 1))" by (simp add: unat_minus_one unat_gt_0)
  then show ?thesis by (simp add: algebra_simps)
qed

lemma unat_offset_Suc:
  fixes a d :: u32
  shows "unat (a - d) < Suc n \<longleftrightarrow> a = d \<or> unat (a - (d + 1)) < n"
  by (cases "a = d") (simp_all add: unat_offset_step)

lemma set_bytes_filled: "set_bytes m d v n = mem_filled m d v n"
  by (induction n arbitrary: m d) (auto simp: mem_filled_def unat_offset_Suc)

text \<open>Copying upwards is right when the destination does not start inside the rest of the source,
  copying downwards when the source does not start inside the rest of the destination.\<close>

lemma copy_bytes_copied:
  "n \<le> 2 ^ 32 \<Longrightarrow> d = s \<or> n \<le> unat (d - s) \<Longrightarrow> copy_bytes m d s n = mem_copied m d s n"
proof (induction n arbitrary: m d s)
  case (Suc n)
  then have n: "n < 2 ^ 32" by simp
  have "d + 1 = s + 1 \<or> n \<le> unat ((d + 1) - (s + 1))" using Suc.prems by auto
  from Suc.IH [OF _ this, of "m(d := m s)"] n
  have "copy_bytes m d s (Suc n) = mem_copied (m(d := m s)) (d + 1) (s + 1) n"
    by (simp del: fun_upd_apply)
  also have "\<dots> = mem_copied m d s (Suc n)"
  proof
    fix a
    have "s + (a - d) = d \<Longrightarrow> unat (d - s) = unat (a - d)" by (metis add_diff_cancel_left')
    then have "s + (a - d) \<noteq> d \<or> d = s" if "unat (a - d) < Suc n"
      using Suc.prems(2) that by auto
    then show "mem_copied (m(d := m s)) (d + 1) (s + 1) n a = mem_copied m d s (Suc n) a"
    proof (cases "a = d")
      case True
      have "unat (- 1 :: u32) = 2 ^ 32 - 1"
        by (simp add: unsigned_minus_1_eq_mask mask_eq_exp_minus_1)
      with True n show ?thesis by (simp add: mem_copied_def)
    next
      case False
      then show ?thesis using \<open>unat (a - d) < Suc n \<Longrightarrow> s + (a - d) \<noteq> d \<or> d = s\<close>
        by (auto simp: mem_copied_def unat_offset_Suc)
    qed
  qed
  finally show ?case .
qed (simp add: mem_copied_def)

lemma copy_down_copied:
  "n \<le> 2 ^ 32 \<Longrightarrow> d = s \<or> n \<le> unat (s - d) \<Longrightarrow>
   copy_down m (d + of_nat n) (s + of_nat n) n = mem_copied m d s n"
proof (induction n arbitrary: m)
  case (Suc n)
  then have n: "n < 2 ^ 32" by simp
  have un: "unat (of_nat n :: u32) = n" using n by (simp add: unat_of_nat take_bit_nat_eq_self)
  let ?m = "m(d + of_nat n := m (s + of_nat n))"
  have "copy_down m (d + of_nat (Suc n)) (s + of_nat (Suc n)) (Suc n) =
      copy_down ?m (d + of_nat n) (s + of_nat n) n"
    by (simp add: algebra_simps del: fun_upd_apply)
  also have "\<dots> = mem_copied ?m d s n" using Suc by auto
  also have "\<dots> = mem_copied m d s (Suc n)"
  proof
    fix a
    have last: "unat (a - d) = n \<longleftrightarrow> a = d + of_nat n"
    proof
      assume "unat (a - d) = n"
      then have "a - d = of_nat n" by auto
      then show "a = d + of_nat n" by (metis add.commute diff_add_cancel)
    qed (simp add: un)
    have "s + (a - d) \<noteq> d + of_nat n \<or> d = s" if "unat (a - d) < n"
    proof (rule ccontr)
      assume "\<not> ?thesis"
      then have eq: "s + (a - d) = d + of_nat n" and "d \<noteq> s" by auto
      from eq have e: "s - d = of_nat n - (a - d)" by (simp add: algebra_simps)
      have "Suc n \<le> unat (s - d)" using Suc.prems(2) \<open>d \<noteq> s\<close> by auto
      moreover have "unat (of_nat n - (a - d)) = n - unat (a - d)"
        using that un by (subst unat_sub) (auto simp: word_le_nat_alt)
      ultimately show False unfolding e by simp
    qed
    then show "mem_copied ?m d s n a = mem_copied m d s (Suc n) a"
      using last by (auto simp: mem_copied_def less_Suc_eq)
  qed
  finally show ?case .
qed (simp add: mem_copied_def)

section \<open>Blocks and C strings\<close>

fun mem_block :: "mem \<Rightarrow> u32 \<Rightarrow> nat \<Rightarrow> u8 list" where
  "mem_block m a 0 = []"
| "mem_block m a (Suc n) = m a # mem_block m (a + 1) n"

fun cstring :: "mem \<Rightarrow> u32 \<Rightarrow> u8 list \<Rightarrow> bool" where
  "cstring m a [] \<longleftrightarrow> m a = 0"
| "cstring m a (x # xs) \<longleftrightarrow> x \<noteq> 0 \<and> m a = x \<and> cstring m (a + 1) xs"

lemma length_mem_block [simp]: "length (mem_block m a n) = n"
  by (induction m a n rule: mem_block.induct) simp_all

lemma uint_diff_sgn [simp]:
  fixes x y :: "'a::len word"
  shows "uint x = uint y \<longleftrightarrow> x = y" "uint x < uint y \<longleftrightarrow> x < y" "0 < uint x \<longleftrightarrow> x \<noteq> 0" "uint x = 0 \<longleftrightarrow> x = 0"
proof -
  show "uint x = uint y \<longleftrightarrow> x = y" by (simp only: word_uint_eq_iff)
  show lt: "uint x < uint y \<longleftrightarrow> x < y" for x y :: "'a word" by (simp only: word_less_alt)
  show "uint x = 0 \<longleftrightarrow> x = 0" by (rule uint_0_iff)
  show "0 < uint x \<longleftrightarrow> x \<noteq> 0" using lt [of 0 x] by (simp add: word_gt_0)
qed

lemma cmp_bytes_order:
  "(cmp_bytes m p q n = 0 \<longleftrightarrow> mem_block m p n = mem_block m q n)
   \<and> (cmp_bytes m p q n < 0 \<longleftrightarrow> mem_block m p n < mem_block m q n)"
proof (induction m p q n rule: cmp_bytes.induct)
  case (2 m p q n)
  then show ?case by (cases "m p = m q") simp_all
qed simp

lemma str_end_cstring: "cstring m p xs \<Longrightarrow> str_end m p = Some (p + of_nat (length xs))"
  by (induction m p xs rule: cstring.induct) (simp_all add: str_end.simps add.assoc)

lemma strcmp_order:
  "cstring m a xs \<Longrightarrow> cstring m b ys \<Longrightarrow>
   \<exists>r. bench_strcmp m a b = Some r \<and> (r = 0 \<longleftrightarrow> xs = ys) \<and> (r < 0 \<longleftrightarrow> xs < ys)"
proof (induction xs arbitrary: a b ys)
  case Nil
  then show ?case by (cases ys) (auto simp: bench_strcmp.simps)
next
  case (Cons x xs)
  show ?case
  proof (cases ys)
    case Nil
    with Cons.prems show ?thesis by (auto simp: bench_strcmp.simps)
  next
    case [simp]: (Cons y zs)
    show ?thesis
    proof (cases "x = y")
      case True
      with Cons.prems Cons.IH [of "a + 1" "b + 1" zs] show ?thesis
        by (auto simp: bench_strcmp.simps [of m a])
    next
      case False
      with Cons.prems show ?thesis by (auto simp: bench_strcmp.simps [of m a])
    qed
  qed
qed

lemma strncmp_order:
  "cstring m a xs \<Longrightarrow> cstring m b ys \<Longrightarrow>
   (strncmp_loop m a b n = 0 \<longleftrightarrow> take n xs = take n ys) \<and>
   (strncmp_loop m a b n < 0 \<longleftrightarrow> take n xs < take n ys)"
proof (induction m a b n arbitrary: xs ys rule: strncmp_loop.induct)
  case (2 m a b n)
  then show ?case
    by (cases xs; cases ys) auto
qed simp

text \<open>Writing one byte outside a string does not change it.\<close>

lemma cstring_upd:
  "cstring m a xs \<Longrightarrow> length xs < 2 ^ 32 \<Longrightarrow> length xs < unat (d - a) \<Longrightarrow> cstring (m(d := v)) a xs"
proof (induction m a xs rule: cstring.induct)
  case (2 m a x xs)
  then have "d \<noteq> a" by auto
  with unat_offset_Suc [of d a "Suc (length xs)"] 2 have "length xs < unat (d - (a + 1))" by auto
  with 2 show ?case by auto
qed auto
lemma str_copy_eq:
  "cstring m s xs \<Longrightarrow> length xs < 2 ^ 32 \<Longrightarrow> d = s \<or> length xs < unat (d - s) \<Longrightarrow>
   str_copy m d s = Some (copy_bytes m d s (Suc (length xs)))"
proof (induction xs arbitrary: m d s)
  case Nil
  then show ?case by (simp add: str_copy.simps del: fun_upd_apply)
next
  case (Cons x xs)
  have keep: "cstring (m(d := m s)) (s + 1) xs"
  proof (cases "d = s")
    case False
    with Cons.prems unat_offset_Suc [of d s "Suc (length xs)"] show ?thesis
      by (intro cstring_upd) auto
  qed (use Cons.prems in \<open>simp add: fun_upd_idem\<close>)
  have "d + 1 = s + 1 \<or> length xs < unat (d + 1 - (s + 1))" using Cons.prems by auto
  from Cons.IH [OF keep _ this] Cons.prems show ?case
    by (simp add: str_copy.simps [of m d s] Let_def del: fun_upd_apply)
qed

lemma cstring_copied:
  "cstring m s xs \<Longrightarrow> length xs < 2 ^ 32 \<Longrightarrow> cstring (mem_copied m d s (Suc (length xs))) d xs"
proof -
  have *: "cstring m s xs \<Longrightarrow> (\<And>i. i \<le> length xs \<Longrightarrow> m' (d + of_nat i) = m (s + of_nat i)) \<Longrightarrow> cstring m' d xs" for m'
  proof (induction xs arbitrary: d s)
    case (Cons x xs)
    have "m' (d + 1 + of_nat i) = m (s + 1 + of_nat i)" if "i \<le> length xs" for i
      using Cons.prems(2) [of "Suc i"] that by (simp add: add.assoc)
    with Cons.IH [of "s + 1" "d + 1"] Cons.prems Cons.prems(2) [of 0] show ?case by auto
  qed force
  then show "cstring m s xs \<Longrightarrow> length xs < 2 ^ 32 \<Longrightarrow> ?thesis"
    by (intro *) (auto simp: mem_copied_def unat_of_nat take_bit_nat_eq_self)
qed
lemma strncpy_eq:
  assumes "cstring m s xs" "length xs < 2 ^ 32" "n < 2 ^ 32"
    and "d = s \<or> length xs < unat (d - s) \<and> n \<le> unat (d - s)"
    and "strncpy_copy m d s n = (m', d', k)"
  shows "set_bytes m' d' 0 k = (\<lambda>a. if unat (a - d) < n then (xs @ replicate n 0) ! unat (a - d) else m a)"
  using assms
proof (induction n arbitrary: m d s xs)
  case (Suc n)
  show ?case
  proof (cases xs)
    case Nil
    with Suc.prems have "m' = m(d := 0)" "d' = d" "k = Suc n" by (auto simp: Let_def)
    then show ?thesis using Nil
      by (intro ext) (simp add: set_bytes_filled mem_filled_def del: set_bytes.simps replicate_Suc)
  next
    case (Cons x ys)
    let ?m = "m(d := x)"
    have mx: "m s = x" "x \<noteq> 0" "cstring m (s + 1) ys" using Suc.prems(1) Cons by auto
    have c: "cstring ?m (s + 1) ys"
    proof (cases "d = s")
      case True
      then show ?thesis using mx by (simp add: fun_upd_idem)
    next
      case False
      with Suc.prems Cons unat_offset_Suc [of d s "Suc (length ys)"] mx show ?thesis
        by (intro cstring_upd) auto
    qed
    have r: "strncpy_copy ?m (d + 1) (s + 1) n = (m', d', k)"
      using Suc.prems(5) mx by (simp add: Let_def del: fun_upd_apply)
    have "d + 1 = s + 1 \<or> length ys < unat (d + 1 - (s + 1)) \<and> n \<le> unat (d + 1 - (s + 1))"
      using Suc.prems(4) Cons by auto
    from Suc.IH [OF c _ _ this r] Suc.prems(2,3) Cons
    have IH: "set_bytes m' d' 0 k = (\<lambda>a. if unat (a - (d + 1)) < n
        then (ys @ replicate n 0) ! unat (a - (d + 1)) else ?m a)" by simp
    show ?thesis unfolding IH
    proof
      fix a
      show "(if unat (a - (d + 1)) < n then (ys @ replicate n 0) ! unat (a - (d + 1)) else ?m a) =
        (if unat (a - d) < Suc n then (xs @ replicate (Suc n) 0) ! unat (a - d) else m a)"
      proof (cases "a = d")
        case True
        have "unat (- 1 :: u32) = 2 ^ 32 - 1"
          by (simp add: unsigned_minus_1_eq_mask mask_eq_exp_minus_1)
        with True Suc.prems(3) Cons show ?thesis by simp
      next
        case False
        with unat_offset_step [OF False] Cons show ?thesis
          by (simp add: nth_append del: replicate_Suc)
      qed
    qed
  qed
qed simp

lemma cstring_append_iff:
  "cstring m a (xs @ ys) \<longleftrightarrow>
     0 \<notin> set xs \<and> mem_block m a (length xs) = xs \<and> cstring m (a + of_nat (length xs)) ys"
  by (induction xs arbitrary: a) (auto simp: add.assoc)

lemma mem_block_cong:
  "(\<And>i. i < n \<Longrightarrow> m' (a + of_nat i) = m (a + of_nat i)) \<Longrightarrow> mem_block m' a n = mem_block m a n"
proof (induction n arbitrary: a)
  case (Suc n)
  have "m' (a + 1 + of_nat i) = m (a + 1 + of_nat i)" if "i < n" for i
    using Suc.prems [of "Suc i"] that by (simp add: add.assoc)
  with Suc.IH [of "a + 1"] Suc.prems [of 0] show ?case by simp
qed simp

lemma strcat_eq:
  assumes xs: "cstring m dst xs" and ys: "cstring m src ys"
    and len: "length xs + length ys < 2 ^ 32"
    and sep: "length ys < unat (dst + of_nat (length xs) - src)"
  shows "\<exists>m'. bench_strcat m dst src = Some (m', dst) \<and> cstring m' dst (xs @ ys)
     \<and> m' = mem_copied m (dst + of_nat (length xs)) src (Suc (length ys))"
proof -
  let ?d = "dst + of_nat (length xs)"
  let ?m = "mem_copied m ?d src (Suc (length ys))"
  have "str_copy m ?d src = Some ?m"
    using str_copy_eq [OF ys, of ?d] copy_bytes_copied [of "Suc (length ys)" ?d src m] len sep by simp
  then have run: "bench_strcat m dst src = Some (?m, dst)"
    by (simp add: bench_strcat_def str_end_cstring [OF xs])
  from xs have x: "0 \<notin> set xs" "mem_block m dst (length xs) = xs"
    using cstring_append_iff [of m dst xs "[]"] by auto
  have "?m (dst + of_nat i) = m (dst + of_nat i)" if "i < length xs" for i
  proof -
    have un: "unat (of_nat k :: u32) = k" if "k \<le> length xs" for k
      using that len by (simp add: unat_of_nat take_bit_nat_eq_self)
    have "(of_nat (length xs) - of_nat i :: u32) = of_nat (length xs - i)"
      using that by (simp add: of_nat_diff)
    then have "dst + of_nat i - ?d = - of_nat (length xs - i)" by (simp add: algebra_simps)
    moreover have "unat (- of_nat (length xs - i) :: u32) = 2 ^ 32 - (length xs - i)"
      using that un [of "length xs - i"] by (subst unat_uminus) (auto simp flip: unat_eq_zero)
    moreover have "\<not> 2 ^ 32 - (length xs - i) < Suc (length ys)" using that len by linarith
    ultimately show ?thesis by (simp only: mem_copied_def if_False)
  qed
  then have "mem_block ?m dst (length xs) = xs" using x(2) mem_block_cong [of "length xs" ?m dst m] by simp
  with x(1) cstring_copied [OF ys, of ?d] len have "cstring ?m dst (xs @ ys)"
    by (simp add: cstring_append_iff)
  with run show ?thesis by blast
qed

lemma wordcpy_loop_eq:
  "sz AND 3 = 0 \<Longrightarrow> d AND 3 = 0 \<Longrightarrow> s AND 3 = 0 \<Longrightarrow>
   wordcpy_loop m d s sz = Some (copy_bytes m d s (unat sz))"
proof (induction m d s sz rule: wordcpy_loop.induct)
  case (1 m d s sz)
  show ?case
  proof (cases "sz = 0")
    case False
    with 1(2) have "\<not> sz < 4" by (auto simp: aligned_iff_mod word_less_nat_alt unat_eq_zero)
    then have u: "unat sz = 4 + unat (sz - 4)" "(sz - 4) AND 3 = 0"
      using 1(2) by (auto simp: aligned_iff_mod unat_sub word_le_nat_alt not_less le_mod_geq)
    from 1(1) [OF False \<open>\<not> sz < 4\<close> u(2)] 1(3,4) False \<open>\<not> sz < 4\<close>
    have "wordcpy_loop m d s sz = Some (copy_bytes (copy_bytes m d s 4) (d + 4) (s + 4) (unat (sz - 4)))"
      by (simp add: aligned_step st32_ld32_copy)
    then show ?thesis unfolding u(1) copy_bytes_add by simp
  qed simp
qed

section \<open>Properties\<close>

text \<open>C4: \<open>memmove\<close> is right under every overlap. For objects that do not run past the end of the
  address space, the destination receives the bytes the source held before the call, whichever of
  the two lies lower and however they overlap (the word-copying \<open>memcpy\<close> path included), every
  other byte is kept, and the destination pointer is returned.\<close>

theorem bench_memmove_correct:
  assumes "unat dst + unat n \<le> 2 ^ 32" "unat src + unat n \<le> 2 ^ 32"
  shows "bench_memmove m dst src n = (mem_copied m dst src (unat n), dst)"
proof -
  have n: "unat n \<le> 2 ^ 32" using assms by simp
  have gap: "unat n \<le> unat (x - y)" if "x < y" "unat y + unat n \<le> 2 ^ 32" for x y :: u32
  proof -
    have "unat (x - y) = 2 ^ 32 - unat (y - x)"
      using that(1) unat_uminus [of "y - x"] by auto
    also have "unat (y - x) = unat y - unat x" using that(1) by (simp add: unat_sub)
    finally show ?thesis using that by linarith
  qed
  have same: "mem_copied m src src (unat n) = m" by (auto simp: mem_copied_def algebra_simps)
  have zero: "mem_copied m dst src 0 = m" by (simp add: mem_copied_def)
  show ?thesis
  proof (cases "dst = src \<or> n = 0")
    case True
    then show ?thesis using same zero by (auto simp: bench_memmove_def)
  next
    case False
    then consider "dst < src" | "src < dst" by fastforce
    then show ?thesis
    proof cases
      case 1
      with False gap [OF 1 assms(2)] copy_bytes_copied [OF n] show ?thesis
        by (simp add: bench_memmove_def bench_memcpy_eq)
    next
      case 2
      then have "\<not> dst < src" by simp
      with False gap [OF 2 assms(1)] copy_down_copied [OF n, of dst src m] show ?thesis
        by (simp add: bench_memmove_def)
    qed
  qed
qed
theorem bench_memmove_correct_witness:
  "bench_memmove (\<lambda>a. ucast a) 0x1004 0x1000 16 = (mem_copied (\<lambda>a. ucast a) 0x1004 0x1000 (unat (16 :: u32)), 0x1004)"
  by (rule bench_memmove_correct) simp_all

text \<open>The word-at-a-time paths cannot be observed: for all pointers, contents and lengths,
  overlapping or not, the benchmark \<open>memcpy\<close> and \<open>memset\<close> return what the byte-wise fill-ins of
  the FreeRTOS glue return, in memory and result.\<close>

theorem bench_word_paths_unobservable:
  "bench_memcpy m dst src n = glue_memcpy m dst src n \<and> bench_memset m dst c n = glue_memset m dst c n"
proof
  show "bench_memcpy m dst src n = glue_memcpy m dst src n"
    by (simp add: bench_memcpy_eq glue_memcpy_def)
  show "bench_memset m dst c n = glue_memset m dst c n"
    by (auto simp: bench_memset_def glue_memset_def Let_def set_words_eq split: prod.split
        simp del: set_words.simps)
qed

text \<open>\<open>strcmp\<close> and \<open>strncmp\<close> on C strings return, and the sign of the result is the
  lexicographic order of the strings, of their first \<open>n\<close> characters for \<open>strncmp\<close>.\<close>

theorem bench_strcmp_order:
  assumes "cstring m a xs" "cstring m b ys"
  shows "(\<exists>r. bench_strcmp m a b = Some r \<and> (r = 0 \<longleftrightarrow> xs = ys) \<and> (r < 0 \<longleftrightarrow> xs < ys)) \<and>
    (bench_strncmp m a b n = 0 \<longleftrightarrow> take (unat n) xs = take (unat n) ys) \<and>
    (bench_strncmp m a b n < 0 \<longleftrightarrow> take (unat n) xs < take (unat n) ys)"
  using strcmp_order [OF assms] strncmp_order [OF assms] by (simp add: bench_strncmp_def)

text \<open>Two strings, \<open>ab\<close> at 0x100 and \<open>ac\<close> at 0x200.\<close>

definition two_strings :: mem where
  "two_strings = (\<lambda>_. 0)(0x100 := 97, 0x101 := 98, 0x200 := 97, 0x201 := 99)"

lemma two_strings_at: "cstring two_strings 0x100 [97, 98]" "cstring two_strings 0x200 [97, 99]"
  by (simp_all add: two_strings_def)

theorem bench_strcmp_order_witness:
  "(\<exists>r. bench_strcmp two_strings 0x100 0x200 = Some r
      \<and> (r = 0 \<longleftrightarrow> [97, 98] = [97, 99 :: u8]) \<and> (r < 0 \<longleftrightarrow> [97, 98] < [97, 99 :: u8])) \<and>
    (bench_strncmp two_strings 0x100 0x200 1 = 0
      \<longleftrightarrow> take (unat (1 :: u32)) [97, 98] = take (unat (1 :: u32)) [97, 99 :: u8]) \<and>
    (bench_strncmp two_strings 0x100 0x200 1 < 0
      \<longleftrightarrow> take (unat (1 :: u32)) [97, 98] < take (unat (1 :: u32)) [97, 99 :: u8])"
  by (rule bench_strcmp_order [OF two_strings_at])

text \<open>Building strings. \<open>strcpy\<close> copies the string and its terminator and nothing else;
  \<open>strcat\<close> leaves the concatenation at the destination; \<open>strncpy\<close> writes exactly \<open>n\<close> bytes, the
  string cut at \<open>n\<close> or padded with zeros; each for a destination that does not start inside the
  bytes still to be read, and each returns.\<close>

theorem bench_string_building:
  assumes src: "cstring m src ys" "length ys < 2 ^ 32"
    and "length ys < unat (dst - src)" "unat n \<le> unat (dst - src)"
    and cat: "cstring m d xs" "length xs + length ys < 2 ^ 32"
    and "length ys < unat (d + of_nat (length xs) - src)"
  shows "bench_strcpy m dst src = Some (mem_copied m dst src (Suc (length ys)), dst)
    \<and> cstring (mem_copied m dst src (Suc (length ys))) dst ys
    \<and> (\<exists>m'. bench_strcat m d src = Some (m', d) \<and> cstring m' d (xs @ ys))
    \<and> bench_strncpy m dst src n =
       ((\<lambda>a. if unat (a - dst) < unat n then (ys @ replicate (unat n) 0) ! unat (a - dst) else m a), dst)"
proof (intro conjI)
  show "bench_strcpy m dst src = Some (mem_copied m dst src (Suc (length ys)), dst)"
    using assms copy_bytes_copied [of "Suc (length ys)" dst src m]
    by (simp add: bench_strcpy_def str_copy_eq [OF src])
  show "cstring (mem_copied m dst src (Suc (length ys))) dst ys"
    using src by (rule cstring_copied)
  show "\<exists>m'. bench_strcat m d src = Some (m', d) \<and> cstring m' d (xs @ ys)"
    using strcat_eq [OF cat(1) src(1) cat(2) assms(7)] by blast
  obtain m' d' k where r: "strncpy_copy m dst src (unat n) = (m', d', k)" by (metis prod_cases3)
  have "unat n < 2 ^ 32" using unsigned_less [of n] by simp
  from strncpy_eq [OF src this _ r] assms(3,4)
  show "bench_strncpy m dst src n =
       ((\<lambda>a. if unat (a - dst) < unat n then (ys @ replicate (unat n) 0) ! unat (a - dst) else m a), dst)"
    by (simp add: bench_strncpy_def r)
qed

theorem bench_string_building_witness:
  "bench_strcpy two_strings 0x300 0x200 = Some (mem_copied two_strings 0x300 0x200 (Suc (length [97, 99 :: u8])), 0x300)
    \<and> cstring (mem_copied two_strings 0x300 0x200 (Suc (length [97, 99 :: u8]))) 0x300 [97, 99]
    \<and> (\<exists>m'. bench_strcat two_strings 0x100 0x200 = Some (m', 0x100) \<and> cstring m' 0x100 ([97, 98] @ [97, 99]))
    \<and> bench_strncpy two_strings 0x300 0x200 5 =
       ((\<lambda>a. if unat (a - 0x300) < unat (5 :: u32) then ([97, 99] @ replicate (unat (5 :: u32)) 0) ! unat (a - 0x300)
          else two_strings a), 0x300)"
  by (rule bench_string_building [OF two_strings_at(2) _ _ _ two_strings_at(1)]) simp_all

text \<open>The checked copies of util.c, case by case. A destination that starts outside
  [ITIM_BASE, DTIM_BASE + DTIM_SIZE), the two adjacent local memories, gives \<open>CODE_FAIL\<close> and leaves
  memory alone; inside it they behave as plain \<open>memset\<close> and \<open>memcpy\<close>, for whatever size: only the
  first byte is checked. \<open>wordcpy\<close> refuses an unaligned pointer or size the same way and otherwise
  returns the byte-wise copy.\<close>

theorem wrapped_copies:
  "wrap_memset m dst c n =
     (if ITIM_BASE \<le> dst \<and> dst < DTIM_BASE + DTIM_SIZE then (mem_filled m dst (ucast c) (unat n), dst)
      else (m, CODE_FAIL)) \<and>
   wrap_memcpy m dst src n =
     (if ITIM_BASE \<le> dst \<and> dst < DTIM_BASE + DTIM_SIZE then glue_memcpy m dst src n else (m, CODE_FAIL)) \<and>
   wordcpy m dst src n =
     Some (if dst AND 3 = 0 \<and> src AND 3 = 0 \<and> n AND 3 = 0 then glue_memcpy m dst src n else (m, CODE_FAIL))"
proof (intro conjI)
  have tim: "tim_refused dst \<longleftrightarrow> \<not> (ITIM_BASE \<le> dst \<and> dst < DTIM_BASE + DTIM_SIZE)"
    by (auto simp: tim_refused_def ITIM_BASE_def ITIM_SIZE_def DTIM_BASE_def DTIM_SIZE_def)
  show "wrap_memset m dst c n =
     (if ITIM_BASE \<le> dst \<and> dst < DTIM_BASE + DTIM_SIZE then (mem_filled m dst (ucast c) (unat n), dst)
      else (m, CODE_FAIL))"
    by (simp add: wrap_memset_def tim set_bytes_filled)
  show "wrap_memcpy m dst src n =
     (if ITIM_BASE \<le> dst \<and> dst < DTIM_BASE + DTIM_SIZE then glue_memcpy m dst src n else (m, CODE_FAIL))"
    by (simp add: wrap_memcpy_def tim glue_memcpy_def)
  show "wordcpy m dst src n =
     Some (if dst AND 3 = 0 \<and> src AND 3 = 0 \<and> n AND 3 = 0 then glue_memcpy m dst src n else (m, CODE_FAIL))"
    by (simp add: wordcpy_def wordcpy_loop_eq glue_memcpy_def del: wordcpy_loop.simps)
qed

end
