(* ===== verification/Printf.thy ===== *)
theory Printf
  imports Platform_Prelude "HOL-Library.Monad_Syntax"
begin

text \<open>
  Platform/Common/Src/printf.c: the bare-metal \<open>vprintf\<close>, its output buffer and its number
  conversion. A C string is the list of its characters before the terminator; the argument list is
  a list of slots as the ilp32 ABI lays them out. Reading a missing or wrong slot, a width or a
  character count that overflows \<open>int\<close>, the negation of the most negative \<open>long long\<close> and division
  by zero are undefined behaviour: the result is \<open>None\<close>.
\<close>

section \<open>Output buffer\<close>

definition PBUF_SZ :: nat where "PBUF_SZ = 128"

text \<open>\<open>written\<close> collects the arguments of \<open>_write(1, ...)\<close> in call order.\<close>

record pctx =
  ctx_buf :: string
  ctx_n :: nat
  ctx_count :: int
  ctx_written :: "string list"

definition pflush :: "pctx \<Rightarrow> pctx" where
  "pflush c = (if ctx_n c \<noteq> 0 then c\<lparr>ctx_written := ctx_written c @ [take (ctx_n c) (ctx_buf c)], ctx_n := 0\<rparr> else c)"

text \<open>The count of characters is an \<open>int\<close>; counting past \<open>INT_MAX\<close> is undefined.\<close>

definition INT_MAX :: int where "INT_MAX = 2147483647"

definition pemit :: "char \<Rightarrow> pctx \<Rightarrow> pctx option" where
  "pemit ch c =
     (let c = c\<lparr>ctx_buf := (ctx_buf c)[ctx_n c := ch], ctx_n := ctx_n c + 1\<rparr> in
      if ctx_count c = INT_MAX then None
      else let c = c\<lparr>ctx_count := ctx_count c + 1\<rparr>
           in Some (if ctx_n c = PBUF_SZ then pflush c else c))"

function pemit_pad :: "char \<Rightarrow> int \<Rightarrow> pctx \<Rightarrow> pctx option" where
  "pemit_pad ch n c = (if n > 0 then do { c \<leftarrow> pemit ch c; pemit_pad ch (n - 1) c } else Some c)"
  by auto
termination by (relation "measure (\<lambda>(ch, n, c). nat n)") auto

text \<open>\<open>for (i = 0; i < len; i++) pemit(&c, s[i]);\<close>\<close>

fun pemit_str :: "string \<Rightarrow> pctx \<Rightarrow> pctx option" where
  "pemit_str [] c = Some c"
| "pemit_str (ch # s) c = do { c \<leftarrow> pemit ch c; pemit_str s c }"

section \<open>Number conversion\<close>

fun div_loop :: "nat \<Rightarrow> u64 \<Rightarrow> u32 \<Rightarrow> u64 \<Rightarrow> u32 \<Rightarrow> u64 \<times> u32" where
  "div_loop 0 n d q r = (q, r)"
| "div_loop (Suc i) n d q r =
     (let r = push_bit 1 r OR ucast (drop_bit i n AND 1)
      in if d \<le> r then div_loop i n d (q OR push_bit i 1) (r - d) else div_loop i n d q r)"

definition div_u64_u32 :: "u64 \<Rightarrow> u32 \<Rightarrow> u64 \<times> u32" where
  "div_u64_u32 n d = div_loop 64 n d 0 0"

definition digit_chars :: "bool \<Rightarrow> string" where
  "digit_chars upper = (if upper then ''0123456789ABCDEF'' else ''0123456789abcdef'')"

text \<open>The two digit loops push the digits into \<open>tmp\<close>, least significant first; \<open>digits[r]\<close> past the
  sixteen characters is an out-of-bounds read.\<close>

partial_function (option) utoa32 :: "string \<Rightarrow> u32 \<Rightarrow> u32 \<Rightarrow> string \<Rightarrow> string option" where
  [code]: "utoa32 ds base v tmp =
     (if v = 0 then Some tmp
      else if base = 0 \<or> length ds \<le> unat (v mod base) then None
      else utoa32 ds base (v div base) (tmp @ [ds ! unat (v mod base)]))"

partial_function (option) utoa64 :: "string \<Rightarrow> u32 \<Rightarrow> u64 \<Rightarrow> string \<Rightarrow> string option" where
  [code]: "utoa64 ds base v tmp =
     (if v = 0 then Some tmp
      else let (q, r) = div_u64_u32 v base
      in if length ds \<le> unat r then None else utoa64 ds base q (tmp @ [ds ! unat r]))"

definition utoa_buf :: "u64 \<Rightarrow> u32 \<Rightarrow> bool \<Rightarrow> string option" where
  "utoa_buf v base upper =
     (let ds = digit_chars upper;
          tmp = (if v = 0 then Some ''0''
                 else if drop_bit 32 v = 0 then utoa32 ds base (ucast v) []
                 else utoa64 ds base v [])
      in map_option rev tmp)"

section \<open>Conversion specifications\<close>

text \<open>One variadic slot: a 32-bit word (\<open>int\<close>, \<open>long\<close>, \<open>void *\<close>), a 64-bit one (\<open>long long\<close>), or a
  pointer to a string, \<open>None\<close> the null pointer.\<close>

datatype va_slot = VWord u32 | VDword u64 | VStr "string option"

record pspec =
  spec_left :: bool
  spec_zero :: bool
  spec_plus :: bool
  spec_space :: bool
  spec_alt :: bool
  spec_width :: int
  spec_lcount :: nat

definition pspec_init :: pspec where
  "pspec_init = \<lparr>spec_left = False, spec_zero = False, spec_plus = False, spec_space = False, spec_alt = False, spec_width = 0, spec_lcount = 0\<rparr>"

definition cur :: "string \<Rightarrow> char" where
  "cur fmt = (case fmt of [] \<Rightarrow> CHR 0x00 | c # _ \<Rightarrow> c)"

fun parse_flags :: "string \<Rightarrow> pspec \<Rightarrow> string \<times> pspec" where
  "parse_flags [] p = ([], p)"
| "parse_flags (ch # fmt) p =
     (if ch = CHR ''-'' then parse_flags fmt (p\<lparr>spec_left := True\<rparr>)
      else if ch = CHR ''0'' then parse_flags fmt (p\<lparr>spec_zero := True\<rparr>)
      else if ch = CHR ''+'' then parse_flags fmt (p\<lparr>spec_plus := True\<rparr>)
      else if ch = CHR '' '' then parse_flags fmt (p\<lparr>spec_space := True\<rparr>)
      else if ch = CHR ''#'' then parse_flags fmt (p\<lparr>spec_alt := True\<rparr>)
      else (ch # fmt, p))"

definition is_digit :: "char \<Rightarrow> bool" where
  "is_digit ch \<longleftrightarrow> ch \<in> set ''0123456789''"

definition digit_val :: "char \<Rightarrow> int" where
  "digit_val ch = int (of_char ch) - 48"

fun parse_digits :: "string \<Rightarrow> int \<Rightarrow> (string \<times> int) option" where
  "parse_digits [] w = Some ([], w)"
| "parse_digits (ch # fmt) w =
     (if is_digit ch
      then if w * 10 + digit_val ch \<le> INT_MAX then parse_digits fmt (w * 10 + digit_val ch) else None
      else Some (ch # fmt, w))"

type_synonym va_list = "va_slot list"

fun va_word :: "va_list \<Rightarrow> (u32 \<times> va_list) option" where
  "va_word (VWord w # ap) = Some (w, ap)"
| "va_word _ = None"

fun va_dword :: "va_list \<Rightarrow> (u64 \<times> va_list) option" where
  "va_dword (VDword w # ap) = Some (w, ap)"
| "va_dword _ = None"

fun va_str :: "va_list \<Rightarrow> (string option \<times> va_list) option" where
  "va_str (VStr s # ap) = Some (s, ap)"
| "va_str _ = None"

definition parse_width :: "string \<Rightarrow> va_list \<Rightarrow> pspec \<Rightarrow> (string \<times> va_list \<times> pspec) option" where
  "parse_width fmt ap p =
     (if cur fmt = CHR ''*''
      then case va_word ap of None \<Rightarrow> None
           | Some (w, ap) \<Rightarrow>
               if sint w = - INT_MAX - 1 then None
               else if sint w < 0 then Some (tl fmt, ap, p\<lparr>spec_left := True, spec_width := - sint w\<rparr>)
               else Some (tl fmt, ap, p\<lparr>spec_width := sint w\<rparr>)
      else case parse_digits fmt 0 of None \<Rightarrow> None
           | Some (fmt, w) \<Rightarrow> Some (fmt, ap, p\<lparr>spec_width := w\<rparr>))"

definition parse_prec :: "string \<Rightarrow> va_list \<Rightarrow> (string \<times> va_list) option" where
  "parse_prec fmt ap =
     (if cur fmt = CHR ''.''
      then let fmt = tl fmt in
           if cur fmt = CHR ''*''
           then case va_word ap of None \<Rightarrow> None | Some (_, ap) \<Rightarrow> Some (tl fmt, ap)
           else Some (dropWhile is_digit fmt, ap)
      else Some (fmt, ap))"

definition parse_length :: "string \<Rightarrow> pspec \<Rightarrow> string \<times> pspec" where
  "parse_length fmt p =
     (dropWhile (\<lambda>ch. ch = CHR ''h'' \<or> ch = CHR ''z'') (dropWhile (\<lambda>ch. ch = CHR ''l'') fmt),
      p\<lparr>spec_lcount := length (takeWhile (\<lambda>ch. ch = CHR ''l'') fmt)\<rparr>)"

definition va_unsigned :: "pspec \<Rightarrow> va_list \<Rightarrow> (u64 \<times> va_list) option" where
  "va_unsigned p ap =
     (if 2 \<le> spec_lcount p then va_dword ap else map_option (\<lambda>(w, ap). (ucast w, ap)) (va_word ap))"

definition va_signed :: "pspec \<Rightarrow> va_list \<Rightarrow> (u64 \<times> va_list) option" where
  "va_signed p ap =
     (if 2 \<le> spec_lcount p then va_dword ap else map_option (\<lambda>(w, ap). (scast w, ap)) (va_word ap))"

section \<open>vprintf\<close>

text \<open>A numeric conversion ready for output: \<open>neg\<close>, \<open>uval\<close>, \<open>base\<close>, \<open>upper\<close> and the prefix so far.\<close>

record pnum =
  num_neg :: bool
  num_uval :: u64
  num_base :: u32
  num_upper :: bool
  num_prefix :: string

text \<open>The numeric cases of the \<open>switch\<close>. Negating the most negative \<open>long long\<close> is undefined.\<close>

definition LLONG_MIN :: int where "LLONG_MIN = - 9223372036854775808"

definition conv_num :: "char \<Rightarrow> pspec \<Rightarrow> va_list \<Rightarrow> (pnum \<times> va_list) option" where
  "conv_num ch p ap =
     (if ch = CHR ''d'' \<or> ch = CHR ''i''
      then do {
        (sv, ap) \<leftarrow> va_signed p ap;
        if sint sv = LLONG_MIN then None
        else if sint sv < 0 then Some (\<lparr>num_neg = True, num_uval = - sv, num_base = 10, num_upper = False, num_prefix = []\<rparr>, ap)
        else Some (\<lparr>num_neg = False, num_uval = sv, num_base = 10, num_upper = False, num_prefix = []\<rparr>, ap)
      }
      else if ch = CHR ''u''
      then map_option (\<lambda>(v, ap). (\<lparr>num_neg = False, num_uval = v, num_base = 10, num_upper = False, num_prefix = []\<rparr>, ap)) (va_unsigned p ap)
      else if ch = CHR ''o''
      then map_option (\<lambda>(v, ap). (\<lparr>num_neg = False, num_uval = v, num_base = 8, num_upper = False, num_prefix = []\<rparr>, ap)) (va_unsigned p ap)
      else if ch = CHR ''X'' \<or> ch = CHR ''x''
      then map_option (\<lambda>(v, ap). (\<lparr>num_neg = False, num_uval = v, num_base = 16, num_upper = (ch = CHR ''X''),
          num_prefix = (if spec_alt p \<and> v \<noteq> 0 then [CHR ''0'', if ch = CHR ''X'' then CHR ''X'' else CHR ''x''] else [])\<rparr>, ap))
          (va_unsigned p ap)
      else if ch = CHR ''p''
      then map_option (\<lambda>(w, ap). (\<lparr>num_neg = False, num_uval = ucast w, num_base = 16, num_upper = False, num_prefix = ''0x''\<rparr>, ap)) (va_word ap)
      else None)"

definition is_num_conv :: "char \<Rightarrow> bool" where
  "is_num_conv ch \<longleftrightarrow> ch \<in> set ''diuoXxp''"

text \<open>What follows the \<open>switch\<close>: sign, digits, padding.\<close>

definition emit_num :: "pspec \<Rightarrow> pnum \<Rightarrow> pctx \<Rightarrow> pctx option" where
  "emit_num p k c =
     (let pre = num_prefix k @ (if num_neg k then ''-'' else if spec_plus p then ''+'' else if spec_space p then '' '' else []) in
      do {
        numbuf \<leftarrow> utoa_buf (num_uval k) (num_base k) (num_upper k);
        let padlen = spec_width p - int (length numbuf) - int (length pre);
        c \<leftarrow> (if \<not> spec_left p \<and> \<not> spec_zero p then pemit_pad CHR '' '' padlen c else Some c);
        c \<leftarrow> pemit_str pre c;
        c \<leftarrow> (if \<not> spec_left p \<and> spec_zero p then pemit_pad CHR ''0'' padlen c else Some c);
        c \<leftarrow> pemit_str numbuf c;
        (if spec_left p then pemit_pad CHR '' '' padlen c else Some c)
      })"

text \<open>The common body of the character and string cases.\<close>

definition emit_padded :: "pspec \<Rightarrow> string \<Rightarrow> pctx \<Rightarrow> pctx option" where
  "emit_padded p s c =
     (let slen = int (length s) in
      do {
        c \<leftarrow> (if \<not> spec_left p then pemit_pad CHR '' '' (spec_width p - slen) c else Some c);
        c \<leftarrow> pemit_str s c;
        (if spec_left p then pemit_pad CHR '' '' (spec_width p - slen) c else Some c)
      })"

definition vprintf_conv :: "string \<Rightarrow> va_list \<Rightarrow> pspec \<Rightarrow> pctx \<Rightarrow> (string \<times> va_list \<times> pctx) option" where
  "vprintf_conv fmt ap p c =
     (let ch = cur fmt in
      if ch = CHR 0x00 then do { c \<leftarrow> pemit CHR ''%'' c; Some (fmt, ap, c) }
      else if ch = CHR ''%'' then do { c \<leftarrow> pemit CHR ''%'' c; Some (tl fmt, ap, c) }
      else if ch = CHR ''c''
      then do {
        (w, ap) \<leftarrow> va_word ap;
        c \<leftarrow> emit_padded p [char_of (unat (ucast w :: u8))] c;
        Some (tl fmt, ap, c) }
      else if ch = CHR ''s''
      then do {
        (s, ap) \<leftarrow> va_str ap;
        c \<leftarrow> emit_padded p (case s of None \<Rightarrow> ''(null)'' | Some s \<Rightarrow> s) c;
        Some (tl fmt, ap, c) }
      else if is_num_conv ch
      then do {
        (k, ap) \<leftarrow> conv_num ch p ap;
        c \<leftarrow> emit_num p k c;
        Some (tl fmt, ap, c) }
      else do { c \<leftarrow> pemit CHR ''%'' c; c \<leftarrow> pemit ch c; Some (tl fmt, ap, c) })"

text \<open>Everything between the percent sign and the conversion letter.\<close>

definition parse_spec :: "string \<Rightarrow> va_list \<Rightarrow> (string \<times> va_list \<times> pspec) option" where
  "parse_spec fmt ap =
     (let (fmt, p) = parse_flags fmt pspec_init in
      case parse_width fmt ap p of None \<Rightarrow> None
      | Some (fmt, ap, p) \<Rightarrow>
          case parse_prec fmt ap of None \<Rightarrow> None
          | Some (fmt, ap) \<Rightarrow> let (fmt, p) = parse_length fmt p in Some (fmt, ap, p))"

lemma length_tl_le: "length (tl xs) \<le> length xs"
  by (cases xs) auto

lemma parse_flags_length: "length (fst (parse_flags fmt p)) \<le> length fmt"
  by (induction fmt p rule: parse_flags.induct) auto

lemma parse_digits_length: "parse_digits fmt w = Some (fmt', w') \<Longrightarrow> length fmt' \<le> length fmt"
  by (induction fmt w rule: parse_digits.induct) (auto split: if_splits)

lemma parse_width_length: "parse_width fmt ap p = Some (fmt', ap', p') \<Longrightarrow> length fmt' \<le> length fmt"
  by (auto simp: parse_width_def length_tl_le dest: parse_digits_length split: if_splits option.splits)

lemma parse_prec_length: "parse_prec fmt ap = Some (fmt', ap') \<Longrightarrow> length fmt' \<le> length fmt"
  using length_tl_le [of "tl fmt"] length_tl_le [of fmt] length_dropWhile_le [of is_digit "tl fmt"]
  by (auto simp: parse_prec_def Let_def split: if_splits option.splits)

lemma parse_length_length: "length (fst (parse_length fmt p)) \<le> length fmt"
  by (simp add: parse_length_def le_trans [OF length_dropWhile_le length_dropWhile_le])

lemma parse_spec_length:
  assumes "parse_spec fmt ap = Some (fmt', ap', p)"
  shows "length fmt' \<le> length fmt"
proof -
  obtain f1 p1 where 1: "parse_flags fmt pspec_init = (f1, p1)" by (cases "parse_flags fmt pspec_init") simp
  with assms obtain f2 ap2 p2 where 2: "parse_width f1 ap p1 = Some (f2, ap2, p2)"
    by (auto simp: parse_spec_def split: option.splits)
  with assms 1 obtain f3 ap3 where 3: "parse_prec f2 ap2 = Some (f3, ap3)"
    by (auto simp: parse_spec_def split: option.splits)
  with assms 1 2 have "fmt' = fst (parse_length f3 p2)"
    by (auto simp: parse_spec_def split: prod.splits)
  with parse_length_length [of f3 p2] parse_prec_length [OF 3] parse_width_length [OF 2]
    parse_flags_length [of fmt pspec_init] 1 show ?thesis by simp
qed

lemma vprintf_conv_length: "vprintf_conv fmt ap p c = Some (fmt', ap', c') \<Longrightarrow> length fmt' \<le> length fmt"
  by (auto simp: vprintf_conv_def Let_def length_tl_le split: if_splits bind_splits)

function vprintf_loop :: "string \<Rightarrow> va_list \<Rightarrow> pctx \<Rightarrow> pctx option" where
  "vprintf_loop fmt ap c =
     (if cur fmt = CHR 0x00 then Some c
      else if cur fmt \<noteq> CHR ''%''
      then case pemit (cur fmt) c of None \<Rightarrow> None | Some c \<Rightarrow> vprintf_loop (tl fmt) ap c
      else case parse_spec (tl fmt) ap of None \<Rightarrow> None
      | Some (fmt', ap, p) \<Rightarrow>
          case vprintf_conv fmt' ap p c of None \<Rightarrow> None
          | Some (fmt', ap, c) \<Rightarrow> vprintf_loop fmt' ap c)"
  by pat_completeness auto
termination
proof (relation "measure (\<lambda>(fmt, ap, c). length fmt)")
qed (auto simp: cur_def split: list.splits dest!: parse_spec_length vprintf_conv_length)

definition pctx_init :: pctx where
  "pctx_init = \<lparr>ctx_buf = replicate PBUF_SZ CHR 0x00, ctx_n = 0, ctx_count = 0, ctx_written = []\<rparr>"

text \<open>The result is the \<open>_write\<close> calls made and the value returned.\<close>

definition vprintf :: "string option \<Rightarrow> va_list \<Rightarrow> (string list \<times> int) option" where
  "vprintf fmt ap =
     (case fmt of None \<Rightarrow> Some ([], 0)
      | Some fmt \<Rightarrow> map_option (\<lambda>c. let c = pflush c in (ctx_written c, ctx_count c)) (vprintf_loop fmt ap pctx_init))"

definition printf :: "string option \<Rightarrow> va_list \<Rightarrow> (string list \<times> int) option" where
  "printf fmt ap = vprintf fmt ap"

definition putchar :: "u32 \<Rightarrow> string list \<times> u32" where
  "putchar ch = ([[char_of (unat (ucast ch :: u8))]], ch)"

definition puts :: "string option \<Rightarrow> (string list \<times> int) option" where
  "puts s =
     (let s = (case s of None \<Rightarrow> ''(null)'' | Some s \<Rightarrow> s);
          len = int (length s)
      in if len \<ge> INT_MAX then None else Some ([s, ''\<newline>''], len + 1))"

section \<open>The buffer loses nothing\<close>

definition pctx_out :: "pctx \<Rightarrow> string" where
  "pctx_out c = concat (ctx_written c) @ take (ctx_n c) (ctx_buf c)"

definition pctx_ok :: "pctx \<Rightarrow> bool" where
  "pctx_ok c \<longleftrightarrow> length (ctx_buf c) = PBUF_SZ \<and> ctx_n c < PBUF_SZ
     \<and> ctx_count c = int (length (pctx_out c)) \<and> ctx_count c \<le> INT_MAX \<and> (\<forall>w \<in> set (ctx_written c). length w = PBUF_SZ)"

text \<open>An output step appends its text, unless that takes the count past \<open>INT_MAX\<close>.\<close>

definition emits :: "pctx \<Rightarrow> string \<Rightarrow> pctx option \<Rightarrow> bool" where
  "emits c s r \<longleftrightarrow> (pctx_ok c \<longrightarrow> (if ctx_count c + int (length s) \<le> INT_MAX
     then \<exists>c'. r = Some c' \<and> pctx_ok c' \<and> pctx_out c' = pctx_out c @ s else r = None))"

named_theorems emits

lemma emits_refl [emits]: "emits c [] (Some c)"
  by (simp add: emits_def pctx_ok_def)

lemma emits_bind_ok:
  assumes r: "emits c s r" and f: "\<And>c'. r = Some c' \<Longrightarrow> pctx_ok c' \<Longrightarrow> emits c' t (f c')"
  shows "emits c (s @ t) (Option.bind r f)"
  unfolding emits_def
proof
  assume c: "pctx_ok c"
  show "if ctx_count c + int (length (s @ t)) \<le> INT_MAX then \<exists>c'. Option.bind r f = Some c' \<and> pctx_ok c' \<and> pctx_out c' = pctx_out c @ s @ t
    else Option.bind r f = None"
  proof (cases "ctx_count c + int (length s) \<le> INT_MAX")
    case True
    with r c obtain c' where c': "r = Some c'" "pctx_ok c'" "pctx_out c' = pctx_out c @ s" unfolding emits_def by auto
    have "ctx_count c' = ctx_count c + int (length s)" using c c'(2,3) by (simp add: pctx_ok_def)
    then show ?thesis using f [OF c'(1,2)] c' unfolding emits_def by (auto simp: add.assoc split: if_splits)
  next
    case False
    with r c have "r = None" unfolding emits_def by simp
    then show ?thesis using False by simp
  qed
qed

lemma emits_bind: "emits c s r \<Longrightarrow> (\<And>c'. emits c' t (f c')) \<Longrightarrow> emits c (s @ t) (Option.bind r f)"
  by (rule emits_bind_ok)

lemma emits_pemit [emits]: "emits c [ch] (pemit ch c)"
proof -
  have "\<exists>c'. pemit ch c = Some c' \<and> pctx_ok c' \<and> pctx_out c' = pctx_out c @ [ch]" if ok: "pctx_ok c" and lt: "ctx_count c + 1 \<le> INT_MAX"
  proof -
    have n: "ctx_n c < length (ctx_buf c)" "length (ctx_buf c) = PBUF_SZ" using ok by (auto simp: pctx_ok_def)
    then have take: "take (Suc (ctx_n c)) ((ctx_buf c)[ctx_n c := ch]) = take (ctx_n c) (ctx_buf c) @ [ch]"
      by (simp add: take_Suc_conv_app_nth)
    show ?thesis
    proof (cases "Suc (ctx_n c) = PBUF_SZ")
      case True
      with n take have full: "(ctx_buf c)[ctx_n c := ch] = take (ctx_n c) (ctx_buf c) @ [ch]" by simp
      from True have last: "ctx_n c = 127" by (simp add: PBUF_SZ_def)
      show ?thesis using ok lt n full [unfolded last]
        by (auto simp: pemit_def pflush_def pctx_ok_def pctx_out_def Let_def PBUF_SZ_def last)
    next
      case False
      then show ?thesis using ok lt n take
        by (auto simp: pemit_def pctx_ok_def pctx_out_def Let_def)
    qed
  qed
  moreover have "pemit ch c = None" if "pctx_ok c" "\<not> ctx_count c + 1 \<le> INT_MAX"
    using that by (simp add: pemit_def pctx_ok_def)
  ultimately show ?thesis by (auto simp: emits_def)
qed

lemma emits_pad [emits]: "emits c (replicate (nat n) ch) (pemit_pad ch n c)"
proof (induction "nat n" arbitrary: n c)
  case 0
  then show ?case by (subst pemit_pad.simps) (simp add: emits_refl)
next
  case (Suc k)
  then have n: "n > 0" "k = nat (n - 1)" by simp_all
  have "emits c ([ch] @ replicate (nat (n - 1)) ch) (Option.bind (pemit ch c) (pemit_pad ch (n - 1)))"
    by (rule emits_bind [OF emits_pemit Suc(1) [OF n(2)]])
  moreover have "replicate (nat n) ch = [ch] @ replicate (nat (n - 1)) ch" using Suc(2) n by (metis append_Cons append_Nil replicate_Suc)
  ultimately show ?case using n(1) by (subst pemit_pad.simps) simp
qed

declare pemit_pad.simps [simp del]

lemma emits_str [emits]: "emits c s (pemit_str s c)"
proof (induction s arbitrary: c)
  case (Cons ch s)
  from emits_bind [OF emits_pemit Cons.IH] show ?case by simp
qed (simp add: emits_refl)

text \<open>The text of a padded conversion.\<close>

definition padded_text :: "pspec \<Rightarrow> string \<Rightarrow> string" where
  "padded_text p s =
     (let pad = replicate (nat (spec_width p - int (length s))) CHR '' ''
      in if spec_left p then s @ pad else pad @ s)"

lemma emits_padded [emits]: "emits c (padded_text p s) (emit_padded p s c)"
proof (cases "spec_left p")
  case True
  then show ?thesis unfolding padded_text_def emit_padded_def Let_def by simp (rule emits_bind emits_str emits_pad)+
next
  case False
  have "emits c (replicate (nat (spec_width p - int (length s))) CHR '' '' @ s @ [])
      (Option.bind (pemit_pad CHR '' '' (spec_width p - int (length s)) c) (\<lambda>c. Option.bind (pemit_str s c) Some))"
    by (rule emits_bind emits_str emits_pad emits_refl)+
  then show ?thesis using False by (simp add: padded_text_def emit_padded_def Let_def)
qed

definition sign_text :: "pspec \<Rightarrow> pnum \<Rightarrow> string" where
  "sign_text p k = num_prefix k @ (if num_neg k then ''-'' else if spec_plus p then ''+'' else if spec_space p then '' '' else [])"

definition num_text :: "pspec \<Rightarrow> pnum \<Rightarrow> string option" where
  "num_text p k = map_option (\<lambda>digits.
     let fill = nat (spec_width p - int (length (sign_text p k @ digits)))
     in if spec_left p then sign_text p k @ digits @ replicate fill CHR '' ''
        else if spec_zero p then sign_text p k @ replicate fill CHR ''0'' @ digits
        else replicate fill CHR '' '' @ sign_text p k @ digits) (utoa_buf (num_uval k) (num_base k) (num_upper k))"

lemma emits_num:
  "(case num_text p k of None \<Rightarrow> emit_num p k c = None | Some s \<Rightarrow> emits c s (emit_num p k c))"
proof (cases "utoa_buf (num_uval k) (num_base k) (num_upper k)")
  case (Some ds)
  define f where "f = spec_width p - int (length ds) - int (length (sign_text p k))"
  have w: "spec_width p - (int (length (sign_text p k)) + int (length ds)) = f" by (simp add: f_def)
  have e: "emit_num p k c = do {
      c \<leftarrow> (if \<not> spec_left p \<and> \<not> spec_zero p then pemit_pad CHR '' '' f c else Some c);
      c \<leftarrow> pemit_str (sign_text p k) c;
      c \<leftarrow> (if \<not> spec_left p \<and> spec_zero p then pemit_pad CHR ''0'' f c else Some c);
      c \<leftarrow> pemit_str ds c;
      (if spec_left p then pemit_pad CHR '' '' f c else Some c) }"
    unfolding emit_num_def Let_def Some bind.bind_lunit by (simp only: f_def sign_text_def)
  consider "spec_left p" | "\<not> spec_left p" "spec_zero p" | "\<not> spec_left p" "\<not> spec_zero p" by blast
  then show ?thesis
  proof cases
    case 1
    have "emits c (sign_text p k @ ds @ replicate (nat f) CHR '' '')
       (Option.bind (pemit_str (sign_text p k) c) (\<lambda>c. Option.bind (pemit_str ds c) (pemit_pad CHR '' '' f)))"
      by (rule emits_bind emits_str emits_pad)+
    then show ?thesis using 1 by (simp add: num_text_def Some e w)
  next
    case 2
    have "emits c (sign_text p k @ replicate (nat f) CHR ''0'' @ ds @ [])
       (Option.bind (pemit_str (sign_text p k) c) (\<lambda>c. Option.bind (pemit_pad CHR ''0'' f c) (\<lambda>c. Option.bind (pemit_str ds c) Some)))"
      by (rule emits_bind emits_str emits_pad emits_refl)+
    then show ?thesis using 2 by (simp add: num_text_def Some e w)
  next
    case 3
    have "emits c (replicate (nat f) CHR '' '' @ sign_text p k @ ds @ [])
       (Option.bind (pemit_pad CHR '' '' f c) (\<lambda>c. Option.bind (pemit_str (sign_text p k) c) (\<lambda>c. Option.bind (pemit_str ds c) Some)))"
      by (rule emits_bind emits_str emits_pad emits_refl)+
    then show ?thesis using 3 by (simp add: num_text_def Some e w)
  qed
qed (simp add: emit_num_def num_text_def)

text \<open>The unbuffered specification: the text a conversion contributes, and the text of a format.\<close>

definition conv_text :: "string \<Rightarrow> va_list \<Rightarrow> pspec \<Rightarrow> (string \<times> va_list \<times> string) option" where
  "conv_text fmt ap p =
     (let ch = cur fmt in
      if ch = CHR 0x00 then Some (fmt, ap, ''%'')
      else if ch = CHR ''%'' then Some (tl fmt, ap, ''%'')
      else if ch = CHR ''c''
      then map_option (\<lambda>(w, ap). (tl fmt, ap, padded_text p [char_of (unat (ucast w :: u8))])) (va_word ap)
      else if ch = CHR ''s''
      then map_option (\<lambda>(s, ap). (tl fmt, ap, padded_text p (case s of None \<Rightarrow> ''(null)'' | Some s \<Rightarrow> s))) (va_str ap)
      else if is_num_conv ch
      then Option.bind (conv_num ch p ap) (\<lambda>(k, ap). map_option (\<lambda>s. (tl fmt, ap, s)) (num_text p k))
      else Some (tl fmt, ap, [CHR ''%'', ch]))"

lemma vprintf_conv_refines:
  "(case conv_text fmt ap p of None \<Rightarrow> vprintf_conv fmt ap p c = None
    | Some (fmt', ap', s) \<Rightarrow> \<exists>r. vprintf_conv fmt ap p c = map_option (\<lambda>c. (fmt', ap', c)) r \<and> emits c s r)"
proof -
  have m: "Option.bind r (\<lambda>c. Some (f, a, c)) = map_option (\<lambda>c. (f, a, c)) r" for r :: "pctx option" and f :: string and a :: va_list
    by (cases r) simp_all
  have two: "emits c [CHR ''%'', ch] (Option.bind (pemit CHR ''%'' c) (pemit ch))" for ch
    using emits_bind [OF emits_pemit emits_pemit] by simp
  have two_m: "Option.bind (pemit CHR ''%'' c) (\<lambda>c. map_option (\<lambda>c. (f, a, c)) (pemit ch c))
      = map_option (\<lambda>c. (f, a, c)) (Option.bind (pemit CHR ''%'' c) (pemit ch))" for ch and f :: string and a :: va_list
    by (cases "pemit CHR ''%'' c") simp_all
  consider (special) "cur fmt \<in> {CHR 0x00, CHR ''%'', CHR ''c'', CHR ''s''}"
    | (num) "cur fmt \<notin> {CHR 0x00, CHR ''%'', CHR ''c'', CHR ''s''}" "is_num_conv (cur fmt)"
    | (other) "cur fmt \<notin> {CHR 0x00, CHR ''%'', CHR ''c'', CHR ''s''}" "\<not> is_num_conv (cur fmt)" by blast
  then show ?thesis
  proof cases
    case special
    then show ?thesis
      by (auto simp: vprintf_conv_def conv_text_def Let_def m split: option.splits intro: emits)
  next
    case num
    show ?thesis
    proof (cases "conv_num (cur fmt) p ap")
      case None
      with num show ?thesis by (simp add: vprintf_conv_def conv_text_def)
    next
      case (Some a)
      obtain k ap' where a: "a = (k, ap')" by (cases a)
      show ?thesis using num Some emits_num [of p k c]
        by (auto simp: vprintf_conv_def conv_text_def a m split: option.splits)
    qed
  next
    case other
    then show ?thesis using two [of "cur fmt"] by (auto simp: vprintf_conv_def conv_text_def Let_def m two_m)
  qed
qed

lemma conv_text_length: "conv_text fmt ap p = Some (fmt', ap', s) \<Longrightarrow> length fmt' \<le> length fmt"
  by (auto simp: conv_text_def Let_def length_tl_le split: if_splits bind_splits)

function vformat :: "string \<Rightarrow> va_list \<Rightarrow> string option" where
  "vformat fmt ap =
     (if cur fmt = CHR 0x00 then Some []
      else if cur fmt \<noteq> CHR ''%'' then map_option ((#) (cur fmt)) (vformat (tl fmt) ap)
      else case parse_spec (tl fmt) ap of None \<Rightarrow> None
      | Some (fmt', ap, p) \<Rightarrow>
          case conv_text fmt' ap p of None \<Rightarrow> None
          | Some (fmt', ap, s) \<Rightarrow> map_option ((@) s) (vformat fmt' ap))"
  by pat_completeness auto
termination
proof (relation "measure (\<lambda>(fmt, ap). length fmt)")
qed (auto simp: cur_def split: list.splits dest!: parse_spec_length conv_text_length)

declare vformat.simps [simp del] vprintf_loop.simps [simp del]

lemma vprintf_loop_refines:
  "pctx_ok c \<Longrightarrow> (case vformat fmt ap of None \<Rightarrow> vprintf_loop fmt ap c = None | Some s \<Rightarrow> emits c s (vprintf_loop fmt ap c))"
proof (induction fmt ap c rule: vprintf_loop.induct)
  case (1 fmt ap c)
  note step = vprintf_loop.simps [of fmt ap c] vformat.simps [of fmt ap]
  have none: "Option.bind r f = None" if "emits c s r" "\<And>c'. r = Some c' \<Longrightarrow> pctx_ok c' \<Longrightarrow> f c' = None" for s r and f :: "pctx \<Rightarrow> pctx option"
    using that 1(3) unfolding emits_def by (cases r) (auto split: if_splits)
  consider (stop) "cur fmt = CHR 0x00" | (lit) "cur fmt \<noteq> CHR 0x00" "cur fmt \<noteq> CHR ''%''"
    | (conv) "cur fmt = CHR ''%''" by blast
  then show ?case
  proof cases
    case stop
    then show ?thesis by (simp add: step emits_refl)
  next
    case lit
    have e: "vprintf_loop fmt ap c = Option.bind (pemit (cur fmt) c) (vprintf_loop (tl fmt) ap)"
      using lit by (cases "pemit (cur fmt) c") (simp_all add: step)
    show ?thesis
    proof (cases "vformat (tl fmt) ap")
      case None
      have "vprintf_loop fmt ap c = None" unfolding e
        by (rule none [OF emits_pemit]) (use 1(1) [OF lit] None in simp)
      then show ?thesis using lit None by (simp add: step)
    next
      case (Some s)
      have "emits c ([cur fmt] @ s) (vprintf_loop fmt ap c)" unfolding e
        by (rule emits_bind_ok [OF emits_pemit]) (use 1(1) [OF lit] Some in simp)
      then show ?thesis using lit Some by (simp add: step(2))
    qed
  next
    case conv
    then have ne: "cur fmt \<noteq> CHR 0x00" "\<not> cur fmt \<noteq> CHR ''%''" by simp_all
    show ?thesis
    proof (cases "parse_spec (tl fmt) ap")
      case None
      with ne show ?thesis by (simp add: step)
    next
      case ps: (Some a)
      obtain f1 ap1 p where a: "a = (f1, ap1, p)" by (cases a)
      show ?thesis
      proof (cases "conv_text f1 ap1 p")
        case None
        with vprintf_conv_refines [of f1 ap1 p c] ne ps a show ?thesis by (simp add: step)
      next
        case ct: (Some b)
        obtain f2 ap2 s where b: "b = (f2, ap2, s)" by (cases b)
        obtain r where r: "vprintf_conv f1 ap1 p c = map_option (\<lambda>c. (f2, ap2, c)) r" "emits c s r"
          using vprintf_conv_refines [of f1 ap1 p c] ct b by auto
        have e: "vprintf_loop fmt ap c = Option.bind r (vprintf_loop f2 ap2)"
          using ne ps a r(1) by (cases r) (simp_all add: step)
        have IH: "case vformat f2 ap2 of None \<Rightarrow> vprintf_loop f2 ap2 c' = None | Some s \<Rightarrow> emits c' s (vprintf_loop f2 ap2 c')"
          if "r = Some c'" "pctx_ok c'" for c'
          using 1(2) [OF ne ps _ _ _ _ _ that(2)] r(1) a that(1) by auto
        show ?thesis
        proof (cases "vformat f2 ap2")
          case None
          have "vprintf_loop fmt ap c = None" unfolding e by (rule none [OF r(2)]) (use IH None in simp)
          then show ?thesis using ne ps a ct b None by (simp add: step(2))
        next
          case (Some t)
          have "emits c (s @ t) (vprintf_loop fmt ap c)" unfolding e by (rule emits_bind_ok [OF r(2)]) (use IH Some in simp)
          then show ?thesis using ne ps a ct b Some by (simp add: step(2))
        qed
      qed
    qed
  qed
qed

lemma pctx_ok_init: "pctx_ok pctx_init" "pctx_out pctx_init = []"
  by (simp_all add: pctx_ok_def pctx_init_def pctx_out_def PBUF_SZ_def INT_MAX_def)

definition writes_ok :: "string list \<Rightarrow> bool" where
  "writes_ok ws \<longleftrightarrow> (\<forall>w \<in> set (butlast ws). length w = PBUF_SZ)
     \<and> (ws \<noteq> [] \<longrightarrow> 0 < length (last ws) \<and> length (last ws) \<le> PBUF_SZ)"

lemma pflush_writes:
  assumes "pctx_ok c"
  shows "concat (ctx_written (pflush c)) = pctx_out c \<and> writes_ok (ctx_written (pflush c))
     \<and> ctx_count (pflush c) = int (length (pctx_out c))"
proof -
  have "ctx_written c \<noteq> [] \<Longrightarrow> length (last (ctx_written c)) = PBUF_SZ" using assms by (simp add: pctx_ok_def)
  then show ?thesis using assms
    by (cases "ctx_n c = 0") (auto simp: pflush_def pctx_ok_def pctx_out_def writes_ok_def PBUF_SZ_def in_set_butlastD)
qed

section \<open>Division and digits\<close>

lemma shift_in_bit:
  fixes r :: u32 and n :: u64
  assumes "unat r < 2 ^ 31"
  shows "unat (push_bit 1 r OR ucast (drop_bit i n AND 1) :: u32) = 2 * unat r + (unat n div 2 ^ i) mod 2"
proof -
  have "bit (unat n) i \<longleftrightarrow> bit n i" by (auto simp: bit_unsigned_iff dest: bit_imp_possible_bit)
  then have "bit n i \<longleftrightarrow> odd (unat n div 2 ^ i)" by (simp add: bit_iff_odd)
  then have b: "(unat n div 2 ^ i) mod 2 = of_bool (bit n i)" by (simp add: odd_iff_mod_2_eq_one even_iff_mod_2_eq_zero)
  have "(ucast (drop_bit i n AND 1) :: u32) = of_bool (bit n i)"
    by (rule bit_eqI) (auto simp: bit_ucast_iff bit_and_iff bit_1_iff bit_drop_bit_eq bit_of_bool_iff)
  then have "push_bit 1 r OR ucast (drop_bit i n AND 1) = (push_bit 1 r OR of_bool (bit n i) :: u32)" by simp
  also have "\<dots> = push_bit 1 r + of_bool (bit n i)"
    by (rule disjunctive_add [symmetric]) (unfold bit_push_bit_iff bit_of_bool_iff, auto)
  also have "\<dots> = of_nat (2 * unat r + of_bool (bit n i))" by (simp add: push_bit_eq_mult)
  finally have "unat (push_bit 1 r OR ucast (drop_bit i n AND 1) :: u32) = (2 * unat r + of_bool (bit n i)) mod 2 ^ 32"
    by (simp only: unat_of_nat take_bit_nat_def) simp
  with assms b show ?thesis by simp
qed

lemma set_quotient_bit:
  fixes q :: u64
  assumes "unat q = 2 * Q * 2 ^ i" "(2 * Q + 1) * 2 ^ i < 2 ^ 64" "i < 64"
  shows "unat (q OR push_bit i 1) = (2 * Q + 1) * 2 ^ i"
proof -
  have "unat q div 2 ^ i = 2 * Q" using assms(1) by simp
  then have "even (unat q div 2 ^ i)" by simp
  then have "\<not> bit (unat q) i" by (simp add: bit_iff_odd)
  then have "\<not> bit q i" using assms(3) by (simp add: bit_unsigned_iff)
  then have "q OR push_bit i 1 = q + push_bit i 1"
    by (subst disjunctive_add) (auto simp: bit_push_bit_iff bit_1_iff bit_exp_iff)
  then have "unat (q OR push_bit i 1) = unat (q + 2 ^ i)" by (simp add: push_bit_of_1)
  also have "\<dots> = (unat q + 2 ^ i) mod 2 ^ 64"
    using assms(3) by (simp add: unat_word_ariths unat_exp)
  also have "unat q + 2 ^ i = (2 * Q + 1) * 2 ^ i" using assms(1) by simp
  finally show ?thesis using assms(2) by simp
qed

lemma div_loop_correct:
  assumes "0 < unat d" "unat d \<le> 2 ^ 31"
    and "unat r = (unat n div 2 ^ i) mod unat d"
    and "unat q = (unat n div 2 ^ i) div unat d * 2 ^ i" and "i \<le> 64"
  shows "unat (fst (div_loop i n d q r)) = unat n div unat d \<and> unat (snd (div_loop i n d q r)) = unat n mod unat d"
  using assms
proof (induction i arbitrary: q r)
  case (Suc i)
  let ?N = "unat n div 2 ^ Suc i" and ?D = "unat d"
  let ?b = "(unat n div 2 ^ i) mod 2" and ?Q = "?N div ?D"
  have "unat n div 2 ^ i div 2 = ?N" by (simp only: power_Suc2 div_mult2_eq)
  then have N: "unat n div 2 ^ i = 2 * ?N + ?b" using mult_div_mod_eq [of 2 "unat n div 2 ^ i"] by simp
  have r: "unat r < ?D" using Suc.prems(1,3) by simp
  define r' where "r' = (push_bit 1 r OR ucast (drop_bit i n AND 1) :: u32)"
  have r': "unat r' = 2 * unat r + ?b"
    unfolding r'_def by (rule shift_in_bit) (use r Suc.prems(2) in simp)
  have rd: "unat r' < 2 * ?D" using r' r by (auto simp: mod2_eq_if)
  have "?D * ?Q + unat r = ?N" using Suc.prems(3) by simp
  then have split: "unat n div 2 ^ i = unat r' + ?D * (2 * ?Q)" using N r' by (simp add: algebra_simps)
  then have dm: "(unat n div 2 ^ i) div ?D = 2 * ?Q + unat r' div ?D" "(unat n div 2 ^ i) mod ?D = unat r' mod ?D"
    using Suc.prems(1) by simp_all
  show ?case
  proof (cases "d \<le> r'")
    case True
    then have le: "?D \<le> unat r'" by (simp add: word_le_nat_alt)
    then have one: "unat r' div ?D = 1" "unat r' mod ?D = unat r' - ?D"
      using rd Suc.prems(1) by (simp_all add: div_nat_eqI le_mod_geq)
    have "(2 * ?Q + 1) * 2 ^ i \<le> (unat n div 2 ^ i) * 2 ^ i"
      using dm(1) one(1) div_le_dividend [of "unat n div 2 ^ i" ?D] by (intro mult_right_mono) simp_all
    also have "\<dots> \<le> unat n" by simp
    also have "\<dots> < 2 ^ 64" by (rule u64_bound)
    finally have q': "unat (q OR push_bit i 1) = (2 * ?Q + 1) * 2 ^ i"
      using Suc.prems(4,5) by (intro set_quotient_bit) simp_all
    have "div_loop (Suc i) n d q r = div_loop i n d (q OR push_bit i 1) (r' - d)"
      using True by (simp add: r'_def Let_def)
    moreover have "unat (r' - d) = (unat n div 2 ^ i) mod ?D" using dm(2) one(2) True by (simp add: unat_sub)
    moreover have "unat (q OR push_bit i 1) = (unat n div 2 ^ i) div ?D * 2 ^ i" using q' dm(1) one(1) by simp
    ultimately show ?thesis using Suc.IH Suc.prems(1,2,5) by simp
  next
    case False
    then have "unat r' < ?D" by (simp add: word_le_nat_alt not_le)
    then have "unat r' div ?D = 0" "unat r' mod ?D = unat r'" by simp_all
    moreover have "div_loop (Suc i) n d q r = div_loop i n d q r'" using False by (simp add: r'_def Let_def)
    ultimately show ?thesis using Suc.IH [of r' q] Suc.prems dm by simp
  qed
qed simp

lemma div_u64_u32_correct:
  assumes "0 < d" "d \<le> 0x80000000"
  shows "unat (fst (div_u64_u32 n d)) = unat n div unat d" "unat (snd (div_u64_u32 n d)) = unat n mod unat d"
proof -
  have "unat n div 2 ^ 64 = 0" using u64_bound [of n] by simp
  then have "unat (fst (div_u64_u32 n d)) = unat n div unat d \<and> unat (snd (div_u64_u32 n d)) = unat n mod unat d"
    unfolding div_u64_u32_def using assms
    by (intro div_loop_correct) (simp_all add: word_less_nat_alt word_le_nat_alt)
  then show "unat (fst (div_u64_u32 n d)) = unat n div unat d" "unat (snd (div_u64_u32 n d)) = unat n mod unat d"
    by simp_all
qed
text \<open>The digits of a number, least significant first.\<close>

fun lsd :: "nat \<Rightarrow> nat \<Rightarrow> nat list" where
  "lsd b n = (if n = 0 \<or> b < 2 then [] else n mod b # lsd b (n div b))"

declare lsd.simps [simp del]

lemma lsd_0 [simp]: "lsd b 0 = []"
  by (simp add: lsd.simps)

lemma lsd_step: "0 < n \<Longrightarrow> 2 \<le> b \<Longrightarrow> lsd b n = n mod b # lsd b (n div b)"
  by (subst lsd.simps) simp

lemma lsd_less: "x \<in> set (lsd b n) \<Longrightarrow> x < b"
  by (induction b n rule: lsd.induct) (subst (asm) (2) lsd.simps, auto split: if_splits)

lemma lsd_length: "2 \<le> b \<Longrightarrow> n < b ^ k \<Longrightarrow> length (lsd b n) \<le> k"
proof (induction k arbitrary: n)
  case (Suc k)
  show ?case
  proof (cases "n = 0")
    case False
    have "n div b < b ^ k" using Suc.prems by (simp add: less_mult_imp_div_less mult.commute)
    with Suc.IH [OF Suc.prems(1) this] False Suc.prems(1) show ?thesis by (simp add: lsd_step)
  qed simp
qed simp

lemma lsd_last: "2 \<le> b \<Longrightarrow> 0 < n \<Longrightarrow> lsd b n \<noteq> [] \<and> last (lsd b n) \<noteq> 0"
proof (induction n rule: less_induct)
  case (less n)
  show ?case
  proof (cases "n < b")
    case True
    with less.prems show ?thesis by (simp add: lsd_step)
  next
    case False
    with less.prems have "0 < n div b" "n div b < n" by (auto simp: div_greater_zero_iff)
    with less.IH [of "n div b"] less.prems show ?thesis by (simp add: lsd_step)
  qed
qed

text \<open>The value of a printed number.\<close>

definition hex_val :: "char \<Rightarrow> nat" where
  "hex_val ch = (let c = of_char ch :: nat in
     if 48 \<le> c \<and> c \<le> 57 then c - 48 else if 97 \<le> c \<and> c \<le> 102 then c - 87 else c - 55)"

definition text_val :: "nat \<Rightarrow> string \<Rightarrow> nat" where
  "text_val b s = foldl (\<lambda>acc ch. acc * b + hex_val ch) 0 s"

lemma less_16:
  "d < 16 \<longleftrightarrow> d \<in> {0, 1, 2, 3, 4, 5, 6, 7, 8, 9, 10, 11, 12, 13, 14, 15 :: nat}"
  unfolding insert_iff empty_iff by presburger

lemma hex_val_digit: "d < 16 \<Longrightarrow> hex_val (digit_chars upper ! d) = d"
  by (cases upper; simp only: less_16; auto simp: digit_chars_def hex_val_def)

lemma digit_char_0: "d < 16 \<Longrightarrow> digit_chars upper ! d = CHR ''0'' \<longleftrightarrow> d = 0"
  by (cases upper; simp only: less_16; auto simp: digit_chars_def)

lemma length_digit_chars [simp]: "length (digit_chars upper) = 16"
  by (simp add: digit_chars_def)

lemma text_val_snoc: "text_val b (s @ [ch]) = text_val b s * b + hex_val ch"
  by (simp add: text_val_def)

lemma text_val_lsd:
  assumes "2 \<le> b" "b \<le> 16"
  shows "text_val b (rev (map ((!) (digit_chars upper)) (lsd b n))) = n"
proof (induction n rule: less_induct)
  case (less n)
  show ?case
  proof (cases "n = 0")
    case False
    with assms have "n div b < n" by simp
    moreover have "n mod b < 16" using assms by (meson less_le_trans mod_less_divisor zero_less_numeral order.strict_trans2)
    ultimately show ?thesis
      using less.IH [of "n div b"] False assms by (simp add: lsd_step text_val_snoc hex_val_digit)
  qed (simp add: text_val_def)
qed

lemma utoa32_digits:
  assumes "2 \<le> unat base" "unat base \<le> 16"
  shows "utoa32 (digit_chars upper) base v tmp =
    Some (tmp @ map ((!) (digit_chars upper)) (lsd (unat base) (unat v)))"
proof (induction "unat v" arbitrary: v tmp rule: less_induct)
  case less
  show ?case
  proof (cases "v = 0")
    case True
    then show ?thesis by (simp add: utoa32.simps)
  next
    case False
    then have pos: "0 < unat v" by (simp add: unat_gt_0)
    have m: "unat (v mod base) = unat v mod unat base" "unat (v div base) = unat v div unat base"
      by (simp_all add: unat_mod_distrib unat_div_distrib)
    have lt: "unat v mod unat base < 16" using assms by (meson less_le_trans mod_less_divisor zero_less_numeral order.strict_trans2)
    have "unat (v div base) < unat v" using m pos assms by simp
    from less [OF this] lt assms pos False m show ?thesis
      by (auto simp: utoa32.simps [of _ _ v] lsd_step)
  qed
qed

lemma utoa64_digits:
  assumes "2 \<le> unat base" "unat base \<le> 16"
  shows "utoa64 (digit_chars upper) base v tmp =
    Some (tmp @ map ((!) (digit_chars upper)) (lsd (unat base) (unat v)))"
proof (induction "unat v" arbitrary: v tmp rule: less_induct)
  case less
  show ?case
  proof (cases "v = 0")
    case True
    then show ?thesis by (simp add: utoa64.simps)
  next
    case False
    then have pos: "0 < unat v" by (simp add: unat_gt_0)
    obtain q r where qr: "div_u64_u32 v base = (q, r)" by (cases "div_u64_u32 v base")
    have "0 < base" "base \<le> 0x80000000" using assms by (simp_all add: word_less_nat_alt word_le_nat_alt)
    from div_u64_u32_correct [OF this, of v] qr
    have m: "unat r = unat v mod unat base" "unat q = unat v div unat base" by simp_all
    have lt: "unat v mod unat base < 16" using assms by (meson less_le_trans mod_less_divisor zero_less_numeral order.strict_trans2)
    have "unat q < unat v" using m pos assms by simp
    from less [OF this] lt assms pos False m qr show ?thesis
      by (auto simp: utoa64.simps [of _ _ v] lsd_step)
  qed
qed

definition num_string :: "nat \<Rightarrow> bool \<Rightarrow> nat \<Rightarrow> string" where
  "num_string b upper n = (if n = 0 then ''0'' else rev (map ((!) (digit_chars upper)) (lsd b n)))"

lemma utoa_buf_eq:
  assumes "2 \<le> unat base" "unat base \<le> 16"
  shows "utoa_buf v base upper = Some (num_string (unat base) upper (unat v))"
proof -
  have "unat (ucast v :: u32) = unat v" if "drop_bit 32 v = 0"
  proof -
    have "unat v div 2 ^ 32 = 0" using that by (metis drop_bit_nat_def unat_drop_bit_eq unat_0)
    then have "unat v < 2 ^ 32" by (simp add: div_eq_0_iff)
    then show ?thesis by (simp add: unsigned_ucast_eq take_bit_nat_eq_self)
  qed
  then show ?thesis
    by (simp add: utoa_buf_def Let_def utoa32_digits [OF assms] utoa64_digits [OF assms]
        num_string_def unat_eq_zero)
qed

lemma num_string_val: "2 \<le> b \<Longrightarrow> b \<le> 16 \<Longrightarrow> text_val b (num_string b upper n) = n"
  by (simp add: num_string_def text_val_lsd) (simp add: text_val_def hex_val_def)

lemma num_string_length:
  assumes "2 \<le> b" "n < b ^ k" "0 < k"
  shows "0 < length (num_string b upper n)" "length (num_string b upper n) \<le> k"
  using lsd_length [OF assms(1,2)] lsd_last [OF assms(1), of n] assms(3)
  by (auto simp: num_string_def)

lemma num_string_no_leading_zero:
  assumes "2 \<le> b" "b \<le> 16" "0 < n"
  shows "hd (num_string b upper n) \<noteq> CHR ''0''"
proof -
  have "last (lsd b n) < 16" using lsd_last [OF assms(1,3)] lsd_less [of _ b n] assms(2)
    by (meson last_in_set less_le_trans)
  then show ?thesis using lsd_last [OF assms(1,3)] assms
    by (simp add: num_string_def hd_rev last_map digit_char_0)
qed
section \<open>Properties\<close>

lemma vprintf_text:
  assumes "vformat fmt ap = Some s" "int (length s) \<le> INT_MAX"
  obtains ws where "vprintf (Some fmt) ap = Some (ws, int (length s))" "s = concat ws" "writes_ok ws"
proof -
  have "ctx_count pctx_init = 0" by (simp add: pctx_init_def)
  with assms vprintf_loop_refines [OF pctx_ok_init(1), of fmt ap] obtain c where
    c: "vprintf_loop fmt ap pctx_init = Some c" and o: "pctx_ok c" "pctx_out c = s"
    by (auto simp: emits_def pctx_ok_init)
  show ?thesis
    by (rule that [of "ctx_written (pflush c)"])
      (use pflush_writes [OF o(1)] o(2) c in \<open>simp_all add: vprintf_def Let_def\<close>)
qed

lemma vprintf_undefined:
  assumes "vformat fmt ap = None \<or> (\<exists>s. vformat fmt ap = Some s \<and> INT_MAX < int (length s))"
  shows "vprintf (Some fmt) ap = None"
proof -
  have "ctx_count pctx_init = 0" by (simp add: pctx_init_def)
  then have "vprintf_loop fmt ap pctx_init = None"
    using assms vprintf_loop_refines [OF pctx_ok_init(1), of fmt ap] by (auto simp: emits_def pctx_ok_init)
  then show ?thesis by (simp add: vprintf_def)
qed

text \<open>C5: Buffered output is the specified text. For every format and argument list, \<open>vprintf\<close>
  is undefined exactly where the unbuffered specification is, or where the text is longer than
  \<open>INT_MAX\<close>, the range of its counter. Everywhere else it returns: the concatenation of its
  \<open>_write\<close> calls is the specified text, nothing lost, repeated or reordered at a buffer boundary,
  every call but the last carries a full buffer and the last a non-empty one, and the value returned
  is the length of the text.\<close>

theorem vprintf_refines:
  "(case vprintf (Some fmt) ap of
      None \<Rightarrow> (case vformat fmt ap of None \<Rightarrow> True | Some s \<Rightarrow> INT_MAX < int (length s))
    | Some (ws, n) \<Rightarrow> vformat fmt ap = Some (concat ws) \<and> writes_ok ws \<and> n = int (length (concat ws)) \<and> n \<le> INT_MAX)"
proof (cases "\<exists>s. vformat fmt ap = Some s \<and> int (length s) \<le> INT_MAX")
  case False
  then have "vprintf (Some fmt) ap = None" by (intro vprintf_undefined) (cases "vformat fmt ap"; auto)
  then show ?thesis using False by (auto split: option.splits)
next
  case True
  then obtain s where s: "vformat fmt ap = Some s" "int (length s) \<le> INT_MAX" by blast
  then obtain ws where "vprintf (Some fmt) ap = Some (ws, int (length s))" "s = concat ws" "writes_ok ws"
    by (rule vprintf_text)
  with s show ?thesis by simp
qed

lemma writes_ok_short:
  assumes "writes_ok ws" "0 < length (concat ws)" "length (concat ws) \<le> PBUF_SZ"
  shows "ws = [concat ws]"
proof (cases ws rule: rev_cases)
  case (snoc vs w)
  with assms(1) have w: "0 < length w" "\<forall>v \<in> set vs. length v = PBUF_SZ" by (simp_all add: writes_ok_def)
  have "vs = []"
  proof (cases vs)
    case (Cons v us)
    with w snoc assms(3) show ?thesis by simp
  qed simp
  with snoc show ?thesis by simp
qed (use assms in simp)

lemma vprintf_short:
  assumes "vformat fmt ap = Some s" "0 < length s" "length s \<le> PBUF_SZ"
  shows "vprintf (Some fmt) ap = Some ([s], int (length s))"
proof -
  have "int (length s) \<le> INT_MAX" using assms(3) by (simp add: PBUF_SZ_def INT_MAX_def)
  with assms(1) obtain ws where
    v: "vprintf (Some fmt) ap = Some (ws, int (length s))" "s = concat ws" "writes_ok ws" by (rule vprintf_text)
  with writes_ok_short [of ws] assms show ?thesis by simp
qed

lemmas format_eval = vformat.simps parse_spec_def parse_width_def parse_prec_def parse_length_def
  pspec_init_def cur_def conv_text_def is_num_conv_def conv_num_def va_unsigned_def va_signed_def
  is_digit_def digit_val_def INT_MAX_def LLONG_MIN_def num_text_def sign_text_def

lemma vformat_08x:
  "vformat ''%08x'' [VWord w] =
     Some (replicate (8 - length (num_string 16 False (unat w))) CHR ''0'' @ num_string 16 False (unat w))"
proof -
  have "unat (ucast w :: u64) = unat w"
    using u32_bound [of w] by (simp add: unsigned_ucast_eq take_bit_nat_eq_self)
  moreover have "nat (8 - int n) = 8 - n" for n by simp
  ultimately show ?thesis by (simp add: format_eval utoa_buf_eq)
qed

lemma scast_u64:
  fixes w :: u32
  shows "sint (scast w :: u64) = sint w"
    and "0 \<le> sint w \<Longrightarrow> unat (scast w :: u64) = nat (sint w)"
    and "sint w < 0 \<Longrightarrow> unat (- scast w :: u64) = nat (- sint w)"
proof -
  have b: "- (2 ^ 31) \<le> sint w" "sint w < 2 ^ 31"
    using sint_ge [of w] sint_lt [of w] by simp_all
  have e: "(scast w :: u64) = word_of_int (sint w)" by (rule scast_eq)
  show "sint (scast w :: u64) = sint w"
    using b by (simp add: signed_scast_eq signed_take_bit_int_eq_self_iff)
  have pos: "uint (word_of_int x :: u64) = x" if "0 \<le> x" "x \<le> 2 ^ 31" for x
    using that by (simp add: uint_word_of_int)
  have u: "unat x = nat y" if "uint x = y" for x :: u64 and y
    using nat_uint_eq [of x] that by (simp only:)
  show "unat (scast w :: u64) = nat (sint w)" if "0 \<le> sint w"
    unfolding e by (intro u pos) (use b that in simp_all)
  have n: "(- scast w :: u64) = word_of_int (- sint w)" unfolding e by (simp only: of_int_minus)
  show "unat (- scast w :: u64) = nat (- sint w)" if "sint w < 0"
    unfolding n by (intro u pos) (use b that in simp_all)
qed

lemma vformat_d:
  "vformat ''%d'' [VWord w] = Some (if sint w < 0 then CHR ''-'' # num_string 10 False (nat (- sint w))
     else num_string 10 False (nat (sint w)))"
proof -
  have "sint w \<noteq> - 9223372036854775808" using sint_ge [of w] by simp
  then show ?thesis by (simp add: format_eval utoa_buf_eq scast_u64)
qed

text \<open>Number conversion. For the bases \<open>vprintf\<close> uses, \<open>utoa_buf\<close> returns for every 64-bit
  value, through the 32-bit or the long-division path, a text that reads back as the value, has no
  leading zero, and is at most 22 characters long, so it fits the 24-byte \<open>tmp\<close> and \<open>numbuf\<close>.\<close>

theorem utoa_roundtrip:
  assumes "b \<in> {8, 10, 16}"
  shows "\<exists>s. utoa_buf v b up = Some s \<and> text_val (unat b) s = unat v \<and> 0 < length s \<and> length s \<le> 22
    \<and> (v = 0 \<or> hd s \<noteq> CHR ''0'')"
proof -
  have b: "2 \<le> unat b" "unat b \<le> 16" "8 \<le> unat b" using assms by auto
  have "unat v < 8 ^ 22" using u64_bound [of v] by simp
  also have "(8 :: nat) ^ 22 \<le> unat b ^ 22" using b(3) by (intro power_mono) simp_all
  finally have lt: "unat v < unat b ^ 22" .
  show ?thesis
    using utoa_buf_eq [OF b(1,2)] num_string_val [OF b(1,2)] num_string_length [OF b(1) lt]
      num_string_no_leading_zero [OF b(1,2), of "unat v"]
    by (auto simp: unat_gt_0)
qed

theorem utoa_roundtrip_witness:
  "\<exists>s. utoa_buf 0xFFFFFFFFFFFFFFFF 8 False = Some s \<and> text_val (unat (8 :: u32)) s = unat (0xFFFFFFFFFFFFFFFF :: u64)
    \<and> 0 < length s \<and> length s \<le> 22 \<and> ((0xFFFFFFFFFFFFFFFF :: u64) = 0 \<or> hd s \<noteq> CHR ''0'')"
  by (rule utoa_roundtrip) simp

text \<open>The bitwise long division that replaces the missing library routine gives the quotient and
  remainder of every 64-bit number, for every non-zero divisor up to \<open>2 ^ 31\<close>; beyond that the
  partial remainder no longer fits its 32 bits.\<close>

theorem div_u64_u32_divides:
  assumes "0 < d" "d \<le> 0x80000000" "div_u64_u32 n d = (q, r)"
  shows "unat n = unat q * unat d + unat r \<and> r < d"
  using div_u64_u32_correct [OF assms(1,2), of n] assms
  by (simp add: word_less_nat_alt)

theorem div_u64_u32_divides_witness:
  "unat (0x123456789ABCDEF0 :: u64) =
     unat (fst (div_u64_u32 0x123456789ABCDEF0 10)) * unat (10 :: u32) + unat (snd (div_u64_u32 0x123456789ABCDEF0 10))
   \<and> snd (div_u64_u32 0x123456789ABCDEF0 10) < 10"
  by (rule div_u64_u32_divides) simp_all

text \<open>The formats of the logging code, for every 32-bit argument. \<open>%08x\<close> makes one \<open>_write\<close> of
  exactly eight characters that read back in base 16 as the argument; \<open>%d\<close> makes one \<open>_write\<close> of
  the signed decimal number, the most negative one included.\<close>

theorem printf_word_formats:
  "(\<exists>s. printf (Some ''%08x'') [VWord w] = Some ([s], 8) \<and> length s = 8 \<and> text_val 16 s = unat w) \<and>
   (\<exists>s. printf (Some ''%d'') [VWord w] = Some ([s], int (length s)) \<and>
      (if sint w < 0 then hd s = CHR ''-'' \<and> int (text_val 10 (tl s)) = - sint w
       else int (text_val 10 s) = sint w))"
proof
  let ?h = "num_string 16 False (unat w)"
  have len: "length ?h \<le> 8" using num_string_length [of 16 "unat w" 8] u32_bound [of w] by simp
  have z: "foldl (\<lambda>acc ch. acc * 16 + hex_val ch) 0 (replicate k CHR ''0'') = 0" for k
    by (induction k) (simp_all add: hex_val_def)
  have "text_val 16 (replicate (8 - length ?h) CHR ''0'' @ ?h) = text_val 16 ?h"
    by (simp add: text_val_def z)
  then have val: "text_val 16 (replicate (8 - length ?h) CHR ''0'' @ ?h) = unat w"
    by (simp add: num_string_val)
  show "\<exists>s. printf (Some ''%08x'') [VWord w] = Some ([s], 8) \<and> length s = 8 \<and> text_val 16 s = unat w"
    using vprintf_short [OF vformat_08x, of w] len val
    by (intro exI [of _ "replicate (8 - length ?h) CHR ''0'' @ ?h"]) (simp add: printf_def PBUF_SZ_def)
next
  have b: "nat (- sint w) < 10 ^ 11" "nat (sint w) < 10 ^ 11"
    using sint_ge [of w] sint_lt [of w] by simp_all
  note l = num_string_length [of 10 _ 11 False]
  have "\<exists>s. vformat ''%d'' [VWord w] = Some s \<and> 0 < length s \<and> length s \<le> PBUF_SZ \<and>
      (if sint w < 0 then hd s = CHR ''-'' \<and> int (text_val 10 (tl s)) = - sint w
       else int (text_val 10 s) = sint w)"
    unfolding vformat_d using l [OF _ b(1)] l [OF _ b(2)] by (simp add: num_string_val PBUF_SZ_def)
  then show "\<exists>s. printf (Some ''%d'') [VWord w] = Some ([s], int (length s)) \<and>
      (if sint w < 0 then hd s = CHR ''-'' \<and> int (text_val 10 (tl s)) = - sint w
       else int (text_val 10 s) = sint w)"
    using vprintf_short by (metis printf_def)
qed
end
