(* ===== verification/Timer.thy ===== *)
theory Timer
  imports Platform_Prelude
begin

text \<open>
  Platform/Common/Src/timer.c and Inc/timer.h: the soft timer queue on the CLINT. A handler is its
  code address, 0 the empty slot; calling one is the parameter \<open>call\<close>, which may change the whole
  state. \<open>TIME\<close> is read once per operation and is an argument. Writing past the queue and \<open>int\<close>
  overflow are undefined behaviour: the result is \<open>None\<close>. Interrupts are taken between
  operations; one between the update of the compare register and the critical section of
  \<open>register_timer\<close> is not covered.
\<close>

section \<open>State\<close>

definition TIMER_QUEUE_MAX :: nat where "TIMER_QUEUE_MAX = 10"
definition CLOCK_TIME :: int where "CLOCK_TIME = 335"

record timer =
  handler :: u32
  repeat_ns :: u32
  exe_time :: u64

text \<open>\<open>world\<close> is whatever else the callbacks work on.\<close>

record 'w timer_st =
  timer_count :: u32
  timer_queue :: "timer list"
  timecmp :: u64
  time_isr :: u32
  csr_mstatus :: u32
  csr_mie :: u32
  world :: 'w

type_synonym 'w callback = "u32 \<Rightarrow> 'w timer_st \<Rightarrow> 'w timer_st"

definition empty_timer :: timer where
  "empty_timer = \<lparr>handler = 0, repeat_ns = 0, exe_time = 0\<rparr>"

definition put_timer :: "nat \<Rightarrow> timer \<Rightarrow> 'w timer_st \<Rightarrow> 'w timer_st" where
  "put_timer i t s = s\<lparr>timer_queue := (timer_queue s)[i := t]\<rparr>"

text \<open>\<open>GLOBAL_INTERRUPT_DISABLE()\<close> clears \<open>mstatus.MIE\<close>.\<close>

definition interrupt_disable :: "'w timer_st \<Rightarrow> 'w timer_st" where
  "interrupt_disable s = s\<lparr>csr_mstatus := csr_mstatus s AND NOT 8\<rparr>"

section \<open>Operations\<close>

definition init_timeint_handler :: "u32 \<Rightarrow> 'w timer_st \<Rightarrow> 'w timer_st" where
  "init_timeint_handler execute_ptr s =
     s\<lparr>timecmp := - 1, time_isr := execute_ptr, csr_mie := csr_mie s OR 0x80\<rparr>"

fun free_slot :: "timer list \<Rightarrow> nat \<Rightarrow> nat" where
  "free_slot [] i = i"
| "free_slot (t # q) i = (if handler t = 0 then i else free_slot q (i + 1))"

definition register_timer :: "u32 \<Rightarrow> u32 \<Rightarrow> u32 \<Rightarrow> u64 \<Rightarrow> 'w timer_st \<Rightarrow> (u32 \<times> 'w timer_st) option" where
  "register_timer h delay_ns rep now s =
     (if of_nat TIMER_QUEUE_MAX \<le> timer_count s then Some (timer_count s, s)
      else let t = now + scast delay_ns * of_int CLOCK_TIME div 1024;
               s = (if t < timecmp s then s\<lparr>timecmp := t\<rparr> else s);
               orig = csr_mstatus s;
               s = interrupt_disable s;
               idx = free_slot (timer_queue s) 0
           in if TIMER_QUEUE_MAX \<le> idx then None
              else let s = put_timer idx \<lparr>handler = h, repeat_ns = rep, exe_time = t\<rparr> s;
                       s = s\<lparr>timer_count := timer_count s + 1\<rparr>;
                       s = s\<lparr>csr_mstatus := orig\<rparr>
                   in Some (of_nat idx, s))"

text \<open>\<open>repeat_ns * CLOCK_TIME / 1024\<close> is computed in \<open>int\<close>.\<close>

definition repeat_ticks :: "u32 \<Rightarrow> u64 option" where
  "repeat_ticks rep =
     (if sint rep * CLOCK_TIME < 2 ^ 31 then Some (of_int (sint rep * CLOCK_TIME div 1024)) else None)"

text \<open>The body of \<open>execute_timer\<close>'s loop, over the slots still to visit.\<close>

fun execute_loop :: "'w callback \<Rightarrow> u64 \<Rightarrow> nat list \<Rightarrow> u64 \<Rightarrow> 'w timer_st \<Rightarrow> (u64 \<times> 'w timer_st) option" where
  "execute_loop call now [] mn s = Some (mn, s)"
| "execute_loop call now (i # is) mn s =
     (let t = timer_queue s ! i in
      if handler t = 0 then execute_loop call now is mn s
      else if exe_time t < now
      then let s = call (handler t) s; t = timer_queue s ! i in
           if 0 < sint (repeat_ns t)
           then (case repeat_ticks (repeat_ns t) of None \<Rightarrow> None
                 | Some p \<Rightarrow>
                     let s = put_timer i (t\<lparr>exe_time := now + p\<rparr>) s;
                         mn = (if exe_time (timer_queue s ! i) > mn then exe_time (timer_queue s ! i) else mn)
                     in execute_loop call now is mn s)
           else let orig = csr_mstatus s;
                    s = interrupt_disable s;
                    s = put_timer i (t\<lparr>handler := 0\<rparr>) s;
                    s = s\<lparr>timer_count := timer_count s - 1\<rparr>;
                    s = s\<lparr>csr_mstatus := orig\<rparr>
                in execute_loop call now is mn s
      else execute_loop call now is (if exe_time t < mn then exe_time t else mn) s)"

definition execute_timer :: "'w callback \<Rightarrow> u64 \<Rightarrow> 'w timer_st \<Rightarrow> (u32 \<times> 'w timer_st) option" where
  "execute_timer call now s =
     map_option (\<lambda>(mn, s). (0, s\<lparr>timecmp := mn\<rparr>)) (execute_loop call now [0..<TIMER_QUEUE_MAX] (- 1) s)"

fun earliest :: "timer list \<Rightarrow> u64 \<Rightarrow> u64" where
  "earliest [] mn = mn"
| "earliest (t # q) mn =
     (if handler t = 0 then earliest q mn
      else if exe_time t < mn then earliest q (exe_time t) else earliest q mn)"

text \<open>\<open>idx == -1\<close> clears the queue; the queue lies in the local memories, so \<open>__wrap_memset\<close> accepts
  it.\<close>

definition clear_timer :: "u32 \<Rightarrow> 'w timer_st \<Rightarrow> (u32 \<times> 'w timer_st) option" where
  "clear_timer idx s =
     (if idx = - 1
      then Some (0, s\<lparr>timer_queue := replicate TIMER_QUEUE_MAX empty_timer, timer_count := 0, timecmp := - 1\<rparr>)
      else if of_nat TIMER_QUEUE_MAX \<le> idx then None
      else let i = unat idx; t = timer_queue s ! i in
           if handler t = 0 then Some (0, s)
           else let s = put_timer i (t\<lparr>handler := 0\<rparr>) s;
                    s = s\<lparr>timecmp := earliest (timer_queue s) (- 1)\<rparr>;
                    s = s\<lparr>timer_count := timer_count s - 1\<rparr>
                in Some (0, s))"

section \<open>Invariants\<close>

definition live :: "timer \<Rightarrow> bool" where
  "live t \<longleftrightarrow> handler t \<noteq> 0"

text \<open>The count is the number of occupied slots.\<close>

definition timer_ok :: "'w timer_st \<Rightarrow> bool" where
  "timer_ok s \<longleftrightarrow> length (timer_queue s) = TIMER_QUEUE_MAX
     \<and> unat (timer_count s) = length (filter live (timer_queue s))"

text \<open>No pending timer expires before the comparator fires.\<close>

definition timer_armed :: "'w timer_st \<Rightarrow> bool" where
  "timer_armed s \<longleftrightarrow> (\<forall>t \<in> set (timer_queue s). live t \<longrightarrow> timecmp s \<le> exe_time t)"

definition one_shot :: "'w timer_st \<Rightarrow> bool" where
  "one_shot s \<longleftrightarrow> (\<forall>t \<in> set (timer_queue s). sint (repeat_ns t) \<le> 0)"

definition periods_ok :: "'w timer_st \<Rightarrow> bool" where
  "periods_ok s \<longleftrightarrow> (\<forall>t \<in> set (timer_queue s). sint (repeat_ns t) * CLOCK_TIME < 2 ^ 31)"

lemma free_slot_spec:
  "i \<le> free_slot q i \<and> free_slot q i \<le> i + length q
   \<and> (free_slot q i < i + length q \<longrightarrow> \<not> live (q ! (free_slot q i - i)))
   \<and> (free_slot q i = i + length q \<longrightarrow> filter live q = q)"
proof (induction q i rule: free_slot.induct)
  case (2 t q i)
  show ?case
  proof (cases "handler t = 0")
    case False
    with 2 [OF False] show ?thesis
      by (auto simp: live_def nth_Cons' )
  qed (simp add: live_def)
qed simp

lemma filter_update_live:
  assumes "i < length q" "\<not> live (q ! i)" "live t"
  shows "length (filter live (q[i := t])) = Suc (length (filter live q))"
  using assms by (induction q arbitrary: i) (auto split: nat.splits)

lemma filter_update_dead:
  assumes "i < length q" "live (q ! i)" "\<not> live t"
  shows "Suc (length (filter live (q[i := t]))) = length (filter live q)"
  using assms by (induction q arbitrary: i) (auto split: nat.splits)

lemma filter_update_same:
  "i < length q \<Longrightarrow> live (q ! i) = live t \<Longrightarrow> length (filter live (q[i := t])) = length (filter live q)"
  by (induction q arbitrary: i) (auto split: nat.splits)

lemma earliest_le:
  "earliest q mn \<le> mn \<and> (\<forall>t \<in> set q. live t \<longrightarrow> earliest q mn \<le> exe_time t)"
  by (induction q mn rule: earliest.induct) (auto simp: live_def not_less)

lemma earliest_in:
  "earliest q mn = mn \<or> (\<exists>t \<in> set q. live t \<and> earliest q mn = exe_time t)"
  by (induction q mn rule: earliest.induct) (auto simp: live_def)

section \<open>Callbacks that leave the driver alone\<close>

text \<open>What the driver relies on from its clients: a callback changes only the world behind it.\<close>

locale timer_callbacks =
  fixes call :: "'w callback" and act :: "u32 \<Rightarrow> 'w \<Rightarrow> 'w"
  assumes frame: "call h s = s\<lparr>world := act h (world s)\<rparr>"

definition expired :: "u64 \<Rightarrow> timer \<Rightarrow> bool" where
  "expired now t \<longleftrightarrow> live t \<and> exe_time t < now"

definition repeating :: "timer \<Rightarrow> bool" where
  "repeating t \<longleftrightarrow> 0 < sint (repeat_ns t)"

text \<open>A slot after its visit.\<close>

definition visited :: "u64 \<Rightarrow> timer \<Rightarrow> timer" where
  "visited now t =
     (if \<not> expired now t then t
      else if repeating t then t\<lparr>exe_time := now + the (repeat_ticks (repeat_ns t))\<rparr>
      else t\<lparr>handler := 0\<rparr>)"

text \<open>The minimum as the loop computes it.\<close>

definition min_step :: "u64 \<Rightarrow> u64 \<Rightarrow> timer \<Rightarrow> u64" where
  "min_step now mn t =
     (if \<not> live t then mn
      else if expired now t then (if repeating t then max mn (exe_time (visited now t)) else mn)
      else min mn (exe_time t))"

definition done_count :: "u64 \<Rightarrow> timer list \<Rightarrow> nat" where
  "done_count now q = length (filter (\<lambda>t. expired now t \<and> \<not> repeating t) q)"

definition after_loop :: "(u32 \<Rightarrow> 'w \<Rightarrow> 'w) \<Rightarrow> u64 \<Rightarrow> nat \<Rightarrow> 'w timer_st \<Rightarrow> 'w timer_st" where
  "after_loop act now k s =
     s\<lparr>world := fold act (map handler (filter (expired now) (drop k (timer_queue s)))) (world s),
       timer_queue := take k (timer_queue s) @ map (visited now) (drop k (timer_queue s)),
       timer_count := timer_count s - of_nat (done_count now (drop k (timer_queue s)))\<rparr>"

context timer_callbacks begin

lemma visit:
  assumes "k < length (timer_queue s)" "periods_ok s"
  defines "t \<equiv> timer_queue s ! k"
  shows "execute_loop call now (k # is) mn s =
    execute_loop call now is (min_step now mn t)
      (s\<lparr>world := if expired now t then act (handler t) (world s) else world s,
         timer_queue := (timer_queue s)[k := visited now t],
         timer_count := timer_count s - (if expired now t \<and> \<not> repeating t then 1 else 0)\<rparr>)"
proof -
  have same: "(timer_queue s)[k := t] = timer_queue s" by (simp add: t_def)
  have id: "s\<lparr>timer_queue := timer_queue s, timer_count := timer_count s, world := world s\<rparr> = s" by simp
  consider (dead) "\<not> live t" | (wait) "live t" "\<not> expired now t"
    | (once) "expired now t" "\<not> repeating t" | (again) "expired now t" "repeating t" by blast
  then show ?thesis
  proof cases
    case dead
    then show ?thesis using same
      by (simp add: min_step_def visited_def expired_def live_def flip: t_def)
  next
    case wait
    then show ?thesis using same
      by (simp add: min_step_def visited_def expired_def live_def min_def not_less flip: t_def)
        (auto simp: not_le)
  next
    case once
    then show ?thesis
      by (simp add: min_step_def visited_def expired_def live_def repeating_def frame put_timer_def
          interrupt_disable_def Let_def flip: t_def)
  next
    case again
    have "t \<in> set (timer_queue s)" using assms(1) by (simp add: t_def)
    with assms(2) have "repeat_ticks (repeat_ns t) = Some (of_int (sint (repeat_ns t) * CLOCK_TIME div 1024))"
      by (simp add: periods_ok_def repeat_ticks_def)
    with again assms(1) show ?thesis
      by (simp add: min_step_def visited_def expired_def live_def repeating_def frame put_timer_def
          Let_def max_def not_le flip: t_def) (auto simp: not_le)
  qed
qed

lemma execute_loop_exact:
  assumes "length (timer_queue s) = n" "periods_ok s" "k \<le> n"
  shows "execute_loop call now [k..<n] mn s =
    Some (foldl (min_step now) mn (drop k (timer_queue s)), after_loop act now k s)"
  using assms
proof (induction "n - k" arbitrary: k mn s)
  case 0
  then show ?case by (simp add: after_loop_def done_count_def)
next
  case (Suc d)
  then have k: "k < length (timer_queue s)" and d: "d = n - Suc k" by simp_all
  let ?t = "timer_queue s ! k"
  let ?s = "s\<lparr>world := if expired now ?t then act (handler ?t) (world s) else world s,
         timer_queue := (timer_queue s)[k := visited now ?t],
         timer_count := timer_count s - (if expired now ?t \<and> \<not> repeating ?t then 1 else 0)\<rparr>"
  have p: "periods_ok ?s"
    using Suc.prems(2) k by (auto simp: periods_ok_def visited_def dest!: set_update_subset_insert [THEN subsetD])
  have dk: "drop k (timer_queue s) = ?t # drop (Suc k) (timer_queue s)" using k by (rule Cons_nth_drop_Suc [symmetric])
  have tk: "take (Suc k) ((timer_queue s)[k := x]) = take k (timer_queue s) @ [x]" for x
    using k by (simp add: take_Suc_conv_app_nth)
  have "execute_loop call now [k..<n] mn s = execute_loop call now [Suc k..<n] (min_step now mn ?t) ?s"
    using k Suc.prems visit [OF k Suc.prems(2)] by (simp add: upt_conv_Cons)
  also have "\<dots> = Some (foldl (min_step now) (min_step now mn ?t) (drop (Suc k) (timer_queue ?s)),
      after_loop act now (Suc k) ?s)"
    using k Suc.prems by (intro Suc.hyps(1) [OF d _ p]) simp_all
  also have "after_loop act now (Suc k) ?s = after_loop act now k s"
    by (simp add: after_loop_def dk tk done_count_def)
  finally show ?case by (simp add: dk)
qed

lemma execute_timer_exact:
  assumes "timer_ok s" "periods_ok s"
  shows "execute_timer call now s =
    Some (0, (after_loop act now 0 s)\<lparr>timecmp := foldl (min_step now) (- 1) (timer_queue s)\<rparr>)"
  using execute_loop_exact [of s TIMER_QUEUE_MAX 0] assms
  by (simp add: execute_timer_def timer_ok_def)

end

section \<open>The invariants are kept\<close>

lemma done_count_Cons:
  "done_count now (t # q) = (if expired now t \<and> \<not> repeating t then 1 else 0) + done_count now q"
  by (simp add: done_count_def)

lemma live_visited: "live (visited now t) \<longleftrightarrow> live t \<and> \<not> (expired now t \<and> \<not> repeating t)"
  by (auto simp: visited_def live_def expired_def)

lemma filter_live_visited:
  "length (filter live (map (visited now) q)) + done_count now q = length (filter live q)"
  by (induction q) (auto simp: live_visited done_count_def expired_def)

lemma repeat_visited [simp]: "repeat_ns (visited now t) = repeat_ns t"
  by (simp add: visited_def)

lemma min_step_oneshot:
  "\<not> repeating t \<Longrightarrow> min_step now mn t = (if live (visited now t) then min mn (exe_time t) else mn)"
  by (auto simp: min_step_def live_visited expired_def)

lemma foldl_min_step_oneshot:
  "\<forall>t \<in> set q. \<not> repeating t \<Longrightarrow>
   foldl (min_step now) mn q = earliest (map (visited now) q) mn"
proof (induction q arbitrary: mn)
  case (Cons t q)
  have "earliest (visited now t # r) mn = earliest r (min_step now mn t)" for r
    using Cons.prems by (auto simp: min_step_oneshot live_def min_def not_less visited_def not_le)
  with Cons show ?case by simp
qed simp

lemma one_shot_iff: "one_shot s \<longleftrightarrow> (\<forall>t \<in> set (timer_queue s). \<not> repeating t)"
  by (auto simp: one_shot_def repeating_def not_less)

lemma one_shot_periods: "one_shot s \<Longrightarrow> periods_ok s"
  by (auto simp: one_shot_def periods_ok_def CLOCK_TIME_def dest!: bspec)

lemma timer_armed_earliest:
  "timecmp s = earliest (timer_queue s) mn \<Longrightarrow> timer_armed s"
  using earliest_le by (auto simp: timer_armed_def)

lemma timer_ok_space:
  assumes "timer_ok s" "timer_count s < of_nat TIMER_QUEUE_MAX"
  shows "free_slot (timer_queue s) 0 < TIMER_QUEUE_MAX"
proof (rule ccontr)
  assume "\<not> ?thesis"
  with free_slot_spec [of 0 "timer_queue s"] assms(1)
  have "filter live (timer_queue s) = timer_queue s" by (auto simp: timer_ok_def)
  with assms show False by (simp add: timer_ok_def TIMER_QUEUE_MAX_def word_less_nat_alt)
qed

lemma register_timer_ok:
  assumes ok: "timer_ok s" and h: "h \<noteq> 0"
  obtains r s' where "register_timer h d rep now s = Some (r, s')" "timer_ok s'"
    "timer_armed s \<longrightarrow> timer_armed s'"
    "\<forall>t \<in> set (timer_queue s'). t \<in> set (timer_queue s) \<or> repeat_ns t = rep"
proof (cases "of_nat TIMER_QUEUE_MAX \<le> timer_count s")
  case True
  then show ?thesis using that [of "timer_count s" s] ok by (simp add: register_timer_def)
next
  case False
  define t where "t = now + scast d * of_int CLOCK_TIME div 1024"
  let ?i = "free_slot (timer_queue s) 0" and ?new = "\<lparr>handler = h, repeat_ns = rep, exe_time = t\<rparr>"
  have i: "?i < TIMER_QUEUE_MAX" using timer_ok_space [OF ok] False by simp
  have len: "length (timer_queue s) = TIMER_QUEUE_MAX" using ok by (simp add: timer_ok_def)
  have dead: "\<not> live (timer_queue s ! ?i)" using free_slot_spec [of 0 "timer_queue s"] i len by simp
  let ?s = "s\<lparr>timecmp := min t (timecmp s), timer_queue := (timer_queue s)[?i := ?new],
              timer_count := timer_count s + 1\<rparr>"
  have run: "register_timer h d rep now s = Some (of_nat ?i, ?s)"
    using False i by (auto simp: register_timer_def Let_def t_def put_timer_def interrupt_disable_def min_def)
  have "unat (timer_count s + 1) = Suc (unat (timer_count s))"
    using False by (simp add: unat_word_ariths word_le_nat_alt TIMER_QUEUE_MAX_def)
  moreover have "length (filter live ((timer_queue s)[?i := ?new])) = Suc (length (filter live (timer_queue s)))"
    using filter_update_live [of ?i "timer_queue s" ?new] i len dead h by (simp add: live_def)
  ultimately have "timer_ok ?s" using ok by (simp add: timer_ok_def)
  moreover have "timer_armed s \<longrightarrow> timer_armed ?s"
    by (auto simp: timer_armed_def min_le_iff_disj dest!: set_update_subset_insert [THEN subsetD])
  moreover have "\<forall>u \<in> set (timer_queue ?s). u \<in> set (timer_queue s) \<or> repeat_ns u = rep"
    by (auto dest!: set_update_subset_insert [THEN subsetD])
  ultimately show ?thesis using that [OF run] by blast
qed

lemma clear_timer_ok:
  assumes ok: "timer_ok s" and idx: "idx = - 1 \<or> idx < of_nat TIMER_QUEUE_MAX"
  obtains s' where "clear_timer idx s = Some (0, s')" "timer_ok s'" "timer_armed s \<longrightarrow> timer_armed s'"
    "\<forall>t \<in> set (timer_queue s'). repeat_ns t \<in> insert 0 (repeat_ns ` set (timer_queue s))"
proof (cases "idx = - 1")
  case True
  let ?s = "s\<lparr>timer_queue := replicate TIMER_QUEUE_MAX empty_timer, timer_count := 0, timecmp := - 1\<rparr>"
  have "clear_timer idx s = Some (0, ?s)" using True by (simp add: clear_timer_def)
  moreover have "timer_ok ?s" by (simp add: timer_ok_def live_def empty_timer_def)
  moreover have "timer_armed ?s" by (simp add: timer_armed_def live_def empty_timer_def)
  moreover have "\<forall>t \<in> set (timer_queue ?s). repeat_ns t \<in> insert 0 (repeat_ns ` set (timer_queue s))"
    by (simp add: empty_timer_def)
  ultimately show ?thesis using that by blast
next
  case False
  with idx have i: "unat idx < TIMER_QUEUE_MAX" "idx < of_nat TIMER_QUEUE_MAX"
    by (auto simp: word_less_nat_alt TIMER_QUEUE_MAX_def)
  have len: "length (timer_queue s) = TIMER_QUEUE_MAX" using ok by (simp add: timer_ok_def)
  let ?t = "timer_queue s ! unat idx"
  show ?thesis
  proof (cases "live ?t")
    case dead: False
    then have "clear_timer idx s = Some (0, s)"
      using False i by (simp add: clear_timer_def Let_def live_def not_le)
    then show ?thesis using that ok by blast
  next
    case True
    let ?q = "(timer_queue s)[unat idx := ?t\<lparr>handler := 0\<rparr>]"
    let ?s = "s\<lparr>timer_queue := ?q, timecmp := earliest ?q (- 1), timer_count := timer_count s - 1\<rparr>"
    have run: "clear_timer idx s = Some (0, ?s)"
      using False True i by (simp add: clear_timer_def Let_def live_def put_timer_def not_le)
    have f: "Suc (length (filter live ?q)) = length (filter live (timer_queue s))"
      using i len True by (intro filter_update_dead) (auto simp: live_def)
    then have "timer_count s \<noteq> 0" using ok by (auto simp: timer_ok_def)
    then have "Suc (unat (timer_count s - 1)) = unat (timer_count s)"
      by (simp add: unat_minus_one unat_gt_0)
    with f ok have "timer_ok ?s" by (simp add: timer_ok_def)
    moreover have "timer_armed ?s" by (rule timer_armed_earliest) simp
    moreover have "\<forall>t \<in> set (timer_queue ?s). repeat_ns t \<in> insert 0 (repeat_ns ` set (timer_queue s))"
      using i len by (auto dest!: set_update_subset_insert [THEN subsetD])
    ultimately show ?thesis using that [OF run] by blast
  qed
qed

context timer_callbacks begin

lemma execute_timer_ok:
  assumes "timer_ok s" "periods_ok s"
  obtains s' where "execute_timer call now s = Some (0, s')" "timer_ok s'"
    "one_shot s \<longrightarrow> timer_armed s'"
    "timer_queue s' = map (visited now) (timer_queue s)"
proof -
  let ?s = "(after_loop act now 0 s)\<lparr>timecmp := foldl (min_step now) (- 1) (timer_queue s)\<rparr>"
  have sum: "length (filter live (map (visited now) (timer_queue s))) + done_count now (timer_queue s) =
      unat (timer_count s)"
    using assms(1) filter_live_visited by (simp add: timer_ok_def)
  then have "of_nat (done_count now (timer_queue s)) \<le> timer_count s"
    "unat (of_nat (done_count now (timer_queue s)) :: u32) = done_count now (timer_queue s)"
    using u32_bound [of "timer_count s"]
    by (simp_all add: word_le_nat_alt unat_of_nat take_bit_nat_eq_self)
  then have "timer_ok ?s" using assms(1) sum
    by (simp add: timer_ok_def after_loop_def unat_sub)
  moreover have "one_shot s \<longrightarrow> timer_armed ?s"
    by (rule impI, rule timer_armed_earliest [where mn = "- 1"])
      (simp add: after_loop_def one_shot_iff foldl_min_step_oneshot)
  moreover have "timer_queue ?s = map (visited now) (timer_queue s)" by (simp add: after_loop_def)
  ultimately show ?thesis using that execute_timer_exact [OF assms] by blast
qed

end
section \<open>Runs of the driver\<close>

text \<open>What a client and the timer interrupt can make of the driver, from the zeroed queue: \<open>os\<close>
  restricts registration to one-shot timers. A period must stay within \<open>int\<close>, an index within the
  queue, and a handler must not be null.\<close>

inductive timer_reach :: "'w callback \<Rightarrow> bool \<Rightarrow> 'w timer_st \<Rightarrow> bool" for call and os where
  boot: "timer_queue s = replicate TIMER_QUEUE_MAX empty_timer \<Longrightarrow> timer_count s = 0 \<Longrightarrow>
    timer_reach call os (init_timeint_handler isr s)"
| register: "timer_reach call os s \<Longrightarrow> h \<noteq> 0 \<Longrightarrow> sint rep * CLOCK_TIME < 2 ^ 31 \<Longrightarrow>
    (os \<longrightarrow> sint rep \<le> 0) \<Longrightarrow> register_timer h d rep now s = Some (r, s') \<Longrightarrow> timer_reach call os s'"
| execute: "timer_reach call os s \<Longrightarrow> execute_timer call now s = Some (r, s') \<Longrightarrow> timer_reach call os s'"
| clear: "timer_reach call os s \<Longrightarrow> idx = - 1 \<or> idx < of_nat TIMER_QUEUE_MAX \<Longrightarrow>
    clear_timer idx s = Some (r, s') \<Longrightarrow> timer_reach call os s'"

definition timer_inv :: "bool \<Rightarrow> 'w timer_st \<Rightarrow> bool" where
  "timer_inv os s \<longleftrightarrow> timer_ok s \<and> periods_ok s \<and> (os \<longrightarrow> one_shot s \<and> timer_armed s)"

lemma timer_inv_repeats:
  assumes "periods_ok s" "os \<longrightarrow> one_shot s" "sint rep * CLOCK_TIME < 2 ^ 31" "os \<longrightarrow> sint rep \<le> 0"
    and "\<forall>t \<in> set (timer_queue s'). repeat_ns t \<in> insert rep (repeat_ns ` set (timer_queue s))"
  shows "periods_ok s' \<and> (os \<longrightarrow> one_shot s')"
proof -
  have "sint (repeat_ns t) * CLOCK_TIME < 2 ^ 31 \<and> (os \<longrightarrow> sint (repeat_ns t) \<le> 0)"
    if "t \<in> set (timer_queue s')" for t
    using assms bspec [OF assms(5) that] by (auto simp: periods_ok_def one_shot_def)
  then show ?thesis by (auto simp: periods_ok_def one_shot_def)
qed

context timer_callbacks begin

lemma reach_inv: "timer_reach call os s \<Longrightarrow> timer_inv os s"
proof (induction rule: timer_reach.induct)
  case (boot s isr)
  then show ?case
    by (simp add: timer_inv_def timer_ok_def periods_ok_def one_shot_def timer_armed_def
        init_timeint_handler_def live_def empty_timer_def CLOCK_TIME_def)
next
  case (register s h rep d now r s')
  then have ok: "timer_ok s" by (simp add: timer_inv_def)
  from ok register(2) obtain r2 s2 where r: "register_timer h d rep now s = Some (r2, s2)" "timer_ok s2"
    "timer_armed s \<longrightarrow> timer_armed s2"
    "\<forall>t \<in> set (timer_queue s2). t \<in> set (timer_queue s) \<or> repeat_ns t = rep"
    using register_timer_ok [OF ok register(2)] by blast
  have "\<forall>t \<in> set (timer_queue s2). repeat_ns t \<in> insert rep (repeat_ns ` set (timer_queue s))"
    using r(4) by blast
  with timer_inv_repeats [of s os rep s2] register r show ?case by (simp add: timer_inv_def)
next
  case (execute s now r s')
  then have ok: "timer_ok s" "periods_ok s" by (simp_all add: timer_inv_def)
  from ok obtain s2 where r: "execute_timer call now s = Some (0, s2)" "timer_ok s2"
    "one_shot s \<longrightarrow> timer_armed s2" "timer_queue s2 = map (visited now) (timer_queue s)"
    by (rule execute_timer_ok [where now = now])
  have "periods_ok s2" "one_shot s \<Longrightarrow> one_shot s2"
    using ok(2) r(4) by (auto simp: periods_ok_def one_shot_def)
  with execute r show ?case by (simp add: timer_inv_def)
next
  case (clear s idx r s')
  then have ok: "timer_ok s" by (simp add: timer_inv_def)
  from ok clear(2) obtain s2 where r: "clear_timer idx s = Some (0, s2)" "timer_ok s2"
    "timer_armed s \<longrightarrow> timer_armed s2"
    "\<forall>t \<in> set (timer_queue s2). repeat_ns t \<in> insert 0 (repeat_ns ` set (timer_queue s))"
    by (rule clear_timer_ok)
  with timer_inv_repeats [of s os 0 s2] clear show ?case by (simp add: timer_inv_def CLOCK_TIME_def)
qed

lemma reach_safe:
  assumes "timer_reach call os s"
  shows "timer_ok s \<and> (os \<longrightarrow> timer_armed s) \<and>
    (h \<noteq> 0 \<longrightarrow> register_timer h d rep now s \<noteq> None) \<and> execute_timer call now s \<noteq> None"
proof -
  have inv: "timer_inv os s" using assms by (rule reach_inv)
  then have ok: "timer_ok s" "periods_ok s" by (simp_all add: timer_inv_def)
  have "h \<noteq> 0 \<longrightarrow> register_timer h d rep now s \<noteq> None"
    using register_timer_ok [OF ok(1)] by (metis option.discI)
  moreover have "execute_timer call now s \<noteq> None"
    using execute_timer_ok [OF ok] by (metis option.discI)
  ultimately show ?thesis using inv by (simp add: timer_inv_def)
qed

end

section \<open>A client\<close>

text \<open>The callback of verif/ip/S5740/CLINT/timer_interrupt: \<open>timer_test\<close> counts its calls in
  \<open>TEST\<close>.\<close>

definition timer_test :: "u32 \<Rightarrow> u32 timer_st \<Rightarrow> u32 timer_st" where
  "timer_test h s = s\<lparr>world := world s + 1\<rparr>"

interpretation timer_test_client: timer_callbacks timer_test "\<lambda>_ w. w + 1"
  by unfold_locales (simp add: timer_test_def)

definition timer_boot :: "u32 timer_st" where
  "timer_boot = \<lparr>timer_count = 0, timer_queue = replicate TIMER_QUEUE_MAX empty_timer, timecmp = 0,
     time_isr = 0, csr_mstatus = 0, csr_mie = 0, world = 0\<rparr>"

section \<open>Properties\<close>



text \<open>One interrupt, one-shot timers. \<open>execute_timer\<close> calls exactly the handlers that have
  expired, once each and in slot order, frees exactly their slots, leaves the other slots alone, and
  sets the comparator to the earliest of the remaining expiries, to the largest value when none
  remains.\<close>

theorem execute_timer_one_shot:
  assumes "timer_callbacks call act" "timer_ok s" "one_shot s"
  shows "\<exists>s'. execute_timer call now s = Some (0, s')
    \<and> world s' = fold act (map handler (filter (expired now) (timer_queue s))) (world s)
    \<and> timer_queue s' = map (\<lambda>t. if expired now t then t\<lparr>handler := 0\<rparr> else t) (timer_queue s)
    \<and> timer_armed s'
    \<and> (timecmp s' = - 1 \<or> (\<exists>t \<in> set (timer_queue s'). live t \<and> timecmp s' = exe_time t))"
proof -
  have q: "map (visited now) (timer_queue s) = map (\<lambda>t. if expired now t then t\<lparr>handler := 0\<rparr> else t) (timer_queue s)"
    using assms(3) by (auto simp: visited_def one_shot_iff)
  let ?s = "(after_loop act now 0 s)\<lparr>timecmp := foldl (min_step now) (- 1) (timer_queue s)\<rparr>"
  have cmp: "timecmp ?s = earliest (timer_queue ?s) (- 1)"
    using assms(3) by (simp add: after_loop_def foldl_min_step_oneshot one_shot_iff)
  have "execute_timer call now s = Some (0, ?s)"
    using timer_callbacks.execute_timer_exact [OF assms(1,2) one_shot_periods [OF assms(3)]] .
  moreover have "world ?s = fold act (map handler (filter (expired now) (timer_queue s))) (world s)"
    by (simp add: after_loop_def)
  moreover have "timer_queue ?s = map (visited now) (timer_queue s)" by (simp add: after_loop_def)
  moreover have "timecmp ?s = - 1 \<or> (\<exists>t \<in> set (timer_queue ?s). live t \<and> timecmp ?s = exe_time t)"
    unfolding cmp by (rule earliest_in)
  ultimately show ?thesis using timer_armed_earliest [OF cmp] q by (intro exI [of _ ?s]) simp
qed

definition timer_two :: "u32 timer_st" where
  "timer_two = timer_boot\<lparr>timer_count := 2, timer_queue :=
     [\<lparr>handler = 0x80000200, repeat_ns = 0, exe_time = 3\<rparr>, \<lparr>handler = 0x80000300, repeat_ns = 0, exe_time = 9\<rparr>]
     @ replicate 8 empty_timer\<rparr>"

theorem execute_timer_one_shot_witness:
  "\<exists>s'. execute_timer timer_test 5 timer_two = Some (0, s')
    \<and> world s' = fold (\<lambda>_ w. w + 1) (map handler (filter (expired 5) (timer_queue timer_two))) (world timer_two)
    \<and> timer_queue s' = map (\<lambda>t. if expired 5 t then t\<lparr>handler := 0\<rparr> else t) (timer_queue timer_two)
    \<and> timer_armed s'
    \<and> (timecmp s' = - 1 \<or> (\<exists>t \<in> set (timer_queue s'). live t \<and> timecmp s' = exe_time t))"
  by (rule execute_timer_one_shot [OF timer_test_client.timer_callbacks_axioms])
    (simp_all add: timer_two_def timer_boot_def timer_ok_def one_shot_def live_def empty_timer_def
      TIMER_QUEUE_MAX_def)

text \<open>C7: A repeating timer is not rearmed. When every pending timer has expired and repeats,
  \<open>execute_timer\<close> calls them and keeps them all pending with new expiry times, yet leaves the
  comparator at the largest value, so no further timer interrupt comes: the repeat branch raises the
  running minimum where it should lower it.\<close>

theorem repeating_timers_not_rearmed:
  assumes "timer_callbacks call act" "timer_ok s" "periods_ok s"
    and "\<forall>t \<in> set (timer_queue s). live t \<longrightarrow> expired now t \<and> repeating t"
  shows "\<exists>s'. execute_timer call now s = Some (0, s') \<and> timecmp s' = - 1
    \<and> timer_count s' = timer_count s \<and> map live (timer_queue s') = map live (timer_queue s)"
proof -
  have "foldl (min_step now) (- 1) q = - 1" if "\<forall>t \<in> set q. live t \<longrightarrow> expired now t \<and> repeating t" for q
    using that by (induction q) (auto simp: min_step_def max_absorb1)
  moreover have "done_count now (timer_queue s) = 0"
    using assms(4) by (auto simp: done_count_def expired_def filter_empty_conv)
  moreover have "map live (map (visited now) (timer_queue s)) = map live (timer_queue s)"
    using assms(4) by (auto simp: live_visited)
  ultimately show ?thesis
    using timer_callbacks.execute_timer_exact [OF assms(1-3), of now] assms(4) by (simp add: after_loop_def)
qed

definition timer_periodic :: "u32 timer_st" where
  "timer_periodic = timer_boot\<lparr>timer_count := 1, timer_queue :=
     \<lparr>handler = 0x80000200, repeat_ns = 1000, exe_time = 3\<rparr> # replicate 9 empty_timer\<rparr>"

theorem repeating_timers_not_rearmed_witness:
  "\<exists>s'. execute_timer timer_test 5 timer_periodic = Some (0, s') \<and> timecmp s' = - 1
    \<and> timer_count s' = timer_count timer_periodic
    \<and> map live (timer_queue s') = map live (timer_queue timer_periodic)"
  by (rule repeating_timers_not_rearmed [OF timer_test_client.timer_callbacks_axioms])
    (simp_all add: timer_periodic_def timer_boot_def timer_ok_def periods_ok_def live_def empty_timer_def
      expired_def repeating_def TIMER_QUEUE_MAX_def CLOCK_TIME_def)

text \<open>A callback that cancels the timer in slot 0.\<close>

definition cancel_slot0 :: "u32 \<Rightarrow> u32 timer_st \<Rightarrow> u32 timer_st" where
  "cancel_slot0 h s = (case clear_timer 0 s of None \<Rightarrow> s | Some (_, s) \<Rightarrow> s)"

definition timer_one :: "u32 timer_st" where
  "timer_one = timer_boot\<lparr>timer_count := 1, timer_queue :=
     \<lparr>handler = 0x80000200, repeat_ns = 0, exe_time = 3\<rparr> # replicate 9 empty_timer\<rparr>"

text \<open>Why the callbacks must leave the driver alone. When the only pending one-shot timer's
  callback cancels its own timer, \<open>execute_timer\<close> counts the removal a second time: the queue is
  empty, the unsigned count is at its maximum, and every later registration is refused.\<close>

theorem timer_self_cancel:
  "\<exists>s'. execute_timer cancel_slot0 5 timer_one = Some (0, s')
    \<and> filter live (timer_queue s') = [] \<and> timer_count s' = - 1
    \<and> (\<forall>h d rep now. register_timer h d rep now s' = Some (- 1, s'))"
proof -
  have r: "[0..<10] = [0, 1, 2, 3, 4, 5, 6, 7, 8, 9 :: nat]" by (simp add: upt_rec)
  show ?thesis
    by (simp add: execute_timer_def timer_one_def timer_boot_def TIMER_QUEUE_MAX_def r cancel_slot0_def
        clear_timer_def Let_def put_timer_def interrupt_disable_def empty_timer_def live_def
        register_timer_def)
qed
end
