(* ===== verification/Trap.thy ===== *)
theory Trap
  imports Libc
begin

text \<open>
  Trap handling: Platform/Common/Inc/trap.h, Src/exceptions.c (the exception layer), Src/interrupt.c
  and Inc/interrupt.h (the interrupt table and the PLIC), Src/sw.c, and the older handlers of
  Src/syscalls.c. \<open>exit\<close> does not return: it ends the run with its code. A call through a null or
  missing handler is undefined behaviour.
\<close>

section \<open>Constants\<close>

definition CODE_SUCCESS :: u32 where "CODE_SUCCESS = 0"
definition CODE_FATAL :: u32 where "CODE_FATAL = 2"
definition CAUSE_MAX :: u32 where "CAUSE_MAX = 16"
definition IRQ_M_SOFT :: u32 where "IRQ_M_SOFT = 3"
definition IRQ_M_TIMER :: u32 where "IRQ_M_TIMER = 7"
definition IRQ_M_EXT :: u32 where "IRQ_M_EXT = 11"
definition TRAP_INT_BIT :: u32 where "TRAP_INT_BIT = 0x80000000"
definition PLIC_NUMBER_OF_INTERRUPTS :: nat where "PLIC_NUMBER_OF_INTERRUPTS = 48"
definition PLIC_MAX_PRIORITY :: int where "PLIC_MAX_PRIORITY = 7"
definition MEIE :: u32 where "MEIE = 0x800"
definition MSIE :: u32 where "MSIE = 0x008"
definition ALL_IE_BITS :: u32 where "ALL_IE_BITS = 0xfff"

lemmas trap_consts = CODE_SUCCESS_def CODE_FATAL_def CODE_FAIL_def CAUSE_MAX_def IRQ_M_SOFT_def
  IRQ_M_TIMER_def IRQ_M_EXT_def TRAP_INT_BIT_def

section \<open>State\<close>

text \<open>Slot 0 of the trap frame is the resume address; \<open>tf_x\<close> holds x1 to x31.\<close>

record trap_frame =
  mepc :: u32
  tf_x :: "u32 list"

datatype exc_action_t = EXC_ACT_FATAL | EXC_ACT_SKIP | EXC_ACT_HANDLER

record exception_record =
  rec_cause :: u32
  rec_epc :: u32
  rec_tval :: u32
  rec_count :: u32

text \<open>A code pointer: null, the platform's \<open>empty\<close>, or a client function.\<close>

datatype code_ptr = Null | Empty_fn | Client nat

record isr_group =
  ext_int_handler :: "code_ptr list"
  sw_int_handler :: code_ptr
  time_int_handler :: code_ptr

record plic =
  plic_enable :: u64
  plic_priority :: "nat \<Rightarrow> u32"
  plic_threshold :: u32
  plic_claim :: u32
  plic_completed :: "u32 list"

record 'w cpu =
  exc_action :: "exc_action_t list"
  exc_handler :: "code_ptr list"
  exc_last :: exception_record
  exc_total :: u32
  expect_valid :: bool
  expect_cause :: u32
  expect_hit :: bool
  pISR_BASE :: isr_group
  cpu_plic :: plic
  cpu_mem :: mem
  cpu_mtvec :: u32
  cpu_mtval :: u32
  cpu_mie :: u32
  error_counter :: u32
  mcause_value0 :: u32
  stack_12 :: u32
  env :: 'w

datatype ('a, 's) outcome = Done 'a 's | Exited u32 's | Undefined

type_synonym 'w isr_call = "nat \<Rightarrow> 'w cpu \<Rightarrow> u32 \<times> 'w cpu"
type_synonym 'w exc_call = "nat \<Rightarrow> u32 \<Rightarrow> trap_frame \<Rightarrow> 'w cpu \<Rightarrow> u32 \<times> trap_frame \<times> 'w cpu"

section \<open>trap.h\<close>

definition TRAP_IS_INTERRUPT :: "u32 \<Rightarrow> bool" where
  "TRAP_IS_INTERRUPT c \<longleftrightarrow> c AND TRAP_INT_BIT \<noteq> 0"

definition TRAP_CAUSE_CODE :: "u32 \<Rightarrow> u32" where
  "TRAP_CAUSE_CODE c = c AND NOT TRAP_INT_BIT"

definition trap_insn_len :: "mem \<Rightarrow> u32 \<Rightarrow> u32" where
  "trap_insn_len m pc =
     (let lo = ucast (m pc) OR push_bit 8 (ucast (m (pc + 1))) :: u16
      in if lo AND 3 = 3 then 4 else 2)"

definition trap_skip_insn :: "mem \<Rightarrow> trap_frame \<Rightarrow> trap_frame" where
  "trap_skip_insn m f = f\<lparr>mepc := mepc f + trap_insn_len m (mepc f)\<rparr>"

section \<open>exceptions.c\<close>

definition exceptions_init :: "u32 \<Rightarrow> 'w cpu \<Rightarrow> 'w cpu" where
  "exceptions_init trap_entry_common s =
     s\<lparr>exc_action := replicate (unat CAUSE_MAX) EXC_ACT_FATAL, exc_handler := replicate (unat CAUSE_MAX) Null,
       exc_last := \<lparr>rec_cause = 0, rec_epc = 0, rec_tval = 0, rec_count = 0\<rparr>, exc_total := 0,
       expect_valid := False, expect_cause := 0, expect_hit := False, cpu_mtvec := trap_entry_common\<rparr>"

definition exception_set_action :: "u32 \<Rightarrow> exc_action_t \<Rightarrow> 'w cpu \<Rightarrow> 'w cpu" where
  "exception_set_action cause action s =
     (if CAUSE_MAX \<le> cause then s else s\<lparr>exc_action := (exc_action s)[unat cause := action]\<rparr>)"

definition exception_set_handler :: "u32 \<Rightarrow> code_ptr \<Rightarrow> 'w cpu \<Rightarrow> 'w cpu" where
  "exception_set_handler cause handler s =
     (if CAUSE_MAX \<le> cause then s
      else s\<lparr>exc_handler := (exc_handler s)[unat cause := handler],
             exc_action := (exc_action s)[unat cause := EXC_ACT_HANDLER]\<rparr>)"

definition exception_expect :: "u32 \<Rightarrow> 'w cpu \<Rightarrow> 'w cpu" where
  "exception_expect cause s = s\<lparr>expect_cause := cause, expect_valid := True, expect_hit := False\<rparr>"

definition exception_matched :: "'w cpu \<Rightarrow> bool \<times> 'w cpu" where
  "exception_matched s = (let hit = expect_hit s in (hit, s\<lparr>expect_valid := False, expect_hit := False\<rparr>))"

definition exception_last :: "'w cpu \<Rightarrow> exception_record" where
  "exception_last s = exc_last s"

definition exception_count :: "'w cpu \<Rightarrow> u32" where
  "exception_count s = exc_total s"

definition exception_name :: "u32 \<Rightarrow> string" where
  "exception_name cause =
     (if cause = 0x0 then ''misaligned fetch''
      else if cause = 0x1 then ''fetch access fault''
      else if cause = 0x2 then ''illegal instruction''
      else if cause = 0x3 then ''breakpoint''
      else if cause = 0x4 then ''misaligned load''
      else if cause = 0x5 then ''load access fault''
      else if cause = 0x6 then ''misaligned store''
      else if cause = 0x7 then ''store access fault''
      else if cause = 0x8 then ''ecall from U''
      else if cause = 0x9 then ''ecall from S''
      else if cause = 0xb then ''ecall from M''
      else ''unknown'')"

text \<open>The result is the frame the trap returns through.\<close>

definition handle_exception :: "'w exc_call \<Rightarrow> u32 \<Rightarrow> trap_frame \<Rightarrow> 'w cpu \<Rightarrow> (trap_frame, 'w cpu) outcome" where
  "handle_exception call cause frame s =
     (let s = s\<lparr>exc_total := exc_total s + 1\<rparr>;
          s = s\<lparr>exc_last := \<lparr>rec_cause = cause, rec_epc = mepc frame, rec_tval = cpu_mtval s,
                             rec_count = exc_total s\<rparr>\<rparr>
      in if expect_valid s \<and> cause = expect_cause s
         then Done (trap_skip_insn (cpu_mem s) frame) (s\<lparr>expect_hit := True, expect_valid := False\<rparr>)
         else case (if cause < CAUSE_MAX then exc_action s ! unat cause else EXC_ACT_FATAL) of
           EXC_ACT_SKIP \<Rightarrow> Done (trap_skip_insn (cpu_mem s) frame) s
         | EXC_ACT_HANDLER \<Rightarrow>
             (case exc_handler s ! unat cause of
                Null \<Rightarrow> Exited CODE_FATAL s
              | Empty_fn \<Rightarrow> Done frame s
              | Client n \<Rightarrow> let (r, frame, s) = call n cause frame s
                           in if r = 0 then Done frame s else Exited CODE_FATAL s)
         | EXC_ACT_FATAL \<Rightarrow> Exited CODE_FATAL s)"

section \<open>interrupt.c and sw.c\<close>

definition empty :: "'w cpu \<Rightarrow> u32 \<times> 'w cpu" where
  "empty s = (0, s)"

definition run_isr :: "'w isr_call \<Rightarrow> code_ptr \<Rightarrow> 'w cpu \<Rightarrow> (u32 \<times> 'w cpu) option" where
  "run_isr call p s =
     (case p of Null \<Rightarrow> None | Empty_fn \<Rightarrow> Some (empty s) | Client n \<Rightarrow> Some (call n s))"

definition put_isr :: "(isr_group \<Rightarrow> isr_group) \<Rightarrow> 'w cpu \<Rightarrow> 'w cpu" where
  "put_isr f s = s\<lparr>pISR_BASE := f (pISR_BASE s)\<rparr>"

definition put_plic :: "(plic \<Rightarrow> plic) \<Rightarrow> 'w cpu \<Rightarrow> 'w cpu" where
  "put_plic f s = s\<lparr>cpu_plic := f (cpu_plic s)\<rparr>"

definition ENABLE_PLIC_INT :: "nat \<Rightarrow> plic \<Rightarrow> plic" where
  "ENABLE_PLIC_INT i p = p\<lparr>plic_enable := plic_enable p OR push_bit i 1\<rparr>"

definition DISABLE_PLIC_INT :: "nat \<Rightarrow> plic \<Rightarrow> plic" where
  "DISABLE_PLIC_INT i p = p\<lparr>plic_enable := plic_enable p AND NOT (push_bit i 1)\<rparr>"

definition DISABLE_ALL_PLIC_INT :: "plic \<Rightarrow> plic" where
  "DISABLE_ALL_PLIC_INT p = p\<lparr>plic_enable := 0\<rparr>"

definition SET_PLIC_INT_PRIORITY :: "nat \<Rightarrow> u32 \<Rightarrow> plic \<Rightarrow> plic" where
  "SET_PLIC_INT_PRIORITY i pri p = p\<lparr>plic_priority := (plic_priority p)(i := pri)\<rparr>"

definition SET_PLIC_THRESHOLD :: "u32 \<Rightarrow> plic \<Rightarrow> plic" where
  "SET_PLIC_THRESHOLD v p = p\<lparr>plic_threshold := v\<rparr>"

definition internal_register_extint_handler :: "nat \<Rightarrow> code_ptr \<Rightarrow> 'w cpu \<Rightarrow> 'w cpu" where
  "internal_register_extint_handler num h = put_isr (\<lambda>g. g\<lparr>ext_int_handler := (ext_int_handler g)[num := h]\<rparr>)"

definition register_extint_handler :: "int \<Rightarrow> code_ptr \<Rightarrow> int \<Rightarrow> 'w cpu \<Rightarrow> u32 \<times> 'w cpu" where
  "register_extint_handler num h pri s =
     (if num > int PLIC_NUMBER_OF_INTERRUPTS \<or> num < 0 then (CODE_FAIL, s)
      else if pri < 0 \<or> pri > PLIC_MAX_PRIORITY then (CODE_FAIL, s)
      else let s = put_plic (ENABLE_PLIC_INT (nat num)) s;
               s = internal_register_extint_handler (nat num) h s;
               s = put_plic (SET_PLIC_INT_PRIORITY (nat num) (of_int pri)) s
           in (CODE_SUCCESS, s))"

fun init_extint_loop :: "nat list \<Rightarrow> 'w cpu \<Rightarrow> 'w cpu" where
  "init_extint_loop [] s = s"
| "init_extint_loop (i # is) s =
     (let s = internal_register_extint_handler i Empty_fn s;
          s = put_plic (SET_PLIC_INT_PRIORITY i 0) s
      in init_extint_loop is s)"

definition init_extint_handler :: "'w cpu \<Rightarrow> 'w cpu" where
  "init_extint_handler s =
     (let s = put_plic DISABLE_ALL_PLIC_INT s;
          s = init_extint_loop [1..<PLIC_NUMBER_OF_INTERRUPTS + 1] s;
          s = put_plic (SET_PLIC_THRESHOLD 0) s;
          s = s\<lparr>cpu_mie := cpu_mie s AND NOT ALL_IE_BITS\<rparr>
      in s\<lparr>cpu_mie := cpu_mie s OR MEIE\<rparr>)"

definition init_swint_handler :: "'w cpu \<Rightarrow> 'w cpu" where
  "init_swint_handler s =
     (let s = put_isr (\<lambda>g. g\<lparr>sw_int_handler := Empty_fn\<rparr>) s in s\<lparr>cpu_mie := cpu_mie s OR MSIE\<rparr>)"

definition register_swint_handler :: "code_ptr \<Rightarrow> 'w cpu \<Rightarrow> u32 \<times> 'w cpu" where
  "register_swint_handler h s = (0, put_isr (\<lambda>g. g\<lparr>sw_int_handler := h\<rparr>) s)"

section \<open>Trap entry\<close>

text \<open>Claim, complete, and call the handler of the claimed source.\<close>

definition external_interrupt :: "'w isr_call \<Rightarrow> 'w cpu \<Rightarrow> (u32 \<times> 'w cpu) option" where
  "external_interrupt call s =
     (let claim = plic_claim (cpu_plic s);
          s = put_plic (\<lambda>p. p\<lparr>plic_completed := plic_completed p @ [claim]\<rparr>) s
      in if PLIC_NUMBER_OF_INTERRUPTS < unat claim then None
         else run_isr call (ext_int_handler (pISR_BASE s) ! unat claim) s)"

text \<open>The tail of the three handlers: a non-zero return ends the run.\<close>

definition isr_result :: "'a \<Rightarrow> (u32 \<times> 'w cpu) option \<Rightarrow> ('a, 'w cpu) outcome" where
  "isr_result v r =
     (case r of None \<Rightarrow> Undefined
      | Some (ret, s) \<Rightarrow> if ret \<noteq> 0 then Exited CODE_FAIL s else Done v s)"

definition trap_dispatch ::
  "'w exc_call \<Rightarrow> 'w isr_call \<Rightarrow> u32 \<Rightarrow> trap_frame \<Rightarrow> 'w cpu \<Rightarrow> (trap_frame, 'w cpu) outcome" where
  "trap_dispatch ecall icall mcause frame s =
     (if \<not> TRAP_IS_INTERRUPT mcause then handle_exception ecall (TRAP_CAUSE_CODE mcause) frame s
      else if TRAP_CAUSE_CODE mcause = IRQ_M_EXT then isr_result frame (external_interrupt icall s)
      else if TRAP_CAUSE_CODE mcause = IRQ_M_TIMER
      then isr_result frame (if time_int_handler (pISR_BASE s) \<noteq> Null
                             then run_isr icall (time_int_handler (pISR_BASE s)) s else Some (0, s))
      else if TRAP_CAUSE_CODE mcause = IRQ_M_SOFT
      then isr_result frame (if sw_int_handler (pISR_BASE s) \<noteq> Null
                             then run_isr icall (sw_int_handler (pISR_BASE s)) s else Some (0, s))
      else isr_result frame (Some (0, s)))"

text \<open>The interrupt part shared by the two handlers of syscalls.c, \<open>cause\<close> an interrupt.\<close>

definition old_timer_or_soft :: "'w isr_call \<Rightarrow> u32 \<Rightarrow> 'w cpu \<Rightarrow> (u32, 'w cpu) outcome" where
  "old_timer_or_soft call cause s =
     (if cause = TRAP_INT_BIT OR 7 then isr_result 0 (run_isr call (time_int_handler (pISR_BASE s)) s)
      else if cause = TRAP_INT_BIT OR 3 then isr_result 0 (run_isr call (sw_int_handler (pISR_BASE s)) s)
      else if cause = TRAP_INT_BIT OR 8 \<or> cause = TRAP_INT_BIT OR 0 \<or> cause = TRAP_INT_BIT OR 4
           \<or> cause = TRAP_INT_BIT OR 12 then Done 0 s
      else Exited CODE_FATAL s)"

definition trap_handler :: "'w isr_call \<Rightarrow> u32 \<Rightarrow> 'w cpu \<Rightarrow> (u32, 'w cpu) outcome" where
  "trap_handler call cause s =
     (if cause AND TRAP_INT_BIT = 0 then Exited CODE_FATAL s
      else if cause = TRAP_INT_BIT OR 11 then isr_result 0 (external_interrupt call s)
      else old_timer_or_soft call cause s)"

text \<open>\<open>stack_12\<close> is the word the inline assembly finds at \<open>12(sp)\<close>. The external branch returns
  before the result check.\<close>

definition trap_handler_PMP :: "'w isr_call \<Rightarrow> u32 \<Rightarrow> 'w cpu \<Rightarrow> (u32, 'w cpu) outcome" where
  "trap_handler_PMP call cause s =
     (if cause AND TRAP_INT_BIT = 0
      then let s = s\<lparr>mcause_value0 := cause\<rparr> in
           if cause = 5 \<or> cause = 7
           then let s = s\<lparr>error_counter := error_counter s + 1\<rparr> in Done 1 (s\<lparr>stack_12 := stack_12 s + 2\<rparr>)
           else if cause = 1
           then let s = s\<lparr>error_counter := error_counter s + 1\<rparr> in Done 1 (s\<lparr>stack_12 := stack_12 s + 4\<rparr>)
           else Exited CODE_FATAL s
      else if cause = TRAP_INT_BIT OR 11
      then (case external_interrupt call s of None \<Rightarrow> Undefined | Some (_, s) \<Rightarrow> Done 0 s)
      else old_timer_or_soft call cause s)"

section \<open>The interrupt table\<close>

lemma replace_field:
  fixes v :: "'a::len word"
  assumes "v AND a = v"
  shows "(x AND NOT a OR v) AND a = v"
proof (rule bit_eqI)
  fix n
  have "bit (v AND a) n = bit v n" using assms by simp
  moreover assume "possible_bit TYPE('a word) n"
  ultimately show "bit ((x AND NOT a OR v) AND a) n = bit v n" by (auto simp: word_bits)
qed

lemma put_isr_simps [simp]:
  "pISR_BASE (put_isr f s) = f (pISR_BASE s)" "cpu_plic (put_isr f s) = cpu_plic s"
  "cpu_mie (put_isr f s) = cpu_mie s"
  "cpu_plic (put_plic g s) = g (cpu_plic s)" "pISR_BASE (put_plic g s) = pISR_BASE s"
  "cpu_mie (put_plic g s) = cpu_mie s"
  by (simp_all add: put_isr_def put_plic_def)

lemma init_extint_loop_table:
  "ext_int_handler (pISR_BASE (init_extint_loop is s)) =
     foldl (\<lambda>l i. l[i := Empty_fn]) (ext_int_handler (pISR_BASE s)) is"
  by (induction "is" s rule: init_extint_loop.induct)
    (simp_all add: internal_register_extint_handler_def Let_def)

lemma init_extint_loop_plic:
  "cpu_plic (init_extint_loop is s) =
     (cpu_plic s)\<lparr>plic_priority := (\<lambda>j. if j \<in> set is then 0 else plic_priority (cpu_plic s) j)\<rparr>"
  by (induction "is" s rule: init_extint_loop.induct)
    (auto simp: internal_register_extint_handler_def SET_PLIC_INT_PRIORITY_def Let_def fun_eq_iff)

lemma init_extint_loop_mie [simp]: "cpu_mie (init_extint_loop is s) = cpu_mie s"
  by (induction "is" s rule: init_extint_loop.induct)
    (simp_all add: internal_register_extint_handler_def Let_def)

lemma foldl_update_nth:
  "j < length l \<Longrightarrow> foldl (\<lambda>l i. l[i := x]) l is ! j = (if j \<in> set is then x else l ! j)"
  by (induction "is" arbitrary: l) (auto simp: nth_list_update)

lemma foldl_update_length [simp]: "length (foldl (\<lambda>l i. l[i := x]) l is) = length l"
  by (induction "is" arbitrary: l) auto

lemma init_extint_handler_state:
  "plic_enable (cpu_plic (init_extint_handler s)) = 0"
  "plic_threshold (cpu_plic (init_extint_handler s)) = 0"
  "plic_priority (cpu_plic (init_extint_handler s)) j =
     (if 1 \<le> j \<and> j \<le> PLIC_NUMBER_OF_INTERRUPTS then 0 else plic_priority (cpu_plic s) j)"
  "plic_completed (cpu_plic (init_extint_handler s)) = plic_completed (cpu_plic s)"
  "cpu_mie (init_extint_handler s) = cpu_mie s AND NOT ALL_IE_BITS OR MEIE"
  "j < length (ext_int_handler (pISR_BASE s)) \<Longrightarrow>
     ext_int_handler (pISR_BASE (init_extint_handler s)) ! j =
       (if 1 \<le> j \<and> j \<le> PLIC_NUMBER_OF_INTERRUPTS then Empty_fn else ext_int_handler (pISR_BASE s) ! j)"
  "length (ext_int_handler (pISR_BASE (init_extint_handler s))) = length (ext_int_handler (pISR_BASE s))"
  by (auto simp: init_extint_handler_def Let_def init_extint_loop_plic init_extint_loop_table
      DISABLE_ALL_PLIC_INT_def SET_PLIC_THRESHOLD_def foldl_update_nth)

section \<open>Properties\<close>

definition recorded :: "u32 \<Rightarrow> trap_frame \<Rightarrow> 'w cpu \<Rightarrow> 'w cpu" where
  "recorded c f s = s\<lparr>exc_total := exc_total s + 1, exc_last := \<lparr>rec_cause = c, rec_epc = mepc f,
      rec_tval = cpu_mtval s, rec_count = exc_total s + 1\<rparr>\<rparr>"

definition next_insn :: "trap_frame \<Rightarrow> 'w cpu \<Rightarrow> trap_frame" where
  "next_insn f s = f\<lparr>mepc := mepc f + (if cpu_mem s (mepc f) AND 3 = 3 then 4 else 2)\<rparr>"

lemma trap_insn_len_low: "trap_insn_len m pc = (if m pc AND 3 = 3 then 4 else 2)"
proof -
  have "bit ((ucast (m pc) OR push_bit 8 (ucast (m (pc + 1))) :: u16) AND 3) n = bit (ucast (m pc AND 3) :: u16) n" for n
  proof -
    have m16: "(3 :: u16) = mask 2" and m8: "(3 :: u8) = mask 2" by (simp_all add: mask_eq_exp_minus_1)
    show ?thesis unfolding m16 m8 by (auto simp: word_bits bit_ucast_iff dest: bit_imp_le_length)
  qed
  then have "(ucast (m pc) OR push_bit 8 (ucast (m (pc + 1))) :: u16) AND 3 = ucast (m pc AND 3)"
    by (rule bit_eqI)
  moreover have "(ucast x :: u16) = 3 \<longleftrightarrow> x = 3" for x :: u8
  proof
    assume "(ucast x :: u16) = 3"
    then have "unat (ucast x :: u16) = 3" by simp
    moreover have "unat (ucast x :: u16) = unat x"
      using u8_bound [of x] by (simp add: unsigned_ucast_eq take_bit_nat_eq_self)
    ultimately show "x = 3" by (simp add: word_unat_eq_iff)
  qed simp
  ultimately show ?thesis by (simp add: trap_insn_len_def Let_def)
qed

lemma trap_skip_insn_next: "trap_skip_insn (cpu_mem s) f = next_insn f s"
  by (simp add: trap_skip_insn_def next_insn_def trap_insn_len_low)

text \<open>The calls with which a program sets the policy up; a history has the latest call first.\<close>

datatype exc_op = Op_action u32 exc_action_t | Op_handler u32 code_ptr | Op_expect u32 | Op_matched

fun exc_apply :: "exc_op \<Rightarrow> 'w cpu \<Rightarrow> 'w cpu" where
  "exc_apply (Op_action c a) s = exception_set_action c a s"
| "exc_apply (Op_handler c h) s = exception_set_handler c h s"
| "exc_apply (Op_expect c) s = exception_expect c s"
| "exc_apply Op_matched s = snd (exception_matched s)"

definition exc_setup :: "exc_op list \<Rightarrow> 'w cpu \<Rightarrow> 'w cpu" where
  "exc_setup h s = foldr exc_apply h s"

text \<open>What the history says of a cause: the action and the handler set last, the exception expected. Before
  it everything is as \<open>exceptions_init\<close> leaves it.\<close>

fun last_action :: "exc_op list \<Rightarrow> u32 \<Rightarrow> exc_action_t" where
  "last_action [] c = EXC_ACT_FATAL"
| "last_action (Op_action d a # h) c = (if c = d then a else last_action h c)"
| "last_action (Op_handler d p # h) c = (if c = d then EXC_ACT_HANDLER else last_action h c)"
| "last_action (_ # h) c = last_action h c"

fun last_handler :: "exc_op list \<Rightarrow> u32 \<Rightarrow> code_ptr" where
  "last_handler [] c = Null"
| "last_handler (Op_handler d p # h) c = (if c = d then p else last_handler h c)"
| "last_handler (_ # h) c = last_handler h c"

fun awaited :: "exc_op list \<Rightarrow> u32 option" where
  "awaited [] = None"
| "awaited (Op_expect c # h) = Some c"
| "awaited (Op_matched # h) = None"
| "awaited (_ # h) = awaited h"

text \<open>The outcome owed to an exception \<open>c\<close> after a history, in the state \<open>r\<close> that records it.\<close>

definition exc_due :: "'w exc_call \<Rightarrow> exc_op list \<Rightarrow> u32 \<Rightarrow> trap_frame \<Rightarrow> 'w cpu \<Rightarrow> (trap_frame, 'w cpu) outcome" where
  "exc_due ecall h c f r =
     (if awaited h = Some c then Done (next_insn f r) (r\<lparr>expect_hit := True, expect_valid := False\<rparr>)
      else if CAUSE_MAX \<le> c then Exited CODE_FATAL r
      else case (last_action h c, last_handler h c) of
          (EXC_ACT_SKIP, _) \<Rightarrow> Done (next_insn f r) r
        | (EXC_ACT_HANDLER, Client n) \<Rightarrow>
            (case ecall n c f r of (ret, f', r') \<Rightarrow> if ret = 0 then Done f' r' else Exited CODE_FATAL r')
        | (EXC_ACT_HANDLER, Empty_fn) \<Rightarrow> Done f r
        | _ \<Rightarrow> Exited CODE_FATAL r)"

lemma exc_setup_state:
  fixes s :: "'w cpu" and h e
  defines "t \<equiv> exc_setup h (exceptions_init e s)"
  shows "length (exc_action t) = unat CAUSE_MAX" "length (exc_handler t) = unat CAUSE_MAX"
    "c < CAUSE_MAX \<Longrightarrow> exc_action t ! unat c = last_action h c"
    "c < CAUSE_MAX \<Longrightarrow> exc_handler t ! unat c = last_handler h c"
    "expect_valid t \<and> c = expect_cause t \<longleftrightarrow> awaited h = Some c"
proof -
  have "length (exc_action t) = unat CAUSE_MAX \<and> length (exc_handler t) = unat CAUSE_MAX
    \<and> (c < CAUSE_MAX \<longrightarrow> exc_action t ! unat c = last_action h c \<and> exc_handler t ! unat c = last_handler h c)
    \<and> (expect_valid t \<and> c = expect_cause t \<longleftrightarrow> awaited h = Some c)"
    unfolding t_def
  proof (induction h)
    case Nil
    then show ?case by (simp add: exc_setup_def exceptions_init_def word_less_nat_alt)
  next
    case (Cons p h)
    then show ?case
      by (cases p)
        (auto simp: exc_setup_def exception_set_action_def exception_set_handler_def exception_expect_def
          exception_matched_def word_less_nat_alt word_le_nat_alt nth_list_update word_unat_eq_iff)
  qed
  then show "length (exc_action t) = unat CAUSE_MAX" "length (exc_handler t) = unat CAUSE_MAX"
    "c < CAUSE_MAX \<Longrightarrow> exc_action t ! unat c = last_action h c"
    "c < CAUSE_MAX \<Longrightarrow> exc_handler t ! unat c = last_handler h c"
    "expect_valid t \<and> c = expect_cause t \<longleftrightarrow> awaited h = Some c" by blast+
qed

lemma exc_setup_untouched [simp]:
  "exc_last (exc_setup h s) = exc_last s" "exc_total (exc_setup h s) = exc_total s" "cpu_mtval (exc_setup h s) = cpu_mtval s"
proof -
  have "exc_last (exc_setup h s) = exc_last s \<and> exc_total (exc_setup h s) = exc_total s \<and> cpu_mtval (exc_setup h s) = cpu_mtval s"
  proof (induction h)
    case (Cons p h)
    then show ?case by (cases p) (simp_all add: exc_setup_def exception_set_action_def exception_set_handler_def
      exception_expect_def exception_matched_def)
  qed (simp add: exc_setup_def)
  then show "exc_last (exc_setup h s) = exc_last s" "exc_total (exc_setup h s) = exc_total s" "cpu_mtval (exc_setup h s) = cpu_mtval s"
    by simp_all
qed

lemma not_interrupt_code: "\<not> TRAP_IS_INTERRUPT c \<Longrightarrow> TRAP_CAUSE_CODE c = c"
proof -
  assume "\<not> TRAP_IS_INTERRUPT c"
  moreover have "(c AND x) OR (c AND NOT x) = c" for x by (rule bit_eqI) (auto simp: word_bits)
  from this [of TRAP_INT_BIT] have "(c AND TRAP_INT_BIT) OR (c AND NOT TRAP_INT_BIT) = c" .
  ultimately show "TRAP_CAUSE_CODE c = c" by (simp add: TRAP_CAUSE_CODE_def TRAP_IS_INTERRUPT_def)
qed

text \<open>C8: Exceptions never pass silently. After \<open>exceptions_init\<close> and any history of calls of
  \<open>exception_set_action\<close>, \<open>exception_set_handler\<close>, \<open>exception_expect\<close> and
  \<open>exception_matched\<close>, the outcome of an exception is decided by the history. The trap is recorded first
  (cause, address, trap value, count), whatever then happens. The exception expected last and not withdrawn resumes
  one instruction further with all registers kept, is reported once by \<open>exception_matched\<close> and is expected
  no longer; one whose last action is to skip resumes one instruction further; one whose action is the handler set
  last runs that handler, with the cause, the frame and the recorded state, and resumes with exactly the frame and the state the
  handler leaves when it returns 0, and ends the run with \<open>CODE_FATAL\<close> when it returns anything else; every
  other one, a handler action without a handler and a cause out of the table included, ends the run with
  \<open>CODE_FATAL\<close>. The trap is never undefined.\<close>

theorem exceptions_never_silent:
  fixes s :: "'w cpu" and h e
  assumes "\<not> TRAP_IS_INTERRUPT c"
  defines "t \<equiv> exc_setup h (exceptions_init e s)"
  shows "trap_dispatch ecall icall c f t = exc_due ecall h c f (recorded c f t)
    \<and> exception_last (recorded c f t) = \<lparr>rec_cause = c, rec_epc = mepc f, rec_tval = cpu_mtval s, rec_count = 1\<rparr>
    \<and> exception_count (recorded c f t) = 1
    \<and> (awaited h = Some c \<longrightarrow> (\<exists>u v. trap_dispatch ecall icall c f t = Done (next_insn f t) u
          \<and> exception_matched u = (True, v) \<and> fst (exception_matched v) = False \<and> \<not> expect_valid u))"
proof (intro conjI impI)
  note st = exc_setup_state(3-5) [where c = c and h = h and e = e and s = s, folded t_def]
  have rec: "handle_exception ecall c f t =
      (if awaited h = Some c then Done (next_insn f t) ((recorded c f t)\<lparr>expect_hit := True, expect_valid := False\<rparr>)
       else case (if c < CAUSE_MAX then exc_action t ! unat c else EXC_ACT_FATAL) of
           EXC_ACT_SKIP \<Rightarrow> Done (next_insn f t) (recorded c f t)
         | EXC_ACT_HANDLER \<Rightarrow>
             (case exc_handler t ! unat c of Null \<Rightarrow> Exited CODE_FATAL (recorded c f t)
              | Empty_fn \<Rightarrow> Done f (recorded c f t)
              | Client n \<Rightarrow> (case ecall n c f (recorded c f t) of
                  (r, f', s') \<Rightarrow> if r = 0 then Done f' s' else Exited CODE_FATAL s'))
         | EXC_ACT_FATAL \<Rightarrow> Exited CODE_FATAL (recorded c f t))"
    using st(3) by (simp add: handle_exception_def Let_def recorded_def trap_skip_insn_next [symmetric] split: exc_action_t.split code_ptr.split)
  have n: "next_insn f (recorded c f t) = next_insn f t" by (simp add: next_insn_def recorded_def)
  show d: "trap_dispatch ecall icall c f t = exc_due ecall h c f (recorded c f t)"
    using st(1,2) assms(1)
    by (auto simp: trap_dispatch_def not_interrupt_code rec exc_due_def n not_le
        split: exc_action_t.splits code_ptr.splits prod.splits)
  show "exception_last (recorded c f t) = \<lparr>rec_cause = c, rec_epc = mepc f, rec_tval = cpu_mtval s, rec_count = 1\<rparr>"
    "exception_count (recorded c f t) = 1"
    by (simp_all add: exception_last_def exception_count_def recorded_def t_def exceptions_init_def)
  assume "awaited h = Some c"
  then show "\<exists>u v. trap_dispatch ecall icall c f t = Done (next_insn f t) u
      \<and> exception_matched u = (True, v) \<and> fst (exception_matched v) = False \<and> \<not> expect_valid u"
    by (simp add: d exc_due_def n exception_matched_def Let_def)
qed

text \<open>A machine after reset and \<open>exceptions_init\<close>, with no client code.\<close>

definition cpu_reset :: "unit cpu" where
  "cpu_reset = exceptions_init 0x80000400
     \<lparr>exc_action = [], exc_handler = [], exc_last = \<lparr>rec_cause = 0, rec_epc = 0, rec_tval = 0, rec_count = 0\<rparr>,
      exc_total = 0, expect_valid = False, expect_cause = 0, expect_hit = False,
      pISR_BASE = \<lparr>ext_int_handler = replicate 49 Null, sw_int_handler = Null, time_int_handler = Null\<rparr>,
      cpu_plic = \<lparr>plic_enable = 0, plic_priority = (\<lambda>_. 0), plic_threshold = 0, plic_claim = 0, plic_completed = []\<rparr>,
      cpu_mem = (\<lambda>_. 0), cpu_mtvec = 0, cpu_mtval = 0, cpu_mie = 0, error_counter = 0, mcause_value0 = 0,
      stack_12 = 0, env = ()\<rparr>"

definition no_isr :: "unit isr_call" where "no_isr n s = (0, s)"
definition no_exc :: "unit exc_call" where "no_exc n c f s = (0, f, s)"

text \<open>A handler that steps over the instruction for its cause 4 and declines every other.\<close>

definition step_over :: "unit exc_call" where
  "step_over n c f s = (if c = 4 then (0, f\<lparr>mepc := mepc f + 4\<rparr>, s) else (1, f, s))"

theorem exceptions_never_silent_witness:
  "(let f = \<lparr>mepc = 0x80000100, tf_x = replicate 31 0\<rparr>; h = [Op_expect 3, Op_handler 6 (Client 0), Op_handler 4 (Client 0)];
        t = exc_setup h (exceptions_init 0x80000400 cpu_reset)
    in trap_dispatch step_over no_isr 4 f t = Done (f\<lparr>mepc := 0x80000104\<rparr>) (recorded 4 f t)
      \<and> trap_dispatch step_over no_isr 6 f t = Exited CODE_FATAL (recorded 6 f t)
      \<and> trap_dispatch step_over no_isr 3 f t = Done (f\<lparr>mepc := 0x80000102\<rparr>) ((recorded 3 f t)\<lparr>expect_hit := True, expect_valid := False\<rparr>))"
proof -
  let ?f = "\<lparr>mepc = 0x80000100, tf_x = replicate 31 0\<rparr>"
  let ?h = "[Op_expect 3, Op_handler 6 (Client 0), Op_handler 4 (Client 0)]"
  have "cpu_mem (recorded 3 ?f (exc_setup ?h (exceptions_init 0x80000400 cpu_reset))) = (\<lambda>_. 0)"
    by (simp add: recorded_def exc_setup_def exception_expect_def exception_set_handler_def exceptions_init_def cpu_reset_def)
  then show ?thesis
    using exceptions_never_silent [where c = 4 and ecall = step_over and icall = no_isr and f = ?f and h = ?h and e = "0x80000400" and s = cpu_reset]
      exceptions_never_silent [where c = 6 and ecall = step_over and icall = no_isr and f = ?f and h = ?h and e = "0x80000400" and s = cpu_reset]
      exceptions_never_silent [where c = 3 and ecall = step_over and icall = no_isr and f = ?f and h = ?h and e = "0x80000400" and s = cpu_reset]
    by (simp add: Let_def exc_due_def TRAP_IS_INTERRUPT_def TRAP_INT_BIT_def CAUSE_MAX_def step_over_def next_insn_def)
qed

text \<open>Registering an external interrupt after \<open>init_extint_handler\<close>. A source number 0 to 48 and
  a priority 0 to 7 are accepted; then exactly that source is enabled, with that priority, every
  other source is disabled with priority 0, the threshold is 0 and only machine external interrupts
  are unmasked; and when the PLIC presents a source, the trap completes it and runs the registered
  handler if it is that source, the harmless default if it is another. Other arguments are refused
  and change nothing.\<close>

theorem extint_registration:
  fixes s :: "'w cpu"
  assumes len: "length (ext_int_handler (pISR_BASE s)) = PLIC_NUMBER_OF_INTERRUPTS + 1"
  shows "if 0 \<le> num \<and> num \<le> 48 \<and> 0 \<le> pri \<and> pri \<le> 7
    then \<exists>s'. register_extint_handler num (Client h) pri (init_extint_handler s) = (CODE_SUCCESS, s')
      \<and> plic_enable (cpu_plic s') = push_bit (nat num) 1
      \<and> (\<forall>j \<in> {1..48}. plic_priority (cpu_plic s') j = (if j = nat num then of_int pri else 0))
      \<and> plic_threshold (cpu_plic s') = 0 \<and> cpu_mie s' AND ALL_IE_BITS = MEIE
      \<and> (\<forall>claim \<in> {1..48}. external_interrupt call (put_plic (\<lambda>p. p\<lparr>plic_claim := of_nat claim\<rparr>) s') =
           (let t = put_plic (\<lambda>p. p\<lparr>plic_claim := of_nat claim, plic_completed := plic_completed p @ [of_nat claim]\<rparr>) s'
            in if claim = nat num then Some (call h t) else Some (0, t)))
    else register_extint_handler num (Client h) pri s = (CODE_FAIL, s)"
proof (cases "0 \<le> num \<and> num \<le> 48 \<and> 0 \<le> pri \<and> pri \<le> 7")
  case False
  then show ?thesis
    by (auto simp: register_extint_handler_def PLIC_NUMBER_OF_INTERRUPTS_def PLIC_MAX_PRIORITY_def)
next
  case True
  define n where "n = nat num"
  have n: "n \<le> 48" "num = int n" using True by (auto simp: n_def)
  let ?i = "init_extint_handler s"
  let ?s = "put_plic (SET_PLIC_INT_PRIORITY n (of_int pri))
    (internal_register_extint_handler n (Client h) (put_plic (ENABLE_PLIC_INT n) ?i))"
  have run: "register_extint_handler num (Client h) pri ?i = (CODE_SUCCESS, ?s)"
    using True by (simp add: register_extint_handler_def PLIC_NUMBER_OF_INTERRUPTS_def PLIC_MAX_PRIORITY_def n_def)
  have en: "plic_enable (cpu_plic ?s) = push_bit n 1" "plic_threshold (cpu_plic ?s) = 0"
    by (simp_all add: internal_register_extint_handler_def SET_PLIC_INT_PRIORITY_def ENABLE_PLIC_INT_def
        init_extint_handler_state)
  have pr: "plic_priority (cpu_plic ?s) j = (if j = n then of_int pri else 0)" if "j \<in> {1..48}" for j
    using that by (simp add: internal_register_extint_handler_def SET_PLIC_INT_PRIORITY_def ENABLE_PLIC_INT_def
        init_extint_handler_state PLIC_NUMBER_OF_INTERRUPTS_def)
  have mie: "cpu_mie ?s AND ALL_IE_BITS = MEIE"
    by (simp add: internal_register_extint_handler_def init_extint_handler_state)
      (rule replace_field, simp add: MEIE_def ALL_IE_BITS_def)
  have tab: "ext_int_handler (pISR_BASE ?s) ! j = (if j = n then Client h else Empty_fn)" if "j \<in> {1..48}" for j
    using that len n by (simp add: internal_register_extint_handler_def init_extint_handler_state nth_list_update
        PLIC_NUMBER_OF_INTERRUPTS_def)
  have irq: "external_interrupt call (put_plic (\<lambda>p. p\<lparr>plic_claim := of_nat claim\<rparr>) ?s) =
      (let t = put_plic (\<lambda>p. p\<lparr>plic_claim := of_nat claim, plic_completed := plic_completed p @ [of_nat claim]\<rparr>) ?s
       in if claim = n then Some (call h t) else Some (0, t))" if "claim \<in> {1..48}" for claim
  proof -
    have u: "unat (of_nat claim :: u32) = claim" using that by (simp add: unat_of_nat take_bit_nat_eq_self)
    show ?thesis using tab [OF that] that
      by (simp add: external_interrupt_def Let_def u PLIC_NUMBER_OF_INTERRUPTS_def run_isr_def empty_def)
        (simp add: put_plic_def)
  qed
  show ?thesis unfolding if_P [OF True] n_def [symmetric]
    by (intro exI [of _ ?s] conjI ballI run en pr mie irq)
qed

theorem extint_registration_witness:
  "if 0 \<le> (7 :: int) \<and> (7 :: int) \<le> 48 \<and> 0 \<le> (3 :: int) \<and> (3 :: int) \<le> 7
    then \<exists>s'. register_extint_handler 7 (Client 5) 3 (init_extint_handler cpu_reset) = (CODE_SUCCESS, s')
      \<and> plic_enable (cpu_plic s') = push_bit (nat 7) 1
      \<and> (\<forall>j \<in> {1..48}. plic_priority (cpu_plic s') j = (if j = nat 7 then of_int 3 else 0))
      \<and> plic_threshold (cpu_plic s') = 0 \<and> cpu_mie s' AND ALL_IE_BITS = MEIE
      \<and> (\<forall>claim \<in> {1..48}. external_interrupt no_isr (put_plic (\<lambda>p. p\<lparr>plic_claim := of_nat claim\<rparr>) s') =
           (let t = put_plic (\<lambda>p. p\<lparr>plic_claim := of_nat claim, plic_completed := plic_completed p @ [of_nat claim]\<rparr>) s'
            in if claim = nat 7 then Some (no_isr 5 t) else Some (0, t)))
    else register_extint_handler 7 (Client 5) 3 cpu_reset = (CODE_FAIL, cpu_reset)"
  by (rule extint_registration) (simp add: cpu_reset_def exceptions_init_def PLIC_NUMBER_OF_INTERRUPTS_def)

text \<open>What a client sees of a trap: the state, not the value the C function returns.\<close>

definition seen :: "('a, 's) outcome \<Rightarrow> (unit, 's) outcome" where
  "seen = map_outcome (\<lambda>_. ()) id"

lemma isr_result_seen: "seen (isr_result v r) = isr_result () r"
  by (auto simp: seen_def isr_result_def split: option.splits)

lemma interrupt_cause:
  assumes "TRAP_IS_INTERRUPT c"
  shows "c AND TRAP_INT_BIT \<noteq> 0"
    and "k AND TRAP_INT_BIT = 0 \<Longrightarrow> c = TRAP_INT_BIT OR k \<longleftrightarrow> TRAP_CAUSE_CODE c = k"
proof -
  show n: "c AND TRAP_INT_BIT \<noteq> 0" using assms by (simp add: TRAP_IS_INTERRUPT_def)
  have b: "bit TRAP_INT_BIT n \<longleftrightarrow> n = 31" for n
  proof -
    have e: "TRAP_INT_BIT = push_bit 31 1" by (simp add: TRAP_INT_BIT_def push_bit_eq_mult)
    have "bit (push_bit 31 1 :: u32) n \<longleftrightarrow> 31 \<le> n \<and> n < 32 \<and> bit (1 :: u32) (n - 31)"
      unfolding bit_push_bit_iff by auto
    then show ?thesis unfolding e by (auto simp: bit_1_iff)
  qed
  have c31: "bit c 31"
  proof (rule ccontr)
    assume "\<not> bit c 31"
    then have "c AND TRAP_INT_BIT = 0" by (intro bit_eqI) (auto simp: bit_and_iff b)
    with n show False by simp
  qed
  assume "k AND TRAP_INT_BIT = 0"
  then have "\<not> (bit k 31 \<and> bit TRAP_INT_BIT 31)" unfolding bit_and_iff [symmetric] by simp
  then have k31: "\<not> bit k 31" by (simp add: b)
  show "c = TRAP_INT_BIT OR k \<longleftrightarrow> TRAP_CAUSE_CODE c = k"
  proof
    assume "c = TRAP_INT_BIT OR k"
    then show "TRAP_CAUSE_CODE c = k" unfolding TRAP_CAUSE_CODE_def
      by (intro bit_eqI) (use k31 in \<open>auto simp: word_bits b\<close>)
  next
    assume "TRAP_CAUSE_CODE c = k"
    then show "c = TRAP_INT_BIT OR k" unfolding TRAP_CAUSE_CODE_def
      by (intro bit_eqI) (use c31 in \<open>auto simp: word_bits b\<close>)
  qed
qed

lemma isr_result_plain:
  "isr_result v (Some (0, s)) = Done v s" "isr_result v (run_isr call Null s) = Undefined"
  by (simp_all add: isr_result_def run_isr_def)

lemma trap_handler_by_code:
  assumes "TRAP_IS_INTERRUPT c"
  shows "trap_handler icall c s =
    (if TRAP_CAUSE_CODE c = 11 then isr_result 0 (external_interrupt icall s)
     else if TRAP_CAUSE_CODE c = 7 then isr_result 0 (run_isr icall (time_int_handler (pISR_BASE s)) s)
     else if TRAP_CAUSE_CODE c = 3 then isr_result 0 (run_isr icall (sw_int_handler (pISR_BASE s)) s)
     else if TRAP_CAUSE_CODE c \<in> {0, 4, 8, 12} then Done 0 s else Exited CODE_FATAL s)"
proof -
  have "c = TRAP_INT_BIT OR k \<longleftrightarrow> TRAP_CAUSE_CODE c = k" if "k \<in> {0, 3, 4, 7, 8, 11, 12}" for k
    using that by (intro interrupt_cause(2) [OF assms]) (auto simp: TRAP_INT_BIT_def)
  from this [of 0] this [of 3] this [of 4] this [of 7] this [of 8] this [of 11] this [of 12] show ?thesis
    using interrupt_cause(1) [OF assms] by (auto simp: trap_handler_def old_timer_or_soft_def)
qed

text \<open>C9: What the exception layer changes for interrupts, on all 2^32 values of \<open>mcause\<close>. A machine
  external interrupt, and a timer or software interrupt whose handler is installed, has the same outcome under
  \<open>trap_dispatch\<close> and under the older \<open>trap_handler\<close>: the same handler run on the same state, the
  same completion, the same exit. A timer or software interrupt without a handler is resumed by
  \<open>trap_dispatch\<close>, where \<open>trap_handler\<close> calls through the null pointer. Every other interrupt is
  resumed by \<open>trap_dispatch\<close>, while \<open>trap_handler\<close> resumes the codes 0, 4, 8 and 12 and ends the
  run with \<open>CODE_FATAL\<close> for all the rest. On an exception \<open>trap_handler\<close> always ends the run with
  \<open>CODE_FATAL\<close>, where \<open>trap_dispatch\<close> goes to the exception layer.\<close>

theorem dispatch_agreement:
  "let code = TRAP_CAUSE_CODE c; new = trap_dispatch ecall icall c f s; old = trap_handler icall c s
   in if \<not> TRAP_IS_INTERRUPT c then old = Exited CODE_FATAL s \<and> new = handle_exception ecall c f s
      else if code = IRQ_M_EXT then seen new = seen old \<and> new = isr_result f (external_interrupt icall s)
      else if code = IRQ_M_TIMER
      then (if time_int_handler (pISR_BASE s) = Null then new = Done f s \<and> old = Undefined
            else seen new = seen old \<and> new = isr_result f (run_isr icall (time_int_handler (pISR_BASE s)) s))
      else if code = IRQ_M_SOFT
      then (if sw_int_handler (pISR_BASE s) = Null then new = Done f s \<and> old = Undefined
            else seen new = seen old \<and> new = isr_result f (run_isr icall (sw_int_handler (pISR_BASE s)) s))
      else new = Done f s \<and> old = (if code \<in> {0, 4, 8, 12} then Done 0 s else Exited CODE_FATAL s)"
proof (cases "TRAP_IS_INTERRUPT c")
  case False
  then show ?thesis
    by (simp add: Let_def trap_dispatch_def not_interrupt_code) (simp add: trap_handler_def TRAP_IS_INTERRUPT_def)
next
  case True
  consider "TRAP_CAUSE_CODE c = 11" | "TRAP_CAUSE_CODE c = 7" | "TRAP_CAUSE_CODE c = 3"
    | (o) "TRAP_CAUSE_CODE c \<noteq> 11" "TRAP_CAUSE_CODE c \<noteq> 7" "TRAP_CAUSE_CODE c \<noteq> 3" by blast
  then show ?thesis
    using True
    by cases (simp_all add: Let_def trap_dispatch_def trap_handler_by_code isr_result_seen isr_result_plain
        IRQ_M_EXT_def IRQ_M_TIMER_def IRQ_M_SOFT_def)
qed

text \<open>A spurious claim is not handled. After \<open>init_extint_handler\<close>, which fills the table from
  source 1, a claim of 0 (the PLIC's answer when no source is pending any more) makes both
  dispatchers call through the null pointer in slot 0, unless a client registered source 0.\<close>

theorem spurious_claim_undefined:
  fixes s :: "'w cpu"
  assumes "length (ext_int_handler (pISR_BASE s)) = PLIC_NUMBER_OF_INTERRUPTS + 1"
    and "ext_int_handler (pISR_BASE s) ! 0 = Null"
  defines "t \<equiv> put_plic (\<lambda>p. p\<lparr>plic_claim := 0\<rparr>) (init_extint_handler s)"
  shows "trap_dispatch ecall icall (TRAP_INT_BIT OR IRQ_M_EXT) f t = Undefined
    \<and> trap_handler icall (TRAP_INT_BIT OR IRQ_M_EXT) t = Undefined"
proof -
  have "external_interrupt icall t = None"
    using assms(1,2) init_extint_handler_state(6) [of 0 s]
    by (simp add: external_interrupt_def t_def run_isr_def)
  moreover have "TRAP_IS_INTERRUPT (TRAP_INT_BIT OR IRQ_M_EXT)" "TRAP_CAUSE_CODE (TRAP_INT_BIT OR IRQ_M_EXT) = IRQ_M_EXT"
    "(TRAP_INT_BIT OR IRQ_M_EXT) AND TRAP_INT_BIT \<noteq> 0" "TRAP_INT_BIT OR IRQ_M_EXT = TRAP_INT_BIT OR 11"
    by (simp_all add: TRAP_IS_INTERRUPT_def TRAP_CAUSE_CODE_def TRAP_INT_BIT_def IRQ_M_EXT_def)
  ultimately show ?thesis by (simp add: trap_dispatch_def trap_handler_def isr_result_def)
qed

theorem spurious_claim_undefined_witness:
  "trap_dispatch no_exc no_isr (TRAP_INT_BIT OR IRQ_M_EXT) \<lparr>mepc = 0, tf_x = []\<rparr>
     (put_plic (\<lambda>p. p\<lparr>plic_claim := 0\<rparr>) (init_extint_handler cpu_reset)) = Undefined
   \<and> trap_handler no_isr (TRAP_INT_BIT OR IRQ_M_EXT)
     (put_plic (\<lambda>p. p\<lparr>plic_claim := 0\<rparr>) (init_extint_handler cpu_reset)) = Undefined"
  by (rule spurious_claim_undefined)
    (simp_all add: cpu_reset_def exceptions_init_def PLIC_NUMBER_OF_INTERRUPTS_def)

end
