(* ===== verification/Timing_Model.thy ===== *)
theory Timing_Model
  imports Platform_Prelude
begin

text \<open>
  vp/spike/timing_model.h: the cycle-approximate timing model of the virtual platform. Instruction
  classification and operand decoding are bit functions on the 32-bit fetch word; the data cache is
  a 64-set, 8-way array with age counters; the model proper keeps the previous instruction and the
  statistics. Counters wrap at their width.
\<close>

section \<open>rvclass: classification\<close>

definition OP_LOAD :: u32 where "OP_LOAD = 0x03"
definition OP_STORE :: u32 where "OP_STORE = 0x23"
definition OP_BRANCH :: u32 where "OP_BRANCH = 0x63"
definition OP_JAL :: u32 where "OP_JAL = 0x6F"
definition OP_JALR :: u32 where "OP_JALR = 0x67"
definition OP_OP :: u32 where "OP_OP = 0x33"
definition OP_OPIMM :: u32 where "OP_OPIMM = 0x13"
definition OP_SYSTEM :: u32 where "OP_SYSTEM = 0x73"
definition OP_AMO :: u32 where "OP_AMO = 0x2F"

lemmas opcodes = OP_LOAD_def OP_STORE_def OP_BRANCH_def OP_JAL_def OP_JALR_def OP_OP_def
  OP_OPIMM_def OP_SYSTEM_def OP_AMO_def

definition is_compressed :: "u32 \<Rightarrow> bool" where
  "is_compressed insn \<longleftrightarrow> insn AND 3 \<noteq> 3"

definition insn_len :: "u32 \<Rightarrow> u32" where
  "insn_len insn = (if is_compressed insn then 2 else 4)"

definition c_funct3 :: "u32 \<Rightarrow> u32" where "c_funct3 i = drop_bit 13 i AND 7"
definition c_rs1c :: "u32 \<Rightarrow> u32" where "c_rs1c i = 8 + (drop_bit 7 i AND 7)"
definition c_rs2c :: "u32 \<Rightarrow> u32" where "c_rs2c i = 8 + (drop_bit 2 i AND 7)"
definition c_rd :: "u32 \<Rightarrow> u32" where "c_rd i = drop_bit 7 i AND 0x1F"
definition c_rs2 :: "u32 \<Rightarrow> u32" where "c_rs2 i = drop_bit 2 i AND 0x1F"

definition is_load :: "u32 \<Rightarrow> bool" where
  "is_load insn =
     (if \<not> is_compressed insn then insn AND 0x7F = OP_LOAD
      else let q = insn AND 3; f3 = c_funct3 insn in (q = 0 \<and> f3 = 2) \<or> (q = 2 \<and> f3 = 2))"

definition is_store :: "u32 \<Rightarrow> bool" where
  "is_store insn =
     (if \<not> is_compressed insn then insn AND 0x7F = OP_STORE
      else let q = insn AND 3; f3 = c_funct3 insn in (q = 0 \<and> f3 = 6) \<or> (q = 2 \<and> f3 = 6))"

definition is_amo :: "u32 \<Rightarrow> bool" where
  "is_amo insn \<longleftrightarrow> \<not> is_compressed insn \<and> insn AND 0x7F = OP_AMO"

definition is_branch :: "u32 \<Rightarrow> bool" where
  "is_branch insn =
     (if \<not> is_compressed insn then insn AND 0x7F = OP_BRANCH
      else let q = insn AND 3; f3 = c_funct3 insn in q = 1 \<and> (f3 = 6 \<or> f3 = 7))"

definition is_jump :: "u32 \<Rightarrow> bool" where
  "is_jump insn =
     (if \<not> is_compressed insn then let op = insn AND 0x7F in op = OP_JAL \<or> op = OP_JALR
      else let q = insn AND 3; f3 = c_funct3 insn in
        if q = 1 \<and> (f3 = 1 \<or> f3 = 5) then True
        else if q = 2 \<and> f3 = 4 \<and> c_rs2 insn = 0 \<and> c_rd insn \<noteq> 0 then True
        else False)"

definition is_system :: "u32 \<Rightarrow> bool" where
  "is_system insn \<longleftrightarrow> \<not> is_compressed insn \<and> insn AND 0x7F = OP_SYSTEM"

definition is_muldiv :: "u32 \<Rightarrow> bool" where
  "is_muldiv insn =
     (if is_compressed insn then False
      else let op = insn AND 0x7F; funct7 = drop_bit 25 insn AND 0x7F in op = OP_OP \<and> funct7 = 1)"

definition is_div :: "u32 \<Rightarrow> bool" where
  "is_div insn \<longleftrightarrow> is_muldiv insn \<and> 4 \<le> drop_bit 12 insn AND 7"

definition is_mul :: "u32 \<Rightarrow> bool" where
  "is_mul insn \<longleftrightarrow> is_muldiv insn \<and> drop_bit 12 insn AND 7 < 4"

section \<open>rvclass: operands\<close>

definition dest_reg :: "u32 \<Rightarrow> u32" where
  "dest_reg insn =
     (if \<not> is_compressed insn
      then let op = insn AND 0x7F in
        if op = OP_LOAD \<or> op = OP_OP \<or> op = OP_OPIMM \<or> op = OP_JAL \<or> op = OP_JALR
           \<or> op = OP_AMO \<or> op = 0x37 \<or> op = 0x17 \<or> op = OP_SYSTEM
        then drop_bit 7 insn AND 0x1F else 0
      else let q = insn AND 3; f3 = c_funct3 insn in
        if q = 0 \<and> f3 = 2 then c_rs2c insn
        else if q = 2 \<and> f3 = 2 then c_rd insn
        else if q = 1 \<and> (f3 = 0 \<or> f3 = 2 \<or> f3 = 3) then c_rd insn
        else if q = 1 \<and> f3 = 4 then c_rs1c insn
        else if q = 2 \<and> (f3 = 0 \<or> f3 = 4) then c_rd insn
        else 0)"

text \<open>The pair \<open>(rs1, rs2)\<close>, 0 for an empty slot.\<close>

definition src_regs :: "u32 \<Rightarrow> u32 \<times> u32" where
  "src_regs insn =
     (if \<not> is_compressed insn
      then let op = insn AND 0x7F; f3 = drop_bit 12 insn AND 7;
               rs1 = drop_bit 15 insn AND 0x1F; rs2 = drop_bit 20 insn AND 0x1F in
        if op = OP_OP \<or> op = OP_STORE \<or> op = OP_BRANCH \<or> op = OP_AMO then (rs1, rs2)
        else if op = OP_OPIMM \<or> op = OP_LOAD \<or> op = OP_JALR then (rs1, 0)
        else if op = OP_SYSTEM then (if 1 \<le> f3 \<and> f3 \<le> 3 then (rs1, 0) else (0, 0))
        else (0, 0)
      else let q = insn AND 3; f3 = c_funct3 insn in
        if q = 0
        then (if f3 = 0 then (2, 0)
              else if f3 = 2 then (c_rs1c insn, 0)
              else if f3 = 6 then (c_rs1c insn, c_rs2c insn)
              else (0, 0))
        else if q = 1
        then (if f3 = 0 then (c_rd insn, 0)
              else if f3 = 3 \<and> c_rd insn = 2 then (2, 0)
              else if f3 = 4 then (c_rs1c insn, if drop_bit 10 insn AND 3 = 3 then c_rs2c insn else 0)
              else if f3 = 6 \<or> f3 = 7 then (c_rs1c insn, 0)
              else (0, 0))
        else if q = 2
        then (if f3 = 0 then (c_rd insn, 0)
              else if f3 = 2 then (2, 0)
              else if f3 = 4
              then let rs2 = c_rs2 insn; rd = c_rd insn; b12 = drop_bit 12 insn AND 1 in
                if rs2 \<noteq> 0 then (rs2, if b12 \<noteq> 0 \<and> rd \<noteq> 0 then rd else 0)
                else if rd \<noteq> 0 then (rd, 0) else (0, 0)
              else if f3 = 6 then (2, c_rs2 insn)
              else (0, 0))
        else (0, 0))"

definition uses_reg :: "u32 \<Rightarrow> u32 \<Rightarrow> bool" where
  "uses_reg insn r =
     (if r = 0 then False else let (rs1, rs2) = src_regs insn in rs1 = r \<or> rs2 = r)"

record mem_ref_t =
  ref_valid :: bool
  ref_base :: u32
  ref_offset :: u32

text \<open>Offsets are \<open>int32_t\<close>, kept as the word; \<open>>>\<close> on them is arithmetic.\<close>

definition mem_ref :: "u32 \<Rightarrow> mem_ref_t" where
  "mem_ref insn =
     (if \<not> is_compressed insn
      then let op = insn AND 0x7F in
        if op = OP_LOAD \<or> op = OP_JALR
        then \<lparr>ref_valid = (op = OP_LOAD), ref_base = drop_bit 15 insn AND 0x1F,
              ref_offset = signed_drop_bit 20 insn\<rparr>
        else if op = OP_STORE
        then let off = push_bit 5 (drop_bit 25 insn) OR (drop_bit 7 insn AND 0x1F) in
          \<lparr>ref_valid = True, ref_base = drop_bit 15 insn AND 0x1F,
           ref_offset = signed_drop_bit 20 (push_bit 20 off)\<rparr>
        else if op = OP_AMO
        then \<lparr>ref_valid = True, ref_base = drop_bit 15 insn AND 0x1F, ref_offset = 0\<rparr>
        else \<lparr>ref_valid = False, ref_base = 0, ref_offset = 0\<rparr>
      else let q = insn AND 3; f3 = c_funct3 insn in
        if q = 0 \<and> (f3 = 2 \<or> f3 = 6)
        then \<lparr>ref_valid = True, ref_base = c_rs1c insn,
              ref_offset = push_bit 2 (drop_bit 6 insn AND 1) OR push_bit 3 (drop_bit 10 insn AND 7)
                OR push_bit 6 (drop_bit 5 insn AND 1)\<rparr>
        else if q = 2 \<and> f3 = 2
        then \<lparr>ref_valid = True, ref_base = 2,
              ref_offset = push_bit 2 (drop_bit 4 insn AND 7) OR push_bit 5 (drop_bit 12 insn AND 1)
                OR push_bit 6 (drop_bit 2 insn AND 3)\<rparr>
        else if q = 2 \<and> f3 = 6
        then \<lparr>ref_valid = True, ref_base = 2,
              ref_offset = push_bit 2 (drop_bit 9 insn AND 0xF) OR push_bit 6 (drop_bit 7 insn AND 3)\<rparr>
        else \<lparr>ref_valid = False, ref_base = 0, ref_offset = 0\<rparr>)"

section \<open>The data cache\<close>

definition SETS :: nat where "SETS = 64"
definition WAYS :: nat where "WAYS = 8"
definition LINE_SHIFT :: nat where "LINE_SHIFT = 6"

record dcache =
  dc_tag :: "nat \<Rightarrow> nat \<Rightarrow> u64"
  dc_age :: "nat \<Rightarrow> nat \<Rightarrow> u32"
  dc_clk :: u32
  dc_valid :: "nat \<Rightarrow> nat \<Rightarrow> bool"

definition upd2 :: "nat \<Rightarrow> nat \<Rightarrow> 'a \<Rightarrow> (nat \<Rightarrow> nat \<Rightarrow> 'a) \<Rightarrow> nat \<Rightarrow> nat \<Rightarrow> 'a" where
  "upd2 i j x f = f(i := (f i)(j := x))"

fun find_way :: "(nat \<Rightarrow> bool) \<Rightarrow> nat list \<Rightarrow> nat option" where
  "find_way p [] = None"
| "find_way p (w # ws) = (if p w then Some w else find_way p ws)"

text \<open>The victim scan: the first invalid way ends it, otherwise the oldest way wins.\<close>

fun victim_loop :: "(nat \<Rightarrow> bool) \<Rightarrow> (nat \<Rightarrow> u32) \<Rightarrow> nat list \<Rightarrow> nat \<Rightarrow> nat" where
  "victim_loop ok age [] victim = victim"
| "victim_loop ok age (w # ws) victim =
     (if \<not> ok w then w else victim_loop ok age ws (if age w < age victim then w else victim))"

definition dcache_access :: "u64 \<Rightarrow> dcache \<Rightarrow> bool \<times> dcache" where
  "dcache_access addr c =
     (let line = drop_bit LINE_SHIFT addr;
          st = unat (line mod of_nat SETS);
          t = line div of_nat SETS;
          c = c\<lparr>dc_clk := dc_clk c + 1\<rparr>
      in case find_way (\<lambda>w. dc_valid c st w \<and> dc_tag c st w = t) [0..<WAYS] of
           Some w \<Rightarrow> (True, c\<lparr>dc_age := upd2 st w (dc_clk c) (dc_age c)\<rparr>)
         | None \<Rightarrow>
             let victim = victim_loop (dc_valid c st) (dc_age c st) [0..<WAYS] 0
             in (False, c\<lparr>dc_valid := upd2 st victim True (dc_valid c), dc_tag := upd2 st victim t (dc_tag c),
                          dc_age := upd2 st victim (dc_clk c) (dc_age c)\<rparr>))"

definition dcache_reset :: "dcache \<Rightarrow> dcache" where
  "dcache_reset c = c\<lparr>dc_valid := (\<lambda>_ _. False), dc_clk := 0\<rparr>"

section \<open>The timing model\<close>

record insn_ctx =
  ctx_insn :: u32
  ctx_pc :: u64
  ctx_next_pc :: u64
  ctx_mem_addr :: "u64 option"

record timing_params =
  tp_base :: u32
  load_use_pen :: u32
  br_taken_pen :: u32
  jump_pen :: u32
  muldiv_use_pen :: u32
  mul_pen :: u32
  div_pen :: u32
  amo_pen :: u32
  system_pen :: u32
  tcm_pen :: u32
  sram_pen :: u32
  clint_pen :: u32
  periph_pen :: u32
  dram_hit_pen :: u32
  dram_miss_pen :: u32
  mem_flat_pen :: u32
  trap_pen :: u32

definition default_params :: timing_params where
  "default_params = \<lparr>tp_base = 1, load_use_pen = 1, br_taken_pen = 1, jump_pen = 1, muldiv_use_pen = 0,
     mul_pen = 5, div_pen = 33, amo_pen = 2, system_pen = 2, tcm_pen = 0, sram_pen = 2, clint_pen = 19,
     periph_pen = 19, dram_hit_pen = 0, dram_miss_pen = 27, mem_flat_pen = 1, trap_pen = 4\<rparr>"

record timing_model =
  tm_p :: timing_params
  tm_total :: u64
  tm_dcache :: dcache
  tm_phase :: int
  prev_valid :: bool
  prev_load :: bool
  prev_muldiv :: bool
  prev_rd :: u32
  n_insn :: u64
  n_load_use :: u64
  n_br_taken :: u64
  n_dmiss :: u64
  n_trap :: u64

definition mem_cost :: "u64 \<Rightarrow> timing_model \<Rightarrow> u32 \<times> timing_model" where
  "mem_cost addr m =
     (if 0x80000000 \<le> addr
      then let (hit, d) = dcache_access addr (tm_dcache m); m = m\<lparr>tm_dcache := d\<rparr> in
        if hit then (dram_hit_pen (tm_p m), m)
        else (dram_miss_pen (tm_p m), m\<lparr>n_dmiss := n_dmiss m + 1\<rparr>)
      else if 0x02000000 \<le> addr \<and> addr \<le> 0x02FFFFFF then (clint_pen (tm_p m), m)
      else if 0x08000000 \<le> addr \<and> addr \<le> 0x0FFFFFFF then (sram_pen (tm_p m), m)
      else if 0x10000000 \<le> addr \<and> addr \<le> 0x1FFFFFFF then (periph_pen (tm_p m), m)
      else (tcm_pen (tm_p m), m))"

definition cost_phase1 :: "timing_model \<Rightarrow> u32 \<Rightarrow> u32" where
  "cost_phase1 m insn =
     tp_base (tm_p m) +
     (if is_load insn then 1 else if is_store insn then 1 else if is_amo insn then 2
      else if is_branch insn then 1 else if is_jump insn then 1 else if is_system insn then 1
      else if is_muldiv insn then 3 else 0)"

definition cost :: "insn_ctx \<Rightarrow> timing_model \<Rightarrow> u32 \<times> timing_model" where
  "cost c m =
     (if tm_phase m = 1 then (cost_phase1 m (ctx_insn c), m)
      else let insn = ctx_insn c;
               cyc = tp_base (tm_p m);
               (cyc, m) = (if prev_valid m \<and> prev_load m \<and> uses_reg insn (prev_rd m)
                           then (cyc + load_use_pen (tm_p m), m\<lparr>n_load_use := n_load_use m + 1\<rparr>) else (cyc, m));
               cyc = (if prev_valid m \<and> prev_muldiv m \<and> uses_reg insn (prev_rd m)
                      then cyc + muldiv_use_pen (tm_p m) else cyc)
           in if is_load insn \<or> is_store insn \<or> is_amo insn
              then let (k, m) = (case ctx_mem_addr c of Some a \<Rightarrow> mem_cost a m | None \<Rightarrow> (mem_flat_pen (tm_p m), m));
                       cyc = cyc + k
                   in (if is_amo insn then cyc + amo_pen (tm_p m) else cyc, m)
              else if is_branch insn
              then (if ctx_next_pc c \<noteq> ctx_pc c + ucast (insn_len insn)
                    then (cyc + br_taken_pen (tm_p m), m\<lparr>n_br_taken := n_br_taken m + 1\<rparr>) else (cyc, m))
              else if is_jump insn then (cyc + jump_pen (tm_p m), m)
              else if is_div insn then (cyc + div_pen (tm_p m), m)
              else if is_mul insn then (cyc + mul_pen (tm_p m), m)
              else if is_system insn then (cyc + system_pen (tm_p m), m)
              else (cyc, m))"

definition account :: "insn_ctx \<Rightarrow> timing_model \<Rightarrow> u32 \<times> timing_model" where
  "account c m =
     (let (cyc, m) = cost c m;
          m = m\<lparr>tm_total := tm_total m + ucast cyc\<rparr>;
          m = m\<lparr>n_insn := n_insn m + 1\<rparr>;
          m = m\<lparr>prev_valid := True, prev_load := is_load (ctx_insn c), prev_muldiv := is_muldiv (ctx_insn c),
                prev_rd := dest_reg (ctx_insn c)\<rparr>
      in (cyc, m))"

definition account_insn :: "u32 \<Rightarrow> timing_model \<Rightarrow> u32 \<times> timing_model" where
  "account_insn insn m =
     account \<lparr>ctx_insn = insn, ctx_pc = 0, ctx_next_pc = ucast (insn_len insn), ctx_mem_addr = None\<rparr> m"

definition account_trap :: "timing_model \<Rightarrow> timing_model" where
  "account_trap m =
     (let m = m\<lparr>tm_total := tm_total m + ucast (trap_pen (tm_p m))\<rparr>; m = m\<lparr>n_trap := n_trap m + 1\<rparr>
      in m\<lparr>prev_valid := False\<rparr>)"

definition cycles :: "timing_model \<Rightarrow> u64" where
  "cycles m = tm_total m"

definition timing_reset :: "timing_model \<Rightarrow> timing_model" where
  "timing_reset m =
     m\<lparr>tm_total := 0, prev_valid := False, prev_load := False, prev_muldiv := False, prev_rd := 0,
       n_insn := 0, n_load_use := 0, n_br_taken := 0, n_dmiss := 0, n_trap := 0,
       tm_dcache := dcache_reset (tm_dcache m)\<rparr>"

section \<open>The cache keeps the eight most recent lines of each set\<close>

text \<open>The abstract set: the tags, most recently used first.\<close>

definition lru_access :: "u64 \<Rightarrow> u64 list \<Rightarrow> bool \<times> u64 list" where
  "lru_access t ts = (if t \<in> set ts then (True, t # removeAll t ts) else (False, t # take (WAYS - 1) ts))"

definition set_rel :: "u32 \<Rightarrow> (nat \<Rightarrow> bool) \<Rightarrow> (nat \<Rightarrow> u32) \<Rightarrow> (nat \<Rightarrow> u64) \<Rightarrow> u64 list \<Rightarrow> bool" where
  "set_rel clk ok age tag ts \<longleftrightarrow> (\<exists>L. distinct L \<and> set L = {w. w < WAYS \<and> ok w}
     \<and> sorted_wrt (\<lambda>a b. age b < age a) L \<and> (\<forall>w \<in> set L. age w \<le> clk)
     \<and> ts = map tag L \<and> distinct ts)"

lemma find_way_Some: "find_way p ws = Some w \<Longrightarrow> p w \<and> w \<in> set ws"
  by (induction ws) (auto split: if_splits)

lemma find_way_None: "find_way p ws = None \<Longrightarrow> w \<in> set ws \<Longrightarrow> \<not> p w"
  by (induction ws) (auto split: if_splits)

lemma victim_invalid:
  "\<exists>w \<in> set ws. \<not> ok w \<Longrightarrow> victim_loop ok age ws v \<in> set ws \<and> \<not> ok (victim_loop ok age ws v)"
  by (induction ws arbitrary: v) auto

lemma victim_oldest:
  "\<forall>w \<in> set ws. ok w \<Longrightarrow> victim_loop ok age ws v \<in> insert v (set ws)
     \<and> (\<forall>w \<in> insert v (set ws). age (victim_loop ok age ws v) \<le> age w)"
proof (induction ws arbitrary: v)
  case (Cons w ws)
  let ?v = "if age w < age v then w else v"
  have "age ?v \<le> age w" "age ?v \<le> age v" "?v = w \<or> ?v = v" by (auto simp: not_less)
  moreover have "victim_loop ok age ws ?v \<in> insert ?v (set ws)"
    "\<forall>u \<in> insert ?v (set ws). age (victim_loop ok age ws ?v) \<le> age u"
    using Cons by (simp_all only: list.set_intros ball_simps list.simps) simp_all
  ultimately show ?case using Cons.prems
    by (simp only: victim_loop.simps list.simps) (auto intro: order_trans)
qed simp

lemma set_rel_hit:
  assumes "set_rel clk ok age tag ts" "w < WAYS" "ok w" "tag w = t" "clk < clk'"
  shows "t \<in> set ts \<and> set_rel clk' ok (age(w := clk')) tag (t # removeAll t ts)"
proof -
  obtain L where L: "distinct L" "set L = {w. w < WAYS \<and> ok w}" "sorted_wrt (\<lambda>a b. age b < age a) L"
    "\<forall>w \<in> set L. age w \<le> clk" "ts = map tag L" "distinct ts"
    using assms(1) by (auto simp: set_rel_def)
  have w: "w \<in> set L" using assms L(2) by simp
  have inj: "inj_on tag (set L)" using L by (simp add: distinct_map)
  let ?L = "w # removeAll w L"
  have old: "age u < clk'" if "u \<in> set L" for u using L(4) that assms(5) by (meson le_less_trans)
  have "filter ((\<noteq>) w) L = filter (\<lambda>x. tag w \<noteq> tag x) L"
    by (rule filter_cong) (use inj w in \<open>auto simp: inj_on_def\<close>)
  then have "t # removeAll t ts = map tag ?L"
    using assms(4) by (auto simp: L(5) removeAll_filter_not_eq filter_map o_def)
  moreover have "sorted_wrt (\<lambda>a b. (age(w := clk')) b < (age(w := clk')) a) ?L"
    using L(3) old by (auto simp: removeAll_filter_not_eq intro!: sorted_wrt_mono_rel [OF _ sorted_wrt_filter [OF L(3)]])
  moreover have "\<forall>u \<in> set ?L. (age(w := clk')) u \<le> clk'" using old by (auto intro: less_imp_le)
  moreover have "set ?L = {w. w < WAYS \<and> ok w}" using L(2) w by auto
  moreover have "distinct ?L" using L(1) by (simp add: distinct_removeAll)
  moreover have "distinct (t # removeAll t ts)" using L(6) by (simp add: distinct_removeAll)
  ultimately have "set_rel clk' ok (age(w := clk')) tag (t # removeAll t ts)"
    unfolding set_rel_def by - (intro exI [of _ ?L] conjI; assumption)
  then show ?thesis using w assms(4) L(5) by auto
qed

lemma set_rel_miss:
  assumes rel: "set_rel clk ok age tag ts" and miss: "\<And>w. w < WAYS \<Longrightarrow> \<not> (ok w \<and> tag w = t)" and "clk < clk'"
  defines "v \<equiv> victim_loop ok age [0..<WAYS] 0"
  shows "t \<notin> set ts \<and> set_rel clk' (ok(v := True)) (age(v := clk')) (tag(v := t)) (t # take (WAYS - 1) ts)"
proof -
  obtain L where L: "distinct L" "set L = {w. w < WAYS \<and> ok w}" "sorted_wrt (\<lambda>a b. age b < age a) L"
    "\<forall>w \<in> set L. age w \<le> clk" "ts = map tag L" "distinct ts"
    using rel by (auto simp: set_rel_def)
  have t: "t \<notin> set ts" using L(2,5) miss by auto
  have old: "age u < clk'" if "u \<in> set L" for u using L(4) that assms(3) by (meson le_less_trans)
  have build: "set_rel clk' (ok(v := True)) (age(v := clk')) (tag(v := t)) (t # map tag K)"
    if K: "distinct K" "set K = {w. w < WAYS \<and> ok w} - {v}" "sorted_wrt (\<lambda>a b. age b < age a) K"
      "distinct (map tag K)" and v: "v < WAYS" for K
  proof -
    have KL: "set K \<subseteq> set L" "v \<notin> set K" using K(2) L(2) by auto
    have "t # map tag K = map (tag(v := t)) (v # K)" using KL by simp
    moreover have "sorted_wrt (\<lambda>a b. (age(v := clk')) b < (age(v := clk')) a) (v # K)"
      using K(3) KL old by (auto intro!: sorted_wrt_mono_rel [OF _ K(3)])
    moreover have "\<forall>u \<in> set (v # K). (age(v := clk')) u \<le> clk'" using old KL by (auto intro: less_imp_le)
    moreover have "set (v # K) = {w. w < WAYS \<and> (ok(v := True)) w}" using K(2) v by auto
    moreover have "distinct (t # map tag K)" using t K(4) KL L(5) by auto
    moreover have "distinct (v # K)" using K(1) KL by simp
    ultimately show ?thesis unfolding set_rel_def by - (intro exI [of _ "v # K"] conjI; assumption)
  qed
  have fin: "finite {w. w < WAYS \<and> ok w}" by simp
  show ?thesis
  proof (cases "\<exists>w < WAYS. \<not> ok w")
    case True
    then have "\<exists>w \<in> set [0..<WAYS]. \<not> ok w" by auto
    from victim_invalid [OF this, of age 0] have v: "v < WAYS" "\<not> ok v" by (auto simp: v_def)
    then have "{w. w < WAYS \<and> ok w} \<subset> {..<WAYS}" by auto
    from psubset_card_mono [OF _ this] have "card (set L) < WAYS" unfolding L(2) by simp
    then have "length L \<le> WAYS - 1" using L(1) by (simp add: distinct_card)
    then have "take (WAYS - 1) ts = map tag L" using L(5) by simp
    moreover have "set L = {w. w < WAYS \<and> ok w} - {v}" using v L(2) by auto
    ultimately have "set L = {w. w < WAYS \<and> ok w} - {v}" "take (WAYS - 1) ts = map tag L" by simp_all
    moreover from this(1) L v(1) have "set_rel clk' (ok(v := True)) (age(v := clk')) (tag(v := t)) (t # map tag L)"
      by (intro build) simp_all
    ultimately show ?thesis using t by simp
  next
    case False
    then have all: "{w. w < WAYS \<and> ok w} = {..<WAYS}" by auto
    with L(1,2) have len: "length L = WAYS" using distinct_card by fastforce
    have v: "v \<in> set [0..<WAYS]" "\<forall>w \<in> set [0..<WAYS]. age v \<le> age w"
      using victim_oldest [of "[0..<WAYS]" ok age 0] False by (auto simp: v_def WAYS_def)
    have ne: "L \<noteq> []" using len by (auto simp: WAYS_def)
    then have bl: "L = butlast L @ [last L]" by simp
    have lastL: "last L \<in> set [0..<WAYS]" using ne L(2) last_in_set [OF ne] by auto
    have "v = last L"
    proof (rule ccontr)
      assume "v \<noteq> last L"
      then have "v \<in> set (butlast L)" using v(1) L(2) all bl
        by (metis (no_types, lifting) atLeastLessThan_upt Un_iff empty_iff in_set_conv_decomp lessThan_atLeast0 list.set(1) set_append set_ConsD)
      moreover have "sorted_wrt (\<lambda>a b. age b < age a) (butlast L @ [last L])" using L(3) bl by simp
      ultimately have "age (last L) < age v" by (simp add: sorted_wrt_append)
      with v(2) lastL show False by fastforce
    qed
    moreover have "take (WAYS - 1) ts = map tag (butlast L)"
      using len L(5) by (simp add: butlast_conv_take take_map)
    moreover have "set (butlast L) = set L - {last L}"
      using bl L(1) by (metis Diff_insert_absorb distinct.simps(2) distinct_rev insert_Diff1 list.simps(15) rev.simps(2) rev_swap set_rev)
    moreover have "distinct (butlast ts)" using L(6) by (rule distinct_butlast)
    then have "distinct (map tag (butlast L))" by (simp add: L(5) map_butlast)
    moreover have "distinct (butlast L)" "sorted_wrt (\<lambda>a b. age b < age a) (butlast L)"
      using L by (simp_all add: distinct_butlast butlast_conv_take sorted_wrt_take)
    ultimately have K: "v = last L" "take (WAYS - 1) ts = map tag (butlast L)" "set (butlast L) = set L - {last L}"
      "distinct (butlast L)" "sorted_wrt (\<lambda>a b. age b < age a) (butlast L)" "distinct (map tag (butlast L))"
      by simp_all
    have "set_rel clk' (ok(v := True)) (age(v := clk')) (tag(v := t)) (t # map tag (butlast L))"
      using K v(1) L(2) by (intro build) simp_all
    then show ?thesis using t K(2) by simp
  qed
qed
definition line_set :: "u64 \<Rightarrow> nat" where
  "line_set addr = unat (drop_bit LINE_SHIFT addr mod of_nat SETS)"

definition line_tag :: "u64 \<Rightarrow> u64" where
  "line_tag addr = drop_bit LINE_SHIFT addr div of_nat SETS"

definition cache_rel :: "dcache \<Rightarrow> (nat \<Rightarrow> u64 list) \<Rightarrow> bool" where
  "cache_rel c a \<longleftrightarrow> (\<forall>st. set_rel (dc_clk c) (dc_valid c st) (dc_age c st) (dc_tag c st) (a st))"

definition lru_cache_access :: "u64 \<Rightarrow> (nat \<Rightarrow> u64 list) \<Rightarrow> bool \<times> (nat \<Rightarrow> u64 list)" where
  "lru_cache_access addr a =
     (let (hit, ts) = lru_access (line_tag addr) (a (line_set addr)) in (hit, a(line_set addr := ts)))"

lemma set_rel_clk: "set_rel clk ok age tag ts \<Longrightarrow> clk \<le> clk' \<Longrightarrow> set_rel clk' ok age tag ts"
proof -
  assume "set_rel clk ok age tag ts" and le: "clk \<le> clk'"
  then obtain L where "distinct L" "set L = {w. w < WAYS \<and> ok w}" "sorted_wrt (\<lambda>a b. age b < age a) L"
    "\<forall>w \<in> set L. age w \<le> clk" "ts = map tag L" "distinct ts" by (auto simp: set_rel_def)
  moreover from this(4) le have "\<forall>w \<in> set L. age w \<le> clk'" by auto
  ultimately show ?thesis unfolding set_rel_def by blast
qed

lemma dcache_access_refines:
  assumes rel: "cache_rel c a" and clk: "dc_clk c < - 1"
  shows "\<exists>c'. dcache_access addr c = (fst (lru_cache_access addr a), c')
     \<and> cache_rel c' (snd (lru_cache_access addr a)) \<and> dc_clk c' = dc_clk c + 1"
proof -
  let ?s = "line_set addr" and ?t = "line_tag addr" and ?clk = "dc_clk c + 1"
  have lt: "dc_clk c < ?clk"
    using clk by (simp add: word_less_nat_alt unat_word_ariths unsigned_minus_1_eq_mask mask_eq_exp_minus_1)
  have rs: "set_rel (dc_clk c) (dc_valid c ?s) (dc_age c ?s) (dc_tag c ?s) (a ?s)"
    using rel by (simp add: cache_rel_def)
  have others: "set_rel ?clk (dc_valid c st) (dc_age c st) (dc_tag c st) (a st)" for st
    using rel lt by (auto simp: cache_rel_def intro: set_rel_clk)
  let ?f = "find_way (\<lambda>w. dc_valid c ?s w \<and> dc_tag c ?s w = ?t) [0..<WAYS]"
  show ?thesis
  proof (cases ?f)
    case (Some w)
    then have w: "dc_valid c ?s w" "dc_tag c ?s w = ?t" "w < WAYS" using find_way_Some by fastforce+
    from set_rel_hit [OF rs w(3,1,2) lt]
    have h: "?t \<in> set (a ?s)" "set_rel ?clk (dc_valid c ?s) ((dc_age c ?s)(w := ?clk)) (dc_tag c ?s)
        (?t # removeAll ?t (a ?s))" by simp_all
    have "dcache_access addr c = (True, c\<lparr>dc_clk := ?clk, dc_age := upd2 ?s w ?clk (dc_age c)\<rparr>)"
      using Some by (simp add: dcache_access_def line_set_def line_tag_def Let_def)
    then show ?thesis using h others
      by (auto simp: lru_cache_access_def lru_access_def cache_rel_def upd2_def)
  next
    case None
    let ?v = "victim_loop (dc_valid c ?s) (dc_age c ?s) [0..<WAYS] 0"
    have miss: "\<not> (dc_valid c ?s w \<and> dc_tag c ?s w = ?t)" if "w < WAYS" for w
      using find_way_None [OF None] that by simp
    from set_rel_miss [OF rs miss lt]
    have h: "?t \<notin> set (a ?s)" "set_rel ?clk ((dc_valid c ?s)(?v := True)) ((dc_age c ?s)(?v := ?clk))
        ((dc_tag c ?s)(?v := ?t)) (?t # take (WAYS - 1) (a ?s))" by simp_all
    have "dcache_access addr c = (False, c\<lparr>dc_clk := ?clk, dc_valid := upd2 ?s ?v True (dc_valid c),
        dc_tag := upd2 ?s ?v ?t (dc_tag c), dc_age := upd2 ?s ?v ?clk (dc_age c)\<rparr>)"
      using None by (simp add: dcache_access_def line_set_def line_tag_def Let_def)
    then show ?thesis using h others
      by (auto simp: lru_cache_access_def lru_access_def cache_rel_def upd2_def)
  qed
qed

fun run_accesses :: "u64 list \<Rightarrow> dcache \<Rightarrow> bool list" where
  "run_accesses [] c = []"
| "run_accesses (a # as) c = (let (hit, c) = dcache_access a c in hit # run_accesses as c)"

fun run_lru :: "u64 list \<Rightarrow> (nat \<Rightarrow> u64 list) \<Rightarrow> bool list" where
  "run_lru [] a = []"
| "run_lru (x # xs) a = (let (hit, a) = lru_cache_access x a in hit # run_lru xs a)"

lemma run_accesses_refines:
  "cache_rel c a \<Longrightarrow> unat (dc_clk c) + length xs < 2 ^ 32 \<Longrightarrow> run_accesses xs c = run_lru xs a"
proof (induction xs arbitrary: c a)
  case (Cons x xs)
  have "unat (- 1 :: u32) = 2 ^ 32 - 1" by (simp add: unsigned_minus_1_eq_mask mask_eq_exp_minus_1)
  then have clk: "dc_clk c < - 1" using Cons.prems(2) by (simp add: word_less_nat_alt)
  from dcache_access_refines [OF Cons.prems(1) clk, of x] obtain c' where
    c': "dcache_access x c = (fst (lru_cache_access x a), c')" "cache_rel c' (snd (lru_cache_access x a))"
      "dc_clk c' = dc_clk c + 1" by blast
  have "unat (dc_clk c') + length xs < 2 ^ 32" using Cons.prems(2) c'(3) by (simp add: unat_word_ariths)
  from Cons.IH [OF c'(2) this] c'(1) show ?case by (simp add: split_beta)
qed simp

section \<open>Properties\<close>

text \<open>C10: The data cache is least-recently-used. From a reset cache with arbitrary old contents, for
  every sequence of fewer than \<open>2 ^ 32\<close> accesses (the age clock does not wrap), the hits and misses
  are those of the specification that keeps, per set, the eight most recently used distinct tags.\<close>

theorem dcache_is_lru:
  assumes "length xs < 2 ^ 32"
  shows "run_accesses xs (dcache_reset c) = run_lru xs (\<lambda>_. [])"
  by (rule run_accesses_refines) (use assms in \<open>simp_all add: cache_rel_def set_rel_def dcache_reset_def\<close>)

theorem dcache_is_lru_witness:
  "run_accesses [0x80000000, 0x80000004, 0x80001000, 0x80000000]
     (dcache_reset \<lparr>dc_tag = (\<lambda>_ _. 0), dc_age = (\<lambda>_ _. 7), dc_clk = 9, dc_valid = (\<lambda>_ _. True)\<rparr>) =
   run_lru [0x80000000, 0x80000004, 0x80001000, 0x80000000] (\<lambda>_. [])"
  by (rule dcache_is_lru) simp

text \<open>The instruction classes of the cost table exclude each other: no fetch word, compressed or
  not, is in two of load, store, atomic, branch, jump, multiply-divide and system; multiply and
  divide split the multiply-divide class; and the length is 2 or 4.\<close>

theorem instruction_classes_exclusive:
  "length (filter id [is_load i, is_store i, is_amo i, is_branch i, is_jump i, is_muldiv i, is_system i]) \<le> 1
   \<and> (is_muldiv i \<longleftrightarrow> is_mul i \<noteq> is_div i) \<and> \<not> (is_mul i \<and> is_div i)
   \<and> (insn_len i = 2 \<or> insn_len i = 4)"
proof -
  let ?l = "[is_load i, is_store i, is_amo i, is_branch i, is_jump i, is_muldiv i, is_system i]"
  have "length (filter id ?l) \<le> 1"
  proof (cases "is_compressed i")
    case False
    then show ?thesis
      by (auto simp: is_load_def is_store_def is_amo_def is_branch_def is_jump_def is_muldiv_def is_system_def
          opcodes Let_def)
  next
    case True
    then show ?thesis
      by (auto simp: is_load_def is_store_def is_amo_def is_branch_def is_jump_def is_muldiv_def is_system_def
          Let_def)
  qed
  then show ?thesis by (auto simp: is_mul_def is_div_def insn_len_def not_less)
qed

section \<open>Costs\<close>

text \<open>The part of the cost that does not look at the previous instruction.\<close>

definition region_cost :: "timing_params \<Rightarrow> dcache \<Rightarrow> u64 \<Rightarrow> u32" where
  "region_cost p d a =
     (if 0x80000000 \<le> a then (if fst (dcache_access a d) then dram_hit_pen p else dram_miss_pen p)
      else if 0x02000000 \<le> a \<and> a \<le> 0x02FFFFFF then clint_pen p
      else if 0x08000000 \<le> a \<and> a \<le> 0x0FFFFFFF then sram_pen p
      else if 0x10000000 \<le> a \<and> a \<le> 0x1FFFFFFF then periph_pen p else tcm_pen p)"

definition own_cost :: "insn_ctx \<Rightarrow> timing_params \<Rightarrow> dcache \<Rightarrow> u32" where
  "own_cost c p d =
     (let insn = ctx_insn c in
      if is_load insn \<or> is_store insn \<or> is_amo insn
      then (case ctx_mem_addr c of None \<Rightarrow> mem_flat_pen p | Some a \<Rightarrow> region_cost p d a)
        + (if is_amo insn then amo_pen p else 0)
      else if is_branch insn then (if ctx_next_pc c \<noteq> ctx_pc c + ucast (insn_len insn) then br_taken_pen p else 0)
      else if is_jump insn then jump_pen p
      else if is_div insn then div_pen p
      else if is_mul insn then mul_pen p
      else if is_system insn then system_pen p else 0)"

lemma mem_cost_fst: "fst (mem_cost a m) = region_cost (tm_p m) (tm_dcache m) a"
  by (simp add: mem_cost_def region_cost_def Let_def split: prod.split)

lemma mem_cost_frame:
  "tm_p (snd (mem_cost a m)) = tm_p m \<and> tm_total (snd (mem_cost a m)) = tm_total m
   \<and> n_insn (snd (mem_cost a m)) = n_insn m \<and> tm_phase (snd (mem_cost a m)) = tm_phase m"
  by (simp add: mem_cost_def Let_def split: prod.split)

lemma cost_split:
  assumes "tm_phase m \<noteq> 1"
  shows "fst (cost c m) = tp_base (tm_p m)
    + (if prev_valid m \<and> prev_load m \<and> uses_reg (ctx_insn c) (prev_rd m) then load_use_pen (tm_p m) else 0)
    + (if prev_valid m \<and> prev_muldiv m \<and> uses_reg (ctx_insn c) (prev_rd m) then muldiv_use_pen (tm_p m) else 0)
    + own_cost c (tm_p m) (tm_dcache m)"
proof (cases "is_load (ctx_insn c) \<or> is_store (ctx_insn c) \<or> is_amo (ctx_insn c)")
  case True
  show ?thesis
  proof (cases "ctx_mem_addr c")
    case None
    then show ?thesis using True assms by (simp add: cost_def own_cost_def Let_def)
  next
    case (Some a)
    then show ?thesis using True assms
      by (auto simp: cost_def own_cost_def Let_def split_beta mem_cost_fst mem_cost_frame)
  qed
next
  case False
  then show ?thesis using assms by (simp add: cost_def own_cost_def Let_def)
qed

lemma cost_frame:
  "tm_p (snd (cost c m)) = tm_p m \<and> tm_total (snd (cost c m)) = tm_total m
   \<and> n_insn (snd (cost c m)) = n_insn m \<and> tm_phase (snd (cost c m)) = tm_phase m"
  by (simp add: cost_def Let_def split_beta mem_cost_frame split: option.split)

lemma own_cost_default: "unat (own_cost c default_params d) \<le> 33"
  by (auto simp: own_cost_def region_cost_def default_params_def Let_def split: option.split)

lemma cost_default:
  assumes "tm_p m = default_params"
  shows "1 \<le> unat (fst (cost c m)) \<and> unat (fst (cost c m)) \<le> 35"
proof (cases "tm_phase m = 1")
  case True
  with assms show ?thesis by (simp add: cost_def cost_phase1_def default_params_def)
next
  case False
  obtain k where k: "fst (cost c m) = k + own_cost c (tm_p m) (tm_dcache m)" "k = 1 \<or> k = 2"
    using cost_split [OF False, of c] assms by (simp add: default_params_def)
  with own_cost_default [of c "tm_dcache m"] assms show ?thesis
    by (auto simp: unat_word_ariths)
qed

lemma account_default:
  assumes "tm_p m = default_params" "account c m = (k, m')"
  shows "1 \<le> unat k \<and> unat k \<le> 35 \<and> tm_p m' = default_params \<and> tm_total m' = tm_total m + ucast k
     \<and> n_insn m' = n_insn m + 1"
  using assms cost_default [OF assms(1), of c] cost_frame [of c m]
  by (auto simp: account_def Let_def split_beta)

text \<open>An execution: the costs of its instructions and the model after it.\<close>

fun account_run :: "insn_ctx list \<Rightarrow> timing_model \<Rightarrow> u32 list \<times> timing_model" where
  "account_run [] m = ([], m)"
| "account_run (c # cs) m =
     (let (k, m) = account c m; (ks, m) = account_run cs m in (k # ks, m))"

lemma account_run_total:
  "tm_p m = default_params \<Longrightarrow> account_run cs m = (ks, m') \<Longrightarrow>
   length ks = length cs \<and> (\<forall>k \<in> set ks. 1 \<le> unat k \<and> unat k \<le> 35)
   \<and> tm_total m' = tm_total m + of_nat (sum_list (map unat ks)) \<and> n_insn m' = n_insn m + of_nat (length cs)"
proof (induction cs arbitrary: m ks m')
  case (Cons c cs)
  obtain k m1 where a: "account c m = (k, m1)" by (cases "account c m")
  obtain js m2 where r: "account_run cs m1 = (js, m2)" by (cases "account_run cs m1")
  have k: "1 \<le> unat k" "unat k \<le> 35" "tm_p m1 = default_params" "tm_total m1 = tm_total m + ucast k"
    "n_insn m1 = n_insn m + 1" using account_default [OF Cons.prems(1) a] by simp_all
  have "ks = k # js" "m' = m2" using Cons.prems(2) a r by simp_all
  moreover have "(ucast k :: u64) = of_nat (unat k)" by simp
  ultimately show ?case using Cons.IH [OF k(3) r] k by (simp add: algebra_simps)
qed simp

text \<open>C11: Cycle accounting. With the calibrated parameters, for every execution of fewer than
  \<open>2 ^ 58\<close> instructions from a reset model, in either phase: each instruction costs between 1 and 35
  cycles, the cycle counter is exactly the sum of the costs returned, the instruction counter is the
  number of instructions, and so the average cost lies between 1 and 35.\<close>

theorem cycle_accounting:
  assumes "tm_p m = default_params" "length cs < 2 ^ 58"
  shows "let (ks, m') = account_run cs (timing_reset m) in
    (\<forall>k \<in> set ks. 1 \<le> unat k \<and> unat k \<le> 35) \<and> length ks = length cs
    \<and> unat (cycles m') = sum_list (map unat ks) \<and> unat (n_insn m') = length cs
    \<and> unat (n_insn m') \<le> unat (cycles m') \<and> unat (cycles m') \<le> 35 * unat (n_insn m')"
proof -
  obtain ks m' where r: "account_run cs (timing_reset m) = (ks, m')" by (cases "account_run cs (timing_reset m)")
  have p: "tm_p (timing_reset m) = default_params" "tm_total (timing_reset m) = 0" "n_insn (timing_reset m) = 0"
    using assms(1) by (simp_all add: timing_reset_def)
  note t = account_run_total [OF p(1) r]
  have "(\<forall>k \<in> set js. 1 \<le> unat k \<and> unat k \<le> 35) \<Longrightarrow>
      length js \<le> sum_list (map unat js) \<and> sum_list (map unat js) \<le> 35 * length js" for js :: "u32 list"
    by (induction js) auto
  from this [of ks] t have s: "length cs \<le> sum_list (map unat ks)" "sum_list (map unat ks) \<le> 35 * length cs" by auto
  with assms(2) have "sum_list (map unat ks) < 2 ^ 64" "length cs < 2 ^ 64" by simp_all
  then have "unat (tm_total m') = sum_list (map unat ks)" "unat (n_insn m') = length cs"
    using t p by (simp_all add: unat_of_nat take_bit_nat_eq_self)
  then show ?thesis using t s r by (simp add: cycles_def)
qed

definition model_reset :: timing_model where
  "model_reset = \<lparr>tm_p = default_params, tm_total = 0,
     tm_dcache = \<lparr>dc_tag = (\<lambda>_ _. 0), dc_age = (\<lambda>_ _. 0), dc_clk = 0, dc_valid = (\<lambda>_ _. False)\<rparr>, tm_phase = 2,
     prev_valid = False, prev_load = False, prev_muldiv = False, prev_rd = 0,
     n_insn = 0, n_load_use = 0, n_br_taken = 0, n_dmiss = 0, n_trap = 0\<rparr>"

theorem cycle_accounting_witness:
  "let (ks, m') = account_run [\<lparr>ctx_insn = 0x13, ctx_pc = 0, ctx_next_pc = 4, ctx_mem_addr = None\<rparr>]
        (timing_reset model_reset) in
    (\<forall>k \<in> set ks. 1 \<le> unat k \<and> unat k \<le> 35)
    \<and> length ks = length [\<lparr>ctx_insn = 0x13, ctx_pc = 0, ctx_next_pc = 4, ctx_mem_addr = None\<rparr>]
    \<and> unat (cycles m') = sum_list (map unat ks)
    \<and> unat (n_insn m') = length [\<lparr>ctx_insn = 0x13, ctx_pc = 0, ctx_next_pc = 4, ctx_mem_addr = None\<rparr>]
    \<and> unat (n_insn m') \<le> unat (cycles m') \<and> unat (cycles m') \<le> 35 * unat (n_insn m')"
  by (rule cycle_accounting) (simp_all add: model_reset_def)

text \<open>The load-use interlock, as the controlled pairs measure it. After any instruction, the cost
  of the next one is what it would be with no predecessor (after a trap flushed the pipeline), plus
  the load-use penalty exactly when the predecessor was a load whose destination it reads, plus the
  multiply-divide penalty exactly when the predecessor was a multiply or divide whose destination it
  reads.\<close>

theorem load_use_interlock:
  assumes "account l m = (k, m1)" "tm_phase m \<noteq> 1"
  shows "fst (cost c m1) = fst (cost c (m1\<lparr>prev_valid := False\<rparr>))
    + (if is_load (ctx_insn l) \<and> uses_reg (ctx_insn c) (dest_reg (ctx_insn l)) then load_use_pen (tm_p m1) else 0)
    + (if is_muldiv (ctx_insn l) \<and> uses_reg (ctx_insn c) (dest_reg (ctx_insn l)) then muldiv_use_pen (tm_p m1) else 0)"
proof -
  have ph: "tm_phase m1 \<noteq> 1" and st: "prev_valid m1" "prev_load m1 = is_load (ctx_insn l)"
    "prev_muldiv m1 = is_muldiv (ctx_insn l)" "prev_rd m1 = dest_reg (ctx_insn l)"
    using assms cost_frame [of l m] by (auto simp: account_def Let_def split_beta)
  show ?thesis using ph st by (simp add: cost_split)
qed

theorem load_use_interlock_witness:
  "fst (cost \<lparr>ctx_insn = 0x00150593, ctx_pc = 4, ctx_next_pc = 8, ctx_mem_addr = None\<rparr>
      (snd (account \<lparr>ctx_insn = 0x00052503, ctx_pc = 0, ctx_next_pc = 4, ctx_mem_addr = None\<rparr> model_reset))) =
   fst (cost \<lparr>ctx_insn = 0x00150593, ctx_pc = 4, ctx_next_pc = 8, ctx_mem_addr = None\<rparr>
      ((snd (account \<lparr>ctx_insn = 0x00052503, ctx_pc = 0, ctx_next_pc = 4, ctx_mem_addr = None\<rparr> model_reset))\<lparr>prev_valid := False\<rparr>))
   + (if is_load (ctx_insn \<lparr>ctx_insn = 0x00052503, ctx_pc = 0, ctx_next_pc = 4, ctx_mem_addr = None\<rparr>)
        \<and> uses_reg (ctx_insn \<lparr>ctx_insn = 0x00150593, ctx_pc = 4, ctx_next_pc = 8, ctx_mem_addr = None\<rparr>)
            (dest_reg (ctx_insn \<lparr>ctx_insn = 0x00052503, ctx_pc = 0, ctx_next_pc = 4, ctx_mem_addr = None\<rparr>))
      then load_use_pen (tm_p (snd (account \<lparr>ctx_insn = 0x00052503, ctx_pc = 0, ctx_next_pc = 4, ctx_mem_addr = None\<rparr> model_reset))) else 0)
   + (if is_muldiv (ctx_insn \<lparr>ctx_insn = 0x00052503, ctx_pc = 0, ctx_next_pc = 4, ctx_mem_addr = None\<rparr>)
        \<and> uses_reg (ctx_insn \<lparr>ctx_insn = 0x00150593, ctx_pc = 4, ctx_next_pc = 8, ctx_mem_addr = None\<rparr>)
            (dest_reg (ctx_insn \<lparr>ctx_insn = 0x00052503, ctx_pc = 0, ctx_next_pc = 4, ctx_mem_addr = None\<rparr>))
      then muldiv_use_pen (tm_p (snd (account \<lparr>ctx_insn = 0x00052503, ctx_pc = 0, ctx_next_pc = 4, ctx_mem_addr = None\<rparr> model_reset))) else 0)"
  by (rule load_use_interlock [where k = "fst (account \<lparr>ctx_insn = 0x00052503, ctx_pc = 0, ctx_next_pc = 4, ctx_mem_addr = None\<rparr> model_reset)" and m = model_reset])
    (simp_all add: model_reset_def)

end
