(* ===== verification/Gdb_Rsp.thy ===== *)
theory Gdb_Rsp
  imports Printf
begin

text \<open>
  vp/spike/gdb_rsp.h: the GDB remote serial protocol server of the virtual platform. The processor
  and its memory (libriscv) are a parameter, a record of their operations on a machine state. The
  socket is the list of bytes still to be received and the list of bytes sent; how much a
  \<open>send\<close> accepts and whether a byte has arrived at a non-blocking poll are lists of the kernel's
  answers. Characters are Isabelle's; \<open>std::string\<close> is a character list, its NUL terminator is
  explicit where the code reads through \<open>c_str()\<close>.
\<close>

section \<open>Results\<close>

text \<open>\<open>Out_of_bounds\<close> is a read past a string; \<open>Still_running\<close> is a continue that has not stopped
  within the given number of instructions.\<close>

datatype 'a rsp = Ok 'a | Out_of_bounds | Still_running

section \<open>Hexadecimal\<close>

definition hexval :: "char \<Rightarrow> u32" where
  "hexval c =
     (let n = of_char c :: nat in
      if 48 \<le> n \<and> n \<le> 57 then of_nat (n - 48)
      else if 97 \<le> n \<and> n \<le> 102 then of_nat (n - 97 + 10)
      else if 65 \<le> n \<and> n \<le> 70 then of_nat (n - 65 + 10)
      else 0)"

definition byte_hex :: "u8 \<Rightarrow> string" where
  "byte_hex b = (let H = ''0123456789abcdef'' in [H ! unat (drop_bit 4 b), H ! unat (b AND 0xF)])"

definition hex_le :: "u64 \<Rightarrow> nat \<Rightarrow> string" where
  "hex_le v nbytes = concat (map (\<lambda>i. byte_hex (ucast (drop_bit (8 * i) v AND 0xFF))) [0..<nbytes])"

text \<open>\<open>s[i]\<close> on a C string: the terminator may be read, nothing after it.\<close>

definition c_at :: "string \<Rightarrow> nat \<Rightarrow> char option" where
  "c_at s i = (if i < length s then Some (s ! i) else if i = length s then Some (CHR 0x00) else None)"

definition hex_pair :: "char \<Rightarrow> char \<Rightarrow> u8" where
  "hex_pair h l = ucast (push_bit 4 (hexval h) OR hexval l)"

fun unhex_loop :: "string \<Rightarrow> nat list \<Rightarrow> u64 \<Rightarrow> u64 option" where
  "unhex_loop s [] v = Some v"
| "unhex_loop s (i # is) v =
     (case (c_at s (i * 2), c_at s (i * 2 + 1)) of
        (Some h, Some l) \<Rightarrow> unhex_loop s is (v OR push_bit (8 * i) (ucast (hex_pair h l)))
      | _ \<Rightarrow> None)"

definition unhex_le :: "string \<Rightarrow> nat \<Rightarrow> u64 option" where
  "unhex_le s nbytes = unhex_loop s [0..<nbytes] 0"

text \<open>The C library's conversions in base 16: white space, a sign, an optional prefix, digits, with
  saturation. The second component is the rest of the string.\<close>

definition is_space :: "char \<Rightarrow> bool" where
  "is_space c \<longleftrightarrow> c = CHR '' '' \<or> 9 \<le> (of_char c :: nat) \<and> (of_char c :: nat) \<le> 13"

definition is_xdigit :: "char \<Rightarrow> bool" where
  "is_xdigit c \<longleftrightarrow>
     (let n = of_char c :: nat in 48 \<le> n \<and> n \<le> 57 \<or> 97 \<le> n \<and> n \<le> 102 \<or> 65 \<le> n \<and> n \<le> 70)"

definition strto_prefix :: "string \<Rightarrow> string" where
  "strto_prefix s =
     (case s of z # x # d # r \<Rightarrow>
        if z = CHR ''0'' \<and> (x = CHR ''x'' \<or> x = CHR ''X'') \<and> is_xdigit d then d # r else s
      | _ \<Rightarrow> s)"

definition strto_sign :: "string \<Rightarrow> bool \<times> string" where
  "strto_sign s =
     (case s of [] \<Rightarrow> (False, [])
      | c # r \<Rightarrow> if c = CHR ''-'' then (True, r) else if c = CHR ''+'' then (False, r) else (False, s))"

text \<open>Sign, magnitude and rest; with no digit at all the rest is the whole string.\<close>

definition strto16 :: "string \<Rightarrow> bool \<times> nat \<times> string" where
  "strto16 s =
     (let t = dropWhile is_space s;
          (neg, t) = strto_sign t;
          t = strto_prefix t;
          ds = takeWhile is_xdigit t
      in if ds = [] then (False, 0, s)
         else (neg, foldl (\<lambda>v d. v * 16 + unat (hexval d)) 0 ds, dropWhile is_xdigit t))"

definition strtoull16 :: "string \<Rightarrow> u64 \<times> string" where
  "strtoull16 s =
     (let (neg, n, r) = strto16 s in
      (if 2 ^ 64 \<le> n then - 1 else if neg then - of_nat n else of_nat n, r))"

text \<open>\<open>(int)strtol(s, nullptr, 16)\<close>.\<close>

definition strtol16_int :: "string \<Rightarrow> int" where
  "strtol16_int s =
     (let (neg, n, r) = strto16 s;
          v = (if neg then - int n else int n);
          v = max (- (2 ^ 63)) (min (2 ^ 63 - 1) v)
      in signed_take_bit 31 v)"

definition parse_addr_len :: "string \<Rightarrow> (u64 \<times> u64) option" where
  "parse_addr_len s =
     (let (addr, e) = strtoull16 s in
      case e of c # r \<Rightarrow> if c = CHR '','' then Some (addr, fst (strtoull16 r)) else None | [] \<Rightarrow> None)"

section \<open>Target and server state\<close>

definition GDB_CSRS :: "(string \<times> int) list" where
  "GDB_CSRS = [(''mstatus'', 0x300), (''misa'', 0x301), (''mie'', 0x304), (''mtvec'', 0x305),
     (''mscratch'', 0x340), (''mepc'', 0x341), (''mcause'', 0x342), (''mtval'', 0x343),
     (''mip'', 0x344), (''mcycle'', 0xB00), (''minstret'', 0xB02), (''mhartid'', 0xF14)]"

definition GDB_XREG_NAMES :: "string list" where
  "GDB_XREG_NAMES = [''zero'', ''ra'', ''sp'', ''gp'', ''tp'', ''t0'', ''t1'', ''t2'', ''fp'', ''s1'', ''a0'', ''a1'', ''a2'',
     ''a3'', ''a4'', ''a5'', ''a6'', ''a7'', ''s2'', ''s3'', ''s4'', ''s5'', ''s6'', ''s7'', ''s8'', ''s9'', ''s10'', ''s11'',
     ''t3'', ''t4'', ''t5'', ''t6'']"

text \<open>The operations of \<open>processor_t\<close> and \<open>simif_t\<close> and the callbacks of the driver, on machine
  states \<open>'w\<close>. A CSR access that throws is \<open>None\<close>; \<open>t_host\<close> is whether \<open>addr_to_mem\<close> gives a
  pointer.\<close>

record 'w target =
  t_xpr :: "nat \<Rightarrow> 'w \<Rightarrow> u64"
  t_set_xpr :: "nat \<Rightarrow> u64 \<Rightarrow> 'w \<Rightarrow> 'w"
  t_pc :: "'w \<Rightarrow> u64"
  t_set_pc :: "u64 \<Rightarrow> 'w \<Rightarrow> 'w"
  t_get_csr :: "int \<Rightarrow> 'w \<Rightarrow> u64 option"
  t_put_csr :: "int \<Rightarrow> u64 \<Rightarrow> 'w \<Rightarrow> 'w option"
  t_host :: "u64 \<Rightarrow> bool"
  t_peek :: "u64 \<Rightarrow> 'w \<Rightarrow> u8"
  t_poke :: "u64 \<Rightarrow> u8 \<Rightarrow> 'w \<Rightarrow> 'w"
  t_mmio_load :: "u64 \<Rightarrow> 'w \<Rightarrow> (u8 \<times> 'w) option"
  t_mmio_store :: "u64 \<Rightarrow> u8 \<Rightarrow> 'w \<Rightarrow> 'w option"
  t_step :: "'w \<Rightarrow> 'w"
  t_done :: "'w \<Rightarrow> bool"
  t_exit :: "'w \<Rightarrow> int"

record 'w gdb =
  xlen :: nat
  reg_bytes :: nat
  target_xml :: string
  breakpoints :: "u64 set"
  conn_open :: bool
  conn_in :: string
  conn_out :: string
  conn_polls :: "bool list"
  conn_sends :: "nat list"
  no_ack :: bool
  exited :: bool
  entry_pc :: u64
  machine :: 'w

section \<open>Registers and memory\<close>

definition trunc_xlen :: "nat \<Rightarrow> u64 \<Rightarrow> u64" where
  "trunc_xlen xl v = (if 64 \<le> xl then v else v AND (push_bit xl 1 - 1))"

definition sext_xlen :: "nat \<Rightarrow> u64 \<Rightarrow> u64" where
  "sext_xlen xl v = (if 64 \<le> xl then v else scast (ucast v :: u32))"

definition get_pc :: "'w target \<Rightarrow> 'w gdb \<Rightarrow> u64" where
  "get_pc t g = trunc_xlen (xlen g) (t_pc t (machine g))"

definition read_reg :: "'w target \<Rightarrow> int \<Rightarrow> 'w gdb \<Rightarrow> u64" where
  "read_reg t n g =
     (if 0 \<le> n \<and> n < 32 then trunc_xlen (xlen g) (t_xpr t (nat n) (machine g))
      else if n = 32 then trunc_xlen (xlen g) (t_pc t (machine g))
      else let c = n - 33 in
        if 0 \<le> c \<and> c < int (length GDB_CSRS)
        then (case t_get_csr t (snd (GDB_CSRS ! nat c)) (machine g) of Some v \<Rightarrow> v | None \<Rightarrow> 0)
        else 0)"

definition write_reg :: "'w target \<Rightarrow> int \<Rightarrow> u64 \<Rightarrow> 'w gdb \<Rightarrow> 'w gdb" where
  "write_reg t n v g =
     (if 0 \<le> n \<and> n < 32 then g\<lparr>machine := t_set_xpr t (nat n) (sext_xlen (xlen g) v) (machine g)\<rparr>
      else if n = 32 then g\<lparr>machine := t_set_pc t (sext_xlen (xlen g) v) (machine g)\<rparr>
      else let c = n - 33 in
        if 0 \<le> c \<and> c < int (length GDB_CSRS)
        then (case t_put_csr t (snd (GDB_CSRS ! nat c)) v (machine g) of Some w \<Rightarrow> g\<lparr>machine := w\<rparr> | None \<Rightarrow> g)
        else g)"

definition nregs :: nat where
  "nregs = 33 + length GDB_CSRS"

text \<open>The bytes read, \<open>None\<close> at the first unmapped one.\<close>

fun mem_read :: "'w target \<Rightarrow> u64 \<Rightarrow> nat \<Rightarrow> 'w gdb \<Rightarrow> u8 list option \<times> 'w gdb" where
  "mem_read t addr 0 g = (Some [], g)"
| "mem_read t addr (Suc n) g =
     (if t_host t addr
      then let b = t_peek t addr (machine g); (r, g) = mem_read t (addr + 1) n g in (map_option ((#) b) r, g)
      else case t_mmio_load t addr (machine g) of
          Some (b, w) \<Rightarrow> let (r, g) = mem_read t (addr + 1) n (g\<lparr>machine := w\<rparr>) in (map_option ((#) b) r, g)
        | None \<Rightarrow> (None, g))"

fun mem_write :: "'w target \<Rightarrow> u64 \<Rightarrow> u8 list \<Rightarrow> 'w gdb \<Rightarrow> bool \<times> 'w gdb" where
  "mem_write t addr [] g = (True, g)"
| "mem_write t addr (b # bs) g =
     (if t_host t addr then mem_write t (addr + 1) bs (g\<lparr>machine := t_poke t addr b (machine g)\<rparr>)
      else case t_mmio_store t addr b (machine g) of
          Some w \<Rightarrow> mem_write t (addr + 1) bs (g\<lparr>machine := w\<rparr>)
        | None \<Rightarrow> (False, g))"

section \<open>The wire\<close>

text \<open>One \<open>recv\<close> of one byte.\<close>

definition recv1 :: "'w gdb \<Rightarrow> char option \<times> 'w gdb" where
  "recv1 g = (case conn_in g of [] \<Rightarrow> (None, g) | c # cs \<Rightarrow> (Some c, g\<lparr>conn_in := cs\<rparr>))"

text \<open>One \<open>send\<close>: the kernel takes as many bytes as its next answer says, all of them when it has
  none left; 0 is failure.\<close>

definition send1 :: "string \<Rightarrow> 'w gdb \<Rightarrow> nat \<times> 'w gdb" where
  "send1 msg g =
     (case conn_sends g of
        [] \<Rightarrow> (length msg, g\<lparr>conn_out := conn_out g @ msg\<rparr>)
      | k # ks \<Rightarrow> let k = min k (length msg) in
          (k, g\<lparr>conn_out := conn_out g @ take k msg, conn_sends := ks\<rparr>))"

definition byte_sum :: "string \<Rightarrow> u8" where
  "byte_sum s = foldl (\<lambda>a c. a + of_char c) 0 s"

text \<open>The sending loop: whether everything was accepted.\<close>

function send_loop :: "string \<Rightarrow> 'w gdb \<Rightarrow> bool \<times> 'w gdb" where
  "send_loop msg g =
     (if msg = [] then (True, g)
      else let (k, g) = send1 msg g in if k = 0 then (False, g) else send_loop (drop k msg) g)"
  by pat_completeness auto
termination
  by (relation "measure (\<lambda>(msg, _). length msg)") auto

declare send_loop.simps [simp del]

text \<open>Waiting for the acknowledgement: every \<open>-\<close> resends, the first \<open>+\<close> ends the wait.\<close>

fun ack_loop :: "string \<Rightarrow> string \<Rightarrow> 'w gdb \<Rightarrow> 'w gdb" where
  "ack_loop msg [] g = g\<lparr>conn_in := []\<rparr>"
| "ack_loop msg (a # as) g =
     (if a = CHR ''+'' then g\<lparr>conn_in := as\<rparr>
      else if a = CHR ''-'' then ack_loop msg as (snd (send1 msg g))
      else ack_loop msg as g)"

definition send_packet :: "string \<Rightarrow> 'w gdb \<Rightarrow> 'w gdb" where
  "send_packet payload g =
     (let msg = CHR ''$'' # payload @ ''#'' @ byte_hex (byte_sum payload);
          (ok, g) = send_loop msg g
      in if \<not> ok then g\<lparr>conn_open := False\<rparr>
         else if \<not> no_ack g then ack_loop msg (conn_in g) g else g)"

text \<open>\<open>recv_packet\<close> in its three loops: up to \<open>$\<close>, up to \<open>#\<close>, the two check digits. The results are
  1, 0 and -1 as in the code.\<close>

datatype start = Started string | Control string | Closed

fun recv_start :: "string \<Rightarrow> start" where
  "recv_start [] = Closed"
| "recv_start (c # cs) =
     (if c = CHR ''$'' then Started cs else if c = CHR 0x03 then Control cs else recv_start cs)"

fun recv_body :: "string \<Rightarrow> string \<Rightarrow> u8 \<Rightarrow> (string \<times> u8 \<times> string) option" where
  "recv_body [] out chk = None"
| "recv_body (c # cs) out chk =
     (if c = CHR ''#'' then Some (out, chk, cs) else recv_body cs (out @ [c]) (chk + of_char c))"

definition recv_packet :: "'w gdb \<Rightarrow> int \<times> string \<times> 'w gdb" where
  "recv_packet g =
     (case recv_start (conn_in g) of
        Closed \<Rightarrow> (- 1, [], g\<lparr>conn_in := []\<rparr>)
      | Control cs \<Rightarrow> (0, [], g\<lparr>conn_in := cs\<rparr>)
      | Started cs \<Rightarrow>
          case recv_body cs [] 0 of
            Some (out, chk, c0 # c1 # cs) \<Rightarrow>
              let g = g\<lparr>conn_in := cs\<rparr>;
                  want = hex_pair c0 c1;
                  (sent, g) = (if \<not> no_ack g then send1 (if chk = want then ''+'' else ''-'') g else (1, g))
              in if sent \<noteq> 1 then (- 1, out, g)
                 else if chk \<noteq> want then (0, [], g) else (1, out, g)
          | Some (out, _, cs) \<Rightarrow> (- 1, out, g\<lparr>conn_in := []\<rparr>)
          | None \<Rightarrow> (- 1, takeWhile (\<lambda>c. c \<noteq> CHR ''#'') cs, g\<lparr>conn_in := []\<rparr>))"

section \<open>Execution control\<close>

definition send_stop :: "u8 \<Rightarrow> 'w gdb \<Rightarrow> 'w gdb" where
  "send_stop sig = send_packet (CHR ''T'' # byte_hex sig @ ''thread:1;'')"

definition send_stop_bp :: "'w gdb \<Rightarrow> 'w gdb" where
  "send_stop_bp = send_packet ''T05thread:1;swbreak:;''"

definition send_exited :: "'w target \<Rightarrow> 'w gdb \<Rightarrow> 'w gdb" where
  "send_exited t g =
     (let g = g\<lparr>exited := True\<rparr> in send_packet (CHR ''W'' # byte_hex (of_int (t_exit t (machine g)))) g)"

definition check_interrupt :: "'w gdb \<Rightarrow> bool \<times> 'w gdb" where
  "check_interrupt g =
     (case conn_polls g of
        [] \<Rightarrow> (False, g)
      | arrived # ps \<Rightarrow> let g = g\<lparr>conn_polls := ps\<rparr> in
          if arrived then let (c, g) = recv1 g in (c = Some (CHR 0x03), g) else (False, g))"

definition POLL_EVERY :: nat where "POLL_EVERY = 4096"

fun continue_loop :: "'w target \<Rightarrow> nat \<Rightarrow> nat \<Rightarrow> 'w gdb \<Rightarrow> 'w gdb rsp" where
  "continue_loop t n 0 g = Still_running"
| "continue_loop t n (Suc fuel) g =
     (let g = g\<lparr>machine := t_step t (machine g)\<rparr> in
      if t_done t (machine g) then Ok (send_exited t g)
      else if get_pc t g \<in> breakpoints g then Ok (send_stop_bp g)
      else let n = n + 1 in
        if n mod POLL_EVERY = 0
        then let (hit, g) = check_interrupt g in
          if hit then Ok (send_stop 2 g) else continue_loop t n fuel g
        else continue_loop t n fuel g)"

definition do_continue :: "'w target \<Rightarrow> nat \<Rightarrow> 'w gdb \<Rightarrow> 'w gdb rsp" where
  "do_continue t fuel g = continue_loop t 0 fuel g"

definition do_step :: "'w target \<Rightarrow> 'w gdb \<Rightarrow> 'w gdb" where
  "do_step t g =
     (let g = g\<lparr>machine := t_step t (machine g)\<rparr> in
      if t_done t (machine g) then send_exited t g else send_stop 5 g)"

section \<open>target.xml\<close>

definition build_target_xml :: "nat \<Rightarrow> string" where
  "build_target_xml xl =
     (let d = num_string 10 False; q = [CHR 0x22]; nl = [CHR 0x0A];
          reg = (\<lambda>name ty n. ''    <reg name='' @ q @ name @ q @ '' bitsize='' @ q @ d xl @ q @ '' type='' @ q @ ty @ q
                   @ '' regnum='' @ q @ d n @ q @ ''/>'' @ nl)
      in ''<?xml version='' @ q @ ''1.0'' @ q @ ''?>'' @ nl
         @ ''<!DOCTYPE target SYSTEM '' @ q @ ''gdb-target.dtd'' @ q @ ''>'' @ nl @ ''<target>'' @ nl
         @ ''  <architecture>riscv:rv'' @ d xl @ ''</architecture>'' @ nl
         @ ''  <feature name='' @ q @ ''org.gnu.gdb.riscv.cpu'' @ q @ ''>'' @ nl
         @ concat (map (\<lambda>i. reg (GDB_XREG_NAMES ! i) (if i = 2 \<or> i = 8 then ''data_ptr'' else ''int'') i) [0..<32])
         @ reg ''pc'' ''code_ptr'' 32
         @ ''  </feature>'' @ nl
         @ ''  <feature name='' @ q @ ''org.gnu.gdb.riscv.csr'' @ q @ ''>'' @ nl
         @ concat (map (\<lambda>i. reg (fst (GDB_CSRS ! i)) ''int'' (33 + i)) [0..<length GDB_CSRS])
         @ ''  </feature>'' @ nl @ ''</target>'' @ nl)"

section \<open>Packets\<close>

definition starts_with :: "string \<Rightarrow> string \<Rightarrow> bool" where
  "starts_with p x \<longleftrightarrow> take (length x) p = x"

fun find_char :: "char \<Rightarrow> string \<Rightarrow> nat option" where
  "find_char c [] = None"
| "find_char c (x # xs) = (if x = c then Some 0 else map_option Suc (find_char c xs))"

definition c_str :: "string \<Rightarrow> string" where
  "c_str s = takeWhile (\<lambda>c. c \<noteq> CHR 0x00) s"

fun unhex_cmd :: "string \<Rightarrow> string" where
  "unhex_cmd (h # l # r) = char_of (unat (hex_pair h l)) # unhex_cmd r"
| "unhex_cmd _ = []"

definition bytes_hex :: "u8 list \<Rightarrow> string" where
  "bytes_hex bs = concat (map byte_hex bs)"

definition handle_monitor :: "'w target \<Rightarrow> string \<Rightarrow> 'w gdb \<Rightarrow> bool \<times> 'w gdb" where
  "handle_monitor t hexcmd g =
     (let cmd = unhex_cmd hexcmd;
          (out, g) =
            (if starts_with cmd ''cycles''
             then (''timing-model cycles = '' @ num_string 10 False (unat (read_reg t (33 + 9) g)) @ [CHR 0x0A], g)
             else if starts_with cmd ''reset''
             then let h = num_string 16 False (unat (entry_pc g)) in
               (''pc <- 0x'' @ replicate (8 - length h) (CHR ''0'') @ h @ '' (entry)'' @ [CHR 0x0A],
                g\<lparr>machine := t_set_pc t (entry_pc g) (machine g)\<rparr>)
             else (''usage: monitor [cycles|reset]'' @ [CHR 0x0A], g))
      in (True, send_packet (bytes_hex (map of_char out)) g))"

text \<open>\<open>p.find(',', c1)\<close> without a comma is \<open>npos\<close>, and \<open>npos + 1\<close> is 0: the length is then parsed
  from the start of the packet.\<close>

definition handle_xfer :: "string \<Rightarrow> 'w gdb \<Rightarrow> 'w gdb" where
  "handle_xfer p g =
     (let tail = rev (takeWhile (\<lambda>c. c \<noteq> CHR '':'') (rev p));
          off = unat (fst (strtoull16 tail));
          len = unat (fst (strtoull16 (case find_char (CHR '','') tail of Some i \<Rightarrow> drop (i + 1) tail | None \<Rightarrow> p)))
      in if length (target_xml g) \<le> off then send_packet ''l'' g
         else let chunk = take len (drop off (target_xml g)) in
           send_packet ((if off + length chunk < length (target_xml g) then ''m'' else ''l'') @ chunk) g)"

definition handle_query :: "'w target \<Rightarrow> string \<Rightarrow> 'w gdb \<Rightarrow> bool \<times> 'w gdb" where
  "handle_query t p g =
     (if starts_with p ''qSupported''
      then (True, send_packet (''PacketSize=4000;qXfer:features:read+;swbreak+;hwbreak+;'' @
                               ''vContSupported+;QStartNoAckMode+'') g)
      else if p = ''QStartNoAckMode'' then (True, (send_packet ''OK'' g)\<lparr>no_ack := True\<rparr>)
      else if starts_with p ''qXfer:features:read:'' then (True, handle_xfer p g)
      else if p = ''qC'' then (True, send_packet ''QC1'' g)
      else if starts_with p ''qAttached'' then (True, send_packet ''1'' g)
      else if p = ''qfThreadInfo'' then (True, send_packet ''m1'' g)
      else if p = ''qsThreadInfo'' then (True, send_packet ''l'' g)
      else if starts_with p ''qSymbol'' then (True, send_packet ''OK'' g)
      else if starts_with p ''qRcmd,'' then handle_monitor t (drop 6 p) g
      else (True, send_packet '''' g))"

definition map_rsp :: "('a \<Rightarrow> 'b) \<Rightarrow> 'a rsp \<Rightarrow> 'b rsp" where
  "map_rsp f r = (case r of Ok a \<Rightarrow> Ok (f a) | Out_of_bounds \<Rightarrow> Out_of_bounds | Still_running \<Rightarrow> Still_running)"

definition handle_v :: "'w target \<Rightarrow> nat \<Rightarrow> string \<Rightarrow> 'w gdb \<Rightarrow> (bool \<times> 'w gdb) rsp" where
  "handle_v t fuel p g =
     (if starts_with p ''vCont?'' then Ok (True, send_packet ''vCont;c;C;s;S'' g)
      else if starts_with p ''vCont''
      then let i = (if 5 < length p \<and> p ! 5 = CHR '';'' then 6 else 5);
               act = (if i < length p then p ! i else CHR ''c'')
           in if exited g then Ok (True, send_exited t g)
              else if act = CHR ''s'' \<or> act = CHR ''S'' then Ok (True, do_step t g)
              else map_rsp (Pair True) (do_continue t fuel g)
      else if starts_with p ''vKill'' then Ok (False, send_packet ''OK'' g)
      else if starts_with p ''vMustReplyEmpty'' then Ok (True, send_packet '''' g)
      else Ok (True, send_packet '''' g))"

text \<open>The \<open>G\<close> packet's loop over the register numbers.\<close>

fun write_regs :: "'w target \<Rightarrow> nat list \<Rightarrow> string \<Rightarrow> 'w gdb \<Rightarrow> 'w gdb" where
  "write_regs t [] s g = g"
| "write_regs t (i # is) s g =
     (if reg_bytes g * 2 \<le> length (c_str s)
      then case unhex_le s (reg_bytes g) of
          Some v \<Rightarrow> write_regs t is (drop (reg_bytes g * 2) s) (write_reg t (int i) v g)
        | None \<Rightarrow> g
      else g)"

definition handle_P :: "'w target \<Rightarrow> string \<Rightarrow> 'w gdb \<Rightarrow> (bool \<times> 'w gdb) rsp" where
  "handle_P t p g =
     (case find_char (CHR ''='') p of
        None \<Rightarrow> Ok (True, send_packet ''E01'' g)
      | Some eq \<Rightarrow>
          let n = strtol16_int (take (eq - 1) (drop 1 p)) in
          case unhex_le (drop (eq + 1) p) (reg_bytes g) of
            None \<Rightarrow> Out_of_bounds
          | Some v \<Rightarrow> Ok (True, send_packet ''OK'' (write_reg t n v g)))"

definition handle_m :: "'w target \<Rightarrow> string \<Rightarrow> 'w gdb \<Rightarrow> 'w gdb" where
  "handle_m t p g =
     (case parse_addr_len (drop 1 p) of
        None \<Rightarrow> send_packet ''E01'' g
      | Some (addr, len) \<Rightarrow>
          let len = (if len > 4096 then 4096 else len);
              (r, g) = mem_read t addr (unat len) g
          in case r of None \<Rightarrow> send_packet ''E14'' g | Some b \<Rightarrow> send_packet (bytes_hex b) g)"

text \<open>The \<open>M\<close> packet's data loop; \<open>len\<close> is not compared with the data.\<close>

definition M_data :: "string \<Rightarrow> nat \<Rightarrow> u8 list option" where
  "M_data s len =
     (if 2 * len \<le> length s + 1
      then those (map (\<lambda>i. map_option ucast (unhex_le (drop (i * 2) s) 1)) [0..<len]) else None)"

definition handle_M :: "'w target \<Rightarrow> string \<Rightarrow> 'w gdb \<Rightarrow> (bool \<times> 'w gdb) rsp" where
  "handle_M t p g =
     (case (find_char (CHR '':'') p, parse_addr_len (drop 1 p)) of
        (Some colon, Some (addr, len)) \<Rightarrow>
          (case M_data (drop (colon + 1) p) (unat len) of
             None \<Rightarrow> Out_of_bounds
           | Some b \<Rightarrow> let (ok, g) = mem_write t addr b g in
               Ok (True, send_packet (if ok then ''OK'' else ''E14'') g))
      | _ \<Rightarrow> Ok (True, send_packet ''E01'' g))"

definition handle_Z :: "string \<Rightarrow> 'w gdb \<Rightarrow> 'w gdb" where
  "handle_Z p g =
     (if length p < 4 \<or> p ! 1 \<noteq> CHR ''0'' \<and> p ! 1 \<noteq> CHR ''1'' then send_packet '''' g
      else let addr = trunc_xlen (xlen g) (fst (strtoull16 (drop 3 p)));
               g = (if p ! 0 = CHR ''Z'' then g\<lparr>breakpoints := insert addr (breakpoints g)\<rparr>
                    else g\<lparr>breakpoints := breakpoints g - {addr}\<rparr>)
           in send_packet ''OK'' g)"

definition handle_packet :: "'w target \<Rightarrow> nat \<Rightarrow> string \<Rightarrow> 'w gdb \<Rightarrow> (bool \<times> 'w gdb) rsp" where
  "handle_packet t fuel p g =
     (case p of [] \<Rightarrow> Ok (True, send_packet '''' g)
      | k # _ \<Rightarrow>
          if k = CHR ''?'' then Ok (True, send_stop 5 g)
          else if k = CHR ''q'' \<or> k = CHR ''Q'' then Ok (handle_query t p g)
          else if k = CHR ''H'' then Ok (True, send_packet ''OK'' g)
          else if k = CHR ''T'' then Ok (True, send_packet ''OK'' g)
          else if k = CHR ''g''
          then Ok (True, send_packet (concat (map (\<lambda>i. hex_le (read_reg t (int i) g) (reg_bytes g)) [0..<nregs])) g)
          else if k = CHR ''G'' then Ok (True, send_packet ''OK'' (write_regs t [0..<nregs] (drop 1 p) g))
          else if k = CHR ''p''
          then Ok (True, send_packet (hex_le (read_reg t (strtol16_int (drop 1 p)) g) (reg_bytes g)) g)
          else if k = CHR ''P'' then handle_P t p g
          else if k = CHR ''m'' then Ok (True, handle_m t p g)
          else if k = CHR ''M'' then handle_M t p g
          else if k = CHR ''c'' \<or> k = CHR ''C''
          then if exited g then Ok (True, send_exited t g) else map_rsp (Pair True) (do_continue t fuel g)
          else if k = CHR ''s'' \<or> k = CHR ''S''
          then if exited g then Ok (True, send_exited t g) else Ok (True, do_step t g)
          else if k = CHR ''v'' then handle_v t fuel p g
          else if k = CHR ''Z'' \<or> k = CHR ''z'' then Ok (True, handle_Z p g)
          else if k = CHR ''D'' then Ok (False, send_packet ''OK'' g)
          else if k = CHR ''k'' then Ok (False, g)
          else Ok (True, send_packet '''' g))"

text \<open>The main loop, for at most the given number of packets.\<close>

fun serve :: "'w target \<Rightarrow> nat \<Rightarrow> nat \<Rightarrow> 'w gdb \<Rightarrow> 'w gdb rsp" where
  "serve t fuel 0 g = Still_running"
| "serve t fuel (Suc n) g =
     (if \<not> conn_open g then Ok g
      else let (r, pkt, g) = recv_packet g in
        if r < 0 then Ok g
        else if r = 0 then serve t fuel n g
        else case handle_packet t fuel pkt g of
            Ok (go, g) \<Rightarrow> if go then serve t fuel n g else Ok g
          | Out_of_bounds \<Rightarrow> Out_of_bounds
          | Still_running \<Rightarrow> Still_running)"

section \<open>Hexadecimal round trips\<close>

lemma hexval_digit: "n < 16 \<Longrightarrow> hexval (''0123456789abcdef'' ! n) = of_nat n"
  by (simp only: less_16; auto simp: hexval_def Let_def)

lemma xdigit_digit: "n < 16 \<Longrightarrow> is_xdigit (''0123456789abcdef'' ! n)"
  by (simp only: less_16; auto simp: is_xdigit_def Let_def)

lemma nibbles: "unat (drop_bit 4 (b::u8)) < 16" "unat (b AND 0xF) < 16"
proof -
  show "unat (drop_bit 4 b) < 16" using u8_bound [of b] by (simp add: unat_drop_bit_eq drop_bit_nat_def)
  have "(b AND 0xF) \<le> 0xF" by (simp add: word_and_le1)
  then show "unat (b AND 0xF) < 16" by (simp add: word_le_nat_alt)
qed

lemma byte_nibbles: "ucast (push_bit 4 (ucast (drop_bit 4 b) :: u32) OR ucast (b AND 0xF)) = (b :: u8)"
proof -
  have f: "(0xF :: u8) = mask 4" by (simp add: mask_eq_exp_minus_1)
  show ?thesis unfolding f
    by (rule bit_word_eqI) (auto simp: bit_simps word_bits)
qed

lemma hex_pair_byte_hex: "hex_pair (byte_hex b ! 0) (byte_hex b ! 1) = b"
proof -
  have "hex_pair (byte_hex b ! 0) (byte_hex b ! 1) =
      ucast (push_bit 4 (of_nat (unat (drop_bit 4 b)) :: u32) OR of_nat (unat (b AND 0xF)))"
    unfolding byte_hex_def hex_pair_def Let_def using hexval_digit [OF nibbles(1) [of b]] hexval_digit [OF nibbles(2) [of b]]
    by simp
  then show ?thesis using byte_nibbles [of b] by simp
qed

lemma length_byte_hex [simp]: "length (byte_hex b) = 2"
  by (simp add: byte_hex_def Let_def)

lemma byte_hex_shape: obtains h l where "byte_hex b = [h, l]" "hex_pair h l = b"
proof
  show "byte_hex b = [byte_hex b ! 0, byte_hex b ! 1]" by (simp add: byte_hex_def Let_def)
qed (rule hex_pair_byte_hex)

lemma length_bytes_hex [simp]: "length (bytes_hex bs) = 2 * length bs"
  by (simp add: bytes_hex_def length_concat o_def sum_list_triv)

lemma bytes_hex_nth:
  assumes "i < length bs"
  shows "hex_pair ((bytes_hex bs @ r) ! (i * 2)) ((bytes_hex bs @ r) ! (i * 2 + 1)) = bs ! i"
  using assms
proof (induction bs arbitrary: i)
  case (Cons b bs)
  obtain h l where b: "byte_hex b = [h, l]" "hex_pair h l = b" by (rule byte_hex_shape)
  show ?case
  proof (cases i)
    case 0
    then show ?thesis using b by (simp add: bytes_hex_def)
  next
    case (Suc j)
    with Cons show ?thesis using b by (simp add: bytes_hex_def)
  qed
qed simp

lemma byte_at: "ucast (take_bit 8 (drop_bit k v) :: u64) = (ucast (drop_bit k v) :: u8)"
  by (rule bit_word_eqI) (auto simp: bit_simps)

definition le_bytes :: "u64 \<Rightarrow> nat \<Rightarrow> u8 list" where
  "le_bytes v n = map (\<lambda>i. ucast (drop_bit (8 * i) v)) [0..<n]"

lemma hex_le_bytes: "hex_le v n = bytes_hex (le_bytes v n)"
proof -
  have "(0xFF :: u64) = mask 8" by (simp add: mask_eq_exp_minus_1)
  then have "ucast (drop_bit (8 * i) v AND 0xFF) = (ucast (drop_bit (8 * i) v) :: u8)" for i
    by (metis take_bit_eq_mask byte_at)
  then show ?thesis by (simp add: hex_le_def bytes_hex_def le_bytes_def comp_def)
qed

lemma length_hex_le [simp]: "length (hex_le v n) = 2 * n"
  by (simp add: hex_le_bytes le_bytes_def)

lemma unhex_loop_bytes:
  assumes "m + k \<le> length bs"
  shows "unhex_loop (bytes_hex bs @ r) [m..<m + k] v =
    Some (foldl (\<lambda>v i. v OR push_bit (8 * i) (ucast (bs ! i))) v [m..<m + k])"
  using assms
proof (induction k arbitrary: m v)
  case (Suc k)
  have c: "c_at (bytes_hex bs @ r) (m * 2) = Some ((bytes_hex bs @ r) ! (m * 2))"
    "c_at (bytes_hex bs @ r) (m * 2 + 1) = Some ((bytes_hex bs @ r) ! (m * 2 + 1))"
    using Suc.prems by (auto simp: c_at_def)
  have "[m..<m + Suc k] = m # [Suc m..<Suc m + k]" by (simp add: upt_rec)
  then show ?case using Suc.IH [of "Suc m"] Suc.prems c bytes_hex_nth [of m bs r] by simp
qed simp

lemma fold_le_bytes:
  assumes "n \<le> 8"
  shows "foldl (\<lambda>a i. a OR push_bit (8 * i) (ucast (le_bytes v n ! i))) 0 [0..<n] = take_bit (8 * n) (v :: u64)"
proof -
  have "k \<le> n \<Longrightarrow> foldl (\<lambda>a i. a OR push_bit (8 * i) (ucast (le_bytes v n ! i))) 0 [0..<k] = take_bit (8 * k) v" for k
  proof (induction k)
    case (Suc k)
    then have "foldl (\<lambda>a i. a OR push_bit (8 * i) (ucast (le_bytes v n ! i))) 0 [0..<Suc k]
        = take_bit (8 * k) v OR push_bit (8 * k) (ucast (ucast (drop_bit (8 * k) v) :: u8))"
      by (simp add: le_bytes_def)
    also have "\<dots> = take_bit (8 * Suc k) v"
      by (rule bit_word_eqI) (use Suc assms in \<open>auto simp: bit_simps\<close>)
    finally show ?case .
  qed simp
  from this [of n] show ?thesis by simp
qed

lemma unhex_le_hex_le:
  assumes "n \<le> 8"
  shows "unhex_le (hex_le v n @ r) n = Some (take_bit (8 * n) v)"
  using unhex_loop_bytes [of 0 n "le_bytes v n" r 0] fold_le_bytes [OF assms, of v]
  by (simp add: unhex_le_def hex_le_bytes) (simp add: le_bytes_def)

section \<open>Numbers in packets\<close>

lemma digit_chars_hex: "digit_chars False = ''0123456789abcdef''" by (simp add: digit_chars_def)

lemma num_string_digits:
  assumes "c \<in> set (num_string 16 False n)"
  obtains k where "k < 16" "c = ''0123456789abcdef'' ! k"
proof (cases "n = 0")
  case True
  then show ?thesis using assms that [of 0] by (simp add: num_string_def)
next
  case False
  then obtain k where "k \<in> set (lsd 16 n)" "c = ''0123456789abcdef'' ! k"
    using assms by (auto simp: num_string_def digit_chars_hex)
  then show ?thesis using that lsd_less by blast
qed

lemma num_string_xdigits: "c \<in> set (num_string 16 False n) \<Longrightarrow> is_xdigit c"
  by (erule num_string_digits) (simp add: xdigit_digit)

lemma digit_values: "k < 16 \<Longrightarrow> unat (hexval (''0123456789abcdef'' ! k)) = hex_val (''0123456789abcdef'' ! k)"
  using hex_val_digit [of k False] by (simp add: hexval_digit digit_chars_hex unat_of_nat)

lemma num_string_unhex: "foldl (\<lambda>v d. v * 16 + unat (hexval d)) 0 (num_string 16 False n) = n"
proof -
  have "foldl (\<lambda>v d. v * 16 + unat (hexval d)) 0 (num_string 16 False n)
      = foldl (\<lambda>v d. v * 16 + hex_val d) 0 (num_string 16 False n)"
    by (rule foldl_cong) (auto elim!: num_string_digits simp: digit_values)
  also have "\<dots> = n" using num_string_val [of 16 False n] by (simp add: text_val_def)
  finally show ?thesis .
qed

definition ends_number :: "string \<Rightarrow> bool" where
  "ends_number r \<longleftrightarrow> (case r of [] \<Rightarrow> True | c # _ \<Rightarrow> \<not> is_xdigit c \<and> c \<noteq> CHR ''x'' \<and> c \<noteq> CHR ''X'')"

lemma xdigit_not: "is_xdigit c \<Longrightarrow> c \<noteq> CHR ''x'' \<and> c \<noteq> CHR ''X'' \<and> c \<noteq> CHR ''-'' \<and> c \<noteq> CHR ''+'' \<and> \<not> is_space c"
  by (auto simp: is_xdigit_def is_space_def Let_def)

lemma strto_prefix_digits:
  assumes "\<forall>c \<in> set ds. is_xdigit c" "ends_number r"
  shows "strto_prefix (ds @ r) = ds @ r"
proof (cases ds)
  case Nil
  then show ?thesis using assms(2) by (auto simp: strto_prefix_def ends_number_def is_xdigit_def split: list.splits)
next
  case (Cons a ds')
  show ?thesis
  proof (cases ds')
    case Nil
    then show ?thesis using Cons assms(2) by (auto simp: strto_prefix_def ends_number_def split: list.splits)
  next
    case (Cons b ds'')
    then show ?thesis using \<open>ds = a # ds'\<close> assms(1) xdigit_not by (auto simp: strto_prefix_def split: list.splits)
  qed
qed

lemma strto16_num:
  assumes "ends_number r"
  shows "strto16 (num_string 16 False n @ r) = (False, n, r)"
proof -
  let ?d = "num_string 16 False n"
  have d: "\<forall>c \<in> set ?d. is_xdigit c" using num_string_xdigits by blast
  have ne: "?d \<noteq> []" by (cases "n = 0") (simp_all add: num_string_def lsd_step)
  then obtain a ds where a: "?d = a # ds" by (cases ?d) auto
  have "is_xdigit a" using d a by simp
  note na = xdigit_not [OF this]
  have tw: "takeWhile is_xdigit (?d @ r) = ?d" "dropWhile is_xdigit (?d @ r) = r"
    using d assms by (auto simp: ends_number_def takeWhile_append dropWhile_append split: list.splits)
  have sp: "dropWhile is_space (?d @ r) = ?d @ r" using na a by simp
  have sg: "strto_sign (?d @ r) = (False, ?d @ r)" using na a by (simp add: strto_sign_def)
  show ?thesis
    using ne num_string_unhex [of n]
    by (simp add: strto16_def Let_def sp sg strto_prefix_digits [OF d assms] tw)
qed

lemma strtoull16_num:
  assumes "n < 2 ^ 64" "ends_number r"
  shows "strtoull16 (num_string 16 False n @ r) = (of_nat n, r)"
  using assms by (simp add: strtoull16_def strto16_num)

lemma strtol16_int_num:
  assumes "n < 2 ^ 31" "ends_number r"
  shows "strtol16_int (num_string 16 False n @ r) = int n"
proof -
  have "signed_take_bit 31 (int n) = int n" using assms(1) by (intro signed_take_bit_int_eq_self) simp_all
  moreover have "max (- (2 ^ 63)) (min (2 ^ 63 - 1) (int n)) = int n" using assms(1) by simp
  ultimately show ?thesis by (simp add: strtol16_int_def strto16_num [OF assms(2)])
qed

lemma ends_number_simps [simp]: "ends_number []" "ends_number (CHR '','' # r)" "ends_number (CHR '':'' # r)"
  "ends_number (CHR ''='' # r)"
  by (simp_all add: ends_number_def is_xdigit_def)

lemma parse_addr_len_num:
  assumes "a < 2 ^ 64" "n < 2 ^ 64" "ends_number r"
  shows "parse_addr_len (num_string 16 False a @ CHR '','' # num_string 16 False n @ r) = Some (of_nat a, of_nat n)"
  using assms by (simp add: parse_addr_len_def strtoull16_num)

section \<open>Framing\<close>

lemma send_loop_all:
  "\<forall>k \<in> set (conn_sends g). 0 < k \<Longrightarrow>
   \<exists>ks. send_loop msg g = (True, g\<lparr>conn_out := conn_out g @ msg, conn_sends := ks\<rparr>) \<and> set ks \<subseteq> set (conn_sends g)"
proof (induction msg g rule: send_loop.induct)
  case (1 msg g)
  show ?case
  proof (cases "msg = []")
    case True
    then show ?thesis by (intro exI [of _ "conn_sends g"]) (simp add: send_loop.simps)
  next
    case False
    obtain k g' where s: "send1 msg g = (k, g')" by (cases "send1 msg g")
    have k: "k \<noteq> 0" "set (conn_sends g') \<subseteq> set (conn_sends g)"
      "g' = g\<lparr>conn_out := conn_out g @ take k msg, conn_sends := conn_sends g'\<rparr>"
      using s 1(2) False by (auto simp: send1_def Let_def split: list.splits)
    then obtain ks where ks: "send_loop (drop k msg) g' =
        (True, g'\<lparr>conn_out := conn_out g' @ drop k msg, conn_sends := ks\<rparr>)" "set ks \<subseteq> set (conn_sends g')"
      using 1(1) [OF False s [symmetric] refl k(1)] 1(2) by blast
    have "send_loop msg g = send_loop (drop k msg) g'"
      by (subst send_loop.simps) (use False s k(1) in \<open>simp add: Let_def\<close>)
    also have "\<dots> = (True, g\<lparr>conn_out := conn_out g @ msg, conn_sends := ks\<rparr>)"
      unfolding ks(1) by (subst k(3), subst (2) k(3)) simp
    finally have "send_loop msg g = (True, g\<lparr>conn_out := conn_out g @ msg, conn_sends := ks\<rparr>)" .
    then show ?thesis using ks(2) k(2) by blast
  qed
qed

definition rsp_frame :: "string \<Rightarrow> string \<Rightarrow> string" where
  "rsp_frame p sent = CHR ''$'' # sent @ ''#'' @ byte_hex (byte_sum p)"

lemma recv_body_frame:
  "CHR ''#'' \<notin> set p \<Longrightarrow> recv_body (p @ CHR ''#'' # r) out chk = Some (out @ p, foldl (\<lambda>a c. a + of_char c) chk p, r)"
  by (induction p arbitrary: out chk) auto

lemma of_char_u8: "(of_char c :: u8) = of_char d \<longleftrightarrow> c = d"
proof -
  have "unat (of_nat (of_char x) :: u8) = of_char x" for x
    by (simp only: unat_of_nat) simp
  then have "unat (of_char x :: u8) = of_char x" for x by (simp only: of_nat_of_char)
  then show ?thesis by (metis of_char_eq_iff)
qed

lemma byte_sum_Cons [simp]: "byte_sum [] = 0" "byte_sum (c # p) = of_char c + byte_sum p"
proof -
  have "foldl (\<lambda>a c. a + of_char c) k p = k + foldl (\<lambda>a c. a + of_char c) 0 p" for k :: u8
  proof (induction p arbitrary: k)
    case (Cons d p)
    show ?case by (simp only: foldl.simps Cons [of "k + of_char d"] Cons [of "0 + of_char d"]) simp
  qed simp
  from this [of "of_char c"] show "byte_sum (c # p) = of_char c + byte_sum p" by (simp add: byte_sum_def)
qed (simp add: byte_sum_def)

lemma byte_sum_update:
  "i < length p \<Longrightarrow> byte_sum (p[i := c]) = byte_sum p - of_char (p ! i) + of_char c"
proof (induction p arbitrary: i)
  case (Cons d p)
  then show ?case by (cases i) (simp_all add: algebra_simps)
qed simp

lemma recv_body_byte_sum:
  "CHR ''#'' \<notin> set p \<Longrightarrow> recv_body (p @ CHR ''#'' # r) [] 0 = Some (p, byte_sum p, r)"
  by (simp add: recv_body_frame byte_sum_def)

lemma recv_frame:
  assumes "CHR ''#'' \<notin> set s" "conn_in h = rsp_frame p s @ tl0" "conn_sends h = []"
  shows "recv_packet h =
    (if byte_sum s = byte_sum p
     then (1, s, h\<lparr>conn_in := tl0, conn_out := conn_out h @ (if no_ack h then '''' else ''+'')\<rparr>)
     else (0, [], h\<lparr>conn_in := tl0, conn_out := conn_out h @ (if no_ack h then '''' else ''-'')\<rparr>))"
proof -
  obtain a b where ab: "byte_hex (byte_sum p) = [a, b]" "hex_pair a b = byte_sum p" by (rule byte_hex_shape)
  show ?thesis using assms recv_body_byte_sum [OF assms(1), of "a # b # tl0"] ab
    by (simp add: recv_packet_def rsp_frame_def send1_def Let_def)
qed

lemma recv_frame_cut:
  assumes "CHR ''#'' \<notin> set p" "i < length p" "conn_in h = rsp_frame p (p[i := CHR ''#'']) @ tl0" "conn_sends h = []"
    "drop (Suc i) p @ CHR ''#'' # byte_hex (byte_sum p) @ tl0 = x # y # t"
  shows "recv_packet h =
    (if hex_pair x y = byte_sum (take i p)
     then (1, take i p, h\<lparr>conn_in := t, conn_out := conn_out h @ (if no_ack h then '''' else ''+'')\<rparr>)
     else (0, [], h\<lparr>conn_in := t, conn_out := conn_out h @ (if no_ack h then '''' else ''-'')\<rparr>))"
proof -
  have "p[i := CHR ''#''] @ ''#'' @ byte_hex (byte_sum p) @ tl0 = take i p @ CHR ''#'' # x # y # t"
    using assms(2) by (simp add: upd_conv_take_nth_drop flip: assms(5))
  then have "conn_in h = CHR ''$'' # take i p @ CHR ''#'' # x # y # t" using assms(3) by (simp add: rsp_frame_def)
  moreover have "CHR ''#'' \<notin> set (take i p)" using assms(1) in_set_takeD by metis
  ultimately show ?thesis using assms(4) by (simp add: recv_packet_def recv_body_byte_sum send1_def Let_def)
qed

text \<open>C12: Framing, of a payload without \<open>#\<close> (the code escapes nothing). Whatever the chunks in which
  the kernel takes the bytes, \<open>send_packet\<close> puts exactly one frame on the wire and consumes exactly the
  acknowledgement; \<open>recv_packet\<close> on that frame returns the payload and acknowledges it. When one
  payload character has been altered to anything but \<open>#\<close>, \<open>recv_packet\<close> rejects the frame,
  returns nothing and asks for a retransmission. When the character has become \<open>#\<close> the packet is cut
  there: the two characters that follow are taken for the check digits, and the cut payload is accepted exactly
  when they happen to be its sum, as \<open>A?41\<close> altered to \<open>A#41\<close> is.\<close>

theorem rsp_framing:
  assumes "CHR ''#'' \<notin> set p" "\<forall>k \<in> set (conn_sends g). 0 < k" "conn_in g = CHR ''+'' # rest"
    "i < length p" "c \<noteq> CHR ''#''" "c \<noteq> p ! i"
  shows "(\<exists>ks. send_packet p g = g\<lparr>conn_in := if no_ack g then conn_in g else rest,
            conn_out := conn_out g @ rsp_frame p p, conn_sends := ks\<rparr>)
    \<and> recv_packet (h\<lparr>conn_in := rsp_frame p p @ tl0, conn_sends := []\<rparr>) =
        (1, p, h\<lparr>conn_in := tl0, conn_sends := [], conn_out := conn_out h @ (if no_ack h then '''' else ''+'')\<rparr>)
    \<and> recv_packet (h\<lparr>conn_in := rsp_frame p (p[i := c]) @ tl0, conn_sends := []\<rparr>) =
        (0, [], h\<lparr>conn_in := tl0, conn_sends := [], conn_out := conn_out h @ (if no_ack h then '''' else ''-'')\<rparr>)
    \<and> (case drop (Suc i) p @ CHR ''#'' # byte_hex (byte_sum p) @ tl0 of
         x # y # t \<Rightarrow> recv_packet (h\<lparr>conn_in := rsp_frame p (p[i := CHR ''#'']) @ tl0, conn_sends := []\<rparr>) =
           (if hex_pair x y = byte_sum (take i p)
            then (1, take i p, h\<lparr>conn_in := t, conn_sends := [], conn_out := conn_out h @ (if no_ack h then '''' else ''+'')\<rparr>)
            else (0, [], h\<lparr>conn_in := t, conn_sends := [], conn_out := conn_out h @ (if no_ack h then '''' else ''-'')\<rparr>))
       | _ \<Rightarrow> False)"
proof (intro conjI)
  obtain ks where "send_loop (rsp_frame p p) g = (True, g\<lparr>conn_out := conn_out g @ rsp_frame p p, conn_sends := ks\<rparr>)"
    using send_loop_all [OF assms(2)] by blast
  then show "\<exists>ks. send_packet p g = g\<lparr>conn_in := if no_ack g then conn_in g else rest,
            conn_out := conn_out g @ rsp_frame p p, conn_sends := ks\<rparr>"
    using assms(3) by (intro exI [of _ ks], cases g) (auto simp: send_packet_def rsp_frame_def Let_def)
  show "recv_packet (h\<lparr>conn_in := rsp_frame p p @ tl0, conn_sends := []\<rparr>) =
        (1, p, h\<lparr>conn_in := tl0, conn_sends := [], conn_out := conn_out h @ (if no_ack h then '''' else ''+'')\<rparr>)"
    by (subst recv_frame [of p _ p tl0], use assms(1) in simp_all)
  have "byte_sum (p[i := c]) \<noteq> byte_sum p" using assms(6) by (simp add: byte_sum_update [OF assms(4)] of_char_u8)
  moreover have "CHR ''#'' \<notin> set (p[i := c])" using assms(1,5) set_update_subset_insert [of p i c] by auto
  ultimately show "recv_packet (h\<lparr>conn_in := rsp_frame p (p[i := c]) @ tl0, conn_sends := []\<rparr>) =
        (0, [], h\<lparr>conn_in := tl0, conn_sends := [], conn_out := conn_out h @ (if no_ack h then '''' else ''-'')\<rparr>)"
    by (subst recv_frame [of "p[i := c]" _ p tl0]) simp_all
  obtain a b where "byte_hex (byte_sum p) = [a, b]" by (rule byte_hex_shape)
  then obtain x y t where cut: "drop (Suc i) p @ CHR ''#'' # byte_hex (byte_sum p) @ tl0 = x # y # t"
    by (cases "drop (Suc i) p"; cases "tl (drop (Suc i) p)") auto
  show "case drop (Suc i) p @ CHR ''#'' # byte_hex (byte_sum p) @ tl0 of
         x # y # t \<Rightarrow> recv_packet (h\<lparr>conn_in := rsp_frame p (p[i := CHR ''#'']) @ tl0, conn_sends := []\<rparr>) =
           (if hex_pair x y = byte_sum (take i p)
            then (1, take i p, h\<lparr>conn_in := t, conn_sends := [], conn_out := conn_out h @ (if no_ack h then '''' else ''+'')\<rparr>)
            else (0, [], h\<lparr>conn_in := t, conn_sends := [], conn_out := conn_out h @ (if no_ack h then '''' else ''-'')\<rparr>))
       | _ \<Rightarrow> False"
    unfolding cut using recv_frame_cut [OF assms(1,4) _ _ cut, of "h\<lparr>conn_in := rsp_frame p (p[i := CHR ''#'']) @ tl0, conn_sends := []\<rparr>"]
    by simp
qed

definition gdb_start :: "'w \<Rightarrow> 'w gdb" where
  "gdb_start w = \<lparr>xlen = 32, reg_bytes = 4, target_xml = build_target_xml 32, breakpoints = {}, conn_open = True,
     conn_in = ''+'', conn_out = [], conn_polls = [], conn_sends = [3, 1], no_ack = False, exited = False,
     entry_pc = 0x80000000, machine = w\<rparr>"

theorem rsp_framing_witness:
  "(\<exists>ks. send_packet ''A?41'' (gdb_start ()) = (gdb_start ())\<lparr>conn_in := [],
            conn_out := rsp_frame ''A?41'' ''A?41'', conn_sends := ks\<rparr>)
    \<and> recv_packet ((gdb_start ())\<lparr>conn_in := rsp_frame ''A?41'' ''A?41'' @ ''+'', conn_sends := []\<rparr>) =
        (1, ''A?41'', (gdb_start ())\<lparr>conn_in := ''+'', conn_sends := [], conn_out := ''+''\<rparr>)
    \<and> recv_packet ((gdb_start ())\<lparr>conn_in := rsp_frame ''A?41'' ''Ak41'' @ ''+'', conn_sends := []\<rparr>) =
        (0, [], (gdb_start ())\<lparr>conn_in := ''+'', conn_sends := [], conn_out := ''-''\<rparr>)
    \<and> recv_packet ((gdb_start ())\<lparr>conn_in := rsp_frame ''A?41'' ''A#41'' @ ''+'', conn_sends := []\<rparr>) =
        (1, ''A'', (gdb_start ())\<lparr>conn_in := CHR ''#'' # byte_hex (byte_sum ''A?41'') @ ''+'', conn_sends := [], conn_out := ''+''\<rparr>)"
proof -
  have h: "hex_pair (CHR ''4'') (CHR ''1'') = byte_sum ''A''" by code_simp
  have g: "no_ack (gdb_start ()) = False" "conn_out (gdb_start ()) = []" by (simp_all add: gdb_start_def)
  show ?thesis
    using rsp_framing [where p = "''A?41''" and g = "gdb_start ()" and h = "gdb_start ()" and i = 1 and c = "CHR ''k''" and rest = "[]" and ?tl0.0 = "''+''"] h
    by (simp add: g) (simp add: gdb_start_def)
qed

section \<open>Memory packets\<close>

lemma ack_loop_frame: "machine (ack_loop msg as g) = machine g"
  by (induction msg as g rule: ack_loop.induct) (auto simp: send1_def Let_def split: list.splits)

lemma find_char_at: "c \<notin> set xs \<Longrightarrow> find_char c (xs @ c # ys) = Some (length xs)"
  by (induction xs) auto

lemma num_string_no_sep: "c \<in> {CHR '':'', CHR '','', CHR ''='', CHR ''#''} \<Longrightarrow> c \<notin> set (num_string 16 False n)"
  using num_string_xdigits by (fastforce simp: is_xdigit_def Let_def)

fun poke_all :: "'w target \<Rightarrow> u64 \<Rightarrow> u8 list \<Rightarrow> 'w \<Rightarrow> 'w" where
  "poke_all t a [] w = w"
| "poke_all t a (b # bs) w = poke_all t (a + 1) bs (t_poke t a b w)"

text \<open>The documented behaviour of the simulator's memory: a byte written is read back, and only
  there.\<close>

definition target_memory :: "'w target \<Rightarrow> bool" where
  "target_memory t \<longleftrightarrow> (\<forall>x y b w. t_peek t x (t_poke t y b w) = (if x = y then b else t_peek t x w))"

definition host_range :: "'w target \<Rightarrow> u64 \<Rightarrow> nat \<Rightarrow> bool" where
  "host_range t a n \<longleftrightarrow> (\<forall>i < n. t_host t (a + of_nat i))"

lemma host_range_Suc: "host_range t a (Suc n) \<longleftrightarrow> t_host t a \<and> host_range t (a + 1) n"
  unfolding host_range_def All_less_Suc2 by (simp add: add.assoc)

lemma mem_write_host:
  "host_range t a (length bs) \<Longrightarrow> mem_write t a bs g = (True, g\<lparr>machine := poke_all t a bs (machine g)\<rparr>)"
  by (induction bs arbitrary: a g) (simp_all add: host_range_Suc)

lemma mem_read_host:
  "host_range t a n \<Longrightarrow> mem_read t a n g = (Some (map (\<lambda>i. t_peek t (a + of_nat i) (machine g)) [0..<n]), g)"
proof (induction n arbitrary: a)
  case (Suc n)
  have "[0..<Suc n] = 0 # map Suc [0..<n]" by (simp add: map_Suc_upt upt_conv_Cons del: upt_Suc)
  with Suc show ?case by (simp add: host_range_Suc comp_def add.assoc del: upt_Suc)
qed simp

lemma peek_poke_all:
  assumes "target_memory t"
  shows "length bs \<le> 4096 \<Longrightarrow> t_peek t x (poke_all t a bs w) =
    (if unat (x - a) < length bs then bs ! unat (x - a) else t_peek t x w)"
proof (induction bs arbitrary: a w)
  case (Cons b bs)
  note IH = Cons.IH [of "a + 1" "t_poke t a b w"]
  show ?case
  proof (cases "x = a")
    case True
    have "unat (- 1 :: u64) = 2 ^ 64 - 1" using unat_uminus [of "1 :: u64"] by simp
    then show ?thesis using True IH Cons.prems assms by (simp add: target_memory_def)
  next
    case False
    have "unat (x - (a + 1)) = unat (x - a - 1)" by (simp add: diff_diff_eq)
    also have "\<dots> = unat (x - a) - 1" using False by (simp add: unat_minus_one)
    finally have "unat (x - (a + 1)) = unat (x - a) - 1" "0 < unat (x - a)"
      using False by (simp_all add: unat_gt_0)
    then show ?thesis using False IH Cons.prems assms by (auto simp: target_memory_def nth_Cons')
  qed
qed simp

lemma M_data_bytes: "M_data (bytes_hex bs) (length bs) = Some bs"
proof -
  have "unhex_le (drop (i * 2) (bytes_hex bs)) 1 = Some (ucast (bs ! i))" if "i < length bs" for i
  proof -
    have "drop (i * 2) (bytes_hex bs) = bytes_hex (drop i bs)"
      using append_take_drop_id [of i bs] that
      by (metis add.right_neutral append_eq_conv_conj bytes_hex_def concat_append drop_map length_bytes_hex length_take map_append min.absorb2 mult.commute nat_less_le)
    moreover have "drop i bs = bs ! i # drop (Suc i) bs" using that by (rule Cons_nth_drop_Suc [symmetric])
    moreover obtain h l where "byte_hex (bs ! i) = [h, l]" "hex_pair h l = bs ! i" by (rule byte_hex_shape)
    ultimately show ?thesis by (simp add: unhex_le_def bytes_hex_def c_at_def)
  qed
  moreover have "ucast (ucast b :: u64) = (b :: u8)" for b by (rule bit_word_eqI) (simp add: bit_simps)
  ultimately have "map (\<lambda>i. map_option ucast (unhex_le (drop (i * 2) (bytes_hex bs)) 1)) [0..<length bs]
      = map Some (map (\<lambda>i. bs ! i) [0..<length bs])"
    by simp
  moreover have "those (map Some xs) = Some xs" for xs :: "u8 list" by (induction xs) simp_all
  ultimately show ?thesis by (simp add: M_data_def map_nth del: map_map)
qed

definition M_packet :: "u64 \<Rightarrow> nat \<Rightarrow> u8 list \<Rightarrow> string" where
  "M_packet a n bs = CHR ''M'' # num_string 16 False (unat a) @ CHR '','' # num_string 16 False n @ CHR '':'' # bytes_hex bs"

definition m_packet :: "u64 \<Rightarrow> nat \<Rightarrow> string" where
  "m_packet a n = CHR ''m'' # num_string 16 False (unat a) @ CHR '','' # num_string 16 False n"

lemma M_packet_parse:
  assumes "n < 2 ^ 64"
  shows "parse_addr_len (drop 1 (M_packet a n bs)) = Some (a, of_nat n)"
    "\<exists>i. find_char (CHR '':'') (M_packet a n bs) = Some i \<and> drop (i + 1) (M_packet a n bs) = bytes_hex bs"
proof -
  show "parse_addr_len (drop 1 (M_packet a n bs)) = Some (a, of_nat n)"
    using parse_addr_len_num [of "unat a" n "CHR '':'' # bytes_hex bs"] assms u64_bound [of a] by (simp add: M_packet_def)
  let ?p = "CHR ''M'' # num_string 16 False (unat a) @ CHR '','' # num_string 16 False n"
  have "CHR '':'' \<notin> set ?p" using num_string_no_sep by simp
  from find_char_at [OF this, of "bytes_hex bs"]
  show "\<exists>i. find_char (CHR '':'') (M_packet a n bs) = Some i \<and> drop (i + 1) (M_packet a n bs) = bytes_hex bs"
    by (intro exI [of _ "length ?p"]) (simp add: M_packet_def)
qed

lemma m_packet_parse:
  "n < 2 ^ 64 \<Longrightarrow> parse_addr_len (drop 1 (m_packet a n)) = Some (a, of_nat n)"
  using parse_addr_len_num [of "unat a" n "[]"] u64_bound [of a] by (simp add: m_packet_def)

lemma handle_M_packet: "handle_packet t f (M_packet a n bs) g = handle_M t (M_packet a n bs) g"
  by (simp add: handle_packet_def M_packet_def)

lemma handle_m_packet: "handle_packet t f (m_packet a n) g = Ok (True, handle_m t (m_packet a n) g)"
  by (simp add: handle_packet_def m_packet_def)

text \<open>C13: Memory packets. An \<open>M\<close> packet with at most 4096 bytes for ordinary memory is answered
  \<open>OK\<close>, stores exactly these bytes at exactly these addresses and touches nothing else of the
  server; the \<open>m\<close> packet for the range then answers with the same bytes and leaves the program
  state as it is. An \<open>M\<close> packet that announces more bytes than it carries makes the server read
  past the end of the packet.\<close>

theorem memory_packets:
  assumes "target_memory t" "host_range t a (length bs)" "length bs \<le> 4096" "length bs < n" "n < 2 ^ 63"
  shows "(\<exists>w. handle_packet t f (M_packet a (length bs) bs) g = Ok (True, send_packet ''OK'' (g\<lparr>machine := w\<rparr>))
      \<and> (\<forall>x. t_peek t x w = (if unat (x - a) < length bs then bs ! unat (x - a) else t_peek t x (machine g)))
      \<and> handle_packet t f (m_packet a (length bs)) (h\<lparr>machine := w\<rparr>)
          = Ok (True, send_packet (bytes_hex bs) (h\<lparr>machine := w\<rparr>)))
    \<and> handle_packet t f (M_packet a n bs) g = Out_of_bounds"
proof (intro conjI exI [of _ "poke_all t a bs (machine g)"] allI)
  let ?w = "poke_all t a bs (machine g)"
  have u: "unat (of_nat n :: u64) = n" "unat (of_nat (length bs) :: u64) = length bs"
    using assms(3,5) by (simp_all add: unat_of_nat)
  have small: "\<not> (4096 :: u64) < of_nat (length bs)" using assms(3) u(2) by (simp add: word_less_nat_alt)
  have lt: "length bs < 2 ^ 64" "n < 2 ^ 64" using assms(3,5) by simp_all
  obtain i j where i: "find_char (CHR '':'') (M_packet a (length bs) bs) = Some i"
      "drop (i + 1) (M_packet a (length bs) bs) = bytes_hex bs"
    and j: "find_char (CHR '':'') (M_packet a n bs) = Some j" "drop (j + 1) (M_packet a n bs) = bytes_hex bs"
    using M_packet_parse(2) [OF lt(1), of a bs] M_packet_parse(2) [OF lt(2), of a bs] by blast
  show "handle_packet t f (M_packet a (length bs) bs) g = Ok (True, send_packet ''OK'' (g\<lparr>machine := ?w\<rparr>))"
    unfolding handle_M_packet handle_M_def i M_packet_parse(1) [of "length bs"]
    using assms(2,3) u M_packet_parse(1) [of "length bs" a bs] by (simp add: i [simplified] M_data_bytes mem_write_host)
  show peek: "t_peek t x ?w = (if unat (x - a) < length bs then bs ! unat (x - a) else t_peek t x (machine g))" for x
    by (rule peek_poke_all [OF assms(1,3)])
  have "map (\<lambda>i. t_peek t (a + of_nat i) ?w) [0..<length bs] = map ((!) bs) [0..<length bs]"
    using assms(3) by (simp add: peek_poke_all [OF assms(1,3)] unat_of_nat)
  then have "map (\<lambda>i. t_peek t (a + of_nat i) ?w) [0..<length bs] = bs" by (simp add: map_nth)
  then show "handle_packet t f (m_packet a (length bs)) (h\<lparr>machine := ?w\<rparr>)
      = Ok (True, send_packet (bytes_hex bs) (h\<lparr>machine := ?w\<rparr>))"
    unfolding handle_m_packet handle_m_def
    using assms(2,3) u small m_packet_parse [of "length bs" a] by (simp add: mem_read_host)
  show "handle_packet t f (M_packet a n bs) g = Out_of_bounds"
    unfolding handle_M_packet handle_M_def
    using assms(4,5) u M_packet_parse(1) [of n a bs] by (simp add: j [simplified] M_data_def)
qed

text \<open>A concrete target: registers, pc, byte memory, and a step that increments the pc.\<close>

record toy =
  toy_x :: "nat \<Rightarrow> u64"
  toy_pc :: u64
  toy_mem :: "u64 \<Rightarrow> u8"

definition toy_target :: "toy target" where
  "toy_target = \<lparr>t_xpr = (\<lambda>n w. toy_x w n), t_set_xpr = (\<lambda>n v w. if n = 0 then w else w\<lparr>toy_x := (toy_x w)(n := v)\<rparr>),
     t_pc = toy_pc, t_set_pc = (\<lambda>v w. w\<lparr>toy_pc := v\<rparr>), t_get_csr = (\<lambda>_ _. None), t_put_csr = (\<lambda>_ _ _. None),
     t_host = (\<lambda>a. True), t_peek = (\<lambda>a w. toy_mem w a), t_poke = (\<lambda>a b w. w\<lparr>toy_mem := (toy_mem w)(a := b)\<rparr>),
     t_mmio_load = (\<lambda>_ _. None), t_mmio_store = (\<lambda>_ _ _. None), t_step = (\<lambda>w. w\<lparr>toy_pc := toy_pc w + 4\<rparr>),
     t_done = (\<lambda>w. toy_mem w 0x1000 \<noteq> 0), t_exit = (\<lambda>w. uint (drop_bit 1 (toy_mem w 0x1000)))\<rparr>"

definition toy_boot :: toy where
  "toy_boot = \<lparr>toy_x = (\<lambda>_. 0), toy_pc = 0xFFFFFFFF80000000, toy_mem = (\<lambda>_. 0)\<rparr>"

theorem memory_packets_witness:
  "(\<exists>w. handle_packet toy_target 0 (M_packet 0x80001000 (length [1, 0xAB :: u8]) [1, 0xAB]) (gdb_start toy_boot)
        = Ok (True, send_packet ''OK'' ((gdb_start toy_boot)\<lparr>machine := w\<rparr>))
      \<and> (\<forall>x. t_peek toy_target x w = (if unat (x - 0x80001000) < length [1, 0xAB :: u8]
            then [1, 0xAB] ! unat (x - 0x80001000) else t_peek toy_target x (machine (gdb_start toy_boot))))
      \<and> handle_packet toy_target 0 (m_packet 0x80001000 (length [1, 0xAB :: u8])) ((gdb_start toy_boot)\<lparr>machine := w\<rparr>)
          = Ok (True, send_packet (bytes_hex [1, 0xAB]) ((gdb_start toy_boot)\<lparr>machine := w\<rparr>)))
    \<and> handle_packet toy_target 0 (M_packet 0x80001000 3 [1, 0xAB]) (gdb_start toy_boot) = Out_of_bounds"
  by (rule memory_packets) (simp_all add: target_memory_def host_range_def toy_target_def)

section \<open>Register packets\<close>

text \<open>The documented behaviour of the register file: x0 is hardwired, a write is read back and
  changes nothing else.\<close>

definition target_registers :: "'w target \<Rightarrow> bool" where
  "target_registers t \<longleftrightarrow> (\<forall>n m v w.
     t_xpr t n (t_set_xpr t m v w) = (if n = m \<and> m \<noteq> 0 then v else t_xpr t n w)
     \<and> t_pc t (t_set_xpr t m v w) = t_pc t w \<and> t_pc t (t_set_pc t v w) = v
     \<and> t_xpr t n (t_set_pc t v w) = t_xpr t n w)"

lemma trunc_xlen_32: "trunc_xlen 32 v = take_bit 32 v"
proof -
  have "push_bit 32 1 - 1 = (mask 32 :: u64)" by (simp add: mask_eq_exp_minus_1 push_bit_eq_mult)
  then show ?thesis by (simp add: trunc_xlen_def take_bit_eq_mask)
qed

lemma trunc_sext: "trunc_xlen 32 (sext_xlen 32 v) = take_bit 32 v"
  unfolding trunc_xlen_32 sext_xlen_def by (rule bit_word_eqI) (auto simp: bit_simps)

lemma hex_le_trunc: "hex_le (take_bit 32 v) 4 = hex_le v 4"
proof -
  have "(ucast (drop_bit (8 * i) (take_bit 32 v)) :: u8) = ucast (drop_bit (8 * i) v)" if "i < 4" for i
    by (rule bit_word_eqI) (use that in \<open>auto simp: bit_simps\<close>)
  then have "le_bytes (take_bit 32 v) 4 = le_bytes v 4" unfolding le_bytes_def by (intro map_cong) simp_all
  then show ?thesis by (simp add: hex_le_bytes)
qed

definition P_packet :: "nat \<Rightarrow> u64 \<Rightarrow> string" where
  "P_packet n v = CHR ''P'' # num_string 16 False n @ CHR ''='' # hex_le v 4"

definition p_packet :: "nat \<Rightarrow> string" where
  "p_packet n = CHR ''p'' # num_string 16 False n"

lemma handle_P_packet:
  assumes "n < 2 ^ 31" "reg_bytes g = 4"
  shows "handle_packet t f (P_packet n v) g = Ok (True, send_packet ''OK'' (write_reg t (int n) (take_bit 32 v) g))"
proof -
  let ?p = "CHR ''P'' # num_string 16 False n"
  have "CHR ''='' \<notin> set ?p" using num_string_no_sep by simp
  from find_char_at [OF this, of "hex_le v 4"]
  have f: "find_char (CHR ''='') (P_packet n v) = Some (length ?p)" by (simp add: P_packet_def)
  have d: "drop (length ?p + 1) (P_packet n v) = hex_le v 4"
    "take (length ?p - 1) (drop 1 (P_packet n v)) = num_string 16 False n" by (simp_all add: P_packet_def)
  have s: "strtol16_int (num_string 16 False n) = int n" using strtol16_int_num [OF assms(1), of "[]"] by simp
  have u: "unhex_le (hex_le v 4) 4 = Some (take_bit 32 v)" using unhex_le_hex_le [of 4 v "[]"] by simp
  have "handle_packet t f (P_packet n v) g = handle_P t (P_packet n v) g"
    by (simp add: handle_packet_def P_packet_def)
  also have "\<dots> = Ok (True, send_packet ''OK'' (write_reg t (int n) (take_bit 32 v) g))"
    unfolding handle_P_def f option.case d Let_def using s u assms(2) by simp
  finally show ?thesis .
qed

lemma handle_p_packet:
  assumes "n < 2 ^ 31" "reg_bytes g = 4"
  shows "handle_packet t f (p_packet n) g = Ok (True, send_packet (hex_le (read_reg t (int n) g) 4) g)"
  using strtol16_int_num [OF assms(1), of "[]"] assms(2) by (simp add: handle_packet_def p_packet_def)

lemma write_reg_frame:
  "xlen (write_reg t n v g) = xlen g" "reg_bytes (write_reg t n v g) = reg_bytes g"
  by (auto simp: write_reg_def Let_def split: option.splits)

text \<open>Register packets of the RV32 target. A \<open>P\<close> packet for a general register other than x0 or
  for the pc is answered \<open>OK\<close> and changes exactly that register; the \<open>p\<close> packet then answers with
  the same digits, also when the sign-extended value is what the simulator keeps.\<close>

theorem register_packets:
  assumes "target_registers t" "xlen g = 32" "reg_bytes g = 4" "0 < n" "n \<le> 32" "k \<le> 32"
  shows "\<exists>g'. handle_packet t f (P_packet n v) g = Ok (True, send_packet ''OK'' g')
    \<and> read_reg t (int k) g' = (if k = n then take_bit 32 v else read_reg t (int k) g)
    \<and> handle_packet t f (p_packet n) g' = Ok (True, send_packet (hex_le v 4) g')"
proof -
  let ?g = "write_reg t (int n) (take_bit 32 v) g"
  have tt: "trunc_xlen 32 (sext_xlen 32 (take_bit 32 v)) = take_bit 32 v" by (simp add: trunc_sext)
  have r: "read_reg t (int j) ?g = (if j = n then take_bit 32 v else read_reg t (int j) g)" if "j \<le> 32" for j
    using assms(1,2,4,5) that tt by (auto simp: read_reg_def write_reg_def target_registers_def)
  have p: "handle_packet t f (p_packet n) ?g = Ok (True, send_packet (hex_le v 4) ?g)"
    using handle_p_packet [of n ?g] assms(3,5) r [of n] by (simp add: write_reg_frame hex_le_trunc)
  show ?thesis using handle_P_packet [of n g t f v] assms(3,5) r [OF assms(6)] p by (intro exI [of _ ?g]) simp
qed

theorem register_packets_witness:
  "\<exists>g'. handle_packet toy_target 0 (P_packet 32 0x80000044) (gdb_start toy_boot) = Ok (True, send_packet ''OK'' g')
    \<and> read_reg toy_target (int 32) g' = (if (32::nat) = 32 then take_bit 32 0x80000044 else read_reg toy_target (int 32) (gdb_start toy_boot))
    \<and> handle_packet toy_target 0 (p_packet 32) g' = Ok (True, send_packet (hex_le 0x80000044 4) g')"
  by (rule register_packets) (simp_all add: target_registers_def toy_target_def gdb_start_def)

section \<open>Breakpoints and continue\<close>

definition run_state :: "'w target \<Rightarrow> nat \<Rightarrow> 'w gdb \<Rightarrow> 'w" where
  "run_state t k g = (t_step t ^^ k) (machine g)"

definition stops_at :: "'w target \<Rightarrow> nat \<Rightarrow> 'w gdb \<Rightarrow> bool" where
  "stops_at t k g \<longleftrightarrow> t_done t (run_state t k g) \<or> trunc_xlen (xlen g) (t_pc t (run_state t k g)) \<in> breakpoints g"

lemma run_state_step: "run_state t k (g\<lparr>machine := t_step t (machine g)\<rparr>) = run_state t (Suc k) g"
  by (simp add: run_state_def funpow_Suc_right del: funpow.simps(2))

lemma run_state_polls: "run_state t k (g\<lparr>conn_polls := ps\<rparr>) = run_state t k g"
  by (simp add: run_state_def)

lemma poll_none:
  "set (conn_polls g) \<subseteq> {False} \<Longrightarrow> check_interrupt g = (False, g\<lparr>conn_polls := drop 1 (conn_polls g)\<rparr>)"
  by (cases "conn_polls g") (simp_all add: check_interrupt_def)

definition reply_stop :: "'w target \<Rightarrow> 'w gdb \<Rightarrow> 'w gdb" where
  "reply_stop t g = (if t_done t (machine g) then send_exited t g else send_stop_bp g)"

lemma continue_loop_stops:
  assumes "set (conn_polls g) \<subseteq> {False}" "stops_at t (Suc k) g" "\<forall>j. 0 < j \<and> j \<le> k \<longrightarrow> \<not> stops_at t j g"
  shows "continue_loop t n fuel g = (if fuel \<le> k then Still_running
     else Ok (reply_stop t (g\<lparr>machine := run_state t (Suc k) g,
        conn_polls := drop ((n + k) div POLL_EVERY - n div POLL_EVERY) (conn_polls g)\<rparr>)))"
  using assms
proof (induction k arbitrary: n fuel g)
  case 0
  then show ?case
    by (cases fuel) (auto simp: Let_def reply_stop_def stops_at_def run_state_def get_pc_def)
next
  case (Suc k)
  show ?case
  proof (cases fuel)
    case (Suc fuel')
    let ?g = "g\<lparr>machine := t_step t (machine g)\<rparr>"
    let ?d = "if Suc n mod POLL_EVERY = 0 then 1 else 0"
    let ?h = "?g\<lparr>conn_polls := drop ?d (conn_polls g)\<rparr>"
    have no: "\<not> stops_at t 1 g" using Suc.prems(3) by simp
    then have nd: "\<not> t_done t (machine ?g)" "get_pc t ?g \<notin> breakpoints g"
      by (simp_all add: stops_at_def run_state_def get_pc_def)
    have one: "continue_loop t n fuel g = continue_loop t (Suc n) fuel' ?h"
      using nd poll_none [of ?g] Suc.prems(1) by (simp add: \<open>fuel = Suc fuel'\<close> Let_def)
    have st: "stops_at t j ?h = stops_at t (Suc j) g" for j
      by (simp add: stops_at_def run_state_step run_state_polls)
    have pl: "set (conn_polls ?h) \<subseteq> {False}" using Suc.prems(1) set_drop_subset by fastforce
    have dv: "Suc n div POLL_EVERY = n div POLL_EVERY + ?d" by (simp add: div_Suc POLL_EVERY_def)
    have le: "Suc n div POLL_EVERY \<le> (Suc n + k) div POLL_EVERY" by (simp add: div_le_mono)
    have "continue_loop t (Suc n) fuel' ?h = (if fuel' \<le> k then Still_running
     else Ok (reply_stop t (?h\<lparr>machine := run_state t (Suc k) ?h,
        conn_polls := drop ((Suc n + k) div POLL_EVERY - Suc n div POLL_EVERY) (conn_polls ?h)\<rparr>)))"
    proof (rule Suc.IH [OF pl])
      show "stops_at t (Suc k) ?h" using Suc.prems(2) st by simp
      show "\<forall>j. 0 < j \<and> j \<le> k \<longrightarrow> \<not> stops_at t j ?h" using Suc.prems(3) st by simp
    qed
    moreover have "drop ((Suc n + k) div POLL_EVERY - Suc n div POLL_EVERY) (conn_polls ?h)
        = drop ((n + Suc k) div POLL_EVERY - n div POLL_EVERY) (conn_polls g)"
      using dv le by simp
    ultimately show ?thesis
      unfolding one using \<open>fuel = Suc fuel'\<close> by (simp add: run_state_step run_state_polls)
  qed simp
qed

definition Z_packet :: "char \<Rightarrow> u64 \<Rightarrow> string" where
  "Z_packet z a = z # CHR ''0'' # CHR '','' # num_string 16 False (unat a) @ '',4''"

lemma handle_Z_packet:
  assumes "z = CHR ''Z'' \<or> z = CHR ''z''"
  shows "handle_packet t f (Z_packet z a) g = Ok (True, send_packet ''OK'' (g\<lparr>breakpoints :=
     (if z = CHR ''Z'' then insert (trunc_xlen (xlen g) a) (breakpoints g)
      else breakpoints g - {trunc_xlen (xlen g) a})\<rparr>))"
proof -
  have "strtoull16 (num_string 16 False (unat a) @ '',4'') = (a, '',4'')"
    using strtoull16_num [of "unat a" "'',4''"] u64_bound [of a] by simp
  moreover have "handle_packet t f (Z_packet z a) g = Ok (True, handle_Z (Z_packet z a) g)"
    using assms by (elim disjE) (simp_all add: handle_packet_def Z_packet_def)
  ultimately show ?thesis by (simp add: handle_Z_def Z_packet_def Let_def)
qed

text \<open>C14: Breakpoints and continue. A \<open>Z0\<close> packet adds the address, truncated to the register width,
  and \<open>z0\<close> removes it. With no interrupt from the debugger, \<open>c\<close> executes instructions until
  the first one, and at least one, after which the program has ended or the pc, truncated to the same
  width, is a breakpoint; it then stops exactly there and reports which of the two it was. Any number
  of instructions allowed from that one on gives this result.\<close>

theorem continue_stops:
  assumes "z = CHR ''Z'' \<or> z = CHR ''z''" "set (conn_polls g) \<subseteq> {False}" "\<not> exited g"
    "stops_at t (Suc k) g" "\<forall>j. 0 < j \<and> j \<le> k \<longrightarrow> \<not> stops_at t j g" "k < fuel"
  shows "handle_packet t fuel (Z_packet z a) g = Ok (True, send_packet ''OK'' (g\<lparr>breakpoints :=
       (if z = CHR ''Z'' then insert (trunc_xlen (xlen g) a) (breakpoints g)
        else breakpoints g - {trunc_xlen (xlen g) a})\<rparr>))
    \<and> handle_packet t fuel ''c'' g = Ok (True, reply_stop t (g\<lparr>machine := run_state t (Suc k) g,
        conn_polls := drop (k div POLL_EVERY) (conn_polls g)\<rparr>))"
proof
  show "handle_packet t fuel ''c'' g = Ok (True, reply_stop t (g\<lparr>machine := run_state t (Suc k) g,
        conn_polls := drop (k div POLL_EVERY) (conn_polls g)\<rparr>))"
    using continue_loop_stops [OF assms(2,4,5), of 0 fuel] assms(3,6)
    by (simp add: handle_packet_def do_continue_def map_rsp_def)
qed (rule handle_Z_packet [OF assms(1)])

definition gdb_break :: "toy gdb" where
  "gdb_break = (gdb_start toy_boot)\<lparr>breakpoints := {0x80000008}\<rparr>"

theorem continue_stops_witness:
  "handle_packet toy_target 10 (Z_packet (CHR ''z'') 0x80000008) gdb_break = Ok (True, send_packet ''OK'' (gdb_break\<lparr>breakpoints :=
       (if CHR ''z'' = CHR ''Z'' then insert (trunc_xlen (xlen gdb_break) 0x80000008) (breakpoints gdb_break)
        else breakpoints gdb_break - {trunc_xlen (xlen gdb_break) 0x80000008})\<rparr>))
    \<and> handle_packet toy_target 10 ''c'' gdb_break = Ok (True, reply_stop toy_target (gdb_break\<lparr>machine := run_state toy_target (Suc 1) gdb_break,
        conn_polls := drop (1 div POLL_EVERY) (conn_polls gdb_break)\<rparr>))"
proof (rule continue_stops)
  show "\<forall>j. 0 < j \<and> j \<le> 1 \<longrightarrow> \<not> stops_at toy_target j gdb_break"
  proof (intro allI impI)
    fix j :: nat
    assume "0 < j \<and> j \<le> 1"
    then have "j = 1" by simp
    then show "\<not> stops_at toy_target j gdb_break"
      by (simp add: stops_at_def run_state_def toy_target_def toy_boot_def gdb_break_def gdb_start_def trunc_xlen_def)
  qed
qed (simp_all add: stops_at_def run_state_def toy_target_def toy_boot_def gdb_break_def gdb_start_def trunc_xlen_def numeral_2_eq_2 eval_nat_numeral)

end
