(* ===== verification/Mailbox.thy ===== *)
theory Mailbox
  imports Platform_Prelude
begin

text \<open>
  The host and device handshake over the breakpoint mailbox: Platform/Common/Src/util.c
  (\<open>bp_init\<close>, \<open>dut_set_bp\<close>, \<open>dut_wait_bp\<close>) on the device, verif/backend/chipyard/verif_host.h
  (\<open>wait_dut_ready\<close>, \<open>host_wait_bp\<close>) on the host, driven by the two programs of the CLINT
  software-interrupt test (verif/ip/S5740/CLINT/sw_interrupt). Every volatile access is a step of
  its own and the two sides interleave freely; the bounded polls of the host keep their counts.
\<close>

section \<open>Protocol\<close>

definition BP_MEM_WRITE :: u32 where "BP_MEM_WRITE = 0xFFFFFFF0"
definition BP_TEST_init :: u32 where "BP_TEST_init = 0xFFFFFFF1"
definition BP_TEST_begin :: u32 where "BP_TEST_begin = 0xFFFFFFF2"
definition BP_TEST_success :: u32 where "BP_TEST_success = 0xFFFFFFF3"
definition BP_TEST_fail :: u32 where "BP_TEST_fail = 0xFFFFFFF4"
definition BP_TEST_end :: u32 where "BP_TEST_end = 0xFFFFFFF5"
definition BP_END :: u32 where "BP_END = 0xFFFFFFFF"

lemmas bp_consts = BP_MEM_WRITE_def BP_TEST_init_def BP_TEST_begin_def BP_TEST_success_def
  BP_TEST_fail_def BP_TEST_end_def BP_END_def

definition VERIF_BP_TIMEOUT :: nat where "VERIF_BP_TIMEOUT = 2000000"
definition VERIF_DUT_READY_TIMEOUT :: nat where "VERIF_DUT_READY_TIMEOUT = 50000"
definition BP_MAX :: nat where "BP_MAX = 5"

section \<open>State\<close>

text \<open>Where the device is: in \<open>bp_init\<close>, in the set-up of \<open>main\<close>, at the head of its loop, in a wait
  (round, awaited value, which read of the iteration), enabling interrupts, in \<open>dut_set_bp\<close>
  (round, which access), returned, or in \<open>exit\<close>.\<close>

datatype dut_pc = D_boot | D_main | D_loop nat | D_wait nat u32 nat | D_enable nat | D_set nat nat
  | D_return | D_exit u32

text \<open>Where the host is; polls are counted in the barrier and in the wait.\<close>

datatype host_pc = H_barrier nat | H_loop nat | H_begin nat | H_wait nat nat | H_check nat
  | H_success nat | H_ret bool

record sys =
  break_point :: u32
  test_word :: u32
  msip :: bool
  msie_on :: bool
  mie_on :: bool
  in_isr :: bool
  dpc :: dut_pc
  hpc :: host_pc

section \<open>The device\<close>

text \<open>One read of \<open>dut_wait_bp\<close>'s loop: the value returned, or the next read.\<close>

definition dut_wait_start :: "u32 \<Rightarrow> nat" where
  "dut_wait_start bp_num = (if bp_num = BP_MEM_WRITE \<or> bp_num = BP_TEST_success then 0 else 1)"

definition dut_wait_read :: "u32 \<Rightarrow> nat \<Rightarrow> u32 \<Rightarrow> u32 + nat" where
  "dut_wait_read bp_num q v =
     (if q = 0 then if v = BP_TEST_begin then Inl 0 else Inr 1
      else if q = 1 then if v = bp_num then Inl 0 else Inr 2
      else if q = 2 then if v = BP_END then Inl 1 else Inr 3
      else if v = BP_TEST_fail then Inl 1 else Inr (dut_wait_start bp_num))"

definition dut_wait_bp :: "nat \<Rightarrow> u32 \<Rightarrow> nat \<Rightarrow> dut_pc \<Rightarrow> sys \<Rightarrow> sys" where
  "dut_wait_bp k bp_num q after s =
     (case dut_wait_read bp_num q (break_point s) of
        Inr q' \<Rightarrow> s\<lparr>dpc := D_wait k bp_num q'\<rparr>
      | Inl r \<Rightarrow> if r \<noteq> 0 then s\<lparr>dpc := D_exit 1\<rparr> else s\<lparr>dpc := after\<rparr>)"

text \<open>\<open>dut_set_bp\<close>: two reads, then the write.\<close>

definition dut_set_bp :: "u32 \<Rightarrow> nat \<Rightarrow> (nat \<Rightarrow> dut_pc) \<Rightarrow> dut_pc \<Rightarrow> sys \<Rightarrow> sys" where
  "dut_set_bp bp_num q self after s =
     (if q = 0 then if break_point s = BP_END then s\<lparr>dpc := after\<rparr> else s\<lparr>dpc := self 1\<rparr>
      else if q = 1 then if break_point s = BP_TEST_fail then s\<lparr>dpc := after\<rparr> else s\<lparr>dpc := self 2\<rparr>
      else s\<lparr>break_point := bp_num, dpc := after\<rparr>)"

definition bp_init :: "sys \<Rightarrow> sys" where
  "bp_init s = s\<lparr>break_point := BP_TEST_init, dpc := D_main\<rparr>"

text \<open>The interrupt handler \<open>swint_test\<close> in two steps: count, then clear the request.\<close>

definition swint_test :: "sys \<Rightarrow> sys" where
  "swint_test s =
     (if in_isr s then s\<lparr>msip := False, in_isr := False\<rparr>
      else s\<lparr>test_word := test_word s + 1, in_isr := True\<rparr>)"

text \<open>One step of the device: a pending, enabled software interrupt is taken first.\<close>

definition dut_step :: "sys \<Rightarrow> sys" where
  "dut_step s =
     (if in_isr s \<or> msip s \<and> msie_on s \<and> mie_on s then swint_test s
      else case dpc s of
        D_boot \<Rightarrow> bp_init s
      | D_main \<Rightarrow> s\<lparr>msie_on := True, dpc := D_loop 0\<rparr>
      | D_loop k \<Rightarrow> if k < BP_MAX
          then s\<lparr>mie_on := False, dpc := D_wait k BP_TEST_begin (dut_wait_start BP_TEST_begin)\<rparr>
          else s\<lparr>dpc := D_return\<rparr>
      | D_wait k n q \<Rightarrow> dut_wait_bp k n q (if n = BP_TEST_begin then D_enable k else D_loop (k + 1)) s
      | D_enable k \<Rightarrow> s\<lparr>mie_on := True, dpc := D_set k 0\<rparr>
      | D_set k q \<Rightarrow> dut_set_bp BP_TEST_end q (D_set k)
          (D_wait k BP_TEST_success (dut_wait_start BP_TEST_success)) s
      | D_return \<Rightarrow> s
      | D_exit c \<Rightarrow> s)"

section \<open>The host\<close>

definition host_set_bp :: "u32 \<Rightarrow> sys \<Rightarrow> sys" where
  "host_set_bp bp s = s\<lparr>break_point := bp\<rparr>"

text \<open>One poll of \<open>wait_dut_ready\<close>; when the polls run out it goes on anyway.\<close>

definition wait_dut_ready :: "nat \<Rightarrow> sys \<Rightarrow> sys" where
  "wait_dut_ready n s =
     (if n < VERIF_DUT_READY_TIMEOUT
      then if break_point s = BP_TEST_init then s\<lparr>hpc := H_loop 0\<rparr> else s\<lparr>hpc := H_barrier (n + 1)\<rparr>
      else s\<lparr>hpc := H_loop 0\<rparr>)"

text \<open>One poll of \<open>host_wait_bp\<close>; when the polls run out the test returns false.\<close>

definition host_wait_bp :: "u32 \<Rightarrow> nat \<Rightarrow> nat \<Rightarrow> sys \<Rightarrow> sys" where
  "host_wait_bp bp k n s =
     (if n < VERIF_BP_TIMEOUT
      then if break_point s = bp then s\<lparr>hpc := H_check k\<rparr> else s\<lparr>hpc := H_wait k (n + 1)\<rparr>
      else s\<lparr>hpc := H_ret False\<rparr>)"

definition host_step :: "sys \<Rightarrow> sys" where
  "host_step s =
     (case hpc s of
        H_barrier n \<Rightarrow> wait_dut_ready n s
      | H_loop k \<Rightarrow> if k < BP_MAX then s\<lparr>msip := True, hpc := H_begin k\<rparr> else s\<lparr>hpc := H_ret True\<rparr>
      | H_begin k \<Rightarrow> (host_set_bp BP_TEST_begin s)\<lparr>hpc := H_wait k 0\<rparr>
      | H_wait k n \<Rightarrow> host_wait_bp BP_TEST_end k n s
      | H_check k \<Rightarrow> if test_word s = of_nat (k + 1) then s\<lparr>hpc := H_success k\<rparr> else s\<lparr>hpc := H_ret False\<rparr>
      | H_success k \<Rightarrow> (host_set_bp BP_TEST_success s)\<lparr>hpc := H_loop (k + 1)\<rparr>
      | H_ret b \<Rightarrow> s)"

section \<open>Runs\<close>

text \<open>No poll count has run out.\<close>

definition in_time :: "sys \<Rightarrow> bool" where
  "in_time s = (case hpc s of H_barrier n \<Rightarrow> n < VERIF_DUT_READY_TIMEOUT | H_wait k n \<Rightarrow> n < VERIF_BP_TIMEOUT | _ \<Rightarrow> True)"

text \<open>Any interleaving in which the host does not time out.\<close>

inductive mb_steps :: "sys \<Rightarrow> sys \<Rightarrow> bool" where
  stay: "mb_steps s s"
| dut: "mb_steps s t \<Longrightarrow> mb_steps s (dut_step t)"
| host: "mb_steps s t \<Longrightarrow> in_time t \<Longrightarrow> mb_steps s (host_step t)"

text \<open>Reset: memory is zero, the mailbox holds anything but the ready mark.\<close>

definition mb_reset :: "u32 \<Rightarrow> host_pc \<Rightarrow> sys" where
  "mb_reset bp h = \<lparr>break_point = bp, test_word = 0, msip = False, msie_on = False, mie_on = False,
     in_isr = False, dpc = D_boot, hpc = h\<rparr>"

section \<open>The invariant\<close>

text \<open>The device has not yet taken round \<open>k\<close>.\<close>

definition dut_before :: "nat \<Rightarrow> sys \<Rightarrow> bool" where
  "dut_before k s =
     (case dpc s of
        D_main \<Rightarrow> k = 0
      | D_loop j \<Rightarrow> j = k
      | D_return \<Rightarrow> k = BP_MAX
      | D_wait j n q \<Rightarrow> n = BP_TEST_success \<and> k = j + 1 \<and> q \<le> 3
          \<or> n = BP_TEST_begin \<and> j = k \<and> k < BP_MAX \<and> 0 < q \<and> q \<le> 3
      | _ \<Rightarrow> False)"

text \<open>The device is in round \<open>k\<close>, before its \<open>BP_TEST_end\<close>, or after it.\<close>

definition dut_inside :: "nat \<Rightarrow> sys \<Rightarrow> bool" where
  "dut_inside k s = (case dpc s of D_enable j \<Rightarrow> j = k | D_set j q \<Rightarrow> j = k \<and> q \<le> 2 \<and> mie_on s | _ \<Rightarrow> False)"

definition dut_ended :: "nat \<Rightarrow> sys \<Rightarrow> bool" where
  "dut_ended k s = (case dpc s of D_wait j n q \<Rightarrow> j = k \<and> n = BP_TEST_success \<and> q \<le> 3 | _ \<Rightarrow> False)"

text \<open>Interrupts counted and still to be counted.\<close>

definition swint_total :: "sys \<Rightarrow> u32" where
  "swint_total s = test_word s + (if msip s \<and> \<not> in_isr s then 1 else 0)"

definition host_round :: "sys \<Rightarrow> bool" where
  "host_round s =
     (case hpc s of
        H_barrier n \<Rightarrow> swint_total s = 0 \<and> \<not> msip s \<and>
          (dpc s = D_boot \<and> break_point s \<noteq> BP_TEST_init \<or> break_point s = BP_TEST_init \<and> dut_before 0 s)
      | H_loop k \<Rightarrow> k \<le> BP_MAX \<and> swint_total s = of_nat k \<and> \<not> msip s \<and> dut_before k s
          \<and> break_point s = (if k = 0 then BP_TEST_init else BP_TEST_success)
      | H_begin k \<Rightarrow> k < BP_MAX \<and> swint_total s = of_nat (k + 1) \<and> dut_before k s
          \<and> break_point s = (if k = 0 then BP_TEST_init else BP_TEST_success)
      | H_wait k n \<Rightarrow> k < BP_MAX \<and> swint_total s = of_nat (k + 1)
          \<and> (break_point s = BP_TEST_begin \<and> (dut_before k s \<or> dut_inside k s)
             \<or> break_point s = BP_TEST_end \<and> dut_ended k s \<and> \<not> msip s)
      | H_check k \<Rightarrow> k < BP_MAX \<and> swint_total s = of_nat (k + 1) \<and> \<not> msip s
          \<and> break_point s = BP_TEST_end \<and> dut_ended k s
      | H_success k \<Rightarrow> k < BP_MAX \<and> swint_total s = of_nat (k + 1) \<and> \<not> msip s
          \<and> break_point s = BP_TEST_end \<and> dut_ended k s
      | H_ret b \<Rightarrow> b \<and> swint_total s = of_nat BP_MAX \<and> \<not> msip s \<and> break_point s = BP_TEST_success \<and> dut_before BP_MAX s)"

definition mb_inv :: "sys \<Rightarrow> bool" where
  "mb_inv s \<longleftrightarrow> host_round s \<and> (in_isr s \<longrightarrow> msip s) \<and> (dpc s = D_boot \<or> dpc s = D_main \<or> msie_on s)"

lemma mb_inv_reset: "bp \<noteq> BP_TEST_init \<Longrightarrow> mb_inv (mb_reset bp (H_barrier 0))"
  by (simp add: mb_inv_def mb_reset_def host_round_def swint_total_def)

lemma bp_neq [simp]:
  "BP_TEST_init \<noteq> BP_TEST_begin" "BP_TEST_init \<noteq> BP_TEST_success" "BP_TEST_init \<noteq> BP_TEST_end"
  "BP_TEST_init \<noteq> BP_END" "BP_TEST_init \<noteq> BP_TEST_fail" "BP_TEST_init \<noteq> BP_MEM_WRITE"
  "BP_TEST_begin \<noteq> BP_TEST_init" "BP_TEST_begin \<noteq> BP_TEST_success" "BP_TEST_begin \<noteq> BP_TEST_end"
  "BP_TEST_begin \<noteq> BP_END" "BP_TEST_begin \<noteq> BP_TEST_fail" "BP_TEST_begin \<noteq> BP_MEM_WRITE"
  "BP_TEST_success \<noteq> BP_TEST_init" "BP_TEST_success \<noteq> BP_TEST_begin" "BP_TEST_success \<noteq> BP_TEST_end"
  "BP_TEST_success \<noteq> BP_END" "BP_TEST_success \<noteq> BP_TEST_fail" "BP_TEST_success \<noteq> BP_MEM_WRITE"
  "BP_TEST_end \<noteq> BP_TEST_init" "BP_TEST_end \<noteq> BP_TEST_begin" "BP_TEST_end \<noteq> BP_TEST_success"
  "BP_TEST_end \<noteq> BP_END" "BP_TEST_end \<noteq> BP_TEST_fail" "BP_TEST_end \<noteq> BP_MEM_WRITE"
  "BP_END \<noteq> BP_TEST_init" "BP_END \<noteq> BP_TEST_begin" "BP_END \<noteq> BP_TEST_success"
  "BP_END \<noteq> BP_TEST_end" "BP_END \<noteq> BP_TEST_fail" "BP_END \<noteq> BP_MEM_WRITE"
  "BP_TEST_fail \<noteq> BP_TEST_init" "BP_TEST_fail \<noteq> BP_TEST_begin" "BP_TEST_fail \<noteq> BP_TEST_success"
  "BP_TEST_fail \<noteq> BP_TEST_end" "BP_TEST_fail \<noteq> BP_END" "BP_TEST_fail \<noteq> BP_MEM_WRITE"
  "BP_MEM_WRITE \<noteq> BP_TEST_init" "BP_MEM_WRITE \<noteq> BP_TEST_begin" "BP_MEM_WRITE \<noteq> BP_TEST_success"
  "BP_MEM_WRITE \<noteq> BP_TEST_end" "BP_MEM_WRITE \<noteq> BP_END" "BP_MEM_WRITE \<noteq> BP_TEST_fail"
  by (simp_all add: bp_consts)

lemma BP_MAX_pos [simp]: "0 < BP_MAX" "BP_MAX \<noteq> 0" by (simp_all add: BP_MAX_def)

lemma dut_wait_start_simps [simp]: "dut_wait_start BP_TEST_begin = 1" "dut_wait_start BP_TEST_success = 0"
  by (simp_all add: dut_wait_start_def)

lemma dut_place_frame [simp]:
  "dut_before k (s\<lparr>hpc := h\<rparr>) = dut_before k s" "dut_inside k (s\<lparr>hpc := h\<rparr>) = dut_inside k s"
  "dut_ended k (s\<lparr>hpc := h\<rparr>) = dut_ended k s"
  "dut_before k (s\<lparr>msip := b\<rparr>) = dut_before k s" "dut_inside k (s\<lparr>msip := b\<rparr>) = dut_inside k s"
  "dut_ended k (s\<lparr>msip := b\<rparr>) = dut_ended k s"
  "dut_before k (s\<lparr>in_isr := b\<rparr>) = dut_before k s" "dut_inside k (s\<lparr>in_isr := b\<rparr>) = dut_inside k s"
  "dut_ended k (s\<lparr>in_isr := b\<rparr>) = dut_ended k s"
  "dut_before k (s\<lparr>break_point := v\<rparr>) = dut_before k s" "dut_inside k (s\<lparr>break_point := v\<rparr>) = dut_inside k s"
  "dut_ended k (s\<lparr>break_point := v\<rparr>) = dut_ended k s"
  "dut_before k (s\<lparr>test_word := v\<rparr>) = dut_before k s" "dut_inside k (s\<lparr>test_word := v\<rparr>) = dut_inside k s"
  "dut_ended k (s\<lparr>test_word := v\<rparr>) = dut_ended k s"
  by (simp_all add: dut_before_def dut_inside_def dut_ended_def split: dut_pc.split)

lemma dut_inside_main: "dut_inside k s \<Longrightarrow> dpc s \<noteq> D_main \<and> dpc s \<noteq> D_boot"
  by (auto simp: dut_inside_def)

lemma dut_ended_before: "dut_ended k s \<Longrightarrow> dut_before (Suc k) s"
  by (simp add: dut_ended_def dut_before_def split: dut_pc.splits)

lemma mb_inv_host:
  assumes "mb_inv s" "in_time s"
  shows "mb_inv (host_step s)"
  using assms
  by (cases "hpc s")
    (auto simp: mb_inv_def host_round_def host_step_def wait_dut_ready_def host_wait_bp_def host_set_bp_def in_time_def
      swint_total_def dut_ended_before)

lemma swint_test_inv:
  assumes "mb_inv s" "in_isr s \<or> msip s \<and> msie_on s \<and> mie_on s"
  shows "mb_inv (swint_test s)"
  using assms
  by (cases "hpc s")
    (auto simp: mb_inv_def host_round_def swint_test_def swint_total_def)

lemma phase_cases: "q \<le> 3 \<longleftrightarrow> q = 0 \<or> q = 1 \<or> q = 2 \<or> q = (3::nat)" "q \<le> 2 \<longleftrightarrow> q = 0 \<or> q = 1 \<or> q = (2::nat)"
  by linarith+

lemma dut_step_main: "\<not> (in_isr s \<or> msip s \<and> msie_on s \<and> mie_on s) \<Longrightarrow> hpc (dut_step s) = hpc s"
  by (auto simp: dut_step_def bp_init_def dut_wait_bp_def dut_set_bp_def Let_def split: dut_pc.splits sum.splits)

lemma dut_step_plain:
  assumes "\<not> (in_isr s \<or> msip s \<and> msie_on s \<and> mie_on s)"
  shows "dpc s = D_main \<Longrightarrow> dut_step s = s\<lparr>msie_on := True, dpc := D_loop 0\<rparr>"
    "dpc s = D_loop k \<Longrightarrow> dut_step s = (if k < BP_MAX then s\<lparr>mie_on := False, dpc := D_wait k BP_TEST_begin 1\<rparr>
       else s\<lparr>dpc := D_return\<rparr>)"
    "dpc s = D_wait k n q \<Longrightarrow> dut_step s = dut_wait_bp k n q (if n = BP_TEST_begin then D_enable k else D_loop (k + 1)) s"
    "dpc s = D_enable k \<Longrightarrow> dut_step s = s\<lparr>mie_on := True, dpc := D_set k 0\<rparr>"
    "dpc s = D_set k q \<Longrightarrow> dut_step s = dut_set_bp BP_TEST_end q (D_set k) (D_wait k BP_TEST_success 0) s"
    "dpc s = D_return \<Longrightarrow> dut_step s = s"
  unfolding dut_step_def if_not_P [OF assms] by simp_all

text \<open>What a step does to the device in each of the three places it can be in.\<close>

lemma dut_before_step:
  assumes "dut_before k s" "\<not> (in_isr s \<or> msip s \<and> msie_on s \<and> mie_on s)" "k \<le> BP_MAX"
    "break_point s \<in> {BP_TEST_init, BP_TEST_begin, BP_TEST_success}"
    "break_point s = BP_TEST_begin \<longrightarrow> k < BP_MAX" "break_point s = BP_TEST_init \<longrightarrow> k = 0"
  shows "(dut_before k (dut_step s) \<or> break_point s = BP_TEST_begin \<and> dut_inside k (dut_step s))
    \<and> break_point (dut_step s) = break_point s"
proof (cases "dpc s")
  case (D_wait j n q)
  let ?a = "if n = BP_TEST_begin then D_enable j else D_loop (j + 1)"
  have st: "dut_step s = dut_wait_bp j n q ?a s" by (rule dut_step_plain(3) [OF assms(2) D_wait])
  have n: "n = BP_TEST_success \<and> k = j + 1 \<and> q \<le> 3 \<or> n = BP_TEST_begin \<and> j = k \<and> k < BP_MAX \<and> 0 < q \<and> q \<le> 3"
    using assms(1) D_wait by (simp add: dut_before_def)
  then have r: "dut_wait_read n q (break_point s) \<in> {Inl 0, Inr 1, Inr 2, Inr 3, Inr (dut_wait_start n)}"
    "n = BP_TEST_begin \<longrightarrow> dut_wait_read n q (break_point s) \<in> {Inl 0, Inr 2, Inr 3, Inr 1}"
    "n = BP_TEST_begin \<and> dut_wait_read n q (break_point s) = Inl 0 \<longrightarrow> break_point s = BP_TEST_begin"
    using assms(4) by (auto simp: dut_wait_read_def)
  show ?thesis unfolding st using n r
    by (auto simp: dut_wait_bp_def dut_before_def dut_inside_def)
next
  case (D_loop j)
  then show ?thesis using assms dut_step_plain(2) [OF assms(2) D_loop] by (auto simp: dut_before_def)
qed (use assms dut_step_plain [OF assms(2)] in \<open>auto simp: dut_before_def\<close>)

lemma dut_inside_step:
  assumes "dut_inside k s" "\<not> (in_isr s \<or> msip s \<and> msie_on s \<and> mie_on s)" "break_point s = BP_TEST_begin"
  shows "dut_inside k (dut_step s) \<and> break_point (dut_step s) = BP_TEST_begin
    \<or> dut_ended k (dut_step s) \<and> break_point (dut_step s) = BP_TEST_end \<and> mie_on s"
proof (cases "dpc s")
  case (D_set j q)
  then have "q = 0 \<or> q = 1 \<or> q = 2" using assms(1) by (auto simp: dut_inside_def phase_cases)
  then show ?thesis
    using assms D_set dut_step_plain(5) [OF assms(2) D_set]
    by (elim disjE) (auto simp: dut_inside_def dut_ended_def dut_set_bp_def)
qed (use assms dut_step_plain(4) [OF assms(2)] in \<open>auto simp: dut_inside_def\<close>)

lemma dut_ended_step:
  assumes "dut_ended k s" "\<not> (in_isr s \<or> msip s \<and> msie_on s \<and> mie_on s)" "break_point s = BP_TEST_end"
  shows "dut_ended k (dut_step s) \<and> break_point (dut_step s) = BP_TEST_end"
proof (cases "dpc s")
  case (D_wait j n q)
  then have "q = 0 \<or> q = 1 \<or> q = 2 \<or> q = 3" using assms(1) by (auto simp: dut_ended_def phase_cases)
  then show ?thesis
    using assms D_wait dut_step_plain(3) [OF assms(2) D_wait]
    by (elim disjE) (auto simp: dut_ended_def dut_wait_bp_def dut_wait_read_def)
qed (use assms in \<open>auto simp: dut_ended_def\<close>)

lemma dut_step_frame:
  assumes "\<not> (in_isr s \<or> msip s \<and> msie_on s \<and> mie_on s)"
  shows "test_word (dut_step s) = test_word s" "msip (dut_step s) = msip s" "in_isr (dut_step s) = in_isr s"
    "msie_on s \<Longrightarrow> msie_on (dut_step s)" "dpc s = D_main \<Longrightarrow> msie_on (dut_step s)"
  using assms
  by (auto simp: dut_step_def bp_init_def dut_wait_bp_def dut_set_bp_def split: dut_pc.splits sum.splits)

lemma mb_inv_dut:
  assumes "mb_inv s"
  shows "mb_inv (dut_step s)"
proof (cases "in_isr s \<or> msip s \<and> msie_on s \<and> mie_on s")
  case True
  then show ?thesis using swint_test_inv [OF assms True] by (simp add: dut_step_def)
next
  case False
  note fr = dut_step_frame [OF False] dut_step_main [OF False]
  have tot: "swint_total (dut_step s) = swint_total s" using fr by (simp add: swint_total_def)
  show ?thesis
  proof (cases "dpc s = D_boot")
    case True
    then have "\<exists>n. hpc s = H_barrier n" using assms
      by (cases "hpc s") (auto simp: mb_inv_def host_round_def dut_before_def dut_inside_def dut_ended_def)
    then show ?thesis using True assms False
      by (auto simp: mb_inv_def host_round_def dut_step_def bp_init_def dut_before_def swint_total_def)
  next
    case nb: False
    have ms: "msie_on (dut_step s)" using assms nb fr by (auto simp: mb_inv_def)
    have isr: "in_isr (dut_step s) \<longrightarrow> msip (dut_step s)" using assms fr by (simp add: mb_inv_def)
    have "host_round (dut_step s)"
    proof (cases "hpc s")
      case (H_wait k n)
      then show ?thesis
        using assms fr tot nb False dut_before_step [of k s] dut_inside_step [of k s] dut_ended_step [of k s] dut_inside_main [of k s]
        by (auto simp: host_round_def mb_inv_def)
    next
      case (H_barrier n)
      then show ?thesis using assms fr tot nb False dut_before_step [of 0 s] by (auto simp: host_round_def mb_inv_def)
    next
      case (H_loop k)
      then have h: "dut_before k s" "k \<le> BP_MAX" "break_point s = (if k = 0 then BP_TEST_init else BP_TEST_success)"
        using assms by (simp_all add: host_round_def mb_inv_def)
      have bp: "break_point s \<in> {BP_TEST_init, BP_TEST_begin, BP_TEST_success}" "break_point s \<noteq> BP_TEST_begin"
        "break_point s = BP_TEST_init \<longrightarrow> k = 0" unfolding h(3) by (cases "k = 0"; simp)+
      then have "dut_before k (dut_step s)" "break_point (dut_step s) = break_point s"
        using dut_before_step [OF h(1) False h(2)] bp by simp_all
      then show ?thesis using assms fr(1-3) fr(6) tot h(3) H_loop by (simp add: host_round_def mb_inv_def)
    next
      case (H_begin k)
      then have h: "dut_before k s" "k \<le> BP_MAX" "break_point s = (if k = 0 then BP_TEST_init else BP_TEST_success)"
        using assms by (simp_all add: host_round_def mb_inv_def)
      have bp: "break_point s \<in> {BP_TEST_init, BP_TEST_begin, BP_TEST_success}" "break_point s \<noteq> BP_TEST_begin"
        "break_point s = BP_TEST_init \<longrightarrow> k = 0" unfolding h(3) by (cases "k = 0"; simp)+
      then have "dut_before k (dut_step s)" "break_point (dut_step s) = break_point s"
        using dut_before_step [OF h(1) False h(2)] bp by simp_all
      then show ?thesis using assms fr(1-3) fr(6) tot h(3) H_begin by (simp add: host_round_def mb_inv_def)
    next
      case (H_check k)
      then show ?thesis using assms fr tot nb False dut_ended_step [of k s] by (auto simp: host_round_def mb_inv_def)
    next
      case (H_success k)
      then show ?thesis using assms fr tot nb False dut_ended_step [of k s] by (auto simp: host_round_def mb_inv_def)
    next
      case (H_ret b)
      then show ?thesis using assms fr tot nb False dut_before_step [of BP_MAX s] by (auto simp: host_round_def mb_inv_def)
    qed
    then show ?thesis using ms isr by (simp add: mb_inv_def)
  qed
qed

section \<open>Progress\<close>

lemma mb_steps_trans: "mb_steps t u \<Longrightarrow> mb_steps s t \<Longrightarrow> mb_steps s u"
  by (induction rule: mb_steps.induct) (auto intro: mb_steps.intros)

lemma mb_steps_inv: "mb_steps s t \<Longrightarrow> mb_inv s \<Longrightarrow> mb_inv t"
  by (induction rule: mb_steps.induct) (auto intro: mb_inv_dut mb_inv_host)

text \<open>Steps left for the device when the value it awaits is seen at read \<open>w\<close> of the iteration.\<close>

definition dut_rank :: "nat \<Rightarrow> sys \<Rightarrow> nat" where
  "dut_rank w s =
     (case dpc s of
        D_main \<Rightarrow> 59 | D_loop _ \<Rightarrow> 39
      | D_wait _ n q \<Rightarrow> if n = BP_TEST_success then 40 + (4 + w - q) mod 4 else 30 + (if q = 1 then 0 else 4 - q)
      | D_enable _ \<Rightarrow> 29 | D_set _ q \<Rightarrow> 22 - q | _ \<Rightarrow> 0)
     + (if in_isr s then 1 else if msip s \<and> msie_on s \<and> mie_on s then 2 else 0)"

lemma dut_rank_isr:
  "in_isr s \<or> msip s \<and> msie_on s \<and> mie_on s \<Longrightarrow>
   dut_rank w (dut_step s) < dut_rank w s \<and> dpc (dut_step s) = dpc s \<and> hpc (dut_step s) = hpc s
   \<and> break_point (dut_step s) = break_point s \<and> mie_on (dut_step s) = mie_on s"
  by (auto simp: dut_rank_def dut_step_def swint_test_def)

lemma dut_rank_begin:
  assumes "dut_before k s \<or> dut_inside k s" "\<not> (in_isr s \<or> msip s \<and> msie_on s \<and> mie_on s)"
    "break_point s = BP_TEST_begin" "k < BP_MAX"
  shows "dut_rank 0 (dut_step s) < dut_rank 0 s \<or> break_point (dut_step s) = BP_TEST_end"
proof (cases "dpc s")
  case (D_wait j n q)
  then have n: "n = BP_TEST_success \<and> q \<le> 3 \<or> n = BP_TEST_begin \<and> 0 < q \<and> q \<le> 3"
    using assms(1) by (auto simp: dut_before_def dut_inside_def)
  then have "q = 0 \<or> q = 1 \<or> q = 2 \<or> q = 3" by (auto simp: phase_cases)
  then show ?thesis
    using n assms(2,3) D_wait unfolding dut_step_plain(3) [OF assms(2) D_wait]
    by (elim disjE) (auto simp: dut_wait_bp_def dut_wait_read_def dut_rank_def)
next
  case (D_set j q)
  then have "q = 0 \<or> q = 1 \<or> q = 2" using assms(1) by (auto simp: dut_before_def dut_inside_def phase_cases)
  then show ?thesis
    using assms(2,3) D_set unfolding dut_step_plain(5) [OF assms(2) D_set]
    by (elim disjE) (auto simp: dut_set_bp_def dut_rank_def)
next
  case (D_loop j)
  then have "j < BP_MAX" using assms(1,4) by (auto simp: dut_before_def dut_inside_def)
  then show ?thesis using assms(2) D_loop dut_step_plain(2) [OF assms(2) D_loop] by (auto simp: dut_rank_def)
next
  case (D_enable j)
  then show ?thesis using assms(2) dut_step_plain(4) [OF assms(2) D_enable] by (auto simp: dut_rank_def)
next
  case D_main
  then show ?thesis using assms(2) dut_step_plain(1) [OF assms(2) D_main] by (auto simp: dut_rank_def)
qed (use assms in \<open>auto simp: dut_before_def dut_inside_def\<close>)

lemma dut_reaches_end:
  assumes "mb_inv s" "hpc s = H_wait k n"
  shows "\<exists>t. mb_steps s t \<and> hpc t = H_wait k n \<and> break_point t = BP_TEST_end"
  using assms
proof (induction "dut_rank 0 s" arbitrary: s rule: less_induct)
  case less
  show ?case
  proof (cases "break_point s = BP_TEST_end")
    case True
    then show ?thesis using less.prems mb_steps.stay by blast
  next
    case False
    then have b: "break_point s = BP_TEST_begin" "dut_before k s \<or> dut_inside k s" "k < BP_MAX"
      using less.prems by (auto simp: mb_inv_def host_round_def)
    let ?t = "dut_step s"
    have i: "mb_inv ?t" by (rule mb_inv_dut) (rule less.prems)
    have h: "hpc ?t = H_wait k n" using less.prems(2) dut_rank_isr [of s 0] dut_step_main [of s] by auto
    have "dut_rank 0 ?t < dut_rank 0 s \<or> break_point ?t = BP_TEST_end"
      using dut_rank_isr [of s 0] dut_rank_begin [OF b(2) _ b(1,3)] by blast
    moreover have st: "mb_steps s ?t" by (rule mb_steps.dut) (rule mb_steps.stay)
    ultimately show ?thesis using less.hyps [of ?t] i h mb_steps_trans by blast
  qed
qed

lemma dut_reaches_return:
  assumes "mb_inv s" "hpc s = H_ret True"
  shows "\<exists>t. mb_steps s t \<and> hpc t = H_ret True \<and> dpc t = D_return"
  using assms
proof (induction "dut_rank 1 s" arbitrary: s rule: less_induct)
  case less
  show ?case
  proof (cases "dpc s = D_return")
    case True
    then show ?thesis using less.prems mb_steps.stay by blast
  next
    case False
    let ?t = "dut_step s"
    have b: "break_point s = BP_TEST_success" "dut_before BP_MAX s" "\<not> msip s" "\<not> in_isr s"
      using less.prems by (auto simp: mb_inv_def host_round_def)
    then have ns: "\<not> (in_isr s \<or> msip s \<and> msie_on s \<and> mie_on s)" by simp
    have "dut_rank 1 ?t < dut_rank 1 s"
    proof (cases "dpc s")
      case (D_wait j n q)
      then have n: "n = BP_TEST_success" "q \<le> 3" using b(2) by (auto simp: dut_before_def)
      then have "q = 0 \<or> q = 1 \<or> q = 2 \<or> q = 3" by (auto simp: phase_cases)
      then show ?thesis using n b D_wait unfolding dut_step_plain(3) [OF ns D_wait]
        by (elim disjE) (auto simp: dut_wait_bp_def dut_wait_read_def dut_rank_def)
    next
      case (D_loop j)
      then show ?thesis using b dut_step_plain(2) [OF ns D_loop] by (auto simp: dut_rank_def dut_before_def)
    qed (use b False in \<open>auto simp: dut_before_def\<close>)
    moreover have "mb_inv ?t" by (rule mb_inv_dut) (rule less.prems)
    moreover have "hpc ?t = H_ret True" using less.prems(2) dut_step_main [OF ns] by simp
    moreover have "mb_steps s ?t" by (rule mb_steps.dut) (rule mb_steps.stay)
    ultimately show ?thesis using less.hyps [of ?t] mb_steps_trans by blast
  qed
qed

definition host_rank :: "host_pc \<Rightarrow> nat" where
  "host_rank h =
     (case h of H_barrier _ \<Rightarrow> 1000 | H_loop k \<Rightarrow> 5 * (BP_MAX - k) + 1 | H_begin k \<Rightarrow> 5 * (BP_MAX - k)
      | H_wait k _ \<Rightarrow> 5 * (BP_MAX - k) - 1 | H_check k \<Rightarrow> 5 * (BP_MAX - k) - 2 | H_success k \<Rightarrow> 5 * (BP_MAX - k) - 3
      | H_ret _ \<Rightarrow> 0)"

lemma host_progress:
  assumes "mb_inv s" "in_time s" "\<forall>b. hpc s \<noteq> H_ret b"
  shows "\<exists>t. mb_steps s t \<and> in_time t \<and> host_rank (hpc t) < host_rank (hpc s)"
proof -
  have one: "\<exists>t. mb_steps s t \<and> in_time t \<and> host_rank (hpc t) < host_rank (hpc s)"
    if "mb_steps s u" "in_time u" "in_time (host_step u)" "host_rank (hpc (host_step u)) < host_rank (hpc s)" for u
    using that mb_steps.host by blast
  note simps = host_step_def host_set_bp_def host_rank_def in_time_def VERIF_BP_TIMEOUT_def VERIF_DUT_READY_TIMEOUT_def
  show ?thesis
  proof (cases "hpc s")
    case (H_barrier n)
    show ?thesis
    proof (cases "break_point s = BP_TEST_init")
      case True
      show ?thesis by (rule one [of s]) (use H_barrier assms True in \<open>auto simp: simps wait_dut_ready_def mb_steps.stay BP_MAX_def\<close>)
    next
      case False
      then have d: "dut_step s = bp_init s" using H_barrier assms(1)
        by (auto simp: mb_inv_def host_round_def dut_step_def)
      show ?thesis
        by (rule one [of "dut_step s"])
          (use H_barrier assms(2) mb_steps.dut [OF mb_steps.stay [of s]] in
            \<open>auto simp: simps d bp_init_def wait_dut_ready_def BP_MAX_def\<close>)
    qed
  next
    case (H_wait k n)
    then obtain u where u: "mb_steps s u" "hpc u = H_wait k n" "break_point u = BP_TEST_end"
      using dut_reaches_end [OF assms(1)] by blast
    have "k < BP_MAX" using assms(1) H_wait by (simp add: mb_inv_def host_round_def)
    then show ?thesis
      by (intro one [of u]) (use u H_wait assms(2) in \<open>auto simp: simps host_wait_bp_def\<close>)
  next
    case (H_check k)
    then have "test_word s = of_nat (k + 1)" "k < BP_MAX" using assms(1)
      by (auto simp: mb_inv_def host_round_def swint_total_def)
    then show ?thesis by (intro one [of s]) (use H_check in \<open>auto simp: simps mb_steps.stay\<close>)
  next
    case (H_loop k)
    then have "k \<le> BP_MAX" using assms(1) by (simp add: mb_inv_def host_round_def)
    then show ?thesis by (intro one [of s]) (use H_loop in \<open>auto simp: simps mb_steps.stay\<close>)
  next
    case (H_begin k)
    then have "k < BP_MAX" using assms(1) by (simp add: mb_inv_def host_round_def)
    then show ?thesis by (intro one [of s]) (use H_begin in \<open>auto simp: simps mb_steps.stay\<close>)
  next
    case (H_success k)
    then have "k < BP_MAX" using assms(1) by (simp add: mb_inv_def host_round_def)
    then show ?thesis by (intro one [of s]) (use H_success in \<open>auto simp: simps mb_steps.stay\<close>)
  qed (use assms in auto)
qed

lemma host_reaches_ret:
  assumes "mb_inv s" "in_time s"
  shows "\<exists>t. mb_steps s t \<and> hpc t = H_ret True"
  using assms
proof (induction "host_rank (hpc s)" arbitrary: s rule: less_induct)
  case less
  show ?case
  proof (cases "\<exists>b. hpc s = H_ret b")
    case True
    then have "hpc s = H_ret True" using less.prems(1) by (auto simp: mb_inv_def host_round_def)
    then show ?thesis using mb_steps.stay by blast
  next
    case False
    then obtain t where "mb_steps s t" "in_time t" "host_rank (hpc t) < host_rank (hpc s)"
      using host_progress [OF less.prems] by blast
    then show ?thesis using less.hyps [of t] mb_steps_inv less.prems(1) mb_steps_trans by blast
  qed
qed

text \<open>C15: The handshake is safe and never stuck. From reset, with the boot barrier, under every
  interleaving of the two sides in which no poll count of the host runs out: the host never reports
  failure, the device never exits early, a finished host has seen all five interrupts counted; and
  from every state so reached, both sides can still finish.\<close>

theorem handshake_safe_and_live:
  assumes "bp \<noteq> BP_TEST_init" "mb_steps (mb_reset bp (H_barrier 0)) s" "in_time s"
  shows "hpc s \<noteq> H_ret False \<and> dpc s \<noteq> D_exit c \<and> (if hpc s = H_ret True then test_word s = of_nat BP_MAX else True)
    \<and> (\<exists>t. mb_steps s t \<and> hpc t = H_ret True \<and> dpc t = D_return \<and> test_word t = of_nat BP_MAX)"
proof -
  have i: "mb_inv s" by (rule mb_steps_inv [OF assms(2) mb_inv_reset [OF assms(1)]])
  obtain t u where t: "mb_steps s t" "hpc t = H_ret True" and u: "mb_steps t u" "hpc u = H_ret True" "dpc u = D_return"
    using host_reaches_ret [OF i assms(3)] mb_steps_inv [OF _ i] dut_reaches_return by blast
  have "test_word v = of_nat BP_MAX" if "mb_inv v" "hpc v = H_ret True" for v
    using that by (auto simp: mb_inv_def host_round_def swint_total_def)
  moreover have "mb_inv u" using mb_steps_inv t(1) u(1) i by blast
  moreover have "dpc s \<noteq> D_exit c" using i
    by (cases "hpc s") (auto simp: mb_inv_def host_round_def dut_before_def dut_inside_def dut_ended_def)
  moreover have "hpc s \<noteq> H_ret False" using i by (auto simp: mb_inv_def host_round_def)
  moreover have "mb_steps s u" using u(1) t(1) by (rule mb_steps_trans)
  ultimately show ?thesis using i u(2,3) by metis
qed

theorem handshake_safe_and_live_witness:
  "hpc (host_step (mb_reset 0 (H_barrier 0))) \<noteq> H_ret False \<and> dpc (host_step (mb_reset 0 (H_barrier 0))) \<noteq> D_exit 1
   \<and> (if hpc (host_step (mb_reset 0 (H_barrier 0))) = H_ret True
      then test_word (host_step (mb_reset 0 (H_barrier 0))) = of_nat BP_MAX else True)
   \<and> (\<exists>t. mb_steps (host_step (mb_reset 0 (H_barrier 0))) t \<and> hpc t = H_ret True \<and> dpc t = D_return \<and> test_word t = of_nat BP_MAX)"
proof (rule handshake_safe_and_live [of 0])
  have "in_time (mb_reset 0 (H_barrier 0))" by (simp add: in_time_def mb_reset_def VERIF_DUT_READY_TIMEOUT_def)
  then show "mb_steps (mb_reset 0 (H_barrier 0)) (host_step (mb_reset 0 (H_barrier 0)))"
    by (rule mb_steps.host [OF mb_steps.stay])
qed (simp_all add: bp_consts in_time_def host_step_def mb_reset_def wait_dut_ready_def VERIF_DUT_READY_TIMEOUT_def)

text \<open>The mark of \<open>bp_init\<close> is in the mailbox, nobody is going to change it, and both sides wait.\<close>

definition both_wait :: "sys \<Rightarrow> bool" where
  "both_wait t \<longleftrightarrow> break_point t = BP_TEST_init \<and> \<not> mie_on t \<and> \<not> in_isr t \<and> dut_before 0 t
     \<and> (case hpc t of H_wait k n \<Rightarrow> k = 0 | H_ret b \<Rightarrow> \<not> b | _ \<Rightarrow> False)"

lemma both_wait_steps: "mb_steps s t \<Longrightarrow> both_wait s \<Longrightarrow> both_wait t"
proof (induction rule: mb_steps.induct)
  case (dut s t)
  then have w: "both_wait t" and ns: "\<not> (in_isr t \<or> msip t \<and> msie_on t \<and> mie_on t)" by (simp_all add: both_wait_def)
  have "dut_before 0 (dut_step t) \<and> break_point (dut_step t) = break_point t"
    using dut_before_step [OF _ ns, of 0] w by (simp add: both_wait_def)
  moreover have "\<not> mie_on (dut_step t)"
  proof (cases "dpc t")
    case (D_loop k)
    then show ?thesis using w dut_step_plain(2) [OF ns D_loop] by (simp add: both_wait_def)
  next
    case (D_wait k n q)
    then show ?thesis using w dut_step_plain(3) [OF ns D_wait] by (simp add: both_wait_def dut_wait_bp_def split: sum.split)
  next
    case D_main
    then show ?thesis using w dut_step_plain(1) [OF ns D_main] by (simp add: both_wait_def)
  qed (use w in \<open>simp_all add: both_wait_def dut_before_def\<close>)
  ultimately show ?case using w dut_step_frame(3) [OF ns] dut_step_main [OF ns] by (simp add: both_wait_def)
next
  case (host s t)
  then have "both_wait t" by simp
  then show ?case by (cases "hpc t") (auto simp: both_wait_def host_step_def host_wait_bp_def)
qed

text \<open>The boot barrier is needed. Without it there is an interleaving after which \<open>bp_init\<close> has
  overwritten the first \<open>BP_TEST_begin\<close>, and from there on, whatever happens, the host waits in its
  first round with the mailbox at \<open>BP_TEST_init\<close>, until its polls run out.\<close>

theorem boot_barrier_needed:
  "\<exists>s. mb_steps (mb_reset bp (H_loop 0)) s \<and>
     Collect (mb_steps s) \<subseteq> {t. break_point t = BP_TEST_init \<and> (\<exists>n. hpc t = H_wait 0 n \<or> hpc t = H_ret False)}"
proof -
  let ?s = "dut_step (host_step (host_step (mb_reset bp (H_loop 0))))"
  have reach: "mb_steps (mb_reset bp (H_loop 0)) ?s"
    by (intro mb_steps.intros) (simp_all add: in_time_def host_step_def mb_reset_def)
  have s: "break_point ?s = BP_TEST_init" "hpc ?s = H_wait 0 0" "dpc ?s = D_main" "\<not> mie_on ?s" "\<not> in_isr ?s"
    by (simp_all add: host_step_def mb_reset_def host_set_bp_def dut_step_def bp_init_def)
  have "both_wait ?s" using s by (simp add: both_wait_def dut_before_def)
  then have "break_point t = BP_TEST_init \<and> (\<exists>n. hpc t = H_wait 0 n \<or> hpc t = H_ret False)" if "mb_steps ?s t" for t
    using both_wait_steps [OF that] by (auto simp: both_wait_def split: host_pc.splits)
  with reach show ?thesis by blast
qed

end
