(* ===== verification/Runtime.thy ===== *)
theory Runtime
  imports Printf Libc
begin

text \<open>
  The bare-metal runtime around \<open>main\<close>: Platform/Common/Src/uart.c (the UART0 driver and
  \<open>_write\<close> of syscalls.c on it), data_init.c and boot.c (start-up of the data sections and the boot
  checks), newlib_glue.c (the fixed heap), util.c (\<open>set_log\<close>, \<open>__wrap_exit\<close>), and the bring-up shim
  Platform/Chipset/TinyRocket/hal_shim/hal_shim.c (mock RTC and PMU, shadow registers, \<open>tohost\<close>).
  Character buffers are Isabelle strings, as in the model of printf.c. The UART itself is not under src/:
  what the driver relies on is its documented behaviour, a transmit FIFO that takes a character when
  it has room, drops it when it has none, and empties at its own pace.
\<close>

section \<open>uart.c\<close>

text \<open>The registers and the device behind them. Before its \<open>n\<close>-th read of \<open>TXDATA\<close> or \<open>IP\<close> the device has
  moved up to \<open>tx_drains n\<close> characters from the FIFO to the line, none while the transmitter is off;
  \<open>mcycle_at\<close> are the values of \<open>mcycle\<close> at its successive reads. Both are for the device to choose.\<close>

record uart =
  tx_line :: string
  tx_fifo :: string
  tx_depth :: nat
  tx_drains :: "nat \<Rightarrow> nat"
  polls :: nat
  reg_txctrl :: u32
  reg_rxctrl :: u32
  reg_div :: u32
  mcycle_at :: "nat \<Rightarrow> u32"
  csr_reads :: nat

definition UART_TXCTRL_TXEN :: u32 where "UART_TXCTRL_TXEN = 1"
definition UART_RXCTRL_RXEN :: u32 where "UART_RXCTRL_RXEN = 1"
definition UART_TXCTRL_TXCNT_SHIFT :: nat where "UART_TXCTRL_TXCNT_SHIFT = 16"

definition uart_init :: "uart \<Rightarrow> uart" where
  "uart_init u = u\<lparr>reg_txctrl := UART_TXCTRL_TXEN, reg_rxctrl := UART_RXCTRL_RXEN\<rparr>"

definition txen :: "uart \<Rightarrow> bool" where "txen u \<longleftrightarrow> reg_txctrl u AND UART_TXCTRL_TXEN \<noteq> 0"

definition device_step :: "uart \<Rightarrow> uart" where
  "device_step u =
     (let n = (if txen u then tx_drains u (polls u) else 0)
      in u\<lparr>tx_line := tx_line u @ take n (tx_fifo u), tx_fifo := drop n (tx_fifo u), polls := polls u + 1\<rparr>)"

text \<open>Bit 31 of \<open>TXDATA\<close> as read, a write of \<open>TXDATA\<close>, and bit 0 of \<open>IP\<close> as read.\<close>

definition read_full :: "uart \<Rightarrow> bool \<times> uart" where
  "read_full u = (let u = device_step u in (tx_depth u \<le> length (tx_fifo u), u))"

definition write_txdata :: "char \<Rightarrow> uart \<Rightarrow> uart" where
  "write_txdata c u = (if length (tx_fifo u) < tx_depth u then u\<lparr>tx_fifo := tx_fifo u @ [c]\<rparr> else u)"

definition txmark :: "uart \<Rightarrow> nat" where
  "txmark u = unat (drop_bit UART_TXCTRL_TXCNT_SHIFT (reg_txctrl u) AND 0xFF)"

definition read_txwm :: "uart \<Rightarrow> bool \<times> uart" where
  "read_txwm u = (let u = device_step u in (length (tx_fifo u) < txmark u, u))"

text \<open>The busy wait of \<open>uart_putc\<close>; \<open>None\<close> is a wait that does not end.\<close>

partial_function (option) wait_not_full :: "uart \<Rightarrow> uart option" where
  "wait_not_full u = (let (full, u) = read_full u in if full then wait_not_full u else Some u)"

definition uart_putc :: "char \<Rightarrow> uart \<Rightarrow> uart option" where
  "uart_putc c u = do { u \<leftarrow> wait_not_full u; Some (write_txdata c u) }"

fun put_chars :: "string \<Rightarrow> uart \<Rightarrow> uart option" where
  "put_chars [] u = Some u"
| "put_chars (c # s) u = do {
     u \<leftarrow> (if c = CHR 0x0A then uart_putc (CHR 0x0D) u else Some u);
     u \<leftarrow> uart_putc c u;
     put_chars s u }"

text \<open>A C string is its characters before the terminator.\<close>

definition uart_puts :: "string option \<Rightarrow> uart \<Rightarrow> uart option" where
  "uart_puts s u = (case s of None \<Rightarrow> Some u | Some s \<Rightarrow> put_chars s u)"

text \<open>A buffer shorter than the length is read out of bounds: \<open>None\<close>.\<close>

definition uart_write :: "string option \<Rightarrow> nat \<Rightarrow> uart \<Rightarrow> uart option" where
  "uart_write buf len u =
     (case buf of None \<Rightarrow> Some u | Some b \<Rightarrow> if len \<le> length b then put_chars (take len b) u else None)"

partial_function (option) wait_txwm :: "uart \<Rightarrow> uart option" where
  "wait_txwm u = (let (txwm, u) = read_txwm u in if \<not> txwm then wait_txwm u else Some u)"

definition rd_mcycle :: "uart \<Rightarrow> u32 \<times> uart" where
  "rd_mcycle u = (mcycle_at u (csr_reads u), u\<lparr>csr_reads := csr_reads u + 1\<rparr>)"

partial_function (option) wait_cycles :: "u32 \<Rightarrow> u32 \<Rightarrow> uart \<Rightarrow> uart option" where
  "wait_cycles t0 w u = (let (t, u) = rd_mcycle u in if t - t0 < w then wait_cycles t0 w u else Some u)"

definition flush_wait :: "u32 \<Rightarrow> u32" where
  "flush_wait dv = (let dv = dv AND 0xFFFF; dv = (if dv = 0 then 4340 else dv) in dv * 10 * 4)"

definition uart_flush :: "uart \<Rightarrow> uart option" where
  "uart_flush u =
     (let u = u\<lparr>reg_txctrl := UART_TXCTRL_TXEN OR push_bit UART_TXCTRL_TXCNT_SHIFT 1\<rparr> in
      do {
        u \<leftarrow> wait_txwm u;
        let w = flush_wait (reg_div u);
        let (t0, u) = rd_mcycle u;
        wait_cycles t0 w u
      })"

text \<open>syscalls.c: standard output and standard error go to the UART.\<close>

definition sys_write :: "int \<Rightarrow> string option \<Rightarrow> int \<Rightarrow> uart \<Rightarrow> (int \<times> uart) option" where
  "sys_write fd buf len u =
     (if fd \<noteq> 1 \<and> fd \<noteq> 2 then Some (- 1, u)
      else if buf = None \<or> len \<le> 0 then Some (0, u)
      else map_option (Pair len) (uart_write buf (nat len) u))"

section \<open>data_init.c\<close>

text \<open>The symbols of the linker script; a weak symbol that is absent has address 0.\<close>

record link_map =
  bss_start :: u32
  bss_end :: u32
  data_load_start :: u32
  data_start :: u32
  data_end :: u32
  stack_top :: u32
  heap_start :: u32

definition data_init_bss_range :: "link_map \<Rightarrow> u32 \<times> u32" where
  "data_init_bss_range l = (bss_start l, bss_end l)"

partial_function (option) bss_loop :: "u32 \<Rightarrow> u32 \<Rightarrow> mem \<Rightarrow> mem option" where
  "bss_loop p e m = (if p < e then bss_loop (p + 4) e (st32 m p 0) else Some m)"

definition data_init_bss :: "link_map \<Rightarrow> mem \<Rightarrow> mem option" where
  "data_init_bss l m = bss_loop (bss_start l) (bss_end l) m"

partial_function (option) data_loop :: "u32 \<Rightarrow> u32 \<Rightarrow> u32 \<Rightarrow> mem \<Rightarrow> mem option" where
  "data_loop src dst e m = (if dst < e then data_loop (src + 1) (dst + 1) e (m(dst := m src)) else Some m)"

definition data_init_data :: "link_map \<Rightarrow> mem \<Rightarrow> mem option" where
  "data_init_data l m =
     (if data_load_start l = 0 \<or> data_start l = 0 \<or> data_end l = 0 then Some m
      else if data_load_start l = data_start l then Some m
      else data_loop (data_load_start l) (data_start l) (data_end l) m)"

definition data_init :: "link_map \<Rightarrow> mem \<Rightarrow> mem option" where
  "data_init l m = Option.bind (data_init_data l m) (data_init_bss l)"

partial_function (option) zero_loop :: "u32 \<Rightarrow> u32 \<Rightarrow> mem \<Rightarrow> int option" where
  "zero_loop p e m = (if p < e then if ld32 m p \<noteq> 0 then Some 0 else zero_loop (p + 4) e m else Some 1)"

definition data_init_bss_is_zero :: "link_map \<Rightarrow> mem \<Rightarrow> int option" where
  "data_init_bss_is_zero l m = zero_loop (bss_start l) (bss_end l) m"

section \<open>boot.c\<close>

record boot_regs =
  boot_sp :: u32
  boot_gp :: u32
  boot_mtvec :: u32

record boot_info =
  bi_sp :: u32
  bi_gp :: u32
  bi_mtvec :: u32
  bi_stack_top :: u32
  bi_heap_start :: u32
  bi_bss_start :: u32
  bi_bss_end :: u32

definition BOOT_ERR_SP :: u32 where "BOOT_ERR_SP = 1"
definition BOOT_ERR_GP :: u32 where "BOOT_ERR_GP = 2"
definition BOOT_ERR_MTVEC :: u32 where "BOOT_ERR_MTVEC = 4"
definition BOOT_ERR_BSS :: u32 where "BOOT_ERR_BSS = 8"

definition boot_get_info :: "link_map \<Rightarrow> boot_regs \<Rightarrow> boot_info" where
  "boot_get_info l r = \<lparr>bi_sp = boot_sp r, bi_gp = boot_gp r, bi_mtvec = boot_mtvec r, bi_stack_top = stack_top l,
     bi_heap_start = heap_start l, bi_bss_start = fst (data_init_bss_range l), bi_bss_end = snd (data_init_bss_range l)\<rparr>"

text \<open>The canary loop over its eight words at address \<open>a\<close>.\<close>

fun canary_loop :: "mem \<Rightarrow> u32 \<Rightarrow> nat list \<Rightarrow> u32 \<Rightarrow> u32" where
  "canary_loop m a [] err = err"
| "canary_loop m a (i # is) err = (if ld32 m (a + 4 * of_nat i) \<noteq> 0 then err OR BOOT_ERR_BSS else canary_loop m a is err)"

definition boot_check :: "link_map \<Rightarrow> boot_regs \<Rightarrow> u32 \<Rightarrow> mem \<Rightarrow> u32" where
  "boot_check l r boot_bss_canary m =
     (let bi = boot_get_info l r;
          err = 0;
          err = (if bi_sp bi > bi_stack_top bi \<or> bi_sp bi \<le> bi_heap_start bi then err OR BOOT_ERR_SP else err);
          err = (if bi_gp bi = 0 then err OR BOOT_ERR_GP else err);
          err = (if bi_mtvec bi = 0 \<or> bi_mtvec bi AND 3 \<noteq> 0 then err OR BOOT_ERR_MTVEC else err)
      in canary_loop m boot_bss_canary [0..<8] err)"

section \<open>newlib_glue.c\<close>

definition NEWLIB_HEAP_SIZE :: u32 where "NEWLIB_HEAP_SIZE = 512"

text \<open>\<open>nl_heap\<close> is the address of the array, \<open>nl_brk\<close> the bytes given out; \<open>(void *)-1\<close> on failure.\<close>

definition sbrk :: "u32 \<Rightarrow> u32 \<Rightarrow> u32 \<Rightarrow> u32 \<times> u32" where
  "sbrk nl_heap incr nl_brk =
     (if sint incr < 0 then (- 1, nl_brk)
      else if nl_brk + incr > NEWLIB_HEAP_SIZE then (- 1, nl_brk)
      else (nl_heap + nl_brk, nl_brk + incr))"

definition isatty :: "int \<Rightarrow> int" where
  "isatty fd = (if fd \<ge> 0 \<and> fd \<le> 2 then 1 else 0)"

text \<open>\<open>_fstat\<close>: the mode stored, if any, and the result.\<close>

definition S_IFCHR :: u32 where "S_IFCHR = 0x2000"

definition fstat :: "int \<Rightarrow> bool \<Rightarrow> u32 option \<times> int" where
  "fstat fd st_null = (if st_null then (None, - 1) else (Some S_IFCHR, if fd \<ge> 0 \<and> fd \<le> 2 then 0 else - 1))"

section \<open>util.c\<close>

record log_st =
  start_time :: u32
  end_time :: u32
  run_time :: u32
  log_first :: bool

definition set_log :: "u32 \<Rightarrow> u32 \<Rightarrow> log_st \<Rightarrow> u32 \<times> log_st" where
  "set_log i mcycle_now l =
     (let l = (if i \<noteq> 0 then l\<lparr>start_time := drop_bit 8 mcycle_now\<rparr>
               else if log_first l
               then let l = l\<lparr>end_time := drop_bit 8 mcycle_now\<rparr>;
                        l = l\<lparr>run_time := end_time l - start_time l\<rparr>;
                        l = l\<lparr>run_time := run_time l AND 0xFFF\<rparr>;
                        l = l\<lparr>run_time := push_bit 16 (run_time l)\<rparr>
                    in l\<lparr>log_first := False\<rparr>
               else l)
      in (run_time l, l))"

text \<open>What \<open>__wrap_exit\<close> leaves in \<open>mtval\<close> before it spins for ever.\<close>

definition wrap_exit_mtval :: "u32 \<Rightarrow> u32 \<Rightarrow> log_st \<Rightarrow> u32 \<times> log_st" where
  "wrap_exit_mtval code mcycle_now l =
     (let buf = 0;
          buf = (if code = 0 then push_bit 30 1 else if code = CODE_FAIL then push_bit 29 1
                 else if code = 2 then push_bit 28 1 else buf);
          buf = buf OR push_bit 31 1;
          (r, l) = set_log 0 mcycle_now l
      in (buf OR r, l))"

section \<open>hal_shim.c\<close>

record 'w shim =
  rtc_counter :: u64
  rtc_snapshot :: u64
  shadow :: "u32 list"
  shim_dram :: mem
  shim_dev :: 'w

definition RTC_LO_ADDR :: u32 where "RTC_LO_ADDR = 0x2B00"
definition RTC_HI_ADDR :: u32 where "RTC_HI_ADDR = 0x2B04"
definition RTC_STEP :: u64 where "RTC_STEP = 0x40000"
definition SHADOW_WORDS :: nat where "SHADOW_WORDS = 256"
definition HOST_MBX_LO :: u32 where "HOST_MBX_LO = 0x80010000"
definition HOST_MBX_HI :: u32 where "HOST_MBX_HI = 0x80020000"
definition PMU_BASE :: u32 where "PMU_BASE = 0x2C00"
definition PMU_TOP :: u32 where "PMU_TOP = 0x2D00"
definition PMU_MOCK_LATENCY :: u32 where "PMU_MOCK_LATENCY = 42"

definition IS_REAL_MMIO :: "u32 \<Rightarrow> bool" where
  "IS_REAL_MMIO a \<longleftrightarrow> 0x02000000 \<le> a \<and> a < 0x02010000 \<or> 0x0C000000 \<le> a \<and> a < 0x10000000"

definition shadow_index :: "u32 \<Rightarrow> nat" where
  "shadow_index addr = unat (drop_bit 2 addr AND (of_nat SHADOW_WORDS - 1))"

text \<open>The real CLINT and PLIC are the device \<open>'w\<close> with its load \<open>rd\<close> and store \<open>wr\<close>.\<close>

definition inpdw :: "(u32 \<Rightarrow> 'w \<Rightarrow> u32 \<times> 'w) \<Rightarrow> u32 \<Rightarrow> 'w shim \<Rightarrow> u32 \<times> 'w shim" where
  "inpdw rd addr s =
     (if addr = RTC_LO_ADDR
      then let s = s\<lparr>rtc_snapshot := rtc_counter s\<rparr> in (ucast (rtc_snapshot s AND 0xFFFFFFFF), s)
      else if addr = RTC_HI_ADDR
      then let hi = ucast (drop_bit 32 (rtc_snapshot s)) in (hi, s\<lparr>rtc_counter := rtc_counter s + RTC_STEP\<rparr>)
      else if PMU_BASE \<le> addr \<and> addr < PMU_TOP then (push_bit 16 PMU_MOCK_LATENCY, s)
      else if HOST_MBX_LO \<le> addr \<and> addr < HOST_MBX_HI then (ld32 (shim_dram s) addr, s)
      else if IS_REAL_MMIO addr then let (v, w) = rd addr (shim_dev s) in (v, s\<lparr>shim_dev := w\<rparr>)
      else (shadow s ! shadow_index addr, s))"

definition outpdw :: "(u32 \<Rightarrow> u32 \<Rightarrow> 'w \<Rightarrow> 'w) \<Rightarrow> u32 \<Rightarrow> u32 \<Rightarrow> 'w shim \<Rightarrow> 'w shim" where
  "outpdw wr addr val s =
     (if HOST_MBX_LO \<le> addr \<and> addr < HOST_MBX_HI then s\<lparr>shim_dram := st32 (shim_dram s) addr val\<rparr>
      else if IS_REAL_MMIO addr then s\<lparr>shim_dev := wr addr val (shim_dev s)\<rparr>
      else s\<lparr>shadow := (shadow s)[shadow_index addr := val]\<rparr>)"

text \<open>What \<open>exit\<close> writes to \<open>tohost\<close>: the shim's argument is an \<open>int\<close>, that of rtdev_shim.c unsigned.\<close>

definition hal_exit_tohost :: "u32 \<Rightarrow> u64" where
  "hal_exit_tohost code = (if code = 0 then 1 else push_bit 1 (scast code) OR 1)"

definition rtdev_exit_tohost :: "u32 \<Rightarrow> u64" where
  "rtdev_exit_tohost code = (if code = 0 then 1 else push_bit 1 (ucast code) OR 1)"

section \<open>Console\<close>

text \<open>The text as it appears on the line.\<close>

definition crlf :: "string \<Rightarrow> string" where
  "crlf s = concat (map (\<lambda>c. if c = CHR 0x0A then [CHR 0x0D, c] else [c]) s)"

text \<open>The characters the device has taken; those still in the FIFO are on their way.\<close>

definition tx_out :: "uart \<Rightarrow> string" where "tx_out u = tx_line u @ tx_fifo u"

text \<open>A device that works: the FIFO has an entry, a character leaves it again and again, and the cycle
  counter runs past any wait of \<open>uart_flush\<close>.\<close>

definition uart_works :: "uart \<Rightarrow> bool" where
  "uart_works u \<longleftrightarrow> 0 < tx_depth u \<and> (\<forall>n. \<exists>m \<ge> n. 0 < tx_drains u m)
     \<and> (\<forall>n. \<exists>m > n. flush_wait (reg_div u) \<le> mcycle_at u m - mcycle_at u n)"

text \<open>The same device, later.\<close>

definition same_device :: "uart \<Rightarrow> uart \<Rightarrow> bool" where
  "same_device u v \<longleftrightarrow> tx_depth v = tx_depth u \<and> tx_drains v = tx_drains u \<and> reg_div v = reg_div u \<and> mcycle_at v = mcycle_at u \<and> (txen u \<longrightarrow> txen v)"

lemma same_device_refl [simp]: "same_device u u" by (simp add: same_device_def)
lemma same_device_trans: "same_device u v \<Longrightarrow> same_device v w \<Longrightarrow> same_device u w" by (simp add: same_device_def)
lemma same_device_works: "same_device u v \<Longrightarrow> uart_works u \<Longrightarrow> uart_works v" by (simp add: same_device_def uart_works_def)

lemma device_step_facts [simp]:
  "tx_out (device_step u) = tx_out u" "same_device u (device_step u)" "txen (device_step u) = txen u" "reg_txctrl (device_step u) = reg_txctrl u"
  "polls (device_step u) = polls u + 1" "tx_depth (device_step u) = tx_depth u" "tx_drains (device_step u) = tx_drains u" "csr_reads (device_step u) = csr_reads u"
  by (simp_all add: device_step_def Let_def tx_out_def same_device_def txen_def)

lemma device_step_fifo: "txen u \<Longrightarrow> tx_fifo (device_step u) = drop (tx_drains u (polls u)) (tx_fifo u)"
  by (simp add: device_step_def Let_def)

text \<open>A wait on a working device ends: the FIFO gets shorter until the condition holds.\<close>

lemma fifo_drains:
  assumes w: "uart_works u" and e: "txen u"
  obtains k where "tx_fifo ((device_step ^^ k) u) = []"
proof -
  have "\<exists>k. tx_fifo ((device_step ^^ k) v) = []" if "same_device u v" "txen v" for v
    using that
  proof (induction "length (tx_fifo v)" arbitrary: v rule: less_induct)
    case less
    show ?case
    proof (cases "tx_fifo v = []")
      case True
      then show ?thesis by (intro exI [of _ 0]) simp
    next
      case False
      have drains: "tx_drains v = tx_drains u" using less(2) by (simp add: same_device_def)
      obtain m where m: "polls v \<le> m" "0 < tx_drains u m" using w unfolding uart_works_def by blast
      let ?v = "\<lambda>j. (device_step ^^ j) v"
      have st: "same_device u (?v j) \<and> txen (?v j) \<and> polls (?v j) = polls v + j \<and> length (tx_fifo (?v j)) \<le> length (tx_fifo v)" for j
      proof (induction j)
        case (Suc j)
        then show ?case using same_device_trans device_step_fifo [of "?v j"] by auto
      qed (use less(2,3) in simp)
      let ?j = "m - polls v"
      have "length (tx_fifo (?v (Suc ?j))) < length (tx_fifo v)"
        using st [of ?j] m device_step_fifo [of "?v ?j"] False by (cases "tx_fifo (?v ?j)") (auto simp: same_device_def)
      then obtain k where "tx_fifo ((device_step ^^ k) (?v (Suc ?j))) = []" using less(1) [of "?v (Suc ?j)"] st [of "Suc ?j"] by blast
      then have "tx_fifo ((device_step ^^ (k + Suc ?j)) v) = []" by (simp only: funpow_add o_apply)
      then show ?thesis by blast
    qed
  qed
  then show ?thesis using that e by (metis same_device_refl)
qed

lemma steps_facts:
  "tx_out ((device_step ^^ k) u) = tx_out u \<and> same_device u ((device_step ^^ k) u) \<and> reg_txctrl ((device_step ^^ k) u) = reg_txctrl u"
  by (induction k) (auto intro: same_device_trans)

lemma wait_ends:
  assumes f: "\<And>u. f u = (let (b, u) = (P (device_step u), device_step u) in if b then Some u else f u)"
    and p: "P ((device_step ^^ Suc k) u)"
  shows "\<exists>j. f u = Some ((device_step ^^ Suc j) u) \<and> P ((device_step ^^ Suc j) u)"
  using p
proof (induction k arbitrary: u)
  case 0
  then show ?case by (intro exI [of _ 0]) (simp add: f [of u])
next
  case (Suc k)
  show ?case
  proof (cases "P (device_step u)")
    case True
    then show ?thesis by (intro exI [of _ 0]) (simp add: f [of u])
  next
    case False
    have "P ((device_step ^^ Suc k) (device_step u))" using Suc(2) by (simp add: funpow_swap1)
    then obtain j where "f (device_step u) = Some ((device_step ^^ Suc j) (device_step u))" "P ((device_step ^^ Suc j) (device_step u))"
      using Suc(1) by blast
    then show ?thesis using False by (intro exI [of _ "Suc j"]) (simp add: f [of u] funpow_swap1)
  qed
qed

lemma wait_fifo:
  assumes w: "uart_works u" "txen u"
    and f: "\<And>u. f u = (let (b, u) = (P (device_step u), device_step u) in if b then Some u else f u)"
    and p: "\<And>v. same_device u v \<Longrightarrow> reg_txctrl v = reg_txctrl u \<Longrightarrow> tx_fifo v = [] \<Longrightarrow> P v"
  shows "\<exists>v. f u = Some v \<and> P v \<and> tx_out v = tx_out u \<and> same_device u v \<and> reg_txctrl v = reg_txctrl u"
proof -
  have s: "uart_works (device_step u)" "txen (device_step u)" using w same_device_works [of u "device_step u"] by simp_all
  obtain k where "tx_fifo ((device_step ^^ k) (device_step u)) = []" using fifo_drains [OF s] by blast
  then have "tx_fifo ((device_step ^^ Suc k) u) = []" by (simp add: funpow_swap1)
  then have "P ((device_step ^^ Suc k) u)" using p steps_facts [of "Suc k" u] by blast
  from wait_ends [of f P, OF f this] show ?thesis using steps_facts by blast
qed

lemma uart_putc_sends:
  assumes w: "uart_works u" "txen u"
  shows "\<exists>v. uart_putc c u = Some v \<and> tx_out v = tx_out u @ [c] \<and> same_device u v"
proof -
  let ?P = "\<lambda>v. \<not> tx_depth v \<le> length (tx_fifo v)"
  have "\<exists>v. wait_not_full u = Some v \<and> ?P v \<and> tx_out v = tx_out u \<and> same_device u v \<and> reg_txctrl v = reg_txctrl u"
  proof (rule wait_fifo [OF w])
    show "wait_not_full v = (let (b, v) = (?P (device_step v), device_step v) in if b then Some v else wait_not_full v)" for v
      by (subst wait_not_full.simps) (simp add: read_full_def Let_def)
    show "?P v" if "same_device u v" "tx_fifo v = []" for v using that w by (simp add: same_device_def uart_works_def)
  qed
  then obtain v where v: "wait_not_full u = Some v" "?P v" "tx_out v = tx_out u" "same_device u v" by blast
  have "same_device v (write_txdata c v)" by (simp add: write_txdata_def same_device_def txen_def)
  moreover have "tx_out (write_txdata c v) = tx_out v @ [c]" using v(2) by (simp add: write_txdata_def tx_out_def)
  ultimately show ?thesis using v same_device_trans [OF v(4)] by (simp add: uart_putc_def)
qed

lemma put_chars_crlf:
  "uart_works u \<Longrightarrow> txen u \<Longrightarrow> \<exists>v. put_chars s u = Some v \<and> tx_out v = tx_out u @ crlf s \<and> same_device u v"
proof (induction s arbitrary: u)
  case Nil
  then show ?case by (simp add: crlf_def)
next
  case (Cons c s)
  have next_: "uart_works v \<and> txen v" if "same_device u v" for v using same_device_works [OF that Cons(2)] that Cons(3) by (simp add: same_device_def)
  obtain v where v: "(if c = CHR 0x0A then uart_putc (CHR 0x0D) u else Some u) = Some v"
    "tx_out v = tx_out u @ (if c = CHR 0x0A then [CHR 0x0D] else [])" "same_device u v"
    using uart_putc_sends [OF Cons(2,3), of "CHR 0x0D"] by (cases "c = CHR 0x0A") auto
  obtain x where x: "uart_putc c v = Some x" "tx_out x = tx_out v @ [c]" "same_device v x" using uart_putc_sends next_ [OF v(3)] by blast
  have ux: "same_device u x" by (rule same_device_trans [OF v(3) x(3)])
  obtain z where z: "put_chars s x = Some z" "tx_out z = tx_out x @ crlf s" "same_device x z" using Cons(1) next_ [OF ux] by blast
  show ?case
  proof (intro exI conjI)
    show "put_chars (c # s) u = Some z" using v(1) x(1) z(1) by simp
    show "tx_out z = tx_out u @ crlf (c # s)" using v(2) x(2) z(2) by (simp add: crlf_def)
    show "same_device u z" by (rule same_device_trans [OF ux z(3)])
  qed
qed

lemma wait_cycles_ends:
  assumes "m = csr_reads u + k" "w \<le> mcycle_at u m - t0"
  shows "\<exists>j. wait_cycles t0 w u = Some (u\<lparr>csr_reads := j\<rparr>)"
  using assms
proof (induction k arbitrary: u)
  case 0
  then show ?case by (subst wait_cycles.simps) (auto simp: rd_mcycle_def)
next
  case (Suc k)
  let ?u = "u\<lparr>csr_reads := csr_reads u + 1\<rparr>"
  obtain j where "wait_cycles t0 w ?u = Some (?u\<lparr>csr_reads := j\<rparr>)" using Suc(1) [of ?u] Suc(2,3) by auto
  then show ?case by (subst wait_cycles.simps) (auto simp: rd_mcycle_def)
qed

lemma uart_flush_empties:
  assumes w: "uart_works u"
  shows "\<exists>v. uart_flush u = Some v \<and> tx_line v = tx_out u \<and> tx_fifo v = [] \<and> same_device u v"
proof -
  let ?u = "u\<lparr>reg_txctrl := UART_TXCTRL_TXEN OR push_bit UART_TXCTRL_TXCNT_SHIFT 1\<rparr>"
  let ?P = "\<lambda>v. length (tx_fifo v) < txmark v"
  have r: "reg_txctrl ?u = 0x10001" by (simp add: UART_TXCTRL_TXEN_def UART_TXCTRL_TXCNT_SHIFT_def)
  have e: "txen ?u" by (simp add: txen_def r UART_TXCTRL_TXEN_def)
  have s: "same_device u ?u" using e by (simp add: same_device_def)
  have w': "uart_works ?u" by (rule same_device_works [OF s w])
  have m: "txmark v = 1" if "reg_txctrl v = reg_txctrl ?u" for v
    using that unfolding r by (simp add: txmark_def UART_TXCTRL_TXCNT_SHIFT_def)
  have "\<exists>v. wait_txwm ?u = Some v \<and> ?P v \<and> tx_out v = tx_out ?u \<and> same_device ?u v \<and> reg_txctrl v = reg_txctrl ?u"
  proof (rule wait_fifo [OF w' e])
    show "wait_txwm v = (let (b, v) = (?P (device_step v), device_step v) in if b then Some v else wait_txwm v)" for v
      by (subst wait_txwm.simps) (simp add: read_txwm_def Let_def)
    show "?P v" if "reg_txctrl v = reg_txctrl ?u" "tx_fifo v = []" for v using that m by simp
  qed
  then obtain v where v: "wait_txwm ?u = Some v" "?P v" "tx_out v = tx_out ?u" "same_device ?u v" "reg_txctrl v = reg_txctrl ?u" by blast
  have f: "tx_fifo v = []" using v(2) m [OF v(5)] by simp
  have sv: "same_device u v" by (rule same_device_trans [OF s v(4)])
  let ?n = "csr_reads v" and ?v = "v\<lparr>csr_reads := csr_reads v + 1\<rparr>"
  obtain k where k: "?n < k" "flush_wait (reg_div v) \<le> mcycle_at v k - mcycle_at v ?n"
    using same_device_works [OF sv w] unfolding uart_works_def by blast
  then obtain j where j: "wait_cycles (mcycle_at v ?n) (flush_wait (reg_div v)) ?v = Some (?v\<lparr>csr_reads := j\<rparr>)"
    using wait_cycles_ends [of k ?v "k - (?n + 1)" "flush_wait (reg_div v)" "mcycle_at v ?n"] by auto
  show ?thesis
  proof (intro exI conjI)
    show "uart_flush u = Some (?v\<lparr>csr_reads := j\<rparr>)" using v(1) j by (simp add: uart_flush_def Let_def rd_mcycle_def)
    show "tx_line (?v\<lparr>csr_reads := j\<rparr>) = tx_out u" using v(3) f by (simp add: tx_out_def)
    show "same_device u (?v\<lparr>csr_reads := j\<rparr>)" using sv by (simp add: same_device_def txen_def)
  qed (use f in simp)
qed

text \<open>The \<open>_write\<close> calls of one \<open>printf\<close>, in order.\<close>

fun console :: "string list \<Rightarrow> uart \<Rightarrow> uart option" where
  "console [] u = Some u"
| "console (w # ws) u = (case sys_write 1 (Some w) (int (length w)) u of None \<Rightarrow> None | Some (_, u) \<Rightarrow> console ws u)"

lemma console_crlf:
  "uart_works u \<Longrightarrow> txen u \<Longrightarrow> \<exists>v. console ws u = Some v \<and> tx_out v = tx_out u @ crlf (concat ws) \<and> same_device u v"
proof (induction ws arbitrary: u)
  case Nil
  then show ?case by (simp add: crlf_def)
next
  case (Cons w ws)
  obtain x where x: "put_chars w u = Some x" "tx_out x = tx_out u @ crlf w" "same_device u x" using put_chars_crlf [OF Cons(2,3)] by blast
  have n: "uart_works x" "txen x" using same_device_works [OF x(3) Cons(2)] x(3) Cons(3) by (simp_all add: same_device_def)
  show ?case
  proof (cases "w = []")
    case True
    then show ?thesis using Cons(1) [OF Cons(2,3)] by (simp add: sys_write_def)
  next
    case False
    then have e: "console (w # ws) u = console ws x" using x(1) by (simp add: sys_write_def uart_write_def)
    obtain v where v: "console ws x = Some v" "tx_out v = tx_out x @ crlf (concat ws)" "same_device x v" using Cons(1) [OF n] by blast
    show ?thesis using e v x(2) same_device_trans [OF x(3) v(3)] by (simp add: crlf_def)
  qed
qed

lemma printf_sent:
  assumes "vformat fmt ap = Some s" "int (length s) \<le> INT_MAX" "uart_works u" "txen u"
  shows "\<exists>ws u1 u2. printf (Some fmt) ap = Some (ws, int (length s)) \<and> console ws u = Some u1 \<and> uart_flush u1 = Some u2
    \<and> tx_fifo u2 = [] \<and> tx_line u2 = tx_out u @ crlf s"
proof -
  from assms(1,2) obtain ws where p: "vprintf (Some fmt) ap = Some (ws, int (length s))" "s = concat ws"
    by (rule vprintf_text)
  obtain u1 where u1: "console ws u = Some u1" "tx_out u1 = tx_out u @ crlf (concat ws)" "same_device u u1" using console_crlf [OF assms(3,4)] by blast
  obtain u2 where "uart_flush u1 = Some u2" "tx_line u2 = tx_out u1" "tx_fifo u2 = []"
    using uart_flush_empties [OF same_device_works [OF u1(3) assms(3)]] by blast
  then show ?thesis using p u1 by (simp add: printf_def)
qed


text \<open>A UART with an eight-entry FIFO that passes one character on at every third poll.\<close>

definition slow_uart :: uart where
  "slow_uart = uart_init \<lparr>tx_line = [], tx_fifo = ''12345678'', tx_depth = 8, tx_drains = (\<lambda>n. if n mod 3 = 2 then 1 else 0), polls = 0,
     reg_txctrl = 0, reg_rxctrl = 0, reg_div = 1, mcycle_at = (\<lambda>n. of_nat (20 * n)), csr_reads = 0\<rparr>"

lemma slow_uart_works: "uart_works slow_uart" "txen slow_uart"
proof -
  have "\<exists>m \<ge> n. m mod 3 = 2" for n :: nat by presburger
  then have d: "\<exists>m \<ge> n. 0 < tx_drains slow_uart m" for n by (auto simp: slow_uart_def uart_init_def)
  have c: "\<exists>m > n. flush_wait 1 \<le> (of_nat (20 * m) :: u32) - of_nat (20 * n)" for n
  proof (intro exI conjI)
    show "n < n + 2" by simp
    have "(of_nat (20 * (n + 2)) :: u32) - of_nat (20 * n) = 40" by (simp add: algebra_simps)
    then show "flush_wait 1 \<le> (of_nat (20 * (n + 2)) :: u32) - of_nat (20 * n)" by (simp add: flush_wait_def)
  qed
  then have "\<exists>m > n. flush_wait (reg_div slow_uart) \<le> mcycle_at slow_uart m - mcycle_at slow_uart n" for n by (simp add: slow_uart_def uart_init_def)
  moreover have "0 < tx_depth slow_uart" by (simp add: slow_uart_def uart_init_def)
  ultimately show "uart_works slow_uart" using d unfolding uart_works_def by blast
  show "txen slow_uart" by (simp add: txen_def slow_uart_def uart_init_def UART_TXCTRL_TXEN_def)
qed


section \<open>Start-up of the data sections\<close>

lemma unat_add_small: "unat (x :: u32) + unat y < 2 ^ 32 \<Longrightarrow> unat (x + y) = unat x + unat y"
  by (simp add: unat_word_ariths)

lemma aligned_room:
  assumes "p AND 3 = 0" "e AND 3 = 0" "p < (e :: u32)"
  shows "unat (p + 4) = unat p + 4" "p + 4 \<le> e"
proof -
  have "unat p < unat e" "unat p mod 4 = 0" "unat e mod 4 = 0"
    using assms by (simp_all add: word_less_nat_alt aligned_iff_mod)
  then have le: "unat p + 4 \<le> unat e" by presburger
  then show "unat (p + 4) = unat p + 4" using u32_bound [of e] unat_add_small [of p 4] by simp
  then show "p + 4 \<le> e" using le by (simp add: word_le_nat_alt)
qed

lemma bss_loop_fills:
  assumes "p AND 3 = 0" "e AND 3 = 0" "p \<le> e"
  shows "bss_loop p e m = Some (mem_filled m p 0 (unat e - unat p))"
proof -
  have "bss_loop p e m = Some (set_bytes m p 0 (unat e - unat p))" using assms
  proof (induction "unat e - unat p" arbitrary: p m rule: less_induct)
    case less
    show ?case
    proof (cases "p < e")
      case True
      note room = aligned_room [OF less.prems(1,2) True]
      have lt: "unat e - unat (p + 4) < unat e - unat p" using True room(1) by (simp add: word_less_nat_alt)
      have "4 + (unat e - unat (p + 4)) = unat e - unat p"
        using room by (simp add: word_le_nat_alt)
      then have "set_bytes m p 0 (unat e - unat p) = set_bytes (set_bytes m p 0 4) (p + 4) 0 (unat e - unat (p + 4))"
        using set_bytes_add [of m p 0 4 "unat e - unat (p + 4)"] by simp
      also have "set_bytes m p 0 4 = st32 m p 0" using st32_set [of m p 0] by simp
      finally show ?thesis
        using less.hyps [OF lt aligned_step [OF less.prems(1)] less.prems(2) room(2), of "st32 m p 0"] True
        by (simp add: bss_loop.simps [of p])
    next
      case False
      with less.prems(3) have "p = e" by simp
      then show ?thesis by (simp add: bss_loop.simps)
    qed
  qed
  then show ?thesis by (simp add: set_bytes_filled)
qed

lemma data_loop_copies:
  assumes "dst \<le> e"
  shows "data_loop src dst e m = Some (copy_bytes m dst src (unat e - unat dst))"
  using assms
proof (induction "unat e - unat dst" arbitrary: src dst m)
  case 0
  then have "dst = e" by (simp add: word_le_nat_alt word_unat_eq_iff)
  then show ?case by (simp add: data_loop.simps)
next
  case (Suc n)
  then have lt: "dst < e" by (simp add: word_less_nat_alt)
  then have s: "unat (dst + 1) = unat dst + 1" using u32_bound [of e] unat_add_small [of dst 1]
    by (simp add: word_less_nat_alt)
  then have "n = unat e - unat (dst + 1)" "dst + 1 \<le> e"
    using Suc.hyps(2) lt by (simp_all add: word_less_nat_alt word_le_nat_alt)
  moreover from this Suc.hyps(2) have "unat e - unat dst = Suc (unat e - unat (dst + 1))" by simp
  ultimately show ?case using Suc.hyps(1) [of "dst + 1" "src + 1" "m(dst := m src)"] lt
    by (simp add: data_loop.simps [of src dst])
qed

lemma ld32_zero: "m a = 0 \<Longrightarrow> m (a + 1) = 0 \<Longrightarrow> m (a + 2) = 0 \<Longrightarrow> m (a + 3) = 0 \<Longrightarrow> ld32 m a = 0"
  by (simp add: ld32_def)

lemma zero_loop_one:
  assumes "p AND 3 = 0" "e AND 3 = 0" "p \<le> e" "\<And>a. p \<le> a \<Longrightarrow> a < e \<Longrightarrow> m a = 0"
  shows "zero_loop p e m = Some 1"
  using assms
proof (induction "unat e - unat p" arbitrary: p rule: less_induct)
  case less
  show ?case
  proof (cases "p < e")
    case True
    note room = aligned_room [OF less.prems(1,2) True]
    have lt: "unat e - unat (p + 4) < unat e - unat p" using True room(1) by (simp add: word_less_nat_alt)
    have i: "unat (p + k) = unat p + unat k" if "unat k < 4" for k :: u32
      using that room u32_bound [of e] by (intro unat_add_small) (simp add: word_le_nat_alt)
    have "m (p + k) = 0" if "unat k < 4" for k
      using that room i [OF that] by (intro less.prems(4)) (simp_all add: word_le_nat_alt word_less_nat_alt)
    from this [of 0] this [of 1] this [of 2] this [of 3] have "ld32 m p = 0" by (simp add: ld32_zero)
    moreover have "zero_loop (p + 4) e m = Some 1"
    proof (rule less.hyps [OF lt aligned_step [OF less.prems(1)] less.prems(2) room(2)])
      show "m a = 0" if "p + 4 \<le> a" "a < e" for a
        using that room(1) by (intro less.prems(4)) (simp_all add: word_le_nat_alt)
    qed
    ultimately show ?thesis using True by (simp add: zero_loop.simps [of p])
  next
    case False
    then show ?thesis by (simp add: zero_loop.simps)
  qed
qed

text \<open>The regions of a linker script: \<open>.bss\<close> on word boundaries, as link.ld aligns it. The scripts of the
  repository define no \<open>.data\<close> symbols, whose addresses are then 0; a script that relocates \<open>.data\<close> gives
  it an image that the copy does not overtake and a place apart from \<open>.bss\<close>.\<close>

definition relocates :: "link_map \<Rightarrow> bool" where
  "relocates l \<longleftrightarrow> data_load_start l \<noteq> 0 \<and> data_start l \<noteq> 0 \<and> data_end l \<noteq> 0 \<and> data_load_start l \<noteq> data_start l"

definition link_ok :: "link_map \<Rightarrow> bool" where
  "link_ok l \<longleftrightarrow> bss_start l AND 3 = 0 \<and> bss_end l AND 3 = 0 \<and> bss_start l \<le> bss_end l
     \<and> (relocates l \<longrightarrow> data_start l \<le> data_end l
        \<and> unat (data_end l) - unat (data_start l) \<le> unat (data_start l - data_load_start l)
        \<and> (data_end l \<le> bss_start l \<or> bss_end l \<le> data_start l))"

definition data_size :: "link_map \<Rightarrow> nat" where
  "data_size l = unat (data_end l) - unat (data_start l)"

definition bss_size :: "link_map \<Rightarrow> nat" where
  "bss_size l = unat (bss_end l) - unat (bss_start l)"

definition memory_after_boot :: "link_map \<Rightarrow> mem \<Rightarrow> mem" where
  "memory_after_boot l m =
     mem_filled (if relocates l then mem_copied m (data_start l) (data_load_start l) (data_size l) else m) (bss_start l) 0 (bss_size l)"

lemma in_range: "p \<le> e \<Longrightarrow> unat (a - p) < unat e - unat p \<longleftrightarrow> p \<le> a \<and> a < (e :: u32)"
proof -
  assume pe: "p \<le> e"
  show ?thesis
  proof (cases "p \<le> a")
    case True
    then show ?thesis using pe by (auto simp: word_le_nat_alt word_less_nat_alt unat_sub)
  next
    case False
    then have "unat a < unat p" by (simp add: word_le_nat_alt)
    then have "unat (a - p) = 2 ^ 32 + unat a - unat p" using u32_bound [of p] by (simp add: unat_sub_if_size word_size)
    then show ?thesis using False u32_bound [of e] by auto
  qed
qed

text \<open>The memory a program starts with, place by place.\<close>

definition started :: "link_map \<Rightarrow> mem \<Rightarrow> mem \<Rightarrow> bool" where
  "started l m m' \<longleftrightarrow> (\<forall>a. m' a =
     (if bss_start l \<le> a \<and> a < bss_end l then 0
      else if relocates l \<and> data_start l \<le> a \<and> a < data_end l then m (data_load_start l + (a - data_start l))
      else m a))"

lemma started_after_boot: "link_ok l \<Longrightarrow> started l m (memory_after_boot l m)"
  using in_range [of "bss_start l" "bss_end l"] in_range [of "data_start l" "data_end l"]
  by (auto simp: started_def memory_after_boot_def mem_filled_def mem_copied_def bss_size_def data_size_def link_ok_def)

lemma canary_clear: "(\<And>i. i \<in> set is \<Longrightarrow> ld32 m (a + 4 * of_nat i) = 0) \<Longrightarrow> canary_loop m a is err = err"
  by (induction "is") simp_all

lemma bss_zero:
  assumes "bss_start l \<le> a" "a < bss_end l"
  shows "memory_after_boot l m a = 0"
  using assms by (simp add: memory_after_boot_def mem_filled_def bss_size_def word_le_nat_alt word_less_nat_alt unat_sub
    diff_less_mono)

lemma canary_in_bss:
  assumes "bss_start l \<le> c" "unat c + 32 \<le> unat (bss_end l)" "i \<in> set [0..<8]"
  shows "ld32 (memory_after_boot l m) (c + 4 * of_nat i) = 0"
proof -
  have k: "memory_after_boot l m (c + of_nat k) = 0" if "k < 32" for k
  proof -
    have "unat (of_nat k :: u32) = k" using that by (simp add: unat_of_nat)
    then have "unat (c + of_nat k) = unat c + k"
      using that assms(2) u32_bound [of "bss_end l"] unat_add_small [of c "of_nat k"] by simp
    then show ?thesis using that assms by (intro bss_zero) (simp_all add: word_le_nat_alt word_less_nat_alt)
  qed
  from assms(3) have "i < 8" by simp
  then show ?thesis using k [of "4 * i"] k [of "4 * i + 1"] k [of "4 * i + 2"] k [of "4 * i + 3"]
    by (intro ld32_zero) (simp_all add: ac_simps)
qed

text \<open>C17: Start-up leaves the memory that C promises. For every linker map, those of the repository without
  \<open>.data\<close> symbols and those that relocate \<open>.data\<close>, \<open>data_init\<close> returns: \<open>.bss\<close> is zero, a relocated
  \<open>.data\<close>, which lies apart from \<open>.bss\<close>, is its image in full, and nothing else has changed.
  \<open>data_init_bss_is_zero\<close> then answers 1, and \<open>boot_check\<close>, whose canary lies in \<open>.bss\<close>, never
  reports \<open>.bss\<close>: for every value of the registers its result is the flags of the stack pointer,
  \<open>gp\<close> and \<open>mtvec\<close>, each exactly when its rule is broken.\<close>

theorem data_init_establishes:
  assumes "link_ok l" "bss_start l \<le> c" "unat c + 32 \<le> unat (bss_end l)"
  shows "\<exists>m'. data_init l m = Some m' \<and> started l m m' \<and> data_init_bss_is_zero l m' = Some 1
    \<and> boot_check l r c m' = (if boot_sp r > stack_top l \<or> boot_sp r \<le> heap_start l then BOOT_ERR_SP else 0)
        OR (if boot_gp r = 0 then BOOT_ERR_GP else 0) OR (if boot_mtvec r = 0 \<or> boot_mtvec r AND 3 \<noteq> 0 then BOOT_ERR_MTVEC else 0)"
proof (intro exI conjI)
  have n: "data_size l \<le> 2 ^ 32" using u32_bound [of "data_end l"] by (simp add: data_size_def)
  have "data_init_data l m = Some (if relocates l then mem_copied m (data_start l) (data_load_start l) (data_size l) else m)"
    using assms(1) n data_loop_copies [of "data_start l" "data_end l" "data_load_start l" m]
    by (auto simp: data_init_data_def link_ok_def relocates_def data_size_def copy_bytes_copied)
  then show "data_init l m = Some (memory_after_boot l m)"
    using assms(1) by (simp add: data_init_def data_init_bss_def bss_loop_fills link_ok_def memory_after_boot_def bss_size_def)
  show "started l m (memory_after_boot l m)" by (rule started_after_boot [OF assms(1)])
  show "data_init_bss_is_zero l (memory_after_boot l m) = Some 1"
    unfolding data_init_bss_is_zero_def using assms(1) bss_zero [of l] by (intro zero_loop_one) (simp_all add: link_ok_def)
  have "canary_loop (memory_after_boot l m) c [0..<8] err = err" for err
    using canary_in_bss [OF assms(2,3)] by (intro canary_clear) simp
  then show "boot_check l r c (memory_after_boot l m) = (if boot_sp r > stack_top l \<or> boot_sp r \<le> heap_start l then BOOT_ERR_SP else 0)
      OR (if boot_gp r = 0 then BOOT_ERR_GP else 0) OR (if boot_mtvec r = 0 \<or> boot_mtvec r AND 3 \<noteq> 0 then BOOT_ERR_MTVEC else 0)"
    by (simp add: boot_check_def boot_get_info_def Let_def or.assoc)
qed

text \<open>A map as link.ld makes it, and one of a ROM boot.\<close>

definition dram_map :: link_map where
  "dram_map = \<lparr>bss_start = 0x80002000, bss_end = 0x80002100, data_load_start = 0, data_start = 0,
     data_end = 0, stack_top = 0x8000F000, heap_start = 0x80002120\<rparr>"

definition rom_map :: link_map where
  "rom_map = \<lparr>bss_start = 0x80002000, bss_end = 0x80002100, data_load_start = 0x20000000, data_start = 0x80001000,
     data_end = 0x80001040, stack_top = 0x8000F000, heap_start = 0x80002120\<rparr>"

definition good_regs :: boot_regs where
  "good_regs = \<lparr>boot_sp = 0x8000E000, boot_gp = 0x80001800, boot_mtvec = 0x80000100\<rparr>"

theorem data_init_establishes_witness:
  "(\<exists>m'. data_init dram_map (\<lambda>a. ucast a) = Some m' \<and> started dram_map (\<lambda>a. ucast a) m' \<and> boot_check dram_map good_regs 0x80002020 m' = 0)
    \<and> (\<exists>m'. data_init rom_map (\<lambda>a. ucast a) = Some m' \<and> started rom_map (\<lambda>a. ucast a) m' \<and> boot_check rom_map good_regs 0x80002020 m' = 0)"
  using data_init_establishes [where l = dram_map and c = "0x80002020" and m = "\<lambda>a. ucast a" and r = good_regs]
    data_init_establishes [where l = rom_map and c = "0x80002020" and m = "\<lambda>a. ucast a" and r = good_regs]
  by (auto simp: link_ok_def relocates_def dram_map_def rom_map_def good_regs_def)

section \<open>The fixed heap\<close>

text \<open>A client that asks for blocks one after another and keeps those it gets, with their sizes.\<close>

fun sbrk_blocks :: "u32 \<Rightarrow> u32 list \<Rightarrow> u32 \<Rightarrow> (u32 \<times> u32) list" where
  "sbrk_blocks h [] b = []"
| "sbrk_blocks h (n # ns) b =
     (let (p, b) = sbrk h n b in (if p = - 1 then sbrk_blocks h ns b else (p, n) # sbrk_blocks h ns b))"

lemma sbrk_cases:
  assumes "unat b \<le> 512" "unat h < 0xFFFF0000"
  obtains "sbrk h n b = (- 1, b)" | "sbrk h n b = (h + b, b + n)" "unat (h + b) = unat h + unat b"
    "unat (b + n) = unat b + unat n" "unat b + unat n \<le> 512" "h + b \<noteq> - 1"
proof (cases "sint n < 0 \<or> b + n > NEWLIB_HEAP_SIZE")
  case True
  then show ?thesis by (intro that(1)) (auto simp: sbrk_def)
next
  case False
  have hb: "unat (h + b) = unat h + unat b" using assms by (intro unat_add_small) simp
  have "0 \<le> sint n" "sint n < 2 ^ 31" using False sint_lt [of n] by simp_all
  then have "uint n < 2 ^ 31" by (simp add: uint_sint take_bit_int_eq_self)
  then have "unat n < 2 ^ 31" by (simp flip: of_nat_less_iff [where 'a = int])
  then have bn: "unat (b + n) = unat b + unat n" using assms(1) by (intro unat_add_small) simp
  with False have le: "unat b + unat n \<le> 512" by (simp add: NEWLIB_HEAP_SIZE_def word_le_nat_alt not_less)
  have "h + b \<noteq> - 1" using hb assms unat_uminus [of "1 :: u32"] by auto
  moreover have "sbrk h n b = (h + b, b + n)" using False by (simp add: sbrk_def)
  ultimately show ?thesis using hb bn le by (intro that(2))
qed

lemma sbrk_blocks_from:
  assumes "unat b \<le> 512" "unat h < 0xFFFF0000"
  shows "(\<forall>(p, n) \<in> set (sbrk_blocks h ns b). unat h + unat b \<le> unat p \<and> unat p + unat n \<le> unat h + 512)
    \<and> sorted_wrt (\<lambda>(p, n) (q, k). unat p + unat n \<le> unat q) (sbrk_blocks h ns b)"
  using assms(1)
proof (induction ns arbitrary: b)
  case (Cons n ns)
  show ?case
  proof (cases rule: sbrk_cases [OF Cons.prems assms(2), of n])
    case 1
    with Cons show ?thesis by simp
  next
    case 2
    then show ?thesis using Cons.IH [of "b + n"] by (fastforce simp: Let_def)
  qed
qed simp

text \<open>The replacement heap gives out disjoint memory. Whatever sequence of increments is asked of
  \<open>_sbrk\<close>, negative and overlarge ones included, the blocks it grants lie inside the 512 bytes of
  \<open>nl_heap\<close>, each after the end of the one before; a refused request changes nothing.\<close>

theorem sbrk_blocks_disjoint:
  assumes "unat h < 0xFFFF0000"
  shows "(\<forall>(p, n) \<in> set (sbrk_blocks h ns 0). unat h \<le> unat p \<and> unat p + unat n \<le> unat h + 512)
    \<and> sorted_wrt (\<lambda>(p, n) (q, k). unat p + unat n \<le> unat q) (sbrk_blocks h ns 0)
    \<and> (fst (sbrk h n b) = - 1 \<longrightarrow> unat b \<le> 512 \<longrightarrow> snd (sbrk h n b) = b)"
proof (intro conjI impI)
  assume "fst (sbrk h n b) = - 1" "unat b \<le> 512"
  then show "snd (sbrk h n b) = b" using sbrk_cases [OF _ assms, of b n] by (metis fst_conv snd_conv)
qed (use sbrk_blocks_from [of 0 h ns] assms in simp_all)

theorem sbrk_blocks_disjoint_witness:
  "sbrk_blocks 0x80003000 [232, - 1, 300, 280, 1] 0 = [(0x80003000, 232), (0x800030E8, 280)]
    \<and> sorted_wrt (\<lambda>(p, n) (q, k). unat p + unat n \<le> unat q) (sbrk_blocks 0x80003000 [232, - 1, 300, 280, 1] 0)"
  using sbrk_blocks_disjoint [where h = "0x80003000" and ns = "[232, - 1, 300, 280, 1]"]
  by (simp add: sbrk_def NEWLIB_HEAP_SIZE_def Let_def)

section \<open>The shim\<close>

lemma shim_index: "shadow_index a < 256"
proof -
  have "(of_nat SHADOW_WORDS - 1 :: u32) = mask 8" by (simp add: SHADOW_WORDS_def mask_eq_exp_minus_1)
  then have "unat (drop_bit 2 a AND (of_nat SHADOW_WORDS - 1)) = unat (take_bit 8 (drop_bit 2 a))"
    by (simp only: take_bit_eq_mask)
  also have "\<dots> < 2 ^ 8" unfolding unsigned_take_bit_eq by (rule take_bit_nat_less_exp)
  finally show ?thesis by (simp add: shadow_index_def)
qed

text \<open>The self-checking loop of verif/ip/S5740/CLINT/rtc/Src/CLINT_rtc.c on the shim: the value of
  \<open>exit\<close>, or 0 when \<open>main\<close> returns.\<close>

definition clint_time :: "u32 \<Rightarrow> u32 \<Rightarrow> u64" where
  "clint_time lo hi = push_bit 32 (ucast hi) OR ucast lo"

definition RTC_TARGET :: u64 where "RTC_TARGET = 0x7EADBEEFDEADBEEF + 0x1000000"

partial_function (option) clint_rtc :: "(u32 \<Rightarrow> 'w \<Rightarrow> u32 \<times> 'w) \<Rightarrow> u64 \<Rightarrow> 'w shim \<Rightarrow> (u32 \<times> 'w shim) option" where
  "clint_rtc rd before s =
     (let (lo, s) = inpdw rd RTC_LO_ADDR s;
          (hi, s) = inpdw rd RTC_HI_ADDR s;
          t = clint_time lo hi
      in if t < before then Some (CODE_FAIL, s)
         else if RTC_TARGET \<le> t then Some (0, s)
         else clint_rtc rd t s)"

lemma clint_time_split: "clint_time (ucast (t AND 0xFFFFFFFF)) (ucast (drop_bit 32 t)) = t"
proof -
  have m: "(0xFFFFFFFF :: u64) = mask 32" by (simp add: mask_eq_exp_minus_1)
  show ?thesis unfolding clint_time_def m
    by (intro bit_eqI) (auto simp: word_bits bit_ucast_iff dest: bit_imp_le_length)
qed

lemma clint_rtc_step:
  "clint_rtc rd before s =
     (let t = rtc_counter s; s' = s\<lparr>rtc_snapshot := t, rtc_counter := t + RTC_STEP\<rparr>
      in if t < before then Some (CODE_FAIL, s') else if RTC_TARGET \<le> t then Some (0, s') else clint_rtc rd t s')"
  by (subst clint_rtc.simps) (simp add: inpdw_def RTC_LO_ADDR_def RTC_HI_ADDR_def Let_def clint_time_split)

lemma RTC_STEP_up: "t < RTC_TARGET \<Longrightarrow> t < t + RTC_STEP"
proof -
  assume "t < RTC_TARGET"
  then have "unat t < 0x7EADBEEFDEADBEEF + 0x1000000" by (simp add: RTC_TARGET_def word_less_nat_alt)
  then have "unat (t + RTC_STEP) = unat t + 0x40000" by (simp add: RTC_STEP_def unat_word_ariths)
  then show ?thesis by (simp add: word_less_nat_alt)
qed

lemma clint_rtc_passes:
  "before \<le> rtc_counter s \<Longrightarrow> \<exists>c n. clint_rtc rd before s = Some (0, s\<lparr>rtc_counter := c, rtc_snapshot := n\<rparr>)"
proof (induction "unat RTC_TARGET - unat (rtc_counter s)" arbitrary: before s rule: less_induct)
  case less
  let ?t = "rtc_counter s"
  let ?s = "s\<lparr>rtc_snapshot := ?t, rtc_counter := ?t + RTC_STEP\<rparr>"
  show ?case
  proof (cases "RTC_TARGET \<le> ?t")
    case True
    with True less.prems have "clint_rtc rd before s = Some (0, ?s)" by (subst clint_rtc_step) (auto simp: Let_def)
    then show ?thesis by (intro exI [of _ "?t + RTC_STEP"] exI [of _ ?t]) simp
  next
    case False
    then have up: "?t < ?t + RTC_STEP" by (intro RTC_STEP_up) simp
    then have "unat RTC_TARGET - unat (rtc_counter ?s) < unat RTC_TARGET - unat ?t"
      using False by (simp add: word_less_nat_alt not_le)
    with less.hyps [of ?s ?t] less_imp_le [OF up] obtain c n where "clint_rtc rd ?t ?s = Some (0, ?s\<lparr>rtc_counter := c, rtc_snapshot := n\<rparr>)"
      by auto
    with False less.prems have "clint_rtc rd before s = Some (0, s\<lparr>rtc_counter := c, rtc_snapshot := n\<rparr>)"
      by (subst clint_rtc_step) (auto simp: Let_def)
    then show ?thesis by blast
  qed
qed

text \<open>The mock RTC passes the test it was written for. The polling loop of CLINT_rtc.c, whose two
  half-word reads latch and advance the mock counter, returns success whatever the counter is when
  it starts (it never sees time go backwards and reaches the target), and the reads change neither
  the shadow registers, the mailbox memory nor the real devices.\<close>

theorem shim_rtc_test_passes:
  "\<exists>c n. clint_rtc rd 0 s = Some (0, s\<lparr>rtc_counter := c, rtc_snapshot := n\<rparr>)"
  by (rule clint_rtc_passes) simp

end
