(* ===== verification/Ca_Measure.thy ===== *)
theory Ca_Measure
  imports Runtime Timing_Model "HOL-Library.Monad_Syntax"
begin

text \<open>
  The device side of the cycle measurement: Platform/Common/Inc/verif_ca.h (counter reads, the
  mirror for the host, the result table) and verif/ip/S5740/CA/measure/Src/CA_measure.c (the table,
  the measured blocks, the runner). A 64-bit counter is the list of its values at the successive
  CSR reads; \<open>None\<close> is a run that outlasts the list. The inline assembly blocks are given by their
  effect and by the instructions they execute, which the timing model of the virtual platform costs.
\<close>

section \<open>verif_ca.h: addresses and layout\<close>

definition VERIF_MBX_BASE :: u32 where "VERIF_MBX_BASE = 0x80010000"
definition BREAK_POINT_ADDR :: u32 where "BREAK_POINT_ADDR = VERIF_MBX_BASE + 0"
definition VERIF_CA_CYCLE_LO_ADDR :: u32 where "VERIF_CA_CYCLE_LO_ADDR = VERIF_MBX_BASE + 0x40"
definition VERIF_CA_CYCLE_HI_ADDR :: u32 where "VERIF_CA_CYCLE_HI_ADDR = VERIF_MBX_BASE + 0x44"
definition VERIF_CA_INSTR_LO_ADDR :: u32 where "VERIF_CA_INSTR_LO_ADDR = VERIF_MBX_BASE + 0x48"
definition VERIF_CA_INSTR_HI_ADDR :: u32 where "VERIF_CA_INSTR_HI_ADDR = VERIF_MBX_BASE + 0x4C"
definition VERIF_CA_TABLE_ADDR :: u32 where "VERIF_CA_TABLE_ADDR = VERIF_MBX_BASE + 0x100"
definition VERIF_CA_MAGIC :: u32 where "VERIF_CA_MAGIC = 0xCA5EC0DE"
definition VERIF_CA_MAX_ENTRY :: nat where "VERIF_CA_MAX_ENTRY = 24"

lemmas ca_addr = VERIF_MBX_BASE_def BREAK_POINT_ADDR_def VERIF_CA_CYCLE_LO_ADDR_def VERIF_CA_CYCLE_HI_ADDR_def
  VERIF_CA_INSTR_LO_ADDR_def VERIF_CA_INSTR_HI_ADDR_def VERIF_CA_TABLE_ADDR_def

section \<open>verif_ca.h: counters\<close>

definition csr_lo :: "u64 list \<Rightarrow> (u32 \<times> u64 list) option" where
  "csr_lo ts = (case ts of [] \<Rightarrow> None | t # ts \<Rightarrow> Some (ucast t, ts))"

definition csr_hi :: "u64 list \<Rightarrow> (u32 \<times> u64 list) option" where
  "csr_hi ts = (case ts of [] \<Rightarrow> None | t # ts \<Rightarrow> Some (ucast (drop_bit 32 t), ts))"

definition join64 :: "u32 \<Rightarrow> u32 \<Rightarrow> u64" where
  "join64 hi lo = push_bit 32 (ucast hi) OR ucast lo"

text \<open>The high, low, high loop, three reads per turn.\<close>

fun verif_ca_get_cycle :: "u64 list \<Rightarrow> (u64 \<times> u64 list) option" where
  "verif_ca_get_cycle (a # b # c # ts) =
     (if (ucast (drop_bit 32 a) :: u32) \<noteq> ucast (drop_bit 32 c) then verif_ca_get_cycle ts
      else Some (join64 (ucast (drop_bit 32 a)) (ucast b), ts))"
| "verif_ca_get_cycle ts = None"

definition verif_ca_get_instret :: "u64 list \<Rightarrow> (u64 \<times> u64 list) option" where
  "verif_ca_get_instret ts = verif_ca_get_cycle ts"

text \<open>The device: memory, the file-scope variables of CA_measure.c and the counters.\<close>

record ca_dev =
  ca_mem :: mem
  g_ca_n :: nat
  g_ca_sink :: u32
  cyc_reads :: "u64 list"
  ins_reads :: "u64 list"

definition ca_store :: "u32 \<Rightarrow> u32 \<Rightarrow> ca_dev \<Rightarrow> ca_dev" where
  "ca_store a v d = d\<lparr>ca_mem := st32 (ca_mem d) a v\<rparr>"

definition verif_ca_mark_cycle :: "ca_dev \<Rightarrow> ca_dev option" where
  "verif_ca_mark_cycle d = do {
     (lo, ts) \<leftarrow> csr_lo (cyc_reads d);
     (hi, ts) \<leftarrow> csr_hi ts;
     let d = d\<lparr>cyc_reads := ts\<rparr>;
     let d = ca_store VERIF_CA_CYCLE_HI_ADDR hi d;
     let d = ca_store VERIF_CA_CYCLE_LO_ADDR lo d;
     (ihi, us) \<leftarrow> csr_hi (ins_reads d);
     let d = ca_store VERIF_CA_INSTR_HI_ADDR ihi d;
     (ilo, us) \<leftarrow> csr_lo us;
     let d = ca_store VERIF_CA_INSTR_LO_ADDR ilo d;
     Some (d\<lparr>ins_reads := us\<rparr>)
   }"

section \<open>CA_measure.c: the table\<close>

definition ca_table_init :: "ca_dev \<Rightarrow> ca_dev" where
  "ca_table_init d =
     (let d = d\<lparr>g_ca_n := 0\<rparr>;
          d = ca_store (VERIF_CA_TABLE_ADDR + 4) 0 d
      in ca_store VERIF_CA_TABLE_ADDR VERIF_CA_MAGIC d)"

text \<open>The name loop, from index \<open>i\<close> on what is left of the C string: after the terminator the rest is
  zero.\<close>

fun ca_name_loop :: "mem \<Rightarrow> u32 \<Rightarrow> nat \<Rightarrow> string \<Rightarrow> mem" where
  "ca_name_loop m e i s =
     (if 8 \<le> i then m
      else case s of [] \<Rightarrow> set_bytes m (e + of_nat i) 0 (8 - i)
           | c # s \<Rightarrow> ca_name_loop (m(e + of_nat i := of_char c)) e (i + 1) s)"

definition ca_entry :: "nat \<Rightarrow> u32" where
  "ca_entry k = VERIF_CA_TABLE_ADDR + 16 + 32 * of_nat k"

definition ca_record :: "string \<Rightarrow> u32 \<Rightarrow> u32 \<Rightarrow> u32 \<Rightarrow> ca_dev \<Rightarrow> ca_dev" where
  "ca_record name cyc ins iter d =
     (if VERIF_CA_MAX_ENTRY \<le> g_ca_n d then d
      else let e = ca_entry (g_ca_n d);
               d = d\<lparr>ca_mem := ca_name_loop (ca_mem d) e 0 name\<rparr>;
               d = ca_store (e + 8) cyc d;
               d = ca_store (e + 12) 0 d;
               d = ca_store (e + 16) ins d;
               d = ca_store (e + 20) 0 d;
               d = ca_store (e + 24) iter d;
               d = ca_store (e + 28) 0 d;
               d = d\<lparr>g_ca_n := g_ca_n d + 1\<rparr>
           in ca_store (VERIF_CA_TABLE_ADDR + 4) (of_nat (g_ca_n d)) d)"

text \<open>The runner: once to warm up, once measured.\<close>

definition ca_run :: "string \<Rightarrow> (ca_dev \<Rightarrow> ca_dev) \<Rightarrow> u32 \<Rightarrow> ca_dev \<Rightarrow> ca_dev option" where
  "ca_run name fn iter d = do {
     let d = fn d;
     (c0, ts) \<leftarrow> verif_ca_get_cycle (cyc_reads d);
     let d = d\<lparr>cyc_reads := ts\<rparr>;
     (i0, us) \<leftarrow> verif_ca_get_instret (ins_reads d);
     let d = fn (d\<lparr>ins_reads := us\<rparr>);
     (i1, us) \<leftarrow> verif_ca_get_instret (ins_reads d);
     let d = d\<lparr>ins_reads := us\<rparr>;
     (c1, ts) \<leftarrow> verif_ca_get_cycle (cyc_reads d);
     Some (ca_record name (ucast (c1 - c0)) (ucast (i1 - i0)) iter (d\<lparr>cyc_reads := ts\<rparr>))
   }"

section \<open>CA_measure.c: the blocks\<close>

definition CA_N_NOP :: u32 where "CA_N_NOP = 512"
definition CA_N_ALUDEP :: u32 where "CA_N_ALUDEP = 512"
definition CA_N_LDPAIR :: u32 where "CA_N_LDPAIR = 256"
definition CA_N_BR :: u32 where "CA_N_BR = 256"
definition CA_N_BRNT :: u32 where "CA_N_BRNT = 512"
definition CA_N_MUL :: u32 where "CA_N_MUL = 256"
definition CA_N_DIV :: u32 where "CA_N_DIV = 64"
definition CA_N_CSR :: u32 where "CA_N_CSR = 256"
definition CA_N_DMEM :: nat where "CA_N_DMEM = 512"
definition CA_DMISS_BASE :: u32 where "CA_DMISS_BASE = 0x80100000"
definition CA_DMISS_STRIDE :: u32 where "CA_DMISS_STRIDE = 4096"

text \<open>What the blocks leave in \<open>g_ca_sink\<close>; \<open>buf\<close> is the address of \<open>g_ca_buf\<close>, which they only read.\<close>

definition blk_empty :: "ca_dev \<Rightarrow> ca_dev" where "blk_empty d = d"
definition blk_nop :: "ca_dev \<Rightarrow> ca_dev" where "blk_nop d = d"
definition blk_aludep :: "ca_dev \<Rightarrow> ca_dev" where
  "blk_aludep d = d\<lparr>g_ca_sink := ((\<lambda>acc. acc + 1) ^^ 512) 1\<rparr>"
definition blk_lduse :: "u32 \<Rightarrow> ca_dev \<Rightarrow> ca_dev" where
  "blk_lduse buf d = d\<lparr>g_ca_sink := ((\<lambda>acc. acc + ld32 (ca_mem d) buf) ^^ 256) 0\<rparr>"
definition blk_ldindep :: "u32 \<Rightarrow> ca_dev \<Rightarrow> ca_dev" where
  "blk_ldindep buf d = d\<lparr>g_ca_sink := ((\<lambda>acc. acc + 1) ^^ 256) 0\<rparr>"

text \<open>The branch loop counts \<open>n\<close> down from \<open>CA_N_BR\<close>.\<close>

fun br_loop :: "nat \<Rightarrow> u32 \<Rightarrow> u32" where
  "br_loop 0 n = n"
| "br_loop (Suc k) n = (let n = n - 1 in if n \<noteq> 0 then br_loop k n else n)"

definition blk_brtaken :: "ca_dev \<Rightarrow> ca_dev" where
  "blk_brtaken d = d\<lparr>g_ca_sink := br_loop (unat CA_N_BR) CA_N_BR\<rparr>"
definition blk_brnottaken :: "ca_dev \<Rightarrow> ca_dev" where "blk_brnottaken d = d"
definition blk_mulindep :: "ca_dev \<Rightarrow> ca_dev" where "blk_mulindep d = d"
definition blk_muldep :: "ca_dev \<Rightarrow> ca_dev" where
  "blk_muldep d = d\<lparr>g_ca_sink := ((\<lambda>a. a * 5) ^^ 256) 3\<rparr>"
definition blk_div :: "ca_dev \<Rightarrow> ca_dev" where "blk_div d = d"

text \<open>The CSR block reads the cycle counter 256 times.\<close>

definition blk_csrrd :: "ca_dev \<Rightarrow> ca_dev" where
  "blk_csrrd d = d\<lparr>cyc_reads := drop 256 (cyc_reads d)\<rparr>"
definition ca_walk :: "u32 \<Rightarrow> u32 \<Rightarrow> u32" where
  "ca_walk p stride = ((\<lambda>p. p + stride) ^^ 512) p"
definition blk_dhit :: "u32 \<Rightarrow> ca_dev \<Rightarrow> ca_dev" where
  "blk_dhit buf d = d\<lparr>g_ca_sink := ca_walk buf 0\<rparr>"
definition blk_dmiss :: "ca_dev \<Rightarrow> ca_dev" where
  "blk_dmiss d = d\<lparr>g_ca_sink := ca_walk CA_DMISS_BASE CA_DMISS_STRIDE\<rparr>"

definition ca_dmiss_init :: "ca_dev \<Rightarrow> ca_dev" where
  "ca_dmiss_init d = fold (\<lambda>i. ca_store (CA_DMISS_BASE + of_nat i * CA_DMISS_STRIDE) (of_nat i)) [0..<CA_N_DMEM] d"

definition ca_blocks :: "u32 \<Rightarrow> (string \<times> (ca_dev \<Rightarrow> ca_dev) \<times> u32) list" where
  "ca_blocks buf =
     [(''OVERHEAD'', blk_empty, 1), (''NOP'', blk_nop, CA_N_NOP), (''ALUDEP'', blk_aludep, CA_N_ALUDEP),
      (''LDUSE'', blk_lduse buf, CA_N_LDPAIR), (''LDINDEP'', blk_ldindep buf, CA_N_LDPAIR),
      (''BRTAKEN'', blk_brtaken, CA_N_BR), (''BRNTAKN'', blk_brnottaken, CA_N_BRNT),
      (''MULINDP'', blk_mulindep, CA_N_MUL), (''MULDEP'', blk_muldep, CA_N_MUL), (''DIVU'', blk_div, CA_N_DIV),
      (''CSRRD'', blk_csrrd, CA_N_CSR), (''DHIT'', blk_dhit buf, of_nat CA_N_DMEM), (''DMISS'', blk_dmiss, of_nat CA_N_DMEM)]"

fun ca_run_all :: "(string \<times> (ca_dev \<Rightarrow> ca_dev) \<times> u32) list \<Rightarrow> ca_dev \<Rightarrow> ca_dev option" where
  "ca_run_all [] d = Some d"
| "ca_run_all ((name, fn, iter) # bs) d = Option.bind (ca_run name fn iter d) (ca_run_all bs)"

text \<open>\<open>main\<close>, up to the break point that tells the host; \<open>dut_set_bp\<close> keeps an end or failure mark.\<close>

definition ca_main :: "u32 \<Rightarrow> ca_dev \<Rightarrow> ca_dev option" where
  "ca_main buf d = do {
     let d = ca_table_init d;
     d \<leftarrow> verif_ca_mark_cycle d;
     (c, ts) \<leftarrow> csr_lo (cyc_reads d);
     let d = ca_store (VERIF_CA_TABLE_ADDR + 8) c (d\<lparr>cyc_reads := ts\<rparr>);
     (i, us) \<leftarrow> csr_lo (ins_reads d);
     let d = ca_store (VERIF_CA_TABLE_ADDR + 12) i (d\<lparr>ins_reads := us\<rparr>);
     let d = ca_dmiss_init d;
     d \<leftarrow> ca_run_all (ca_blocks buf) d;
     d \<leftarrow> verif_ca_mark_cycle d;
     Some (if ld32 (ca_mem d) BREAK_POINT_ADDR = 0xFFFFFFFF \<or> ld32 (ca_mem d) BREAK_POINT_ADDR = 0xFFFFFFF4 then d
           else ca_store BREAK_POINT_ADDR 0xFFFFFFF5 d)
   }"

declare ca_name_loop.simps [simp del]

section \<open>Reading the counters\<close>

lemma join64_parts: "join64 (ucast (drop_bit 32 t)) (ucast t) = t"
  unfolding join64_def by (rule bit_eqI) (auto simp: word_bits bit_ucast_iff dest: bit_imp_le_length)

lemma drop_bit_mono_word: "a \<le> b \<Longrightarrow> drop_bit 32 (a :: u64) \<le> drop_bit 32 b"
  by (simp add: word_le_nat_alt unat_drop_bit_eq drop_bit_nat_def div_le_mono)

lemma hi_eq_iff: "(ucast (drop_bit 32 (a :: u64)) :: u32) = ucast (drop_bit 32 b) \<longleftrightarrow> drop_bit 32 a = drop_bit 32 b"
proof
  assume eq: "(ucast (drop_bit 32 a) :: u32) = ucast (drop_bit 32 b)"
  show "drop_bit 32 a = drop_bit 32 b"
  proof (rule bit_eqI)
    fix n
    have "bit (ucast (drop_bit 32 a) :: u32) n \<longleftrightarrow> bit (ucast (drop_bit 32 b) :: u32) n" using eq by simp
    then show "bit (drop_bit 32 a) n \<longleftrightarrow> bit (drop_bit 32 b) n"
      by (auto simp: word_bits bit_ucast_iff dest: bit_imp_le_length)
  qed
qed simp

lemma get_cycle_reading:
  "sorted ts \<Longrightarrow> verif_ca_get_cycle ts = Some (v, rest) \<Longrightarrow> \<exists>pre a c. ts = pre @ [a, v, c] @ rest"
proof (induction ts rule: verif_ca_get_cycle.induct)
  case (1 a b c ts)
  show ?case
  proof (cases "drop_bit 32 a = drop_bit 32 c")
    case True
    have "drop_bit 32 a \<le> drop_bit 32 b" "drop_bit 32 b \<le> drop_bit 32 c"
      using 1(2) by (simp_all add: drop_bit_mono_word)
    with True have "drop_bit 32 a = drop_bit 32 b" by simp
    then have "join64 (ucast (drop_bit 32 a)) (ucast b) = b" by (simp add: join64_parts)
    then have "v = b" "rest = ts" using 1(3) True by (simp_all add: hi_eq_iff)
    then show ?thesis by (intro exI [of _ "[]"] exI [of _ a] exI [of _ c]) simp
  next
    case False
    then have ne: "(ucast (drop_bit 32 a) :: u32) \<noteq> ucast (drop_bit 32 c)" by (simp add: hi_eq_iff)
    with 1(1) [OF ne] 1(2,3) obtain pre x y where "ts = pre @ [x, v, y] @ rest" by auto
    then show ?thesis by (intro exI [of _ "a # b # c # pre"] exI [of _ x] exI [of _ y]) simp
  qed
qed simp_all

definition host_get_cycle :: "mem \<Rightarrow> u64" where
  "host_get_cycle m = join64 (ld32 m VERIF_CA_CYCLE_HI_ADDR) (ld32 m VERIF_CA_CYCLE_LO_ADDR)"

lemma st32_elsewhere:
  assumes "a AND 3 = 0" "b AND 3 = 0" "a \<noteq> b" "i AND 3 = i"
  shows "st32 m b v (a + i) = m (a + i)"
  using aligned_words_disjoint [OF assms, of 0] aligned_words_disjoint [OF assms, of 1]
    aligned_words_disjoint [OF assms, of 2] aligned_words_disjoint [OF assms, of 3] by (simp add: st32_def)

lemma ld32_st32_other [mem_simps]:
  assumes "a AND 3 = 0" "b AND 3 = 0" "a \<noteq> b"
  shows "ld32 (st32 m b v) a = ld32 m a"
  using st32_elsewhere [OF assms, of 0] st32_elsewhere [OF assms, of 1] st32_elsewhere [OF assms, of 2]
    st32_elsewhere [OF assms, of 3] by (simp add: ld32_def)

lemma mark_cycle_mirror:
  assumes "cyc_reads d = t1 # t2 # ts" "ins_reads d = u1 # u2 # us"
  shows "\<exists>d'. verif_ca_mark_cycle d = Some d' \<and> cyc_reads d' = ts \<and> ins_reads d' = us
    \<and> host_get_cycle (ca_mem d') = join64 (ucast (drop_bit 32 t2)) (ucast t1)"
  using assms
  by (simp add: verif_ca_mark_cycle_def csr_lo_def csr_hi_def ca_store_def host_get_cycle_def mem_simps ca_addr)

lemma join64_eq:
  "join64 h l = t \<longleftrightarrow> ucast (drop_bit 32 t) = h \<and> ucast t = l"
proof
  assume "join64 h l = t"
  then have t: "t = join64 h l" by simp
  show "ucast (drop_bit 32 t) = h \<and> ucast t = l" unfolding t join64_def
    by (intro conjI bit_eqI) (auto simp: word_bits bit_ucast_iff dest: bit_imp_le_length)
qed (auto simp: join64_parts)

text \<open>C18: Reading a 64-bit counter in halves. For every non-decreasing run of counter values, the
  high-low-high loop of \<open>verif_ca_get_cycle\<close> returns a value the counter had at one of its own
  reads, and it returns as soon as one turn sees no carry into the high word. The mirror that
  \<open>verif_ca_mark_cycle\<close> leaves for the host has no such check: it is the counter exactly when the
  high word did not change between its two reads.\<close>

theorem counter_reads:
  assumes "sorted ts"
  shows "(case verif_ca_get_cycle ts of None \<Rightarrow> True | Some (v, rest) \<Rightarrow> \<exists>pre a c. ts = pre @ [a, v, c] @ rest)
    \<and> verif_ca_get_cycle (ta # t # tb # ts) = (if drop_bit 32 ta = drop_bit 32 tb
         then Some (join64 (ucast (drop_bit 32 ta)) (ucast t), ts) else verif_ca_get_cycle ts)
    \<and> (\<exists>d'. verif_ca_mark_cycle (d\<lparr>cyc_reads := ta # tb # ts, ins_reads := ua # ub # us\<rparr>) = Some d'
         \<and> (host_get_cycle (ca_mem d') = ta \<longleftrightarrow> drop_bit 32 ta = drop_bit 32 tb))"
proof (intro conjI)
  show "case verif_ca_get_cycle ts of None \<Rightarrow> True | Some (v, rest) \<Rightarrow> \<exists>pre a c. ts = pre @ [a, v, c] @ rest"
    using get_cycle_reading [OF assms] by (auto split: option.split)
  let ?d = "d\<lparr>cyc_reads := ta # tb # ts, ins_reads := ua # ub # us\<rparr>"
  obtain d' where "verif_ca_mark_cycle ?d = Some d'" "host_get_cycle (ca_mem d') = join64 (ucast (drop_bit 32 tb)) (ucast ta)"
    using mark_cycle_mirror [of ?d] by auto
  then show "\<exists>d'. verif_ca_mark_cycle ?d = Some d' \<and> (host_get_cycle (ca_mem d') = ta \<longleftrightarrow> drop_bit 32 ta = drop_bit 32 tb)"
    by (auto simp: join64_eq hi_eq_iff)
qed (simp add: hi_eq_iff)

definition dev_reset :: ca_dev where
  "dev_reset = \<lparr>ca_mem = (\<lambda>_. 0), g_ca_n = 0, g_ca_sink = 0, cyc_reads = [], ins_reads = []\<rparr>"

text \<open>A carry between the reads: the loop turns once, the mirror is wrong.\<close>

theorem counter_reads_witness:
  "(case verif_ca_get_cycle [0xFFFFFFFE, 0xFFFFFFFF, 0x100000000, 0x100000001, 0x100000002, 0x100000003] of None \<Rightarrow> False
     | Some (v, rest) \<Rightarrow> \<exists>pre a c. [0xFFFFFFFE, 0xFFFFFFFF, 0x100000000, 0x100000001, 0x100000002, 0x100000003] = pre @ [a, v, c] @ rest)
   \<and> (\<exists>d'. verif_ca_mark_cycle (dev_reset\<lparr>cyc_reads := [0xFFFFFFFF, 0x100000000, 0x100000001, 0x100000002, 0x100000003],
            ins_reads := [0, 0]\<rparr>) = Some d' \<and> host_get_cycle (ca_mem d') \<noteq> 0xFFFFFFFF)"
proof
  show "case verif_ca_get_cycle [0xFFFFFFFE, 0xFFFFFFFF, 0x100000000, 0x100000001, 0x100000002, 0x100000003] of None \<Rightarrow> False
     | Some (v, rest) \<Rightarrow> \<exists>pre a c. [0xFFFFFFFE, 0xFFFFFFFF, 0x100000000, 0x100000001, 0x100000002, 0x100000003] = pre @ [a, v, c] @ rest"
    using counter_reads [of "[0xFFFFFFFE, 0xFFFFFFFF, 0x100000000, 0x100000001, 0x100000002, 0x100000003]"]
    by (simp add: hi_eq_iff split: option.splits)
  show "\<exists>d'. verif_ca_mark_cycle (dev_reset\<lparr>cyc_reads := [0xFFFFFFFF, 0x100000000, 0x100000001, 0x100000002, 0x100000003],
      ins_reads := [0, 0]\<rparr>) = Some d' \<and> host_get_cycle (ca_mem d') \<noteq> 0xFFFFFFFF"
    using counter_reads [where ts = "[0x100000001, 0x100000002, 0x100000003]" and d = dev_reset and ta = "0xFFFFFFFF"
        and tb = "0x100000000" and ua = 0 and ub = 0 and us = "[]"] by auto
qed

section \<open>The controlled pairs on the timing model\<close>

text \<open>The R-type layout; the immediates of the other formats fill its fields.\<close>

definition rv_insn :: "u32 \<Rightarrow> u32 \<Rightarrow> u32 \<Rightarrow> u32 \<Rightarrow> u32 \<Rightarrow> u32 \<Rightarrow> u32" where
  "rv_insn f7 rs2 rs1 f3 rd op = push_bit 25 f7 OR push_bit 20 (rs2 AND 0x1F) OR push_bit 15 (rs1 AND 0x1F)
     OR push_bit 12 (f3 AND 7) OR push_bit 7 (rd AND 0x1F) OR (op AND 0x7F)"

lemma small_cases:
  "(n :: nat) = 0 \<or> n = 1 \<or> n = 2 \<or> n = 3 \<or> n = 4 \<or> n = 5 \<or> n = 6 \<or> 7 \<le> n" by linarith

lemma rv_fields:
  "rv_insn f7 rs2 rs1 f3 rd op AND 0x7F = op AND 0x7F" "rv_insn f7 rs2 rs1 f3 rd op AND 3 = op AND 3"
  "drop_bit 7 (rv_insn f7 rs2 rs1 f3 rd op) AND 0x1F = rd AND 0x1F"
  "drop_bit 15 (rv_insn f7 rs2 rs1 f3 rd op) AND 0x1F = rs1 AND 0x1F"
  "drop_bit 20 (rv_insn f7 rs2 rs1 f3 rd op) AND 0x1F = rs2 AND 0x1F"
  "drop_bit 25 (rv_insn f7 rs2 rs1 f3 rd op) AND 0x7F = f7 AND 0x7F"
proof -
  have m: "(0x7F :: u32) = mask 7" "(3 :: u32) = mask 2" "(0x1F :: u32) = mask 5" "(7 :: u32) = mask 3"
    by (simp_all add: mask_eq_exp_minus_1)
  have eq: "x = y" if "\<And>n. n = 0 \<or> n = 1 \<or> n = 2 \<or> n = 3 \<or> n = 4 \<or> n = 5 \<or> n = 6 \<Longrightarrow> bit x n = bit y n"
    "\<And>n. 7 \<le> n \<Longrightarrow> \<not> bit x n \<and> \<not> bit y n" for x y :: u32
    using that small_cases by (intro bit_eqI) metis
  note r = rv_insn_def
  show "rv_insn f7 rs2 rs1 f3 rd op AND 0x7F = op AND 0x7F"
    unfolding r m by (rule eq, (elim disjE; simp add: word_bits), simp add: word_bits)
  show "rv_insn f7 rs2 rs1 f3 rd op AND 3 = op AND 3"
    unfolding r m by (rule eq, (elim disjE; simp add: word_bits), simp add: word_bits)
  show "drop_bit 7 (rv_insn f7 rs2 rs1 f3 rd op) AND 0x1F = rd AND 0x1F"
    unfolding r m by (rule eq, (elim disjE; simp add: word_bits), simp add: word_bits)
  show "drop_bit 15 (rv_insn f7 rs2 rs1 f3 rd op) AND 0x1F = rs1 AND 0x1F"
    unfolding r m by (rule eq, (elim disjE; simp add: word_bits), simp add: word_bits)
  show "drop_bit 20 (rv_insn f7 rs2 rs1 f3 rd op) AND 0x1F = rs2 AND 0x1F"
    unfolding r m by (rule eq, (elim disjE; simp add: word_bits), simp add: word_bits)
  show "drop_bit 25 (rv_insn f7 rs2 rs1 f3 rd op) AND 0x7F = f7 AND 0x7F"
    unfolding r m by (rule eq, (elim disjE; simp add: word_bits), simp add: word_bits)
qed

text \<open>The instructions of the blocks, for the registers the compiler picks: \<open>acc\<close> or \<open>n\<close> and the
  pointer \<open>p\<close>; \<open>t0\<close> is register 5.\<close>

definition lw_t0 :: "u32 \<Rightarrow> u32" where "lw_t0 p = rv_insn 0 0 p 2 5 0x03"
definition add_acc_t0 :: "u32 \<Rightarrow> u32" where "add_acc_t0 acc = rv_insn 0 5 acc 0 acc 0x33"
definition addi_acc_1 :: "u32 \<Rightarrow> u32" where "addi_acc_1 acc = rv_insn 0 1 acc 0 acc 0x13"
definition addi_n_m1 :: "u32 \<Rightarrow> u32" where "addi_n_m1 n = rv_insn 0x7F 31 n 0 n 0x13"
definition bnez_back :: "u32 \<Rightarrow> u32" where "bnez_back n = rv_insn 0x7F 0 n 1 0x1D 0x63"
definition bnez_zero :: "u32 \<Rightarrow> u32" where
  "bnez_zero off = rv_insn (push_bit 6 (drop_bit 12 off AND 1) OR (drop_bit 5 off AND 0x3F)) 0 0 1
     (push_bit 1 (drop_bit 1 off AND 0xF) OR (drop_bit 11 off AND 1)) 0x63"

lemmas block_insns = lw_t0_def add_acc_t0_def addi_acc_1_def addi_n_m1_def bnez_back_def bnez_zero_def

definition insn_at :: "u64 \<Rightarrow> u32 \<Rightarrow> u64 \<Rightarrow> u64 option \<Rightarrow> insn_ctx" where
  "insn_at pc i nxt a = \<lparr>ctx_insn = i, ctx_pc = pc, ctx_next_pc = nxt, ctx_mem_addr = a\<rparr>"

text \<open>The executions of the four blocks.\<close>

definition lduse_pair :: "u32 \<Rightarrow> u32 \<Rightarrow> u64 \<Rightarrow> u64 \<Rightarrow> insn_ctx list" where
  "lduse_pair acc p a pc = [insn_at pc (lw_t0 p) (pc + 4) (Some a), insn_at (pc + 4) (add_acc_t0 acc) (pc + 8) None]"

definition ldindep_pair :: "u32 \<Rightarrow> u32 \<Rightarrow> u64 \<Rightarrow> u64 \<Rightarrow> insn_ctx list" where
  "ldindep_pair acc p a pc = [insn_at pc (lw_t0 p) (pc + 4) (Some a), insn_at (pc + 4) (addi_acc_1 acc) (pc + 8) None]"

fun pairs_run :: "(u64 \<Rightarrow> insn_ctx list) \<Rightarrow> nat \<Rightarrow> u64 \<Rightarrow> insn_ctx list" where
  "pairs_run f 0 pc = []"
| "pairs_run f (Suc k) pc = f pc @ pairs_run f k (pc + 8)"

text \<open>The branch loop stays at \<open>pc\<close>; its last branch falls through.\<close>

fun brtaken_run :: "u32 \<Rightarrow> u64 \<Rightarrow> nat \<Rightarrow> insn_ctx list" where
  "brtaken_run n pc 0 = []"
| "brtaken_run n pc (Suc k) = insn_at pc (addi_n_m1 n) (pc + 4) None
     # insn_at (pc + 4) (bnez_back n) (if k = 0 then pc + 8 else pc) None # brtaken_run n pc k"

fun brntaken_run :: "nat \<Rightarrow> u64 \<Rightarrow> insn_ctx list" where
  "brntaken_run 0 pc = []"
| "brntaken_run (Suc k) pc = insn_at pc (bnez_zero (4 * of_nat (Suc k))) (pc + 4) None # brntaken_run k (pc + 4)"

lemma block_classes:
  "is_load (lw_t0 p)" "\<not> is_muldiv (lw_t0 p)" "dest_reg (lw_t0 p) = 5" "\<not> is_amo (lw_t0 p)" "\<not> is_compressed (lw_t0 p)"
  "x \<in> {add_acc_t0 r, addi_acc_1 r, addi_n_m1 r, bnez_back r, bnez_zero r} \<Longrightarrow>
     \<not> is_load x \<and> \<not> is_store x \<and> \<not> is_amo x \<and> \<not> is_muldiv x \<and> \<not> is_div x \<and> \<not> is_mul x \<and> \<not> is_jump x
     \<and> \<not> is_system x \<and> \<not> is_compressed x"
  "is_branch (bnez_back r)" "is_branch (bnez_zero r)"
  "\<not> is_branch (add_acc_t0 r)" "\<not> is_branch (addi_acc_1 r)" "\<not> is_branch (addi_n_m1 r)"
  by (auto simp: block_insns is_load_def is_store_def is_amo_def is_muldiv_def is_div_def is_mul_def is_jump_def
    is_branch_def is_system_def is_compressed_def dest_reg_def rv_fields opcodes Let_def)

lemma acc_uses:
  assumes "acc < 32" "acc \<noteq> 5"
  shows "uses_reg (add_acc_t0 acc) 5" "\<not> uses_reg (addi_acc_1 acc) 5"
    "dest_reg (add_acc_t0 acc) = acc" "dest_reg (addi_acc_1 acc) = acc"
proof -
  have "acc AND 0x1F = take_bit 5 acc" by (simp add: take_bit_eq_mask mask_eq_exp_minus_1)
  also have "\<dots> = acc" using assms(1) by (simp add: word_less_nat_alt word_unat_eq_iff unsigned_take_bit_eq take_bit_nat_eq_self)
  finally have a: "acc AND 0x1F = acc" .
  then show "uses_reg (add_acc_t0 acc) 5" "\<not> uses_reg (addi_acc_1 acc) 5"
    "dest_reg (add_acc_t0 acc) = acc" "dest_reg (addi_acc_1 acc) = acc"
    using assms(2) by (simp_all add: uses_reg_def src_regs_def dest_reg_def block_insns rv_fields is_compressed_def opcodes Let_def)
qed

text \<open>Extra cycles and interlocks carry through an execution unchanged.\<close>

definition bump :: "u64 \<Rightarrow> u64 \<Rightarrow> timing_model \<Rightarrow> timing_model" where
  "bump x y m = m\<lparr>tm_total := tm_total m + x, n_load_use := n_load_use m + y\<rparr>"

lemma mem_cost_bump: "mem_cost a (bump x y m) = (fst (mem_cost a m), bump x y (snd (mem_cost a m)))"
  by (simp add: mem_cost_def bump_def Let_def split: prod.splits)

lemma cost_bump: "cost c (bump x y m) = (fst (cost c m), bump x y (snd (cost c m)))"
proof -
  have f: "tm_phase (bump x y m) = tm_phase m" "tm_p (bump x y m) = tm_p m" "prev_valid (bump x y m) = prev_valid m"
    "prev_load (bump x y m) = prev_load m" "prev_muldiv (bump x y m) = prev_muldiv m" "prev_rd (bump x y m) = prev_rd m" for m
    by (simp_all add: bump_def)
  have n: "(bump x y m)\<lparr>n_load_use := n_load_use (bump x y m) + 1\<rparr> = bump x y (m\<lparr>n_load_use := n_load_use m + 1\<rparr>)"
    by (simp add: bump_def)
  have b: "(bump x y m)\<lparr>n_br_taken := n_br_taken (bump x y m) + 1\<rparr> = bump x y (m\<lparr>n_br_taken := n_br_taken m + 1\<rparr>)" for m
    by (simp add: bump_def)
  have p: "cost_phase1 (bump x y m) i = cost_phase1 m i" for i by (simp add: cost_phase1_def f)
  have d: "tm_dcache (bump x y m) = tm_dcache m" for m by (simp add: bump_def)
  show ?thesis
    by (cases "prev_valid m \<and> prev_load m \<and> uses_reg (ctx_insn c) (prev_rd m)";
        cases "is_load (ctx_insn c) \<or> is_store (ctx_insn c) \<or> is_amo (ctx_insn c)"; cases "ctx_mem_addr c";
        simp add: cost_def f n b p Let_def mem_cost_bump split_beta del: de_Morgan_disj de_Morgan_conj)
qed

lemma account_bump: "account c (bump x y m) = (fst (account c m), bump x y (snd (account c m)))"
  by (simp add: account_def cost_bump Let_def split_beta) (simp add: bump_def)

lemma account_run_bump: "snd (account_run cs (bump x y m)) = bump x y (snd (account_run cs m))"
  by (induction cs arbitrary: m) (simp_all add: account_bump split_beta Let_def)

lemma account_run_append: "snd (account_run (cs @ ds) m) = snd (account_run ds (snd (account_run cs m)))"
  by (induction cs arbitrary: m) (simp_all add: split_beta Let_def)

lemma bump_add: "bump x y (bump x' y' m) = bump (x + x') (y + y') m"
  by (simp add: bump_def algebra_simps)

lemma account_frame: "tm_p (snd (account c m)) = tm_p m" "tm_phase (snd (account c m)) = tm_phase m"
  using cost_frame [of c m] by (simp_all add: account_def Let_def split_beta)

lemma account_run_frame:
  "tm_p (snd (account_run cs m)) = tm_p m" "tm_phase (snd (account_run cs m)) = tm_phase m"
  by (induction cs arbitrary: m) (simp_all add: account_frame split_beta Let_def)

lemma account_plain:
  assumes "tm_phase m \<noteq> 1" "x \<in> {add_acc_t0 r, addi_acc_1 r, addi_n_m1 r}" "\<not> prev_muldiv m"
  shows "snd (account (insn_at pc x nxt None) m) =
    (let lu = prev_valid m \<and> prev_load m \<and> uses_reg x (prev_rd m) in
     m\<lparr>tm_total := tm_total m + ucast (tp_base (tm_p m) + (if lu then load_use_pen (tm_p m) else 0)),
       n_load_use := n_load_use m + (if lu then 1 else 0), n_insn := n_insn m + 1,
       prev_valid := True, prev_load := False, prev_muldiv := False, prev_rd := dest_reg x\<rparr>)"
proof -
  have c: "\<not> is_load x" "\<not> is_store x" "\<not> is_amo x" "\<not> is_muldiv x" "\<not> is_div x" "\<not> is_mul x"
    "\<not> is_jump x" "\<not> is_system x" "\<not> is_branch x"
    using assms(2) block_classes(6) [of x r] block_classes(9-11) [of r] by auto
  show ?thesis using assms(1,3) c
    by (simp add: account_def cost_def insn_at_def Let_def split_beta)
qed

lemma account_lw:
  assumes "snd (account (insn_at pc (lw_t0 p) nxt a) m) = m1"
  shows "prev_valid m1" "prev_load m1" "\<not> prev_muldiv m1" "prev_rd m1 = 5" "tm_p m1 = tm_p m" "tm_phase m1 = tm_phase m"
  using assms account_frame [of "insn_at pc (lw_t0 p) nxt a" m]
  by (auto simp: account_def insn_at_def Let_def split_beta block_classes(1-3))

lemma pair_bump:
  assumes "tm_phase m \<noteq> 1" "tm_p m = default_params" "acc < 32" "acc \<noteq> 5"
  shows "snd (account_run (lduse_pair acc p a pc) m) = bump 1 1 (snd (account_run (ldindep_pair acc p a pc) m))"
proof -
  define m1 where "m1 = snd (account (insn_at pc (lw_t0 p) (pc + 4) (Some a)) m)"
  note m1 = account_lw [OF m1_def [symmetric]]
  have "snd (account (insn_at (pc + 4) (add_acc_t0 acc) (pc + 8) None) m1) =
        bump 1 1 (snd (account (insn_at (pc + 4) (addi_acc_1 acc) (pc + 8) None) m1))"
    using account_plain [of m1 "add_acc_t0 acc" acc "pc + 4" "pc + 8"] account_plain [of m1 "addi_acc_1 acc" acc "pc + 4" "pc + 8"]
      m1 assms acc_uses [OF assms(3,4)]
    by (simp add: bump_def Let_def default_params_def)
  then show ?thesis by (simp add: lduse_pair_def ldindep_pair_def split_beta Let_def m1_def)
qed

lemma pairs_bump:
  assumes "tm_phase m \<noteq> 1" "tm_p m = default_params" "acc < 32" "acc \<noteq> 5"
  shows "snd (account_run (pairs_run (lduse_pair acc p a) k pc) m) =
    bump (of_nat k) (of_nat k) (snd (account_run (pairs_run (ldindep_pair acc p a) k pc) m))"
  using assms(1,2)
proof (induction k arbitrary: pc m)
  case 0
  then show ?case by (simp add: bump_def)
next
  case (Suc k)
  let ?m = "snd (account_run (ldindep_pair acc p a pc) m)"
  have "snd (account_run (pairs_run (lduse_pair acc p a) (Suc k) pc) m) =
      snd (account_run (pairs_run (lduse_pair acc p a) k (pc + 8)) (bump 1 1 ?m))"
    using pair_bump [OF Suc.prems assms(3,4), of p a pc] by (simp add: account_run_append)
  also have "\<dots> = bump 1 1 (snd (account_run (pairs_run (lduse_pair acc p a) k (pc + 8)) ?m))"
    by (rule account_run_bump)
  also have "\<dots> = bump 1 1 (bump (of_nat k) (of_nat k) (snd (account_run (pairs_run (ldindep_pair acc p a) k (pc + 8)) ?m)))"
    using Suc.IH [of ?m] Suc.prems by (simp add: account_run_frame)
  finally show ?case by (simp add: account_run_append bump_add algebra_simps)
qed

text \<open>Outside a load-use or multiply shadow an instruction of the branch blocks costs the base, and the
  penalty if it is taken.\<close>

definition no_shadow :: "timing_model \<Rightarrow> bool" where
  "no_shadow m \<longleftrightarrow> tm_phase m \<noteq> 1 \<and> tm_p m = default_params \<and> \<not> prev_load m \<and> \<not> prev_muldiv m"

lemma account_addi_m1:
  assumes "no_shadow m" "snd (account (insn_at pc (addi_n_m1 n) nxt None) m) = m1"
  shows "no_shadow m1" "tm_total m1 = tm_total m + 1" "n_insn m1 = n_insn m + 1" "n_br_taken m1 = n_br_taken m"
  using assms account_plain [of m "addi_n_m1 n" n pc nxt]
  by (auto simp: no_shadow_def Let_def default_params_def)

lemma account_bnez:
  assumes "no_shadow m" "snd (account (insn_at pc x nxt None) m) = m1" "x \<in> {bnez_back n, bnez_zero n}"
  shows "no_shadow m1" "tm_total m1 = tm_total m + 1 + (if nxt \<noteq> pc + 4 then 1 else 0)" "n_insn m1 = n_insn m + 1"
    "n_br_taken m1 = n_br_taken m + (if nxt \<noteq> pc + 4 then 1 else 0)"
proof -
  have c: "\<not> is_load x" "\<not> is_store x" "\<not> is_amo x" "\<not> is_muldiv x" "is_branch x" "insn_len x = 4"
    using assms(3) block_classes(6) [of x n] block_classes(7,8) [of n] by (auto simp: insn_len_def)
  show "no_shadow m1" "tm_total m1 = tm_total m + 1 + (if nxt \<noteq> pc + 4 then 1 else 0)" "n_insn m1 = n_insn m + 1"
    "n_br_taken m1 = n_br_taken m + (if nxt \<noteq> pc + 4 then 1 else 0)"
    using assms(1,2) c
    by (cases "nxt = pc + 4"; auto simp: no_shadow_def account_def cost_def insn_at_def Let_def split_beta default_params_def)+
qed

lemma brtaken_total:
  assumes "no_shadow m" "snd (account_run (brtaken_run n pc k) m) = m'"
  shows "tm_total m' = tm_total m + of_nat (2 * k + (k - 1)) \<and> n_insn m' = n_insn m + of_nat (2 * k)
    \<and> n_br_taken m' = n_br_taken m + of_nat (k - 1)"
  using assms
proof (induction k arbitrary: m)
  case (Suc k)
  define m1 where "m1 = snd (account (insn_at pc (addi_n_m1 n) (pc + 4) None) m)"
  define m2 where "m2 = snd (account (insn_at (pc + 4) (bnez_back n) (if k = 0 then pc + 8 else pc) None) m1)"
  note s1 = account_addi_m1 [OF Suc.prems(1) m1_def [symmetric]]
  have "pc \<noteq> pc + 8"
  proof
    assume "pc = pc + 8"
    then have "unat (8 :: u64) = unat (0 :: u64)" by (metis add_cancel_right_right)
    then show False by simp
  qed
  then have takes: "(if k = 0 then pc + 8 else pc) \<noteq> pc + 4 + 4 \<longleftrightarrow> k \<noteq> 0" by (simp add: add.assoc)
  note s2 = account_bnez [OF s1(1) m2_def [symmetric], of n, unfolded takes]
  have "snd (account_run (brtaken_run n pc k) m2) = m'"
    using Suc.prems(2) by (simp add: m1_def m2_def split_beta Let_def)
  from Suc.IH [OF _ this] s1 s2 show ?case by (cases k) (simp_all add: algebra_simps)
qed simp

lemma brntaken_total:
  assumes "no_shadow m" "snd (account_run (brntaken_run k pc) m) = m'"
  shows "tm_total m' = tm_total m + of_nat k \<and> n_insn m' = n_insn m + of_nat k \<and> n_br_taken m' = n_br_taken m"
  using assms
proof (induction k arbitrary: m pc)
  case (Suc k)
  define m1 where "m1 = snd (account (insn_at pc (bnez_zero (4 * of_nat (Suc k))) (pc + 4) None) m)"
  note s1 = account_bnez [OF Suc.prems(1) m1_def [symmetric], of "4 * of_nat (Suc k)"]
  have "snd (account_run (brntaken_run k (pc + 4)) m1) = m'"
    using Suc.prems(2) by (simp add: m1_def split_beta Let_def)
  from Suc.IH [OF _ this] s1 show ?case by (simp add: algebra_simps)
qed simp

text \<open>C19: The controlled pairs isolate one stall each. On the calibrated timing model, from any state
  of the pipeline and the cache and for every choice of registers and addresses: \<open>LDUSE\<close> and
  \<open>LDINDEP\<close> execute the same number of instructions and their cycle counts differ by exactly one
  cycle per pair, 256 in all, with 256 interlocks counted; \<open>BRTAKEN\<close> and \<open>BRNTAKN\<close> execute the same
  number of instructions and differ by one cycle per taken branch, of which there are 255 in 256
  rounds (the last one falls through).\<close>

theorem controlled_pairs_isolate_stalls:
  assumes "tm_phase m \<noteq> 1" "tm_p m = default_params" "acc < 32" "acc \<noteq> 5"
    and "\<not> prev_load m" "\<not> prev_muldiv m"
  shows "let use = snd (account_run (pairs_run (lduse_pair acc p a) (unat CA_N_LDPAIR) pc) m);
             indep = snd (account_run (pairs_run (ldindep_pair acc p a) (unat CA_N_LDPAIR) pc) m);
             taken = snd (account_run (brtaken_run n pc (unat CA_N_BR)) m);
             ntaken = snd (account_run (brntaken_run (unat CA_N_BRNT) pc) m)
         in cycles use = cycles indep + 256 \<and> n_insn use = n_insn indep \<and> n_load_use use = n_load_use indep + 256
          \<and> cycles taken = cycles ntaken + 255 \<and> n_insn taken = n_insn ntaken \<and> n_br_taken taken = n_br_taken ntaken + 255"
proof -
  have ns: "no_shadow m" using assms by (simp add: no_shadow_def)
  note t = brtaken_total [OF ns refl, of n pc "unat CA_N_BR"]
  note u = brntaken_total [OF ns refl, of "unat CA_N_BRNT" pc]
  show ?thesis using pairs_bump [OF assms(1-4), of p a "unat CA_N_LDPAIR" pc] t u
    by (simp add: Let_def cycles_def bump_def CA_N_LDPAIR_def CA_N_BR_def CA_N_BRNT_def)
qed

theorem controlled_pairs_isolate_stalls_witness:
  "cycles (snd (account_run (pairs_run (lduse_pair 10 11 0x80004000) (unat CA_N_LDPAIR) 0x80000100) model_reset)) =
   cycles (snd (account_run (pairs_run (ldindep_pair 10 11 0x80004000) (unat CA_N_LDPAIR) 0x80000100) model_reset)) + 256"
  using controlled_pairs_isolate_stalls [where m = model_reset and acc = 10 and p = 11 and a = "0x80004000" and pc = "0x80000100" and n = 10]
  by (simp add: model_reset_def Let_def)

end
