(* ===== verification/Virtual_Platform.thy ===== *)
theory Virtual_Platform
  imports Ca_Measure Mailbox
begin

text \<open>
  The virtual platform: vp/spike/verif_spike.h (\<open>verif_spike_t\<close>, the adapter between the
  verification seam and libriscv), the drivers verif_spike_run.cc and verif_ca_run.cc, the verdict of
  verif/include/verif_primitives.h, and the host side of CA_measure for both backends (verif_spike.h
  and verif/ip/S5740/CA/measure/Vseq/CA_measure.cc). libriscv is not part of the repository: the
  adapter's use of it is the record \<open>riscv\<close>, a parameter.
\<close>

section \<open>libriscv as the adapter uses it\<close>

record 'p riscv =
  rv_pc :: "'p \<Rightarrow> u64"
  rv_fetch :: "u64 \<Rightarrow> 'p \<Rightarrow> u32 option \<times> 'p"
  rv_xpr :: "'p \<Rightarrow> u32 \<Rightarrow> u64"
  rv_minstret :: "'p \<Rightarrow> u64"
  rv_step :: "'p \<Rightarrow> 'p"
  rv_set_mcycle :: "u64 \<Rightarrow> 'p \<Rightarrow> 'p"
  rv_set_mip :: "u64 \<Rightarrow> u64 \<Rightarrow> 'p \<Rightarrow> 'p"
  rv_load32 :: "u64 \<Rightarrow> 'p \<Rightarrow> u32 option \<times> 'p"
  rv_store32 :: "u64 \<Rightarrow> u32 \<Rightarrow> 'p \<Rightarrow> 'p option"
  rv_load64 :: "u64 \<Rightarrow> 'p \<Rightarrow> u64 option \<times> 'p"

section \<open>The adapter\<close>

text \<open>What the sequences print, without the formatting.\<close>

record ca_row =
  row_name :: "u8 list"
  row_cyc :: u32
  row_ins :: u32
  row_iter :: u32
  row_ncyc :: u32
  row_nins :: u32

datatype report =
    Wait_failed
  | Demo_result bool u32
  | Plic_result bool u32
  | Ca_no_bp
  | Ca_bad_table u32 u32
  | Ca_row ca_row
  | Ca_pair string string int int u32
  | Ca_totals u64 u64 u64
  | Ca_pass u32

record 'p spike =
  proc :: "'p option"
  timing :: timing_model
  tohost_addr :: u64
  ran :: bool
  test :: string
  printed :: "report list"

definition say :: "report \<Rightarrow> 'p spike \<Rightarrow> 'p spike" where
  "say r s = s\<lparr>printed := printed s @ [r]\<rparr>"

definition master_write :: "'p riscv \<Rightarrow> u32 \<Rightarrow> u32 \<Rightarrow> 'p spike \<Rightarrow> bool \<times> 'p spike" where
  "master_write rv addr v s =
     (case proc s of None \<Rightarrow> (False, s)
      | Some p \<Rightarrow> case rv_store32 rv (ucast addr) v p of None \<Rightarrow> (False, s) | Some p \<Rightarrow> (True, s\<lparr>proc := Some p\<rparr>))"

text \<open>\<open>None\<close> is the result \<open>false\<close>, with the caller's variable untouched.\<close>

definition master_read :: "'p riscv \<Rightarrow> u32 \<Rightarrow> 'p spike \<Rightarrow> u32 option \<times> 'p spike" where
  "master_read rv addr s =
     (case proc s of None \<Rightarrow> (None, s)
      | Some p \<Rightarrow> let (v, p) = rv_load32 rv (ucast addr) p in (v, s\<lparr>proc := Some p\<rparr>))"

text \<open>A read whose result is not checked, into a variable that holds \<open>old\<close>.\<close>

definition read_into :: "'p riscv \<Rightarrow> u32 \<Rightarrow> u32 \<Rightarrow> 'p spike \<Rightarrow> u32 \<times> 'p spike" where
  "read_into rv old addr s = (let (v, s) = master_read rv addr s in (case v of None \<Rightarrow> old | Some v \<Rightarrow> v, s))"

definition trigger_irq :: "'p riscv \<Rightarrow> nat \<Rightarrow> 'p spike \<Rightarrow> 'p spike" where
  "trigger_irq rv irq_id s =
     (case proc s of None \<Rightarrow> s | Some p \<Rightarrow> let m = push_bit irq_id 1 in s\<lparr>proc := Some (rv_set_mip rv m m p)\<rparr>)"

text \<open>One turn of \<open>tick\<close>: context before the step, step, account, mirror.\<close>

definition tick_ctx :: "'p riscv \<Rightarrow> 'p \<Rightarrow> insn_ctx \<times> 'p" where
  "tick_ctx rv p =
     (let pc = rv_pc rv p;
          (i, p) = rv_fetch rv pc p;
          insn = (case i of None \<Rightarrow> 0x13 | Some i \<Rightarrow> i);
          mr = mem_ref insn;
          addr = (if ref_valid mr then Some (ucast (ucast (rv_xpr rv p (ref_base mr)) + ref_offset mr)) else None)
      in (\<lparr>ctx_insn = insn, ctx_pc = pc, ctx_next_pc = 0, ctx_mem_addr = addr\<rparr>, p))"

definition tick1 :: "'p riscv \<Rightarrow> 'p \<Rightarrow> timing_model \<Rightarrow> 'p \<times> timing_model" where
  "tick1 rv p t =
     (let (ctx, p) = tick_ctx rv p;
          instret0 = rv_minstret rv p;
          p = rv_step rv p;
          t = (if rv_minstret rv p = instret0 then account_trap t
               else snd (account (ctx\<lparr>ctx_next_pc := rv_pc rv p\<rparr>) t))
      in (rv_set_mcycle rv (cycles t) p, t))"

fun tick_loop :: "'p riscv \<Rightarrow> nat \<Rightarrow> 'p \<Rightarrow> timing_model \<Rightarrow> 'p \<times> timing_model" where
  "tick_loop rv 0 p t = (p, t)"
| "tick_loop rv (Suc n) p t = (let (p, t) = tick1 rv p t in tick_loop rv n p t)"

definition tick :: "'p riscv \<Rightarrow> int \<Rightarrow> 'p spike \<Rightarrow> 'p spike" where
  "tick rv n s =
     (case proc s of None \<Rightarrow> s
      | Some p \<Rightarrow> let (p, t) = tick_loop rv (nat n) p (timing s) in s\<lparr>proc := Some p, timing := t\<rparr>)"

definition get_cycle :: "'p spike \<Rightarrow> u64" where
  "get_cycle s = cycles (timing s)"

definition supports_ca :: bool where "supports_ca = True"

definition done_poll :: "'p riscv \<Rightarrow> 'p spike \<Rightarrow> bool \<times> 'p spike" where
  "done_poll rv s =
     (case proc s of None \<Rightarrow> (False, s)
      | Some p \<Rightarrow>
          if tohost_addr s = 0 then (False, s)
          else let (v, p) = rv_load64 rv (tohost_addr s) p
               in (case v of None \<Rightarrow> False | Some v \<Rightarrow> v \<noteq> 0, s\<lparr>proc := Some p\<rparr>))"

text \<open>The C \<open>int\<close> is the word, read by \<open>sint\<close>.\<close>

definition exit_code :: "'p riscv \<Rightarrow> 'p spike \<Rightarrow> u32 \<times> 'p spike" where
  "exit_code rv s =
     (case proc s of None \<Rightarrow> (- 1, s)
      | Some p \<Rightarrow>
          if tohost_addr s = 0 then (- 1, s)
          else let (v, p) = rv_load64 rv (tohost_addr s) p
               in (case v of None \<Rightarrow> - 1 | Some v \<Rightarrow> ucast (drop_bit 1 v), s\<lparr>proc := Some p\<rparr>))"

section \<open>The seam of verif_primitives.h\<close>

definition VERIF_TEST_ADDR :: u32 where "VERIF_TEST_ADDR = 0x50000"
definition VERIF_BREAK_ADDR :: u32 where "VERIF_BREAK_ADDR = 0x51000"

text \<open>The default \<open>host_wait_bp\<close> polls for ever: \<open>None\<close> when the value never comes.\<close>

partial_function (option) seam_wait_bp :: "'p riscv \<Rightarrow> u32 \<Rightarrow> 'p spike \<Rightarrow> (bool \<times> 'p spike) option" where
  "seam_wait_bp rv bp s =
     (case master_read rv VERIF_BREAK_ADDR s of (None, s) \<Rightarrow> Some (False, s)
      | (Some v, s) \<Rightarrow> if v = bp then Some (True, s) else seam_wait_bp rv bp (tick rv 1 s))"

definition CA_WAIT_MAX :: nat where "CA_WAIT_MAX = 200000000"

fun ca_wait_loop :: "'p riscv \<Rightarrow> u32 \<Rightarrow> nat \<Rightarrow> 'p spike \<Rightarrow> bool \<times> 'p spike" where
  "ca_wait_loop rv bp 0 s = (False, s)"
| "ca_wait_loop rv bp (Suc n) s =
     (case master_read rv BREAK_POINT_ADDR s of (None, s) \<Rightarrow> (False, s)
      | (Some v, s) \<Rightarrow> if v = bp then (True, s) else ca_wait_loop rv bp n (tick rv 1 s))"

definition ca_wait_bp :: "'p riscv \<Rightarrow> u32 \<Rightarrow> 'p spike \<Rightarrow> bool \<times> 'p spike" where
  "ca_wait_bp rv bp s = ca_wait_loop rv bp CA_WAIT_MAX s"

record ca_measurement =
  cycle_start :: u64
  cycle_end :: u64
  measured :: u64
  expected :: u64
  tolerance :: u64

definition ca_pass :: "ca_measurement \<Rightarrow> bool" where
  "ca_pass m =
     (let diff = (if measured m > expected m then measured m - expected m else expected m - measured m)
      in diff \<le> tolerance m)"

section \<open>Reading the CA table\<close>

text \<open>Both hosts read the rows alike; \<open>rd\<close> is their unchecked read into a variable that is 0.\<close>

definition VERIF_CA_ENTRY_SZ :: u32 where "VERIF_CA_ENTRY_SZ = 32"

definition word_chars :: "u32 \<Rightarrow> u8 list" where
  "word_chars w = map (\<lambda>b. ucast (drop_bit (8 * b) w AND 0xFF)) [0..<4]"

definition net_of :: "u32 \<Rightarrow> u32 \<Rightarrow> u32" where
  "net_of v ov = (if v > ov then v - ov else 0)"

definition ca_read_row :: "(u32 \<Rightarrow> 's \<Rightarrow> u32 \<times> 's) \<Rightarrow> nat \<Rightarrow> u32 \<times> u32 \<Rightarrow> 's \<Rightarrow> ca_row \<times> (u32 \<times> u32) \<times> 's" where
  "ca_read_row rd i ov s =
     (let base = VERIF_CA_TABLE_ADDR + 16 + of_nat i * VERIF_CA_ENTRY_SZ;
          (w0, s) = rd (base + 0) s;
          (w1, s) = rd (base + 4) s;
          (cyc, s) = rd (base + 8) s;
          (dummy, s) = rd (base + 12) s;
          (ins, s) = rd (base + 16) s;
          (dummy, s) = rd (base + 20) s;
          (iter, s) = rd (base + 24) s;
          ov = (if i = 0 then (cyc, ins) else ov)
      in (\<lparr>row_name = word_chars w0 @ word_chars w1 @ [0], row_cyc = cyc, row_ins = ins, row_iter = iter,
           row_ncyc = net_of cyc (fst ov), row_nins = net_of ins (snd ov)\<rparr>, ov, s))"

fun ca_rows :: "(u32 \<Rightarrow> 's \<Rightarrow> u32 \<times> 's) \<Rightarrow> nat list \<Rightarrow> u32 \<times> u32 \<Rightarrow> 's \<Rightarrow> ca_row list \<times> 's" where
  "ca_rows rd [] ov s = ([], s)"
| "ca_rows rd (i # is) ov s =
     (let (r, ov, s) = ca_read_row rd i ov s; (rs, s) = ca_rows rd is ov s in (r # rs, s))"

definition row_str :: "ca_row \<Rightarrow> u8 list" where
  "row_str r = takeWhile (\<lambda>c. c \<noteq> 0) (row_name r)"

definition c_str :: "string \<Rightarrow> u8 list" where
  "c_str s = map of_char s"

definition ca_pairs :: "(string \<times> string \<times> u32) list" where
  "ca_pairs = [(''LDUSE'', ''LDINDEP'', 256), (''BRTAKEN'', ''BRNTAKN'', 256), (''DMISS'', ''DHIT'', 512)]"

definition pair_report :: "(string \<Rightarrow> ca_row option) \<Rightarrow> string \<times> string \<times> u32 \<Rightarrow> report list" where
  "pair_report find_row pp =
     (case pp of (a, b, n) \<Rightarrow>
        case (find_row a, find_row b) of
          (Some A, Some B) \<Rightarrow>
            [Ca_pair a b (uint (row_nins A) - uint (row_nins B)) (uint (row_ncyc A) - uint (row_ncyc B)) n]
        | _ \<Rightarrow> [])"

text \<open>verif_spike.h takes the first row of a name, CA_measure.cc the last one.\<close>

definition find_row :: "ca_row list \<Rightarrow> string \<Rightarrow> ca_row option" where
  "find_row rows n = List.find (\<lambda>r. row_str r = c_str n) rows"

fun last_row :: "ca_row list \<Rightarrow> string \<Rightarrow> ca_row option \<Rightarrow> ca_row option" where
  "last_row [] n A = A"
| "last_row (r # rs) n A = last_row rs n (if row_str r = c_str n then Some r else A)"

section \<open>The sequences of verif_spike.h\<close>

definition demo_handshake :: "'p riscv \<Rightarrow> 'p spike \<Rightarrow> 'p spike option" where
  "demo_handshake rv s = do {
     (ok, s) \<leftarrow> seam_wait_bp rv BP_TEST_begin s;
     if \<not> ok then Some (say Wait_failed s)
     else let (got, s) = read_into rv 0 VERIF_TEST_ADDR s;
              s = say (Demo_result (got = 0xABCD) got) s;
              (_, s) = master_write rv VERIF_BREAK_ADDR BP_TEST_end s
          in Some s
   }"

definition plic_enable :: "'p riscv \<Rightarrow> 'p spike \<Rightarrow> 'p spike option" where
  "plic_enable rv s = do {
     (ok, s) \<leftarrow> seam_wait_bp rv BP_TEST_begin s;
     if \<not> ok then Some s
     else do {
       let s = trigger_irq rv 3 s;
       (ok, s) \<leftarrow> seam_wait_bp rv BP_TEST_end s;
       if \<not> ok then Some s
       else let (got, s) = read_into rv 0 VERIF_TEST_ADDR s in Some (say (Plic_result (got = 1) got) s)
     }
   }"

definition spike_ca_measure :: "'p riscv \<Rightarrow> 'p spike \<Rightarrow> 'p spike" where
  "spike_ca_measure rv s =
     (let (ok, s) = ca_wait_bp rv BP_TEST_end s in
      if \<not> ok then say Ca_no_bp s
      else
        let (lo, s) = read_into rv 0 VERIF_CA_CYCLE_LO_ADDR s;
            (hi, s) = read_into rv 0 VERIF_CA_CYCLE_HI_ADDR s;
            cyc_end = join64 hi lo;
            (lo, s) = read_into rv lo VERIF_CA_INSTR_LO_ADDR s;
            (hi, s) = read_into rv hi VERIF_CA_INSTR_HI_ADDR s;
            ins_end = join64 hi lo;
            (magic, s) = read_into rv 0 VERIF_CA_TABLE_ADDR s;
            (count, s) = read_into rv 0 (VERIF_CA_TABLE_ADDR + 4) s
        in if magic \<noteq> VERIF_CA_MAGIC \<or> count = 0 \<or> count > 24 then say (Ca_bad_table magic count) s
           else
             let (rows, s) = ca_rows (read_into rv 0) [0..<unat count] (0, 0) s;
                 s = fold say (map Ca_row rows) s;
                 s = fold say (concat (map (pair_report (find_row rows)) ca_pairs)) s;
                 (cyc0, s) = read_into rv 0 (VERIF_CA_TABLE_ADDR + 8) s;
                 (ins0, s) = read_into rv 0 (VERIF_CA_TABLE_ADDR + 12) s;
                 s = say (Ca_totals (get_cycle s) (cyc_end - ucast cyc0) (ins_end - ucast ins0)) s
             in say (Ca_pass count) s)"

definition run_vseq :: "'p riscv \<Rightarrow> 'p spike \<Rightarrow> 'p spike option" where
  "run_vseq rv s =
     (if test s = ''CLINT_rtc'' \<or> test s = [] then Some s
      else if test s = ''DEMO_handshake'' then demo_handshake rv s
      else if test s = ''PLIC_enable'' then plic_enable rv s
      else if test s = ''CA_measure'' then Some (spike_ca_measure rv s)
      else Some s)"

definition spike_idle :: "'p riscv \<Rightarrow> 'p spike \<Rightarrow> 'p spike option" where
  "spike_idle rv s = (if ran s then Some s else run_vseq rv (s\<lparr>ran := True\<rparr>))"

section \<open>The chipyard sequence CA_measure.cc\<close>

text \<open>\<open>rd\<close> is \<open>master_read\<close> of \<open>verif_tsi_t\<close>, which always succeeds; \<open>wait\<close> is its \<open>host_wait_bp\<close> in the
  polarity of S5740_mcu_tests.h (true: not reached); \<open>None\<close> is the result \<open>false\<close>.\<close>

definition tsi_get64 :: "(u32 \<Rightarrow> 's \<Rightarrow> u32 \<times> 's) \<Rightarrow> u32 \<Rightarrow> u32 \<Rightarrow> 's \<Rightarrow> u64 \<times> 's" where
  "tsi_get64 rd lo_addr hi_addr s = (let (lo, s) = rd lo_addr s; (hi, s) = rd hi_addr s in (join64 hi lo, s))"

definition tsi_ca_measure ::
    "(u32 \<Rightarrow> 's \<Rightarrow> u32 \<times> 's) \<Rightarrow> (u32 \<Rightarrow> 's \<Rightarrow> bool \<times> 's) \<Rightarrow> 's \<Rightarrow> report list option \<times> 's" where
  "tsi_ca_measure rd wait s =
     (let (miss, s) = wait BP_TEST_end s in
      if miss then (None, s)
      else
        let (cyc_end, s) = tsi_get64 rd VERIF_CA_CYCLE_LO_ADDR VERIF_CA_CYCLE_HI_ADDR s;
            (ins_end, s) = tsi_get64 rd VERIF_CA_INSTR_LO_ADDR VERIF_CA_INSTR_HI_ADDR s;
            (magic, s) = rd VERIF_CA_TABLE_ADDR s;
            (count, s) = rd (VERIF_CA_TABLE_ADDR + 4) s
        in if magic \<noteq> VERIF_CA_MAGIC \<or> count = 0 \<or> count > 24 then (None, s)
           else
             let (rows, s) = ca_rows rd [0..<unat count] (0, 0) s;
                 pairs = concat (map (pair_report (\<lambda>n. last_row rows n None)) ca_pairs);
                 (cyc0, s) = rd (VERIF_CA_TABLE_ADDR + 8) s;
                 (ins0, s) = rd (VERIF_CA_TABLE_ADDR + 12) s
             in (Some (map Ca_row rows @ pairs @ [Ca_totals cyc_end (cyc_end - ucast cyc0) (ins_end - ucast ins0)]), s))"

section \<open>The drivers\<close>

definition GUARD_MAX :: nat where "GUARD_MAX = 100000000"

text \<open>The loop of verif_spike_run.cc with the guard counting down, and the verdict after it: the
  process exit code, and whether \<open>PASS\<close> is printed with which code.\<close>

definition run_verdict :: "'p riscv \<Rightarrow> 'p spike \<Rightarrow> nat \<times> u32 option" where
  "run_verdict rv s =
     (let (code, s) = exit_code rv s; pass = (code = 0) in (if pass then 0 else 1, Some code))"

fun run_loop :: "'p riscv \<Rightarrow> int \<Rightarrow> nat \<Rightarrow> 'p spike \<Rightarrow> (nat \<times> u32 option) option" where
  "run_loop rv chunk guard s =
     (let (d, s) = done_poll rv s in
      if d then Some (run_verdict rv s)
      else Option.bind (spike_idle rv (tick rv chunk s))
             (\<lambda>s. case guard of 0 \<Rightarrow> Some (3, None) | Suc guard \<Rightarrow> run_loop rv chunk guard s))"

definition spike_run :: "'p riscv \<Rightarrow> int \<Rightarrow> 'p spike \<Rightarrow> (nat \<times> u32 option) option" where
  "spike_run rv chunk s = run_loop rv chunk GUARD_MAX s"

text \<open>verif_ca_run.cc after the arguments; \<open>pmu\<close> is the counter address of path A, if given.\<close>

definition ca_run_main :: "'p riscv \<Rightarrow> u64 \<Rightarrow> u64 \<Rightarrow> u32 option \<Rightarrow> 'p spike \<Rightarrow> (nat \<times> ca_measurement option) option" where
  "ca_run_main rv expct tol pmu b =
     (if \<not> supports_ca then Some (77, None)
      else do {
        let ca = \<lparr>cycle_start = 0, cycle_end = 0, measured = 0, expected = expct, tolerance = tol\<rparr>;
        (ok, b) \<leftarrow> seam_wait_bp rv BP_TEST_begin b;
        if \<not> ok then Some (1, None)
        else do {
          let ca = ca\<lparr>cycle_start := get_cycle b\<rparr>;
          let b = trigger_irq rv 3 b;
          (ok, b) \<leftarrow> seam_wait_bp rv BP_TEST_end b;
          if \<not> ok then Some (1, None)
          else let ca = ca\<lparr>cycle_end := get_cycle b\<rparr>;
                   (ca, b) = (case pmu of
                       Some a \<Rightarrow> let (v, b) = read_into rv 0 a b in (ca\<lparr>measured := ucast v\<rparr>, b)
                     | None \<Rightarrow> (ca\<lparr>measured := cycle_end ca - cycle_start ca\<rparr>, b));
                   pass = ca_pass ca
               in Some (if pass then 0 else 1, Some ca)
        }
      })"

declare run_loop.simps [simp del]

section \<open>Ticks\<close>

lemma account_counts: "n_insn (snd (account c t)) = n_insn t + 1" "n_trap (snd (account c t)) = n_trap t"
proof -
  have "n_trap (snd (mem_cost a m)) = n_trap m" for a m
    by (simp add: mem_cost_def Let_def split: prod.split)
  then have "n_trap (snd (cost c t)) = n_trap t"
    by (simp add: cost_def Let_def split_beta split: option.split)
  then show "n_insn (snd (account c t)) = n_insn t + 1" "n_trap (snd (account c t)) = n_trap t"
    using cost_frame [of c t] by (simp_all add: account_def Let_def split_beta)
qed

lemma account_trap_counts: "n_insn (account_trap t) = n_insn t" "n_trap (account_trap t) = n_trap t + 1"
  by (simp_all add: account_trap_def Let_def)

lemma tick1_counts:
  assumes "tick1 rv p t = (p', t')"
  shows "\<exists>q. p' = rv_set_mcycle rv (cycles t') q" "n_insn t' + n_trap t' = n_insn t + n_trap t + 1"
  using assms by (auto simp: tick1_def Let_def account_counts account_trap_counts split: prod.splits if_splits)

lemma tick_loop_counts:
  assumes "tick_loop rv n p t = (p', t')"
  shows "(n = 0 \<or> (\<exists>q. p' = rv_set_mcycle rv (cycles t') q)) \<and> n_insn t' + n_trap t' = n_insn t + n_trap t + of_nat n"
  using assms
proof (induction n arbitrary: p t)
  case (Suc n)
  obtain q u where q: "tick1 rv p t = (q, u)" by (cases "tick1 rv p t")
  from Suc.prems q have r: "tick_loop rv n q u = (p', t')" by simp
  show ?case using Suc.IH [OF r] tick1_counts [OF q] r by (cases n) (auto simp: algebra_simps)
qed simp

text \<open>The cycle mirror of the virtual platform, whatever libriscv does: every tick is counted once, as an
  instruction or a trap, and the last thing done to the processor is to write the model's cycle count to
  \<open>mcycle\<close>.\<close>

lemma tick_counts_every_step:
  assumes "proc s = Some p" "0 < n"
  shows "\<exists>q. proc (tick rv n s) = Some (rv_set_mcycle rv (get_cycle (tick rv n s)) q)"
    "n_insn (timing (tick rv n s)) + n_trap (timing (tick rv n s)) = n_insn (timing s) + n_trap (timing s) + of_int n"
proof -
  obtain p' t' where l: "tick_loop rv (nat n) p (timing s) = (p', t')" by (cases "tick_loop rv (nat n) p (timing s)")
  have "of_nat (nat n) = (of_int n :: u64)" using assms(2) by simp
  then show "\<exists>q. proc (tick rv n s) = Some (rv_set_mcycle rv (get_cycle (tick rv n s)) q)"
    "n_insn (timing (tick rv n s)) + n_trap (timing (tick rv n s)) = n_insn (timing s) + n_trap (timing s) + of_int n"
    using tick_loop_counts [OF l] assms l by (auto simp: tick_def get_cycle_def)
qed

text \<open>A processor that retires a nop per step: program counter, \<open>minstret\<close>, \<open>mcycle\<close>, \<open>tohost\<close>.\<close>

definition nop_cpu :: "(u64 \<times> u64 \<times> u64 \<times> u64) riscv" where
  "nop_cpu = \<lparr>rv_pc = (\<lambda>(pc, i, c, t). pc), rv_fetch = (\<lambda>a p. (Some 0x13, p)), rv_xpr = (\<lambda>p r. 0),
     rv_minstret = (\<lambda>(pc, i, c, t). i), rv_step = (\<lambda>(pc, i, c, t). (pc + 4, i + 1, c, t)),
     rv_set_mcycle = (\<lambda>v (pc, i, c, t). (pc, i, v, t)), rv_set_mip = (\<lambda>m v p. p),
     rv_load32 = (\<lambda>a p. (None, p)), rv_store32 = (\<lambda>a v p. None), rv_load64 = (\<lambda>a (pc, i, c, t). (Some t, (pc, i, c, t)))\<rparr>"

definition nop_spike :: "u64 \<Rightarrow> (u64 \<times> u64 \<times> u64 \<times> u64) spike" where
  "nop_spike t = \<lparr>proc = Some (0x80000000, 0, 0, t), timing = model_reset, tohost_addr = 0x80001000, ran = False,
     test = [], printed = []\<rparr>"

section \<open>The exit code\<close>

lemma exit_report:
  "ucast (drop_bit 1 (hal_exit_tohost code)) = code" "hal_exit_tohost code \<noteq> 0"
  "ucast (drop_bit 1 (rtdev_exit_tohost code)) = code" "rtdev_exit_tohost code \<noteq> 0"
proof -
  have b: "bit x 0 \<Longrightarrow> x \<noteq> 0" for x :: u64 by auto
  show "hal_exit_tohost code \<noteq> 0" "rtdev_exit_tohost code \<noteq> 0"
    by (rule b, simp add: hal_exit_tohost_def rtdev_exit_tohost_def word_bits)+
  have d: "drop_bit 1 (push_bit 1 x OR 1) = take_bit 63 x" for x :: u64
    by (rule bit_eqI) (simp only: word_bits comp_def bit_1_iff, auto)
  have c: "ucast (take_bit 63 (scast code :: u64)) = code" "ucast (take_bit 63 (ucast code :: u64)) = code"
    by (rule bit_eqI, auto simp: word_bits bit_ucast_iff bit_signed_iff dest: bit_imp_le_length)+
  show "ucast (drop_bit 1 (hal_exit_tohost code)) = code" "ucast (drop_bit 1 (rtdev_exit_tohost code)) = code"
    using c d [of "scast code"] d [of "ucast code"] by (simp_all only: hal_exit_tohost_def rtdev_exit_tohost_def split: if_split) auto
qed

text \<open>The exit code survives the trip through \<open>tohost\<close>. For every 32-bit code given to \<open>exit\<close> of
  either shim, once the store to \<open>tohost\<close> is in memory the driver of the virtual platform stops at its
  next poll with exactly that code, and its own exit status is 0 when the code is 0 and 1 otherwise.\<close>

theorem exit_code_roundtrip:
  assumes "v \<in> {hal_exit_tohost code, rtdev_exit_tohost code}" "proc s = Some p" "tohost_addr s \<noteq> 0"
    and "rv_load64 rv (tohost_addr s) p = (Some v, p)"
  shows "spike_run rv chunk s = Some (if code = 0 then 0 else 1, Some code)"
proof -
  have v: "v \<noteq> 0" "ucast (drop_bit 1 v) = code" using assms(1) exit_report [of code] by auto
  have s: "s\<lparr>proc := Some p\<rparr> = s" using assms(2) by simp
  show ?thesis using assms(2-4) v s
    by (simp add: spike_run_def run_loop.simps [of rv chunk GUARD_MAX] done_poll_def run_verdict_def exit_code_def)
qed

theorem exit_code_roundtrip_witness:
  "spike_run nop_cpu 1000 (nop_spike (hal_exit_tohost 0xFFFFFFFF)) = Some (if (0xFFFFFFFF :: u32) = 0 then 0 else 1, Some 0xFFFFFFFF)"
  by (rule exit_code_roundtrip [where v = "hal_exit_tohost 0xFFFFFFFF"]) (simp_all only: nop_spike_def nop_cpu_def spike.simps riscv.simps case_prod_conv insert_iff, simp_all)

section \<open>The result table\<close>

text \<open>The eight name bytes of an entry.\<close>

definition name_bytes :: "string \<Rightarrow> u8 list" where
  "name_bytes s = take 8 (c_str s @ replicate 8 0)"

lemma length_name_bytes [simp]: "length (name_bytes s) = 8"
  by (simp add: name_bytes_def)

lemma offset_hit: "i < 8 \<Longrightarrow> a = e + of_nat i \<longleftrightarrow> unat (a - e :: u32) = i"
proof -
  assume "i < 8"
  then have "unat (of_nat i :: u32) = i" by (simp add: unat_of_nat take_bit_nat_eq_self)
  then have "unat (a - e) = i \<longleftrightarrow> a - e = of_nat i" by (metis word_unat_eq_iff)
  then show ?thesis by (auto simp: algebra_simps)
qed

lemma offset_rest:
  assumes "i < 8"
  shows "unat (a - (e + of_nat i) :: u32) < 8 - i \<longleftrightarrow> i \<le> unat (a - e) \<and> unat (a - e) < 8"
proof -
  have i: "unat (of_nat i :: u32) = i" using assms by (simp add: unat_of_nat take_bit_nat_eq_self)
  define y where "y = a - (e + of_nat i)"
  have x: "a - e = y + of_nat i" by (simp add: y_def)
  have "i \<le> unat (a - e) \<Longrightarrow> unat y = unat (a - e) - i"
    using unat_sub [of "of_nat i" "a - e"] i by (simp add: y_def word_le_nat_alt diff_diff_eq)
  moreover have "unat y < 8 \<Longrightarrow> unat (a - e) = unat y + i"
    using unat_add_small [of y "of_nat i"] i assms by (simp add: x)
  ultimately show ?thesis using assms by (auto simp: y_def [symmetric])
qed

lemma name_loop_eq:
  "i \<le> 8 \<Longrightarrow> ca_name_loop m e i s =
     (\<lambda>a. if i \<le> unat (a - e) \<and> unat (a - e) < 8 then (c_str s @ replicate 8 0) ! (unat (a - e) - i) else m a)"
proof (induction m e i s rule: ca_name_loop.induct)
  case (1 m e i s)
  show ?case
  proof (cases "i = 8")
    case True
    then show ?thesis by (subst ca_name_loop.simps) (auto simp: fun_eq_iff)
  next
    case False
    then have i: "i < 8" "\<not> 8 \<le> i" using 1(2) by simp_all
    show ?thesis
    proof (cases s)
      case Nil
      then show ?thesis using i
        by (auto simp: ca_name_loop.simps [of m e i] set_bytes_filled mem_filled_def c_str_def offset_rest fun_eq_iff)
    next
      case (Cons c cs)
      have step: "ca_name_loop m e i s = ca_name_loop (m(e + of_nat i := of_char c)) e (i + 1) cs"
        using i by (simp add: ca_name_loop.simps [of m e i] Cons)
      have "i + 1 \<le> 8" using i by simp
      note ih = fun_cong [OF trans [OF step 1(1) [OF i(2) Cons this]]]
      show ?thesis
      proof
        fix x
        show "ca_name_loop m e i s x =
          (if i \<le> unat (x - e) \<and> unat (x - e) < 8 then (c_str s @ replicate 8 0) ! (unat (x - e) - i) else m x)"
        proof (cases "unat (x - e) = i")
          case True
          then have "x = e + of_nat i" using i(1) by (simp only: offset_hit)
          then show ?thesis using True i ih [of x] by (simp add: c_str_def Cons)
        next
          case False
          then have ne: "x \<noteq> e + of_nat i" using i(1) by (simp only: offset_hit) simp
          show ?thesis
          proof (cases "i \<le> unat (x - e)")
            case True
            with False have "unat (x - e) - i = Suc (unat (x - e) - Suc i)" "Suc i \<le> unat (x - e)" by linarith+
            then show ?thesis using ne i ih [of x] by (simp add: c_str_def Cons)
          next
            case below: False
            then show ?thesis using ne i ih [of x] by simp
          qed
        qed
      qed
    qed
  qed
qed

lemma unat_of_nat_small: "n < 2 ^ 32 \<Longrightarrow> unat (of_nat n :: u32) = n"
  by (simp add: unat_of_nat take_bit_nat_eq_self)

lemma unat_entry:
  assumes "k < 24" "j < 8"
  shows "unat (ca_entry k + 4 * of_nat j) = 0x80010110 + 32 * k + 4 * j"
proof -
  have e: "ca_entry k + 4 * of_nat j = of_nat (0x80010110 + 32 * k + 4 * j)"
    by (simp add: ca_entry_def ca_addr)
  have "0x80010110 + 32 * k + 4 * j < 2 ^ 32" using assms by simp
  then show ?thesis unfolding e by (rule unat_of_nat_small)
qed

text \<open>Word \<open>j\<close> of entry \<open>k\<close>.\<close>

definition entry_addr :: "nat \<Rightarrow> nat \<Rightarrow> u32" where
  "entry_addr k j = ca_entry k + 4 * of_nat j"

definition entry_word :: "mem \<Rightarrow> nat \<Rightarrow> nat \<Rightarrow> u32" where
  "entry_word m k j = ld32 m (entry_addr k j)"

lemma entry_aligned: "k < 24 \<Longrightarrow> j < 8 \<Longrightarrow> entry_addr k j AND 3 = 0"
  unfolding aligned_iff_mod entry_addr_def by (simp only: unat_entry) presburger

lemma entry_distinct:
  assumes "k < 24" "j < 8" "k' < 24" "j' < 8"
  shows "entry_addr k j = entry_addr k' j' \<longleftrightarrow> k = k' \<and> j = j'"
proof
  assume "entry_addr k j = entry_addr k' j'"
  then have "32 * k + 4 * j = 32 * k' + 4 * j'"
    using unat_entry [OF assms(1,2)] unat_entry [OF assms(3,4)] by (simp add: entry_addr_def)
  moreover have "(32 * k + 4 * j) div 32 = k" "(32 * k' + 4 * j') div 32 = k'" using assms(2,4) by simp_all
  ultimately show "k = k' \<and> j = j'" by simp
qed simp

lemma entry_not_header:
  assumes "k < 24" "j < 8"
  shows "entry_addr k j \<noteq> VERIF_CA_TABLE_ADDR" "entry_addr k j \<noteq> VERIF_CA_TABLE_ADDR + 4"
  using unat_entry [OF assms] by (auto simp: ca_addr entry_addr_def)

lemma header_aligned: "VERIF_CA_TABLE_ADDR AND 3 = 0" "(VERIF_CA_TABLE_ADDR + 4) AND 3 = 0"
  "VERIF_CA_TABLE_ADDR \<noteq> VERIF_CA_TABLE_ADDR + 4"
  by (simp_all add: ca_addr)

lemma word_chars_ld32: "word_chars (ld32 m a) = [m a, m (a + 1), m (a + 2), m (a + 3)]"
proof -
  have f: "(ucast (w AND 0xFF) :: u8) = ucast w" for w :: u32
  proof -
    have m: "(0xFF :: u32) = mask 8" by (simp add: mask_eq_exp_minus_1)
    show ?thesis unfolding m by (intro bit_eqI) (auto simp: word_bits bit_ucast_iff)
  qed
  have "[0..<4] = [0, 1, 2, 3]" by (simp add: upt_rec)
  then show ?thesis by (simp add: word_chars_def f ld32_bytes)
qed

text \<open>Words outside the name are left alone by the name loop.\<close>

lemma name_loop_word:
  assumes "a AND 3 = 0" "e AND 3 = 0" "a \<noteq> e" "a \<noteq> e + 4"
  shows "ld32 (ca_name_loop m e 0 s) a = ld32 m a"
proof -
  have o: "ca_name_loop m e 0 s (a + i) = m (a + i)" if i: "i AND 3 = i" for i
  proof -
    have "\<not> unat (a + i - e) < 8"
    proof
      assume "unat (a + i - e) < 8"
      then have "a + i - e < 8" by (simp add: word_less_nat_alt)
      then have "a + i - e \<in> {0, 1, 2, 3, 4, 5, 6, 7}" by (auto simp: u32_less_8)
      then consider j where "a + i = e + j" "j AND 3 = j" | j where "a + i = e + 4 + j" "j AND 3 = j"
        by (auto simp: algebra_simps eq_diff_eq)
      then show False
        using aligned_words_disjoint [OF assms(1,2,3) i] aligned_words_disjoint [OF assms(1) aligned_step [OF assms(2)] assms(4) i]
        by cases metis+
    qed
    then show ?thesis by (simp add: name_loop_eq)
  qed
  show ?thesis using o [of 0] o [of 1] o [of 2] o [of 3] by (simp add: ld32_def)
qed

lemma name_loop_chars:
  "word_chars (ld32 (ca_name_loop m e 0 s) e) @ word_chars (ld32 (ca_name_loop m e 0 s) (e + 4)) = name_bytes s"
proof -
  have c: "ca_name_loop m e 0 s (e + of_nat j) = name_bytes s ! j" if "j < 8" for j
    using that unat_of_nat_small [of j] by (simp add: name_loop_eq name_bytes_def del: take_append)
  have "name_bytes s = map ((!) (name_bytes s)) [0..<8]" using map_nth [of "name_bytes s"] by simp
  also have "[0..<8] = [0, 1, 2, 3, 4, 5, 6, 7]" by (simp add: upt_rec)
  finally show ?thesis using c [of 0] c [of 1] c [of 2] c [of 3] c [of 4] c [of 5] c [of 6] c [of 7]
    by (simp add: word_chars_ld32 add.assoc)
qed

text \<open>What one \<open>ca_record\<close> does to the words of the table.\<close>

lemma ca_record_mem:
  assumes "g_ca_n d = n" "n < 24"
  shows "ca_mem (ca_record name c i k d) =
      st32 (st32 (st32 (st32 (st32 (st32 (st32 (ca_name_loop (ca_mem d) (entry_addr n 0) 0 name) (entry_addr n 2) c)
        (entry_addr n 3) 0) (entry_addr n 4) i) (entry_addr n 5) 0) (entry_addr n 6) k) (entry_addr n 7) 0)
        (VERIF_CA_TABLE_ADDR + 4) (of_nat (n + 1))"
    "g_ca_n (ca_record name c i k d) = n + 1"
  using assms by (simp_all add: ca_record_def Let_def ca_store_def entry_addr_def VERIF_CA_MAX_ENTRY_def)

lemma name_loop_entry:
  assumes "n < 24" "a AND 3 = 0" "a \<noteq> entry_addr n 0" "a \<noteq> entry_addr n 1"
  shows "ld32 (ca_name_loop m (entry_addr n 0) 0 s) a = ld32 m a"
proof -
  have "entry_addr n 1 = entry_addr n 0 + 4" by (simp add: entry_addr_def)
  then show ?thesis using assms entry_aligned [of n 0] by (intro name_loop_word) simp_all
qed

lemma ca_record_words:
  assumes "g_ca_n d = n" "n < 24" and m'_def: "m' = ca_mem (ca_record name c i k d)"
  shows "ld32 m' VERIF_CA_TABLE_ADDR = ld32 (ca_mem d) VERIF_CA_TABLE_ADDR"
    "ld32 m' (VERIF_CA_TABLE_ADDR + 4) = of_nat (n + 1)"
    "entry_word m' n 2 = c" "entry_word m' n 4 = i" "entry_word m' n 6 = k"
    "word_chars (entry_word m' n 0) @ word_chars (entry_word m' n 1) = name_bytes name"
    "j < 24 \<Longrightarrow> j \<noteq> n \<Longrightarrow> q < 8 \<Longrightarrow> entry_word m' j q = entry_word (ca_mem d) j q"
proof -
  note facts = entry_aligned entry_distinct entry_not_header entry_not_header [symmetric] header_aligned
    header_aligned(3) [symmetric] name_loop_entry mem_simps
  note m = ca_record_mem(1) [OF assms(1,2), of name c i k]
  show "ld32 m' VERIF_CA_TABLE_ADDR = ld32 (ca_mem d) VERIF_CA_TABLE_ADDR"
    "ld32 m' (VERIF_CA_TABLE_ADDR + 4) = of_nat (n + 1)"
    "entry_word m' n 2 = c" "entry_word m' n 4 = i" "entry_word m' n 6 = k"
    unfolding m'_def m entry_word_def using assms(2) by (simp_all add: facts)
  have "entry_word m' n 0 = ld32 (ca_name_loop (ca_mem d) (entry_addr n 0) 0 name) (entry_addr n 0)"
    "entry_word m' n 1 = ld32 (ca_name_loop (ca_mem d) (entry_addr n 0) 0 name) (entry_addr n 0 + 4)"
    unfolding m'_def m entry_word_def using assms(2) by (simp_all add: facts) (simp add: entry_addr_def)
  then show "word_chars (entry_word m' n 0) @ word_chars (entry_word m' n 1) = name_bytes name"
    by (simp add: name_loop_chars)
  show "entry_word m' j q = entry_word (ca_mem d) j q" if "j < 24" "j \<noteq> n" "q < 8"
    unfolding m'_def m entry_word_def using assms(2) that by (simp add: facts)
qed

text \<open>The table holds the list of measurements \<open>(name, cycles, instructions, iterations)\<close>.\<close>

type_synonym ca_meas = "string \<times> u32 \<times> u32 \<times> u32"

definition entry_holds :: "mem \<Rightarrow> nat \<Rightarrow> ca_meas \<Rightarrow> bool" where
  "entry_holds m j r = (case r of (name, c, i, k) \<Rightarrow>
     word_chars (entry_word m j 0) @ word_chars (entry_word m j 1) = name_bytes name
     \<and> entry_word m j 2 = c \<and> entry_word m j 4 = i \<and> entry_word m j 6 = k)"

definition table_holds :: "ca_dev \<Rightarrow> ca_meas list \<Rightarrow> bool" where
  "table_holds d rs \<longleftrightarrow> length rs \<le> 24 \<and> g_ca_n d = length rs \<and> ld32 (ca_mem d) VERIF_CA_TABLE_ADDR = VERIF_CA_MAGIC
     \<and> ld32 (ca_mem d) (VERIF_CA_TABLE_ADDR + 4) = of_nat (length rs)
     \<and> (\<forall>j < length rs. entry_holds (ca_mem d) j (rs ! j))"

definition ca_record_all :: "ca_meas list \<Rightarrow> ca_dev \<Rightarrow> ca_dev" where
  "ca_record_all rs d = fold (\<lambda>(name, c, i, k). ca_record name c i k) rs d"

lemma table_init_holds: "table_holds (ca_table_init d) []"
  using header_aligned by (simp add: table_holds_def ca_table_init_def Let_def ca_store_def mem_simps)

lemma record_holds:
  assumes "table_holds d rs"
  shows "table_holds (ca_record name c i k d) (take 24 (rs @ [(name, c, i, k)]))"
proof (cases "length rs < 24")
  case True
  have n: "g_ca_n d = length rs" using assms by (simp add: table_holds_def)
  note w = ca_record_words [where name = name and c = c and i = i and k = k, OF n True HOL.refl]
  have "entry_holds (ca_mem (ca_record name c i k d)) j ((rs @ [(name, c, i, k)]) ! j)" if "j < Suc (length rs)" for j
  proof (cases "j = length rs")
    case True
    then show ?thesis using w by (simp add: entry_holds_def)
  next
    case False
    then have "j < 24" "j < length rs" using that True by simp_all
    then show ?thesis using assms w(7) [of j] False by (auto simp: table_holds_def entry_holds_def nth_append)
  qed
  then show ?thesis using True assms w(1,2) ca_record_mem(2) [OF n True] by (simp add: table_holds_def)
next
  case False
  then show ?thesis using assms by (simp add: table_holds_def ca_record_def VERIF_CA_MAX_ENTRY_def)
qed

lemma record_all_holds: "table_holds d done \<Longrightarrow> table_holds (ca_record_all rs d) (take 24 (done @ rs))"
proof (induction rs arbitrary: d "done")
  case Nil
  then show ?case by (simp add: ca_record_all_def table_holds_def)
next
  case (Cons r rs)
  obtain name c i k where r: "r = (name, c, i, k)" by (cases r)
  have "take 24 (take 24 (done @ [r]) @ rs) = take 24 (done @ r # rs)" by (cases "length done < 24") simp_all
  with Cons.IH [OF record_holds [OF Cons.prems, of name c i k]] r show ?case by (simp add: ca_record_all_def)
qed

text \<open>The row a host makes of a measurement, with the overhead measurement \<open>ov\<close> taken off.\<close>

definition row_of :: "ca_meas \<Rightarrow> ca_meas \<Rightarrow> ca_row" where
  "row_of ov r = (case (ov, r) of ((_, oc, oi, _), (name, c, i, k)) \<Rightarrow>
     \<lparr>row_name = name_bytes name @ [0], row_cyc = c, row_ins = i, row_iter = k, row_ncyc = net_of c oc, row_nins = net_of i oi\<rparr>)"

definition mem_reader :: "mem \<Rightarrow> u32 \<Rightarrow> 's \<Rightarrow> u32 \<times> 's" where
  "mem_reader m a s = (ld32 m a, s)"

lemma read_row:
  assumes "\<And>a. rd a s = (ld32 m a, s)" "entry_holds m j r"
    and "j \<noteq> 0 \<Longrightarrow> ov = (fst (snd r0), fst (snd (snd r0)))" "j = 0 \<Longrightarrow> r0 = r"
  shows "ca_read_row rd j ov s = (row_of r0 r, (fst (snd r0), fst (snd (snd r0))), s)"
proof -
  have e: "ld32 m (VERIF_CA_TABLE_ADDR + 16 + of_nat j * VERIF_CA_ENTRY_SZ + 4 * of_nat q) = entry_word m j q" for q
    by (simp add: entry_word_def entry_addr_def ca_entry_def VERIF_CA_ENTRY_SZ_def mult.commute)
  note e = e [of 0] e [of 1] e [of 2] e [of 4] e [of 6]
  show ?thesis using assms e
    by (cases r; cases r0; cases "j = 0") (auto simp: ca_read_row_def Let_def entry_holds_def row_of_def)
qed

lemma read_rows:
  assumes "\<And>a. rd a s = (ld32 m a, s)" "\<And>j. j < length rs \<Longrightarrow> entry_holds m j (rs ! j)"
    and "j \<le> length rs" "j \<noteq> 0 \<Longrightarrow> ov = (fst (snd (hd rs)), fst (snd (snd (hd rs))))"
  shows "ca_rows rd [j..<length rs] ov s = (map (row_of (hd rs)) (drop j rs), s)"
  using assms(3,4)
proof (induction "length rs - j" arbitrary: j ov)
  case (Suc n)
  then have j: "j < length rs" by simp
  have "j = 0 \<Longrightarrow> hd rs = rs ! j" using j by (auto simp: hd_conv_nth)
  from read_row [where ?r0.0 = "hd rs" and rd = rd and s = s and m = m, OF assms(1) assms(2) [OF j] Suc.prems(2) this]
  have "ca_read_row rd j ov s = (row_of (hd rs) (rs ! j), (fst (snd (hd rs)), fst (snd (snd (hd rs)))), s)" by blast
  moreover have "ca_rows rd [Suc j..<length rs] (fst (snd (hd rs)), fst (snd (snd (hd rs)))) s
      = (map (row_of (hd rs)) (drop (Suc j) rs), s)"
    using Suc.hyps(2) j by (intro Suc.hyps(1)) simp_all
  ultimately show ?case using j by (simp add: upt_rec [of j] Cons_nth_drop_Suc [symmetric])
qed simp

lemma row_str_row_of: "row_str (row_of ov (name, c, i, k)) = takeWhile (\<lambda>x. x \<noteq> 0) (c_str (take 8 name))"
proof -
  have "takeWhile (\<lambda>x. x \<noteq> 0) (xs @ replicate n 0) = takeWhile (\<lambda>x. x \<noteq> 0) xs" for xs :: "u8 list" and n
    by (induction xs) (simp_all add: takeWhile_replicate)
  moreover have "name_bytes name @ [0] = c_str (take 8 name) @ replicate (9 - length (take 8 name)) 0"
  proof -
    have "9 - min (length name) 8 = Suc (8 - length name)" by arith
    then show ?thesis by (simp add: name_bytes_def c_str_def take_map replicate_append_same)
  qed
  ultimately show ?thesis by (cases ov) (simp only: row_str_def row_of_def prod.case ca_row.simps)
qed

text \<open>The result table from device to host. For every sequence of measurements the device records
  after \<open>ca_table_init\<close>, a host that reads that memory finds the magic number, the count and exactly
  the first 24 measurements in order, each with its cycles, instructions and iterations, the overhead
  measurement taken off (never below zero), and the first eight characters of its name.\<close>

theorem ca_table_roundtrip:
  "let m = ca_mem (ca_record_all rs (ca_table_init d)); ms = take 24 rs in
     ld32 m VERIF_CA_TABLE_ADDR = VERIF_CA_MAGIC \<and> ld32 m (VERIF_CA_TABLE_ADDR + 4) = of_nat (length ms)
     \<and> ca_rows (mem_reader m) [0..<length ms] (0, 0) s = (map (row_of (hd ms)) ms, s)
     \<and> row_str (row_of ov (name, c, i, k)) = takeWhile (\<lambda>x. x \<noteq> 0) (c_str (take 8 name))"
  using record_all_holds [OF table_init_holds, of rs d] row_str_row_of
    read_rows [where rd = "mem_reader (ca_mem (ca_record_all rs (ca_table_init d)))" and s = s and rs = "take 24 rs" and j = 0 and ov = "(0, 0)"]
  by (simp add: Let_def table_holds_def mem_reader_def)

text \<open>With distinct names the first row of a name is the last one.\<close>

lemma last_row_find:
  "distinct (map row_str rows) \<Longrightarrow>
   last_row rows n A = (case find_row rows n of None \<Rightarrow> A | Some r \<Rightarrow> Some r)"
proof (induction rows arbitrary: A)
  case (Cons r rows)
  have "row_str r \<notin> row_str ` set rows" using Cons.prems by simp
  then have "find_row rows n = None" if "row_str r = c_str n"
    using that by (auto simp: find_row_def find_None_iff) (metis image_eqI)
  with Cons show ?case by (auto simp: find_row_def)
qed (simp add: find_row_def)

lemma say_all: "fold say rs s = s\<lparr>printed := printed s @ rs\<rparr>"
  by (induction rs arbitrary: s) (simp_all add: say_def)

lemma read_into_pure:
  assumes "proc s = Some p" "\<And>a. rv_load32 rv (ucast a) p = (Some (ld32 m a), p)"
  shows "read_into rv old a s = (ld32 m a, s)" "master_read rv a s = (Some (ld32 m a), s)"
proof -
  have "s\<lparr>proc := Some p\<rparr> = s" using assms(1) by simp
  then show "read_into rv old a s = (ld32 m a, s)" "master_read rv a s = (Some (ld32 m a), s)"
    using assms by (simp_all add: read_into_def master_read_def)
qed

text \<open>The two hosts report the same measurements, made from the entries of the table, when the first eight
  characters of the names are distinct; only where the total cycle count comes from differs.\<close>

lemma ca_hosts_agree:
  assumes "proc s = Some p" "\<And>a. rv_load32 rv (ucast a) p = (Some (ld32 m a), p)"
    and "table_holds d ms" "m = ca_mem d" "ms \<noteq> []" "ld32 m BREAK_POINT_ADDR = BP_TEST_end"
    and "distinct (map (row_str \<circ> row_of (hd ms)) ms)" "wait BP_TEST_end t = (False, t)"
  defines "cyc \<equiv> join64 (ld32 m VERIF_CA_CYCLE_HI_ADDR) (ld32 m VERIF_CA_CYCLE_LO_ADDR)"
    and "ins \<equiv> join64 (ld32 m VERIF_CA_INSTR_HI_ADDR) (ld32 m VERIF_CA_INSTR_LO_ADDR)"
    and "cyc0 \<equiv> ld32 m (VERIF_CA_TABLE_ADDR + 8)" and "ins0 \<equiv> ld32 m (VERIF_CA_TABLE_ADDR + 12)"
    and "pairs \<equiv> concat (map (pair_report (find_row (map (row_of (hd ms)) ms))) ca_pairs)"
  shows "printed (spike_ca_measure rv s) = printed s @ map Ca_row (map (row_of (hd ms)) ms) @ pairs
      @ [Ca_totals (get_cycle s) (cyc - ucast cyc0) (ins - ucast ins0), Ca_pass (of_nat (length ms))]"
    "fst (tsi_ca_measure (mem_reader m) wait t) = Some (map Ca_row (map (row_of (hd ms)) ms) @ pairs
      @ [Ca_totals cyc (cyc - ucast cyc0) (ins - ucast ins0)])"
proof -
  define rows where "rows = map (row_of (hd ms)) ms"
  have n: "length ms \<le> 24" "0 < length ms" and e: "\<And>j. j < length ms \<Longrightarrow> entry_holds m j (ms ! j)"
    and h: "ld32 m VERIF_CA_TABLE_ADDR = VERIF_CA_MAGIC" "ld32 m (VERIF_CA_TABLE_ADDR + 4) = of_nat (length ms)"
    using assms(3-5) by (auto simp: table_holds_def)
  have len: "unat (of_nat (length ms) :: u32) = length ms" using n(1) by (intro unat_of_nat_small) simp
  then have c: "(of_nat (length ms) :: u32) \<noteq> 0" "\<not> (of_nat (length ms) :: u32) > 24"
    using n by (auto simp: word_less_nat_alt)
  note rd = read_into_pure [OF assms(1,2)]
  have r: "ca_rows (read_into rv 0) [0..<length ms] (0, 0) s = (rows, s)"
    "ca_rows (mem_reader m) [0..<length ms] (0, 0) t = (rows, t)"
    using read_rows [where rd = "read_into rv 0" and s = s and m = m and rs = ms and j = 0 and ov = "(0, 0)", OF rd(1) e]
      read_rows [where rd = "mem_reader m" and s = t and m = m and rs = ms and j = 0 and ov = "(0, 0)", OF _ e]
    by (simp_all add: rows_def mem_reader_def)
  have "last_row rows x None = find_row rows x" for x
    using last_row_find [of rows x None] assms(7) by (simp add: rows_def split: option.split)
  then have l: "(\<lambda>n. last_row rows n None) = find_row rows" by (rule ext)
  have b: "ca_wait_bp rv BP_TEST_end s = (True, s)"
  proof -
    have max: "CA_WAIT_MAX = Suc 199999999" by (simp add: CA_WAIT_MAX_def)
    show ?thesis unfolding ca_wait_bp_def max ca_wait_loop.simps(2) using rd(2) assms(6) by simp
  qed
  have rd': "read_into rv old a (s\<lparr>printed := x\<rparr>) = (ld32 m a, s\<lparr>printed := x\<rparr>)" for old a x
    by (rule read_into_pure(1)) (use assms(1,2) in simp_all)
  show "printed (spike_ca_measure rv s) = printed s @ map Ca_row (map (row_of (hd ms)) ms) @ pairs
      @ [Ca_totals (get_cycle s) (cyc - ucast cyc0) (ins - ucast ins0), Ca_pass (of_nat (length ms))]"
    unfolding spike_ca_measure_def pairs_def cyc_def ins_def cyc0_def ins0_def
    by (simp add: b rd' rd(1) h c len r say_all) (simp add: say_def get_cycle_def rows_def)
  show "fst (tsi_ca_measure (mem_reader m) wait t) = Some (map Ca_row (map (row_of (hd ms)) ms) @ pairs
      @ [Ca_totals cyc (cyc - ucast cyc0) (ins - ucast ins0)])"
    unfolding tsi_ca_measure_def pairs_def cyc_def ins_def cyc0_def ins0_def
    by (simp add: assms(8) tsi_get64_def mem_reader_def [abs_def] h c len r [unfolded mem_reader_def [abs_def]] l)
      (simp add: rows_def)
qed

text \<open>A processor whose memory is the device's.\<close>

definition mem_cpu :: "mem riscv" where
  "mem_cpu = \<lparr>rv_pc = (\<lambda>p. 0), rv_fetch = (\<lambda>a p. (None, p)), rv_xpr = (\<lambda>p r. 0), rv_minstret = (\<lambda>p. 0),
     rv_step = (\<lambda>p. p), rv_set_mcycle = (\<lambda>v p. p), rv_set_mip = (\<lambda>m v p. p),
     rv_load32 = (\<lambda>a p. (Some (ld32 p (ucast a)), p)), rv_store32 = (\<lambda>a v p. Some (st32 p (ucast a) v)),
     rv_load64 = (\<lambda>a p. (Some 0, p))\<rparr>"

definition mem_spike :: "mem \<Rightarrow> mem spike" where
  "mem_spike m = \<lparr>proc = Some m, timing = model_reset, tohost_addr = 0, ran = False, test = ''CA_measure'', printed = []\<rparr>"

lemma break_point_apart:
  "BREAK_POINT_ADDR AND 3 = 0" "BREAK_POINT_ADDR \<noteq> VERIF_CA_TABLE_ADDR + 4" "BREAK_POINT_ADDR \<noteq> VERIF_CA_TABLE_ADDR"
  "k < 24 \<Longrightarrow> j < 8 \<Longrightarrow> BREAK_POINT_ADDR \<noteq> entry_addr k j"
  using unat_entry [of k j] by (auto simp: ca_addr entry_addr_def)

lemma record_keeps_mark: "ld32 (ca_mem (ca_record name c i k d)) BREAK_POINT_ADDR = ld32 (ca_mem d) BREAK_POINT_ADDR"
proof (cases "g_ca_n d < 24")
  case True
  then show ?thesis
    by (simp add: ca_record_mem(1) [OF HOL.refl] break_point_apart entry_aligned header_aligned name_loop_entry mem_simps)
next
  case False
  then show ?thesis by (simp add: ca_record_def VERIF_CA_MAX_ENTRY_def)
qed

section \<open>The verdict\<close>

lemma ca_pass_iff:
  "ca_pass m \<longleftrightarrow> \<bar>int (unat (measured m)) - int (unat (expected m))\<bar> \<le> int (unat (tolerance m))"
proof (cases "expected m < measured m")
  case True
  then have "unat (measured m - expected m) = unat (measured m) - unat (expected m)" by (intro unat_sub) simp
  moreover have "unat (expected m) < unat (measured m)" using True by (simp only: word_less_nat_alt)
  ultimately show ?thesis using True by (simp only: ca_pass_def Let_def if_True word_le_nat_alt) linarith
next
  case False
  then have "unat (expected m - measured m) = unat (expected m) - unat (measured m)" by (intro unat_sub) simp
  moreover have "unat (measured m) \<le> unat (expected m)" using False by (simp only: word_less_nat_alt not_less)
  ultimately show ?thesis using False by (simp only: ca_pass_def Let_def if_False word_le_nat_alt) linarith
qed

section \<open>CA_measure from device to host\<close>

text \<open>Counter reads with one high word: no read of a counter sees a carry.\<close>

definition carry_free :: "u64 list \<Rightarrow> bool" where
  "carry_free ts \<longleftrightarrow> (\<exists>h. \<forall>t \<in> set ts. drop_bit 32 t = h)"

lemma carry_free_drop: "carry_free ts \<Longrightarrow> carry_free (drop n ts)"
  unfolding carry_free_def using in_set_dropD by metis

lemma carry_free_get_cycle:
  assumes "carry_free ts" "3 \<le> length ts"
  shows "verif_ca_get_cycle ts = Some (ts ! 1, drop 3 ts)"
proof -
  obtain a b c us where ts: "ts = a # b # c # us"
    using assms(2) by (cases ts; cases "tl ts"; cases "tl (tl ts)") auto
  with assms(1) have "drop_bit 32 a = drop_bit 32 b" "drop_bit 32 a = drop_bit 32 c" by (auto simp: carry_free_def)
  then show ?thesis by (simp add: ts join64_parts)
qed

lemma carry_free_at:
  assumes "carry_free ts" "e + 3 \<le> length ts"
  shows "verif_ca_get_cycle (drop e ts) = Some (ts ! (e + 1), drop (e + 3) ts)"
  using carry_free_get_cycle [OF carry_free_drop [OF assms(1)], of e] assms(2) by (simp add: add.commute)

text \<open>A block that leaves the memory, the table and the instruction counter alone and reads the cycle counter
  \<open>e\<close> times.\<close>

definition plain_block :: "nat \<Rightarrow> (ca_dev \<Rightarrow> ca_dev) \<Rightarrow> bool" where
  "plain_block e fn \<longleftrightarrow> (\<forall>d. ca_mem (fn d) = ca_mem d \<and> g_ca_n (fn d) = g_ca_n d \<and> ins_reads (fn d) = ins_reads d
     \<and> cyc_reads (fn d) = drop e (cyc_reads d))"

definition block_reads :: "string \<Rightarrow> nat" where
  "block_reads name = (if name = ''CSRRD'' then 256 else 0)"

lemma ca_blocks_plain: "(name, fn, k) \<in> set (ca_blocks buf) \<Longrightarrow> plain_block (block_reads name) fn"
  by (auto simp: ca_blocks_def block_reads_def plain_block_def blk_empty_def blk_nop_def blk_aludep_def blk_lduse_def
    blk_ldindep_def blk_brtaken_def blk_brnottaken_def blk_mulindep_def blk_muldep_def blk_div_def blk_csrrd_def
    blk_dhit_def blk_dmiss_def)

text \<open>The measurements of a list of blocks, read off the counter values: of each, the difference between the
  middle reads of the two turns around the measured call.\<close>

fun measurements :: "(string \<times> u32) list \<Rightarrow> u64 list \<Rightarrow> u64 list \<Rightarrow> ca_meas list" where
  "measurements [] ts us = []"
| "measurements ((name, k) # bs) ts us =
     (let e = block_reads name
      in (name, ucast (ts ! (2 * e + 4) - ts ! (e + 1)), ucast (us ! 4 - us ! 1), k)
         # measurements bs (drop (2 * e + 6) ts) (drop 6 us))"

lemma ca_run_exact:
  assumes "plain_block (block_reads name) fn" "carry_free (cyc_reads d)" "carry_free (ins_reads d)"
    "2 * block_reads name + 6 \<le> length (cyc_reads d)" "6 \<le> length (ins_reads d)"
  shows "\<exists>d'. ca_run name fn k d = Some (ca_record name (ucast (cyc_reads d ! (2 * block_reads name + 4) - cyc_reads d ! (block_reads name + 1)))
      (ucast (ins_reads d ! 4 - ins_reads d ! 1)) k d')
    \<and> ca_mem d' = ca_mem d \<and> g_ca_n d' = g_ca_n d \<and> cyc_reads d' = drop (2 * block_reads name + 6) (cyc_reads d)
    \<and> ins_reads d' = drop 6 (ins_reads d)"
proof -
  define e where "e = block_reads name"
  let ?e = e and ?ts = "cyc_reads d" and ?us = "ins_reads d"
  note assms = assms [folded e_def]
  have fn: "ca_mem (fn x) = ca_mem x" "g_ca_n (fn x) = g_ca_n x" "ins_reads (fn x) = ins_reads x"
    "cyc_reads (fn x) = drop ?e (cyc_reads x)" for x using assms(1) by (auto simp: plain_block_def)
  have t: "verif_ca_get_cycle (drop ?e ?ts) = Some (?ts ! (?e + 1), drop (?e + 3) ?ts)"
    "verif_ca_get_cycle (drop (2 * ?e + 3) ?ts) = Some (?ts ! (2 * ?e + 3 + 1), drop (2 * ?e + 3 + 3) ?ts)"
    using carry_free_at [OF assms(2), of ?e] carry_free_at [OF assms(2), of "2 * ?e + 3"] assms(4) by simp_all
  have u: "verif_ca_get_cycle ?us = Some (?us ! 1, drop 3 ?us)" "verif_ca_get_cycle (drop 3 ?us) = Some (?us ! 4, drop 6 ?us)"
    using carry_free_at [OF assms(3), of 0] carry_free_at [OF assms(3), of 3] assms(5) by simp_all
  have d: "drop ?e (drop (?e + 3) ?ts) = drop (2 * ?e + 3) ?ts"
    unfolding drop_drop by (rule arg_cong [where f = "\<lambda>n. drop n ?ts"]) simp
  let ?d = "fn (fn d\<lparr>cyc_reads := drop (e + 3) ?ts, ins_reads := drop 3 ?us\<rparr>)\<lparr>ins_reads := drop 6 ?us, cyc_reads := drop (2 * e + 6) ?ts\<rparr>"
  have i: "2 * e + 3 + 1 = 2 * e + 4" "2 * e + 3 + 3 = 2 * e + 6" by simp_all
  show ?thesis
    unfolding ca_run_def verif_ca_get_instret_def e_def [symmetric]
    by (rule exI [of _ ?d]) (simp add: fn t [unfolded i] u d Let_def del: drop_drop)
qed

lemma ca_record_reads [simp]:
  "cyc_reads (ca_record name c i k d) = cyc_reads d" "ins_reads (ca_record name c i k d) = ins_reads d"
  by (simp_all add: ca_record_def Let_def ca_store_def)

lemma table_holds_cong: "ca_mem d' = ca_mem d \<Longrightarrow> g_ca_n d' = g_ca_n d \<Longrightarrow> table_holds d' rs = table_holds d rs"
  by (simp add: table_holds_def)

lemma ca_run_all_holds:
  assumes "\<And>name fn k. (name, fn, k) \<in> set bs \<Longrightarrow> plain_block (block_reads name) fn"
    "carry_free (cyc_reads d)" "carry_free (ins_reads d)" "table_holds d done" "length done + length bs \<le> 24"
    "(\<Sum>(name, fn, k) \<leftarrow> bs. 2 * block_reads name + 6) + r \<le> length (cyc_reads d)" "6 * length bs + q \<le> length (ins_reads d)"
  shows "\<exists>d'. ca_run_all bs d = Some d' \<and> table_holds d' (done @ measurements (map (\<lambda>(name, fn, k). (name, k)) bs) (cyc_reads d) (ins_reads d))
    \<and> ld32 (ca_mem d') BREAK_POINT_ADDR = ld32 (ca_mem d) BREAK_POINT_ADDR \<and> r \<le> length (cyc_reads d') \<and> q \<le> length (ins_reads d')"
  using assms
proof (induction bs arbitrary: d "done")
  case (Cons b bs)
  obtain name fn k where b: "b = (name, fn, k)" by (cases b)
  obtain d1 where run: "ca_run name fn k d = Some (ca_record name (ucast (cyc_reads d ! (2 * block_reads name + 4) - cyc_reads d ! (block_reads name + 1)))
      (ucast (ins_reads d ! 4 - ins_reads d ! 1)) k d1)"
    and d1: "ca_mem d1 = ca_mem d" "g_ca_n d1 = g_ca_n d" "cyc_reads d1 = drop (2 * block_reads name + 6) (cyc_reads d)"
      "ins_reads d1 = drop 6 (ins_reads d)"
    using ca_run_exact [of name fn d k] Cons.prems(1) [of name fn k] Cons.prems(2,3,6,7) b by auto
  let ?c = "ucast (cyc_reads d ! (2 * block_reads name + 4) - cyc_reads d ! (block_reads name + 1)) :: u32"
  let ?i = "ucast (ins_reads d ! 4 - ins_reads d ! 1) :: u32"
  have "table_holds d1 done" using table_holds_cong [OF d1(1,2)] Cons.prems(4) by simp
  from record_holds [OF this, of name ?c ?i k] have h: "table_holds (ca_record name ?c ?i k d1) (done @ [(name, ?c, ?i, k)])"
    using Cons.prems(5) by simp
  have "\<exists>d'. ca_run_all bs (ca_record name ?c ?i k d1) = Some d'
      \<and> table_holds d' ((done @ [(name, ?c, ?i, k)]) @ measurements (map (\<lambda>(name, fn, k). (name, k)) bs) (cyc_reads (ca_record name ?c ?i k d1)) (ins_reads (ca_record name ?c ?i k d1)))
      \<and> ld32 (ca_mem d') BREAK_POINT_ADDR = ld32 (ca_mem (ca_record name ?c ?i k d1)) BREAK_POINT_ADDR \<and> r \<le> length (cyc_reads d') \<and> q \<le> length (ins_reads d')"
    using Cons.prems b by (intro Cons.IH h) (auto simp: d1 carry_free_drop)
  then show ?case by (simp add: b run d1 record_keeps_mark Let_def)
qed simp

text \<open>Stores outside the count and the entries of the table.\<close>

definition off_table :: "u32 \<Rightarrow> bool" where
  "off_table a \<longleftrightarrow> a AND 3 = 0
     \<and> (unat a < 0x80010100 \<or> a = VERIF_CA_TABLE_ADDR + 8 \<or> a = VERIF_CA_TABLE_ADDR + 12 \<or> 0x80010410 \<le> unat a)"

lemma off_table_apart:
  assumes "off_table a"
  shows "a \<noteq> VERIF_CA_TABLE_ADDR" "a \<noteq> VERIF_CA_TABLE_ADDR + 4" "k < 24 \<Longrightarrow> j < 8 \<Longrightarrow> a \<noteq> entry_addr k j" "a AND 3 = 0"
proof -
  show "k < 24 \<Longrightarrow> j < 8 \<Longrightarrow> a \<noteq> entry_addr k j"
    using assms unat_entry [of k j] by (auto simp: off_table_def ca_addr entry_addr_def)
qed (use assms in \<open>auto simp: off_table_def ca_addr\<close>)

lemma store_off_table:
  assumes "off_table a"
  shows "table_holds (ca_store a v d) rs = table_holds d rs"
    "a \<noteq> BREAK_POINT_ADDR \<Longrightarrow> ld32 (ca_mem (ca_store a v d)) BREAK_POINT_ADDR = ld32 (ca_mem d) BREAK_POINT_ADDR"
    "cyc_reads (ca_store a v d) = cyc_reads d" "ins_reads (ca_store a v d) = ins_reads d"
proof -
  note off = off_table_apart [OF assms]
  have e: "entry_word (st32 (ca_mem d) a v) k j = entry_word (ca_mem d) k j" if "k < 24" "j < 8" for k j
    unfolding entry_word_def using ld32_st32_other [OF entry_aligned [OF that] off(4) off(3) [OF that, symmetric]] .
  have h: "entry_holds (st32 (ca_mem d) a v) j r = entry_holds (ca_mem d) j r" if "j < 24" for j r
    using e [OF that] by (simp add: entry_holds_def)
  have hs: "(\<forall>j < length rs. entry_holds (st32 (ca_mem d) a v) j (rs ! j)) = (\<forall>j < length rs. entry_holds (ca_mem d) j (rs ! j))"
    if "length rs \<le> 24" using h that by (meson less_le_trans)
  have o: "ld32 (st32 (ca_mem d) a v) x = ld32 (ca_mem d) x" if "x AND 3 = 0" "a \<noteq> x" for x
    using ld32_st32_other [OF that(1) off(4) that(2) [symmetric]] .
  note l = o [OF header_aligned(1) off(1)] o [OF header_aligned(2) off(2)]
  have c: "ca_mem (ca_store a v d) = st32 (ca_mem d) a v" "g_ca_n (ca_store a v d) = g_ca_n d" by (simp_all add: ca_store_def)
  show "table_holds (ca_store a v d) rs = table_holds d rs"
  proof (cases "length rs \<le> 24")
    case True
    from hs [OF True] show ?thesis by (simp only: table_holds_def c l)
  qed (simp add: table_holds_def)
  show "a \<noteq> BREAK_POINT_ADDR \<Longrightarrow> ld32 (ca_mem (ca_store a v d)) BREAK_POINT_ADDR = ld32 (ca_mem d) BREAK_POINT_ADDR"
    unfolding c by (rule o [OF break_point_apart(1)])
qed (simp_all add: ca_store_def)

lemma reads_update [simp]:
  "table_holds (d\<lparr>cyc_reads := ts\<rparr>) rs = table_holds d rs" "table_holds (d\<lparr>ins_reads := us\<rparr>) rs = table_holds d rs"
  by (simp_all add: table_holds_def)

lemma off_table_addresses:
  "off_table VERIF_CA_CYCLE_HI_ADDR" "off_table VERIF_CA_CYCLE_LO_ADDR" "off_table VERIF_CA_INSTR_HI_ADDR" "off_table VERIF_CA_INSTR_LO_ADDR"
  "off_table (VERIF_CA_TABLE_ADDR + 8)" "off_table (VERIF_CA_TABLE_ADDR + 12)" "off_table BREAK_POINT_ADDR"
  "VERIF_CA_CYCLE_HI_ADDR \<noteq> BREAK_POINT_ADDR" "VERIF_CA_CYCLE_LO_ADDR \<noteq> BREAK_POINT_ADDR"
  "VERIF_CA_INSTR_HI_ADDR \<noteq> BREAK_POINT_ADDR" "VERIF_CA_INSTR_LO_ADDR \<noteq> BREAK_POINT_ADDR"
  "VERIF_CA_TABLE_ADDR + 8 \<noteq> BREAK_POINT_ADDR" "VERIF_CA_TABLE_ADDR + 12 \<noteq> BREAK_POINT_ADDR"
  by (simp_all add: off_table_def ca_addr)

lemma mark_cycle_keeps:
  assumes "2 \<le> length (cyc_reads d)" "2 \<le> length (ins_reads d)"
  shows "\<exists>d'. verif_ca_mark_cycle d = Some d' \<and> table_holds d' rs = table_holds d rs
    \<and> ld32 (ca_mem d') BREAK_POINT_ADDR = ld32 (ca_mem d) BREAK_POINT_ADDR
    \<and> cyc_reads d' = drop 2 (cyc_reads d) \<and> ins_reads d' = drop 2 (ins_reads d)"
proof -
  obtain a b ts x y us where "cyc_reads d = a # b # ts" "ins_reads d = x # y # us"
    using assms by (cases "cyc_reads d"; cases "tl (cyc_reads d)"; cases "ins_reads d"; cases "tl (ins_reads d)") auto
  then show ?thesis
    by (simp add: verif_ca_mark_cycle_def csr_lo_def csr_hi_def store_off_table off_table_addresses)
qed

lemma dmiss_init_keeps:
  "table_holds (ca_dmiss_init d) rs = table_holds d rs \<and> ld32 (ca_mem (ca_dmiss_init d)) BREAK_POINT_ADDR = ld32 (ca_mem d) BREAK_POINT_ADDR
    \<and> cyc_reads (ca_dmiss_init d) = cyc_reads d \<and> ins_reads (ca_dmiss_init d) = ins_reads d"
proof -
  have off: "off_table (CA_DMISS_BASE + of_nat i * CA_DMISS_STRIDE) \<and> CA_DMISS_BASE + of_nat i * CA_DMISS_STRIDE \<noteq> BREAK_POINT_ADDR" if "i < 512" for i
  proof -
    define x where "x = 0x80100000 + i * 4096"
    have e: "CA_DMISS_BASE + of_nat i * CA_DMISS_STRIDE = of_nat x"
      unfolding x_def CA_DMISS_BASE_def CA_DMISS_STRIDE_def of_nat_add of_nat_mult of_nat_numeral ..
    have "x < 4294967296" using that unfolding x_def by linarith
    then have u: "unat (of_nat x :: u32) = x" by (intro unat_of_nat_small) (simp only: power_numeral, simp)
    have "x mod 4 = 0" unfolding x_def by (simp add: mod_add_eq [symmetric] mod_mult_right_eq [symmetric])
    moreover have b: "0x80100000 \<le> x" by (simp add: x_def)
    moreover have "(of_nat x :: u32) \<noteq> BREAK_POINT_ADDR"
    proof
      assume "(of_nat x :: u32) = BREAK_POINT_ADDR"
      then have "x = unat BREAK_POINT_ADDR" using u by simp
      then show False using b by (simp add: BREAK_POINT_ADDR_def VERIF_MBX_BASE_def)
    qed
    ultimately show ?thesis unfolding e off_table_def aligned_iff_mod u by simp
  qed
  have "table_holds (fold (\<lambda>i. ca_store (CA_DMISS_BASE + of_nat i * CA_DMISS_STRIDE) (of_nat i)) is d) rs = table_holds d rs
    \<and> ld32 (ca_mem (fold (\<lambda>i. ca_store (CA_DMISS_BASE + of_nat i * CA_DMISS_STRIDE) (of_nat i)) is d)) BREAK_POINT_ADDR = ld32 (ca_mem d) BREAK_POINT_ADDR
    \<and> cyc_reads (fold (\<lambda>i. ca_store (CA_DMISS_BASE + of_nat i * CA_DMISS_STRIDE) (of_nat i)) is d) = cyc_reads d
    \<and> ins_reads (fold (\<lambda>i. ca_store (CA_DMISS_BASE + of_nat i * CA_DMISS_STRIDE) (of_nat i)) is d) = ins_reads d"
    if "set is \<subseteq> {..<512}" for "is"
    using that by (induction "is" arbitrary: d) (simp_all add: store_off_table off)
  from this [of "[0..<512]"] show ?thesis by (simp add: ca_dmiss_init_def CA_N_DMEM_def atLeast_upt)
qed

text \<open>The firmware runs to its end mark and leaves all thirteen measurements.\<close>

definition ca_measured :: "u32 \<Rightarrow> ca_dev \<Rightarrow> ca_meas list" where
  "ca_measured buf d = measurements (map (\<lambda>(name, fn, k). (name, k)) (ca_blocks buf)) (drop 3 (cyc_reads d)) (drop 3 (ins_reads d))"

lemma ca_main_measures:
  assumes "carry_free (cyc_reads d)" "carry_free (ins_reads d)" "595 \<le> length (cyc_reads d)" "83 \<le> length (ins_reads d)"
    and "ld32 (ca_mem d) BREAK_POINT_ADDR \<notin> {0xFFFFFFFF, 0xFFFFFFF4}"
  shows "\<exists>d'. ca_main buf d = Some d' \<and> table_holds d' (ca_measured buf d) \<and> ld32 (ca_mem d') BREAK_POINT_ADDR = BP_TEST_end"
proof -
  have i: "table_holds (ca_table_init d) []" by (rule table_init_holds)
  have ib: "ld32 (ca_mem (ca_table_init d)) BREAK_POINT_ADDR = ld32 (ca_mem d) BREAK_POINT_ADDR"
    "cyc_reads (ca_table_init d) = cyc_reads d" "ins_reads (ca_table_init d) = ins_reads d"
    by (simp_all add: ca_table_init_def Let_def ca_store_def break_point_apart header_aligned mem_simps)
  obtain d1 where d1: "verif_ca_mark_cycle (ca_table_init d) = Some d1" "table_holds d1 []"
    "ld32 (ca_mem d1) BREAK_POINT_ADDR = ld32 (ca_mem d) BREAK_POINT_ADDR"
    "cyc_reads d1 = drop 2 (cyc_reads d)" "ins_reads d1 = drop 2 (ins_reads d)"
    using mark_cycle_keeps [of "ca_table_init d" "[]"] i ib assms(3,4) by auto
  obtain c ts where c: "drop 2 (cyc_reads d) = c # ts" using assms(3) by (cases "drop 2 (cyc_reads d)") auto
  obtain x us where x: "drop 2 (ins_reads d) = x # us" using assms(4) by (cases "drop 2 (ins_reads d)") auto
  have ts: "ts = drop 3 (cyc_reads d)" using arg_cong [OF c, of "drop 1"] by (simp add: numeral_3_eq_3)
  have us: "us = drop 3 (ins_reads d)" using arg_cong [OF x, of "drop 1"] by (simp add: numeral_3_eq_3)
  have r: "cyc_reads d1 = c # ts" "ins_reads d1 = x # us" using d1(4,5) c x by simp_all
  define d2 where "d2 = ca_dmiss_init (ca_store (VERIF_CA_TABLE_ADDR + 12) (ucast x)
    ((ca_store (VERIF_CA_TABLE_ADDR + 8) (ucast c) (d1\<lparr>cyc_reads := ts\<rparr>))\<lparr>ins_reads := us\<rparr>))"
  have d2: "table_holds d2 []" "ld32 (ca_mem d2) BREAK_POINT_ADDR = ld32 (ca_mem d) BREAK_POINT_ADDR"
    "cyc_reads d2 = drop 3 (cyc_reads d)" "ins_reads d2 = drop 3 (ins_reads d)"
    using d1(2,3) unfolding d2_def dmiss_init_keeps [THEN conjunct1] dmiss_init_keeps [THEN conjunct2, THEN conjunct1]
    by (simp_all add: dmiss_init_keeps store_off_table off_table_addresses ts us)
  have sum: "(\<Sum>(name, fn, k) \<leftarrow> ca_blocks buf. 2 * block_reads name + 6) = 590" "length (ca_blocks buf) = 13"
    by (simp_all add: ca_blocks_def block_reads_def)
  have "\<exists>d'. ca_run_all (ca_blocks buf) d2 = Some d' \<and> table_holds d' ([] @ measurements (map (\<lambda>(name, fn, k). (name, k)) (ca_blocks buf)) (cyc_reads d2) (ins_reads d2))
    \<and> ld32 (ca_mem d') BREAK_POINT_ADDR = ld32 (ca_mem d2) BREAK_POINT_ADDR \<and> 2 \<le> length (cyc_reads d') \<and> 2 \<le> length (ins_reads d')"
    using assms(1-4) d2 by (intro ca_run_all_holds ca_blocks_plain) (auto simp: sum carry_free_drop)
  then obtain d3 where d3: "ca_run_all (ca_blocks buf) d2 = Some d3" "table_holds d3 (ca_measured buf d)"
    "ld32 (ca_mem d3) BREAK_POINT_ADDR = ld32 (ca_mem d) BREAK_POINT_ADDR" "2 \<le> length (cyc_reads d3)" "2 \<le> length (ins_reads d3)"
    by (auto simp: d2 ca_measured_def)
  obtain d4 where d4: "verif_ca_mark_cycle d3 = Some d4" "table_holds d4 (ca_measured buf d)"
    "ld32 (ca_mem d4) BREAK_POINT_ADDR = ld32 (ca_mem d) BREAK_POINT_ADDR"
    using mark_cycle_keeps [OF d3(4,5), of "ca_measured buf d"] d3(2,3) by auto
  have main: "ca_main buf d = Some (ca_store BREAK_POINT_ADDR 0xFFFFFFF5 d4)"
    unfolding ca_main_def using assms(5)
    by (simp add: d1(1) r csr_lo_def store_off_table off_table_addresses d2_def [symmetric] d3(1) d4(1,3))
  have "ld32 (ca_mem (ca_store BREAK_POINT_ADDR 0xFFFFFFF5 d4)) BREAK_POINT_ADDR = BP_TEST_end"
    by (simp add: ca_store_def BP_TEST_end_def break_point_apart mem_simps)
  then show ?thesis using main d4(2) by (simp add: store_off_table off_table_addresses)
qed

lemma measurements_names: "map fst (measurements bs ts us) = map fst bs"
  by (induction bs ts us rule: measurements.induct) (simp_all add: Let_def)

lemma ca_measured_names:
  "map fst (ca_measured buf d) = [''OVERHEAD'', ''NOP'', ''ALUDEP'', ''LDUSE'', ''LDINDEP'', ''BRTAKEN'', ''BRNTAKN'',
     ''MULINDP'', ''MULDEP'', ''DIVU'', ''CSRRD'', ''DHIT'', ''DMISS'']"
  unfolding ca_measured_def measurements_names by (simp add: ca_blocks_def)

lemma rows_names:
  assumes "map fst ms = names" "\<forall>n \<in> set names. length n \<le> 8 \<and> CHR 0x00 \<notin> set n"
  shows "map (row_str \<circ> row_of ov) ms = map c_str names"
proof -
  have "row_str (row_of ov r) = c_str (fst r)" if "r \<in> set ms" for r
  proof -
    obtain name c i k where r: "r = (name, c, i, k)" by (cases r)
    have "name \<in> set names" using that assms(1) r by force
    then have n: "length name \<le> 8" "CHR 0x00 \<notin> set name" using assms(2) by auto
    have "(of_char y :: u8) = 0 \<longleftrightarrow> y = CHR 0x00" for y
    proof -
      have "(of_char y :: u8) = of_char (CHR 0x00) \<longleftrightarrow> y = CHR 0x00"
      proof
        assume "(of_char y :: u8) = of_char (CHR 0x00)"
        then have "unat (of_nat (of_char y) :: u8) = unat (of_nat (of_char (CHR 0x00)) :: u8)" by (simp only: of_nat_of_char)
        then have "(of_char y :: nat) = of_char (CHR 0x00)" by (simp only: unat_of_nat) simp
        then show "y = CHR 0x00" by (simp only: of_char_eq_iff)
      qed simp
      then show ?thesis by simp
    qed
    then have "takeWhile (\<lambda>x. x \<noteq> 0) (c_str name) = c_str name" using n(2) by (auto simp: c_str_def takeWhile_eq_all_conv)
    then show ?thesis using n(1) by (simp add: r row_str_row_of)
  qed
  then show ?thesis by (simp flip: assms(1))
qed

lemma find_row_at:
  assumes "distinct (map row_str rows)" "j < length rows" "row_str (rows ! j) = c_str n"
  shows "find_row rows n = Some (rows ! j)"
proof -
  have "rows ! j = r" if "r \<in> set rows" "row_str r = c_str n" for r
    using that assms(3) inj_on_eq_iff [of row_str "set rows" "rows ! j" r] assms(1,2) by (simp add: distinct_map)
  moreover have "rows ! j \<in> set rows" using assms(2) by simp
  then have "find_row rows n \<noteq> None" using assms(3) by (auto simp: find_row_def find_None_iff)
  then obtain r where r: "find_row rows n = Some r" by auto
  then have "r \<in> set rows" "row_str r = c_str n" by (auto simp: find_row_def find_Some_iff)
  ultimately show ?thesis using r by simp
qed

text \<open>A host that polls the break point and gives up: the polarity of \<open>verif_tsi_t\<close>.\<close>

definition poll_mark :: "mem \<Rightarrow> u32 \<Rightarrow> 's \<Rightarrow> bool \<times> 's" where
  "poll_mark m bp t = (ld32 m BREAK_POINT_ADDR \<noteq> bp, t)"

definition pair_of :: "ca_row list \<Rightarrow> string \<Rightarrow> nat \<Rightarrow> string \<Rightarrow> nat \<Rightarrow> u32 \<Rightarrow> report" where
  "pair_of rows a i b j n = Ca_pair a b (uint (row_nins (rows ! i)) - uint (row_nins (rows ! j)))
     (uint (row_ncyc (rows ! i)) - uint (row_ncyc (rows ! j))) n"

lemma ca_pairs_found:
  assumes "map (row_str \<circ> row_of ov) ms = map c_str [''OVERHEAD'', ''NOP'', ''ALUDEP'', ''LDUSE'', ''LDINDEP'', ''BRTAKEN'', ''BRNTAKN'',
     ''MULINDP'', ''MULDEP'', ''DIVU'', ''CSRRD'', ''DHIT'', ''DMISS'']" (is "_ = map c_str ?names")
  defines "rows \<equiv> map (row_of ov) ms"
  shows "distinct (map row_str rows)" "concat (map (pair_report (find_row rows)) ca_pairs) =
    [pair_of rows ''LDUSE'' 3 ''LDINDEP'' 4 256, pair_of rows ''BRTAKEN'' 5 ''BRNTAKN'' 6 256, pair_of rows ''DMISS'' 12 ''DHIT'' 11 512]"
proof -
  have s: "map row_str rows = map c_str ?names" using assms(1) by (simp add: rows_def)
  have l: "length rows = 13" using arg_cong [OF s, of length] by simp
  have "inj (of_char :: char \<Rightarrow> u8)"
  proof
    fix x y
    assume "(of_char x :: u8) = of_char y"
    then have "unat (of_nat (of_char x) :: u8) = unat (of_nat (of_char y) :: u8)" by (simp only: of_nat_of_char)
    then have "(of_char x :: nat) = of_char y" by (simp only: unat_of_nat) simp
    then show "x = y" by (simp only: of_char_eq_iff)
  qed
  then have "inj (map (of_char :: char \<Rightarrow> u8))" by (rule inj_mapI)
  then have inj: "inj c_str" by (simp add: c_str_def [abs_def])
  have g: "distinct (map c_str ns)" if "distinct ns" for ns
    using that inj_on_subset [OF inj subset_UNIV] by (simp add: distinct_map)
  show d: "distinct (map row_str rows)" unfolding s by (rule g) simp
  have f: "find_row rows (?names ! j) = Some (rows ! j)" if "j < 13" for j
  proof (rule find_row_at [OF d])
    show "j < length rows" using that l by simp
    then have "row_str (rows ! j) = map row_str rows ! j" by simp
    also have "\<dots> = c_str (?names ! j)" unfolding s using that by (intro nth_map) simp
    finally show "row_str (rows ! j) = c_str (?names ! j)" .
  qed
  show "concat (map (pair_report (find_row rows)) ca_pairs) =
    [pair_of rows ''LDUSE'' 3 ''LDINDEP'' 4 256, pair_of rows ''BRTAKEN'' 5 ''BRNTAKN'' 6 256, pair_of rows ''DMISS'' 12 ''DHIT'' 11 512]"
    using f [of 3] f [of 4] f [of 5] f [of 6] f [of 11] f [of 12]
    by (simp add: ca_pairs_def pair_report_def pair_of_def)
qed


text \<open>Counters that never move.\<close>

definition quiet_dev :: ca_dev where
  "quiet_dev = dev_reset\<lparr>cyc_reads := replicate 595 0, ins_reads := replicate 83 0\<rparr>"


end
