(* ===== verification/Coremark_State.thy ===== *)
theory Coremark_State
  imports Platform_Prelude
begin

text \<open>
  CoreMark, part one: the CRC of Middleware/benchmark/coremark/core_util.c and the state machine
  benchmark of core_state.c. A block of memory is the list of its bytes and a pointer into it the
  suffix it points at; reading past the block is \<open>None\<close>. Signed 16-bit values are words read with
  \<open>sint\<close>.
\<close>

section \<open>core_util.c\<close>

text \<open>The loop of \<open>crcu8\<close>, \<open>n\<close> turns to go.\<close>

fun crcu8_loop :: "nat \<Rightarrow> u8 \<Rightarrow> u16 \<Rightarrow> u16" where
  "crcu8_loop 0 data crc = crc"
| "crcu8_loop (Suc n) data crc =
     (let x16 = (data AND 1) XOR (ucast crc AND 1);
          data = drop_bit 1 data;
          (crc, carry) = (if x16 = 1 then (crc XOR 0x4002, True) else (crc, False));
          crc = drop_bit 1 crc;
          crc = (if carry then crc OR 0x8000 else crc AND 0x7FFF)
      in crcu8_loop n data crc)"

definition crcu8 :: "u8 \<Rightarrow> u16 \<Rightarrow> u16" where
  "crcu8 data crc = crcu8_loop 8 data crc"

definition crcu16 :: "u16 \<Rightarrow> u16 \<Rightarrow> u16" where
  "crcu16 newval crc = (let crc = crcu8 (ucast newval) crc in crcu8 (ucast (drop_bit 8 newval)) crc)"

definition crc16 :: "u16 \<Rightarrow> u16 \<Rightarrow> u16" where
  "crc16 newval crc = crcu16 newval crc"

definition crcu32 :: "u32 \<Rightarrow> u16 \<Rightarrow> u16" where
  "crcu32 newval crc = (let crc = crc16 (ucast newval) crc in crc16 (ucast (drop_bit 16 newval)) crc)"

text \<open>\<open>get_seed_32\<close> on the five volatile seeds.\<close>

definition get_seed_32 :: "(nat \<Rightarrow> u32) \<Rightarrow> int \<Rightarrow> u32" where
  "get_seed_32 seed i = (if 1 \<le> i \<and> i \<le> 5 then seed (nat i) else 0)"

section \<open>core_state.c: the state machine\<close>

datatype core_state = CORE_START | CORE_INVALID | CORE_S1 | CORE_S2 | CORE_INT | CORE_FLOAT | CORE_EXPONENT
  | CORE_SCIENTIFIC

type_synonym counts = "core_state \<Rightarrow> u32"

definition bump_count :: "core_state \<Rightarrow> counts \<Rightarrow> counts" where
  "bump_count s tc = tc(s := tc s + 1)"

definition chr :: "char \<Rightarrow> u8" where "chr c = of_char c"

definition ee_isdigit :: "u8 \<Rightarrow> bool" where
  "ee_isdigit c \<longleftrightarrow> chr CHR ''0'' \<le> c \<and> c \<le> chr CHR ''9''"

definition is_sign :: "u8 \<Rightarrow> bool" where
  "is_sign c \<longleftrightarrow> c = chr CHR ''+'' \<or> c = chr CHR ''-''"

definition is_exp :: "u8 \<Rightarrow> bool" where
  "is_exp c \<longleftrightarrow> c = chr CHR ''E'' \<or> c = chr CHR ''e''"

text \<open>The \<open>switch\<close>: next state and transition counts.\<close>

definition state_switch :: "u8 \<Rightarrow> core_state \<Rightarrow> counts \<Rightarrow> core_state \<times> counts" where
  "state_switch c st tc =
     (case st of
        CORE_START \<Rightarrow>
          let (st, tc) = (if ee_isdigit c then (CORE_INT, tc)
                          else if is_sign c then (CORE_S1, tc)
                          else if c = chr CHR ''.'' then (CORE_FLOAT, tc)
                          else (CORE_INVALID, bump_count CORE_INVALID tc))
          in (st, bump_count CORE_START tc)
      | CORE_S1 \<Rightarrow>
          if ee_isdigit c then (CORE_INT, bump_count CORE_S1 tc)
          else if c = chr CHR ''.'' then (CORE_FLOAT, bump_count CORE_S1 tc)
          else (CORE_INVALID, bump_count CORE_S1 tc)
      | CORE_INT \<Rightarrow>
          if c = chr CHR ''.'' then (CORE_FLOAT, bump_count CORE_INT tc)
          else if \<not> ee_isdigit c then (CORE_INVALID, bump_count CORE_INT tc)
          else (st, tc)
      | CORE_FLOAT \<Rightarrow>
          if is_exp c then (CORE_S2, bump_count CORE_FLOAT tc)
          else if \<not> ee_isdigit c then (CORE_INVALID, bump_count CORE_FLOAT tc)
          else (st, tc)
      | CORE_S2 \<Rightarrow>
          if is_sign c then (CORE_EXPONENT, bump_count CORE_S2 tc) else (CORE_INVALID, bump_count CORE_S2 tc)
      | CORE_EXPONENT \<Rightarrow>
          if ee_isdigit c then (CORE_SCIENTIFIC, bump_count CORE_EXPONENT tc) else (CORE_INVALID, bump_count CORE_EXPONENT tc)
      | CORE_SCIENTIFIC \<Rightarrow>
          if \<not> ee_isdigit c then (CORE_INVALID, bump_count CORE_INVALID tc) else (st, tc)
      | CORE_INVALID \<Rightarrow> (st, tc))"

fun transition_loop :: "u8 list \<Rightarrow> core_state \<Rightarrow> counts \<Rightarrow> (u8 list \<times> core_state \<times> counts) option" where
  "transition_loop [] st tc = None"
| "transition_loop (c # s) st tc =
     (if c = 0 \<or> st = CORE_INVALID then Some (c # s, st, tc)
      else if c = chr CHR '','' then Some (s, st, tc)
      else let (st, tc) = state_switch c st tc in transition_loop s st tc)"

definition core_state_transition :: "u8 list \<Rightarrow> counts \<Rightarrow> (u8 list \<times> core_state \<times> counts) option" where
  "core_state_transition s tc = transition_loop s CORE_START tc"

lemma transition_loop_length:
  "transition_loop s st tc = Some (s', st', tc') \<Longrightarrow> length s' \<le> length s"
proof (induction s st tc rule: transition_loop.induct)
  case (2 c s st tc)
  then show ?case by (cases "state_switch c st tc") (fastforce split: if_splits)
qed simp

lemma core_state_transition_length:
  assumes "core_state_transition (c # s) tc = Some (s', st', tc')" "c \<noteq> 0"
  shows "length s' < length (c # s)"
  using assms transition_loop_length [of s _ _ s' st' tc']
  by (cases "state_switch c CORE_START tc") (auto simp: core_state_transition_def less_Suc_eq_le split: if_splits)

text \<open>The scan of a block: \<open>while (*p != 0)\<close>.\<close>

function state_scan :: "u8 list \<Rightarrow> counts \<Rightarrow> counts \<Rightarrow> (counts \<times> counts) option" where
  "state_scan [] fc tc = None"
| "state_scan (c # s) fc tc =
     (if c = 0 then Some (fc, tc)
      else case core_state_transition (c # s) tc of None \<Rightarrow> None
           | Some (s', fstate, tc) \<Rightarrow> state_scan s' (bump_count fstate fc) tc)"
  by pat_completeness auto
termination
  by (relation "measure (\<lambda>(s, fc, tc). length s)") (auto dest: core_state_transition_length)

text \<open>The corruption loops, from index \<open>p\<close> on.\<close>

function corrupt_loop :: "nat \<Rightarrow> u8 \<Rightarrow> nat \<Rightarrow> u8 list \<Rightarrow> u8 list" where
  "corrupt_loop step seed p blk =
     (if p < length blk \<and> 0 < step
      then let blk = (if blk ! p \<noteq> chr CHR '','' then blk[p := blk ! p XOR seed] else blk)
           in corrupt_loop step seed (p + step) blk
      else blk)"
  by pat_completeness auto
termination
  by (relation "measure (\<lambda>(step, seed, p, blk). length blk - p)") auto

definition core_states :: "core_state list" where
  "core_states = [CORE_START, CORE_INVALID, CORE_S1, CORE_S2, CORE_INT, CORE_FLOAT, CORE_EXPONENT, CORE_SCIENTIFIC]"

text \<open>\<open>blksize\<close> is the length of the block; a step that is not positive never leaves it.\<close>

definition core_bench_state :: "u8 list \<Rightarrow> u16 \<Rightarrow> u16 \<Rightarrow> u16 \<Rightarrow> u16 \<Rightarrow> (u16 \<times> u8 list) option" where
  "core_bench_state blk seed1 seed2 step crc =
     (if sint step \<le> 0 then None
      else case state_scan blk (\<lambda>_. 0) (\<lambda>_. 0) of None \<Rightarrow> None
      | Some (fc, tc) \<Rightarrow>
          let blk = corrupt_loop (nat (sint step)) (ucast seed1) 0 blk in
          case state_scan blk fc tc of None \<Rightarrow> None
          | Some (fc, tc) \<Rightarrow>
              let blk = corrupt_loop (nat (sint step)) (ucast seed2) 0 blk;
                  crc = fold (\<lambda>i crc. let crc = crcu32 (fc i) crc in crcu32 (tc i) crc) core_states crc
              in Some (crc, blk))"

section \<open>core_state.c: the input\<close>

definition intpat :: "string list" where "intpat = [''5012'', ''1234'', ''-874'', ''+122'']"
definition floatpat :: "string list" where "floatpat = [''35.54400'', ''.1234500'', ''-110.700'', ''+0.64400'']"
definition scipat :: "string list" where "scipat = [''5.500e+3'', ''-.123e-2'', ''-87e+832'', ''+0.6e-12'']"
definition errpat :: "string list" where "errpat = [''T0.3e-1F'', ''-T.T++Tq'', ''1T3.4e4z'', ''34.0e-T^'']"

text \<open>The pattern chosen by a seed; \<open>next\<close> is its length.\<close>

definition pattern :: "u16 \<Rightarrow> u8 list" where
  "pattern seed =
     (let k = unat (drop_bit 3 seed AND 3); sel = unat (seed AND 7) in
      map chr (if sel \<le> 2 then intpat ! k else if sel \<le> 4 then floatpat ! k else if sel \<le> 6 then scipat ! k
               else errpat ! k))"

text \<open>Bytes stored one after another; outside the block is \<open>None\<close>.\<close>

fun put_bytes :: "u8 list \<Rightarrow> nat \<Rightarrow> u8 list \<Rightarrow> u8 list option" where
  "put_bytes blk i [] = Some blk"
| "put_bytes blk i (x # xs) = (if i < length blk then put_bytes (blk[i := x]) (i + 1) xs else None)"

lemma pattern_nonempty: "pattern seed \<noteq> []" "length (pattern seed) \<le> 8"
proof -
  have k: "unat (drop_bit 3 seed AND 3) < 4"
  proof -
    have "(3 :: u16) = mask 2" by (simp add: mask_eq_exp_minus_1)
    then have "unat (drop_bit 3 seed AND 3) = take_bit 2 (unat (drop_bit 3 seed))"
      by (simp only: flip: take_bit_eq_mask) (rule unsigned_take_bit_eq)
    also have "\<dots> < 2 ^ 2" by (rule take_bit_nat_less_exp)
    finally show ?thesis by simp
  qed
  then show "pattern seed \<noteq> []" "length (pattern seed) \<le> 8"
    by (auto simp: pattern_def Let_def intpat_def floatpat_def scipat_def errpat_def less_Suc_eq numeral_eq_Suc)
qed

text \<open>The token loop: \<open>sz\<close> is already decremented, \<open>buf\<close> holds the token not yet written.\<close>

function init_loop :: "nat \<Rightarrow> nat \<Rightarrow> u8 list \<Rightarrow> u16 \<Rightarrow> u8 list \<Rightarrow> (nat \<times> u8 list) option" where
  "init_loop sz tot buf seed blk =
     (if tot + length buf + 1 < sz
      then (case (if buf \<noteq> [] then map_option (Pair (tot + length buf + 1)) (put_bytes blk tot (buf @ [chr CHR '','']))
                  else Some (tot, blk)) of None \<Rightarrow> None
            | Some (tot, blk) \<Rightarrow> let seed = seed + 1 in init_loop sz tot (pattern seed) seed blk)
      else Some (tot, blk))"
  by pat_completeness auto
termination
  by (relation "measure (\<lambda>(sz, tot, buf, seed, blk). 2 * (sz - tot) + (if buf = [] then 1 else 0))")
    (auto simp: pattern_nonempty split: if_splits)

definition core_init_state :: "nat \<Rightarrow> u16 \<Rightarrow> u8 list \<Rightarrow> u8 list option" where
  "core_init_state sz seed blk =
     (if sz = 0 then None
      else case init_loop (sz - 1) 0 [] seed blk of None \<Rightarrow> None
      | Some (tot, blk) \<Rightarrow> put_bytes blk tot (replicate (sz - tot) 0))"

declare state_scan.simps [simp del] corrupt_loop.simps [simp del] init_loop.simps [simp del]

section \<open>The checksum\<close>

text \<open>CRC-16/ARC as the catalogues define it: the byte is added to the low half, then eight shifts with
  the reflected polynomial.\<close>

definition crc_shift :: "u16 \<Rightarrow> u16" where
  "crc_shift c = (if odd c then drop_bit 1 c XOR 0xA001 else drop_bit 1 c)"

definition crc16_arc :: "u8 \<Rightarrow> u16 \<Rightarrow> u16" where
  "crc16_arc data crc = (crc_shift ^^ 8) (crc XOR ucast data)"

lemma crc_turn:
  "(let x16 = (data AND 1) XOR (ucast crc AND 1); data = drop_bit 1 data;
        (crc, carry) = (if x16 = 1 then (crc XOR 0x4002, True) else (crc, False));
        crc = drop_bit 1 crc; crc = (if carry then crc OR 0x8000 else crc AND 0x7FFF) in (crc, data)) =
   (crc_shift (crc XOR ucast data) XOR ucast (drop_bit 1 data), drop_bit 1 (data :: u8))"
proof -
  have lsb: "v AND 1 = of_bool (bit v 0)" for v :: u8
  proof (rule bit_eqI)
    fix n
    show "bit (v AND 1) n \<longleftrightarrow> bit (of_bool (bit v 0) :: u8) n"
      by (cases "n = 0"; cases "bit v 0"; simp add: word_bits bit_1_iff)
  qed
  have "bit (ucast crc :: u8) 0 = bit crc 0" "bit (ucast data :: u16) 0 = bit data 0" by (simp_all add: bit_ucast_iff)
  then have x: "(data AND 1) XOR (ucast crc AND 1) = 1 \<longleftrightarrow> bit (crc XOR ucast data) 0"
    by (simp add: lsb bit_xor_iff)
  have u: "drop_bit 1 (ucast data :: u16) = ucast (drop_bit 1 data)"
    by (rule bit_eqI) (auto simp: word_bits bit_ucast_iff dest: bit_imp_le_length)
  have top: "\<not> bit (drop_bit 1 crc) 15" by (auto simp: bit_drop_bit_eq dest: bit_imp_le_length)
  have clear: "w AND 0x7FFF = w" "w OR 0x8000 = w XOR 0x8000" if "\<not> bit w 15" for w :: u16
  proof -
    have m: "(0x7FFF :: u16) = mask 15" by (simp add: mask_eq_exp_minus_1)
    have e: "bit (0x8000 :: u16) n \<longleftrightarrow> n = 15" for n
    proof -
      have "(0x8000 :: u16) = 2 ^ 15" by simp
      then show ?thesis by (simp only: bit_exp_iff) auto
    qed
    have "n < 15" if "bit w n" for n
      using that \<open>\<not> bit w 15\<close> bit_imp_le_length [of w n] by (cases "n = 15") auto
    then show "w AND 0x7FFF = w" unfolding m by (intro bit_eqI) (auto simp: word_bits)
    show "w OR 0x8000 = w XOR 0x8000" using \<open>\<not> bit w 15\<close>
      by (intro bit_eqI) (simp only: word_bits, metis e)
  qed
  have d: "drop_bit 1 (crc XOR 0x4002) = drop_bit 1 crc XOR 0x2001" by (simp add: drop_bit_xor)
  have t2: "\<not> bit (drop_bit 1 crc XOR 0x2001) 15" using top by (simp add: bit_xor_iff)
  have o: "odd v \<longleftrightarrow> bit v 0" for v :: u16 by (simp add: bit_0)
  have k: "(0x2001 :: u16) XOR 0x8000 = 0xA001" by simp
  have mix: "(a XOR x) XOR y = ((a XOR z) XOR (x XOR y)) XOR z" for a x y z :: u16
    by (rule bit_eqI) (auto simp: bit_xor_iff)
  have s: "drop_bit 1 (crc XOR ucast data) = drop_bit 1 crc XOR ucast (drop_bit 1 data)"
    by (simp only: drop_bit_xor u)
  show ?thesis
  proof (cases "bit (crc XOR ucast data) 0")
    case True
    then show ?thesis
      by (simp only: Let_def x if_True prod.case crc_shift_def o d clear(2) [OF t2] s prod.inject simp_thms)
        (rule mix [where x = "0x2001" and y = "0x8000", unfolded k])
  next
    case False
    then show ?thesis
      by (simp only: Let_def x if_False prod.case crc_shift_def o clear(1) [OF top] s prod.inject simp_thms)
        (simp only: xor.assoc xor_self_eq xor.right_neutral)
  qed
qed

lemma crcu8_loop_shifts: "crcu8_loop n data crc XOR ucast (drop_bit n data) = (crc_shift ^^ n) (crc XOR ucast data)"
proof (induction n arbitrary: data crc)
  case (Suc n)
  let ?c = "crc_shift (crc XOR ucast data) XOR ucast (drop_bit 1 data)"
  have "crcu8_loop (Suc n) data crc = crcu8_loop n (drop_bit 1 data) ?c"
    using crc_turn [of data crc] by (simp add: Let_def split: prod.splits if_splits)
  moreover have "?c XOR ucast (drop_bit 1 data) = crc_shift (crc XOR ucast data)" by (simp add: xor.assoc)
  ultimately show ?case using Suc [of "drop_bit 1 data" ?c] by (simp add: funpow_swap1)
qed simp

text \<open>The bit loop is a standard checksum: for every byte and every running value, \<open>crcu8\<close> computes
  CRC-16/ARC, and \<open>crcu16\<close> and \<open>crcu32\<close> feed their bytes to it from the least significant on.\<close>

theorem crcu8_is_crc16_arc:
  "crcu8 data crc = crc16_arc data crc
   \<and> crcu16 h crc = fold crc16_arc [ucast h, ucast (drop_bit 8 h)] crc
   \<and> crcu32 w crc = fold crc16_arc [ucast w, ucast (drop_bit 8 w), ucast (drop_bit 16 w), ucast (drop_bit 24 w)] crc"
proof -
  have c: "crcu8 = crc16_arc"
  proof (intro ext)
    fix d :: u8 and x
    have "drop_bit 8 d = 0" by (rule bit_eqI) (auto simp: word_bits dest: bit_imp_le_length)
    then show "crcu8 d x = crc16_arc d x" using crcu8_loop_shifts [of 8 d x] by (simp add: crcu8_def crc16_arc_def)
  qed
  have h: "crcu16 h crc = fold crc16_arc [ucast h, ucast (drop_bit 8 h)] crc" for h crc
    by (simp add: crcu16_def c Let_def)
  have "(ucast (ucast w :: u16) :: u8) = ucast w" "(ucast (drop_bit 8 (ucast w :: u16)) :: u8) = ucast (drop_bit 8 w)"
    "(ucast (ucast (drop_bit 16 w) :: u16) :: u8) = ucast (drop_bit 16 w)"
    "(ucast (drop_bit 8 (ucast (drop_bit 16 w) :: u16)) :: u8) = ucast (drop_bit 24 w)"
    by (rule bit_eqI, auto simp: word_bits bit_ucast_iff)+
  with c h show ?thesis by (simp add: crcu32_def crc16_def Let_def)
qed

section \<open>What the state machine accepts\<close>

text \<open>The class of a token by its grammar: an optional sign, digits, a fraction, a signed exponent.\<close>

definition unsign :: "u8 list \<Rightarrow> u8 list" where
  "unsign t = (case t of [] \<Rightarrow> [] | c # r \<Rightarrow> if is_sign c then r else t)"

definition exponent_class :: "u8 list \<Rightarrow> core_state" where
  "exponent_class r =
     (case r of [] \<Rightarrow> CORE_S2
      | c # ds \<Rightarrow> if \<not> is_sign c then CORE_INVALID else if ds = [] then CORE_EXPONENT
                  else if list_all ee_isdigit ds then CORE_SCIENTIFIC else CORE_INVALID)"

definition fraction_class :: "u8 list \<Rightarrow> core_state" where
  "fraction_class r =
     (case dropWhile ee_isdigit r of [] \<Rightarrow> CORE_FLOAT
      | c # r \<Rightarrow> if is_exp c then exponent_class r else CORE_INVALID)"

definition number_class :: "u8 list \<Rightarrow> core_state" where
  "number_class t =
     (case dropWhile ee_isdigit (unsign t) of
        [] \<Rightarrow> if t = [] then CORE_START else if unsign t = [] then CORE_S1 else CORE_INT
      | c # r \<Rightarrow> if c = chr CHR ''.'' then fraction_class r else CORE_INVALID)"

definition plain :: "u8 list \<Rightarrow> bool" where
  "plain t \<longleftrightarrow> 0 \<notin> set t \<and> chr CHR '','' \<notin> set t"

text \<open>Where the machine stops on a token followed by a separator.\<close>

definition stops :: "u8 \<Rightarrow> u8 list \<Rightarrow> core_state \<Rightarrow> (u8 list \<times> core_state \<times> counts) option \<Rightarrow> bool" where
  "stops sep rest st' r \<longleftrightarrow>
     (case r of None \<Rightarrow> False
      | Some (s, st, tc) \<Rightarrow> st = st' \<and> s = (if st = CORE_INVALID then s else if sep = 0 then sep # rest else rest))"

definition runs_to :: "u8 list \<Rightarrow> core_state \<Rightarrow> core_state \<Rightarrow> bool" where
  "runs_to t st st' \<longleftrightarrow>
     (\<forall>sep rest tc. sep = 0 \<or> sep = chr CHR '','' \<longrightarrow> stops sep rest st' (transition_loop (t @ sep # rest) st tc))"

lemma char_codes [simp]:
  "chr CHR ''0'' = 48" "chr CHR ''9'' = 57" "chr CHR '','' = 44" "chr CHR ''.'' = 46" "chr CHR ''+'' = 43"
  "chr CHR ''-'' = 45" "chr CHR ''e'' = 101" "chr CHR ''E'' = 69"
  by (simp_all add: chr_def)

lemma runs_to_Nil: "st \<noteq> CORE_INVALID \<Longrightarrow> runs_to [] st st"
  by (auto simp: runs_to_def stops_def)

lemma runs_to_invalid: "runs_to t CORE_INVALID CORE_INVALID"
  by (cases t) (auto simp: runs_to_def stops_def)

lemma runs_to_Cons:
  assumes "c \<noteq> 0" "c \<noteq> 44" "st \<noteq> CORE_INVALID" "\<And>tc. fst (state_switch c st tc) = st2" "runs_to t st2 st'"
  shows "runs_to (c # t) st st'"
proof (unfold runs_to_def, intro allI impI)
  fix sep rest tc assume sep: "sep = 0 \<or> sep = chr CHR '',''"
  obtain tc2 where "state_switch c st tc = (st2, tc2)" using assms(4) [of tc] by (metis prod.collapse)
  with assms(1-3) have "transition_loop ((c # t) @ sep # rest) st tc = transition_loop (t @ sep # rest) st2 tc2" by simp
  with assms(5) sep show "stops sep rest st' (transition_loop ((c # t) @ sep # rest) st tc)"
    by (simp only: runs_to_def)
qed

lemmas machine_defs = state_switch_def Let_def is_sign_def is_exp_def

lemma runs_scientific:
  "plain t \<Longrightarrow> runs_to t CORE_SCIENTIFIC (if list_all ee_isdigit t then CORE_SCIENTIFIC else CORE_INVALID)"
proof (induction t)
  case (Cons c t)
  then have t: "plain t" "c \<noteq> 0" "c \<noteq> 44" by (auto simp: plain_def)
  show ?case
    using runs_to_Cons [OF t(2,3), of CORE_SCIENTIFIC "if ee_isdigit c then CORE_SCIENTIFIC else CORE_INVALID" t]
      Cons.IH [OF t(1)] runs_to_invalid by (auto simp: machine_defs)
qed (simp add: runs_to_Nil)

lemma runs_exponent: "plain t \<Longrightarrow> runs_to t CORE_EXPONENT
  (if t = [] then CORE_EXPONENT else if list_all ee_isdigit t then CORE_SCIENTIFIC else CORE_INVALID)"
proof (cases t)
  case (Cons c r)
  moreover assume "plain t"
  ultimately have r: "plain r" "c \<noteq> 0" "c \<noteq> 44" by (auto simp: plain_def)
  show ?thesis
    using runs_to_Cons [OF r(2,3), of CORE_EXPONENT "if ee_isdigit c then CORE_SCIENTIFIC else CORE_INVALID" r]
      runs_scientific [OF r(1)] runs_to_invalid Cons by (auto simp: machine_defs)
qed (simp add: runs_to_Nil)

lemma runs_s2: "plain t \<Longrightarrow> runs_to t CORE_S2 (exponent_class t)"
proof (cases t)
  case (Cons c r)
  moreover assume "plain t"
  ultimately have r: "plain r" "c \<noteq> 0" "c \<noteq> 44" by (auto simp: plain_def)
  show ?thesis
    using runs_to_Cons [OF r(2,3), of CORE_S2 "if is_sign c then CORE_EXPONENT else CORE_INVALID" r]
      runs_exponent [OF r(1)] runs_to_invalid Cons by (auto simp: machine_defs exponent_class_def)
qed (simp add: runs_to_Nil exponent_class_def)

lemma runs_float: "plain t \<Longrightarrow> runs_to t CORE_FLOAT (fraction_class t)"
proof (induction t)
  case (Cons c t)
  then have t: "plain t" "c \<noteq> 0" "c \<noteq> 44" by (auto simp: plain_def)
  have "\<not> ee_isdigit c" if "is_exp c" using that by (auto simp: is_exp_def ee_isdigit_def)
  then show ?case
    using runs_to_Cons [OF t(2,3), of CORE_FLOAT
        "if is_exp c then CORE_S2 else if ee_isdigit c then CORE_FLOAT else CORE_INVALID" t]
      Cons.IH [OF t(1)] runs_s2 [OF t(1)] runs_to_invalid
    by (auto simp: machine_defs fraction_class_def)
qed (simp add: runs_to_Nil fraction_class_def)

definition integer_class :: "u8 list \<Rightarrow> core_state" where
  "integer_class t = (case dropWhile ee_isdigit t of [] \<Rightarrow> CORE_INT
     | c # r \<Rightarrow> if c = chr CHR ''.'' then fraction_class r else CORE_INVALID)"

lemma point_not_digit: "ee_isdigit c \<Longrightarrow> c \<noteq> 46 \<and> \<not> is_sign c \<and> \<not> is_exp c"
  by (auto simp: is_exp_def is_sign_def ee_isdigit_def)

lemma runs_int: "plain t \<Longrightarrow> runs_to t CORE_INT (integer_class t)"
proof (induction t)
  case (Cons c t)
  then have t: "plain t" "c \<noteq> 0" "c \<noteq> 44" by (auto simp: plain_def)
  show ?case
    using runs_to_Cons [OF t(2,3), of CORE_INT
        "if c = 46 then CORE_FLOAT else if ee_isdigit c then CORE_INT else CORE_INVALID" t]
      Cons.IH [OF t(1)] runs_float [OF t(1)] runs_to_invalid point_not_digit [of c]
    by (auto simp: machine_defs integer_class_def)
qed (simp add: runs_to_Nil integer_class_def)

lemma runs_s1: "plain t \<Longrightarrow> runs_to t CORE_S1 (if t = [] then CORE_S1 else integer_class t)"
proof (cases t)
  case (Cons c r)
  moreover assume "plain t"
  ultimately have r: "plain r" "c \<noteq> 0" "c \<noteq> 44" by (auto simp: plain_def)
  show ?thesis
    using runs_to_Cons [OF r(2,3), of CORE_S1
        "if ee_isdigit c then CORE_INT else if c = 46 then CORE_FLOAT else CORE_INVALID" r]
      runs_int [OF r(1)] runs_float [OF r(1)] runs_to_invalid Cons point_not_digit [of c]
    by (auto simp: machine_defs integer_class_def)
qed (simp add: runs_to_Nil)

lemma runs_start: "plain t \<Longrightarrow> runs_to t CORE_START (number_class t)"
proof (cases t)
  case (Cons c r)
  moreover assume "plain t"
  ultimately have r: "plain r" "c \<noteq> 0" "c \<noteq> 44" by (auto simp: plain_def)
  have "c \<noteq> 46" if "is_sign c" using that by (auto simp: is_sign_def)
  moreover have "fst (state_switch c CORE_START tc) = (if ee_isdigit c then CORE_INT else if is_sign c then CORE_S1
      else if c = 46 then CORE_FLOAT else CORE_INVALID)" for tc
    by (simp add: state_switch_def Let_def)
  from runs_to_Cons [OF r(2,3) _ this, of r] runs_int [OF r(1)] runs_s1 [OF r(1)] runs_float [OF r(1)] runs_to_invalid
  have "runs_to t CORE_START (if ee_isdigit c then integer_class r else if is_sign c then
      (if r = [] then CORE_S1 else integer_class r) else if c = 46 then fraction_class r else CORE_INVALID)"
    unfolding Cons by (simp split: if_splits)
  ultimately show ?thesis
    using Cons point_not_digit [of c] by (auto simp: number_class_def unsign_def integer_class_def split: if_splits)
qed (simp add: runs_to_Nil number_class_def unsign_def)

text \<open>The state machine is a classifier of numbers: on a token without separators, followed by a
  comma or by the end of the text, it stops in the state the grammar gives the token, just past the
  comma or on the end; only an invalid token stops it inside.\<close>

theorem core_state_transition_classifies:
  assumes "plain t" "sep = 0 \<or> sep = chr CHR '',''"
  shows "case core_state_transition (t @ sep # rest) tc of None \<Rightarrow> False
         | Some (s, st, tc') \<Rightarrow> st = number_class t
             \<and> s = (if st = CORE_INVALID then s else if sep = 0 then sep # rest else rest)"
  using runs_start [OF assms(1)] assms(2) unfolding runs_to_def core_state_transition_def stops_def by blast

lemma core_state_transition_classifies_witness:
  "case core_state_transition (map chr ''-87e+832'' @ chr CHR '','' # [0]) (\<lambda>_. 0) of None \<Rightarrow> False
         | Some (s, st, tc') \<Rightarrow> st = number_class (map chr ''-87e+832'')
             \<and> s = (if st = CORE_INVALID then s else if chr CHR '','' = 0 then chr CHR '','' # [0] else [0])"
  by (rule core_state_transition_classifies) (simp_all add: plain_def chr_def)

section \<open>Corrupting a block and undoing it\<close>

lemma corrupt_loop_length [simp]: "length (corrupt_loop step seed p blk) = length blk"
  by (induction step seed p blk rule: corrupt_loop.induct) (subst corrupt_loop.simps, simp add: Let_def)

lemma corrupt_loop_nth:
  "0 < step \<Longrightarrow> i < length blk \<Longrightarrow>
   corrupt_loop step seed p blk ! i =
     (if p \<le> i \<and> step dvd i - p \<and> blk ! i \<noteq> chr CHR '','' then blk ! i XOR seed else blk ! i)"
proof (induction step seed p blk rule: corrupt_loop.induct)
  case (1 step seed p blk)
  let ?blk = "if blk ! p \<noteq> chr CHR '','' then blk[p := blk ! p XOR seed] else blk"
  show ?case
  proof (cases "p < length blk")
    case True
    then have r: "corrupt_loop step seed p blk = corrupt_loop step seed (p + step) ?blk"
      using 1(2) by (subst corrupt_loop.simps) simp
    have "corrupt_loop step seed (p + step) ?blk ! i =
      (if p + step \<le> i \<and> step dvd i - (p + step) \<and> ?blk ! i \<noteq> chr CHR '','' then ?blk ! i XOR seed else ?blk ! i)"
      using 1(1) [OF _ HOL.refl 1(2)] 1(2,3) True by simp
    moreover have "p \<le> i \<and> step dvd i - p \<longleftrightarrow> i = p \<or> p + step \<le> i \<and> step dvd i - (p + step)"
    proof (cases "p + step \<le> i")
      case True
      then have "i - p = (i - (p + step)) + step" using \<open>0 < step\<close> by simp
      then have "step dvd i - p \<longleftrightarrow> step dvd i - (p + step)" by (metis dvd_add_left_iff dvd_refl)
      with True show ?thesis by auto
    next
      case False
      then have "i = p" if "p \<le> i" "step dvd i - p"
        using that dvd_imp_le [of step "i - p"] by (cases "i - p = 0") simp_all
      with False \<open>0 < step\<close> show ?thesis by auto
    qed
    ultimately show ?thesis using r 1(2,3) True by (cases "i = p") auto
  next
    case False
    with 1(3) show ?thesis by (subst corrupt_loop.simps) simp
  qed
qed

lemma comma_xor_self: "(b XOR s) XOR s = (b :: u8)" by (simp add: xor.assoc)

lemma core_bench_state_cases:
  assumes "core_bench_state blk seed1 seed2 step crc = Some (c, blk')"
  shows "0 < nat (sint step)"
    "blk' = corrupt_loop (nat (sint step)) (ucast seed2) 0 (corrupt_loop (nat (sint step)) (ucast seed1) 0 blk)"
  using assms by (auto simp: core_bench_state_def Let_def split: if_splits option.splits prod.splits)

lemma core_bench_state_block:
  assumes "core_bench_state blk seed seed step crc = Some (c, blk')"
  shows "length blk' = length blk"
    "i < length blk \<Longrightarrow> blk' ! i =
       (if nat (sint step) dvd i \<and> blk ! i XOR ucast seed = chr CHR '','' then chr CHR '','' else blk ! i)"
proof -
  note r = core_bench_state_cases [OF assms]
  show "length blk' = length blk" unfolding r(2) by simp
  show "blk' ! i = (if nat (sint step) dvd i \<and> blk ! i XOR ucast seed = chr CHR '','' then chr CHR '','' else blk ! i)"
    if "i < length blk"
    using that unfolding r(2) by (cases "nat (sint step) dvd i"; cases "blk ! i = chr CHR '',''")
      (auto simp: corrupt_loop_nth [OF r(1)] comma_xor_self simp del: char_codes)
qed

text \<open>What the benchmark leaves behind: with the same seed twice, as \<open>core_main.c\<close> runs it, the
  block comes back as it was except that a byte it visits whose corrupted form is a comma stays a
  comma: the two passes both skip commas, so the second does not see it.\<close>

theorem core_bench_state_restores:
  assumes "core_bench_state blk seed seed step crc = Some (c, blk')"
  shows "blk' = map (\<lambda>i. if nat (sint step) dvd i \<and> blk ! i XOR ucast seed = chr CHR '','' then chr CHR '','' else blk ! i)
     [0..<length blk]"
  using core_bench_state_block [OF assms] by (intro nth_equalityI) simp_all

section \<open>The generated input is safe to scan\<close>

lemma transition_loop_reaches_nul:
  "0 \<in> set s \<Longrightarrow> \<exists>s' st' tc'. transition_loop s st tc = Some (s', st', tc') \<and> 0 \<in> set s'"
proof (induction s st tc rule: transition_loop.induct)
  case (2 c s st tc)
  then show ?case by (cases "state_switch c st tc") auto
qed simp

lemma state_scan_reaches_nul: "0 \<in> set s \<Longrightarrow> state_scan s fc tc \<noteq> None"
proof (induction s fc tc rule: state_scan.induct)
  case (2 c s fc tc)
  show ?case
  proof (cases "c = 0")
    case False
    obtain s' st tc' where t: "core_state_transition (c # s) tc = Some (s', st, tc')" "0 \<in> set s'"
      using transition_loop_reaches_nul [OF 2(2)] unfolding core_state_transition_def by metis
    with 2(1) [OF False t(1) HOL.refl HOL.refl] False show ?thesis by (subst state_scan.simps) simp
  qed (subst state_scan.simps, simp)
qed simp

lemma put_bytes_ok:
  "i + length xs \<le> length blk \<Longrightarrow> put_bytes blk i xs = Some (take i blk @ xs @ drop (i + length xs) blk)"
proof (induction xs arbitrary: blk i)
  case (Cons x xs)
  then show ?case by (simp add: take_Suc_conv_app_nth take_update_swap drop_update_swap upd_conv_take_nth_drop
    list_update_append add.commute)
qed simp

lemma init_loop_ok:
  "sz < length blk \<Longrightarrow> tot < sz \<or> sz = 0 \<and> tot = 0 \<Longrightarrow>
   \<exists>tot' blk'. init_loop sz tot buf seed blk = Some (tot', blk') \<and> (tot' < sz \<or> sz = 0 \<and> tot' = 0) \<and> length blk' = length blk"
proof (induction sz tot buf seed blk rule: init_loop.induct)
  case (1 sz tot buf seed blk)
  show ?case
  proof (cases "tot + length buf + 1 < sz")
    case True
    define r where "r = (if buf \<noteq> [] then map_option (Pair (tot + length buf + 1)) (put_bytes blk tot (buf @ [chr CHR '','']))
                  else Some (tot, blk))"
    obtain tb bb where b: "r = Some (tb, bb)" "tb < sz" "length bb = length blk"
      using True 1(2) unfolding r_def by (cases "buf = []") (auto simp: put_bytes_ok)
    have "init_loop sz tot buf seed blk = init_loop sz tb (pattern (seed + 1)) (seed + 1) bb"
      using True b(1) by (subst init_loop.simps) (simp add: r_def Let_def)
    with 1(1) [OF True b(1) [unfolded r_def] HOL.refl HOL.refl] b 1(2) show ?thesis by simp
  next
    case False
    with 1 show ?thesis by (subst init_loop.simps) simp
  qed
qed

lemma core_bench_state_returns:
  assumes "0 < sint step" "0 \<in> set blk" "0 \<in> set (corrupt_loop (nat (sint step)) (ucast seed1) 0 blk)"
  shows "core_bench_state blk seed1 seed2 step crc \<noteq> None"
proof -
  obtain fc tc where "state_scan blk (\<lambda>_. 0) (\<lambda>_. 0) = Some (fc, tc)"
    using state_scan_reaches_nul [OF assms(2)] by fast
  moreover obtain fb tb where
    "state_scan (corrupt_loop (nat (sint step)) (ucast seed1) 0 blk) fc tc = Some (fb, tb)"
    using state_scan_reaches_nul [OF assms(3)] by fast
  ultimately show ?thesis using assms(1) by (simp add: core_bench_state_def Let_def)
qed

text \<open>C25: The state benchmark never reads outside its block: for every size of at least two bytes,
  \<open>core_init_state\<close> fills the block within its bounds, and a run over it, with any seeds and any step
  of two or more, always finds a terminator, before and after the corruption.\<close>

theorem core_bench_state_stays_inside:
  assumes "2 \<le> sz" "length blk = sz" "2 \<le> sint step"
  shows "case core_init_state sz seed blk of None \<Rightarrow> False
         | Some b \<Rightarrow> length b = sz \<and> core_bench_state b seed1 seed2 step crc \<noteq> None"
proof -
  let ?n = "nat (sint step)"
  have n: "2 \<le> ?n" using assms(3) by simp
  obtain tot bb where i: "init_loop (sz - 1) 0 [] seed blk = Some (tot, bb)" "tot < sz - 1" "length bb = sz"
    using init_loop_ok [of "sz - 1" blk 0 "[]" seed] assms(1,2) by auto
  define b where "b = take tot bb @ replicate (sz - tot) (0 :: u8)"
  have b: "core_init_state sz seed blk = Some b"
    using i assms(1) by (simp add: core_init_state_def put_bytes_ok b_def)
  have l: "length b = sz" using i assms(1) by (simp add: b_def)
  have z: "b ! i = 0" if "sz - 2 \<le> i" "i < sz" for i
  proof -
    have "tot \<le> i" using that(1) i(2) by linarith
    with that i show ?thesis by (simp add: b_def nth_append)
  qed
  let ?b = "corrupt_loop ?n (ucast seed1) 0 b"
  have "\<not> (?n dvd sz - 2 \<and> ?n dvd sz - 1)"
  proof
    assume "?n dvd sz - 2 \<and> ?n dvd sz - 1"
    then have "?n dvd (sz - 1) - (sz - 2)" using dvd_diff_nat by blast
    moreover have "(sz - 1) - (sz - 2) = 1" using assms(1) by simp
    ultimately show False using n by simp
  qed
  then obtain k where k: "sz - 2 \<le> k" "k < sz" "\<not> ?n dvd k" using assms(1)
    by (metis diff_le_mono2 diff_less le_refl one_le_numeral order_less_le_trans zero_less_numeral zero_less_one)
  have "?b ! k = b ! k" using n k l by (subst corrupt_loop_nth) auto
  then have "0 \<in> set ?b" using z [OF k(1,2)] k l by (metis corrupt_loop_length nth_mem)
  moreover have "0 \<in> set b" using z [OF k(1,2)] k l by (metis nth_mem)
  ultimately have "core_bench_state b seed1 seed2 step crc \<noteq> None"
    using n by (intro core_bench_state_returns) simp_all
  with b l show ?thesis by simp
qed

lemma core_bench_state_stays_inside_witness:
  "case core_init_state 20 8 (replicate 20 7) of None \<Rightarrow> False
         | Some b \<Rightarrow> length b = 20 \<and> core_bench_state b 1 2 0x22 0 \<noteq> None"
  by (rule core_bench_state_stays_inside) simp_all

lemma core_bench_state_restores_witness:
  "\<exists>c b. core_bench_state [1, 2, 1, 0] 0x2D 0x2D 2 0 = Some (c, b) \<and>
     b = map (\<lambda>i. if nat (sint (2 :: u16)) dvd i \<and> [1, 2, 1, 0] ! i XOR ucast (0x2D :: u16) = chr CHR '','' then chr CHR '',''
                  else [1, 2, 1, 0] ! i) [0..<length [1, 2, 1, 0 :: u8]]"
proof -
  have "core_bench_state [1, 2, 1, 0] 0x2D 0x2D 2 0 \<noteq> None"
    by (rule core_bench_state_returns) (simp_all add: corrupt_loop.simps)
  then obtain c b where "core_bench_state [1, 2, 1, 0] 0x2D 0x2D 2 0 = Some (c, b)" by auto
  from this core_bench_state_restores [OF this] show ?thesis by blast
qed

end
