(* ===== verification/Coremark_Matrix.thy ===== *)
theory Coremark_Matrix
  imports Coremark_State "HOL-Library.While_Combinator" "HOL-Library.Signed_Division"
begin

text \<open>
  CoreMark, part two: the matrix benchmark of Middleware/benchmark/coremark/core_matrix.c. A matrix is
  what its pointer points at, a function of the unsigned 32-bit index; the three matrices do not
  overlap (\<open>matrix_layout_fits\<close>). \<open>MATDAT\<close> is a 16-bit and \<open>MATRES\<close> a 32-bit signed word, read with
  \<open>sint\<close> where C compares or shifts; sums wrap at their width.
\<close>

type_synonym matdat = "16 word"
type_synonym matres = "32 word"
type_synonym 'w matrix = "u32 \<Rightarrow> 'w"

record mat_params =
  mat_n :: u32
  mat_a :: "matdat matrix"
  mat_b :: "matdat matrix"
  mat_c :: "matres matrix"

section \<open>Scalars\<close>

definition matrix_clip :: "matdat \<Rightarrow> bool \<Rightarrow> matdat" where
  "matrix_clip x y = ucast (if y then (scast x :: u32) AND 0x0ff else scast x AND 0x0ffff)"

definition matrix_big :: "matdat \<Rightarrow> matdat" where
  "matrix_big x = ucast ((0xf000 :: u32) OR scast x)"

definition bit_extract :: "matres \<Rightarrow> nat \<Rightarrow> nat \<Rightarrow> u32" where
  "bit_extract x from to = signed_drop_bit from x AND NOT (push_bit to 0xffffffff)"

section \<open>Loops over a matrix\<close>

text \<open>The two nested loops visit the cells row by row; a cell's index is unsigned.\<close>

definition cells :: "u32 \<Rightarrow> (nat \<times> nat) list" where
  "cells n = List.product [0..<unat n] [0..<unat n]"

definition at :: "u32 \<Rightarrow> nat \<Rightarrow> nat \<Rightarrow> u32" where
  "at n i j = of_nat i * n + of_nat j"

definition sum_step :: "matdat \<Rightarrow> matres \<Rightarrow> matres \<times> matres \<times> matdat \<Rightarrow> matres \<times> matres \<times> matdat" where
  "sum_step clipval cur = (\<lambda>(tmp, prev, ret).
     let tmp = tmp + cur;
         (ret, tmp) = (if sint clipval < sint tmp then (ret + 10, 0)
                       else (ret + (if sint prev < sint cur then 1 else 0), tmp))
     in (tmp, cur, ret))"

definition matrix_sum :: "u32 \<Rightarrow> matres matrix \<Rightarrow> matdat \<Rightarrow> matdat" where
  "matrix_sum n C clipval = snd (snd (fold (\<lambda>(i, j). sum_step clipval (C (at n i j))) (cells n) (0, 0, 0)))"

definition matrix_mul_const :: "u32 \<Rightarrow> matres matrix \<Rightarrow> matdat matrix \<Rightarrow> matdat \<Rightarrow> matres matrix" where
  "matrix_mul_const n C A val = fold (\<lambda>(i, j) C. C(at n i j := scast (A (at n i j)) * scast val)) (cells n) C"

definition matrix_add_const :: "u32 \<Rightarrow> matdat matrix \<Rightarrow> matdat \<Rightarrow> matdat matrix" where
  "matrix_add_const n A val = fold (\<lambda>(i, j) A. A(at n i j := A (at n i j) + val)) (cells n) A"

definition matrix_mul_vect :: "u32 \<Rightarrow> matres matrix \<Rightarrow> matdat matrix \<Rightarrow> matdat matrix \<Rightarrow> matres matrix" where
  "matrix_mul_vect n C A B =
     fold (\<lambda>i C. let C = C(of_nat i := 0) in
             fold (\<lambda>j C. C(of_nat i := C (of_nat i) + scast (A (at n i j)) * scast (B (of_nat j)))) [0..<unat n] C)
       [0..<unat n] C"

definition matrix_mul_matrix :: "u32 \<Rightarrow> matres matrix \<Rightarrow> matdat matrix \<Rightarrow> matdat matrix \<Rightarrow> matres matrix" where
  "matrix_mul_matrix n C A B =
     fold (\<lambda>(i, j) C. let C = C(at n i j := 0) in
             fold (\<lambda>k C. C(at n i j := C (at n i j) + scast (A (at n i k)) * scast (B (at n k j)))) [0..<unat n] C)
       (cells n) C"

definition matrix_mul_matrix_bitextract :: "u32 \<Rightarrow> matres matrix \<Rightarrow> matdat matrix \<Rightarrow> matdat matrix \<Rightarrow> matres matrix" where
  "matrix_mul_matrix_bitextract n C A B =
     fold (\<lambda>(i, j) C. let C = C(at n i j := 0) in
             fold (\<lambda>k C. let tmp = scast (A (at n i k)) * scast (B (at n k j)) in
                     C(at n i j := C (at n i j) + bit_extract tmp 2 4 * bit_extract tmp 5 7)) [0..<unat n] C)
       (cells n) C"

section \<open>The benchmark\<close>

definition matrix_test :: "u32 \<Rightarrow> matres matrix \<Rightarrow> matdat matrix \<Rightarrow> matdat matrix \<Rightarrow> matdat \<Rightarrow>
    u16 \<times> matres matrix \<times> matdat matrix" where
  "matrix_test n C A B val =
     (let crc = 0;
          clipval = matrix_big val;
          A = matrix_add_const n A val;
          C = matrix_mul_const n C A val;
          crc = crc16 (matrix_sum n C clipval) crc;
          C = matrix_mul_vect n C A B;
          crc = crc16 (matrix_sum n C clipval) crc;
          C = matrix_mul_matrix n C A B;
          crc = crc16 (matrix_sum n C clipval) crc;
          C = matrix_mul_matrix_bitextract n C A B;
          crc = crc16 (matrix_sum n C clipval) crc;
          A = matrix_add_const n A (- val)
      in (crc, C, A))"

definition core_bench_matrix :: "mat_params \<Rightarrow> u16 \<Rightarrow> u16 \<Rightarrow> u16 \<times> mat_params" where
  "core_bench_matrix p seed crc =
     (let (r, C, A) = matrix_test (mat_n p) (mat_c p) (mat_a p) (mat_b p) seed
      in (crc16 r crc, p\<lparr>mat_c := C, mat_a := A\<rparr>))"

section \<open>Initialisation\<close>

definition align_mem :: "u32 \<Rightarrow> u32" where
  "align_mem x = 4 + ((x - 1) AND NOT 3)"

text \<open>The dimension: the loop on \<open>i\<close> and \<open>j\<close> runs while \<open>j\<close> is below the block size, and has no
  result when the wrapping \<open>j\<close> never reaches it.\<close>

definition matrix_dim :: "u32 \<Rightarrow> u32 option" where
  "matrix_dim blksize =
     map_option (\<lambda>(i, j). i - 1)
       (while_option (\<lambda>(i, j). j < blksize) (\<lambda>(i, j). let i = i + 1 in (i, i * i * 2 * 4)) (0 :: u32, 0))"

definition init_cell :: "u32 \<Rightarrow> nat \<times> nat \<Rightarrow> u32 \<times> u32 \<times> matdat matrix \<times> matdat matrix \<Rightarrow>
    u32 \<times> u32 \<times> matdat matrix \<times> matdat matrix" where
  "init_cell n = (\<lambda>(i, j) (seed, order, A, B).
     let seed = word_of_int (sint (order * seed) smod 65536);
         val = ucast (seed + order);
         val = matrix_clip val False;
         B = B(at n i j := val);
         val = ucast (scast val + order);
         val = matrix_clip val True;
         A = A(at n i j := val)
     in (seed, order + 1, A, B))"

text \<open>The parameters it fills in, and the addresses of \<open>A\<close>, \<open>B\<close> and \<open>C\<close>; the memory before is given by
  the old contents of the three matrices.\<close>

definition core_init_matrix :: "u32 \<Rightarrow> u32 \<Rightarrow> u32 \<Rightarrow> mat_params \<Rightarrow> ((u32 \<times> u32 \<times> u32) \<times> mat_params) option" where
  "core_init_matrix blksize memblk seed p =
     (let seed = (if seed = 0 then 1 else seed) in
      case matrix_dim blksize of None \<Rightarrow> None
      | Some n \<Rightarrow>
          let pa = align_mem memblk;
              pb = pa + 2 * (n * n);
              (seed, order, A, B) = fold (init_cell n) (cells n) (seed, 1, mat_a p, mat_b p);
              pc = align_mem (pb + 2 * (n * n))
          in Some ((pa, pb, pc), p\<lparr>mat_a := A, mat_b := B, mat_n := n\<rparr>))"

section \<open>What the loops write\<close>

lemma fold_update_other: "k \<notin> f ` set xs \<Longrightarrow> fold (\<lambda>x C. C(f x := h x (C (f x)))) xs C k = C k"
  by (induction xs arbitrary: C) auto

lemma fold_update_at:
  "distinct xs \<Longrightarrow> inj_on f (set xs) \<Longrightarrow> x \<in> set xs \<Longrightarrow>
   fold (\<lambda>x C. C(f x := h x (C (f x)))) xs C (f x) = h x (C (f x))"
proof (induction xs arbitrary: C)
  case (Cons y ys)
  show ?case
  proof (cases "x = y")
    case True
    then have "f x \<notin> f ` set ys" using Cons.prems by (auto simp: inj_on_def)
    then show ?thesis using True by (simp add: fold_update_other fun_upd_same del: fun_upd_apply)
  next
    case False
    then have "f y \<noteq> f x" "x \<in> set ys" using Cons.prems by (auto simp: inj_on_def)
    then show ?thesis using Cons by (simp add: inj_on_def)
  qed
qed simp

lemma fold_accumulate: "fold (\<lambda>k C. C(a := C a + g k)) ks C = C(a := C a + sum_list (map g ks))"
  for g :: "nat \<Rightarrow> 'w::comm_monoid_add"
  by (induction ks arbitrary: C) (simp_all add: add.assoc)

lemma sum_upt: "sum_list (map g [0..<n]) = (\<Sum>k<n. g k)"
  by (simp add: interv_sum_list_conv_sum_set_nat atLeast0LessThan)

lemma set_cells: "set (cells n) = {..<unat n} \<times> {..<unat n}"
  by (auto simp: cells_def)

lemma at_value:
  assumes "unat n \<le> 2 ^ 16" "i < unat n" "j < unat n"
  shows "unat (at n i j) = i * unat n + j"
proof -
  have "i * unat n + j < Suc i * unat n" using assms(3) by simp
  also have "\<dots> \<le> unat n * unat n" using assms(2) by (intro mult_le_mono1) simp
  also have "\<dots> \<le> 2 ^ 16 * 2 ^ 16" using assms(1) by (intro mult_le_mono)
  finally have l: "i * unat n + j < 2 ^ LENGTH(32)" by simp
  have "at n i j = of_nat (i * unat n + j)" by (simp add: at_def)
  with l show ?thesis by (simp only: unat_of_nat take_bit_nat_eq_self mod_less)
qed

lemma at_inj: "unat n \<le> 2 ^ 16 \<Longrightarrow> inj_on (\<lambda>(i, j). at n i j) (set (cells n))"
proof (rule inj_onI, clarsimp simp: set_cells)
  fix i j k l
  assume n: "unat n \<le> 65536" and b: "i < unat n" "j < unat n" "k < unat n" "l < unat n" and e: "at n i j = at n k l"
  have s: "i * unat n + j = k * unat n + l"
    using arg_cong [OF e, of unat] at_value [of n i j] at_value [of n k l] n b by simp
  have "(i * unat n + j) div unat n = i" "(k * unat n + l) div unat n = k" using b by simp_all
  with s show "i = k \<and> j = l" by auto
qed

lemma distinct_cells: "distinct (cells n)"
  by (simp add: cells_def distinct_product)

lemma cells_update:
  assumes "unat n \<le> 2 ^ 16" "i < unat n" "j < unat n"
  shows "fold (\<lambda>(i, j) C. C(at n i j := h i j (C (at n i j)))) (cells n) C (at n i j) = h i j (C (at n i j))"
  using fold_update_at [OF distinct_cells at_inj [OF assms(1)], of "(i, j)" "\<lambda>(i, j). h i j" C] assms(2,3)
  by (simp add: set_cells case_prod_beta')

lemma cells_update_other:
  assumes "\<And>i j. i < unat n \<Longrightarrow> j < unat n \<Longrightarrow> k \<noteq> at n i j"
  shows "fold (\<lambda>(i, j) C. C(at n i j := h i j (C (at n i j)))) (cells n) C k = C k"
  using fold_update_other [of k "\<lambda>(i, j). at n i j" "cells n" "\<lambda>(i, j). h i j" C] assms
  by (force simp: set_cells case_prod_beta')

lemma row_value: "i < unat n \<Longrightarrow> unat (of_nat i :: u32) = i" for n :: u32
  using u32_bound [of n] by (simp add: unat_of_nat)

lemma row_inj: "inj_on (of_nat :: nat \<Rightarrow> u32) (set [0..<unat n])" for n :: u32
  by (rule inj_on_inverseI [of _ unat]) (auto simp: row_value)

lemma mul_vect_at:
  assumes "i < unat n"
  shows "matrix_mul_vect n C A B (of_nat i) = (\<Sum>j<unat n. scast (A (at n i j)) * scast (B (of_nat j)))"
  using fold_update_at [OF _ row_inj, of n i "\<lambda>i _. (\<Sum>j<unat n. scast (A (at n i j)) * scast (B (of_nat j)))" C] assms
  by (simp add: matrix_mul_vect_def fold_accumulate sum_upt Let_def)

lemma mul_vect_other:
  assumes "unat n \<le> unat k"
  shows "matrix_mul_vect n C A B k = C k"
proof -
  have "k \<notin> of_nat ` set [0..<unat n]" using assms by (auto simp: row_value)
  then show ?thesis
    using fold_update_other [of k of_nat "[0..<unat n]" "\<lambda>i _. (\<Sum>j<unat n. scast (A (at n i j)) * scast (B (of_nat j)))" C]
    by (simp add: matrix_mul_vect_def fold_accumulate sum_upt Let_def)
qed

lemma cells_write:
  assumes "unat n \<le> 2 ^ 16" "i < unat n" "j < unat n"
  shows "fold (\<lambda>(i, j) C. C(at n i j := g i j)) (cells n) C (at n i j) = g i j"
  by (rule cells_update [OF assms, where h = "\<lambda>i j _. g i j"])

text \<open>The matrix loops compute what their names say, for every dimension whose cells a 32-bit
  index tells apart: the multiple by a constant, the product with a vector, the matrix product and its
  bit-field variant, cell by cell, whatever the result matrix held before.\<close>

theorem matrix_products_correct:
  assumes "unat n \<le> 2 ^ 16" "i < unat n" "j < unat n"
  shows "matrix_mul_const n C A val (at n i j) = scast (A (at n i j)) * scast val
    \<and> matrix_mul_vect n C A B (of_nat i) = (\<Sum>k<unat n. scast (A (at n i k)) * scast (B (of_nat k)))
    \<and> matrix_mul_matrix n C A B (at n i j) = (\<Sum>k<unat n. scast (A (at n i k)) * scast (B (at n k j)))
    \<and> matrix_mul_matrix_bitextract n C A B (at n i j) =
        (\<Sum>k<unat n. bit_extract (scast (A (at n i k)) * scast (B (at n k j))) 2 4
                    * bit_extract (scast (A (at n i k)) * scast (B (at n k j))) 5 7)"
proof (intro conjI)
  show "matrix_mul_const n C A val (at n i j) = scast (A (at n i j)) * scast val"
    unfolding matrix_mul_const_def by (rule cells_write [OF assms])
  show "matrix_mul_vect n C A B (of_nat i) = (\<Sum>k<unat n. scast (A (at n i k)) * scast (B (of_nat k)))"
    using assms(2) by (rule mul_vect_at)
  show "matrix_mul_matrix n C A B (at n i j) = (\<Sum>k<unat n. scast (A (at n i k)) * scast (B (at n k j)))"
    unfolding matrix_mul_matrix_def Let_def fold_accumulate sum_upt fun_upd_same fun_upd_upd add_0
    by (rule cells_write [OF assms])
  show "matrix_mul_matrix_bitextract n C A B (at n i j) =
        (\<Sum>k<unat n. bit_extract (scast (A (at n i k)) * scast (B (at n k j))) 2 4
                    * bit_extract (scast (A (at n i k)) * scast (B (at n k j))) 5 7)"
    unfolding matrix_mul_matrix_bitextract_def Let_def fold_accumulate sum_upt fun_upd_same fun_upd_upd add_0
    by (rule cells_write [OF assms])
qed

lemma matrix_products_correct_witness:
  "matrix_mul_matrix 2 (\<lambda>_. 7) (\<lambda>k. ucast (k + 1)) (\<lambda>k. ucast (k + 5)) (at 2 1 0)
     = (\<Sum>k<unat (2 :: u32). scast ((\<lambda>k. ucast (k + 1) :: matdat) (at 2 1 k)) * scast ((\<lambda>k. ucast (k + 5) :: matdat) (at 2 k 0)))"
  using matrix_products_correct [of 2 1 0 "\<lambda>_. 7" "\<lambda>k. ucast (k + 1)" 0 "\<lambda>k. ucast (k + 5)"] by simp

section \<open>The benchmark is repeatable\<close>

lemma add_const_back:
  assumes "unat n \<le> 2 ^ 16"
  shows "matrix_add_const n (matrix_add_const n A val) (- val) = A"
proof
  fix k
  show "matrix_add_const n (matrix_add_const n A val) (- val) k = A k"
  proof (cases "\<exists>i j. i < unat n \<and> j < unat n \<and> k = at n i j")
    case True
    then show ?thesis using cells_update [OF assms, where h = "\<lambda>_ _ a. a + val" and C = A]
        cells_update [OF assms, where h = "\<lambda>_ _ a. a + - val" and C = "matrix_add_const n A val"]
      by (auto simp: matrix_add_const_def)
  next
    case False
    then show ?thesis using cells_update_other [of n k "\<lambda>_ _ a. a + val" A]
        cells_update_other [of n k "\<lambda>_ _ a. a + - val" "matrix_add_const n A val"]
      by (auto simp: matrix_add_const_def)
  qed
qed

definition same_cells :: "u32 \<Rightarrow> matres matrix \<Rightarrow> matres matrix \<Rightarrow> bool" where
  "same_cells n C D \<longleftrightarrow> (\<forall>i j. i < unat n \<longrightarrow> j < unat n \<longrightarrow> C (at n i j) = D (at n i j))"

lemma matrix_sum_cong: "same_cells n C D \<Longrightarrow> matrix_sum n C v = matrix_sum n D v"
  unfolding matrix_sum_def same_cells_def
  by (intro arg_cong [where f = "\<lambda>x. snd (snd x)"] fold_cong) (auto simp: set_cells)

lemma same_cells_products:
  assumes "unat n \<le> 2 ^ 16"
  shows "same_cells n (matrix_mul_const n C A val) (matrix_mul_const n D A val)"
    "same_cells n (matrix_mul_matrix n C A B) (matrix_mul_matrix n D A B)"
    "same_cells n (matrix_mul_matrix_bitextract n C A B) (matrix_mul_matrix_bitextract n D A B)"
    "same_cells n C D \<Longrightarrow> same_cells n (matrix_mul_vect n C A B) (matrix_mul_vect n D A B)"
proof -
  note p = matrix_mul_const_def matrix_mul_matrix_def matrix_mul_matrix_bitextract_def Let_def fold_accumulate
    sum_upt fun_upd_same fun_upd_upd add_0
  show "same_cells n (matrix_mul_const n C A val) (matrix_mul_const n D A val)"
    "same_cells n (matrix_mul_matrix n C A B) (matrix_mul_matrix n D A B)"
    "same_cells n (matrix_mul_matrix_bitextract n C A B) (matrix_mul_matrix_bitextract n D A B)"
    unfolding same_cells_def p by (auto simp: cells_write [OF assms])
  assume s: "same_cells n C D"
  have "matrix_mul_vect n C A B k = matrix_mul_vect n D A B k" if "C k = D k" for k
    using that by (cases "unat k < unat n") (auto simp: mul_vect_other mul_vect_at [of "unat k" n, simplified])
  with s show "same_cells n (matrix_mul_vect n C A B) (matrix_mul_vect n D A B)" by (simp add: same_cells_def)
qed

lemma matrix_test_cong:
  assumes "unat n \<le> 2 ^ 16"
  shows "fst (matrix_test n C A B val) = fst (matrix_test n D A B val)"
  unfolding matrix_test_def Let_def fst_conv
  by (intro arg_cong2 [where f = crc16] matrix_sum_cong same_cells_products assms HOL.refl)

text \<open>The matrix benchmark is repeatable: it leaves the operand matrices and the dimension as they
  were, so running it again on what it left, whatever the result matrix holds by then, gives the same
  checksum. The comment's "matrix A is back to original contents" holds for every constant, wrap-around
  included.\<close>

theorem core_bench_matrix_repeatable:
  assumes "unat (mat_n p) \<le> 2 ^ 16"
  shows "case core_bench_matrix p seed crc of (c, q) \<Rightarrow>
     mat_a q = mat_a p \<and> mat_b q = mat_b p \<and> mat_n q = mat_n p \<and> fst (core_bench_matrix (q\<lparr>mat_c := D\<rparr>) seed crc) = c"
proof -
  obtain r C A where t: "matrix_test (mat_n p) (mat_c p) (mat_a p) (mat_b p) seed = (r, C, A)" by (metis prod_cases3)
  then have A: "A = mat_a p" by (auto simp: matrix_test_def Let_def add_const_back [OF assms])
  have "fst (matrix_test (mat_n p) D (mat_a p) (mat_b p) seed) = r"
    using matrix_test_cong [OF assms] t by (metis fst_conv)
  then obtain C' A' where "matrix_test (mat_n p) D (mat_a p) (mat_b p) seed = (r, C', A')" by (metis prod.collapse)
  with t A show ?thesis by (simp add: core_bench_matrix_def)
qed

lemma core_bench_matrix_repeatable_witness:
  "case core_bench_matrix \<lparr>mat_n = 9, mat_a = ucast, mat_b = ucast, mat_c = \<lambda>_. 0\<rparr> 0x66 1 of (c, q) \<Rightarrow>
     mat_a q = ucast \<and> mat_b q = ucast \<and> mat_n q = 9 \<and> fst (core_bench_matrix (q\<lparr>mat_c := \<lambda>_. 3\<rparr>) 0x66 1) = c"
  using core_bench_matrix_repeatable [where p = "\<lparr>mat_n = 9, mat_a = ucast, mat_b = ucast, mat_c = \<lambda>_. 0\<rparr>" and seed = "0x66" and crc = 1 and D = "\<lambda>_. 3"]
  by simp

section \<open>The dimension and the layout\<close>

lemma align_mem_aligned:
  assumes "unat x mod 4 = 0"
  shows "align_mem x = x"
proof -
  have m: "(3 :: u32) = mask 2" by (simp add: mask_eq_exp_minus_1)
  have split: "take_bit 2 w + (w AND NOT 3) = w" for w :: u32
  proof -
    have "w AND NOT 3 = push_bit 2 (drop_bit 2 w)" unfolding m
    proof (rule bit_eqI)
      fix k
      show "bit (w AND NOT (mask 2)) k \<longleftrightarrow> bit (push_bit 2 (drop_bit 2 w)) k"
      proof (cases "2 \<le> k")
        case True
        then have "2 + (k - 2) = k" by simp
        then show ?thesis by (auto simp: word_bits bit_push_bit_iff bit_drop_bit_eq comp_def dest: bit_imp_le_length)
      qed (auto simp: word_bits bit_push_bit_iff)
    qed
    then show ?thesis using bits_ident [of 2 w] by (simp add: add.commute)
  qed
  have three: "unat (3 :: u32) = 3" by simp
  have "take_bit 2 (x - 1) = 3"
  proof (cases "x = 0")
    case True
    have "take_bit 2 (- 1 :: u32) = mask 2" by (simp add: take_bit_minus_one_eq_mask)
    then show ?thesis using True by (simp add: m)
  next
    case False
    then obtain q where "unat x = 4 * Suc q" using assms
      by (metis mod_0_imp_dvd dvdE mult_0_right not0_implies_Suc unat_eq_zero)
    then have "unat (x - 1) mod 4 = 3" using False by (simp add: unat_minus_one)
    moreover have "unat (take_bit 2 (x - 1)) = take_bit 2 (unat (x - 1))" by (rule unsigned_take_bit_eq)
    ultimately have "unat (take_bit 2 (x - 1)) = 3" by (simp only: take_bit_eq_mod) simp
    then show ?thesis by (metis word_unat_eq_iff three)
  qed
  then have "3 + ((x - 1) AND NOT 3) = x - 1" using split [of "x - 1"] by simp
  then show ?thesis by (simp add: align_mem_def algebra_simps)
qed

lemma dim_step:
  fixes i :: u32
  assumes "unat i < 2 ^ 14"
  shows "unat (i + 1) = unat i + 1" "unat ((i + 1) * (i + 1) * 2 * 4) = 8 * (unat i + 1)\<^sup>2"
proof -
  show i: "unat (i + 1) = unat i + 1" using assms u32_bound [of i] by (simp add: unat_word_ariths)
  have "(unat i + 1)\<^sup>2 \<le> (2 ^ 14)\<^sup>2" using assms by (intro power_mono) auto
  then have b: "8 * (unat i + 1)\<^sup>2 < 2 ^ 32" by (simp add: power2_eq_square)
  have "(i + 1) * (i + 1) * 2 * 4 = of_nat (8 * (unat i + 1)\<^sup>2)"
    by (simp add: power2_eq_square algebra_simps)
  then show "unat ((i + 1) * (i + 1) * 2 * 4) = 8 * (unat i + 1)\<^sup>2"
    using b by (simp only: unat_of_nat) simp
qed

lemma matrix_dim_ok:
  assumes "0 < unat blksize" "unat blksize \<le> 2 ^ 31"
  shows "\<exists>n. matrix_dim blksize = Some n \<and> 8 * (unat n)\<^sup>2 < unat blksize \<and> unat blksize \<le> 8 * (unat n + 1)\<^sup>2"
proof -
  let ?b = "\<lambda>(i :: u32, j :: u32). j < blksize" and ?c = "\<lambda>(i :: u32, j :: u32). let i = i + 1 in (i, i * i * 2 * 4)"
  let ?P = "\<lambda>(i :: u32, j). unat j = 8 * (unat i)\<^sup>2 \<and> unat i \<le> 2 ^ 14 \<and>
    (if i = 0 then True else 8 * (unat i - 1)\<^sup>2 < unat blksize)"
  let ?f = "\<lambda>(i :: u32, j :: u32). 2 ^ 14 - unat i"
  have step: "?P (?c s) \<and> ?f (?c s) < ?f s" if P: "?P s" and b: "?b s" for s
  proof (cases s)
    case (Pair i j)
    have lt: "8 * (unat i)\<^sup>2 < unat blksize" using P b Pair by (simp add: word_less_nat_alt)
    have i: "unat i < 2 ^ 14"
    proof (rule ccontr)
      assume "\<not> unat i < 2 ^ 14"
      then have "(2 ^ 14)\<^sup>2 \<le> (unat i)\<^sup>2" by (intro power_mono) auto
      with lt assms(2) show False by simp
    qed
    have "i + 1 \<noteq> 0" using dim_step(1) [OF i] by auto
    with dim_step [OF i] i lt Pair show ?thesis by (simp add: Let_def)
  qed
  have z: "?P (0, 0)" by simp
  obtain t where t: "while_option ?b ?c (0, 0) = Some t"
    using measure_while_option_Some [where P = ?P and f = ?f, OF step z] by blast
  obtain i j where ij: "t = (i, j)" by (cases t)
  have P: "?P (i, j)" using while_option_rule [where P = ?P, OF conjunct1 [OF step] t z] unfolding ij .
  have e: "unat blksize \<le> unat j" using while_option_stop [OF t] ij by (simp add: word_le_nat_alt not_less)
  have "i \<noteq> 0" using P e assms(1) by auto
  then have u: "unat (i - 1) = unat i - 1" "unat (i - 1) + 1 = unat i" by (simp_all add: unat_minus_one unat_gt_0)
  have "matrix_dim blksize = Some (i - 1)" unfolding matrix_dim_def t ij by simp
  moreover have "8 * (unat (i - 1))\<^sup>2 < unat blksize" using P \<open>i \<noteq> 0\<close> unfolding u(1) by simp
  moreover have "unat blksize \<le> 8 * (unat (i - 1) + 1)\<^sup>2" using P e unfolding u(2) by simp
  ultimately show ?thesis by blast
qed

lemma init_cell_small:
  "fold (init_cell n) cs (seed, order, A, B) = (seed', order', A', B') \<Longrightarrow>
   unat (A' k) \<le> 255 \<or> A' k = A k \<and> k \<notin> (\<lambda>(i, j). at n i j) ` set cs"
proof (induction cs arbitrary: seed order A B)
  case (Cons c cs)
  obtain i j where c: "c = (i, j)" by (cases c)
  obtain s o' Av Bv where st: "init_cell n c (seed, order, A, B) = (s, o', Av, Bv)" by (metis prod_cases4)
  have clip: "unat (matrix_clip v True) \<le> 255" for v
  proof -
    have ff: "(0xff :: u32) = mask 8" by (simp add: mask_eq_exp_minus_1)
    have "unat (ucast (take_bit 8 w) :: matdat) < 256" for w :: u32
    proof -
      have "unat (take_bit 8 w) = take_bit 8 (unat w)" by (rule unsigned_take_bit_eq)
      then have "unat (take_bit 8 w) < 2 ^ 8" using take_bit_nat_less_exp by metis
      then show ?thesis by (simp add: unsigned_ucast_eq take_bit_nat_eq_self)
    qed
    from this [of "scast v"] show ?thesis
      by (simp add: matrix_clip_def ff flip: take_bit_eq_mask)
  qed
  have Av: "\<exists>v. Av = A(at n i j := matrix_clip v True)" using st by (auto simp: init_cell_def c Let_def)
  from Cons.IH [of s o' Av Bv] Cons.prems st
  have "unat (A' k) \<le> 255 \<or> A' k = Av k \<and> k \<notin> (\<lambda>(i, j). at n i j) ` set cs" by simp
  with Av clip show ?case by (cases "k = at n i j") (auto simp: c)
qed simp

text \<open>The matrices fit: for an aligned block of up to 2 GB that does not wrap around the address
  space, the dimension loop ends with the largest \<open>n\<close> whose three matrices take less than the block,
  the matrices lie one after another inside it, and the entries of \<open>A\<close> are bytes.\<close>

theorem matrix_layout_fits:
  assumes "0 < unat blksize" "unat blksize \<le> 2 ^ 31" "unat memblk mod 4 = 0" "unat memblk + unat blksize \<le> 2 ^ 32"
  shows "case core_init_matrix blksize memblk seed p of None \<Rightarrow> False
    | Some ((pa, pb, pc), r) \<Rightarrow> (let n = unat (mat_n r) in
        8 * n\<^sup>2 < unat blksize \<and> unat blksize \<le> 8 * (n + 1)\<^sup>2
        \<and> pa = memblk \<and> unat pb = unat pa + 2 * n\<^sup>2 \<and> unat pc = unat pb + 2 * n\<^sup>2
        \<and> unat pc + 4 * n\<^sup>2 < unat memblk + unat blksize
        \<and> (if i < n \<and> j < n then unat (mat_a r (at (mat_n r) i j)) \<le> 255 else True))"
proof -
  obtain n where n: "matrix_dim blksize = Some n" "8 * (unat n)\<^sup>2 < unat blksize" "unat blksize \<le> 8 * (unat n + 1)\<^sup>2"
    using matrix_dim_ok [OF assms(1,2)] by blast
  obtain s ord A B where f: "fold (init_cell n) (cells n) (if seed = 0 then 1 else seed, 1, mat_a p, mat_b p) = (s, ord, A, B)"
    by (metis prod_cases4)
  let ?q = "unat n * unat n"
  have q: "8 * ?q < unat blksize" using n(2) by (simp add: power2_eq_square)
  have word: "unat (w + 2 * (n * n)) = unat w + 2 * ?q" if "unat w + 2 * ?q < 2 ^ 32" for w :: u32
  proof -
    have "w + 2 * (n * n) = of_nat (unat w + 2 * ?q)" by simp
    then show ?thesis using that by (simp only: unat_of_nat) simp
  qed
  have pa: "align_mem memblk = memblk" using assms(3) by (rule align_mem_aligned)
  have pb: "unat (memblk + 2 * (n * n)) = unat memblk + 2 * ?q" using q assms(4) by (intro word) simp
  have pc: "unat (memblk + 2 * (n * n) + 2 * (n * n)) = unat memblk + 2 * ?q + 2 * ?q"
    using q assms(4) pb word [of "memblk + 2 * (n * n)"] by simp
  have "unat (memblk + 2 * (n * n) + 2 * (n * n)) mod 4 = 0" unfolding pc using assms(3) by presburger
  then have al: "align_mem (memblk + 2 * (n * n) + 2 * (n * n)) = memblk + 2 * (n * n) + 2 * (n * n)"
    by (rule align_mem_aligned)
  have small: "unat (A (at n i j)) \<le> 255" if "i < unat n" "j < unat n"
    using init_cell_small [OF f, of "at n i j"] that by (auto simp: set_cells)
  have r: "core_init_matrix blksize memblk seed p = Some ((memblk, memblk + 2 * (n * n),
      memblk + 2 * (n * n) + 2 * (n * n)), p\<lparr>mat_a := A, mat_b := B, mat_n := n\<rparr>)"
    unfolding core_init_matrix_def Let_def n(1) option.case f prod.case pa al ..
  show ?thesis
    unfolding r option.case prod.case Let_def using n(2,3) pb pc q assms(4) small
    by (simp add: power2_eq_square)
qed

lemma matrix_layout_fits_witness:
  "case core_init_matrix 666 0x80001000 0 \<lparr>mat_n = 0, mat_a = \<lambda>_. 0, mat_b = \<lambda>_. 0, mat_c = \<lambda>_. 0\<rparr> of None \<Rightarrow> False
    | Some ((pa, pb, pc), r) \<Rightarrow> (let n = unat (mat_n r) in
        8 * n\<^sup>2 < unat (666 :: u32) \<and> unat (666 :: u32) \<le> 8 * (n + 1)\<^sup>2
        \<and> pa = 0x80001000 \<and> unat pb = unat pa + 2 * n\<^sup>2 \<and> unat pc = unat pb + 2 * n\<^sup>2
        \<and> unat pc + 4 * n\<^sup>2 < unat (0x80001000 :: u32) + unat (666 :: u32)
        \<and> (if 0 < n \<and> 0 < n then unat (mat_a r (at (mat_n r) 0 0)) \<le> 255 else True))"
  by (rule matrix_layout_fits) simp_all

end
