(* ===== verification/Coremark_List.thy ===== *)
theory Coremark_List
  imports Coremark_Matrix "HOL-Library.Monad_Syntax" "HOL-Library.Multiset"
begin

text \<open>
  CoreMark, part three: the linked list benchmark of Middleware/benchmark/coremark/core_list_join.c.
  A \<open>list_head\<close> is the number of its element in the block of heads, a \<open>list_data\<close> that in the block
  of data; \<open>None\<close> is NULL, and the result \<open>None\<close> of an operation is a NULL dereference or a walk
  that does not end. Signed 16-bit values are words read with \<open>sint\<close>. The sort takes its comparison
  as a function on the data state, of any type, so that it can be proved once for both comparisons.
\<close>

section \<open>Data\<close>

type_synonym node = nat
type_synonym cell = nat

record links =
  nxt :: "node \<Rightarrow> node option"
  info :: "node \<Rightarrow> cell"

record core_results =
  res_seed1 :: u16
  res_seed2 :: u16
  res_seed3 :: u16
  res_block3 :: "u8 list"
  res_list :: "node option"
  res_mat :: mat_params
  res_crc :: u16
  res_crclist :: u16
  res_crcmatrix :: u16
  res_crcstate :: u16

record list_data =
  data16 :: "cell \<Rightarrow> u16"
  idx :: "cell \<Rightarrow> u16"
  results :: core_results

type_synonym 'd list_cmp = "cell \<Rightarrow> cell \<Rightarrow> 'd \<Rightarrow> (int \<times> 'd) option"

section \<open>Comparisons\<close>

text \<open>\<open>calc_func\<close>: the value, the item with the value cached, and the results.\<close>

definition calc_func :: "u16 \<Rightarrow> core_results \<Rightarrow> (u16 \<times> u16 \<times> core_results) option" where
  "calc_func data res =
     (let optype = drop_bit 7 data AND 1 in
      if optype \<noteq> 0 then Some (data AND 0x7f, data, res)
      else
        let flag = data AND 7;
            dtype = drop_bit 3 data AND 0xf;
            dtype = dtype OR push_bit 4 dtype
        in do {
          (retval, res) \<leftarrow>
            (if flag = 0 then
               let dtype = (if sint dtype < 0x22 then 0x22 else dtype) in do {
                 (retval, blk) \<leftarrow> core_bench_state (res_block3 res) (res_seed1 res) (res_seed2 res) dtype (res_crc res);
                 let res = res\<lparr>res_block3 := blk\<rparr>;
                 Some (retval, if res_crcstate res = 0 then res\<lparr>res_crcstate := retval\<rparr> else res)
               }
             else if flag = 1 then
               let (retval, m) = core_bench_matrix (res_mat res) dtype (res_crc res);
                   res = res\<lparr>res_mat := m\<rparr>
               in Some (retval, if res_crcmatrix res = 0 then res\<lparr>res_crcmatrix := retval\<rparr> else res)
             else Some (data, res));
          let res = res\<lparr>res_crc := crcu16 retval (res_crc res)\<rparr>;
          let retval = retval AND 0x7f;
          Some (retval, (data AND 0xff00) OR 0x80 OR retval, res)
        })"

definition cmp_complex :: "list_data list_cmp" where
  "cmp_complex a b d = do {
     (val1, da, res) \<leftarrow> calc_func (data16 d a) (results d);
     let d = d\<lparr>data16 := (data16 d)(a := da), results := res\<rparr>;
     (val2, db, res) \<leftarrow> calc_func (data16 d b) (results d);
     let d = d\<lparr>data16 := (data16 d)(b := db), results := res\<rparr>;
     Some (sint val1 - sint val2, d)
   }"

definition regen :: "cell \<Rightarrow> list_data \<Rightarrow> list_data" where
  "regen a d = d\<lparr>data16 := (data16 d)(a := (data16 d a AND 0xff00) OR (0xff AND drop_bit 8 (data16 d a)))\<rparr>"

text \<open>\<open>cmp_idx\<close>; the flag says that \<open>res\<close> is NULL.\<close>

definition cmp_idx :: "bool \<Rightarrow> list_data list_cmp" where
  "cmp_idx res_null a b d =
     (let d = (if res_null then regen b (regen a d) else d) in Some (sint (idx d a) - sint (idx d b), d))"

section \<open>List operations\<close>

definition copy_info :: "cell \<Rightarrow> u16 \<times> u16 \<Rightarrow> list_data \<Rightarrow> list_data" where
  "copy_info to = (\<lambda>(i, v) d. d\<lparr>data16 := (data16 d)(to := v), idx := (idx d)(to := i)\<rparr>)"

text \<open>\<open>core_list_insert_new\<close>: \<open>mb\<close> and \<open>db\<close> are the next free head and data, \<open>mbe\<close> and \<open>dbe\<close> the
  ends; the data to copy is the pair of its index and its value.\<close>

definition core_list_insert_new :: "node \<Rightarrow> u16 \<times> u16 \<Rightarrow> nat \<Rightarrow> nat \<Rightarrow> nat \<times> nat \<times> links \<times> list_data \<Rightarrow>
    node option \<times> nat \<times> nat \<times> links \<times> list_data" where
  "core_list_insert_new insert_point item mbe dbe = (\<lambda>(mb, db, l, d).
     if mbe \<le> mb + 1 then (None, mb, db, l, d)
     else if dbe \<le> db + 1 then (None, mb, db, l, d)
     else
       let newitem = mb;
           l = l\<lparr>nxt := (nxt l)(newitem := nxt l insert_point)\<rparr>;
           l = l\<lparr>nxt := (nxt l)(insert_point := Some newitem)\<rparr>;
           l = l\<lparr>info := (info l)(newitem := db)\<rparr>
       in (Some newitem, mb + 1, db + 1, l, copy_info (info l newitem) item d))"

definition core_list_remove :: "node option \<Rightarrow> links \<Rightarrow> (node option \<times> links) option" where
  "core_list_remove item l = do {
     it \<leftarrow> item;
     ret \<leftarrow> nxt l it;
     let tmp = info l it;
     let l = l\<lparr>info := (info l)(it := info l ret)\<rparr>;
     let l = l\<lparr>info := (info l)(ret := tmp)\<rparr>;
     let l = l\<lparr>nxt := (nxt l)(it := nxt l ret)\<rparr>;
     let l = l\<lparr>nxt := (nxt l)(ret := None)\<rparr>;
     Some (Some ret, l)
   }"

definition core_list_undo_remove :: "node option \<Rightarrow> node option \<Rightarrow> links \<Rightarrow> (node option \<times> links) option" where
  "core_list_undo_remove item_removed item_modified l = do {
     r \<leftarrow> item_removed;
     m \<leftarrow> item_modified;
     let tmp = info l r;
     let l = l\<lparr>info := (info l)(r := info l m)\<rparr>;
     let l = l\<lparr>info := (info l)(m := tmp)\<rparr>;
     let l = l\<lparr>nxt := (nxt l)(r := nxt l m)\<rparr>;
     let l = l\<lparr>nxt := (nxt l)(m := Some r)\<rparr>;
     Some (Some r, l)
   }"

partial_function (option) find_loop :: "(cell \<Rightarrow> bool) \<Rightarrow> links \<Rightarrow> node option \<Rightarrow> node option option" where
  "find_loop differs l lst =
     (case lst of None \<Rightarrow> Some None
      | Some n \<Rightarrow> if differs (info l n) then find_loop differs l (nxt l n) else Some (Some n))"

definition core_list_find :: "links \<Rightarrow> list_data \<Rightarrow> node option \<Rightarrow> u16 \<times> u16 \<Rightarrow> node option option" where
  "core_list_find l d lst = (\<lambda>(i, v).
     if 0 \<le> sint i then find_loop (\<lambda>c. idx d c \<noteq> i) l lst
     else find_loop (\<lambda>c. data16 d c AND 0xff \<noteq> v) l lst)"

partial_function (option) reverse_loop :: "links \<Rightarrow> node option \<Rightarrow> node option \<Rightarrow> (node option \<times> links) option" where
  "reverse_loop l next lst =
     (case lst of None \<Rightarrow> Some (next, l)
      | Some n \<Rightarrow> reverse_loop (l\<lparr>nxt := (nxt l)(n := next)\<rparr>) (Some n) (nxt l n))"

definition core_list_reverse :: "links \<Rightarrow> node option \<Rightarrow> (node option \<times> links) option" where
  "core_list_reverse l lst = reverse_loop l None lst"

section \<open>Merge sort\<close>

text \<open>The loop that steps \<open>q\<close> along, \<open>k\<close> turns to go; it ends early at the end of the list.\<close>

fun advance :: "links \<Rightarrow> nat \<Rightarrow> node option \<Rightarrow> nat \<Rightarrow> (node option \<times> nat) option" where
  "advance l 0 q psize = Some (q, psize)"
| "advance l (Suc k) q psize = do {
     n \<leftarrow> q;
     let psize = psize + 1;
     case nxt l n of None \<Rightarrow> Some (None, psize) | Some q \<Rightarrow> advance l k (Some q) psize
   }"

text \<open>Which of the two runs the next element comes from.\<close>

definition from_p :: "'d list_cmp \<Rightarrow> nat \<Rightarrow> nat \<Rightarrow> node option \<Rightarrow> node option \<Rightarrow> links \<Rightarrow> 'd \<Rightarrow> (bool \<times> 'd) option" where
  "from_p cmp psize qsize p q l d =
     (if psize = 0 then Some (False, d)
      else if qsize = 0 \<or> q = None then Some (True, d)
      else do {
        a \<leftarrow> p;
        b \<leftarrow> q;
        (r, d) \<leftarrow> cmp (info l a) (info l b) d;
        Some (r \<le> 0, d)
      })"

definition append_tail :: "node \<Rightarrow> node option \<times> node option \<Rightarrow> links \<Rightarrow> (node option \<times> node option) \<times> links" where
  "append_tail e = (\<lambda>(lst, tail) l.
     let (lst, l) = (case tail of Some t \<Rightarrow> (lst, l\<lparr>nxt := (nxt l)(t := Some e)\<rparr>) | None \<Rightarrow> (Some e, l))
     in ((lst, Some e), l))"

function merge_loop :: "'d list_cmp \<Rightarrow> nat \<Rightarrow> nat \<Rightarrow> node option \<Rightarrow> node option \<Rightarrow> node option \<times> node option \<Rightarrow>
    links \<Rightarrow> 'd \<Rightarrow> (node option \<times> (node option \<times> node option) \<times> links \<times> 'd) option" where
  "merge_loop cmp psize qsize p q lt l d =
     (if 0 < psize \<or> 0 < qsize \<and> q \<noteq> None then do {
        (fp, d) \<leftarrow> from_p cmp psize qsize p q l d;
        if fp then do {
          e \<leftarrow> p;
          let p = nxt l e;
          let (lt, l) = append_tail e lt l;
          merge_loop cmp (psize - 1) qsize p q lt l d
        } else do {
          e \<leftarrow> q;
          let q = nxt l e;
          let (lt, l) = append_tail e lt l;
          merge_loop cmp psize (qsize - 1) p q lt l d
        }
      } else Some (q, lt, l, d))"
  by pat_completeness auto
termination
  by (relation "measure (\<lambda>(cmp, psize, qsize, p, q, lt, l, d). psize + qsize)")
    (auto simp: from_p_def split: if_splits bind_splits)

partial_function (option) pass_loop :: "'d list_cmp \<Rightarrow> nat \<Rightarrow> nat \<Rightarrow> node option \<Rightarrow> node option \<times> node option \<Rightarrow>
    links \<Rightarrow> 'd \<Rightarrow> (nat \<times> (node option \<times> node option) \<times> links \<times> 'd) option" where
  "pass_loop cmp insize nmerges p lt l d =
     (if p = None then Some (nmerges, lt, l, d)
      else do {
        (q, psize) \<leftarrow> advance l insize p 0;
        (q, lt, l, d) \<leftarrow> merge_loop cmp psize insize p q lt l d;
        pass_loop cmp insize (nmerges + 1) q lt l d
      })"

text \<open>The outer loop. The run length stays a number: it doubles only while it is below the length of
  the list, and a 32-bit machine holds fewer than \<open>2 ^ 29\<close> heads.\<close>

partial_function (option) sort_loop :: "'d list_cmp \<Rightarrow> nat \<Rightarrow> node option \<Rightarrow> links \<Rightarrow> 'd \<Rightarrow>
    (node option \<times> links \<times> 'd) option" where
  "sort_loop cmp insize lst l d = do {
     (nmerges, (lst, tail), l, d) \<leftarrow> pass_loop cmp insize 0 lst (None, None) l d;
     t \<leftarrow> tail;
     let l = l\<lparr>nxt := (nxt l)(t := None)\<rparr>;
     if nmerges \<le> 1 then Some (lst, l, d) else sort_loop cmp (insize * 2) lst l d
   }"

definition core_list_mergesort :: "'d list_cmp \<Rightarrow> node option \<Rightarrow> links \<Rightarrow> 'd \<Rightarrow> (node option \<times> links \<times> 'd) option" where
  "core_list_mergesort cmp lst l d = sort_loop cmp 1 lst l d"

section \<open>Lists in the heap\<close>

text \<open>\<open>chain\<close>: the links lead from a pointer through exactly these heads to NULL. \<open>seg\<close>: they lead
  through these heads, wherever they go afterwards.\<close>

fun chain :: "(node \<Rightarrow> node option) \<Rightarrow> node option \<Rightarrow> node list \<Rightarrow> bool" where
  "chain f p [] \<longleftrightarrow> p = None"
| "chain f p (x # xs) \<longleftrightarrow> p = Some x \<and> chain f (f x) xs"

fun seg :: "(node \<Rightarrow> node option) \<Rightarrow> node option \<Rightarrow> node list \<Rightarrow> bool" where
  "seg f p [] \<longleftrightarrow> True"
| "seg f p (x # xs) \<longleftrightarrow> p = Some x \<and> seg f (f x) xs"

definition ends :: "node list \<Rightarrow> node option \<times> node option" where
  "ends D = (if D = [] then (None, None) else (Some (hd D), Some (last D)))"

lemma chain_cong: "\<forall>n\<in>set xs. f n = g n \<Longrightarrow> chain f p xs \<longleftrightarrow> chain g p xs"
  by (induction xs arbitrary: p) auto

lemma seg_cong: "\<forall>n\<in>set (butlast xs). f n = g n \<Longrightarrow> seg f p xs \<longleftrightarrow> seg g p xs"
proof (induction xs arbitrary: p)
  case (Cons x xs)
  show ?case
  proof (cases xs)
    case (Cons y ys)
    then have "f x = g x" "\<forall>n\<in>set (butlast xs). f n = g n" using Cons.prems by simp_all
    then show ?thesis using Cons.IH [of "g x"] by simp
  qed simp
qed simp

lemma seg_snoc: "seg f p (xs @ [e]) \<longleftrightarrow> seg f p xs \<and> (if xs = [] then p else f (last xs)) = Some e"
proof (induction xs arbitrary: p)
  case (Cons x xs)
  then show ?case by (cases xs) auto
qed simp

lemma chain_seg: "chain f p xs \<longleftrightarrow> seg f p xs \<and> (if xs = [] then p else f (last xs)) = None"
proof (induction xs arbitrary: p)
  case (Cons x xs)
  then show ?case by (cases xs) auto
qed simp

lemma seg_append: "seg f p (xs @ ys) \<longleftrightarrow> seg f p xs \<and> seg f (if xs = [] then p else f (last xs)) ys"
proof (induction xs arbitrary: p)
  case (Cons x xs)
  then show ?case by (cases xs) auto
qed simp

lemma chain_append: "chain f p (xs @ ys) \<longleftrightarrow> seg f p xs \<and> chain f (if xs = [] then p else f (last xs)) ys"
proof (induction xs arbitrary: p)
  case (Cons x xs)
  then show ?case by (cases xs) auto
qed simp

lemma chain_unique: "chain f p xs \<Longrightarrow> chain f p ys \<Longrightarrow> xs = ys"
proof (induction xs arbitrary: p ys)
  case Nil
  then show ?case by (cases ys) auto
next
  case (Cons x xs)
  then show ?case by (cases ys) auto
qed

lemma chain_distinct: "chain f p xs \<Longrightarrow> distinct xs"
proof (induction xs arbitrary: p)
  case (Cons x xs)
  have "x \<notin> set xs"
  proof
    assume "x \<in> set xs"
    then obtain as bs where xs: "xs = as @ x # bs" by (meson split_list)
    then have "chain f (f x) bs" using Cons.prems by (simp add: chain_append split: if_splits)
    then have "bs = xs" using Cons.prems chain_unique by auto
    then show False using xs by simp
  qed
  with Cons show ?case by auto
qed simp

lemma append_tail_step:
  assumes "seg (nxt l) (fst (ends D)) D" "distinct (D @ [e])"
  shows "\<exists>l2. append_tail e (ends D) l = (ends (D @ [e]), l2) \<and> info l2 = info l \<and> seg (nxt l2) (fst (ends (D @ [e]))) (D @ [e])
     \<and> (\<forall>n. n \<notin> set D \<longrightarrow> nxt l2 n = nxt l n)"
proof (cases "D = []")
  case False
  let ?l = "l\<lparr>nxt := (nxt l)(last D := Some e)\<rparr>"
  have "last D \<notin> set (butlast D)" using assms(2) False
    by (metis append_butlast_last_id distinct_append distinct_butlast not_distinct_conv_prefix)
  then have "seg (nxt ?l) (fst (ends D)) D" using assms(1) seg_cong [of D "nxt ?l" "nxt l"] by auto
  then show ?thesis using False
    by (intro exI [of _ ?l]) (auto simp: append_tail_def ends_def seg_snoc)
qed (simp add: append_tail_def ends_def)

section \<open>The merge sort on lists\<close>

text \<open>The same comparisons in the same order on lists of heads: a merge, a pass over runs of length
  \<open>ins\<close>, and passes with doubled runs until one merge covers the list.\<close>

fun smerge :: "'d list_cmp \<Rightarrow> (node \<Rightarrow> cell) \<Rightarrow> node list \<Rightarrow> node list \<Rightarrow> 'd \<Rightarrow> (node list \<times> 'd) option" where
  "smerge cmp at_cell [] ys d = Some (ys, d)"
| "smerge cmp at_cell (x # xs) [] d = Some (x # xs, d)"
| "smerge cmp at_cell (x # xs) (y # ys) d = do {
     (r, d) \<leftarrow> cmp (at_cell x) (at_cell y) d;
     if r \<le> 0 then do { (zs, d) \<leftarrow> smerge cmp at_cell xs (y # ys) d; Some (x # zs, d) }
     else do { (zs, d) \<leftarrow> smerge cmp at_cell (x # xs) ys d; Some (y # zs, d) }
   }"

lemma merge_loop_refines:
  "smerge cmp (info l) P (take qsize Q) d = Some (M, d') \<Longrightarrow> seg (nxt l) p P \<Longrightarrow> chain (nxt l) q Q \<Longrightarrow>
   seg (nxt l) (fst (ends D)) D \<Longrightarrow> distinct (D @ P @ Q) \<Longrightarrow>
   \<exists>l' q'. merge_loop cmp (length P) qsize p q (ends D) l d = Some (q', ends (D @ M), l', d') \<and> info l' = info l
     \<and> chain (nxt l') q' (drop qsize Q) \<and> seg (nxt l') (fst (ends (D @ M))) (D @ M)"
proof (induction "length P + qsize" arbitrary: P qsize Q M D l p q d rule: less_induct)
  case less
  note sm = less.prems(1) and sp = less.prems(2) and cq = less.prems(3) and sd = less.prems(4) and dd = less.prems(5)
  have from_p_step: "\<exists>l' q'. merge_loop cmp (length P) qsize p q (ends D) l d = Some (q', ends (D @ M), l', d') \<and> info l' = info l
     \<and> chain (nxt l') q' (drop qsize Q) \<and> seg (nxt l') (fst (ends (D @ M))) (D @ M)"
    if P: "P = x # P'" and c: "from_p cmp (length P) qsize p q l d = Some (True, d2)"
      and M: "M = x # M'" "smerge cmp (info l) P' (take qsize Q) d2 = Some (M', d')" for x P' d2 M'
  proof -
    obtain l2 where l2: "append_tail x (ends D) l = (ends (D @ [x]), l2)" "info l2 = info l"
      "seg (nxt l2) (fst (ends (D @ [x]))) (D @ [x])" "\<forall>n. n \<notin> set D \<longrightarrow> nxt l2 n = nxt l n"
      using append_tail_step [OF sd, of x] dd P by auto
    have "seg (nxt l2) (nxt l x) P'" using sp P seg_cong [of P' "nxt l2" "nxt l"] l2(4) dd
      by (auto dest!: in_set_butlastD)
    moreover have "chain (nxt l2) q Q" using cq chain_cong [of Q "nxt l2" "nxt l"] l2(4) dd by auto
    moreover have "distinct ((D @ [x]) @ P' @ Q)" using dd P by auto
    ultimately obtain l' q' where "merge_loop cmp (length P') qsize (nxt l x) q (ends (D @ [x])) l2 d2 = Some (q', ends ((D @ [x]) @ M'), l', d')"
      "info l' = info l2" "chain (nxt l') q' (drop qsize Q)" "seg (nxt l') (fst (ends ((D @ [x]) @ M'))) ((D @ [x]) @ M')"
      using less.hyps [of P' qsize l2 Q d2 M' "nxt l x" q "D @ [x]"] P M(2) l2(2,3) by auto
    then show ?thesis using sp P c l2(1,2) M(1) by (subst merge_loop.simps) simp
  qed
  have from_q_step: "\<exists>l' q'. merge_loop cmp (length P) qsize p q (ends D) l d = Some (q', ends (D @ M), l', d') \<and> info l' = info l
     \<and> chain (nxt l') q' (drop qsize Q) \<and> seg (nxt l') (fst (ends (D @ M))) (D @ M)"
    if Q: "Q = y # Q'" "qsize = Suc k" and c: "from_p cmp (length P) qsize p q l d = Some (False, d2)"
      and M: "M = y # M'" "smerge cmp (info l) P (take k Q') d2 = Some (M', d')" for y Q' d2 M' k
  proof -
    obtain l2 where l2: "append_tail y (ends D) l = (ends (D @ [y]), l2)" "info l2 = info l"
      "seg (nxt l2) (fst (ends (D @ [y]))) (D @ [y])" "\<forall>n. n \<notin> set D \<longrightarrow> nxt l2 n = nxt l n"
      using append_tail_step [OF sd, of y] dd Q by auto
    have "seg (nxt l2) p P" using sp seg_cong [of P "nxt l2" "nxt l"] l2(4) dd
      by (auto dest!: in_set_butlastD)
    moreover have "chain (nxt l2) (nxt l y) Q'" using cq Q chain_cong [of Q' "nxt l2" "nxt l"] l2(4) dd by auto
    moreover have "distinct ((D @ [y]) @ P @ Q')" using dd Q by auto
    ultimately obtain l' q' where "merge_loop cmp (length P) k p (nxt l y) (ends (D @ [y])) l2 d2 = Some (q', ends ((D @ [y]) @ M'), l', d')"
      "info l' = info l2" "chain (nxt l') q' (drop k Q')" "seg (nxt l') (fst (ends ((D @ [y]) @ M'))) ((D @ [y]) @ M')"
      using less.hyps [of P k l2 Q' d2 M' p "nxt l y" "D @ [y]"] Q M(2) l2(2,3) by auto
    then show ?thesis using cq Q c l2(1,2) M(1) by (subst merge_loop.simps) simp
  qed
  show ?case
  proof (cases "take qsize Q")
    case Nil
    then have e: "qsize = 0 \<or> q = None" "drop qsize Q = Q" using cq by (auto simp: take_eq_Nil)
    show ?thesis
    proof (cases P)
      case Nil
      with sm \<open>take qsize Q = []\<close> have "M = []" "d' = d" by auto
      then show ?thesis using Nil e cq sd by (subst merge_loop.simps) auto
    next
      case (Cons x P')
      with sm \<open>take qsize Q = []\<close> have M: "M = x # P'" "d' = d" by auto
      have "from_p cmp (length P) qsize p q l d = Some (True, d)" using e Cons by (auto simp: from_p_def)
      from from_p_step [OF Cons this M(1)] M(2) \<open>take qsize Q = []\<close> show ?thesis by (cases P') auto
    qed
  next
    case (Cons y R)
    then obtain Q' k where Q: "Q = y # Q'" "qsize = Suc k" "R = take k Q'" by (cases Q; cases qsize) auto
    then have q: "q = Some y" using cq by simp
    show ?thesis
    proof (cases P)
      case Nil
      then have "from_p cmp (length P) qsize p q l d = Some (False, d)" by (simp add: from_p_def)
      from from_q_step [OF Q(1,2) this] sm Nil Cons Q(3) show ?thesis by auto
    next
      case (Cons x P')
      then have p: "p = Some x" using sp by simp
      obtain r d2 where r: "cmp (info l x) (info l y) d = Some (r, d2)"
        using sm Cons \<open>take qsize Q = y # R\<close> by (auto split: bind_splits)
      have f: "from_p cmp (length P) qsize p q l d = Some (r \<le> 0, d2)" using r p q Cons Q(2) by (simp add: from_p_def)
      show ?thesis
      proof (cases "r \<le> 0")
        case True
        then obtain M' where "M = x # M'" "smerge cmp (info l) P' (take qsize Q) d2 = Some (M', d')"
          using sm Cons \<open>take qsize Q = y # R\<close> r by (auto split: bind_splits)
        with from_p_step [OF Cons] f True show ?thesis by simp
      next
        case False
        then obtain M' where "M = y # M'" "smerge cmp (info l) P (take k Q') d2 = Some (M', d')"
          using sm Cons \<open>take qsize Q = y # R\<close> r Q(3) by (auto split: bind_splits)
        with from_q_step [OF Q(1,2)] f False show ?thesis by simp
      qed
    qed
  qed
qed

function spass :: "'d list_cmp \<Rightarrow> (node \<Rightarrow> cell) \<Rightarrow> nat \<Rightarrow> node list \<Rightarrow> 'd \<Rightarrow> (node list \<times> 'd) option" where
  "spass cmp at_cell ins xs d =
     (if xs = [] \<or> ins = 0 then Some ([], d)
      else do {
        (M, d) \<leftarrow> smerge cmp at_cell (take ins xs) (take ins (drop ins xs)) d;
        (R, d) \<leftarrow> spass cmp at_cell ins (drop (2 * ins) xs) d;
        Some (M @ R, d)
      })"
  by pat_completeness auto
termination
  by (relation "measure (\<lambda>(cmp, at_cell, ins, xs, d). length xs)") auto

declare spass.simps [simp del]

lemma smerge_mset: "smerge cmp at_cell P Q d = Some (M, d') \<Longrightarrow> mset M = mset P + mset Q"
proof (induction cmp at_cell P Q d arbitrary: M rule: smerge.induct)
  case (3 cmp at_cell x xs y ys d)
  then obtain r d2 where r: "cmp (at_cell x) (at_cell y) d = Some (r, d2)" by (auto split: bind_splits)
  show ?case using 3(1) [OF r HOL.refl] 3(2) [OF r HOL.refl] 3(3) r
    by (cases "r \<le> 0") (auto split: bind_splits)
qed auto

lemma spass_mset: "0 < ins \<Longrightarrow> spass cmp at_cell ins xs d = Some (S, d') \<Longrightarrow> mset S = mset xs"
proof (induction cmp at_cell ins xs d arbitrary: S rule: spass.induct)
  case (1 cmp at_cell ins xs d)
  show ?case
  proof (cases "xs = []")
    case False
    then obtain M d2 R where M: "smerge cmp at_cell (take ins xs) (take ins (drop ins xs)) d = Some (M, d2)"
      and R: "spass cmp at_cell ins (drop (2 * ins) xs) d2 = Some (R, d')" "S = M @ R"
      using 1(2,3) by (subst (asm) spass.simps) (auto split: bind_splits)
    have "mset xs = mset (take ins xs @ take ins (drop ins xs) @ drop (2 * ins) xs)"
      by (metis append_take_drop_id drop_drop mult_2)
    also have "\<dots> = mset M + mset R" using smerge_mset [OF M] 1(1) [OF _ M HOL.refl 1(2) R(1)] False 1(2) by simp
    finally show ?thesis using R(2) by simp
  qed (use 1(3) in \<open>simp add: spass.simps\<close>)
qed

function ssort :: "'d list_cmp \<Rightarrow> (node \<Rightarrow> cell) \<Rightarrow> nat \<Rightarrow> node list \<Rightarrow> 'd \<Rightarrow> (node list \<times> 'd) option" where
  "ssort cmp at_cell ins xs d =
     (if ins = 0 then None
      else do {
        (S, d) \<leftarrow> spass cmp at_cell ins xs d;
        if length xs \<le> 2 * ins then Some (S, d) else ssort cmp at_cell (2 * ins) S d
      })"
  by pat_completeness auto
termination
  by (relation "measure (\<lambda>(cmp, at_cell, ins, xs, d). length xs - ins)")
    (auto dest!: spass_mset [rotated] mset_eq_length)

declare ssort.simps [simp del]

section \<open>The pointer sort does the list sort\<close>

lemma advance_chain:
  "chain f p Q \<Longrightarrow> Q \<noteq> [] \<Longrightarrow> f = nxt l \<Longrightarrow>
   \<exists>q. advance l ins p c = Some (q, c + min ins (length Q)) \<and> (if 0 < ins then chain f q (drop ins Q) else q = p)"
proof (induction ins arbitrary: p Q c)
  case (Suc k)
  then obtain x Q' where Q: "Q = x # Q'" "p = Some x" "chain f (f x) Q'" by (cases Q) auto
  show ?case
  proof (cases Q')
    case Nil
    then show ?thesis using Q Suc.prems(3) by simp
  next
    case (Cons y Q2)
    then have y: "nxt l x = Some y" "Q' \<noteq> []" using Q(3) Suc.prems(3) by simp_all
    with Suc.IH [OF Q(3) y(2) Suc.prems(3), of "c + 1"] Q Suc.prems(3) show ?thesis
      by (cases "0 < k") auto
  qed
qed simp

lemma pass_loop_refines:
  "spass cmp (info l) ins Q d = Some (S, d') \<Longrightarrow> 0 < ins \<Longrightarrow> chain (nxt l) p Q \<Longrightarrow> seg (nxt l) (fst (ends D)) D \<Longrightarrow>
   distinct (D @ Q) \<Longrightarrow>
   \<exists>l' n. pass_loop cmp ins c p (ends D) l d = Some (n, ends (D @ S), l', d') \<and> info l' = info l
     \<and> seg (nxt l') (fst (ends (D @ S))) (D @ S)
     \<and> (if Q = [] then n = c else c < n) \<and> (c + 1 < n \<longleftrightarrow> 2 * ins < length Q)"
proof (induction "length Q" arbitrary: Q S D l p d c rule: less_induct)
  case less
  note ins = less.prems(2) and ch = less.prems(3) and sd = less.prems(4) and dd = less.prems(5)
  show ?case
  proof (cases "Q = []")
    case True
    then have "S = []" "d' = d" "p = None" using less.prems(1) ch by (simp_all add: spass.simps)
    then show ?thesis using sd True by (subst pass_loop.simps) simp
  next
    case False
    then obtain M d2 R where M: "smerge cmp (info l) (take ins Q) (take ins (drop ins Q)) d = Some (M, d2)"
      and R: "spass cmp (info l) ins (drop (2 * ins) Q) d2 = Some (R, d')" and S: "S = M @ R"
      using less.prems(1) ins by (subst (asm) spass.simps) (auto split: bind_splits)
    obtain x where p: "p = Some x" using ch False by (cases Q) auto
    obtain q where q: "advance l ins p 0 = Some (q, length (take ins Q))" "chain (nxt l) q (drop ins Q)"
      using advance_chain [OF ch False HOL.refl, of ins 0] ins by (auto simp: min.commute)
    have "seg (nxt l) p (take ins Q)" using ch chain_append [of "nxt l" p "take ins Q" "drop ins Q"] by simp
    moreover have "distinct (D @ take ins Q @ drop ins Q)" using dd by simp
    ultimately obtain l1 q1 where m: "merge_loop cmp (length (take ins Q)) ins p q (ends D) l d = Some (q1, ends (D @ M), l1, d2)"
      "info l1 = info l" "chain (nxt l1) q1 (drop ins (drop ins Q))" "seg (nxt l1) (fst (ends (D @ M))) (D @ M)"
      using merge_loop_refines [OF M _ q(2) sd] by blast
    have dr: "drop ins (drop ins Q) = drop (2 * ins) Q" by (simp add: mult_2)
    have "Q = take ins Q @ take ins (drop ins Q) @ drop (2 * ins) Q" by (metis append_take_drop_id dr)
    then have "mset Q = mset (take ins Q @ take ins (drop ins Q) @ drop (2 * ins) Q)" by (rule arg_cong)
    also have "\<dots> = mset (M @ drop (2 * ins) Q)" using smerge_mset [OF M] by simp
    finally have "mset (D @ Q) = mset ((D @ M) @ drop (2 * ins) Q)" by simp
    then have "distinct ((D @ M) @ drop (2 * ins) Q)" using dd by (metis mset_eq_imp_distinct_iff)
    moreover have "length (drop (2 * ins) Q) < length Q" using False ins by simp
    ultimately obtain l2 n where r: "pass_loop cmp ins (c + 1) q1 (ends (D @ M)) l1 d2 = Some (n, ends ((D @ M) @ R), l2, d')"
      "info l2 = info l1" "seg (nxt l2) (fst (ends ((D @ M) @ R))) ((D @ M) @ R)"
      "if drop (2 * ins) Q = [] then n = c + 1 else c + 1 < n"
      using less.hyps [of "drop (2 * ins) Q" l1 d2 R q1 "D @ M" "c + 1"] R m ins unfolding dr by auto
    have "pass_loop cmp ins c p (ends D) l d = Some (n, ends (D @ S), l2, d')"
      using p q(1) m(1) r(1) S by (subst pass_loop.simps) simp
    moreover have "c < n \<and> (c + 1 < n \<longleftrightarrow> 2 * ins < length Q)" using r(4) by (auto split: if_splits)
    ultimately show ?thesis using r(2,3) m(2) S False by auto
  qed
qed

lemma ends_nonempty: "D \<noteq> [] \<Longrightarrow> ends D = (Some (hd D), Some (last D))"
  by (simp add: ends_def)

lemma sort_loop_refines:
  "ssort cmp (info l) ins xs d = Some (ys, d') \<Longrightarrow> chain (nxt l) lst xs \<Longrightarrow> xs \<noteq> [] \<Longrightarrow>
   \<exists>l' lst'. sort_loop cmp ins lst l d = Some (lst', l', d') \<and> info l' = info l \<and> chain (nxt l') lst' ys"
proof (induction "length xs - ins" arbitrary: ins xs l lst d rule: less_induct)
  case less
  obtain S d2 where ins: "0 < ins" and S: "spass cmp (info l) ins xs d = Some (S, d2)"
    and rest: "(if length xs \<le> 2 * ins then Some (S, d2) else ssort cmp (info l) (2 * ins) S d2) = Some (ys, d')"
    using less.prems(1) by (subst (asm) ssort.simps) (auto split: bind_splits if_splits)
  have mS: "mset S = mset xs" using spass_mset [OF ins S] .
  then have ne: "S \<noteq> []" "distinct S" "length S = length xs" using less.prems(2,3) chain_distinct
    by (auto dest: mset_eq_length mset_eq_imp_distinct_iff)
  have "seg (nxt l) (fst (ends [])) []" by simp
  from pass_loop_refines [OF S ins less.prems(2) this, of 0] chain_distinct [OF less.prems(2)]
  obtain l1 n where p: "pass_loop cmp ins 0 lst (ends []) l d = Some (n, ends S, l1, d2)" "info l1 = info l"
    "seg (nxt l1) (fst (ends S)) S" "n \<le> 1 \<longleftrightarrow> length xs \<le> 2 * ins"
    using less.prems(3) by (auto split: if_splits)
  let ?l = "l1\<lparr>nxt := (nxt l1)(last S := None)\<rparr>"
  have "last S \<notin> set (butlast S)" using ne
    by (metis append_butlast_last_id distinct_append distinct_butlast not_distinct_conv_prefix)
  then have "seg (nxt ?l) (Some (hd S)) S" using p(3) ne(1) seg_cong [of S "nxt ?l" "nxt l1"] by (auto simp: ends_nonempty)
  then have ch: "chain (nxt ?l) (Some (hd S)) S" using ne(1) by (simp add: chain_seg)
  have step: "sort_loop cmp ins lst l d = (if n \<le> 1 then Some (Some (hd S), ?l, d2) else sort_loop cmp (ins * 2) (Some (hd S)) ?l d2)"
    using p(1) ne(1) by (subst sort_loop.simps) (simp add: ends_def)
  show ?case
  proof (cases "length xs \<le> 2 * ins")
    case True
    then show ?thesis using rest step p(2,4) ch by simp
  next
    case False
    then have "ssort cmp (info ?l) (2 * ins) S d2 = Some (ys, d')" using rest p(2) by simp
    with less.hyps [of S "2 * ins" ?l d2 "Some (hd S)"] ch ne ins False step p(2,4) show ?thesis
      by (auto simp: mult.commute)
  qed
qed

text \<open>C22: The in-place merge sort is the list merge sort, for every comparison, those with side effects
  included: whenever the bottom-up sort of the list of heads has a result, the loops over the links
  end, make the same comparisons in the same order, and leave the same heads linked in the sorted order
  and ended by NULL, with every head's data pointer as it was.\<close>

theorem core_list_mergesort_refines:
  assumes "chain (nxt l) lst xs" "xs \<noteq> []" "ssort cmp (info l) 1 xs d = Some (ys, d')"
  shows "case core_list_mergesort cmp lst l d of None \<Rightarrow> False
    | Some (lst', l', e) \<Rightarrow> e = d' \<and> chain (nxt l') lst' ys \<and> info l' = info l"
  using sort_loop_refines [OF assms(3,1,2)] by (auto simp: core_list_mergesort_def)

section \<open>A comparison that orders\<close>

text \<open>What the sort relies on: on the data states it meets, a comparison returns, keeps the state good,
  and its sign orders two cells by a key.\<close>

locale total_comparison =
  fixes cmp :: "'d list_cmp" and good :: "'d \<Rightarrow> bool"
  assumes returns: "good d \<Longrightarrow> \<exists>r d'. cmp a b d = Some (r, d') \<and> good d'"

begin

lemma smerge_returns: "good d \<Longrightarrow> \<exists>M d'. smerge cmp at_cell P Q d = Some (M, d') \<and> good d'"
proof (induction "length P + length Q" arbitrary: P Q d rule: less_induct)
  case less
  show ?case
  proof (cases P; cases Q)
    fix x xs y ys assume PQ: "P = x # xs" "Q = y # ys"
    obtain r d2 where r: "cmp (at_cell x) (at_cell y) d = Some (r, d2)" "good d2" using returns [OF less.prems] by blast
    from less.hyps [of xs Q d2] less.hyps [of P ys d2] r(2) PQ r(1) show ?thesis by auto
  qed (use less.prems in auto)
qed

lemma spass_returns: "good d \<Longrightarrow> \<exists>S d'. spass cmp at_cell ins xs d = Some (S, d') \<and> good d'"
proof (induction "length xs" arbitrary: xs d rule: less_induct)
  case less
  show ?case
  proof (cases "xs = [] \<or> ins = 0")
    case False
    obtain M d2 where M: "smerge cmp at_cell (take ins xs) (take ins (drop ins xs)) d = Some (M, d2)" "good d2"
      using smerge_returns [OF less.prems] by blast
    have "length (drop (2 * ins) xs) < length xs" using False by simp
    from less.hyps [OF this M(2)] M(1) False show ?thesis by (subst spass.simps) auto
  qed (use less.prems in \<open>simp add: spass.simps\<close>)
qed

lemma ssort_returns: "good d \<Longrightarrow> 0 < ins \<Longrightarrow> \<exists>S d'. ssort cmp at_cell ins xs d = Some (S, d') \<and> good d' \<and> mset S = mset xs"
proof (induction "length xs - ins" arbitrary: ins xs d rule: less_induct)
  case less
  obtain S d2 where S: "spass cmp at_cell ins xs d = Some (S, d2)" "good d2" using spass_returns [OF less.prems(1)] by blast
  have m: "mset S = mset xs" using spass_mset [OF less.prems(2) S(1)] .
  show ?case
  proof (cases "length xs \<le> 2 * ins")
    case False
    then have "length S - 2 * ins < length xs - ins" using mset_eq_length [OF m] less.prems(2) by simp
    from less.hyps [OF this S(2)] S m less.prems(2) False show ?thesis by (subst ssort.simps) auto
  qed (use S m less.prems in \<open>subst ssort.simps, auto\<close>)
qed

lemma mergesort_returns:
  assumes "good d" "chain (nxt l) lst xs" "xs \<noteq> []"
  shows "\<exists>ys lst' l' d'. core_list_mergesort cmp lst l d = Some (lst', l', d') \<and> chain (nxt l') lst' ys \<and> info l' = info l
    \<and> mset ys = mset xs \<and> good d'"
proof -
  obtain ys d' where "ssort cmp (info l) 1 xs d = Some (ys, d')" "good d'" "mset ys = mset xs"
    using ssort_returns [OF assms(1), of 1 "info l" xs] by auto
  with sort_loop_refines [OF this(1) assms(2,3)] show ?thesis by (auto simp: core_list_mergesort_def)
qed

end

text \<open>A list cut into runs of length \<open>ins\<close>, each sorted.\<close>

function runs :: "('a \<Rightarrow> 'k::linorder) \<Rightarrow> nat \<Rightarrow> 'a list \<Rightarrow> bool" where
  "runs f ins xs = (if xs = [] \<or> ins = 0 then True else sorted (map f (take ins xs)) \<and> runs f ins (drop ins xs))"
  by pat_completeness auto
termination
  by (relation "measure (\<lambda>(f, ins, xs). length xs)") auto

declare runs.simps [simp del]

lemma runs_Nil [simp]: "runs f ins []"
  by (subst runs.simps) simp

lemma runs_unfold: "0 < ins \<Longrightarrow> runs f ins xs \<longleftrightarrow> sorted (map f (take ins xs)) \<and> runs f ins (drop ins xs)"
  by (cases "xs = []") (simp, subst runs.simps, simp)

lemma runs_one: "runs f 1 xs"
proof (induction xs)
  case (Cons x xs)
  then show ?case using runs_unfold [of 1 f "x # xs"] by simp
qed simp

locale key_comparison = total_comparison +
  fixes key :: "cell \<Rightarrow> 'k::linorder"
  assumes ordered: "good d \<Longrightarrow> cmp a b d = Some (r, d') \<Longrightarrow> r \<le> 0 \<longleftrightarrow> key a \<le> key b"

begin

lemma smerge_stable:
  "good d \<Longrightarrow> smerge cmp at_cell P Q d = Some (M, d') \<Longrightarrow> sorted (map (key \<circ> at_cell) P) \<Longrightarrow> sorted (map (key \<circ> at_cell) Q) \<Longrightarrow>
   sorted (map (key \<circ> at_cell) M) \<and> (\<forall>v. filter (\<lambda>x. key (at_cell x) = v) M = filter (\<lambda>x. key (at_cell x) = v) P @ filter (\<lambda>x. key (at_cell x) = v) Q)"
proof (induction "length P + length Q" arbitrary: P Q d M rule: less_induct)
  case less
  show ?case
  proof (cases P; cases Q)
    fix x xs y ys assume PQ: "P = x # xs" "Q = y # ys"
    obtain r d2 where r: "cmp (at_cell x) (at_cell y) d = Some (r, d2)" "good d2" using returns [OF less.prems(1)] by blast
    note ord = ordered [OF less.prems(1) r(1)]
    show ?thesis
    proof (cases "r \<le> 0")
      case True
      then obtain N where N: "smerge cmp at_cell xs Q d2 = Some (N, d')" "M = x # N"
        using less.prems(2) PQ r(1) by (auto split: bind_splits)
      have "set N = set xs \<union> set Q" using smerge_mset [OF N(1)] by (metis set_mset_mset set_mset_union)
      moreover have "\<forall>z\<in>set xs \<union> set Q. key (at_cell x) \<le> key (at_cell z)" using less.prems(3,4) PQ ord True
        by (auto intro: order_trans)
      ultimately show ?thesis using less.hyps [of xs Q d2 N] r(2) N less.prems(3,4) PQ by auto
    next
      case False
      then obtain N where N: "smerge cmp at_cell P ys d2 = Some (N, d')" "M = y # N"
        using less.prems(2) PQ r(1) by (auto split: bind_splits)
      have "set N = set P \<union> set ys" using smerge_mset [OF N(1)] by (metis set_mset_mset set_mset_union)
      moreover have lt: "\<forall>z\<in>set P. key (at_cell y) < key (at_cell z)" using less.prems(3) PQ ord False
        by (auto intro: less_le_trans)
      moreover have "\<forall>z\<in>set ys. key (at_cell y) \<le> key (at_cell z)" using less.prems(4) PQ by simp
      moreover have "filter (\<lambda>x. key (at_cell x) = key (at_cell y)) P = []" using lt by (auto simp: filter_empty_conv)
      ultimately show ?thesis using less.hyps [of P ys d2 N] r(2) N less.prems(3,4) PQ by (auto simp: less_imp_le)
    qed
  qed (use less.prems in auto)
qed

lemma spass_stable:
  "good d \<Longrightarrow> 0 < ins \<Longrightarrow> spass cmp at_cell ins xs d = Some (S, d') \<Longrightarrow> runs (key \<circ> at_cell) ins xs \<Longrightarrow>
   runs (key \<circ> at_cell) (2 * ins) S \<and> (\<forall>v. filter (\<lambda>x. key (at_cell x) = v) S = filter (\<lambda>x. key (at_cell x) = v) xs)"
proof (induction "length xs" arbitrary: xs d S rule: less_induct)
  case less
  show ?case
  proof (cases "xs = []")
    case False
    let ?P = "take ins xs" and ?Q = "take ins (drop ins xs)" and ?R = "drop (2 * ins) xs"
    obtain M d2 where M: "smerge cmp at_cell ?P ?Q d = Some (M, d2)" "good d2"
      using smerge_returns [OF less.prems(1)] by blast
    obtain R where R: "spass cmp at_cell ins ?R d2 = Some (R, d')" "S = M @ R"
      using less.prems(2,3) False M by (subst (asm) spass.simps) (auto split: bind_splits)
    have rn: "sorted (map (key \<circ> at_cell) ?P)" "sorted (map (key \<circ> at_cell) ?Q)" "runs (key \<circ> at_cell) ins ?R"
      using less.prems(4) runs_unfold [OF less.prems(2), of "key \<circ> at_cell" xs]
        runs_unfold [OF less.prems(2), of "key \<circ> at_cell" "drop ins xs"] by (simp_all add: mult_2)
    note st = smerge_stable [OF less.prems(1) M(1) rn(1,2)]
    have "length ?R < length xs" using False less.prems(2) by simp
    note ih = less.hyps [OF this M(2) less.prems(2) R(1) rn(3)]
    have xs: "xs = ?P @ ?Q @ ?R" by (metis append_take_drop_id drop_drop mult_2)
    have len: "length M = min (2 * ins) (length xs)" using mset_eq_length [OF smerge_mset [OF M(1), folded mset_append]] by auto
    have "runs (key \<circ> at_cell) (2 * ins) (M @ R)"
    proof (cases "length xs < 2 * ins")
      case True
      then have "R = []" using R(1) less.prems(2) by (simp add: spass.simps)
      then show ?thesis using st len less.prems(2) runs_unfold [of "2 * ins" "key \<circ> at_cell" M] by simp
    next
      case False
      then show ?thesis using st len ih less.prems(2) runs_unfold [of "2 * ins" "key \<circ> at_cell" "M @ R"] by simp
    qed
    moreover have "filter f xs = filter f ?P @ filter f ?Q @ filter f ?R" for f by (metis xs filter_append)
    ultimately show ?thesis using st ih R(2) by simp
  qed (use less.prems in \<open>simp add: spass.simps\<close>)
qed

lemma ssort_stable:
  "good d \<Longrightarrow> 0 < ins \<Longrightarrow> ssort cmp at_cell ins xs d = Some (ys, d') \<Longrightarrow> runs (key \<circ> at_cell) ins xs \<Longrightarrow>
   sorted (map (key \<circ> at_cell) ys) \<and> (\<forall>v. filter (\<lambda>x. key (at_cell x) = v) ys = filter (\<lambda>x. key (at_cell x) = v) xs)"
proof (induction "length xs - ins" arbitrary: ins xs d rule: less_induct)
  case less
  obtain S d2 where S: "spass cmp at_cell ins xs d = Some (S, d2)" "good d2" using spass_returns [OF less.prems(1)] by blast
  note m = mset_eq_length [OF spass_mset [OF less.prems(2) S(1)]]
  note st = spass_stable [OF less.prems(1,2) S(1) less.prems(4)]
  show ?case
  proof (cases "length xs \<le> 2 * ins")
    case True
    then have "ys = S" using less.prems(2,3) S by (subst (asm) ssort.simps) simp
    then show ?thesis using st True m less.prems(2) runs_unfold [of "2 * ins" "key \<circ> at_cell" S] by simp
  next
    case False
    then have "ssort cmp at_cell (2 * ins) S d2 = Some (ys, d')" using less.prems(2,3) S by (subst (asm) ssort.simps) simp
    with less.hyps [of S "2 * ins" d2] False m less.prems(2) S(2) st show ?thesis by auto
  qed
qed

lemma mergesort_sorts:
  assumes "good d" "chain (nxt l) lst xs" "xs \<noteq> []"
  shows "\<exists>lst' l' d'. core_list_mergesort cmp lst l d = Some (lst', l', d')
    \<and> chain (nxt l') lst' (sort_key (key \<circ> info l) xs) \<and> info l' = info l \<and> good d'"
proof -
  obtain ys d' where ys: "ssort cmp (info l) 1 xs d = Some (ys, d')" "good d'" "mset ys = mset xs"
    using ssort_returns [OF assms(1), of 1 "info l" xs] by auto
  have "sort_key (key \<circ> info l) xs = ys"
    using ssort_stable [OF assms(1) _ ys(1) runs_one] ys(3)
    by (intro properties_for_sort_key) (simp_all add: eq_commute)
  with sort_loop_refines [OF ys(1) assms(2,3)] ys(2) show ?thesis by (auto simp: core_list_mergesort_def)
qed

end

interpretation by_idx: key_comparison "cmp_idx res_null" "\<lambda>d. idx d = ix \<and> results d = rs" "\<lambda>c. sint (ix c)" for res_null ix rs
  by unfold_locales (auto simp: cmp_idx_def regen_def Let_def split: if_splits)

text \<open>C23: The merge sort by index is a stable sort, on a list of any length but the empty one: the loops
  end, the heads come back linked in the order of their signed indices, equal ones as they were, the
  data pointers and the indices untouched.\<close>

theorem core_list_mergesort_by_idx:
  assumes "chain (nxt l) lst xs" "xs \<noteq> []"
  shows "case core_list_mergesort (cmp_idx res_null) lst l d of None \<Rightarrow> False
    | Some (lst', l', d') \<Rightarrow> chain (nxt l') lst' (sort_key (\<lambda>x. sint (idx d (info l x))) xs) \<and> info l' = info l \<and> idx d' = idx d"
  using by_idx.mergesort_sorts [of d "idx d" "results d", OF _ assms, of res_null] by (auto simp: comp_def)

text \<open>The empty list is not sorted but dereferenced: \<open>tail->next = NULL\<close> runs before the test that
  allows for no merges.\<close>

lemma core_list_mergesort_empty: "core_list_mergesort cmp None l d = None"
  by (simp add: core_list_mergesort_def sort_loop.simps pass_loop.simps)

section \<open>Reverse, find, remove\<close>

lemma chain_upd: "n \<notin> set xs \<Longrightarrow> chain (f(n := v)) p xs \<longleftrightarrow> chain f p xs"
  by (rule chain_cong) auto

lemma reverse_loop_chain:
  "chain (nxt l) lst xs \<Longrightarrow> chain (nxt l) acc ys \<Longrightarrow> distinct (xs @ ys) \<Longrightarrow>
   \<exists>l' p. reverse_loop l acc lst = Some (p, l') \<and> chain (nxt l') p (rev xs @ ys) \<and> info l' = info l"
proof (induction xs arbitrary: l lst acc ys)
  case Nil
  then show ?case by (subst reverse_loop.simps) simp
next
  case (Cons x xs)
  let ?l = "l\<lparr>nxt := (nxt l)(x := acc)\<rparr>"
  have "chain (nxt ?l) (nxt l x) xs" "chain (nxt ?l) (Some x) (x # ys)" using Cons.prems by (auto simp: chain_upd)
  then obtain l' p where "reverse_loop ?l (Some x) (nxt l x) = Some (p, l')" "chain (nxt l') p (rev xs @ x # ys)" "info l' = info ?l"
    using Cons.IH [of ?l "nxt l x" "Some x" "x # ys"] Cons.prems(3) by (auto simp del: fun_upd_apply)
  then show ?case using Cons.prems(1) by (subst reverse_loop.simps) auto
qed

lemma reverse_chain:
  assumes "chain (nxt l) lst xs"
  shows "\<exists>l' p. core_list_reverse l lst = Some (p, l') \<and> chain (nxt l') p (rev xs) \<and> info l' = info l"
  using reverse_loop_chain [OF assms, of None "[]"] chain_distinct [OF assms] by (simp add: core_list_reverse_def)

lemma find_loop_chain:
  "chain (nxt l) lst xs \<Longrightarrow> find_loop differs l lst = Some (List.find (\<lambda>n. \<not> differs (info l n)) xs)"
proof (induction xs arbitrary: lst)
  case (Cons x xs)
  then show ?case by (subst find_loop.simps) simp
qed (subst find_loop.simps, simp)

definition sought :: "list_data \<Rightarrow> u16 \<times> u16 \<Rightarrow> cell \<Rightarrow> bool" where
  "sought d iv c \<longleftrightarrow> (if 0 \<le> sint (fst iv) then idx d c = fst iv else data16 d c AND 0xff = snd iv)"

lemma find_chain:
  "chain (nxt l) lst xs \<Longrightarrow> core_list_find l d lst iv = Some (List.find (\<lambda>n. sought d iv (info l n)) xs)"
  by (cases iv) (simp add: core_list_find_def sought_def find_loop_chain)

text \<open>Searching and reversing follow the links of a well-formed list to its end: \<open>core_list_find\<close>
  gives the first head whose data has the wanted index, or the wanted value when the index is negative,
  or NULL; \<open>core_list_reverse\<close> gives the same heads linked backwards.\<close>

theorem core_list_find_and_reverse:
  assumes "chain (nxt l) lst xs"
  shows "core_list_find l d lst iv = Some (List.find (\<lambda>n. sought d iv (info l n)) xs)
    \<and> (case core_list_reverse l lst of None \<Rightarrow> False
       | Some (p, l') \<Rightarrow> chain (nxt l') p (rev xs) \<and> info l' = info l)"
  using find_chain [OF assms] reverse_chain [OF assms] by auto

lemma undo_remove_step:
  assumes "nxt l a = Some b" "a \<noteq> b"
  shows "\<exists>l1. core_list_remove (Some a) l = Some (Some b, l1)
    \<and> nxt l1 = (nxt l)(a := nxt l b, b := None) \<and> info l1 = (info l)(a := info l b, b := info l a)
    \<and> core_list_undo_remove (Some b) (Some a) l1 = Some (Some b, l)"
  using assms by (auto simp: core_list_remove_def core_list_undo_remove_def Let_def fun_upd_twist intro!: links.equality)

text \<open>Removing and putting back: on a list with at least two heads from the item on, \<open>core_list_remove\<close>
  unlinks the next head and moves its data into the item, so that exactly the item's data leaves the
  list, and \<open>core_list_undo_remove\<close> restores every link and every data pointer.\<close>

theorem core_list_remove_undo:
  assumes "chain (nxt l) lst (xs @ a # b # ys)"
  shows "case core_list_remove (Some a) l of None \<Rightarrow> False
    | Some (r, l1) \<Rightarrow> r = Some b \<and> chain (nxt l1) lst (xs @ a # ys)
        \<and> map (info l1) (xs @ a # ys) = map (info l) (xs @ b # ys) \<and> info l1 b = info l a
        \<and> core_list_undo_remove r (Some a) l1 = Some (Some b, l)"
proof -
  have d: "distinct (xs @ a # b # ys)" using chain_distinct [OF assms] .
  have ab: "nxt l a = Some b" "a \<noteq> b" using assms d by (auto simp: chain_append)
  obtain l1 where r: "core_list_remove (Some a) l = Some (Some b, l1)"
    "nxt l1 = (nxt l)(a := nxt l b, b := None)" "info l1 = (info l)(a := info l b, b := info l a)"
    "core_list_undo_remove (Some b) (Some a) l1 = Some (Some b, l)" using undo_remove_step [OF ab] by blast
  have "nxt l1 n = nxt l n" if "n \<in> set (butlast xs)" for n using in_set_butlastD [OF that] d r(2) by auto
  then have "seg (nxt l1) lst xs" using assms seg_cong [of xs "nxt l1" "nxt l"] by (simp add: chain_append)
  moreover have "chain (nxt l1) (nxt l b) ys" using assms d unfolding r(2)
    by (simp add: chain_append chain_upd)
  moreover have "(if xs = [] then lst else nxt l (last xs)) = Some a" using assms by (simp add: chain_append)
  moreover have "nxt l1 (last xs) = nxt l (last xs)" if "xs \<noteq> []" using that d r(2) last_in_set [OF that] by auto
  moreover have "nxt l1 a = nxt l b" using r(2) ab by simp
  ultimately have "chain (nxt l1) lst (xs @ a # ys)" by (auto simp: chain_append)
  with r d show ?thesis by (auto simp: map_eq_conv)
qed

section \<open>The comparison by content returns\<close>

text \<open>The state block is safe when it ends in two NULs and the seeds are equal and do not turn a NUL
  into a comma; then the benchmark keeps it so.\<close>

definition safe_block :: "core_results \<Rightarrow> bool" where
  "safe_block r \<longleftrightarrow> res_seed1 r = res_seed2 r \<and> ucast (res_seed1 r) \<noteq> chr CHR '',''
     \<and> (\<exists>ys. res_block3 r = ys @ [0, 0])"

lemma two_nuls: "(\<exists>ys. b = ys @ [0, 0]) \<longleftrightarrow> 2 \<le> length b \<and> b ! (length b - 2) = 0 \<and> b ! (length b - 1) = (0 :: u8)"
proof
  assume "2 \<le> length b \<and> b ! (length b - 2) = 0 \<and> b ! (length b - 1) = 0"
  then obtain xs x y where b: "b = xs @ [x, y]"
    by (metis One_nat_def append.assoc append_Cons append_Nil length_0_conv length_append_singleton
        not_less_eq_eq numeral_2_eq_2 rev_exhaust zero_le)
  with \<open>2 \<le> length b \<and> b ! (length b - 2) = 0 \<and> b ! (length b - 1) = 0\<close> show "\<exists>ys. b = ys @ [0, 0]"
    by (simp add: nth_append)
qed (auto simp: nth_append)

lemma safe_block_runs:
  assumes "safe_block r" "2 \<le> sint step"
  shows "\<exists>c blk. core_bench_state (res_block3 r) (res_seed1 r) (res_seed2 r) step crc = Some (c, blk) \<and>
    (\<exists>ys. blk = ys @ [0, 0])"
proof -
  obtain ys where b: "res_block3 r = ys @ [0, 0]" and s: "res_seed2 r = res_seed1 r" "ucast (res_seed1 r) \<noteq> chr CHR '',''"
    using assms(1) by (auto simp: safe_block_def)
  let ?b = "res_block3 r" and ?n = "nat (sint step)"
  let ?c = "corrupt_loop ?n (ucast (res_seed1 r)) 0 ?b"
  have n: "2 \<le> ?n" using assms(2) by simp
  have "\<not> (?n dvd length ys \<and> ?n dvd length ys + 1)"
    using n by (metis dvd_1_iff_1 dvd_add_right_iff nat_dvd_1_iff_1 numeral_le_one_iff semiring_norm(69))
  then consider "\<not> ?n dvd length ys" | "\<not> ?n dvd length ys + 1" by blast
  then obtain k where k: "length ys \<le> k" "k < length ?b" "\<not> ?n dvd k"
    by cases (rule that, use b in simp_all)+
  then have "?b ! k = 0" using b by (auto simp: nth_append less_Suc_eq)
  moreover have "?c ! k = ?b ! k" using k n by (subst corrupt_loop_nth) auto
  ultimately have "0 \<in> set ?c" using k(2) by (metis corrupt_loop_length nth_mem)
  moreover have "0 \<in> set ?b" using b by simp
  ultimately obtain c blk where r: "core_bench_state ?b (res_seed1 r) (res_seed2 r) step crc = Some (c, blk)"
    using core_bench_state_returns [of step ?b "res_seed1 r"] assms(2) by (metis option.exhaust prod.exhaust_sel
      less_le_trans zero_less_numeral)
  note bl = core_bench_state_block [OF r [unfolded s(1)]]
  have "blk ! i = 0" if "length ys \<le> i" "i < length ?b" for i
    using bl(2) [of i] that b s(2) by (auto simp: nth_append less_Suc_eq split: if_splits)
  then have "\<exists>ys. blk = ys @ [0, 0]" unfolding two_nuls bl(1) using b by simp
  with r show ?thesis by blast
qed

lemma calc_func_returns:
  assumes "safe_block r"
  shows "\<exists>v dat r'. calc_func data r = Some (v, dat, r') \<and> safe_block r' \<and> res_list r' = res_list r"
proof -
  let ?d = "drop_bit 3 data AND 0xf" let ?d = "?d OR push_bit 4 ?d"
  let ?step = "if sint ?d < 0x22 then 0x22 else ?d"
  have "2 \<le> sint ?step" by simp
  from safe_block_runs [OF assms this] obtain c blk where run: "core_bench_state (res_block3 r) (res_seed1 r) (res_seed2 r) ?step (res_crc r) = Some (c, blk)"
    "\<exists>ys. blk = ys @ [0, 0]" by blast
  obtain v m where mat: "core_bench_matrix (res_mat r) ?d (res_crc r) = (v, m)" by (metis prod.exhaust)
  show ?thesis
    using assms run(2) unfolding calc_func_def Let_def run(1) mat
    by (auto simp: safe_block_def)
qed

interpretation by_content: total_comparison cmp_complex
  "\<lambda>d :: list_data. safe_block (results d) \<and> idx d = ix \<and> res_list (results d) = rl" for ix rl
proof
  fix d :: list_data and a b assume d: "safe_block (results d) \<and> idx d = ix \<and> res_list (results d) = rl"
  then obtain v da r where a: "calc_func (data16 d a) (results d) = Some (v, da, r)" "safe_block r" "res_list r = res_list (results d)"
    using calc_func_returns by blast
  obtain w db r2 where "calc_func (((data16 d)(a := da)) b) r = Some (w, db, r2)" "safe_block r2" "res_list r2 = res_list r"
    using calc_func_returns [OF a(2)] by blast
  with a d show "\<exists>r d'. cmp_complex a b d = Some (r, d') \<and> safe_block (results d') \<and> idx d' = ix \<and> res_list (results d') = rl"
    by (simp add: cmp_complex_def)
qed

section \<open>The list benchmark\<close>

type_synonym find_state = "node option \<times> links \<times> u16 \<times> u16 \<times> u16 \<times> u16 \<times> u16"

text \<open>One turn of the search loop; the state is the list, the links, \<open>info.idx\<close>, \<open>info.data16\<close>,
  \<open>retval\<close>, \<open>found\<close> and \<open>missed\<close>.\<close>

definition find_round :: "list_data \<Rightarrow> nat \<Rightarrow> find_state \<Rightarrow> find_state option" where
  "find_round d i = (\<lambda>(lst, l, info_idx, info_data, retval, found, missed). do {
     let info_data = of_nat i AND 0xff;
     this_find \<leftarrow> core_list_find l d lst (info_idx, info_data);
     (lst, l) \<leftarrow> core_list_reverse l lst;
     (l, retval, found, missed) \<leftarrow>
       (case this_find of
          None \<Rightarrow> do {
            h \<leftarrow> lst;
            n \<leftarrow> nxt l h;
            Some (l, retval + (drop_bit 8 (data16 d (info l n)) AND 1), found, missed + 1)
          }
        | Some t \<Rightarrow> do {
            let found = found + 1;
            let v = data16 d (info l t);
            let retval = (if v AND 1 \<noteq> 0 then retval + (drop_bit 9 v AND 1) else retval);
            (case nxt l t of
               None \<Rightarrow> Some (l, retval, found, missed)
             | Some finder \<Rightarrow> do {
                 let l = l\<lparr>nxt := (nxt l)(t := nxt l finder)\<rparr>;
                 h \<leftarrow> lst;
                 let l = l\<lparr>nxt := (nxt l)(finder := nxt l h)\<rparr>;
                 let l = l\<lparr>nxt := (nxt l)(h := Some finder)\<rparr>;
                 Some (l, retval, found, missed)
               })
          });
     let info_idx = (if 0 \<le> sint info_idx then info_idx + 1 else info_idx);
     Some (lst, l, info_idx, info_data, retval, found, missed)
   })"

fun find_rounds :: "list_data \<Rightarrow> nat list \<Rightarrow> find_state \<Rightarrow> find_state option" where
  "find_rounds d [] s = Some s"
| "find_rounds d (i # js) s = do { s \<leftarrow> find_round d i s; find_rounds d js s }"

text \<open>The checksum loops: \<open>head\<close> is \<open>list\<close>, whose data is read on every turn.\<close>

partial_function (option) crc_walk :: "links \<Rightarrow> list_data \<Rightarrow> node \<Rightarrow> node option \<Rightarrow> u16 \<Rightarrow> u16 option" where
  "crc_walk l d head finder retval =
     (case finder of None \<Rightarrow> Some retval
      | Some f \<Rightarrow> crc_walk l d head (nxt l f) (crc16 (data16 d (info l head)) retval))"

definition core_bench_list :: "links \<Rightarrow> list_data \<Rightarrow> u16 \<Rightarrow> (u16 \<times> node option \<times> links \<times> list_data) option" where
  "core_bench_list l d finder_idx = do {
     let find_num = res_seed3 (results d);
     (lst, l, info_idx, info_data, retval, found, missed) \<leftarrow>
       find_rounds d [0..<nat (sint find_num)] (res_list (results d), l, finder_idx, 0, 0, 0, 0);
     let retval = retval + (found * 4 - missed);
     (lst, l, d) \<leftarrow> (if 0 < sint finder_idx then core_list_mergesort cmp_complex lst l d else Some (lst, l, d));
     h \<leftarrow> lst;
     (remover, l) \<leftarrow> core_list_remove (nxt l h) l;
     finder \<leftarrow> core_list_find l d lst (info_idx, info_data);
     let finder = (if finder = None then nxt l h else finder);
     retval \<leftarrow> crc_walk l d h finder retval;
     (remover, l) \<leftarrow> core_list_undo_remove remover (nxt l h) l;
     (lst, l, d) \<leftarrow> core_list_mergesort (cmp_idx True) lst l d;
     h \<leftarrow> lst;
     retval \<leftarrow> crc_walk l d h (nxt l h) retval;
     Some (retval, lst, l, d)
   }"

lemma unlink_chain:
  assumes "chain f p (as @ t # n # bs)"
  shows "chain (f(t := f n)) p (as @ t # bs)"
proof -
  have d: "distinct (as @ t # n # bs)" using chain_distinct [OF assms] .
  have "\<forall>x\<in>set (butlast as). (f(t := f n)) x = f x" using d by (auto dest!: in_set_butlastD)
  then have "seg (f(t := f n)) p as" using assms seg_cong [of as "f(t := f n)" f] by (simp add: chain_append)
  moreover have "(f(t := f n)) (last as) = f (last as)" if "as \<noteq> []" using that d last_in_set [OF that] by auto
  ultimately show ?thesis using assms d by (auto simp: chain_append chain_upd)
qed

lemma insert_chain:
  assumes "chain f p (h # ys)" "n \<notin> set (h # ys)"
  shows "chain (f(n := f h, h := Some n)) p (h # n # ys)"
  using assms chain_distinct [OF assms(1)] by (simp add: chain_upd)

lemma cache_chain:
  assumes c: "chain f (Some h) zs" and t: "t \<in> set zs" "f t = Some fd"
  defines "g \<equiv> f(t := f fd)"
  shows "\<exists>zs'. chain (g(fd := g h, h := Some fd)) (Some h) zs' \<and> mset zs' = mset zs"
proof -
  obtain as cs where s: "zs = as @ t # cs" using t(1) by (meson split_list)
  then have "chain f (Some fd) cs" using c t(2) by (simp add: chain_append)
  then obtain bs where zs: "zs = as @ t # fd # bs" using s by (cases cs) auto
  have u: "chain g (Some h) (as @ t # bs)" using c unlink_chain unfolding zs g_def by blast
  have fd: "fd \<notin> set (as @ t # bs)" using chain_distinct [OF c] zs by auto
  obtain ys where ys: "as @ t # bs = h # ys" using u by (cases as) auto
  from insert_chain [OF u [unfolded ys] fd [unfolded ys]]
  have "chain (g(fd := g h, h := Some fd)) (Some h) (h # fd # ys)" .
  moreover have "mset (h # fd # ys) = mset zs" using arg_cong [OF ys, of mset] zs by simp
  ultimately show ?thesis by blast
qed

lemma find_round_chain:
  assumes "chain (nxt l) lst xs" "2 \<le> length xs"
  shows "\<exists>lst' l' r ys. find_round d i (lst, l, r0) = Some (lst', l', r) \<and> chain (nxt l') lst' ys \<and> mset ys = mset xs \<and> info l' = info l"
proof -
  obtain ix dt rv fo mi where r0: "r0 = (ix, dt, rv, fo, mi)" by (cases r0) auto
  let ?iv = "(ix, of_nat i AND 0xff)"
  note fi = find_chain [OF assms(1), of d ?iv]
  obtain l1 p where rv: "core_list_reverse l lst = Some (p, l1)" "chain (nxt l1) p (rev xs)" "info l1 = info l"
    using reverse_chain [OF assms(1)] by blast
  obtain h n zs where z: "rev xs = h # n # zs" using assms(2)
    by (metis Suc_le_length_iff length_rev numeral_2_eq_2)
  have p: "p = Some h" "nxt l1 h = Some n" using rv(2) z by auto
  show ?thesis
  proof (cases "List.find (\<lambda>n. sought d ?iv (info l n)) xs")
    case None
    then show ?thesis using fi rv p unfolding r0 find_round_def by auto
  next
    case (Some t)
    then have t: "t \<in> set (rev xs)" by (auto simp: find_Some_iff)
    show ?thesis
    proof (cases "nxt l1 t")
      case None
      then show ?thesis using fi rv Some unfolding r0 find_round_def by (auto simp: Let_def)
    next
      case (Some fd)
      obtain zs' where zs': "chain ((nxt l1)(t := nxt l1 fd, fd := ((nxt l1)(t := nxt l1 fd)) h, h := Some fd)) (Some h) zs'"
        "mset zs' = mset xs" using cache_chain [OF rv(2) [unfolded p(1)] t Some] by auto
      then show ?thesis using fi rv p \<open>List.find _ xs = Some t\<close> Some unfolding r0 find_round_def
        by (auto simp: Let_def simp del: fun_upd_apply)
    qed
  qed
qed

lemma find_rounds_chain:
  "chain (nxt l) lst xs \<Longrightarrow> 2 \<le> length xs \<Longrightarrow>
   \<exists>lst' l' r ys. find_rounds d js (lst, l, r0) = Some (lst', l', r) \<and> chain (nxt l') lst' ys \<and> mset ys = mset xs \<and> info l' = info l"
proof (induction js arbitrary: l lst xs r0)
  case (Cons i js)
  obtain lst1 l1 r1 ys where s: "find_round d i (lst, l, r0) = Some (lst1, l1, r1)" "chain (nxt l1) lst1 ys" "mset ys = mset xs" "info l1 = info l"
    using find_round_chain [OF Cons.prems] by blast
  have "2 \<le> length ys" using s(3) Cons.prems(2) by (metis mset_eq_length)
  from Cons.IH [OF s(2) this, of r1] s show ?case by auto
qed auto

lemma find_member: "List.find P xs = None \<or> (\<exists>t\<in>set xs. List.find P xs = Some t)"
  by (induction xs) auto

lemma crc_walk_chain: "chain (nxt l) p xs \<Longrightarrow> \<exists>c. crc_walk l d h p r = Some c"
proof (induction xs arbitrary: p r)
  case (Cons x xs)
  then show ?case by (subst crc_walk.simps) simp
qed (subst crc_walk.simps, simp)

lemma core_bench_list_ok:
  assumes "chain (nxt l) (res_list (results d)) xs" "3 \<le> length xs" "safe_block (results d)"
    "sorted (map (\<lambda>x. sint (idx d (info l x))) xs)" "inj_on (\<lambda>x. sint (idx d (info l x))) (set xs)"
  shows "\<exists>crc l' d'. core_bench_list l d finder_idx = Some (crc, res_list (results d), l', d')
    \<and> chain (nxt l') (res_list (results d)) xs \<and> info l' = info l \<and> idx d' = idx d
    \<and> safe_block (results d') \<and> res_list (results d') = res_list (results d)"
proof -
  let ?rounds = "[0..<nat (sint (res_seed3 (results d)))]"
  obtain lst1 l1 ix dt rv fo mi ys where r: "find_rounds d ?rounds (res_list (results d), l, finder_idx, 0, 0, 0, 0)
      = Some (lst1, l1, ix, dt, rv, fo, mi)" "chain (nxt l1) lst1 ys" "mset ys = mset xs" "info l1 = info l"
    using find_rounds_chain [OF assms(1), of d ?rounds "(finder_idx, 0, 0, 0, 0)"] assms(2) by auto
  have ne: "ys \<noteq> []" using r(3) assms(2) by auto
  obtain lst2 l2 d2 zs where s: "(if 0 < sint finder_idx then core_list_mergesort cmp_complex lst1 l1 d else Some (lst1, l1, d))
      = Some (lst2, l2, d2)" "chain (nxt l2) lst2 zs" "mset zs = mset xs" "info l2 = info l" "idx d2 = idx d"
      "safe_block (results d2)" "res_list (results d2) = res_list (results d)"
    using by_content.mergesort_returns [of d "idx d" "res_list (results d)" l1 lst1 ys] r assms(3) ne
    by (cases "0 < sint finder_idx") auto
  have "3 \<le> length zs" using s(3) assms(2) by (metis mset_eq_length)
  then obtain h a b qs where z: "zs = [h] @ a # b # qs" by (auto simp: Suc_le_length_iff numeral_3_eq_3)
  have h: "lst2 = Some h" "nxt l2 h = Some a" "nxt l2 a = Some b" "h \<noteq> a" "a \<noteq> b" "h \<noteq> b"
    using s(2) z chain_distinct [OF s(2)] by auto
  obtain l3 where l3: "core_list_remove (Some a) l2 = Some (Some b, l3)" "nxt l3 = (nxt l2)(a := nxt l2 b, b := None)"
    "core_list_undo_remove (Some b) (Some a) l3 = Some (Some b, l2)" using undo_remove_step [OF h(3,5)] by blast
  have c3: "chain (nxt l3) lst2 (h # a # qs)"
    using s(2) z chain_distinct [OF s(2)] l3(2) by (simp add: chain_upd)
  obtain f where f: "core_list_find l3 d2 lst2 (ix, dt) = Some f" "f = None \<or> (\<exists>t\<in>set (h # a # qs). f = Some t)"
    using find_chain [OF c3] find_member by metis
  have "\<exists>ws. chain (nxt l3) (if f = None then nxt l3 h else f) ws"
  proof (cases f)
    case (Some t)
    then obtain as bs where "h # a # qs = as @ t # bs" using f(2) by (metis option.distinct(1) option.inject split_list)
    then have "chain (nxt l3) (Some t) (t # bs)" using c3 by (simp add: chain_append)
    then show ?thesis using Some by (intro exI [of _ "t # bs"]) simp
  qed (use c3 in \<open>auto intro: exI [of _ "a # qs"]\<close>)
  then obtain c where c: "crc_walk l3 d2 h (if f = None then nxt l3 h else f) (rv + (fo * 4 - mi)) = Some c"
    using crc_walk_chain by blast
  have n3: "nxt l3 h = Some a" using l3(2) h by simp
  have srt: "sort_key ((\<lambda>c. sint (idx d2 c)) \<circ> info l2) zs = xs"
    using assms(4,5) s(3-5) mset_eq_setD [OF s(3)] by (intro sort_key_inj_key_eq) (auto simp: comp_def)
  obtain lst4 l4 d4 where m: "core_list_mergesort (cmp_idx True) lst2 l2 d2 = Some (lst4, l4, d4)"
    "chain (nxt l4) lst4 xs" "info l4 = info l2" "idx d4 = idx d2" "results d4 = results d2"
    using by_idx.mergesort_sorts [of d2 "idx d2" "results d2", OF _ s(2), of True] z unfolding srt by auto
  have "lst4 = res_list (results d)" using m(2) assms(1,2) by (cases xs) auto
  obtain x ws where x: "lst4 = Some x" "chain (nxt l4) (nxt l4 x) ws" using m(2) assms(2) by (cases xs) auto
  obtain c' where "crc_walk l4 d4 x (nxt l4 x) c = Some c'" using crc_walk_chain [OF x(2)] by blast
  then have "core_bench_list l d finder_idx = Some (c', lst4, l4, d4)"
    unfolding core_bench_list_def Let_def r(1) bind.bind_lunit prod.case s(1)
    using h l3 f(1) c n3 m(1) x(1) by simp
  with m s \<open>lst4 = res_list (results d)\<close> show ?thesis by simp
qed

text \<open>C21: The list benchmark gives the list back: on a well-formed list of three heads or more, in the
  order of its distinct indices, with a safe state block, it returns, for any number of searches and
  whether or not it sorts by content in between, and the same heads are linked in the same order again,
  each with its data pointer and its index.\<close>

theorem core_bench_list_restores:
  assumes "chain (nxt l) (res_list (results d)) xs" "3 \<le> length xs" "safe_block (results d)"
    "sorted (map (\<lambda>x. sint (idx d (info l x))) xs)" "inj_on (\<lambda>x. sint (idx d (info l x))) (set xs)"
  shows "case core_bench_list l d finder_idx of None \<Rightarrow> False
    | Some (crc, lst', l', d') \<Rightarrow> chain (nxt l') lst' xs \<and> info l' = info l \<and> idx d' = idx d"
  using core_bench_list_ok [OF assms, of finder_idx] by auto

definition three_heads :: links where
  "three_heads = \<lparr>nxt = (\<lambda>_. None)(0 := Some 1, 1 := Some 2), info = \<lambda>n. n\<rparr>"

definition three_items :: list_data where
  "three_items = \<lparr>data16 = (\<lambda>_. 0), idx = of_nat,
     results = \<lparr>res_seed1 = 0, res_seed2 = 0, res_seed3 = 4, res_block3 = [49, 44, 0, 0], res_list = Some 0,
       res_mat = \<lparr>mat_n = 0, mat_a = \<lambda>_. 0, mat_b = \<lambda>_. 0, mat_c = \<lambda>_. 0\<rparr>, res_crc = 0, res_crclist = 0,
       res_crcmatrix = 0, res_crcstate = 0\<rparr>\<rparr>"

lemma core_bench_list_restores_witness:
  "case core_bench_list three_heads three_items 1 of None \<Rightarrow> False
    | Some (crc, lst', l', d') \<Rightarrow> chain (nxt l') lst' [0, 1, 2] \<and> info l' = info three_heads \<and> idx d' = idx three_items"
  by (rule core_bench_list_restores) (simp_all add: three_heads_def three_items_def safe_block_def)

lemma core_list_mergesort_by_idx_witness:
  "case core_list_mergesort (cmp_idx True) (Some 0) three_heads three_items of None \<Rightarrow> False
    | Some (lst', l', d') \<Rightarrow> chain (nxt l') lst' (sort_key (\<lambda>x. sint (idx three_items (info three_heads x))) [0, 1, 2])
        \<and> info l' = info three_heads \<and> idx d' = idx three_items"
  by (rule core_list_mergesort_by_idx) (simp_all add: three_heads_def)

lemma core_list_mergesort_refines_witness:
  "case core_list_mergesort (\<lambda>a b n. Some (int b - int a, n + 1)) (Some 0) three_heads (0 :: nat) of None \<Rightarrow> False
    | Some (lst', l', e) \<Rightarrow> e = 2 \<and> chain (nxt l') lst' [2, 1, 0] \<and> info l' = info three_heads"
  by (rule core_list_mergesort_refines [of _ _ "[0, 1, 2]"])
    (simp_all add: three_heads_def ssort.simps spass.simps)

lemma core_list_find_and_reverse_witness:
  "core_list_find three_heads three_items (Some 0) (2, 0) = Some (List.find (\<lambda>n. sought three_items (2, 0) (info three_heads n)) [0, 1, 2])
    \<and> (case core_list_reverse three_heads (Some 0) of None \<Rightarrow> False
       | Some (p, l') \<Rightarrow> chain (nxt l') p (rev [0, 1, 2]) \<and> info l' = info three_heads)"
  by (rule core_list_find_and_reverse) (simp add: three_heads_def)

lemma core_list_remove_undo_witness:
  "case core_list_remove (Some 1) three_heads of None \<Rightarrow> False
    | Some (r, l1) \<Rightarrow> r = Some 2 \<and> chain (nxt l1) (Some 0) ([0] @ 1 # [])
        \<and> map (info l1) ([0] @ 1 # []) = map (info three_heads) ([0] @ 2 # []) \<and> info l1 2 = info three_heads 1
        \<and> core_list_undo_remove r (Some 1) l1 = Some (Some 2, three_heads)"
  by (rule core_list_remove_undo) (simp add: three_heads_def)

section \<open>Building the list\<close>

text \<open>\<open>core_list_init\<close>. The insertion loop, from \<open>i\<close> on; the free pointers, links and data are threaded.\<close>

definition item_data :: "u16 \<Rightarrow> u32 \<Rightarrow> u16" where
  "item_data seed i =
     (let datpat = ucast (scast seed XOR i) AND 0xf;
          dat = push_bit 3 datpat OR ucast (i AND 0x7)
      in push_bit 8 dat OR dat)"

definition insert_items :: "u16 \<Rightarrow> nat \<Rightarrow> nat \<times> nat \<times> links \<times> list_data \<Rightarrow> nat \<times> nat \<times> links \<times> list_data" where
  "insert_items seed sz s =
     fold (\<lambda>i s. snd (core_list_insert_new 0 (0x7fff, item_data seed (of_nat i)) sz sz s)) [0..<sz] s"

partial_function (option) index_loop :: "u16 \<Rightarrow> u32 \<Rightarrow> links \<Rightarrow> node option \<Rightarrow> u32 \<Rightarrow> list_data \<Rightarrow> list_data option" where
  "index_loop seed sz l finder i d = do {
     f \<leftarrow> finder;
     if nxt l f = None then Some d
     else if i < sz div 5 then index_loop seed sz l (nxt l f) (i + 1) (d\<lparr>idx := (idx d)(info l f := ucast i)\<rparr>)
     else
       let pat = ucast (i XOR scast seed) :: u16;
           i = i + 1;
           v = ucast (0x3fff AND (push_bit 8 (i AND 0x07) OR ucast pat))
       in index_loop seed sz l (nxt l f) i (d\<lparr>idx := (idx d)(info l f := v)\<rparr>)
   }"

definition list_size :: "u32 \<Rightarrow> u32" where
  "list_size blksize = (let per_item = 16 + 4 in blksize div per_item - 2)"

definition core_list_init :: "u32 \<Rightarrow> u16 \<Rightarrow> links \<Rightarrow> list_data \<Rightarrow> (node option \<times> links \<times> list_data) option" where
  "core_list_init blksize seed l d =
     (let sz = list_size blksize;
          lst = 0;
          l = l\<lparr>nxt := (nxt l)(lst := None)\<rparr>;
          l = l\<lparr>info := (info l)(lst := 0)\<rparr>;
          d = d\<lparr>idx := (idx d)(info l lst := 0x0000)\<rparr>;
          d = d\<lparr>data16 := (data16 d)(info l lst := 0x8080)\<rparr>;
          (tail, s) = core_list_insert_new lst (0x7fff, 0xffff) (unat sz) (unat sz) (1, 1, l, d);
          (mb, db, l, d) = insert_items seed (unat sz) s
      in do {
        d \<leftarrow> index_loop seed sz l (nxt l lst) 1 d;
        core_list_mergesort (cmp_idx True) (Some lst) l d
      })"

definition built :: "nat \<Rightarrow> nat \<times> nat \<times> links \<times> list_data \<Rightarrow> bool" where
  "built mb s = (case s of (m, b, l, d) \<Rightarrow> m = mb \<and> b = mb \<and> 1 \<le> mb \<and> chain (nxt l) (Some 0) (0 # rev [1..<mb])
     \<and> (\<forall>x<mb. info l x = x) \<and> idx d 0 = 0 \<and> (\<forall>x. 1 \<le> x \<and> x < mb \<longrightarrow> idx d x = 0x7fff))"

lemma insert_built:
  assumes "built mb s"
  shows "built (if sz \<le> mb + 1 then mb else mb + 1) (snd (core_list_insert_new 0 (0x7fff, v) sz sz s))"
proof (cases "sz \<le> mb + 1")
  case False
  obtain l d where s: "s = (mb, mb, l, d)" and c: "chain (nxt l) (Some 0) (0 # rev [1..<mb])" "1 \<le> mb"
    "\<forall>x<mb. info l x = x" "idx d 0 = 0" "\<forall>x. 1 \<le> x \<and> x < mb \<longrightarrow> idx d x = 0x7fff"
    using assms by (cases s) (auto simp: built_def)
  have "chain ((nxt l)(mb := nxt l 0, 0 := Some mb)) (Some 0) (0 # mb # rev [1..<mb])"
    using insert_chain [OF c(1), of mb] c(2) by auto
  then show ?thesis using c False
    by (auto simp: built_def s core_list_insert_new_def copy_info_def Let_def less_Suc_eq)
qed (use assms in \<open>auto simp: core_list_insert_new_def built_def\<close>)

lemma insert_items_built:
  "built mb s \<Longrightarrow> 2 \<le> mb \<Longrightarrow> mb < sz \<Longrightarrow>
   built (min (sz - 1) (mb + length js)) (fold (\<lambda>i s. snd (core_list_insert_new 0 (0x7fff, item_data seed (of_nat i)) sz sz s)) js s)"
proof (induction js arbitrary: mb s)
  case (Cons j js)
  note b = insert_built [OF Cons.prems(1), of sz "item_data seed (of_nat j)"]
  show ?case
  proof (cases "sz \<le> mb + 1")
    case True
    then have e: "min (sz - 1) (mb + length (j # js)) = min (sz - 1) (mb + length js)" using Cons.prems by simp
    show ?thesis unfolding fold.simps o_apply e
      by (rule Cons.IH) (use b True Cons.prems in simp_all)
  next
    case False
    with Cons.IH [of "mb + 1"] b Cons.prems show ?thesis by simp
  qed
qed (simp add: min.absorb2)

definition item_index :: "u16 \<Rightarrow> bool" where
  "item_index v \<longleftrightarrow> 0 \<le> sint v \<and> sint v < 0x7fff"

lemma small_item_index:
  assumes "unat v < 0x7fff"
  shows "item_index v"
proof -
  have "int (unat v) < 0x7fff" using assms by linarith
  then have u: "uint v < 0x7fff" by simp
  have "sint v = (uint v + 2 ^ 15) mod 2 ^ 16 - 2 ^ 15" using int_word_sint [of "uint v", where 'a = 16] by simp
  also have "\<dots> = uint v" using u by simp
  finally show ?thesis using u by (simp add: item_index_def)
qed

lemma masked_item_index: "item_index (ucast (0x3fff AND w :: u32))"
proof -
  have m: "(0x3fff :: u32) = mask 14" by (simp add: mask_eq_exp_minus_1)
  have "unat (take_bit 14 w) = take_bit 14 (unat w)" by (rule unsigned_take_bit_eq)
  then have "unat (take_bit 14 w) < 2 ^ 14" using take_bit_nat_less_exp by metis
  then have "unat (ucast (take_bit 14 w) :: u16) < 2 ^ 14" by (simp add: unsigned_ucast_eq take_bit_nat_eq_self)
  then show ?thesis unfolding m by (intro small_item_index) (simp add: and.commute flip: take_bit_eq_mask)
qed

lemma index_loop_chain:
  "chain (nxt l) p ys \<Longrightarrow> ys \<noteq> [] \<Longrightarrow> distinct (map (info l) ys) \<Longrightarrow> unat sz \<le> 2 ^ 15 \<Longrightarrow>
   \<exists>d'. index_loop seed sz l p i d = Some d' \<and> (\<forall>c. c \<notin> info l ` set (butlast ys) \<longrightarrow> idx d' c = idx d c)
     \<and> (\<forall>c\<in>info l ` set (butlast ys). item_index (idx d' c))"
proof (induction ys arbitrary: p i d)
  case (Cons y ys)
  show ?case
  proof (cases ys)
    case Nil
    then show ?thesis using Cons.prems(1) by (subst index_loop.simps) simp
  next
    case (Cons z zs)
    define v where "v = (if i < sz div 5 then ucast i else
      ucast (0x3fff AND (push_bit 8 ((i + 1) AND 0x07) OR ucast (ucast (i XOR scast seed) :: u16))) :: u16)"
    have v: "item_index v"
    proof (cases "i < sz div 5")
      case True
      then have "unat i < 2 ^ 15 div 5" using Cons.prems(4) unat_div [of sz 5] div_le_mono [of "unat sz" "2 ^ 15" 5]
        by (simp add: word_less_nat_alt)
      then show ?thesis using True unfolding v_def
        by (intro small_item_index) (simp add: unsigned_ucast_eq take_bit_nat_eq_self)
    qed (simp add: v_def masked_item_index)
    have step: "index_loop seed sz l p i d = index_loop seed sz l (nxt l y) (i + 1) (d\<lparr>idx := (idx d)(info l y := v)\<rparr>)"
      using Cons.prems(1) Cons by (subst index_loop.simps) (simp add: v_def Let_def)
    obtain d' where d': "index_loop seed sz l p i d = Some d'"
      "\<forall>c. c \<notin> info l ` set (butlast ys) \<longrightarrow> idx d' c = ((idx d)(info l y := v)) c"
      "\<forall>c\<in>info l ` set (butlast ys). item_index (idx d' c)"
      unfolding step using Cons.IH [of "nxt l y" "i + 1" "d\<lparr>idx := (idx d)(info l y := v)\<rparr>"] Cons.prems Cons by auto
    have "info l y \<notin> info l ` set (butlast ys)" using Cons.prems(3) by (auto dest!: in_set_butlastD)
    then have "idx d' (info l y) = v" using d'(2) by simp
    then show ?thesis using d' v Cons by auto
  qed
qed simp

lemma sorted_last: "sorted (map f xs) \<Longrightarrow> x \<in> set xs \<Longrightarrow> f x \<le> f (last xs)"
  by (induction xs) auto

text \<open>C24: \<open>core_list_init\<close> builds a well-formed list: for a block with room for at least three heads and
  fewer than 32768, the links run through every head it allotted, each once, all inside the block, head
  \<open>k\<close> owning data item \<open>k\<close>; the special head comes first, the tail with index \<open>0x7fff\<close> last, and the
  signed indices ascend.\<close>

theorem core_list_init_well_formed:
  assumes "3 \<le> unat (list_size blksize)" "unat (list_size blksize) \<le> 2 ^ 15"
  shows "case core_list_init blksize seed l d of None \<Rightarrow> False
    | Some (lst', l', d') \<Rightarrow> (\<exists>xs. chain (nxt l') lst' xs \<and> mset xs = mset [0..<unat (list_size blksize) - 1]
        \<and> hd xs = 0 \<and> last xs = 1 \<and> map (info l') xs = xs \<and> sorted (map (\<lambda>x. sint (idx d' x)) xs))"
proof -
  let ?n = "unat (list_size blksize)"
  define l0 where "l0 = l\<lparr>nxt := (nxt l)(0 := None), info := (info l)(0 := 0)\<rparr>"
  define d0 where "d0 = d\<lparr>idx := (idx d)(0 := 0x0000), data16 := (data16 d)(0 := 0x8080)\<rparr>"
  have "built 1 (1, 1, l0, d0)" by (simp add: built_def l0_def d0_def)
  from insert_built [OF this, of ?n "0xffff"] assms
  have "built 2 (snd (core_list_insert_new 0 (0x7fff, 0xffff) ?n ?n (1, 1, l0, d0)))" by (simp add: numeral_2_eq_2)
  from insert_items_built [OF this, of ?n "[0..<?n]" seed] assms
  have b: "built (?n - 1) (insert_items seed ?n (snd (core_list_insert_new 0 (0x7fff, 0xffff) ?n ?n (1, 1, l0, d0))))"
    by (simp add: insert_items_def min_absorb1)
  then obtain m b l1 d1 where s: "insert_items seed ?n (snd (core_list_insert_new 0 (0x7fff, 0xffff) ?n ?n (1, 1, l0, d0))) = (m, b, l1, d1)"
    by (metis prod_cases4)
  let ?ys = "rev [1..<?n - 1]" let ?zs = "rev [2..<?n - 1]"
  have c: "chain (nxt l1) (Some 0) (0 # ?ys)" "\<forall>x<?n - 1. info l1 x = x" "idx d1 0 = 0"
    "\<forall>x. 1 \<le> x \<and> x < ?n - 1 \<longrightarrow> idx d1 x = 0x7fff" using b unfolding s built_def by auto
  have ys: "?ys = ?zs @ [1]" using assms(1) upt_conv_Cons [of 1 "?n - 1"] by (simp add: numeral_2_eq_2)
  have im: "map (info l1) ?ys = ?ys" using c(2) by (intro map_idI) auto
  have bl: "butlast ?ys = ?zs" and ne: "?ys \<noteq> []" unfolding ys by simp_all
  have di: "distinct (map (info l1) ?ys)" unfolding im by simp
  have ch: "chain (nxt l1) (nxt l1 0) ?ys" using c(1) by simp
  obtain d2 where d2: "index_loop seed (list_size blksize) l1 (nxt l1 0) 1 d1 = Some d2"
    "\<forall>c. c \<notin> info l1 ` set ?zs \<longrightarrow> idx d2 c = idx d1 c" "\<forall>c\<in>info l1 ` set ?zs. item_index (idx d2 c)"
    using index_loop_chain [OF ch ne di assms(2), of seed 1 d1] unfolding bl by blast
  have iz: "info l1 ` set ?zs = {2..<?n - 1}" using c(2) by (auto simp: image_iff)
  have k: "idx d2 0 = 0" "idx d2 1 = 0x7fff" "\<forall>x\<in>{2..<?n - 1}. item_index (idx d2 x)"
    using d2(2,3) c(3,4) assms(1) unfolding iz by auto
  let ?f = "\<lambda>x. sint (idx d2 (info l1 x))" and ?xs = "0 # ?ys"
  have f: "?f 0 = 0" "?f 1 = 0x7fff" "\<forall>x\<in>set ?zs. 0 \<le> ?f x \<and> ?f x < 0x7fff"
    using k c(2) assms(1) by (auto simp: item_index_def)
  let ?s = "sort_key ?f ?xs"
  obtain lst' l' d' where m: "core_list_mergesort (cmp_idx True) (Some 0) l1 d2 = Some (lst', l', d')"
    "chain (nxt l') lst' ?s" "info l' = info l1" "idx d' = idx d2"
    using by_idx.mergesort_sorts [of d2 "idx d2" "results d2", OF _ c(1), of True] by (auto simp: comp_def)
  have in_s: "x < ?n - 1" if "x \<in> set ?s" for x
    using that assms(1) by (simp only: set_sort) auto
  have h: "hd ?s = 0"
  proof -
    have "\<forall>x\<in>set (sort_key ?f ?ys). ?f 0 \<le> ?f x" using f unfolding ys by auto
    then have "?s = 0 # sort_key ?f ?ys" by (simp add: insort_is_Cons)
    then show ?thesis by simp
  qed
  have la: "last ?s = 1"
  proof (rule ccontr)
    assume "last ?s \<noteq> 1"
    moreover have ne: "?s \<noteq> []" by (metis length_sort list.discI list.size(3) length_0_conv)
    moreover have set_s: "set ?s = insert 0 (insert 1 (set ?zs))" by (simp only: set_sort ys) auto
    ultimately have "?f (last ?s) < ?f 1" using f last_in_set [OF ne] by auto
    moreover have "1 \<in> set ?s" unfolding set_s by simp
    then have "?f 1 \<le> ?f (last ?s)" by (intro sorted_last sorted_sort_key)
    ultimately show False by simp
  qed
  have id_s: "info l1 x = x" if "x \<in> set ?s" for x using in_s [OF that] c(2) by blast
  have map_s: "map (info l') ?s = ?s" unfolding m(3) by (rule map_idI) (rule id_s)
  have "map (\<lambda>x. sint (idx d' x)) ?s = map ?f ?s" unfolding m(4)
  proof (rule map_cong [OF HOL.refl])
    fix x assume "x \<in> set ?s"
    then show "sint (idx d2 x) = ?f x" by (simp only: id_s)
  qed
  then have srt: "sorted (map (\<lambda>x. sint (idx d' x)) ?s)" using sorted_sort_key by metis
  have ms: "mset ?s = mset [0..<?n - 1]" using assms(1) upt_conv_Cons [of 0 "?n - 1"] by simp
  have "core_list_init blksize seed l d = Some (lst', l', d')"
  proof -
    have e: "core_list_init blksize seed l d = (case core_list_insert_new 0 (0x7fff, 0xffff) ?n ?n (1, 1, l0, d0) of (t, s) \<Rightarrow>
      case insert_items seed ?n s of (m, b, l, d) \<Rightarrow> do {
        d \<leftarrow> index_loop seed (list_size blksize) l (nxt l 0) 1 d; core_list_mergesort (cmp_idx True) (Some 0) l d })"
      by (simp add: core_list_init_def Let_def l0_def d0_def)
    show ?thesis by (simp only: e case_prod_beta s fst_conv snd_conv d2(1) bind.bind_lunit m(1))
  qed
  note r = this
  show ?thesis unfolding r option.case prod.case using m(2) h la map_s srt ms by blast
qed

lemma core_list_init_well_formed_witness:
  "case core_list_init 200 0x66 three_heads three_items of None \<Rightarrow> False
    | Some (lst', l', d') \<Rightarrow> (\<exists>xs. chain (nxt l') lst' xs \<and> mset xs = mset [0..<unat (list_size 200) - 1]
        \<and> hd xs = 0 \<and> last xs = 1 \<and> map (info l') xs = xs \<and> sorted (map (\<lambda>x. sint (idx d' x)) xs))"
  by (rule core_list_init_well_formed) (simp_all add: list_size_def)

text \<open>A block too small for the size computation: the subtraction wraps, and the loops are set up for
  four thousand million heads.\<close>

lemma list_size_wraps: "list_size 39 = 0xffffffff"
  by (simp add: list_size_def)

end
