(* ===== verification/Self_Tests.thy ===== *)
theory Self_Tests
  imports Pmp Trap Runtime
begin

text \<open>
  The two self-checking cases that exercise the drivers against the hart:
  verif/ip/S5740/PMP/violation and verif/ip/S5740/EXCEPTION/traps. Their code is modelled on the
  models of pmp.c, exceptions.c and boot.c. The hart is not code of this repository: a memory access
  or a trapping instruction follows the privileged specification, on the CSRs \<open>rd\<close> and \<open>wr\<close> of the
  PMP driver, and enters \<open>trap_dispatch\<close> the way trap_entry.S does. Where an instruction is placed is
  an argument.
\<close>

section \<open>The hart\<close>

definition bind_run :: "('a, 's) outcome \<Rightarrow> ('a \<Rightarrow> 's \<Rightarrow> ('b, 's) outcome) \<Rightarrow> ('b, 's) outcome" where
  "bind_run m f = (case m of Done a s \<Rightarrow> f a s | Exited c s \<Rightarrow> Exited c s | Undefined \<Rightarrow> Undefined)"

lemma bind_run_simps [simp]:
  "bind_run (Done a s) f = f a s" "bind_run (Exited c s) f = Exited c s" "bind_run Undefined f = Undefined"
  by (simp_all add: bind_run_def)

text \<open>The state of a case: the processor, the PMP unit, the mask of failed checks, the console.\<close>

record ('w, 's) rig =
  r_cpu :: "'w cpu"
  r_pmp :: 's
  fail_mask :: u32
  r_console :: string

definition set_cpu :: "('w cpu \<Rightarrow> 'w cpu) \<Rightarrow> ('w, 's) rig \<Rightarrow> ('w, 's) rig" where
  "set_cpu f r = r\<lparr>r_cpu := f (r_cpu r)\<rparr>"

text \<open>A synchronous exception at \<open>pc\<close>. Returning behind the instruction resumes the case; returning
  anywhere else is code the model does not have.\<close>

definition take_trap :: "'w exc_call \<Rightarrow> 'w isr_call \<Rightarrow> u32 \<Rightarrow> u32 \<Rightarrow> u32 \<Rightarrow> ('w, 's) rig \<Rightarrow> (unit, ('w, 's) rig) outcome" where
  "take_trap ecall icall cause tval pc r =
     (case trap_dispatch ecall icall cause \<lparr>mepc = pc, tf_x = []\<rparr> ((r_cpu r)\<lparr>cpu_mtval := tval\<rparr>) of
        Done f c \<Rightarrow> if mepc f = pc + trap_insn_len (cpu_mem (r_cpu r)) pc then Done () (r\<lparr>r_cpu := c\<rparr>) else Undefined
      | Exited code c \<Rightarrow> Exited code (r\<lparr>r_cpu := c\<rparr>)
      | Undefined \<Rightarrow> Undefined)"

text \<open>The PMP check of an M-mode access: the lowest entry that matches decides, and only if locked.\<close>

definition pmp_hits :: "'s csr_read \<Rightarrow> u32 \<Rightarrow> 's \<Rightarrow> u32 \<Rightarrow> bool" where
  "pmp_hits rd a s j =
     (if pmpcfg_read_byte rd j s AND 0x18 = 0x08
      then (if j = 0 then 0 else pmpaddr_read rd (j - 1) s) \<le> drop_bit 2 a \<and> drop_bit 2 a < pmpaddr_read rd j s
      else pmp_covers (pmpcfg_read_byte rd j s) (pmpaddr_read rd j s) a)"

definition pmp_allows :: "'s csr_read \<Rightarrow> u32 \<Rightarrow> u32 \<Rightarrow> 's \<Rightarrow> bool" where
  "pmp_allows rd perm a s =
     (case List.find (pmp_hits rd a s) [0, 1, 2, 3, 4, 5, 6, 7] of
        None \<Rightarrow> True
      | Some j \<Rightarrow> \<not> pmp_entry_locked rd j s \<or> pmpcfg_read_byte rd j s AND perm \<noteq> 0)"

definition CAUSE_ILLEGAL_INSTRUCTION :: u32 where "CAUSE_ILLEGAL_INSTRUCTION = 0x2"
definition CAUSE_BREAKPOINT :: u32 where "CAUSE_BREAKPOINT = 0x3"
definition CAUSE_MISALIGNED_LOAD :: u32 where "CAUSE_MISALIGNED_LOAD = 0x4"
definition CAUSE_LOAD_ACCESS :: u32 where "CAUSE_LOAD_ACCESS = 0x5"
definition CAUSE_MISALIGNED_STORE :: u32 where "CAUSE_MISALIGNED_STORE = 0x6"
definition CAUSE_STORE_ACCESS :: u32 where "CAUSE_STORE_ACCESS = 0x7"
definition CAUSE_MACHINE_ECALL :: u32 where "CAUSE_MACHINE_ECALL = 0xb"

lemmas cause_defs = CAUSE_ILLEGAL_INSTRUCTION_def CAUSE_BREAKPOINT_def CAUSE_MISALIGNED_LOAD_def CAUSE_LOAD_ACCESS_def
  CAUSE_MISALIGNED_STORE_def CAUSE_STORE_ACCESS_def CAUSE_MACHINE_ECALL_def

text \<open>The environment of a case: the functions the exception layer may call.\<close>

type_synonym 'w calls = "'w exc_call \<times> 'w isr_call"

definition trap_at :: "'w calls \<Rightarrow> u32 \<Rightarrow> u32 \<Rightarrow> u32 \<Rightarrow> ('w, 's) rig \<Rightarrow> (unit, ('w, 's) rig) outcome" where
  "trap_at k = take_trap (fst k) (snd k)"

definition store_word :: "'s csr_read \<Rightarrow> 'w calls \<Rightarrow> u32 \<Rightarrow> u32 \<Rightarrow> u32 \<Rightarrow> ('w, 's) rig \<Rightarrow> (unit, ('w, 's) rig) outcome" where
  "store_word rd k pc a v r =
     (if a AND 3 \<noteq> 0 then trap_at k CAUSE_MISALIGNED_STORE a pc r
      else if \<not> pmp_allows rd 2 a (r_pmp r) then trap_at k CAUSE_STORE_ACCESS a pc r
      else Done () (set_cpu (\<lambda>c. c\<lparr>cpu_mem := st32 (cpu_mem c) a v\<rparr>) r))"

text \<open>A load gives the word, or nothing new when the trap skipped it.\<close>

definition load_word :: "'s csr_read \<Rightarrow> 'w calls \<Rightarrow> u32 \<Rightarrow> u32 \<Rightarrow> ('w, 's) rig \<Rightarrow> (u32 option, ('w, 's) rig) outcome" where
  "load_word rd k pc a r =
     (if a AND 3 \<noteq> 0 then bind_run (trap_at k CAUSE_MISALIGNED_LOAD a pc r) (\<lambda>_. Done None)
      else if \<not> pmp_allows rd 1 a (r_pmp r) then bind_run (trap_at k CAUSE_LOAD_ACCESS a pc r) (\<lambda>_. Done None)
      else Done (Some (ld32 (cpu_mem (r_cpu r)) a)) r)"

section \<open>What both cases share\<close>

definition check :: "u32 \<Rightarrow> bool \<Rightarrow> ('w, 's) rig \<Rightarrow> ('w, 's) rig" where
  "check b ok r = (if \<not> ok then r\<lparr>fail_mask := fail_mask r OR b\<rparr> else r)"

definition put_text :: "string \<Rightarrow> ('w, 's) rig \<Rightarrow> ('w, 's) rig" where
  "put_text t r = r\<lparr>r_console := r_console r @ t\<rparr>"

definition matched :: "('w, 's) rig \<Rightarrow> bool \<times> ('w, 's) rig" where
  "matched r = (let (hit, c) = exception_matched (r_cpu r) in (hit, r\<lparr>r_cpu := c\<rparr>))"

text \<open>\<open>htif_puthex\<close>: eight digits.\<close>

definition puthex :: "u32 \<Rightarrow> ('w, 's) rig \<Rightarrow> ('w, 's) rig" where
  "puthex v = put_text (map (\<lambda>i. ''0123456789abcdef'' ! unat (drop_bit (4 * i) v AND 0xF)) [7, 6, 5, 4, 3, 2, 1, 0])"

section \<open>PMP_violation.c\<close>

definition PMP_TEST_BASE :: u32 where "PMP_TEST_BASE = 0x80020000"
definition PMP_TEST_SIZE :: u32 where "PMP_TEST_SIZE = 0x1000"
definition PMP_TEST_IDX :: u32 where "PMP_TEST_IDX = 0"
definition PMP_FREE_ADDR :: u32 where "PMP_FREE_ADDR = 0x80030000"
definition PMP_PERM_NONE :: u32 where "PMP_PERM_NONE = 0"

lemmas pmp_test_defs = PMP_TEST_BASE_def PMP_TEST_SIZE_def PMP_TEST_IDX_def PMP_FREE_ADDR_def PMP_PERM_NONE_def

text \<open>Where the compiler placed the accesses.\<close>

record pmp_layout =
  at_store_violation :: u32
  at_load_violation :: u32
  at_unlocked_store :: u32
  at_unlocked_load :: u32
  at_free_store :: u32
  at_free_load :: u32

definition PMP_T_ENCODE :: u32 where "PMP_T_ENCODE = 0x1"
definition PMP_T_ARGCHECK :: u32 where "PMP_T_ARGCHECK = 0x2"
definition PMP_T_READBACK :: u32 where "PMP_T_READBACK = 0x4"
definition PMP_T_UNLOCKED :: u32 where "PMP_T_UNLOCKED = 0x8"
definition PMP_T_STORE_FAULT :: u32 where "PMP_T_STORE_FAULT = 0x10"
definition PMP_T_LOAD_FAULT :: u32 where "PMP_T_LOAD_FAULT = 0x20"
definition PMP_T_MTVAL :: u32 where "PMP_T_MTVAL = 0x40"
definition PMP_T_LOCK_STICKY :: u32 where "PMP_T_LOCK_STICKY = 0x80"
definition PMP_T_NOMATCH_OK :: u32 where "PMP_T_NOMATCH_OK = 0x100"

definition do_store_violation :: "'s csr_read \<Rightarrow> 'w calls \<Rightarrow> pmp_layout \<Rightarrow> ('w, 's) rig \<Rightarrow> (unit, ('w, 's) rig) outcome" where
  "do_store_violation rd k at r = store_word rd k (at_store_violation at) PMP_TEST_BASE 0xDEADBEEF r"

definition do_load_violation :: "'s csr_read \<Rightarrow> 'w calls \<Rightarrow> pmp_layout \<Rightarrow> ('w, 's) rig \<Rightarrow> (u32 option, ('w, 's) rig) outcome" where
  "do_load_violation rd k at r = load_word rd k (at_load_violation at) PMP_TEST_BASE r"

definition pmp_check_encode :: "('w, 's) rig \<Rightarrow> ('w, 's) rig" where
  "pmp_check_encode = check PMP_T_ENCODE
     (pmp_napot_encode 0x80020000 4 = drop_bit 2 0x80020000 \<and>
      pmp_napot_encode 0x80020000 0x1000 = drop_bit 2 0x80020000 OR 0x1FF \<and>
      pmp_napot_encode 0x80020000 8 = drop_bit 2 0x80020000 OR 0x0)"

definition pmp_check_args :: "'s csr_read \<Rightarrow> 's csr_write \<Rightarrow> ('w, 's) rig \<Rightarrow> ('w, 's) rig" where
  "pmp_check_args rd wr r =
     (let a = (pmp_napot_encode 0x80020004 0x1000 = 0 \<and> pmp_napot_encode 0x80020000 0x0C00 = 0);
          (b, r) = (if a then let (v, s) = pmp_set_region rd wr PMP_NUM_REGIONS PMP_TEST_BASE PMP_TEST_SIZE PMP_PERM_RW (r_pmp r)
                              in (v < 0, r\<lparr>r_pmp := s\<rparr>) else (False, r));
          (c, r) = (if b then let (v, s) = pmp_set_region rd wr PMP_TEST_IDX PMP_TEST_BASE PMP_TEST_SIZE 0x40 (r_pmp r)
                              in (v < 0, r\<lparr>r_pmp := s\<rparr>) else (False, r))
      in check PMP_T_ARGCHECK c r)"

text \<open>A region read back into the locals \<open>cfg\<close> and \<open>addr\<close>, which keep their value on an error.\<close>

definition get_region :: "'s csr_read \<Rightarrow> u32 \<times> u32 \<Rightarrow> ('w, 's) rig \<Rightarrow> u32 \<times> u32" where
  "get_region rd locals r = (case snd (pmp_get_region rd PMP_TEST_IDX (r_pmp r)) of None \<Rightarrow> locals | Some v \<Rightarrow> v)"

definition pmp_check_unlocked :: "'s csr_read \<Rightarrow> 's csr_write \<Rightarrow> 'w calls \<Rightarrow> pmp_layout \<Rightarrow> ('w, 's) rig \<Rightarrow>
    (u32 \<times> u32, ('w, 's) rig) outcome" where
  "pmp_check_unlocked rd wr k at r =
     (let (v, s) = pmp_set_region rd wr PMP_TEST_IDX PMP_TEST_BASE PMP_TEST_SIZE PMP_PERM_NONE (r_pmp r);
          r = check PMP_T_READBACK (v = 0) (r\<lparr>r_pmp := s\<rparr>);
          expect_addr = pmp_napot_encode PMP_TEST_BASE PMP_TEST_SIZE;
          (cfg, addr) = get_region rd (0, 0) r;
          r = check PMP_T_READBACK
                (addr = expect_addr \<and> cfg AND 0x18 = PMP_MODE_NAPOT \<and> cfg AND 0x07 = PMP_PERM_NONE \<and> cfg AND PMP_LOCK = 0) r;
          before = exception_count (r_cpu r)
      in bind_run (store_word rd k (at_unlocked_store at) PMP_TEST_BASE 0x11223344 r) (\<lambda>_ r.
         bind_run (load_word rd k (at_unlocked_load at) PMP_TEST_BASE r) (\<lambda>sink r.
         Done (cfg, addr) (check PMP_T_UNLOCKED (exception_count (r_cpu r) = before \<and> sink = Some 0x11223344) r))))"

definition pmp_check_lock :: "'s csr_read \<Rightarrow> 's csr_write \<Rightarrow> u32 \<times> u32 \<Rightarrow> ('w, 's) rig \<Rightarrow> (u32 \<times> u32) \<times> ('w, 's) rig" where
  "pmp_check_lock rd wr locals r =
     (let (v, s) = pmp_lock_region rd wr PMP_TEST_IDX PMP_TEST_BASE PMP_TEST_SIZE PMP_PERM_NONE (r_pmp r);
          r = check PMP_T_READBACK (v = 0) (r\<lparr>r_pmp := s\<rparr>);
          (cfg, addr) = get_region rd locals r
      in ((cfg, addr), check PMP_T_READBACK (cfg AND PMP_LOCK \<noteq> 0 \<and> addr = pmp_napot_encode PMP_TEST_BASE PMP_TEST_SIZE) r))"

definition pmp_check_faults :: "'s csr_read \<Rightarrow> 'w calls \<Rightarrow> pmp_layout \<Rightarrow> ('w, 's) rig \<Rightarrow> (unit, ('w, 's) rig) outcome" where
  "pmp_check_faults rd k at r =
     (let before = exception_count (r_cpu r) in
      bind_run (do_store_violation rd k at (set_cpu (exception_expect CAUSE_STORE_ACCESS) r)) (\<lambda>_ r.
        let (hit, r) = matched r;
            r = check PMP_T_STORE_FAULT (hit \<and> exception_count (r_cpu r) = before + 1
                  \<and> rec_cause (exception_last (r_cpu r)) = CAUSE_STORE_ACCESS) r;
            r = check PMP_T_MTVAL (rec_tval (exception_last (r_cpu r)) = PMP_TEST_BASE) r;
            before = exception_count (r_cpu r) in
        bind_run (do_load_violation rd k at (set_cpu (exception_expect CAUSE_LOAD_ACCESS) r)) (\<lambda>_ r.
          let (hit, r) = matched r in
          Done () (check PMP_T_LOAD_FAULT (hit \<and> exception_count (r_cpu r) = before + 1
                  \<and> rec_cause (exception_last (r_cpu r)) = CAUSE_LOAD_ACCESS) r))))"

definition pmp_check_sticky :: "'s csr_read \<Rightarrow> 's csr_write \<Rightarrow> 'w calls \<Rightarrow> pmp_layout \<Rightarrow> u32 \<times> u32 \<Rightarrow> ('w, 's) rig \<Rightarrow>
    (u32 \<times> u32, ('w, 's) rig) outcome" where
  "pmp_check_sticky rd wr k at locals r =
     (let r = r\<lparr>r_pmp := snd (pmp_clear_region rd wr PMP_TEST_IDX (r_pmp r))\<rparr>;
          (cfg, addr) = get_region rd locals r;
          r = check PMP_T_LOCK_STICKY (cfg AND PMP_LOCK \<noteq> 0 \<and> cfg AND 0x18 = PMP_MODE_NAPOT
                \<and> addr = pmp_napot_encode PMP_TEST_BASE PMP_TEST_SIZE) r;
          before = exception_count (r_cpu r)
      in bind_run (do_store_violation rd k at (set_cpu (exception_expect CAUSE_STORE_ACCESS) r)) (\<lambda>_ r.
         let (hit, r) = matched r in
         Done (cfg, addr) (check PMP_T_LOCK_STICKY (hit \<and> exception_count (r_cpu r) = before + 1) r)))"

definition pmp_check_free :: "'s csr_read \<Rightarrow> 'w calls \<Rightarrow> pmp_layout \<Rightarrow> ('w, 's) rig \<Rightarrow> (unit, ('w, 's) rig) outcome" where
  "pmp_check_free rd k at r =
     (let before = exception_count (r_cpu r) in
      bind_run (store_word rd k (at_free_store at) PMP_FREE_ADDR 0x5A5A5A5A r) (\<lambda>_ r.
      bind_run (load_word rd k (at_free_load at) PMP_FREE_ADDR r) (\<lambda>sink r.
      Done () (check PMP_T_NOMATCH_OK (exception_count (r_cpu r) = before \<and> sink = Some 0x5A5A5A5A) r))))"

definition pmp_verdict :: "u32 \<times> u32 \<Rightarrow> ('w, 's) rig \<Rightarrow> (u32, ('w, 's) rig) outcome" where
  "pmp_verdict = (\<lambda>(cfg, addr) r.
     if fail_mask r = 0 then Done CODE_SUCCESS (put_text (''PMP_VIOLATION_PASS'' @ [CHR 0x0A]) r)
     else let r = puthex (fail_mask r) (put_text ''PMP_VIOLATION_FAIL '' r);
              r = puthex cfg (put_text '' cfg='' r);
              r = puthex addr (put_text '' addr='' r);
              r = puthex (rec_cause (exception_last (r_cpu r))) (put_text '' last_cause='' r)
          in Done CODE_FAIL (put_text [CHR 0x0A] r))"

definition PMP_violation :: "'s csr_read \<Rightarrow> 's csr_write \<Rightarrow> 'w calls \<Rightarrow> u32 \<Rightarrow> pmp_layout \<Rightarrow> ('w, 's) rig \<Rightarrow>
    (u32, ('w, 's) rig) outcome" where
  "PMP_violation rd wr k trap_entry_common at r =
     (let r = set_cpu (exceptions_init trap_entry_common) r;
          r = pmp_check_encode r;
          r = pmp_check_args rd wr r in
      bind_run (pmp_check_unlocked rd wr k at r) (\<lambda>locals r.
        let (locals, r) = pmp_check_lock rd wr locals r in
        bind_run (pmp_check_faults rd k at r) (\<lambda>_ r.
        bind_run (pmp_check_sticky rd wr k at locals r) (\<lambda>locals r.
        bind_run (pmp_check_free rd k at r) (\<lambda>_ r. pmp_verdict locals r)))))"

section \<open>EXCEPTION_traps.c\<close>

definition EXC_T_BOOT :: u32 where "EXC_T_BOOT = 0x1"
definition EXC_T_ILLEGAL :: u32 where "EXC_T_ILLEGAL = 0x2"
definition EXC_T_BREAKPOINT :: u32 where "EXC_T_BREAKPOINT = 0x4"
definition EXC_T_ECALL :: u32 where "EXC_T_ECALL = 0x8"
definition EXC_T_LOAD_MISAL :: u32 where "EXC_T_LOAD_MISAL = 0x10"
definition EXC_T_STORE_MISAL :: u32 where "EXC_T_STORE_MISAL = 0x20"
definition EXC_T_EPC :: u32 where "EXC_T_EPC = 0x40"
definition EXC_T_COUNT :: u32 where "EXC_T_COUNT = 0x80"
definition EXC_T_RESUME :: u32 where "EXC_T_RESUME = 0x100"

text \<open>Placement again, the address of the function \<open>do_illegal\<close>, that of \<open>misalign_area\<close>, and what the
  hart writes to \<open>mtval\<close> for an illegal instruction, a breakpoint and an environment call.\<close>

record exc_layout =
  at_illegal :: u32
  at_ebreak :: u32
  at_ecall :: u32
  at_load_misaligned :: u32
  at_store_misaligned :: u32
  at_resume :: u32
  fn_do_illegal :: u32
  misalign_area :: u32
  trap_tval :: "u32 \<Rightarrow> u32"

definition expect_and_run :: "u32 \<Rightarrow> (('w, 's) rig \<Rightarrow> (unit, ('w, 's) rig) outcome) \<Rightarrow> ('w, 's) rig \<Rightarrow>
    (bool \<times> u32, ('w, 's) rig) outcome" where
  "expect_and_run cause trigger r =
     (let before = exception_count (r_cpu r) in
      bind_run (trigger (set_cpu (exception_expect cause) r)) (\<lambda>_ r.
        let (m, r) = matched r;
            epc = rec_epc (exception_last (r_cpu r)) in
        Done (if exception_count (r_cpu r) \<noteq> before + 1 then False
              else if rec_cause (exception_last (r_cpu r)) \<noteq> cause then False
              else m, epc) r))"

definition do_illegal :: "'w calls \<Rightarrow> exc_layout \<Rightarrow> ('w, 's) rig \<Rightarrow> (unit, ('w, 's) rig) outcome" where
  "do_illegal k at = trap_at k CAUSE_ILLEGAL_INSTRUCTION (trap_tval at CAUSE_ILLEGAL_INSTRUCTION) (at_illegal at)"

definition do_ebreak :: "'w calls \<Rightarrow> exc_layout \<Rightarrow> ('w, 's) rig \<Rightarrow> (unit, ('w, 's) rig) outcome" where
  "do_ebreak k at = trap_at k CAUSE_BREAKPOINT (trap_tval at CAUSE_BREAKPOINT) (at_ebreak at)"

definition do_ecall :: "'w calls \<Rightarrow> exc_layout \<Rightarrow> ('w, 's) rig \<Rightarrow> (unit, ('w, 's) rig) outcome" where
  "do_ecall k at = trap_at k CAUSE_MACHINE_ECALL (trap_tval at CAUSE_MACHINE_ECALL) (at_ecall at)"

definition misalign_ptr :: "exc_layout \<Rightarrow> u32" where
  "misalign_ptr at = misalign_area at + 4 * 1 + 1"

definition do_load_misaligned :: "'s csr_read \<Rightarrow> 'w calls \<Rightarrow> exc_layout \<Rightarrow> ('w, 's) rig \<Rightarrow> (unit, ('w, 's) rig) outcome" where
  "do_load_misaligned rd k at r =
     bind_run (load_word rd k (at_load_misaligned at) (misalign_ptr at) r) (\<lambda>_. Done ())"

definition do_store_misaligned :: "'s csr_read \<Rightarrow> 'w calls \<Rightarrow> exc_layout \<Rightarrow> ('w, 's) rig \<Rightarrow> (unit, ('w, 's) rig) outcome" where
  "do_store_misaligned rd k at r = store_word rd k (at_store_misaligned at) (misalign_ptr at) 0xA5A5A5A5 r"

text \<open>The five expected exceptions, one check each; the result is the address of the first.\<close>

definition exc_check_causes :: "'s csr_read \<Rightarrow> 'w calls \<Rightarrow> exc_layout \<Rightarrow> ('w, 's) rig \<Rightarrow> (u32, ('w, 's) rig) outcome" where
  "exc_check_causes rd k at r =
     bind_run (expect_and_run CAUSE_ILLEGAL_INSTRUCTION (do_illegal k at) r) (\<lambda>(ok, epc_illegal) r.
     bind_run (expect_and_run CAUSE_BREAKPOINT (do_ebreak k at) (check EXC_T_ILLEGAL ok r)) (\<lambda>(ok, _) r.
     bind_run (expect_and_run CAUSE_MACHINE_ECALL (do_ecall k at) (check EXC_T_BREAKPOINT ok r)) (\<lambda>(ok, _) r.
     bind_run (expect_and_run CAUSE_MISALIGNED_LOAD (do_load_misaligned rd k at) (check EXC_T_ECALL ok r)) (\<lambda>(ok, _) r.
     bind_run (expect_and_run CAUSE_MISALIGNED_STORE (do_store_misaligned rd k at) (check EXC_T_LOAD_MISAL ok r)) (\<lambda>(ok, _) r.
     Done epc_illegal (check EXC_T_STORE_MISAL ok r))))))"

definition exc_check_resume :: "'w calls \<Rightarrow> exc_layout \<Rightarrow> ('w, 's) rig \<Rightarrow> (unit, ('w, 's) rig) outcome" where
  "exc_check_resume k at r =
     (let before_resume = exception_count (r_cpu r);
          r = set_cpu (exception_set_action CAUSE_BREAKPOINT EXC_ACT_SKIP) r in
      bind_run (trap_at k CAUSE_BREAKPOINT (trap_tval at CAUSE_BREAKPOINT) (at_resume at) r) (\<lambda>_ r.
      let resume_witness = 0x1234 :: int in
      Done () (check EXC_T_RESUME (resume_witness = 0x1234 \<and> exception_count (r_cpu r) = before_resume + 1) r)))"

definition exc_verdict :: "('w, 's) rig \<Rightarrow> (u32, ('w, 's) rig) outcome" where
  "exc_verdict r =
     (if fail_mask r = 0 then Done CODE_SUCCESS (put_text (''EXCEPTION_TRAPS_PASS'' @ [CHR 0x0A]) r)
      else let r = puthex (fail_mask r) (put_text ''EXCEPTION_TRAPS_FAIL '' r);
               r = puthex (rec_cause (exception_last (r_cpu r))) (put_text '' last_cause='' r);
               r = puthex (rec_epc (exception_last (r_cpu r))) (put_text '' last_epc='' r)
           in Done CODE_FAIL (put_text [CHR 0x0A] r))"

text \<open>\<open>sp\<close>, \<open>gp\<close> and the link map are those \<open>boot_check\<close> looks at; \<open>canary\<close> is the address of its canary.\<close>

definition EXCEPTION_traps :: "'s csr_read \<Rightarrow> 'w calls \<Rightarrow> u32 \<Rightarrow> link_map \<Rightarrow> u32 \<Rightarrow> u32 \<Rightarrow> u32 \<Rightarrow> exc_layout \<Rightarrow> ('w, 's) rig \<Rightarrow>
    (u32, ('w, 's) rig) outcome" where
  "EXCEPTION_traps rd k trap_entry_common l sp gp canary at r =
     (let regs = \<lparr>boot_sp = sp, boot_gp = gp, boot_mtvec = cpu_mtvec (r_cpu r)\<rparr>;
          r = check EXC_T_BOOT (boot_check l regs canary (cpu_mem (r_cpu r)) = 0) r;
          r = set_cpu (exceptions_init trap_entry_common) r in
      bind_run (exc_check_causes rd k at r) (\<lambda>epc_illegal r.
        let r = check EXC_T_EPC (epc_illegal = fn_do_illegal at) r;
            r = check EXC_T_COUNT (exception_count (r_cpu r) = 5) r in
        bind_run (exc_check_resume k at r) (\<lambda>_ r. exc_verdict r)))"

section \<open>One expected exception\<close>

lemma exception_causes: "\<not> TRAP_IS_INTERRUPT c" "TRAP_CAUSE_CODE c = c"
  if "c \<in> {CAUSE_ILLEGAL_INSTRUCTION, CAUSE_BREAKPOINT, CAUSE_MISALIGNED_LOAD, CAUSE_LOAD_ACCESS, CAUSE_MISALIGNED_STORE,
    CAUSE_STORE_ACCESS, CAUSE_MACHINE_ECALL}"
  using that by (auto simp: cause_defs TRAP_IS_INTERRUPT_def TRAP_CAUSE_CODE_def TRAP_INT_BIT_def)

text \<open>What an exception that is expected leaves in the processor.\<close>

definition met :: "u32 \<Rightarrow> u32 \<Rightarrow> u32 \<Rightarrow> 'w cpu \<Rightarrow> 'w cpu" where
  "met cause tval pc c = c\<lparr>cpu_mtval := tval, exc_total := exc_total c + 1,
     exc_last := \<lparr>rec_cause = cause, rec_epc = pc, rec_tval = tval, rec_count = exc_total c + 1\<rparr>,
     expect_hit := True, expect_valid := False\<rparr>"

lemma trap_expected:
  assumes "\<not> TRAP_IS_INTERRUPT cause" "TRAP_CAUSE_CODE cause = cause" "expect_valid (r_cpu r)" "expect_cause (r_cpu r) = cause"
  shows "trap_at k cause tval pc r = Done () (set_cpu (met cause tval pc) r)"
  using assms by (cases "r_cpu r")
    (simp add: trap_at_def take_trap_def trap_dispatch_def handle_exception_def trap_skip_insn_def set_cpu_def met_def Let_def)

lemma trap_skipped:
  assumes "\<not> TRAP_IS_INTERRUPT cause" "TRAP_CAUSE_CODE cause = cause" "\<not> expect_valid (r_cpu r)"
    "cause < CAUSE_MAX" "exc_action (r_cpu r) ! unat cause = EXC_ACT_SKIP"
  shows "trap_at k cause tval pc r = Done () (set_cpu (\<lambda>c. c\<lparr>cpu_mtval := tval, exc_total := exc_total c + 1,
     exc_last := \<lparr>rec_cause = cause, rec_epc = pc, rec_tval = tval, rec_count = exc_total c + 1\<rparr>\<rparr>) r)"
  using assms by (cases "r_cpu r")
    (simp add: trap_at_def take_trap_def trap_dispatch_def handle_exception_def trap_skip_insn_def set_cpu_def Let_def)

text \<open>The processor after an exception that was announced, happened and was collected.\<close>

definition taken :: "u32 \<Rightarrow> u32 \<Rightarrow> u32 \<Rightarrow> 'w cpu \<Rightarrow> 'w cpu" where
  "taken cause tval pc c = c\<lparr>cpu_mtval := tval, exc_total := exc_total c + 1,
     exc_last := \<lparr>rec_cause = cause, rec_epc = pc, rec_tval = tval, rec_count = exc_total c + 1\<rparr>,
     expect_cause := cause, expect_hit := False, expect_valid := False\<rparr>"

lemma matched_after: "matched (set_cpu (met cause tval pc) (set_cpu (exception_expect cause) r)) = (True, set_cpu (taken cause tval pc) r)"
  by (simp add: matched_def set_cpu_def met_def taken_def exception_matched_def exception_expect_def Let_def)

lemma announced [simp]:
  "expect_valid (r_cpu (set_cpu (exception_expect c) r))" "expect_cause (r_cpu (set_cpu (exception_expect c) r)) = c"
  "r_pmp (set_cpu f r) = r_pmp r" "fail_mask (set_cpu f r) = fail_mask r" "r_console (set_cpu f r) = r_console r"
  "r_cpu (set_cpu f r) = f (r_cpu r)"
  by (simp_all add: set_cpu_def exception_expect_def)

lemma taken_fields [simp]:
  "exception_count (taken cause tval pc c) = exception_count c + 1" "rec_cause (exception_last (taken cause tval pc c)) = cause"
  "rec_epc (exception_last (taken cause tval pc c)) = pc" "rec_tval (exception_last (taken cause tval pc c)) = tval"
  "exc_action (taken cause tval pc c) = exc_action c" "cpu_mem (taken cause tval pc c) = cpu_mem c"
  "expect_valid (taken cause tval pc c) = False" "exc_total (taken cause tval pc c) = exc_total c + 1"
  by (simp_all add: taken_def exception_count_def exception_last_def)

lemma expect_and_run_met:
  assumes "trigger (set_cpu (exception_expect cause) r) = trap_at k cause tval pc (set_cpu (exception_expect cause) r)"
    "\<not> TRAP_IS_INTERRUPT cause" "TRAP_CAUSE_CODE cause = cause"
  shows "expect_and_run cause trigger r = Done (True, pc) (set_cpu (taken cause tval pc) r)"
  unfolding expect_and_run_def Let_def assms(1) trap_expected [OF assms(2,3) announced(1,2)]
  by (simp add: matched_after)

lemma check_simps [simp]:
  "check b True r = r" "r_cpu (check b ok r) = r_cpu r" "r_pmp (check b ok r) = r_pmp r"
  "r_console (check b ok r) = r_console r"
  "fail_mask (check b ok r) = (if ok then fail_mask r else fail_mask r OR b)"
  by (simp_all add: check_def)

lemma misaligned: "misalign_area at AND 3 = 0 \<Longrightarrow> misalign_ptr at AND 3 \<noteq> 0"
proof -
  assume "misalign_area at AND 3 = 0"
  then have "unat (misalign_area at) mod 4 = 0" by (simp add: aligned_iff_mod)
  moreover have "unat (misalign_area at + 5) mod 4 = (unat (misalign_area at) + 5) mod 4"
  proof -
    have "unat (misalign_area at + 5) = (unat (misalign_area at) + 5) mod 2 ^ 32" by (simp add: unat_word_ariths)
    also have "\<dots> mod 4 = (unat (misalign_area at) + 5) mod 4" by (rule mod_mod_cancel) simp
    finally show ?thesis .
  qed
  ultimately have "unat (misalign_area at + 5) mod 4 \<noteq> 0" by presburger
  then show ?thesis by (simp add: misalign_ptr_def aligned_iff_mod add.assoc)
qed

text \<open>The exception case reports exactly its two preconditions. On any hart that raises the five
  exceptions as the specification says, it returns, after six traps and never through the fatal path;
  the mask it judges by has the boot bit when \<open>boot_check\<close> finds an error, the address bit when
  \<open>do_illegal\<close> does not start with its illegal word, and no other; it passes when there is neither.\<close>

theorem EXCEPTION_traps_verdict:
  assumes "misalign_area at AND 3 = 0" "fail_mask r = 0" "r_console r = []"
  shows "case EXCEPTION_traps rd k e l sp gp canary at r of
      Done code r' \<Rightarrow>
        fail_mask r' = (if boot_check l \<lparr>boot_sp = sp, boot_gp = gp, boot_mtvec = cpu_mtvec (r_cpu r)\<rparr> canary (cpu_mem (r_cpu r)) = 0
                        then 0 else EXC_T_BOOT)
                    OR (if at_illegal at = fn_do_illegal at then 0 else EXC_T_EPC)
        \<and> exception_count (r_cpu r') = 6 \<and> code = (if fail_mask r' = 0 then CODE_SUCCESS else CODE_FAIL)
        \<and> (r_console r' = ''EXCEPTION_TRAPS_PASS'' @ [CHR 0x0A] \<longleftrightarrow> fail_mask r' = 0)
    | Exited code r' \<Rightarrow> False | Undefined \<Rightarrow> False"
proof -
  note causes = exception_causes
  have run: "expect_and_run CAUSE_ILLEGAL_INSTRUCTION (do_illegal k at) q =
      Done (True, at_illegal at) (set_cpu (taken CAUSE_ILLEGAL_INSTRUCTION (trap_tval at CAUSE_ILLEGAL_INSTRUCTION) (at_illegal at)) q)"
    "expect_and_run CAUSE_BREAKPOINT (do_ebreak k at) q =
      Done (True, at_ebreak at) (set_cpu (taken CAUSE_BREAKPOINT (trap_tval at CAUSE_BREAKPOINT) (at_ebreak at)) q)"
    "expect_and_run CAUSE_MACHINE_ECALL (do_ecall k at) q =
      Done (True, at_ecall at) (set_cpu (taken CAUSE_MACHINE_ECALL (trap_tval at CAUSE_MACHINE_ECALL) (at_ecall at)) q)"
    "expect_and_run CAUSE_MISALIGNED_STORE (do_store_misaligned rd k at) q =
      Done (True, at_store_misaligned at) (set_cpu (taken CAUSE_MISALIGNED_STORE (misalign_ptr at) (at_store_misaligned at)) q)"
    "expect_and_run CAUSE_MISALIGNED_LOAD (do_load_misaligned rd k at) q =
      Done (True, at_load_misaligned at) (set_cpu (taken CAUSE_MISALIGNED_LOAD (misalign_ptr at) (at_load_misaligned at)) q)" for q
    using misaligned [OF assms(1)]
    by (rule_tac [!] expect_and_run_met)
      (simp_all add: causes do_illegal_def do_ebreak_def do_ecall_def do_store_misaligned_def store_word_def do_load_misaligned_def load_word_def
        trap_expected [OF _ _ announced(1,2)])
  define q where "q = set_cpu (exceptions_init e) (check EXC_T_BOOT (boot_check l
    \<lparr>boot_sp = sp, boot_gp = gp, boot_mtvec = cpu_mtvec (r_cpu r)\<rparr> canary (cpu_mem (r_cpu r)) = 0) r)"
  have q: "exc_total (r_cpu q) = 0" "length (exc_action (r_cpu q)) = 16"
    by (simp_all add: q_def exceptions_init_def CAUSE_MAX_def)
  obtain p where p: "exc_check_causes rd k at q = Done (at_illegal at) p" "exception_count (r_cpu p) = 5"
    "\<not> expect_valid (r_cpu p)" "length (exc_action (r_cpu p)) = 16" "fail_mask p = fail_mask q" "r_console p = r_console q"
    using q by (simp add: exc_check_causes_def run exception_count_def)
  have resume: "\<exists>p'. exc_check_resume k at (check EXC_T_COUNT True (check EXC_T_EPC ok p)) = Done () p' \<and> exception_count (r_cpu p') = 6
      \<and> fail_mask p' = fail_mask (check EXC_T_EPC ok p) \<and> r_console p' = r_console p" for ok
  proof -
    have "exc_action (exception_set_action CAUSE_BREAKPOINT EXC_ACT_SKIP (r_cpu p)) ! unat CAUSE_BREAKPOINT = EXC_ACT_SKIP"
      "\<not> expect_valid (exception_set_action CAUSE_BREAKPOINT EXC_ACT_SKIP (r_cpu p))"
      "exception_count (exception_set_action CAUSE_BREAKPOINT EXC_ACT_SKIP (r_cpu p)) = 5"
      using p(2-4) by (simp_all add: exception_set_action_def CAUSE_BREAKPOINT_def CAUSE_MAX_def exception_count_def)
    moreover have "CAUSE_BREAKPOINT < CAUSE_MAX" by (simp add: CAUSE_BREAKPOINT_def CAUSE_MAX_def)
    ultimately show ?thesis using p(2)
      by (simp add: exc_check_resume_def Let_def trap_skipped causes exception_count_def)
  qed
  obtain p' where p': "exc_check_resume k at (check EXC_T_COUNT True (check EXC_T_EPC (at_illegal at = fn_do_illegal at) p)) = Done () p'"
    "exception_count (r_cpu p') = 6" "fail_mask p' = fail_mask (check EXC_T_EPC (at_illegal at = fn_do_illegal at) p)" "r_console p' = r_console p"
    using resume by blast
  have "EXCEPTION_traps rd k e l sp gp canary at r = exc_verdict p'"
    unfolding EXCEPTION_traps_def Let_def q_def [symmetric] p(1) bind_run_simps p(2) using p(2) p'(1) by simp
  then show ?thesis using p'(2-4) p(5,6) assms(2,3)
    by (auto simp: exc_verdict_def q_def put_text_def puthex_def Let_def EXC_T_BOOT_def EXC_T_EPC_def CODE_SUCCESS_def CODE_FAIL_def)
qed

definition unit_calls :: "unit calls" where "unit_calls = (no_exc, no_isr)"

definition after_reset :: "(unit, pmp_hw) rig" where
  "after_reset = \<lparr>r_cpu = cpu_reset, r_pmp = hw_blank, fail_mask = 0, r_console = []\<rparr>"

definition exc_image :: exc_layout where
  "exc_image = \<lparr>at_illegal = 0x80000200, at_ebreak = 0x80000210, at_ecall = 0x80000220, at_load_misaligned = 0x80000230,
     at_store_misaligned = 0x80000240, at_resume = 0x80000250, fn_do_illegal = 0x80000200, misalign_area = 0x80003000,
     trap_tval = (\<lambda>_. 0)\<rparr>"

lemma EXCEPTION_traps_verdict_witness:
  "case EXCEPTION_traps hw_read unit_calls 0x80000400 boot_map 0x8000E000 0x80001800 0x80002020 exc_image after_reset of
      Done code r' \<Rightarrow>
        fail_mask r' = (if boot_check boot_map \<lparr>boot_sp = 0x8000E000, boot_gp = 0x80001800, boot_mtvec = cpu_mtvec (r_cpu after_reset)\<rparr>
                          0x80002020 (cpu_mem (r_cpu after_reset)) = 0 then 0 else EXC_T_BOOT)
                    OR (if at_illegal exc_image = fn_do_illegal exc_image then 0 else EXC_T_EPC)
        \<and> exception_count (r_cpu r') = 6 \<and> code = (if fail_mask r' = 0 then CODE_SUCCESS else CODE_FAIL)
        \<and> (r_console r' = ''EXCEPTION_TRAPS_PASS'' @ [CHR 0x0A] \<longleftrightarrow> fail_mask r' = 0)
    | Exited code r' \<Rightarrow> False | Undefined \<Rightarrow> False"
  by (rule EXCEPTION_traps_verdict) (simp_all add: after_reset_def exc_image_def)

section \<open>The PMP case\<close>

text \<open>What the PMP does with the two addresses, entry 0 programmed and the others off.\<close>

definition guarded :: "'s csr_read \<Rightarrow> bool \<Rightarrow> 's \<Rightarrow> bool" where
  "guarded rd lock s \<longleftrightarrow> pmpcfg_read_byte rd 0 s = pmp_cfg_of PMP_TEST_SIZE PMP_PERM_NONE lock
     \<and> pmpaddr_read rd 0 s = pmp_napot_encode PMP_TEST_BASE PMP_TEST_SIZE
     \<and> (\<forall>j<8. j \<noteq> 0 \<longrightarrow> pmpcfg_read_byte rd j s = 0)"

lemma guard_values:
  "pmp_cfg_of PMP_TEST_SIZE PMP_PERM_NONE lock = (if lock then 0x98 else 0x18)"
  "pmp_napot_encode PMP_TEST_BASE PMP_TEST_SIZE = 0x200081FF"
  by (simp_all add: pmp_cfg_of_def pmp_test_defs pmp_consts pmp_napot_encode_def Let_def)

lemma guarded_hits:
  assumes "guarded rd lock s"
  shows "pmp_hits rd PMP_TEST_BASE s 0" "\<not> pmp_hits rd PMP_FREE_ADDR s 0" "j < 8 \<Longrightarrow> j \<noteq> 0 \<Longrightarrow> \<not> pmp_hits rd a s j"
  using assms unfolding guarded_def guard_values
  by (auto simp: pmp_hits_def pmp_covers_def napot_match_def pmp_test_defs pmp_consts Let_def)

lemma guarded_allows:
  assumes "guarded rd lock s"
  shows "pmp_allows rd perm PMP_FREE_ADDR s" "perm \<in> {1, 2} \<Longrightarrow> pmp_allows rd perm PMP_TEST_BASE s \<longleftrightarrow> \<not> lock"
proof -
  show "pmp_allows rd perm PMP_FREE_ADDR s" by (simp add: pmp_allows_def guarded_hits [OF assms])
  have "List.find (pmp_hits rd PMP_TEST_BASE s) [0, 1, 2, 3, 4, 5, 6, 7] = Some 0" by (simp add: guarded_hits [OF assms])
  then show "pmp_allows rd perm PMP_TEST_BASE s \<longleftrightarrow> \<not> lock" if "perm \<in> {1, 2}"
    using assms that unfolding guarded_def guard_values pmp_allows_def pmp_entry_locked_def
    by (auto simp: pmp_consts)
qed

lemma test_region: "pmp_valid_region PMP_TEST_BASE PMP_TEST_SIZE" "pmp_perm_ok PMP_PERM_NONE" "PMP_TEST_IDX < 8"
  "\<not> (PMP_TEST_BASE = 0 \<and> PMP_TEST_SIZE = 8)" "PMP_TEST_IDX = 0" "PMP_PERM_NONE AND NOT PMP_PERM_RWX = 0"
  by (simp_all add: pmp_valid_region_def pmp_perm_ok_def pmp_test_defs)

lemma word_readback: "ld32 (st32 m a v) a = v"
  by (rule ld32_st32_same)

context pmp_csrs begin

lemma guard_set:
  assumes "\<And>j. j < 8 \<Longrightarrow> pmpcfg_read_byte rd j s = 0"
  shows "\<exists>s'. pmp_set_region rd wr PMP_TEST_IDX PMP_TEST_BASE PMP_TEST_SIZE PMP_PERM_NONE s = (0, s') \<and> guarded rd False s'"
proof -
  have "\<not> pmp_addr_locked rd PMP_TEST_IDX s" using assms by (simp add: pmp_addr_locked_def pmp_entry_locked_def test_region)
  note e = program_entry [OF test_region(3,2) this _ HOL.refl, unfolded test_region(5)]
  show ?thesis unfolding pmp_set_region_def pmp_program_ok [OF test_region(3,6,1,4)]
    using assms by (simp add: guarded_def e test_region)
qed

lemma guard_lock:
  assumes "guarded rd False s"
  shows "\<exists>s'. pmp_lock_region rd wr PMP_TEST_IDX PMP_TEST_BASE PMP_TEST_SIZE PMP_PERM_NONE s = (0, s') \<and> guarded rd True s'"
proof -
  have "pmpcfg_read_byte rd 1 s = 0" using assms by (simp add: guarded_def)
  then have "\<not> pmp_addr_locked rd PMP_TEST_IDX s"
    using assms by (simp add: pmp_addr_locked_def pmp_entry_locked_def test_region guarded_def guard_values pmp_consts)
  note e = program_entry [OF test_region(3,2) this _ HOL.refl, unfolded test_region(5)]
  show ?thesis unfolding pmp_lock_region_def pmp_program_ok [OF test_region(3,6,1,4)]
    using assms by (simp add: guarded_def e test_region)
qed

lemma guard_clear:
  assumes "guarded rd True s"
  shows "guarded rd True (snd (pmp_clear_region rd wr PMP_TEST_IDX s))"
proof -
  have "pmp_entry_locked rd 0 s" using assms by (simp add: guarded_def guard_values pmp_entry_locked_def pmp_consts)
  with clear_spec [of PMP_TEST_IDX s] show ?thesis using assms
    by (auto simp: test_region guarded_def get_region)
qed

end

lemma get_guarded:
  assumes "guarded rd lock (r_pmp r)"
  shows "get_region rd locals r = (if lock then 0x98 else 0x18, 0x200081FF)"
  using assms by (simp add: get_region_def pmp_get_region_def test_region PMP_NUM_REGIONS_def guarded_def guard_values)

lemma pmp_arg_checks: "pmp_check_args rd wr r = r" "pmp_check_encode r = r"
  by (simp_all add: pmp_check_args_def pmp_check_encode_def pmp_set_region_def pmp_program_def pmp_napot_encode_def pmp_test_defs pmp_consts
      PMP_PERM_RW_def Let_def)

lemma locked_store:
  assumes "guarded rd True (r_pmp r)"
  shows "do_store_violation rd k at (set_cpu (exception_expect CAUSE_STORE_ACCESS) r) =
    Done () (set_cpu (met CAUSE_STORE_ACCESS PMP_TEST_BASE (at_store_violation at)) (set_cpu (exception_expect CAUSE_STORE_ACCESS) r))"
  using guarded_allows(2) [OF assms, of 2]
  by (simp add: do_store_violation_def store_word_def trap_expected [OF _ _ announced(1,2)] exception_causes)
    (simp add: pmp_test_defs)

lemma locked_load:
  assumes "guarded rd True (r_pmp r)"
  shows "do_load_violation rd k at (set_cpu (exception_expect CAUSE_LOAD_ACCESS) r) =
    Done None (set_cpu (met CAUSE_LOAD_ACCESS PMP_TEST_BASE (at_load_violation at)) (set_cpu (exception_expect CAUSE_LOAD_ACCESS) r))"
  using guarded_allows(2) [OF assms, of 1]
  by (simp add: do_load_violation_def load_word_def trap_expected [OF _ _ announced(1,2)] exception_causes)
    (simp add: pmp_test_defs)

definition same_case :: "('w, 's) rig \<Rightarrow> ('w, 's) rig \<Rightarrow> bool" where
  "same_case r q \<longleftrightarrow> fail_mask q = fail_mask r \<and> r_console q = r_console r"

lemma faults_pass:
  assumes "guarded rd True (r_pmp r)"
  shows "\<exists>q. pmp_check_faults rd k at r = Done () q \<and> guarded rd True (r_pmp q) \<and> same_case r q"
  using assms by (simp add: pmp_check_faults_def locked_store locked_load matched_after Let_def same_case_def)

lemma sticky_passes:
  assumes "pmp_csrs rd wr" "guarded rd True (r_pmp r)"
  shows "\<exists>q l. pmp_check_sticky rd wr k at locals r = Done l q \<and> guarded rd True (r_pmp q) \<and> same_case r q"
proof -
  let ?r = "r\<lparr>r_pmp := snd (pmp_clear_region rd wr PMP_TEST_IDX (r_pmp r))\<rparr>"
  have g: "guarded rd True (r_pmp ?r)" using pmp_csrs.guard_clear [OF assms] by simp
  show ?thesis
    using g by (simp add: pmp_check_sticky_def get_guarded [OF g] locked_store matched_after Let_def same_case_def guard_values pmp_consts)
qed

lemma free_passes:
  assumes "guarded rd True (r_pmp r)"
  shows "\<exists>q. pmp_check_free rd k at r = Done () q \<and> same_case r q"
proof -
  have "PMP_FREE_ADDR AND 3 = 0" by (simp add: pmp_test_defs)
  then show ?thesis using guarded_allows(1) [OF assms]
    by (simp add: pmp_check_free_def store_word_def load_word_def word_readback Let_def same_case_def exception_count_def)
qed

lemma unlocked_passes:
  assumes "pmp_csrs rd wr" "\<And>j. j < 8 \<Longrightarrow> pmpcfg_read_byte rd j (r_pmp r) = 0"
  shows "\<exists>q l. pmp_check_unlocked rd wr k at r = Done l q \<and> guarded rd False (r_pmp q) \<and> same_case r q"
proof -
  obtain s where s: "pmp_set_region rd wr PMP_TEST_IDX PMP_TEST_BASE PMP_TEST_SIZE PMP_PERM_NONE (r_pmp r) = (0, s)" "guarded rd False s"
    using pmp_csrs.guard_set [OF assms] by blast
  have g: "guarded rd False (r_pmp (r\<lparr>r_pmp := s\<rparr>))" using s(2) by simp
  have "PMP_TEST_BASE AND 3 = 0" by (simp add: pmp_test_defs)
  then show ?thesis using guarded_allows(2) [OF s(2)] s(2)
    by (simp add: pmp_check_unlocked_def s(1) [unfolded PMP_PERM_NONE_def] get_guarded [where lock = False] guard_values store_word_def load_word_def word_readback Let_def same_case_def
        exception_count_def pmp_consts PMP_PERM_NONE_def)
qed

text \<open>C26: The PMP case passes on every unit that keeps the specification's laws and comes out of reset
  with its entries off, whatever functions the exception layer could call: every check holds (the
  encodings, the refused arguments, the access through the unlocked region, the two faults and their
  address after locking, the failed release, the address outside), nothing is fatal, and the console
  gets the pass mark alone.\<close>

theorem PMP_violation_passes:
  assumes "pmp_csrs rd wr" "\<And>j. j < 8 \<Longrightarrow> pmpcfg_read_byte rd j (r_pmp r) = 0" "fail_mask r = 0"
  shows "case PMP_violation rd wr k e at r of
      Done code r' \<Rightarrow> code = CODE_SUCCESS \<and> fail_mask r' = 0 \<and> r_console r' = r_console r @ ''PMP_VIOLATION_PASS'' @ [CHR 0x0A]
    | Exited code r' \<Rightarrow> False | Undefined \<Rightarrow> False"
proof -
  let ?r = "set_cpu (exceptions_init e) r"
  have "\<exists>q l. pmp_check_unlocked rd wr k at ?r = Done l q \<and> guarded rd False (r_pmp q) \<and> same_case ?r q"
    by (rule unlocked_passes [OF assms(1)]) (simp add: assms(2))
  then obtain q l where q: "pmp_check_unlocked rd wr k at ?r = Done l q" "guarded rd False (r_pmp q)" "same_case ?r q"
    by blast
  obtain s where s: "pmp_lock_region rd wr PMP_TEST_IDX PMP_TEST_BASE PMP_TEST_SIZE PMP_PERM_NONE (r_pmp q) = (0, s)" "guarded rd True s"
    using pmp_csrs.guard_lock [OF assms(1) q(2)] by blast
  have g: "guarded rd True (r_pmp (q\<lparr>r_pmp := s\<rparr>))" using s(2) by simp
  have lock: "pmp_check_lock rd wr l q = ((0x98, 0x200081FF), q\<lparr>r_pmp := s\<rparr>)"
    by (simp add: pmp_check_lock_def s(1) get_guarded [OF g] guard_values pmp_consts)
  obtain f where f: "pmp_check_faults rd k at (q\<lparr>r_pmp := s\<rparr>) = Done () f" "guarded rd True (r_pmp f)" "same_case (q\<lparr>r_pmp := s\<rparr>) f"
    using faults_pass [OF g] by blast
  obtain t m where t: "pmp_check_sticky rd wr k at (0x98, 0x200081FF) f = Done m t" "guarded rd True (r_pmp t)" "same_case f t"
    using sticky_passes [OF assms(1) f(2)] by blast
  obtain u where u: "pmp_check_free rd k at t = Done () u" "same_case t u" using free_passes [OF t(2)] by blast
  have "PMP_violation rd wr k e at r = pmp_verdict m u"
    unfolding PMP_violation_def Let_def pmp_arg_checks q(1) bind_run_simps lock prod.case f(1) t(1) u(1) ..
  then show ?thesis using q(3) f(3) t(3) u(2) assms(3)
    by (cases m) (simp add: pmp_verdict_def same_case_def put_text_def)
qed

definition pmp_image :: pmp_layout where
  "pmp_image = \<lparr>at_store_violation = 0x80000200, at_load_violation = 0x80000210, at_unlocked_store = 0x80000220,
     at_unlocked_load = 0x80000230, at_free_store = 0x80000240, at_free_load = 0x80000250\<rparr>"

lemma PMP_violation_passes_witness:
  "case PMP_violation hw_read hw_write unit_calls 0x80000400 pmp_image after_reset of
      Done code r' \<Rightarrow> code = CODE_SUCCESS \<and> fail_mask r' = 0
        \<and> r_console r' = r_console after_reset @ ''PMP_VIOLATION_PASS'' @ [CHR 0x0A]
    | Exited code r' \<Rightarrow> False | Undefined \<Rightarrow> False"
  by (rule PMP_violation_passes [OF hw.pmp_csrs_axioms])
    (simp_all add: after_reset_def hw_read_byte hw_cfg_at_def hw_blank_def hw_legalise_def)

end
