(* ===== verification/I2sr_Test.thy ===== *)
theory I2sr_Test
  imports Mailbox
begin

text \<open>
  The nested interrupt test (verif/ip/S5740/I2SR/int_muldiv): the firmware, built without \<open>I2SR\<close>,
  whose eight sources share one buffer format, and the host sequence that seeds the buffers, raises
  five of the sources and checks the result. Interrupts nest: a handler enables them for its whole
  workload. Every statement of the workload is a step, any pending source may be taken at any of
  them, and the host moves freely in between. What the compiler's prologue and epilogue do with
  \<open>mepc\<close> is not in this repository: \<open>saves\<close> says whether they keep it.
\<close>

section \<open>Data\<close>

definition BUF_SIZE :: nat where "BUF_SIZE = 0x40"
definition MAX_TASKNUM :: nat where "MAX_TASKNUM = 5"

record BUF =
  min_time :: u32
  max_time :: u32
  tot_time :: u32
  count :: u32
  cells :: "(u32 \<times> u32) list"

text \<open>The three statements on \<open>data[i]\<close>.\<close>

definition muldiv_stmt :: "nat \<Rightarrow> u32 \<times> u32 \<Rightarrow> u32 \<times> u32" where
  "muldiv_stmt k = (\<lambda>(d, v). (d, if k = 0 then v + d else if k = 1 then v div 7 else v * 3))"

section \<open>State\<close>

datatype phase = P_enable | P_loop nat nat | P_time | P_min | P_max | P_tot | P_count | P_disable | P_ret

datatype main_pc = M_setup | M_wait nat | M_set nat | M_enable | M_loop | M_spin | M_clear | M_disable | M_end

datatype loc = Main main_pc | Isr nat phase

datatype vseq_pc = V_init | V_set1 | V_wait2 nat | V_post nat | V_flag | V_set3 | V_wait4 nat | V_check
  | V_reinit | V_set5 | V_break | V_ret bool

text \<open>A frame holds what the prologue saved and the local \<open>time\<close>.\<close>

record frame =
  f_mepc :: loc
  f_time :: u32

record board =
  cur :: loc
  mepc :: loc
  MIE :: bool
  MPIE :: bool
  frames :: "frame list"
  inner_count :: u32
  pend :: "nat list"
  buf_mem :: "nat \<Rightarrow> BUF"
  ref_count :: "nat \<Rightarrow> u32"
  bp_word :: u32
  break_flag :: u32
  host :: vseq_pc

section \<open>Interrupt handlers\<close>

text \<open>Taking source \<open>src\<close> at clock \<open>t\<close>: the trap, the prologue, and the handler up to
  \<open>GLOBAL_INTERRUPT_ENABLE\<close>, all with interrupts off (the claim, \<open>SW_INT\<close> or \<open>MTIMECMP\<close> access ends
  the request).\<close>

definition take_irq :: "nat \<Rightarrow> u32 \<Rightarrow> board \<Rightarrow> board" where
  "take_irq src t s = s\<lparr>cur := Isr src P_enable, mepc := cur s, MPIE := MIE s, MIE := False,
     frames := \<lparr>f_mepc = cur s, f_time = t\<rparr> # frames s, pend := removeAll src (pend s),
     inner_count := inner_count s + 1\<rparr>"

definition put_buf :: "nat \<Rightarrow> (BUF \<Rightarrow> BUF) \<Rightarrow> board \<Rightarrow> board" where
  "put_buf src f s = s\<lparr>buf_mem := (buf_mem s)(src := f (buf_mem s src))\<rparr>"

definition local_time :: "board \<Rightarrow> u32" where
  "local_time s = (case frames s of [] \<Rightarrow> 0 | f # fs \<Rightarrow> f_time f)"

definition set_local_time :: "u32 \<Rightarrow> board \<Rightarrow> board" where
  "set_local_time t s = (case frames s of [] \<Rightarrow> s | f # fs \<Rightarrow> s\<lparr>frames := f\<lparr>f_time := t\<rparr> # fs\<rparr>)"

text \<open>The epilogue and \<open>mret\<close>.\<close>

definition leave_isr :: "bool \<Rightarrow> board \<Rightarrow> board" where
  "leave_isr saves s =
     (let s = (if saves then (case frames s of [] \<Rightarrow> s | f # fs \<Rightarrow> s\<lparr>mepc := f_mepc f\<rparr>) else s)
      in s\<lparr>cur := mepc s, MIE := MPIE s, MPIE := True, frames := tl (frames s)\<rparr>)"

definition isr_step :: "bool \<Rightarrow> nat \<Rightarrow> phase \<Rightarrow> u32 \<Rightarrow> board \<Rightarrow> board" where
  "isr_step saves src p t s =
     (let time = local_time s in
      case p of
        P_enable \<Rightarrow> s\<lparr>MIE := True, cur := Isr src (P_loop 0 0)\<rparr>
      | P_loop i k \<Rightarrow>
          if i < BUF_SIZE
          then (put_buf src (\<lambda>b. b\<lparr>cells := (cells b)[i := muldiv_stmt k (cells b ! i)]\<rparr>) s)
                 \<lparr>cur := Isr src (if k < 2 then P_loop i (k + 1) else P_loop (i + 1) 0)\<rparr>
          else s\<lparr>cur := Isr src P_time\<rparr>
      | P_time \<Rightarrow> (set_local_time (t - time) s)\<lparr>cur := Isr src P_min\<rparr>
      | P_min \<Rightarrow> (put_buf src (\<lambda>b. if time < min_time b then b\<lparr>min_time := time\<rparr> else b) s)\<lparr>cur := Isr src P_max\<rparr>
      | P_max \<Rightarrow> (put_buf src (\<lambda>b. if time > max_time b then b\<lparr>max_time := time\<rparr> else b) s)\<lparr>cur := Isr src P_tot\<rparr>
      | P_tot \<Rightarrow> (put_buf src (\<lambda>b. b\<lparr>tot_time := tot_time b + time\<rparr>) s)\<lparr>cur := Isr src P_count\<rparr>
      | P_count \<Rightarrow> (put_buf src (\<lambda>b. b\<lparr>count := count b + 1\<rparr>) s)\<lparr>cur := Isr src P_disable\<rparr>
      | P_disable \<Rightarrow> s\<lparr>MIE := False, cur := Isr src P_ret\<rparr>
      | P_ret \<Rightarrow> leave_isr saves s)"

section \<open>The main program\<close>

definition wait_num :: "nat \<Rightarrow> u32" where "wait_num w = (if w < 2 then 1 else 3)"
definition set_num :: "nat \<Rightarrow> u32" where "set_num w = (if w = 0 then 2 else 4)"

text \<open>\<open>M_wait\<close>: the waits for 1, for 1 again, and for 3; \<open>M_set\<close>: the marks 2 and 4. A wait reads the
  word until it is the number; a mark writes it (S5740_test.h).\<close>

definition main_step :: "main_pc \<Rightarrow> board \<Rightarrow> board" where
  "main_step m s =
     (case m of
        M_setup \<Rightarrow> s\<lparr>pend := filter (\<lambda>i. i \<noteq> 6 \<and> i \<noteq> 7) (pend s), break_flag := 0, cur := Main (M_wait 0)\<rparr>
      | M_wait w \<Rightarrow> if bp_word s = wait_num w
          then s\<lparr>cur := Main (if w = 0 then M_wait 1 else if w = 1 then M_set 0 else M_spin)\<rparr> else s
      | M_set w \<Rightarrow> s\<lparr>bp_word := set_num w, cur := Main (if w = 0 then M_enable else M_loop)\<rparr>
      | M_enable \<Rightarrow> s\<lparr>MIE := True, cur := Main M_loop\<rparr>
      | M_loop \<Rightarrow> s\<lparr>cur := Main (if break_flag s = 0 then M_wait 2 else M_disable)\<rparr>
      | M_spin \<Rightarrow> if inner_count s \<noteq> 5 then s else s\<lparr>cur := Main M_clear\<rparr>
      | M_clear \<Rightarrow> s\<lparr>inner_count := 0, cur := Main (M_set 1)\<rparr>
      | M_disable \<Rightarrow> s\<lparr>MIE := False, cur := Main M_end\<rparr>
      | M_end \<Rightarrow> s)"

definition fw_step :: "bool \<Rightarrow> u32 \<Rightarrow> board \<Rightarrow> board" where
  "fw_step saves t s = (case cur s of Main m \<Rightarrow> main_step m s | Isr src p \<Rightarrow> isr_step saves src p t s)"

section \<open>The host\<close>

text \<open>The value the host expects after \<open>n\<close> interrupts.\<close>

fun expected :: "u32 \<Rightarrow> nat \<Rightarrow> u32 \<Rightarrow> u32" where
  "expected d 0 buf = buf"
| "expected d (Suc n) buf = expected d n ((buf + d) div 7 * 3)"

text \<open>The inner loop of the check returns at once on a wrong seed (\<open>None\<close>).\<close>

fun check_cells :: "(u32 \<times> u32) list \<Rightarrow> u32 list \<Rightarrow> u32 \<Rightarrow> bool \<Rightarrow> bool option" where
  "check_cells ((d1, d2) # ds) (r # rs) n pass =
     (if d1 \<noteq> r then None
      else check_cells ds rs n (if d2 \<noteq> expected d1 (unat n) 0 then False else pass))"
| "check_cells _ _ n pass = Some pass"

fun check_bufs :: "nat list \<Rightarrow> (nat \<Rightarrow> u32 list) \<Rightarrow> (nat \<Rightarrow> u32) \<Rightarrow> (nat \<Rightarrow> BUF) \<Rightarrow> bool \<Rightarrow> bool" where
  "check_bufs [] seed n b pass = pass"
| "check_bufs (i # is) seed n b pass =
     (let pass = (if count (b i) \<noteq> n i then False else pass) in
      case check_cells (cells (b i)) (seed i) (n i) pass of None \<Rightarrow> False | Some pass \<Rightarrow> check_bufs is seed n b pass)"

definition I2SR_int_muldiv_check :: "(nat \<Rightarrow> u32 list) \<Rightarrow> (nat \<Rightarrow> u32) \<Rightarrow> (nat \<Rightarrow> BUF) \<Rightarrow> bool" where
  "I2SR_int_muldiv_check seed n b = check_bufs [1..<8] seed n b True"

text \<open>\<open>initialization\<close>: \<open>seed i\<close> is what \<open>rand\<close> gives for buffer \<open>i\<close>.\<close>

definition fresh_buf :: "u32 list \<Rightarrow> BUF" where
  "fresh_buf ds = \<lparr>min_time = 0xFFFFFFFF, max_time = 0, tot_time = 0, count = 0, cells = map (\<lambda>d. (d, 0)) ds\<rparr>"

definition initialization :: "(nat \<Rightarrow> u32 list) \<Rightarrow> board \<Rightarrow> board" where
  "initialization seed s = s\<lparr>buf_mem := (\<lambda>i. if i < 8 then fresh_buf (seed i) else buf_mem s i),
     ref_count := (\<lambda>i. if i < 8 then 0 else ref_count s i)\<rparr>"

text \<open>\<open>srcs\<close> are the five different sources the \<open>do\<close> loop draws. Both calls of \<open>host_wait_bp\<close> drop
  the result: a wait that runs out goes on like one that succeeded.\<close>

definition vseq_wait_bp :: "u32 \<Rightarrow> nat \<Rightarrow> (nat \<Rightarrow> vseq_pc) \<Rightarrow> vseq_pc \<Rightarrow> board \<Rightarrow> board" where
  "vseq_wait_bp bp n self after s =
     (if n < VERIF_BP_TIMEOUT then if bp_word s = bp then s\<lparr>host := after\<rparr> else s\<lparr>host := self (n + 1)\<rparr>
      else s\<lparr>host := after\<rparr>)"

definition vseq_step :: "nat list \<Rightarrow> (nat \<Rightarrow> u32 list) \<Rightarrow> board \<Rightarrow> board" where
  "vseq_step srcs seed s =
     (case host s of
        V_init \<Rightarrow> (initialization seed s)\<lparr>host := V_set1\<rparr>
      | V_set1 \<Rightarrow> s\<lparr>bp_word := 1, host := V_wait2 0\<rparr>
      | V_wait2 n \<Rightarrow> vseq_wait_bp 2 n V_wait2 (V_post 0) s
      | V_post k \<Rightarrow> if k < MAX_TASKNUM
          then (let intr = srcs ! k in s\<lparr>ref_count := (ref_count s)(intr := ref_count s intr + 1),
                  pend := intr # pend s, host := V_post (k + 1)\<rparr>)
          else s\<lparr>host := V_flag\<rparr>
      | V_flag \<Rightarrow> s\<lparr>break_flag := 2, host := V_set3\<rparr>
      | V_set3 \<Rightarrow> s\<lparr>bp_word := 3, host := V_wait4 0\<rparr>
      | V_wait4 n \<Rightarrow> vseq_wait_bp 4 n V_wait4 V_check s
      | V_check \<Rightarrow> s\<lparr>host := if I2SR_int_muldiv_check seed (ref_count s) (buf_mem s) then V_reinit else V_ret False\<rparr>
      | V_reinit \<Rightarrow> (initialization seed s)\<lparr>host := V_set5\<rparr>
      | V_set5 \<Rightarrow> s\<lparr>bp_word := 5, host := V_break\<rparr>
      | V_break \<Rightarrow> s\<lparr>break_flag := 1, host := V_ret True\<rparr>
      | V_ret b \<Rightarrow> s)"

section \<open>Runs\<close>

text \<open>A host step that is on schedule: its wait has not run out, and when it raises the exit flag the device has
  tested the flag already (its main program is past the loop head). Nothing but the host's \<open>tick\<close> calls sees
  to that. \<open>i2sr_any\<close> lets the host move at any time and notes whether every host step was on schedule;
  \<open>i2sr_steps\<close> are the runs in which each was.\<close>

fun main_of :: "loc \<Rightarrow> frame list \<Rightarrow> main_pc option" where
  "main_of (Main m) fs = Some m"
| "main_of (Isr i p) [] = None"
| "main_of (Isr i p) (f # fs) = main_of (f_mepc f) fs"

definition on_schedule :: "board \<Rightarrow> bool" where
  "on_schedule s = (case host s of V_wait2 n \<Rightarrow> n < VERIF_BP_TIMEOUT | V_wait4 n \<Rightarrow> n < VERIF_BP_TIMEOUT
     | V_flag \<Rightarrow> main_of (cur s) (frames s) \<notin> {Some M_enable, Some M_loop} | _ \<Rightarrow> True)"

inductive i2sr_steps :: "bool \<Rightarrow> nat list \<Rightarrow> (nat \<Rightarrow> u32 list) \<Rightarrow> board \<Rightarrow> board \<Rightarrow> bool" for saves srcs seed s where
  stay: "i2sr_steps saves srcs seed s s"
| dut: "i2sr_steps saves srcs seed s q \<Longrightarrow> i2sr_steps saves srcs seed s (fw_step saves t q)"
| irq: "i2sr_steps saves srcs seed s q \<Longrightarrow> MIE q \<Longrightarrow> src \<in> set (pend q) \<Longrightarrow> i2sr_steps saves srcs seed s (take_irq src t q)"
| host: "i2sr_steps saves srcs seed s q \<Longrightarrow> on_schedule q \<Longrightarrow> i2sr_steps saves srcs seed s (vseq_step srcs seed q)"

inductive i2sr_any :: "bool \<Rightarrow> nat list \<Rightarrow> (nat \<Rightarrow> u32 list) \<Rightarrow> board \<Rightarrow> bool \<Rightarrow> board \<Rightarrow> bool" for saves srcs seed s where
  any_stay: "i2sr_any saves srcs seed s True s"
| any_dut: "i2sr_any saves srcs seed s timely q \<Longrightarrow> i2sr_any saves srcs seed s timely (fw_step saves t q)"
| any_irq: "i2sr_any saves srcs seed s timely q \<Longrightarrow> MIE q \<Longrightarrow> src \<in> set (pend q) \<Longrightarrow> i2sr_any saves srcs seed s timely (take_irq src t q)"
| any_host: "i2sr_any saves srcs seed s timely q \<Longrightarrow> i2sr_any saves srcs seed s (timely \<and> on_schedule q) (vseq_step srcs seed q)"

definition i2sr_start :: "u32 \<Rightarrow> (nat \<Rightarrow> BUF) \<Rightarrow> board" where
  "i2sr_start bp b = \<lparr>cur = Main M_setup, mepc = Main M_setup, MIE = False, MPIE = False, frames = [],
     inner_count = 0, pend = [], buf_mem = b, ref_count = (\<lambda>_. 0), bp_word = bp, break_flag = 0, host = V_init\<rparr>"

section \<open>The invariant\<close>

definition main_on :: "main_pc \<Rightarrow> bool" where
  "main_on m \<longleftrightarrow> m \<in> {M_loop, M_wait 2, M_spin, M_clear, M_set 1, M_disable}"

fun int_on :: "loc \<Rightarrow> bool" where
  "int_on (Main m) = main_on m"
| "int_on (Isr i p) = (p \<noteq> P_enable \<and> p \<noteq> P_ret)"

text \<open>The handlers that have begun and not returned, innermost first.\<close>

fun acts :: "loc \<Rightarrow> frame list \<Rightarrow> (nat \<times> phase) list" where
  "acts (Main m) fs = []"
| "acts (Isr i p) [] = [(i, p)]"
| "acts (Isr i p) (f # fs) = (i, p) # acts (f_mepc f) fs"

fun chain :: "loc \<Rightarrow> frame list \<Rightarrow> bool" where
  "chain (Main m) fs = (fs = [])"
| "chain (Isr i p) [] = False"
| "chain (Isr i p) (f # fs) = (int_on (f_mepc f) \<and> chain (f_mepc f) fs \<and> i \<notin> fst ` set (acts (f_mepc f) fs))"

text \<open>The cells when the loop is at statement \<open>k\<close> of index \<open>i\<close>.\<close>

definition stage :: "u32 \<Rightarrow> nat \<Rightarrow> u32" where
  "stage d k = (if k = 0 then 0 else if k = 1 then d else if k = 2 then d div 7 else d div 7 * 3)"

definition cells_at :: "u32 list \<Rightarrow> nat \<Rightarrow> nat \<Rightarrow> (u32 \<times> u32) list" where
  "cells_at ds i k = map (\<lambda>j. (ds ! j, stage (ds ! j) (if j < i then 3 else if j = i then k else 0))) [0..<length ds]"

definition buf_at :: "u32 list \<Rightarrow> BUF \<Rightarrow> phase \<Rightarrow> bool" where
  "buf_at ds b p \<longleftrightarrow> count b = (if p = P_disable \<or> p = P_ret then 1 else 0)
     \<and> (case p of P_enable \<Rightarrow> cells b = cells_at ds 0 0
        | P_loop i k \<Rightarrow> k \<le> 2 \<and> i \<le> BUF_SIZE \<and> (i = BUF_SIZE \<longrightarrow> k = 0) \<and> cells b = cells_at ds i k
        | _ \<Rightarrow> cells b = cells_at ds BUF_SIZE 0)"

lemma cells_at_step:
  assumes "i < length ds" "k \<le> 2"
  shows "(cells_at ds i k)[i := muldiv_stmt k (cells_at ds i k ! i)] = (if k < 2 then cells_at ds i (k + 1) else cells_at ds (i + 1) 0)"
proof (rule nth_equalityI)
  have "k = 0 \<or> k = 1 \<or> k = 2" using assms(2) by linarith
  then show "(cells_at ds i k)[i := muldiv_stmt k (cells_at ds i k ! i)] ! j
      = (if k < 2 then cells_at ds i (k + 1) else cells_at ds (i + 1) 0) ! j"
    if "j < length ((cells_at ds i k)[i := muldiv_stmt k (cells_at ds i k ! i)])" for j
    using that assms(1) by (cases "j = i"; elim disjE) (auto simp: cells_at_def muldiv_stmt_def stage_def)
qed (simp add: cells_at_def)

definition move :: "nat \<Rightarrow> phase \<Rightarrow> BUF \<Rightarrow> frame \<Rightarrow> frame list \<Rightarrow> board \<Rightarrow> board" where
  "move i p b f fs s = s\<lparr>cur := Isr i p, MIE := int_on (Isr i p), frames := f # fs, buf_mem := (buf_mem s)(i := b)\<rparr>"

lemma buf_same: "(buf_mem s)(i := buf_mem s i) = buf_mem s" by simp

lemma isr_moves:
  assumes "p \<noteq> P_ret" "frames s = f # fs" "length ds = BUF_SIZE" "buf_at ds (buf_mem s i) p" "MIE s = int_on (Isr i p)" "cur s = Isr i p"
  shows "\<exists>p' b f'. isr_step saves i p t s = move i p' b f' fs s \<and> f_mepc f' = f_mepc f \<and> buf_at ds b p'"
proof (cases p)
  case (P_loop j k)
  show ?thesis
  proof (cases "j < BUF_SIZE")
    case True
    let ?p = "if k < 2 then P_loop j (k + 1) else P_loop (j + 1) 0"
    let ?b = "(buf_mem s i)\<lparr>cells := (cells (buf_mem s i))[j := muldiv_stmt k (cells (buf_mem s i) ! j)]\<rparr>"
    have "isr_step saves i p t s = move i ?p ?b f fs s"
      using True assms by (simp add: isr_step_def P_loop move_def put_buf_def)
    moreover have "buf_at ds ?b ?p" using True assms(3,4) by (auto simp: buf_at_def P_loop cells_at_step [of j ds k, simplified])
    ultimately show ?thesis by blast
  next
    case False
    then have "isr_step saves i p t s = move i P_time (buf_mem s i) f fs s" "buf_at ds (buf_mem s i) P_time"
      using assms by (simp_all add: isr_step_def P_loop move_def buf_at_def)
    then show ?thesis by blast
  qed
next
  case P_enable
  then have "isr_step saves i p t s = move i (P_loop 0 0) (buf_mem s i) f fs s" "buf_at ds (buf_mem s i) (P_loop 0 0)"
    using assms by (simp_all add: isr_step_def move_def buf_at_def BUF_SIZE_def)
  then show ?thesis by blast
next
  case P_time
  then have "isr_step saves i p t s = move i P_min (buf_mem s i) (f\<lparr>f_time := t - f_time f\<rparr>) fs s" "buf_at ds (buf_mem s i) P_min"
    using assms by (simp_all add: isr_step_def move_def buf_at_def local_time_def set_local_time_def)
  then show ?thesis by fastforce
next
  case P_min
  let ?b = "if local_time s < min_time (buf_mem s i) then (buf_mem s i)\<lparr>min_time := local_time s\<rparr> else buf_mem s i"
  have "isr_step saves i p t s = move i P_max ?b f fs s" "buf_at ds ?b P_max"
    using assms P_min by (simp_all add: isr_step_def move_def buf_at_def put_buf_def Let_def)
  then show ?thesis by blast
next
  case P_max
  let ?b = "if local_time s > max_time (buf_mem s i) then (buf_mem s i)\<lparr>max_time := local_time s\<rparr> else buf_mem s i"
  have "isr_step saves i p t s = move i P_tot ?b f fs s" "buf_at ds ?b P_tot"
    using assms P_max by (simp_all add: isr_step_def move_def buf_at_def put_buf_def Let_def)
  then show ?thesis by blast
next
  case P_tot
  let ?b = "(buf_mem s i)\<lparr>tot_time := tot_time (buf_mem s i) + local_time s\<rparr>"
  have "isr_step saves i p t s = move i P_count ?b f fs s" "buf_at ds ?b P_count"
    using assms P_tot by (simp_all add: isr_step_def move_def buf_at_def put_buf_def Let_def)
  then show ?thesis by blast
next
  case P_count
  let ?b = "(buf_mem s i)\<lparr>count := count (buf_mem s i) + 1\<rparr>"
  have "isr_step saves i p t s = move i P_disable ?b f fs s" "buf_at ds ?b P_disable"
    using assms P_count by (simp_all add: isr_step_def move_def buf_at_def put_buf_def Let_def)
  then show ?thesis by blast
next
  case P_disable
  then have "isr_step saves i p t s = move i P_ret (buf_mem s i) f fs s" "buf_at ds (buf_mem s i) P_ret"
    using assms by (simp_all add: isr_step_def move_def buf_at_def)
  then show ?thesis by blast
qed (use assms in simp)

text \<open>How many sources the host has raised.\<close>

definition posts :: "vseq_pc \<Rightarrow> nat" where
  "posts h = (case h of V_init \<Rightarrow> 0 | V_set1 \<Rightarrow> 0 | V_wait2 n \<Rightarrow> 0 | V_post k \<Rightarrow> k | _ \<Rightarrow> MAX_TASKNUM)"

abbreviation raised :: "nat list \<Rightarrow> board \<Rightarrow> nat set" where
  "raised srcs s \<equiv> set (take (posts (host s)) srcs)"

abbreviation running :: "board \<Rightarrow> (nat \<times> phase) list" where
  "running s \<equiv> acts (cur s) (frames s)"

definition shape :: "board \<Rightarrow> bool" where
  "shape s \<longleftrightarrow> chain (cur s) (frames s) \<and> MIE s = int_on (cur s) \<and> (frames s \<noteq> [] \<longrightarrow> MPIE s)"

definition sources :: "nat list \<Rightarrow> board \<Rightarrow> bool" where
  "sources srcs s \<longleftrightarrow> set (pend s) \<subseteq> raised srcs s \<and> fst ` set (running s) \<subseteq> raised srcs s
     \<and> set (pend s) \<inter> fst ` set (running s) = {}"

text \<open>The buffer of a source: what its handler has done so far; complete or untouched otherwise.\<close>

definition idle_phase :: "nat list \<Rightarrow> board \<Rightarrow> nat \<Rightarrow> phase" where
  "idle_phase srcs s x = (if x \<in> raised srcs s \<and> x \<notin> set (pend s) then P_ret else P_enable)"

definition buffers :: "nat list \<Rightarrow> (nat \<Rightarrow> u32 list) \<Rightarrow> board \<Rightarrow> bool" where
  "buffers srcs seed s \<longleftrightarrow> (\<forall>x p. (x, p) \<in> set (running s) \<longrightarrow> buf_at (seed x) (buf_mem s x) p)
     \<and> (\<forall>x<8. x \<notin> fst ` set (running s) \<longrightarrow> buf_at (seed x) (buf_mem s x) (idle_phase srcs s x))
     \<and> (\<forall>x<8. ref_count s x = (if x \<in> raised srcs s then 1 else 0))"

definition late :: "main_pc \<Rightarrow> u32 \<Rightarrow> bool" where
  "late m flag \<longleftrightarrow> m \<in> {M_clear, M_set 1, M_disable, M_end} \<or> m = M_loop \<and> flag \<noteq> 0"

text \<open>The main program's place, seen through the handlers on top of it.\<close>

definition main_at :: "board \<Rightarrow> main_pc" where
  "main_at s = (case main_of (cur s) (frames s) of None \<Rightarrow> M_end | Some m \<Rightarrow> m)"

definition counts :: "nat list \<Rightarrow> board \<Rightarrow> bool" where
  "counts srcs s \<longleftrightarrow> (if late (main_at s) (break_flag s) then pend s = [] \<and> frames s = [] \<and> posts (host s) = MAX_TASKNUM
     else inner_count s = of_nat (card (raised srcs s - set (pend s))))"

definition in_step :: "vseq_pc \<Rightarrow> u32 \<Rightarrow> u32 \<Rightarrow> main_pc \<Rightarrow> bool" where
  "in_step h bp flag m =
     (case h of
        V_init \<Rightarrow> flag = 0 \<and> bp \<noteq> 1 \<and> bp \<noteq> 2 \<and> m \<in> {M_setup, M_wait 0}
      | V_set1 \<Rightarrow> flag = 0 \<and> bp \<noteq> 1 \<and> bp \<noteq> 2 \<and> m \<in> {M_setup, M_wait 0}
      | V_wait2 n \<Rightarrow> flag = 0 \<and> (bp = 1 \<and> m \<in> {M_setup, M_wait 0, M_wait 1, M_set 0} \<or> bp = 2 \<and> m \<in> {M_enable, M_loop, M_wait 2})
      | V_post k \<Rightarrow> flag = 0 \<and> bp = 2 \<and> m \<in> {M_enable, M_loop, M_wait 2} \<and> k \<le> MAX_TASKNUM
      | V_flag \<Rightarrow> flag = 0 \<and> bp = 2 \<and> m \<in> {M_enable, M_loop, M_wait 2}
      | V_set3 \<Rightarrow> flag = 2 \<and> bp = 2 \<and> m = M_wait 2
      | V_wait4 n \<Rightarrow> flag = 2 \<and> (bp = 3 \<and> m \<in> {M_wait 2, M_spin, M_clear, M_set 1} \<or> bp = 4 \<and> m \<in> {M_loop, M_disable, M_end})
      | V_ret b \<Rightarrow> b \<and> flag \<noteq> 0 \<and> m \<in> {M_loop, M_disable, M_end}
      | _ \<Rightarrow> flag = 2 \<and> m \<in> {M_loop, M_disable, M_end})"

text \<open>The buffers are as described from the seeding to the second \<open>initialization\<close>.\<close>

definition seeded :: "vseq_pc \<Rightarrow> bool" where
  "seeded h \<longleftrightarrow> (case h of V_init \<Rightarrow> False | V_set5 \<Rightarrow> False | V_break \<Rightarrow> False | V_ret b \<Rightarrow> False | _ \<Rightarrow> True)"

definition i2sr_inv :: "nat list \<Rightarrow> (nat \<Rightarrow> u32 list) \<Rightarrow> board \<Rightarrow> bool" where
  "i2sr_inv srcs seed s \<longleftrightarrow> shape s \<and> sources srcs s \<and> counts srcs s \<and> (seeded (host s) \<longrightarrow> buffers srcs seed s)
     \<and> in_step (host s) (bp_word s) (break_flag s) (main_at s)"

lemma in_step_main: "in_step h bp flag m \<Longrightarrow> m \<noteq> M_disable \<Longrightarrow> m \<noteq> M_end \<Longrightarrow> m \<noteq> M_clear \<Longrightarrow> m \<noteq> M_set 1 \<Longrightarrow> m \<noteq> M_loop \<Longrightarrow> \<not> late m flag"
  by (simp add: late_def)

lemma chain_main: "chain l fs \<Longrightarrow> \<exists>m. main_of l fs = Some m"
  by (induction l fs rule: chain.induct) auto

lemma running_none: "chain l fs \<Longrightarrow> acts l fs = [] \<longleftrightarrow> fs = []"
  by (induction l fs rule: chain.induct) auto

subsection \<open>A handler's step\<close>

lemma move_shape:
  assumes "shape s" "cur s = Isr i p" "frames s = f # fs" "f_mepc f' = f_mepc f"
  shows "shape (move i p' b f' fs s)" "main_at (move i p' b f' fs s) = main_at s"
    "running s = (i, p) # acts (f_mepc f) fs" "running (move i p' b f' fs s) = (i, p') # acts (f_mepc f) fs"
    "i \<notin> fst ` set (acts (f_mepc f) fs)"
  using assms by (auto simp: shape_def move_def main_at_def)

lemma move_rest:
  "host (move i p b f fs s) = host s" "bp_word (move i p b f fs s) = bp_word s" "break_flag (move i p b f fs s) = break_flag s"
  "pend (move i p b f fs s) = pend s" "ref_count (move i p b f fs s) = ref_count s" "inner_count (move i p b f fs s) = inner_count s"
  "frames (move i p b f fs s) = f # fs" "buf_mem (move i p b f fs s) = (buf_mem s)(i := b)"
  by (simp_all add: move_def)

lemma isr_keeps:
  assumes inv: "i2sr_inv srcs seed s" and c: "cur s = Isr i p" "p \<noteq> P_ret" and seeds: "\<And>x. length (seed x) = BUF_SIZE"
    and late: "\<not> late (main_at s) (break_flag s)" "seeded (host s)"
  shows "i2sr_inv srcs seed (isr_step saves i p t s)"
proof -
  have sh: "shape s" and so: "sources srcs s" and bu: "buffers srcs seed s"
    using inv late(2) by (simp_all add: i2sr_inv_def)
  obtain f fs where f: "frames s = f # fs" using sh c by (cases "frames s") (auto simp: shape_def)
  have b: "buf_at (seed i) (buf_mem s i) p" using bu c f by (simp add: buffers_def)
  have "MIE s = int_on (Isr i p)" using sh c by (simp add: shape_def)
  from isr_moves [OF c(2) f seeds b this c(1)]
  obtain p' b' f' where m: "isr_step saves i p t s = move i p' b' f' fs s" "f_mepc f' = f_mepc f" "buf_at (seed i) b' p'"
    by blast
  note mv = move_shape [OF sh c(1) f m(2)]
  have "fst ` set (running (move i p' b' f' fs s)) = fst ` set (running s)" unfolding mv by simp
  moreover have "(i, q) \<notin> set (acts (f_mepc f) fs)" for q using mv(5) by force
  then have "buffers srcs seed (move i p' b' f' fs s)"
    using bu m(3) mv(5) unfolding buffers_def mv(3,4) unfolding idle_phase_def move_rest by auto
  ultimately show ?thesis using inv mv(1,2) late unfolding m(1)
    by (simp add: i2sr_inv_def sources_def counts_def move_rest)
qed

lemma ret_keeps:
  assumes inv: "i2sr_inv srcs seed s" and c: "cur s = Isr i P_ret" 
    and late: "\<not> late (main_at s) (break_flag s)" "seeded (host s)"
  shows "i2sr_inv srcs seed (isr_step True i P_ret t s)"
proof -
  have sh: "shape s" and so: "sources srcs s" and bu: "buffers srcs seed s"
    using inv late(2) by (simp_all add: i2sr_inv_def)
  obtain f fs where f: "frames s = f # fs" using sh c by (cases "frames s") (auto simp: shape_def)
  define s' where "s' = s\<lparr>mepc := f_mepc f, cur := f_mepc f, MIE := True, MPIE := True, frames := fs\<rparr>"
  have step: "isr_step True i P_ret t s = s'" using sh c f by (simp add: isr_step_def leave_isr_def s'_def shape_def)
  have ch: "int_on (f_mepc f)" "chain (f_mepc f) fs" "i \<notin> fst ` set (acts (f_mepc f) fs)" using sh c f by (auto simp: shape_def)
  have run: "running s = (i, P_ret) # running s'" using c f by (simp add: s'_def)
  have i: "i \<in> raised srcs s" "i \<notin> set (pend s)" using so unfolding sources_def run by auto
  have "main_at s' = main_at s" using c f by (simp add: s'_def main_at_def)
  moreover have "shape s'" using ch by (simp add: shape_def s'_def)
  moreover have "sources srcs s'" using so unfolding sources_def run by (auto simp: s'_def)
  moreover have "buffers srcs seed s'"
  proof -
    have same: "idle_phase srcs s' x = idle_phase srcs s x" "buf_mem s' = buf_mem s" "ref_count s' = ref_count s" "host s' = host s" for x
      by (simp_all add: idle_phase_def s'_def)
    have "buf_at (seed i) (buf_mem s i) (idle_phase srcs s i)"
      using bu i by (simp add: buffers_def run idle_phase_def)
    then show ?thesis using bu unfolding buffers_def run same by (metis fst_conv image_insert insertCI insertE list.set(2))
  qed
  ultimately show ?thesis using inv late unfolding step by (simp add: i2sr_inv_def counts_def) (simp add: s'_def)
qed

subsection \<open>Taking an interrupt\<close>

lemma irq_keeps:
  assumes inv: "i2sr_inv srcs seed s" and en: "MIE s" "src \<in> set (pend s)" and w: "distinct srcs" "set srcs \<subseteq> {1..<8}"
    and late: "\<not> late (main_at s) (break_flag s)" "seeded (host s)"
  shows "i2sr_inv srcs seed (take_irq src t s)"
proof -
  define s' where "s' = take_irq src t s"
  have sh: "shape s" and so: "sources srcs s" and bu: "buffers srcs seed s"
    using inv late(2) by (simp_all add: i2sr_inv_def)
  have run: "running s' = (src, P_enable) # running s" by (simp add: s'_def take_irq_def)
  have src: "src \<in> raised srcs s" "src \<notin> fst ` set (running s)" using so en(2) by (auto simp: sources_def)
  then have "src < 8" using w(2) set_take_subset [of "posts (host s)" srcs] by auto
  have "main_at s' = main_at s" by (simp add: s'_def take_irq_def main_at_def)
  moreover have "shape s'" using sh en src(2) by (auto simp: shape_def s'_def take_irq_def)
  moreover have "sources srcs s'" using so src unfolding sources_def run by (auto simp: s'_def take_irq_def)
  moreover have "buffers srcs seed s'"
    using bu src \<open>src < 8\<close> en(2) unfolding buffers_def run by (auto simp: s'_def take_irq_def idle_phase_def)
  moreover have "counts srcs s'"
  proof -
    have "raised srcs s - set (pend s') = insert src (raised srcs s - set (pend s))" "src \<notin> raised srcs s - set (pend s)"
      using src en(2) by (auto simp: s'_def take_irq_def)
    moreover have "inner_count s' = inner_count s + 1" "break_flag s' = break_flag s" "host s' = host s" by (simp_all add: s'_def take_irq_def)
    ultimately show ?thesis using inv late \<open>main_at s' = main_at s\<close> by (simp add: i2sr_inv_def counts_def)
  qed
  ultimately show ?thesis using inv unfolding s'_def [symmetric] by (simp add: i2sr_inv_def) (simp add: s'_def take_irq_def)
qed

subsection \<open>The main program and the host\<close>

definition settled :: "nat list \<Rightarrow> (nat \<Rightarrow> u32 list) \<Rightarrow> board \<Rightarrow> bool" where
  "settled srcs seed s \<longleftrightarrow> (\<forall>x<8. buf_at (seed x) (buf_mem s x) (idle_phase srcs s x)
     \<and> ref_count s x = (if x \<in> raised srcs s then 1 else 0))"

lemma main_inv:
  assumes "cur s = Main m"
  shows "i2sr_inv srcs seed s \<longleftrightarrow> frames s = [] \<and> MIE s = main_on m \<and> set (pend s) \<subseteq> raised srcs s
    \<and> (if late m (break_flag s) then pend s = [] \<and> posts (host s) = MAX_TASKNUM
       else inner_count s = of_nat (card (raised srcs s - set (pend s))))
    \<and> (seeded (host s) \<longrightarrow> settled srcs seed s) \<and> in_step (host s) (bp_word s) (break_flag s) m"
  using assms by (auto simp: i2sr_inv_def shape_def sources_def counts_def buffers_def settled_def main_at_def)

lemma settled_frame [simp]:
  "settled srcs seed (s\<lparr>cur := l\<rparr>) = settled srcs seed s" "settled srcs seed (s\<lparr>MIE := b\<rparr>) = settled srcs seed s"
  "settled srcs seed (s\<lparr>bp_word := v\<rparr>) = settled srcs seed s" "settled srcs seed (s\<lparr>break_flag := v\<rparr>) = settled srcs seed s"
  "settled srcs seed (s\<lparr>inner_count := v\<rparr>) = settled srcs seed s"
  by (simp_all add: settled_def idle_phase_def)

lemma all_taken:
  assumes "inner_count s = of_nat (card (raised srcs s - set (pend s)))" "inner_count s = 5"
    "set (pend s) \<subseteq> raised srcs s" "length srcs = 5"
  shows "pend s = []"
proof -
  have r: "card (raised srcs s) \<le> 5" using card_length [of "take (posts (host s)) srcs"] assms(4) by simp
  have d: "card (raised srcs s - set (pend s)) = card (raised srcs s) - card (set (pend s))"
    using assms(3) by (intro card_Diff_subset) auto
  have "unat (of_nat (card (raised srcs s - set (pend s))) :: u32) = unat (5 :: u32)" using assms(1,2) by simp
  moreover have "card (raised srcs s - set (pend s)) < 2 ^ 32" using r d by simp
  ultimately have "card (raised srcs s - set (pend s)) = 5" by (simp add: unat_of_nat)
  with r d have "card (set (pend s)) = 0" by linarith
  then show ?thesis by simp
qed

lemma nothing_raised: "in_step h bp flag m \<Longrightarrow> m \<in> {M_setup, M_wait 0, M_wait 1, M_set 0} \<Longrightarrow> posts h = 0"
  by (auto simp: in_step_def posts_def split: vseq_pc.splits)

lemma wait_cases: "in_step h bp flag (M_wait w) \<Longrightarrow> w = 0 \<or> w = 1 \<or> w = 2" "in_step h bp flag (M_set w) \<Longrightarrow> w = 0 \<or> w = 1"
  by (auto simp: in_step_def split: vseq_pc.splits)

lemma main_keeps:
  assumes inv: "i2sr_inv srcs seed s" and c: "cur s = Main m" and w: "length srcs = 5"
  shows "i2sr_inv srcs seed (main_step m s)"
proof -
  note i = inv [unfolded main_inv [OF c]]
  have st: "in_step (host s) (bp_word s) (break_flag s) m" using i by simp
  show ?thesis
  proof (cases m)
    case M_setup
    then have "pend s = []" using i nothing_raised [OF st] by simp
    then have "main_step m s = s\<lparr>break_flag := 0, cur := Main (M_wait 0)\<rparr>" by (simp add: main_step_def M_setup)
    then show ?thesis using i st unfolding M_setup
      by (subst main_inv [where m = "M_wait 0"]) (auto simp: main_on_def late_def in_step_def split: vseq_pc.splits)
  next
    case (M_wait k)
    consider "bp_word s \<noteq> wait_num k" | "k = 0" "bp_word s = 1" | "k = 1" "bp_word s = 1" | "k = 2" "bp_word s = 3"
      using wait_cases(1) [OF st [unfolded M_wait]] by (cases "bp_word s = wait_num k") (auto simp: wait_num_def)
    then show ?thesis
    proof cases
      case 1
      then show ?thesis using inv by (simp add: main_step_def M_wait)
    next
      case 2
      then show ?thesis using i st unfolding M_wait main_step_def
        by (subst main_inv [where m = "M_wait 1"]) (auto simp: main_on_def late_def in_step_def wait_num_def set_num_def split: vseq_pc.splits)
    next
      case 3
      then show ?thesis using i st unfolding M_wait main_step_def
        by (subst main_inv [where m = "M_set 0"]) (auto simp: main_on_def late_def in_step_def wait_num_def set_num_def split: vseq_pc.splits)
    next
      case 4
      then show ?thesis using i st unfolding M_wait main_step_def
        by (subst main_inv [where m = "M_spin"]) (auto simp: main_on_def late_def in_step_def wait_num_def set_num_def split: vseq_pc.splits)
    qed
  next
    case (M_set k)
    consider "k = 0" | "k = 1" using wait_cases(2) st M_set by blast
    then show ?thesis
    proof cases
      case 1
      then show ?thesis using i st unfolding M_set main_step_def
        by (subst main_inv [where m = "M_enable"]) (auto simp: main_on_def late_def in_step_def wait_num_def set_num_def split: vseq_pc.splits)
    next
      case 2
      then show ?thesis using i st unfolding M_set main_step_def
        by (subst main_inv [where m = "M_loop"]) (auto simp: main_on_def late_def in_step_def wait_num_def set_num_def split: vseq_pc.splits)
    qed
  next
    case M_enable
    then show ?thesis using i st unfolding M_enable main_step_def
      by (subst main_inv [where m = "M_loop"]) (auto simp: main_on_def late_def in_step_def wait_num_def set_num_def split: vseq_pc.splits)
  next
    case M_loop
    show ?thesis
    proof (cases "break_flag s = 0")
      case True
      then show ?thesis using i st unfolding M_loop main_step_def
        by (subst main_inv [where m = "M_wait 2"]) (auto simp: main_on_def late_def in_step_def split: vseq_pc.splits)
    next
      case False
      then show ?thesis using i st unfolding M_loop main_step_def
        by (subst main_inv [where m = M_disable]) (auto simp: main_on_def late_def in_step_def split: vseq_pc.splits)
    qed
  next
    case M_clear
    then show ?thesis using i st unfolding M_clear main_step_def
      by (subst main_inv [where m = "M_set 1"]) (auto simp: main_on_def late_def in_step_def wait_num_def set_num_def split: vseq_pc.splits)
  next
    case M_disable
    then show ?thesis using i st unfolding M_disable main_step_def
      by (subst main_inv [where m = "M_end"]) (auto simp: main_on_def late_def in_step_def wait_num_def set_num_def split: vseq_pc.splits)
  next
    case M_spin
    show ?thesis
    proof (cases "inner_count s = 5")
      case True
      have p: "posts (host s) = MAX_TASKNUM" using st M_spin by (auto simp: in_step_def posts_def split: vseq_pc.splits)
      have "pend s = []" using i True w by (intro all_taken [of s srcs]) (simp_all add: M_spin late_def)
      then show ?thesis using i st p True unfolding M_spin main_step_def
        by (subst main_inv [where m = M_clear]) (auto simp: main_on_def late_def in_step_def split: vseq_pc.splits)
    qed (use inv M_spin in \<open>simp add: main_step_def\<close>)
  qed (use inv in \<open>simp add: main_step_def\<close>)
qed

lemma posted_frame:
  "shape (s\<lparr>host := h\<rparr>) = shape s" "shape (s\<lparr>bp_word := v\<rparr>) = shape s" "shape (s\<lparr>break_flag := w\<rparr>) = shape s"
  "main_at (s\<lparr>host := h\<rparr>) = main_at s" "main_at (s\<lparr>bp_word := v\<rparr>) = main_at s" "main_at (s\<lparr>break_flag := w\<rparr>) = main_at s"
  by (simp_all add: shape_def main_at_def)

text \<open>A host step that raises nothing and leaves the buffers alone.\<close>

lemma host_moves:
  assumes "i2sr_inv srcs seed s" "posts h = posts (host s)" "seeded h \<longrightarrow> seeded (host s)"
  shows host_goes: "in_step h (bp_word s) (break_flag s) (main_at s) \<Longrightarrow> i2sr_inv srcs seed (s\<lparr>host := h\<rparr>)"
    and host_sets: "in_step h v (break_flag s) (main_at s) \<Longrightarrow> i2sr_inv srcs seed (s\<lparr>bp_word := v, host := h\<rparr>)"
    and host_flags: "in_step h (bp_word s) v (main_at s) \<Longrightarrow> late (main_at s) v = late (main_at s) (break_flag s) \<Longrightarrow>
      i2sr_inv srcs seed (s\<lparr>break_flag := v, host := h\<rparr>)"
  using assms
  by (simp_all add: i2sr_inv_def posted_frame sources_def counts_def buffers_def idle_phase_def)

lemma seeding: "length ds = BUF_SIZE \<Longrightarrow> buf_at ds (fresh_buf ds) P_enable"
  by (simp add: fresh_buf_def buf_at_def cells_at_def stage_def list_eq_iff_nth_eq)

lemma seeds_keeps:
  assumes "i2sr_inv srcs seed s" "\<And>x. length (seed x) = BUF_SIZE" "host s = V_init"
  shows "i2sr_inv srcs seed ((initialization seed s)\<lparr>host := V_set1\<rparr>)"
proof -
  have r: "raised srcs s = {}" using assms(3) by (simp add: posts_def)
  then have "fst ` set (running s) = {}" using assms(1) by (auto simp: i2sr_inv_def sources_def)
  then have none: "running s = []" by simp
  have f: "shape ((initialization seed s)\<lparr>host := V_set1\<rparr>) = shape s" "main_at ((initialization seed s)\<lparr>host := V_set1\<rparr>) = main_at s"
    "running ((initialization seed s)\<lparr>host := V_set1\<rparr>) = running s" "break_flag (initialization seed s) = break_flag s"
    "bp_word (initialization seed s) = bp_word s" "inner_count (initialization seed s) = inner_count s" "pend (initialization seed s) = pend s"
    "cur (initialization seed s) = cur s" "frames (initialization seed s) = frames s"
    by (simp_all add: shape_def main_at_def initialization_def)
  have "buffers srcs seed ((initialization seed s)\<lparr>host := V_set1\<rparr>)"
    unfolding buffers_def f none
    by (simp add: idle_phase_def posts_def) (simp add: initialization_def seeding assms(2))
  then show ?thesis using assms(1,3) r none
    by (auto simp: i2sr_inv_def f sources_def counts_def in_step_def posts_def late_def)
qed

lemma take_new:
  assumes "distinct srcs" "k < length srcs"
  shows "set (take (Suc k) srcs) = insert (srcs ! k) (set (take k srcs))" "srcs ! k \<notin> set (take k srcs)"
  using assms by (auto simp: take_Suc_conv_app_nth in_set_conv_nth nth_eq_iff_index_eq)

lemma post_keeps:
  assumes inv: "i2sr_inv srcs seed s" and h: "host s = V_post k" "k < MAX_TASKNUM"
    and w: "distinct srcs" "length srcs = 5" "set srcs \<subseteq> {1..<8}"
  shows "i2sr_inv srcs seed (vseq_step srcs seed s)"
proof -
  let ?x = "srcs ! k"
  define s' where "s' = vseq_step srcs seed s"
  have s': "s' = s\<lparr>ref_count := (ref_count s)(?x := ref_count s ?x + 1), pend := ?x # pend s, host := V_post (Suc k)\<rparr>"
    using h by (simp add: s'_def vseq_step_def Let_def)
  have k: "k < length srcs" using h(2) w(2) by (simp add: MAX_TASKNUM_def)
  have r: "raised srcs s = set (take k srcs)" "raised srcs s' = insert ?x (raised srcs s)" "?x \<notin> raised srcs s"
    using h(1) take_new [OF w(1) k] by (simp_all add: posts_def s')
  have l: "\<not> late (main_at s) (break_flag s)" using inv h by (auto simp: i2sr_inv_def in_step_def late_def)
  have so: "sources srcs s" and co: "counts srcs s" and bu: "buffers srcs seed s"
    using inv h(1) by (simp_all add: i2sr_inv_def seeded_def)
  have x: "?x \<notin> set (pend s)" "?x \<notin> fst ` set (running s)" using so r(3) by (auto simp: sources_def)
  have f: "running s' = running s" "main_at s' = main_at s" "shape s' = shape s" "pend s' = ?x # pend s" "buf_mem s' = buf_mem s"
    "host s' = V_post (Suc k)" "break_flag s' = break_flag s" "bp_word s' = bp_word s" "inner_count s' = inner_count s"
    by (simp_all add: s' main_at_def shape_def)
  have "sources srcs s'" using so x unfolding sources_def r(2) unfolding f by auto
  moreover have "counts srcs s'"
  proof -
    have "insert ?x (raised srcs s) - set (?x # pend s) = raised srcs s - set (pend s)" using r(3) x by auto
    then show ?thesis using co l unfolding counts_def r(2) unfolding f by simp
  qed
  moreover have "buffers srcs seed s'"
  proof -
    have "idle_phase srcs s' y = idle_phase srcs s y" for y using x r(3) unfolding idle_phase_def r(2) unfolding f by auto
    moreover have "ref_count s' y = (if y \<in> raised srcs s' then 1 else 0)" if "y < 8" for y
      using bu that r(2,3) by (auto simp: buffers_def s')
    ultimately show ?thesis using bu unfolding buffers_def f by simp
  qed
  ultimately show ?thesis using inv h l unfolding s'_def [symmetric] by (simp add: i2sr_inv_def f in_step_def)
qed

subsection \<open>The check\<close>

lemma check_cells_ok: "check_cells (map (\<lambda>d. (d, expected d (unat n) 0)) ds) ds n pass = Some pass"
  by (induction ds) simp_all

lemma check_bufs_ok:
  "(\<And>i. i \<in> set is \<Longrightarrow> count (b i) = n i \<and> cells (b i) = map (\<lambda>d. (d, expected d (unat (n i)) 0)) (seed i)) \<Longrightarrow>
    check_bufs is seed n b pass = pass"
  by (induction "is") (simp_all add: check_cells_ok)

lemma cells_at_ends:
  "cells_at ds 0 0 = map (\<lambda>d. (d, 0)) ds" "cells_at ds (length ds) 0 = map (\<lambda>d. (d, d div 7 * 3)) ds"
  by (auto simp: cells_at_def stage_def intro!: nth_equalityI)

lemma check_passes:
  assumes inv: "i2sr_inv srcs seed s" and h: "host s = V_check" and w: "length srcs = 5" and seeds: "\<And>x. length (seed x) = BUF_SIZE"
  shows "I2SR_int_muldiv_check seed (ref_count s) (buf_mem s)"
proof -
  have l: "late (main_at s) (break_flag s)" using inv h by (auto simp: i2sr_inv_def in_step_def late_def)
  have p: "posts (host s) = length srcs" using h w by (simp add: posts_def MAX_TASKNUM_def)
  have "pend s = []" "frames s = []" using inv l by (auto simp: i2sr_inv_def counts_def)
  then have run: "running s = []" using inv by (auto simp: i2sr_inv_def shape_def running_none)
  have b: "buf_at (seed x) (buf_mem s x) (if x \<in> set srcs then P_ret else P_enable)" "ref_count s x = (if x \<in> set srcs then 1 else 0)"
    if "x < 8" for x
    using inv h p run \<open>pend s = []\<close> that by (simp_all add: i2sr_inv_def seeded_def buffers_def idle_phase_def)
  show ?thesis unfolding I2SR_int_muldiv_check_def
  proof (subst check_bufs_ok)
    fix x :: nat
    assume "x \<in> set [1..<8]"
    then have "x < 8" by simp
    from b [OF this] show "count (buf_mem s x) = ref_count s x
        \<and> cells (buf_mem s x) = map (\<lambda>d. (d, expected d (unat (ref_count s x)) 0)) (seed x)"
      using cells_at_ends [of "seed x"] by (auto simp: buf_at_def seeds split: if_splits)
  qed simp
qed

lemma host_keeps:
  assumes inv: "i2sr_inv srcs seed s" and t: "on_schedule s" and w: "distinct srcs" "length srcs = 5" "set srcs \<subseteq> {1..<8}"
    and seeds: "\<And>x. length (seed x) = BUF_SIZE"
  shows "i2sr_inv srcs seed (vseq_step srcs seed s)"
proof -
  have st: "in_step (host s) (bp_word s) (break_flag s) (main_at s)" using inv by (simp add: i2sr_inv_def)
  note go = host_goes [OF inv] host_sets [OF inv] host_flags [OF inv]
  show ?thesis
  proof (cases "host s")
    case V_init
    then show ?thesis using seeds_keeps [OF inv seeds V_init] by (simp add: vseq_step_def)
  next
    case V_set1
    then show ?thesis using st by (auto simp: vseq_step_def posts_def seeded_def in_step_def intro!: go)
  next
    case (V_wait2 n)
    then show ?thesis using st t by (auto simp: vseq_step_def vseq_wait_bp_def on_schedule_def posts_def seeded_def in_step_def intro!: go)
  next
    case (V_post k)
    show ?thesis
    proof (cases "k < MAX_TASKNUM")
      case True
      then show ?thesis using post_keeps [OF inv V_post _ w] by simp
    next
      case False
      then show ?thesis using st V_post by (auto simp: vseq_step_def posts_def seeded_def in_step_def intro!: go)
    qed
  next
    case V_flag
    obtain m where "main_of (cur s) (frames s) = Some m" using inv chain_main by (fastforce simp: i2sr_inv_def shape_def)
    then have "main_at s = M_wait 2" using st t V_flag by (auto simp: in_step_def on_schedule_def main_at_def)
    then show ?thesis using st V_flag by (auto simp: vseq_step_def posts_def seeded_def in_step_def late_def intro!: go)
  next
    case V_set3
    then show ?thesis using st by (auto simp: vseq_step_def posts_def seeded_def in_step_def intro!: go)
  next
    case (V_wait4 n)
    then show ?thesis using st t by (auto simp: vseq_step_def vseq_wait_bp_def on_schedule_def posts_def seeded_def in_step_def intro!: go)
  next
    case V_check
    then show ?thesis using st check_passes [OF inv V_check w(2) seeds]
      by (auto simp: vseq_step_def posts_def seeded_def in_step_def intro!: go)
  next
    case V_reinit
    then show ?thesis using inv
      by (simp add: vseq_step_def i2sr_inv_def seeded_def in_step_def shape_def sources_def counts_def main_at_def initialization_def posts_def)
  next
    case V_set5
    then show ?thesis using st by (auto simp: vseq_step_def posts_def seeded_def in_step_def intro!: go)
  next
    case V_break
    then show ?thesis using st by (auto simp: vseq_step_def posts_def seeded_def in_step_def late_def intro!: go)
  next
    case (V_ret b)
    then show ?thesis using inv by (simp add: vseq_step_def)
  qed
qed

subsection \<open>All steps\<close>

lemma busy:
  assumes "i2sr_inv srcs seed s" "cur s = Isr i p \<or> pend s \<noteq> []"
  shows "\<not> late (main_at s) (break_flag s)" "seeded (host s)"
proof -
  have "frames s \<noteq> [] \<or> pend s \<noteq> []" using assms by (cases "frames s") (auto simp: i2sr_inv_def shape_def)
  then show l: "\<not> late (main_at s) (break_flag s)" using assms(1) by (auto simp: i2sr_inv_def counts_def split: if_splits)
  have "running s \<noteq> [] \<or> pend s \<noteq> []" using assms by (auto simp: i2sr_inv_def shape_def running_none)
  then have "raised srcs s \<noteq> {}" using assms(1) by (auto simp: i2sr_inv_def sources_def)
  then have "posts (host s) \<noteq> 0" by (cases "posts (host s) = 0") auto
  then show "seeded (host s)" using assms(1) l
    by (auto simp: i2sr_inv_def in_step_def seeded_def posts_def late_def split: vseq_pc.splits)
qed

definition proper_run :: "nat list \<Rightarrow> (nat \<Rightarrow> u32 list) \<Rightarrow> bool" where
  "proper_run srcs seed \<longleftrightarrow> distinct srcs \<and> length srcs = MAX_TASKNUM \<and> set srcs \<subseteq> {1..<8} \<and> (\<forall>x. length (seed x) = BUF_SIZE)"

lemma steps_keep:
  assumes "i2sr_steps True srcs seed s q" "proper_run srcs seed" "i2sr_inv srcs seed s"
  shows "i2sr_inv srcs seed q"
  using assms
proof (induction rule: i2sr_steps.induct)
  case (dut q t)
  then have inv: "i2sr_inv srcs seed q" and w: "length srcs = 5" and sd: "\<And>x. length (seed x) = BUF_SIZE"
    by (simp_all add: proper_run_def MAX_TASKNUM_def)
  show ?case
  proof (cases "cur q")
    case (Main m)
    then show ?thesis using main_keeps [OF inv Main w] by (simp add: fw_step_def)
  next
    case (Isr i p)
    then show ?thesis
      using isr_keeps [OF inv Isr _ sd busy [OF inv disjI1 [OF Isr]]] ret_keeps [OF inv _ busy [OF inv disjI1 [OF Isr]]]
      by (cases "p = P_ret") (simp_all add: fw_step_def)
  qed
next
  case (irq q src t)
  then have "pend q \<noteq> []" by auto
  then show ?case using irq irq_keeps [OF _ irq(2,3) _ _ busy [OF _ disjI2]] by (simp add: proper_run_def)
next
  case (host q)
  then show ?case using host_keeps [OF _ host(2)] by (simp add: proper_run_def MAX_TASKNUM_def)
qed

lemma start_inv: "bp \<noteq> 1 \<Longrightarrow> bp \<noteq> 2 \<Longrightarrow> i2sr_inv srcs seed (i2sr_start bp b)"
  by (simp add: main_inv [where m = M_setup] i2sr_start_def main_on_def late_def in_step_def seeded_def posts_def)

lemma steps_trans: "i2sr_steps v srcs seed s q \<Longrightarrow> i2sr_steps v srcs seed r s \<Longrightarrow> i2sr_steps v srcs seed r q"
  by (induction rule: i2sr_steps.induct) (auto intro: i2sr_steps.intros)

subsection \<open>A handler runs to its end\<close>

fun rank :: "phase \<Rightarrow> nat" where
  "rank P_enable = 10000" | "rank (P_loop i k) = 1000 + 3 * (BUF_SIZE - i) + (2 - k)" | "rank P_time = 7" | "rank P_min = 6" | "rank P_max = 5"
| "rank P_tot = 4" | "rank P_count = 3" | "rank P_disable = 2" | "rank P_ret = 1"

text \<open>What a handler does not touch.\<close>

definition same_outside :: "board \<Rightarrow> board \<Rightarrow> bool" where
  "same_outside s q \<longleftrightarrow> map f_mepc (frames q) = map f_mepc (frames s) \<and> mepc q = mepc s \<and> MPIE q = MPIE s \<and> pend q = pend s
     \<and> inner_count q = inner_count s \<and> host q = host s \<and> bp_word q = bp_word s \<and> break_flag q = break_flag s"

lemma isr_advances:
  assumes "cur s = Isr i p" "p \<noteq> P_ret"
  shows "\<exists>p'. cur (fw_step v t s) = Isr i p' \<and> rank p' < rank p \<and> same_outside s (fw_step v t s)
    \<and> count (buf_mem (fw_step v t s) i) + (if p' \<in> {P_disable, P_ret} then 0 else 1)
      = count (buf_mem s i) + (if p \<in> {P_disable, P_ret} then 0 else 1)
    \<and> (\<forall>x. x \<noteq> i \<longrightarrow> buf_mem (fw_step v t s) x = buf_mem s x)"
  using assms
  by (cases p) (auto simp: fw_step_def isr_step_def Let_def same_outside_def put_buf_def set_local_time_def BUF_SIZE_def split: list.splits)

lemma isr_to_ret:
  assumes "cur s = Isr i p"
  shows "\<exists>q. i2sr_steps v srcs seed s q \<and> cur q = Isr i P_ret \<and> same_outside s q
    \<and> count (buf_mem q i) = count (buf_mem s i) + (if p \<in> {P_disable, P_ret} then 0 else 1)
    \<and> (\<forall>x. x \<noteq> i \<longrightarrow> buf_mem q x = buf_mem s x)"
  using assms
proof (induction "rank p" arbitrary: s p rule: less_induct)
  case less
  show ?case
  proof (cases "p = P_ret")
    case True
    then show ?thesis using less(2) by (intro exI [of _ s]) (auto simp: same_outside_def intro: i2sr_steps.stay)
  next
    case False
    let ?s = "fw_step v 0 s"
    obtain p' where p': "cur ?s = Isr i p'" "rank p' < rank p" "same_outside s ?s"
      "count (buf_mem ?s i) + (if p' \<in> {P_disable, P_ret} then 0 else 1) = count (buf_mem s i) + (if p \<in> {P_disable, P_ret} then 0 else 1)"
      "\<forall>x. x \<noteq> i \<longrightarrow> buf_mem ?s x = buf_mem s x"
      using isr_advances [OF less(2) False] by blast
    obtain q where q: "i2sr_steps v srcs seed ?s q" "cur q = Isr i P_ret" "same_outside ?s q"
      "count (buf_mem q i) = count (buf_mem ?s i) + (if p' \<in> {P_disable, P_ret} then 0 else 1)"
      "\<forall>x. x \<noteq> i \<longrightarrow> buf_mem q x = buf_mem ?s x"
      using less(1) [OF p'(2) p'(1)] by blast
    have "i2sr_steps v srcs seed s q" by (rule steps_trans [OF q(1)]) (intro i2sr_steps.intros)
    then show ?thesis using q p'(3-5) by (intro exI [of _ q]) (auto simp: same_outside_def)
  qed
qed

text \<open>C28: The nested test depends on a prologue that keeps \<open>mepc\<close>. Without one, two sources pending
  while the main program runs are enough to lose it: the second is taken inside the handler of the
  first, and the first handler, after counting its interrupt, returns into its own loop. No frame is
  left that leads back to the main program.\<close>

theorem nesting_needs_mepc:
  assumes "cur s = Main m" "MIE s" "frames s = []" "i \<in> set (pend s)" "j \<in> set (pend s)" "i \<noteq> j"
  shows "\<exists>q. i2sr_steps False srcs seed s q \<and> cur q = Isr i (P_loop 0 0) \<and> frames q = []
    \<and> main_of (cur q) (frames q) = None \<and> count (buf_mem q i) = count (buf_mem s i) + 1"
proof -
  let ?run = "i2sr_steps False srcs seed"
  define a where "a = fw_step False 0 (take_irq i 0 s)"
  have a: "?run s a" unfolding a_def by (intro i2sr_steps.intros assms)
  have fa: "cur a = Isr i (P_loop 0 0)" "MIE a" "map f_mepc (frames a) = [Main m]" "j \<in> set (pend a)" "buf_mem a = buf_mem s"
    using assms by (simp_all add: a_def fw_step_def isr_step_def take_irq_def)
  define b where "b = take_irq j 0 a"
  have b: "?run a b" unfolding b_def by (intro i2sr_steps.intros fa)
  have fb: "cur b = Isr j P_enable" "mepc b = Isr i (P_loop 0 0)" "tl (map f_mepc (frames b)) = [Main m]" "buf_mem b = buf_mem s" "MPIE b"
    using fa by (simp_all add: b_def take_irq_def)
  obtain c where c: "?run b c" "cur c = Isr j P_ret" "same_outside b c" "\<forall>x. x \<noteq> j \<longrightarrow> buf_mem c x = buf_mem b x"
    using isr_to_ret [OF fb(1)] by blast
  define d where "d = fw_step False 0 c"
  have d: "?run c d" unfolding d_def by (intro i2sr_steps.intros)
  have fd: "cur d = Isr i (P_loop 0 0)" "mepc d = Isr i (P_loop 0 0)" "map f_mepc (frames d) = [Main m]" "buf_mem d = buf_mem c"
    using c(2,3) fb by (simp_all add: d_def fw_step_def isr_step_def leave_isr_def same_outside_def map_tl)
  obtain e where e: "?run d e" "cur e = Isr i P_ret" "same_outside d e" "count (buf_mem e i) = count (buf_mem d i) + 1"
    using isr_to_ret [OF fd(1), of False srcs seed] by auto
  define q where "q = fw_step False 0 e"
  have q: "?run e q" unfolding q_def by (intro i2sr_steps.intros)
  have "tl (frames e) = []" using e(3) fd(3) by (cases "frames e") (auto simp: same_outside_def)
  then have "cur q = Isr i (P_loop 0 0)" "frames q = []" "buf_mem q = buf_mem e"
    using e(2,3) fd(2) by (simp_all add: q_def fw_step_def isr_step_def leave_isr_def same_outside_def)
  moreover have "?run s q" using a b c(1) d e(1) q by (meson steps_trans)
  ultimately show ?thesis using e(4) fd(4) c(4) fb(4) assms(6) by auto
qed

definition two_pending :: board where
  "two_pending = (i2sr_start 0 (\<lambda>_. fresh_buf []))\<lparr>cur := Main M_spin, MIE := True, pend := [3, 6]\<rparr>"

lemma nesting_needs_mepc_witness:
  "\<exists>q. i2sr_steps False [3, 6] (\<lambda>_. []) two_pending q \<and> cur q = Isr 3 (P_loop 0 0) \<and> frames q = []
    \<and> main_of (cur q) (frames q) = None \<and> count (buf_mem q 3) = count (buf_mem two_pending 3) + 1"
  by (rule nesting_needs_mepc [where j = 6]) (simp_all add: two_pending_def i2sr_start_def)

text \<open>The exit flag is raised before the mark 3: if the device has not yet tested it, the device leaves
  without taking part in the round, and the mark 4 never comes.\<close>

lemma exit_flag_race:
  assumes "host s = V_flag" "cur s = Main M_loop" "bp_word s = 2" "pend s = []"
  shows "let q = vseq_step srcs seed (fw_step v 0 (fw_step v 0 (vseq_step srcs seed s)))
    in cur q = Main M_end \<and> host q = V_wait4 0 \<and> bp_word q = 3 \<and> fw_step v t q = q \<and> pend q = []"
  using assms by (simp add: vseq_step_def fw_step_def main_step_def)

section \<open>Every round can be finished\<close>

lemma main_of_map: "map f_mepc fs = map f_mepc gs \<Longrightarrow> main_of l fs = main_of l gs"
proof (induction l fs arbitrary: gs rule: main_of.induct)
  case (3 i p f fs)
  then obtain g hs where g: "gs = g # hs" "f_mepc g = f_mepc f" "map f_mepc fs = map f_mepc hs" by (cases gs) auto
  show ?case using 3(1) [OF g(3)] g(2) by (simp add: g(1))
qed auto

definition same_shared :: "board \<Rightarrow> board \<Rightarrow> bool" where
  "same_shared s q \<longleftrightarrow> host q = host s \<and> bp_word q = bp_word s \<and> break_flag q = break_flag s"

lemma drain:
  assumes "proper_run srcs seed" "i2sr_inv srcs seed s"
  shows "\<exists>q. i2sr_steps True srcs seed s q \<and> cur q = Main (main_at s) \<and> same_shared s q \<and> pend q = pend s"
  using assms(2)
proof (induction "length (frames s)" arbitrary: s)
  case 0
  then show ?case by (intro exI [of _ s]) (cases "cur s"; auto simp: i2sr_inv_def shape_def main_at_def same_shared_def intro: i2sr_steps.stay)
next
  case (Suc n)
  obtain i p where c: "cur s = Isr i p" using Suc(2,3) by (cases "cur s") (auto simp: i2sr_inv_def shape_def)
  obtain q where q: "i2sr_steps True srcs seed s q" "cur q = Isr i P_ret" "same_outside s q" using isr_to_ret [OF c] by blast
  have iq: "i2sr_inv srcs seed q" by (rule steps_keep [OF q(1) assms(1) Suc(3)])
  obtain f fs where f: "frames q = f # fs" using iq q(2) by (cases "frames q") (auto simp: i2sr_inv_def shape_def)
  let ?r = "fw_step True 0 q"
  have r: "i2sr_steps True srcs seed q ?r" by (intro i2sr_steps.intros)
  have fr: "cur ?r = f_mepc f" "frames ?r = fs" "same_shared q ?r" "pend ?r = pend q"
    using q(2) f by (simp_all add: fw_step_def isr_step_def leave_isr_def same_shared_def)
  have m: "map f_mepc (frames s) = f_mepc f # map f_mepc fs" using q(3) f by (simp add: same_outside_def)
  have n: "n = length (frames ?r)" using m Suc(2) fr(2) by (metis length_Cons length_map old.nat.inject)
  obtain g gs where g: "frames s = g # gs" "f_mepc g = f_mepc f" "map f_mepc gs = map f_mepc fs" using m by (cases "frames s") auto
  have "main_of (Isr i p) (frames s) = main_of (f_mepc f) fs" using main_of_map [OF g(3)] g(2) by (simp add: g(1))
  then have "main_at ?r = main_at s" by (simp add: main_at_def c fr)
  moreover have ir: "i2sr_inv srcs seed ?r" by (rule steps_keep [OF r assms(1) iq])
  ultimately obtain e where "i2sr_steps True srcs seed ?r e" "cur e = Main (main_at s)" "same_shared ?r e" "pend e = pend ?r"
    using Suc(1) [OF n ir] by auto
  then show ?case using q(1,3) r fr(3,4)
    by (intro exI [of _ e]) (auto simp: same_shared_def same_outside_def intro: steps_trans)
qed

lemma take_all:
  assumes "proper_run srcs seed" "i2sr_inv srcs seed s" "cur s = Main m" "main_on m"
  shows "\<exists>q. i2sr_steps True srcs seed s q \<and> cur q = Main m \<and> same_shared s q \<and> pend q = []"
  using assms(2,3)
proof (induction "length (pend s)" arbitrary: s rule: less_induct)
  case less
  show ?case
  proof (cases "pend s")
    case Nil
    then show ?thesis using less(3) by (intro exI [of _ s]) (auto simp: same_shared_def intro: i2sr_steps.stay)
  next
    case (Cons x xs)
    let ?t = "take_irq x 0 s"
    have "MIE s" using less(2,3) assms(4) by (simp add: main_inv)
    then have t: "i2sr_steps True srcs seed s ?t" using Cons by (intro i2sr_steps.intros) auto
    have it: "i2sr_inv srcs seed ?t" by (rule steps_keep [OF t assms(1) less(2)])
    have "main_at ?t = m" using less(3) by (simp add: take_irq_def main_at_def)
    then obtain q where q: "i2sr_steps True srcs seed ?t q" "cur q = Main m" "same_shared ?t q" "pend q = pend ?t"
      using drain [OF assms(1) it] by auto
    have "length (pend q) < length (pend s)"
      using q(4) Cons by (simp add: take_irq_def removeAll_filter_not_eq le_imp_less_Suc)
    then obtain r where "i2sr_steps True srcs seed q r" "cur r = Main m" "same_shared q r" "pend r = []"
      using less(1) steps_keep [OF q(1) assms(1) it] q(2) by blast
    then show ?thesis using t q(1,3)
      by (intro exI [of _ r]) (auto simp: same_shared_def take_irq_def intro: steps_trans)
  qed
qed

text \<open>The waits of the host still have polls left.\<close>

definition patient :: "board \<Rightarrow> bool" where
  "patient s = (case host s of V_wait2 n \<Rightarrow> n < VERIF_BP_TIMEOUT | V_wait4 n \<Rightarrow> n < VERIF_BP_TIMEOUT | _ \<Rightarrow> True)"

fun host_rank :: "vseq_pc \<Rightarrow> nat" where
  "host_rank V_init = 17" | "host_rank V_set1 = 16" | "host_rank (V_wait2 n) = 15" | "host_rank (V_post k) = 14 - k"
| "host_rank V_flag = 8" | "host_rank V_set3 = 7" | "host_rank (V_wait4 n) = 6" | "host_rank V_check = 5" | "host_rank V_reinit = 4"
| "host_rank V_set5 = 3" | "host_rank V_break = 2" | "host_rank (V_ret b) = 0"

definition main_rank :: "main_pc \<Rightarrow> u32 \<Rightarrow> nat" where
  "main_rank m flag = (case m of M_setup \<Rightarrow> 12 | M_wait w \<Rightarrow> if w = 0 then 11 else if w = 1 then 10 else 6
     | M_set w \<Rightarrow> if w = 0 then 9 else 3 | M_enable \<Rightarrow> 8 | M_loop \<Rightarrow> if flag = 0 then 7 else 2 | M_spin \<Rightarrow> 5 | M_clear \<Rightarrow> 4
     | M_disable \<Rightarrow> 1 | M_end \<Rightarrow> 0)"

definition round_rank :: "board \<Rightarrow> nat" where
  "round_rank s = 100 * host_rank (host s) + main_rank (main_at s) (break_flag s)"

lemma main_at_main: "i2sr_inv srcs seed s \<Longrightarrow> cur s = Main m \<Longrightarrow> main_at s = m"
  by (simp add: main_inv main_at_def)

text \<open>The device moves: one step of the main program that lowers the rank.\<close>

lemma device_moves:
  assumes "proper_run srcs seed" "i2sr_inv srcs seed s" "cur s = Main m" "main_step m s = q" "cur q = Main m'"
    "main_rank m' (break_flag q) < main_rank m (break_flag s)" "host q = host s" "patient s"
  shows "\<exists>q. i2sr_steps True srcs seed s q \<and> (\<exists>m. cur q = Main m) \<and> patient q \<and> round_rank q < round_rank s"
proof -
  have st: "i2sr_steps True srcs seed s q"
    using i2sr_steps.dut [OF i2sr_steps.stay, of True srcs seed s 0] assms(3,4) by (simp add: fw_step_def)
  moreover have "main_at q = m'" by (rule main_at_main [OF steps_keep [OF st assms(1,2)] assms(5)])
  moreover have "main_at s = m" by (rule main_at_main [OF assms(2,3)])
  ultimately show ?thesis using assms(5-8) by (intro exI [of _ q]) (auto simp: round_rank_def patient_def)
qed

text \<open>The host moves on.\<close>

lemma main_rank_less: "main_rank m flag < 100"
  by (simp add: main_rank_def split: main_pc.split)

lemma host_moves_on:
  assumes "on_schedule s" "vseq_step srcs seed s = q" "cur s = Main m" "cur q = cur s" "host_rank (host q) < host_rank (host s)" "patient q"
  shows "\<exists>q. i2sr_steps True srcs seed s q \<and> (\<exists>m. cur q = Main m) \<and> patient q \<and> round_rank q < round_rank s"
proof -
  have "i2sr_steps True srcs seed s (vseq_step srcs seed s)" by (rule i2sr_steps.host [OF i2sr_steps.stay assms(1)])
  then have "i2sr_steps True srcs seed s q" by (simp add: assms(2))
  moreover have "100 * host_rank (host q) + 100 \<le> 100 * host_rank (host s)" using assms(5) by linarith
  then have "round_rank q < round_rank s" using main_rank_less [of "main_at q" "break_flag q"] by (simp add: round_rank_def)
  ultimately show ?thesis using assms by auto
qed

lemma spin_moves:
  assumes w: "proper_run srcs seed" and inv: "i2sr_inv srcs seed s" and c: "cur s = Main M_spin" and p: "patient s"
  shows "\<exists>q. i2sr_steps True srcs seed s q \<and> (\<exists>m. cur q = Main m) \<and> patient q \<and> round_rank q < round_rank s"
proof -
  obtain r where r: "i2sr_steps True srcs seed s r" "cur r = Main M_spin" "same_shared s r" "pend r = []"
    using take_all [OF w inv c] by (auto simp: main_on_def)
  have ir: "i2sr_inv srcs seed r" by (rule steps_keep [OF r(1) w inv])
  have ps: "posts (host r) = length srcs"
    using ir r(2) w by (auto simp: main_inv in_step_def posts_def proper_run_def split: vseq_pc.splits)
  have "inner_count r = of_nat (card (set srcs))" using ir r(2,4) ps by (simp add: main_inv late_def)
  then have five: "inner_count r = 5" using w by (simp add: proper_run_def MAX_TASKNUM_def distinct_card)
  have pr: "patient r" using p r(3) by (simp add: patient_def same_shared_def)
  have "\<exists>q. i2sr_steps True srcs seed r q \<and> (\<exists>m. cur q = Main m) \<and> patient q \<and> round_rank q < round_rank r"
    by (rule device_moves [OF w ir r(2) HOL.refl, where m' = M_clear]) (use five pr in \<open>simp_all add: main_step_def main_rank_def\<close>)
  moreover have "round_rank r = round_rank s"
    using r(2,3) main_at_main [OF ir r(2)] main_at_main [OF inv c] by (simp add: round_rank_def same_shared_def)
  ultimately show ?thesis using steps_trans [OF _ r(1)] by metis
qed

lemma round_progress:
  assumes w: "proper_run srcs seed" and inv: "i2sr_inv srcs seed s" and c: "cur s = Main m" and p: "patient s"
    and go: "\<not> (\<exists>b. host s = V_ret b)"
  shows "\<exists>q. i2sr_steps True srcs seed s q \<and> (\<exists>m. cur q = Main m) \<and> patient q \<and> round_rank q < round_rank s"
proof -
  have st: "in_step (host s) (bp_word s) (break_flag s) m" using inv c by (simp add: main_inv)
  note dev = device_moves [OF w inv c HOL.refl _ _ _ p] and hst = host_moves_on [OF _ HOL.refl c]
  have ready: "main_of (cur s) (frames s) = Some m" by (simp add: c)
  show ?thesis
  proof (cases "host s")
    case V_init
    then show ?thesis by (intro hst) (simp_all add: on_schedule_def vseq_step_def patient_def initialization_def)
  next
    case V_set1
    then show ?thesis by (intro hst) (simp_all add: on_schedule_def vseq_step_def patient_def VERIF_BP_TIMEOUT_def)
  next
    case (V_wait2 n)
    show ?thesis
    proof (cases "bp_word s = 2")
      case True
      then show ?thesis using p V_wait2 by (intro hst) (simp_all add: on_schedule_def vseq_step_def vseq_wait_bp_def patient_def)
    next
      case False
      then have b: "bp_word s = 1" and "m \<in> {M_setup, M_wait 0, M_wait 1, M_set 0}" using st V_wait2 by (auto simp: in_step_def)
      then consider "m = M_setup" | "m = M_wait 0" | "m = M_wait 1" | "m = M_set 0" by blast
      then show ?thesis
      proof cases
        case 1 then show ?thesis by (intro dev [where m' = "M_wait 0"]) (simp_all add: main_step_def main_rank_def)
      next
        case 2 then show ?thesis using b by (intro dev [where m' = "M_wait 1"]) (simp_all add: main_step_def main_rank_def wait_num_def)
      next
        case 3 then show ?thesis using b by (intro dev [where m' = "M_set 0"]) (simp_all add: main_step_def main_rank_def wait_num_def)
      next
        case 4 then show ?thesis by (intro dev [where m' = M_enable]) (simp_all add: main_step_def main_rank_def)
      qed
    qed
  next
    case (V_post k)
    then have "k \<le> 5" using st by (simp add: in_step_def MAX_TASKNUM_def)
    then have "13 - k < 14 - k" by linarith
    with \<open>k \<le> 5\<close> show ?thesis using V_post
      by (intro hst) (simp_all add: on_schedule_def vseq_step_def patient_def MAX_TASKNUM_def Let_def)
  next
    case V_flag
    then consider "m = M_enable" | "m = M_loop" "break_flag s = 0" | "m = M_wait 2" using st by (auto simp: in_step_def)
    then show ?thesis
    proof cases
      case 1 then show ?thesis using V_flag st by (intro dev [where m' = M_loop]) (simp_all add: main_step_def main_rank_def)
    next
      case 2 then show ?thesis by (intro dev [where m' = "M_wait 2"]) (simp_all add: main_step_def main_rank_def)
    next
      case 3 then show ?thesis using V_flag ready by (intro hst) (simp_all add: on_schedule_def vseq_step_def patient_def)
    qed
  next
    case V_set3
    then show ?thesis by (intro hst) (simp_all add: on_schedule_def vseq_step_def patient_def VERIF_BP_TIMEOUT_def)
  next
    case (V_wait4 n)
    show ?thesis
    proof (cases "bp_word s = 4")
      case True
      then show ?thesis using p V_wait4 by (intro hst) (simp_all add: on_schedule_def vseq_step_def vseq_wait_bp_def patient_def)
    next
      case False
      then have b: "bp_word s = 3" "break_flag s = 2" and "m \<in> {M_wait 2, M_spin, M_clear, M_set 1}" using st V_wait4 by (auto simp: in_step_def)
      then consider "m = M_wait 2" | "m = M_spin" | "m = M_clear" | "m = M_set 1" by blast
      then show ?thesis
      proof cases
        case 1 then show ?thesis using b by (intro dev [where m' = M_spin]) (simp_all add: main_step_def main_rank_def wait_num_def)
      next
        case 2 then show ?thesis using spin_moves [OF w inv _ p] c by simp
      next
        case 3 then show ?thesis by (intro dev [where m' = "M_set 1"]) (simp_all add: main_step_def main_rank_def)
      next
        case 4 then show ?thesis using b by (intro dev [where m' = M_loop]) (simp_all add: main_step_def main_rank_def)
      qed
    qed
  next
    case V_check
    then show ?thesis by (intro hst) (simp_all add: on_schedule_def vseq_step_def patient_def)
  next
    case V_reinit
    then show ?thesis by (intro hst) (simp_all add: on_schedule_def vseq_step_def patient_def initialization_def)
  next
    case V_set5
    then show ?thesis by (intro hst) (simp_all add: on_schedule_def vseq_step_def patient_def)
  next
    case V_break
    then show ?thesis by (intro hst) (simp_all add: on_schedule_def vseq_step_def patient_def)
  qed (use go in simp)
qed

lemma round_finishes:
  assumes w: "proper_run srcs seed" and "i2sr_inv srcs seed s" "cur s = Main m" "patient s"
  shows "\<exists>q. i2sr_steps True srcs seed s q \<and> host q = V_ret True"
  using assms(2-4)
proof (induction "round_rank s" arbitrary: s m rule: less_induct)
  case less
  show ?case
  proof (cases "\<exists>b. host s = V_ret b")
    case True
    then have "host s = V_ret True" using less(2) by (auto simp: i2sr_inv_def in_step_def)
    then show ?thesis by (auto intro: i2sr_steps.stay)
  next
    case False
    obtain q m' where q: "i2sr_steps True srcs seed s q" "cur q = Main m'" "patient q" "round_rank q < round_rank s"
      using round_progress [OF w less(2-4) False] by blast
    have "\<exists>r. i2sr_steps True srcs seed q r \<and> host r = V_ret True"
      by (rule less(1) [OF q(4) steps_keep [OF q(1) w less(2)] q(2,3)])
    then show ?thesis using steps_trans [OF _ q(1)] by blast
  qed
qed

lemma any_timely: "i2sr_any saves srcs seed s timely q \<Longrightarrow> timely \<Longrightarrow> i2sr_steps saves srcs seed s q"
  by (induction rule: i2sr_any.induct) (auto intro: i2sr_steps.intros)

lemma steps_any: "i2sr_steps saves srcs seed s q \<Longrightarrow> i2sr_any saves srcs seed s True q"
proof (induction rule: i2sr_steps.induct)
  case (host q)
  then show ?case using any_host [of saves srcs seed s True q] by simp
qed (auto intro: i2sr_any.intros)

text \<open>The first round with the device stopped at the loop head until the host has raised the exit flag.\<close>

lemma any_dut_main:
  "i2sr_any saves srcs seed s timely q \<Longrightarrow> cur q = Main m \<Longrightarrow> i2sr_any saves srcs seed s timely (main_step m q)"
  using any_dut [of saves srcs seed s timely q 0] by (simp add: fw_step_def)

lemma any_host_fails:
  "i2sr_any saves srcs seed s timely q \<Longrightarrow> \<exists>b. i2sr_any saves srcs seed s b (vseq_step srcs seed q)"
  by (blast intro: any_host)

lemma posts_done:
  assumes "i2sr_any saves srcs seed s timely q" "host q = V_post k" "k \<le> 5" "length srcs = 5"
  shows "\<exists>b r. i2sr_any saves srcs seed s b r \<and> host r = V_post 5 \<and> cur r = cur q \<and> bp_word r = bp_word q
    \<and> break_flag r = break_flag q \<and> MIE r = MIE q \<and> pend r = rev (drop k srcs) @ pend q \<and> buf_mem r = buf_mem q"
  using assms(1-3)
proof (induction "5 - k" arbitrary: timely q k)
  case 0
  then show ?case using assms(4) by (intro exI [of _ timely] exI [of _ q]) simp
next
  case (Suc n)
  then have k: "k < 5" by simp
  let ?q = "vseq_step srcs seed q"
  have "host ?q = V_post (k + 1)" "cur ?q = cur q" "bp_word ?q = bp_word q" "break_flag ?q = break_flag q" "MIE ?q = MIE q"
    "pend ?q = srcs ! k # pend q" "buf_mem ?q = buf_mem q"
    using Suc.prems k by (simp_all add: vseq_step_def MAX_TASKNUM_def Let_def)
  moreover have "rev (drop k srcs) = rev (drop (k + 1) srcs) @ [srcs ! k]"
    using k assms(4) by (simp add: Cons_nth_drop_Suc [symmetric])
  moreover have "n = 5 - (k + 1)" "k + 1 \<le> 5" using Suc.hyps(2) k by simp_all
  ultimately show ?case
    using Suc.hyps(1) [of "k + 1" "timely \<and> on_schedule q" ?q] any_host [OF Suc.prems(1)] by simp
qed

lemma exit_race_reached:
  assumes "length srcs = 5" "bp \<noteq> 1" "bp \<noteq> 2"
  shows "\<exists>timely q. i2sr_any saves srcs seed (i2sr_start bp b) timely q \<and> cur q = Main M_end \<and> \<not> MIE q \<and> pend q = rev srcs
    \<and> bp_word q = 3 \<and> host q = V_wait4 0"
proof -
  let ?run = "i2sr_any saves srcs seed (i2sr_start bp b)"
  have r1: "\<exists>q. ?run True q \<and> host q = V_wait2 0 \<and> cur q = Main M_setup \<and> bp_word q = 1 \<and> \<not> MIE q \<and> pend q = []"
    using any_host [OF any_host [OF any_stay, of saves srcs seed "i2sr_start bp b"]]
    by (intro exI [of _ "vseq_step srcs seed (vseq_step srcs seed (i2sr_start bp b))"])
      (simp add: vseq_step_def on_schedule_def i2sr_start_def initialization_def)
  then obtain q1 where q1: "?run True q1" "host q1 = V_wait2 0" "cur q1 = Main M_setup" "bp_word q1 = 1" "\<not> MIE q1" "pend q1 = []" by blast
  define q2 where "q2 = main_step (M_wait 1) (main_step (M_wait 0) (main_step M_setup q1))"
  have "?run True (main_step M_setup q1)" by (rule any_dut_main [OF q1(1,3)])
  then have "?run True (main_step (M_wait 0) (main_step M_setup q1))" by (rule any_dut_main) (simp add: main_step_def)
  then have q2: "?run True q2" unfolding q2_def
    by (rule any_dut_main) (use q1 in \<open>simp add: main_step_def wait_num_def\<close>)
  have f2: "cur q2 = Main (M_set 0)" "host q2 = V_wait2 0" "bp_word q2 = 1" "break_flag q2 = 0" "pend q2 = []"
    using q1 by (simp_all add: q2_def main_step_def wait_num_def)
  define q3 where "q3 = main_step M_enable (main_step (M_set 0) q2)"
  have "?run True (main_step (M_set 0) q2)" by (rule any_dut_main [OF q2 f2(1)])
  then have q3: "?run True q3" unfolding q3_def by (rule any_dut_main) (simp add: main_step_def)
  have f3: "cur q3 = Main M_loop" "host q3 = V_wait2 0" "bp_word q3 = 2" "break_flag q3 = 0" "pend q3 = []"
    using f2 by (simp_all add: q3_def main_step_def set_num_def)
  define q4 where "q4 = vseq_step srcs seed q3"
  have q4: "?run (True \<and> on_schedule q3) q4" unfolding q4_def by (rule any_host [OF q3])
  have f4: "host q4 = V_post 0" "cur q4 = Main M_loop" "bp_word q4 = 2" "pend q4 = []"
    using f3 by (simp_all add: q4_def vseq_step_def vseq_wait_bp_def VERIF_BP_TIMEOUT_def)
  obtain t5 q5 where q5: "?run t5 q5" "host q5 = V_post 5" "cur q5 = Main M_loop" "bp_word q5 = 2" "pend q5 = rev srcs"
    using posts_done [OF q4 f4(1) _ assms(1)] f4 by auto
  obtain t6 where q6: "?run t6 (vseq_step srcs seed (vseq_step srcs seed q5))"
    using any_host_fails [OF any_host [OF q5(1)]] by blast
  let ?q6 = "vseq_step srcs seed (vseq_step srcs seed q5)"
  have f6: "host ?q6 = V_set3" "cur ?q6 = Main M_loop" "break_flag ?q6 = 2" "pend ?q6 = rev srcs"
    using q5 by (simp_all add: vseq_step_def MAX_TASKNUM_def)
  have q7: "?run t6 (main_step M_disable (main_step M_loop ?q6))"
    using any_dut_main [OF any_dut_main [OF q6 f6(2)], of M_disable] f6 by (simp add: main_step_def)
  let ?q7 = "main_step M_disable (main_step M_loop ?q6)"
  have f7: "host ?q7 = V_set3" "cur ?q7 = Main M_end" "\<not> MIE ?q7" "pend ?q7 = rev srcs"
    using f6 by (simp_all add: main_step_def)
  show ?thesis
    using any_host [OF q7] f7 by (intro exI [of _ "t6 \<and> on_schedule ?q7"] exI [of _ "vseq_step srcs seed ?q7"]) (simp add: vseq_step_def)
qed


definition five_seeds :: "nat \<Rightarrow> u32 list" where
  "five_seeds i = replicate 64 (of_nat i * 256 + 0xFFFFFF00)"


end
