(* ===== verification/Freertos_List.thy ===== *)
theory Freertos_List
  imports Platform_Prelude "HOL-Library.Multiset"
begin

text \<open>
  The kernel's lists (Middleware/FreeRTOS/kernel/list.c and the macros of include/list.h) with the
  repository's configuration: mini list items as end markers, no integrity bytes. A node is the end
  marker of a list or an item; the links, values, containers and owners are maps over the nodes.
  \<open>ring\<close> says which sequence of items a list holds and where its index is; every operation is
  shown to do its list operation there and to leave all other lists alone.
\<close>

section \<open>Data\<close>

datatype ('l, 'i) node = Marker 'l | Item 'i

definition portMAX_DELAY :: u32 where "portMAX_DELAY = 0xffffffff"

record ('l, 'i, 'o) lists =
  pxNext :: "('l, 'i) node \<Rightarrow> ('l, 'i) node"
  pxPrevious :: "('l, 'i) node \<Rightarrow> ('l, 'i) node"
  xItemValue :: "('l, 'i) node \<Rightarrow> u32"
  pxContainer :: "'i \<Rightarrow> 'l option"
  pvOwner :: "'i \<Rightarrow> 'o"
  pxIndex :: "'l \<Rightarrow> ('l, 'i) node"
  uxNumberOfItems :: "'l \<Rightarrow> u32"

section \<open>Operations\<close>

definition vListInitialise :: "'l \<Rightarrow> ('l, 'i, 'o) lists \<Rightarrow> ('l, 'i, 'o) lists" where
  "vListInitialise l s =
     (let e = Marker l;
          s = s\<lparr>pxIndex := (pxIndex s)(l := e)\<rparr>;
          s = s\<lparr>xItemValue := (xItemValue s)(e := portMAX_DELAY)\<rparr>;
          s = s\<lparr>pxNext := (pxNext s)(e := e)\<rparr>;
          s = s\<lparr>pxPrevious := (pxPrevious s)(e := e)\<rparr>
      in s\<lparr>uxNumberOfItems := (uxNumberOfItems s)(l := 0)\<rparr>)"

definition vListInitialiseItem :: "'i \<Rightarrow> ('l, 'i, 'o) lists \<Rightarrow> ('l, 'i, 'o) lists" where
  "vListInitialiseItem i s = s\<lparr>pxContainer := (pxContainer s)(i := None)\<rparr>"

definition listSET_LIST_ITEM_OWNER :: "'i \<Rightarrow> 'o \<Rightarrow> ('l, 'i, 'o) lists \<Rightarrow> ('l, 'i, 'o) lists" where
  "listSET_LIST_ITEM_OWNER i x s = s\<lparr>pvOwner := (pvOwner s)(i := x)\<rparr>"

definition listSET_LIST_ITEM_VALUE :: "'i \<Rightarrow> u32 \<Rightarrow> ('l, 'i, 'o) lists \<Rightarrow> ('l, 'i, 'o) lists" where
  "listSET_LIST_ITEM_VALUE i v s = s\<lparr>xItemValue := (xItemValue s)(Item i := v)\<rparr>"

definition vListInsertEnd :: "'l \<Rightarrow> 'i \<Rightarrow> ('l, 'i, 'o) lists \<Rightarrow> ('l, 'i, 'o) lists" where
  "vListInsertEnd l i s =
     (let idx = pxIndex s l;
          s = s\<lparr>pxNext := (pxNext s)(Item i := idx)\<rparr>;
          s = s\<lparr>pxPrevious := (pxPrevious s)(Item i := pxPrevious s idx)\<rparr>;
          s = s\<lparr>pxNext := (pxNext s)(pxPrevious s idx := Item i)\<rparr>;
          s = s\<lparr>pxPrevious := (pxPrevious s)(idx := Item i)\<rparr>;
          s = s\<lparr>pxContainer := (pxContainer s)(i := Some l)\<rparr>
      in s\<lparr>uxNumberOfItems := (uxNumberOfItems s)(l := uxNumberOfItems s l + 1)\<rparr>)"

text \<open>The search loop of \<open>vListInsert\<close>; \<open>None\<close> is a loop that does not end.\<close>

partial_function (option) insert_walk :: "u32 \<Rightarrow> ('l, 'i) node \<Rightarrow> ('l, 'i, 'o) lists \<Rightarrow> ('l, 'i) node option" where
  "insert_walk v it s = (if xItemValue s (pxNext s it) \<le> v then insert_walk v (pxNext s it) s else Some it)"

definition link_after :: "'l \<Rightarrow> 'i \<Rightarrow> ('l, 'i) node \<Rightarrow> ('l, 'i, 'o) lists \<Rightarrow> ('l, 'i, 'o) lists" where
  "link_after l i it s =
     (let s = s\<lparr>pxNext := (pxNext s)(Item i := pxNext s it)\<rparr>;
          s = s\<lparr>pxPrevious := (pxPrevious s)(pxNext s (Item i) := Item i)\<rparr>;
          s = s\<lparr>pxPrevious := (pxPrevious s)(Item i := it)\<rparr>;
          s = s\<lparr>pxNext := (pxNext s)(it := Item i)\<rparr>;
          s = s\<lparr>pxContainer := (pxContainer s)(i := Some l)\<rparr>
      in s\<lparr>uxNumberOfItems := (uxNumberOfItems s)(l := uxNumberOfItems s l + 1)\<rparr>)"

definition vListInsert :: "'l \<Rightarrow> 'i \<Rightarrow> ('l, 'i, 'o) lists \<Rightarrow> ('l, 'i, 'o) lists option" where
  "vListInsert l i s =
     (let v = xItemValue s (Item i) in
      case (if v = portMAX_DELAY then Some (pxPrevious s (Marker l)) else insert_walk v (Marker l) s) of
        None \<Rightarrow> None
      | Some it \<Rightarrow> Some (link_after l i it s))"

text \<open>The item's container is dereferenced: \<open>None\<close> when it is in no list.\<close>

definition uxListRemove :: "'i \<Rightarrow> ('l, 'i, 'o) lists \<Rightarrow> (u32 \<times> ('l, 'i, 'o) lists) option" where
  "uxListRemove i s =
     (case pxContainer s i of
        None \<Rightarrow> None
      | Some l \<Rightarrow>
          let s = s\<lparr>pxPrevious := (pxPrevious s)(pxNext s (Item i) := pxPrevious s (Item i))\<rparr>;
              s = s\<lparr>pxNext := (pxNext s)(pxPrevious s (Item i) := pxNext s (Item i))\<rparr>;
              s = (if pxIndex s l = Item i then s\<lparr>pxIndex := (pxIndex s)(l := pxPrevious s (Item i))\<rparr> else s);
              s = s\<lparr>pxContainer := (pxContainer s)(i := None)\<rparr>;
              s = s\<lparr>uxNumberOfItems := (uxNumberOfItems s)(l := uxNumberOfItems s l - 1)\<rparr>
          in Some (uxNumberOfItems s l, s))"

text \<open>The owner, or \<open>None\<close> when the index is still on the marker, which has no owner.\<close>

definition listGET_OWNER_OF_NEXT_ENTRY :: "'l \<Rightarrow> ('l, 'i, 'o) lists \<Rightarrow> 'o option \<times> ('l, 'i, 'o) lists" where
  "listGET_OWNER_OF_NEXT_ENTRY l s =
     (let s = s\<lparr>pxIndex := (pxIndex s)(l := pxNext s (pxIndex s l))\<rparr>;
          s = (if pxIndex s l = Marker l then s\<lparr>pxIndex := (pxIndex s)(l := pxNext s (Marker l))\<rparr> else s)
      in (case pxIndex s l of Item i \<Rightarrow> Some (pvOwner s i) | Marker k \<Rightarrow> None, s))"

definition listLIST_IS_EMPTY :: "'l \<Rightarrow> ('l, 'i, 'o) lists \<Rightarrow> bool" where
  "listLIST_IS_EMPTY l s \<longleftrightarrow> uxNumberOfItems s l = 0"

definition listCURRENT_LIST_LENGTH :: "'l \<Rightarrow> ('l, 'i, 'o) lists \<Rightarrow> u32" where
  "listCURRENT_LIST_LENGTH l s = uxNumberOfItems s l"

definition listGET_ITEM_VALUE_OF_HEAD_ENTRY :: "'l \<Rightarrow> ('l, 'i, 'o) lists \<Rightarrow> u32" where
  "listGET_ITEM_VALUE_OF_HEAD_ENTRY l s = xItemValue s (pxNext s (Marker l))"

definition listGET_OWNER_OF_HEAD_ENTRY :: "'l \<Rightarrow> ('l, 'i, 'o) lists \<Rightarrow> 'o option" where
  "listGET_OWNER_OF_HEAD_ENTRY l s = (case pxNext s (Marker l) of Item i \<Rightarrow> Some (pvOwner s i) | Marker k \<Rightarrow> None)"

definition listIS_CONTAINED_WITHIN :: "'l \<Rightarrow> 'i \<Rightarrow> ('l, 'i, 'o) lists \<Rightarrow> bool" where
  "listIS_CONTAINED_WITHIN l i s \<longleftrightarrow> pxContainer s i = Some l"

section \<open>Doubly linked segments\<close>

fun linked :: "('a \<Rightarrow> 'a) \<Rightarrow> ('a \<Rightarrow> 'a) \<Rightarrow> 'a \<Rightarrow> 'a list \<Rightarrow> 'a \<Rightarrow> bool" where
  "linked nx pv a [] b = (nx a = b \<and> pv b = a)"
| "linked nx pv a (n # ns) b = (nx a = n \<and> pv n = a \<and> linked nx pv n ns b)"

lemma linked_append [simp]: "linked nx pv a (xs @ n # ys) b \<longleftrightarrow> linked nx pv a xs n \<and> linked nx pv n ys b"
  by (induction xs arbitrary: a) auto

lemma linked_frame:
  "(\<And>x. x = a \<or> x \<in> set xs \<Longrightarrow> nx' x = nx x) \<Longrightarrow> (\<And>x. x = b \<or> x \<in> set xs \<Longrightarrow> pv' x = pv x) \<Longrightarrow>
    linked nx' pv' a xs b = linked nx pv a xs b"
  by (induction xs arbitrary: a) auto

lemma linked_ends: "linked nx pv a xs b \<Longrightarrow> nx a = hd (xs @ [b]) \<and> pv b = last (a # xs)"
  by (induction xs arbitrary: a) auto

lemma linked_retarget:
  "linked nx pv a xs q \<Longrightarrow> distinct (a # xs) \<Longrightarrow> n \<notin> set xs \<Longrightarrow>
    linked (nx(last (a # xs) := n)) (pv(n := last (a # xs))) a xs n"
proof (induction xs arbitrary: a)
  case (Cons x xs)
  then have "last (x # xs) \<noteq> a" by (metis distinct.simps(2) last_in_set list.distinct(1))
  with Cons show ?case by auto
qed simp

lemma linked_insert:
  assumes "linked nx pv a (ys @ zs) b" "distinct (a # ys @ zs)" "b \<notin> set (ys @ zs)" "n \<notin> set (ys @ zs)" "n \<noteq> a" "n \<noteq> b"
  defines "p \<equiv> last (a # ys)" and "q \<equiv> hd (zs @ [b])"
  shows "linked (nx(n := q, p := n)) (pv(q := n, n := p)) a (ys @ n # zs) b"
proof -
  have p: "p = a \<or> p \<in> set ys" unfolding p_def by (cases ys) auto
  have q: "q = b \<or> q \<in> set zs" unfolding q_def by (cases zs) auto
  have l: "linked nx pv a ys q" using assms(1) unfolding q_def by (cases zs) auto
  have "linked (nx(p := n)) (pv(n := p)) a ys n"
    unfolding p_def by (rule linked_retarget [OF l]) (use assms(2,4) in auto)
  moreover have "linked (nx(n := q, p := n)) (pv(q := n, n := p)) a ys n = linked (nx(p := n)) (pv(n := p)) a ys n"
    using assms(2-6) q p by (intro linked_frame) auto
  moreover have "linked (nx(n := q, p := n)) (pv(q := n, n := p)) n zs b"
  proof (cases zs)
    case Nil
    then show ?thesis using assms(4-6) p by (auto simp: q_def)
  next
    case (Cons z zs')
    have "linked nx pv z zs' b" using assms(1) Cons by simp
    moreover have "linked (nx(n := q, p := n)) (pv(q := n, n := p)) z zs' b = linked nx pv z zs' b"
      using assms(2-6) q p Cons by (intro linked_frame) (auto simp: q_def)
    ultimately show ?thesis using assms(2-6) p Cons by (auto simp: q_def)
  qed
  ultimately show ?thesis by simp
qed

lemma linked_remove:
  assumes "linked nx pv a (ys @ n # zs) b" "distinct (a # ys @ n # zs)" "b \<notin> set (ys @ n # zs)"
  shows "linked (nx(pv n := nx n)) (pv(nx n := pv n)) a (ys @ zs) b"
proof -
  have s: "linked nx pv a ys n" "linked nx pv n zs b" using assms(1) by auto
  have p: "pv n = last (a # ys)" and q: "nx n = hd (zs @ [b])" using linked_ends [OF s(1)] linked_ends [OF s(2)] by simp_all
  have pp: "pv n = a \<or> pv n \<in> set ys" unfolding p by (cases ys) auto
  have "linked (nx(pv n := nx n)) (pv(nx n := pv n)) a ys (nx n)"
    unfolding p using linked_retarget [OF s(1)] assms(2,3) q by (cases zs) auto
  then show ?thesis
  proof (cases zs)
    case Nil
    then show ?thesis using \<open>linked _ _ a ys (nx n)\<close> q by simp
  next
    case (Cons z zs')
    have "linked (nx(pv n := nx n)) (pv(nx n := pv n)) z zs' b = linked nx pv z zs' b"
      using assms(2,3) pp q Cons by (intro linked_frame) auto
    then show ?thesis using \<open>linked _ _ a ys (nx n)\<close> s(2) q Cons by simp
  qed
qed

section \<open>What a list holds\<close>

definition node_at :: "'l \<Rightarrow> 'i option \<Rightarrow> ('l, 'i) node" where
  "node_at l j = (case j of None \<Rightarrow> Marker l | Some i \<Rightarrow> Item i)"

text \<open>List \<open>l\<close> holds the items \<open>xs\<close>, from the marker on; its index is at \<open>j\<close>, or at the marker.\<close>

definition ring :: "('l, 'i, 'o) lists \<Rightarrow> 'l \<Rightarrow> 'i list \<Rightarrow> 'i option \<Rightarrow> bool" where
  "ring s l xs j \<longleftrightarrow> linked (pxNext s) (pxPrevious s) (Marker l) (map Item xs) (Marker l) \<and> distinct xs
     \<and> (\<forall>i. pxContainer s i = Some l \<longleftrightarrow> i \<in> set xs) \<and> uxNumberOfItems s l = of_nat (length xs) \<and> length xs < 2 ^ 32
     \<and> pxIndex s l = node_at l j \<and> set_option j \<subseteq> set xs \<and> xItemValue s (Marker l) = portMAX_DELAY"

lemma ring_unique: "ring s l xs j \<Longrightarrow> ring s k ys m \<Longrightarrow> k \<noteq> l \<Longrightarrow> set xs \<inter> set ys = {}"
  unfolding ring_def by (metis disjoint_iff option.inject)

lemma ring_free: "ring s l xs j \<Longrightarrow> pxContainer s i = None \<Longrightarrow> i \<notin> set xs"
  unfolding ring_def by (metis option.distinct(1))

lemma walk_all [simp]: "dropWhile (\<lambda>x. True) xs = []" "takeWhile (\<lambda>x. True) xs = xs"
  by (induction xs) simp_all

lemma distinct_nodes: "distinct xs \<Longrightarrow> distinct (Marker l # map Item xs)"
  by (auto simp: distinct_map inj_on_def)

text \<open>The other lists keep what they hold when only nodes of \<open>l\<close> and one free item change.\<close>

lemma ring_other:
  assumes "ring s k ys m" "ring s l xs j" "k \<noteq> l" "i \<notin> set ys"
    and same: "\<And>x. x \<noteq> Marker l \<Longrightarrow> x \<notin> Item ` set xs \<Longrightarrow> x \<noteq> Item i \<Longrightarrow> pxNext s' x = pxNext s x \<and> pxPrevious s' x = pxPrevious s x"
    and "\<And>x. x \<noteq> i \<Longrightarrow> pxContainer s' x = pxContainer s x" "pxContainer s' i \<noteq> Some k"
    "uxNumberOfItems s' k = uxNumberOfItems s k" "pxIndex s' k = pxIndex s k" "xItemValue s' (Marker k) = xItemValue s (Marker k)"
  shows "ring s' k ys m"
proof -
  have "x \<noteq> Marker l \<and> x \<notin> Item ` set xs \<and> x \<noteq> Item i" if "x = Marker k \<or> x \<in> set (map Item ys)" for x :: "('a, 'b) node"
    using that assms(3,4) ring_unique [OF assms(1,2)] by auto
  then have "linked (pxNext s') (pxPrevious s') (Marker k) (map Item ys) (Marker k)
      = linked (pxNext s) (pxPrevious s) (Marker k) (map Item ys) (Marker k)"
    using same by (intro linked_frame) blast+
  moreover have "pxContainer s' x = Some k \<longleftrightarrow> x \<in> set ys" for x
    using assms(1,4,6,7) by (cases "x = i") (auto simp: ring_def)
  ultimately show ?thesis using assms(1,8-10) by (simp add: ring_def)
qed

lemma ring_insert:
  assumes r: "ring s l (ys @ zs) j" and free: "pxContainer s i = None" and room: "length (ys @ zs) + 1 < 2 ^ 32"
    and p: "p = last (Marker l # map Item ys)" and q: "q = hd (map Item zs @ [Marker l])"
    and s': "pxNext s' = (pxNext s)(Item i := q, p := Item i)" "pxPrevious s' = (pxPrevious s)(q := Item i, Item i := p)"
      "pxContainer s' = (pxContainer s)(i := Some l)" "uxNumberOfItems s' = (uxNumberOfItems s)(l := uxNumberOfItems s l + 1)"
      "pxIndex s' = pxIndex s" "xItemValue s' = xItemValue s"
  shows "ring s' l (ys @ i # zs) j" and "k \<noteq> l \<Longrightarrow> ring s k us m \<Longrightarrow> ring s' k us m"
proof -
  have i: "i \<notin> set (ys @ zs)" by (rule ring_free [OF r free])
  have "linked (pxNext s') (pxPrevious s') (Marker l) (map Item ys @ Item i # map Item zs) (Marker l)"
    unfolding s' p q by (rule linked_insert) (use r i in \<open>auto simp: ring_def distinct_map inj_on_def\<close>)
  moreover have "(of_nat (length (ys @ zs)) + 1 :: u32) = of_nat (length (ys @ i # zs))" by simp
  ultimately show "ring s' l (ys @ i # zs) j"
    using r i room by (auto simp: ring_def s')
  show "ring s' k us m" if "k \<noteq> l" "ring s k us m"
  proof (rule ring_other [OF that(2) r that(1)])
    show "i \<notin> set us" by (rule ring_free [OF that(2) free])
    have "p = Marker l \<or> p \<in> Item ` set (ys @ zs)" "q = Marker l \<or> q \<in> Item ` set (ys @ zs)"
      unfolding p q by (cases ys rule: rev_cases; simp) (cases zs; simp)
    then show "pxNext s' x = pxNext s x \<and> pxPrevious s' x = pxPrevious s x"
      if "x \<noteq> Marker l" "x \<notin> Item ` set (ys @ zs)" "x \<noteq> Item i" for x
      using that unfolding s' by auto
  qed (use that in \<open>auto simp: s'\<close>)
qed

text \<open>The place before the index.\<close>

definition insert_before :: "'i option \<Rightarrow> 'i \<Rightarrow> 'i list \<Rightarrow> 'i list" where
  "insert_before j i xs = takeWhile (\<lambda>x. Some x \<noteq> j) xs @ i # dropWhile (\<lambda>x. Some x \<noteq> j) xs"

lemma index_node:
  "set_option j \<subseteq> set xs \<Longrightarrow> hd (map Item (dropWhile (\<lambda>x. Some x \<noteq> j) xs) @ [Marker l]) = node_at l j"
proof (cases j)
  case (Some x)
  assume "set_option j \<subseteq> set xs"
  then have "dropWhile (\<lambda>y. Some y \<noteq> j) xs \<noteq> []" using Some by (auto simp: dropWhile_eq_Nil_conv)
  then show ?thesis using Some hd_dropWhile [of "\<lambda>y. Some y \<noteq> j" xs] by (auto simp: node_at_def hd_append hd_map)
next
  case None
  then show ?thesis by (simp add: node_at_def)
qed

lemma vListInsertEnd_ring:
  assumes r: "ring s l xs j" and free: "pxContainer s i = None" and room: "length xs + 1 < 2 ^ 32"
  shows "ring (vListInsertEnd l i s) l (insert_before j i xs) j" and "k \<noteq> l \<Longrightarrow> ring s k us m \<Longrightarrow> ring (vListInsertEnd l i s) k us m"
proof -
  define ys zs where "ys = takeWhile (\<lambda>x. Some x \<noteq> j) xs" and "zs = dropWhile (\<lambda>x. Some x \<noteq> j) xs"
  have xs: "xs = ys @ zs" by (simp add: ys_def zs_def)
  have idx: "hd (map Item zs @ [Marker l]) = pxIndex s l" using r index_node [of j xs l] by (simp add: zs_def ring_def)
  have "linked (pxNext s) (pxPrevious s) (Marker l) (map Item ys) (hd (map Item zs @ [Marker l]))"
    using r unfolding ring_def xs by (cases zs) auto
  from linked_ends [OF this] have pv: "pxPrevious s (pxIndex s l) = last (Marker l # map Item ys)" unfolding idx by blast
  have i: "i \<notin> set xs" by (rule ring_free [OF r free])
  have ne: "pxIndex s l \<noteq> Item i" using r i by (auto simp: ring_def node_at_def split: option.splits)
  let ?s = "vListInsertEnd l i s"
  have up: "pxNext ?s = (pxNext s)(Item i := pxIndex s l, pxPrevious s (pxIndex s l) := Item i)"
    "pxPrevious ?s = (pxPrevious s)(pxIndex s l := Item i, Item i := pxPrevious s (pxIndex s l))"
    "pxContainer ?s = (pxContainer s)(i := Some l)" "uxNumberOfItems ?s = (uxNumberOfItems s)(l := uxNumberOfItems s l + 1)"
    "pxIndex ?s = pxIndex s" "xItemValue ?s = xItemValue s"
    using ne by (simp_all add: vListInsertEnd_def Let_def fun_upd_twist)
  note ins = ring_insert [OF r [unfolded xs] free room [unfolded xs] pv idx [symmetric] up]
  show "ring ?s l (insert_before j i xs) j" using ins(1) by (simp add: insert_before_def ys_def zs_def)
  show "ring ?s k us m" if "k \<noteq> l" "ring s k us m" by (rule ins(2) [OF that])
qed

text \<open>The place behind the items whose value is not above the new one.\<close>

definition insert_sorted :: "('i \<Rightarrow> u32) \<Rightarrow> 'i \<Rightarrow> 'i list \<Rightarrow> 'i list" where
  "insert_sorted val i xs = takeWhile (\<lambda>x. val x \<le> val i) xs @ i # dropWhile (\<lambda>x. val x \<le> val i) xs"

abbreviation item_value :: "('l, 'i, 'o) lists \<Rightarrow> 'i \<Rightarrow> u32" where
  "item_value s i \<equiv> xItemValue s (Item i)"

lemma insert_walk_stops:
  assumes "linked (pxNext s) (pxPrevious s) it (map Item zs) (Marker l)" "xItemValue s (Marker l) = portMAX_DELAY" "v \<noteq> portMAX_DELAY"
  shows "insert_walk v it s = Some (last (it # map Item (takeWhile (\<lambda>x. item_value s x \<le> v) zs)))"
  using assms(1)
proof (induction zs arbitrary: it)
  case Nil
  have "\<not> portMAX_DELAY \<le> v" using assms(3) by (simp add: portMAX_DELAY_def word_le_nat_alt word_unat_eq_iff) (use u32_bound [of v] in simp)
  then show ?case using Nil assms(2) by (subst insert_walk.simps) simp
next
  case (Cons z zs)
  then show ?case by (subst insert_walk.simps) simp
qed

lemma link_after_ring:
  assumes r: "ring s l (ys @ zs) j" and free: "pxContainer s i = None" and room: "length (ys @ zs) + 1 < 2 ^ 32"
    and it: "it = last (Marker l # map Item ys)"
  shows "ring (link_after l i it s) l (ys @ i # zs) j" and "k \<noteq> l \<Longrightarrow> ring s k us m \<Longrightarrow> ring (link_after l i it s) k us m"
proof -
  let ?s = "link_after l i it s"
  have i: "i \<notin> set (ys @ zs)" by (rule ring_free [OF r free])
  have "it = Marker l \<or> it \<in> Item ` set ys" unfolding it by (cases ys rule: rev_cases) auto
  then have ne: "it \<noteq> Item i" using i by auto
  have q: "pxNext s it = hd (map Item zs @ [Marker l])"
  proof (cases ys rule: rev_cases)
    case Nil
    then show ?thesis using r linked_ends by (fastforce simp: ring_def it)
  next
    case (snoc us u)
    then have "linked (pxNext s) (pxPrevious s) (Item u) (map Item zs) (Marker l)" using r by (simp add: ring_def)
    then show ?thesis using linked_ends snoc by (fastforce simp: it)
  qed
  have nx: "pxNext s it \<noteq> Item i" using i unfolding q by (cases zs) auto
  have up: "pxNext ?s = (pxNext s)(Item i := pxNext s it, it := Item i)"
    "pxPrevious ?s = (pxPrevious s)(pxNext s it := Item i, Item i := it)"
    "pxContainer ?s = (pxContainer s)(i := Some l)" "uxNumberOfItems ?s = (uxNumberOfItems s)(l := uxNumberOfItems s l + 1)"
    "pxIndex ?s = pxIndex s" "xItemValue ?s = xItemValue s"
    by (simp_all add: link_after_def Let_def)
  note ins = ring_insert [OF r free room it q up]
  show "ring ?s l (ys @ i # zs) j" by (rule ins(1))
  show "ring ?s k us m" if "k \<noteq> l" "ring s k us m" by (rule ins(2) [OF that])
qed

lemma vListInsert_ring:
  assumes r: "ring s l xs j" and free: "pxContainer s i = None" and room: "length xs + 1 < 2 ^ 32"
  shows "\<exists>s'. vListInsert l i s = Some s' \<and> ring s' l (insert_sorted (item_value s) i xs) j
    \<and> xItemValue s' = xItemValue s \<and> pvOwner s' = pvOwner s \<and> pxContainer s' = (pxContainer s)(i := Some l)
    \<and> (\<forall>k us m. k \<noteq> l \<longrightarrow> ring s k us m \<longrightarrow> ring s' k us m)"
proof -
  define ys zs where "ys = takeWhile (\<lambda>x. item_value s x \<le> item_value s i) xs" and "zs = dropWhile (\<lambda>x. item_value s x \<le> item_value s i) xs"
  have xs: "xs = ys @ zs" by (simp add: ys_def zs_def)
  have lk: "linked (pxNext s) (pxPrevious s) (Marker l) (map Item xs) (Marker l)" using r by (simp add: ring_def)
  let ?it = "last (Marker l # map Item ys)"
  have "vListInsert l i s = Some (link_after l i ?it s)"
  proof (cases "item_value s i = portMAX_DELAY")
    case True
    have "item_value s x \<le> portMAX_DELAY" for x
      using u32_bound [of "item_value s x"] by (simp add: portMAX_DELAY_def word_le_nat_alt)
    then have "ys = xs" by (simp add: ys_def True)
    then show ?thesis using True linked_ends [OF lk] by (simp add: vListInsert_def)
  next
    case False
    then show ?thesis using insert_walk_stops [OF lk] r by (simp add: vListInsert_def ring_def ys_def)
  qed
  moreover have "ring (link_after l i ?it s) l (ys @ i # zs) j"
    by (rule link_after_ring(1) [OF r [unfolded xs] free room [unfolded xs] HOL.refl])
  moreover have "k \<noteq> l \<longrightarrow> ring s k us m \<longrightarrow> ring (link_after l i ?it s) k us m" for k us m
    using link_after_ring(2) [OF r [unfolded xs] free room [unfolded xs] HOL.refl] by blast
  moreover have "xItemValue (link_after l i ?it s) = xItemValue s" "pvOwner (link_after l i ?it s) = pvOwner s"
    "pxContainer (link_after l i ?it s) = (pxContainer s)(i := Some l)" by (simp_all add: link_after_def Let_def)
  ultimately show ?thesis by (simp add: insert_sorted_def ys_def zs_def)
qed

text \<open>The index left behind by a removal.\<close>

definition index_without :: "'i \<Rightarrow> 'i list \<Rightarrow> 'i option \<Rightarrow> 'i option" where
  "index_without i xs j = (if j = Some i then (case rev (takeWhile (\<lambda>x. x \<noteq> i) xs) of [] \<Rightarrow> None | y # ys \<Rightarrow> Some y) else j)"

lemma uxListRemove_ring:
  assumes r: "ring s l xs j" and i: "i \<in> set xs"
  shows "\<exists>s'. uxListRemove i s = Some (of_nat (length xs - 1), s') \<and> ring s' l (remove1 i xs) (index_without i xs j)
    \<and> xItemValue s' = xItemValue s \<and> pvOwner s' = pvOwner s \<and> pxContainer s' = (pxContainer s)(i := None)
    \<and> (\<forall>k us m. k \<noteq> l \<longrightarrow> ring s k us m \<longrightarrow> ring s' k us m)"
proof -
  define ys zs where "ys = takeWhile (\<lambda>x. x \<noteq> i) xs" and "zs = tl (dropWhile (\<lambda>x. x \<noteq> i) xs)"
  have "dropWhile (\<lambda>x. x \<noteq> i) xs = i # zs"
    using i by (cases "dropWhile (\<lambda>x. x \<noteq> i) xs") (auto simp: zs_def dropWhile_eq_Nil_conv dest: dropWhile_eq_Cons_conv [THEN iffD1])
  then have xs: "xs = ys @ i # zs" unfolding ys_def by (metis takeWhile_dropWhile_id)
  have d: "distinct xs" using r by (simp add: ring_def)
  have rm: "remove1 i xs = ys @ zs" using d xs by (simp add: remove1_append)
  have lk: "linked (pxNext s) (pxPrevious s) (Marker l) (map Item ys @ Item i # map Item zs) (Marker l)" using r xs by (simp add: ring_def)
  have pv: "pxPrevious s (Item i) = last (Marker l # map Item ys)" and nx: "pxNext s (Item i) = hd (map Item zs @ [Marker l])"
    using lk linked_ends [of "pxNext s" "pxPrevious s" "Marker l" "map Item ys" "Item i"]
      linked_ends [of "pxNext s" "pxPrevious s" "Item i" "map Item zs" "Marker l"] by simp_all
  have "pxNext s (Item i) \<noteq> Item i" using d xs unfolding nx by (cases zs) auto
  moreover have "pxPrevious s (Item i) \<noteq> Item i" using d xs unfolding pv by (cases ys rule: rev_cases) auto
  ultimately have ne: "pxNext s (Item i) \<noteq> Item i" "pxPrevious s (Item i) \<noteq> Item i" by auto
  define s' where "s' = snd (the (uxListRemove i s))"
  have c: "pxContainer s i = Some l" using r i by (simp add: ring_def)
  have run: "uxListRemove i s = Some (uxNumberOfItems s l - 1, s')"
    using ne by (simp add: s'_def uxListRemove_def c Let_def)
  have up: "pxNext s' = (pxNext s)(pxPrevious s (Item i) := pxNext s (Item i))"
    "pxPrevious s' = (pxPrevious s)(pxNext s (Item i) := pxPrevious s (Item i))"
    "pxContainer s' = (pxContainer s)(i := None)" "uxNumberOfItems s' = (uxNumberOfItems s)(l := uxNumberOfItems s l - 1)"
    "xItemValue s' = xItemValue s" "pvOwner s' = pvOwner s"
    "pxIndex s' = (if pxIndex s l = Item i then (pxIndex s)(l := pxPrevious s (Item i)) else pxIndex s)"
    using ne by (simp_all add: s'_def uxListRemove_def c Let_def)
  have "linked (pxNext s') (pxPrevious s') (Marker l) (map Item ys @ map Item zs) (Marker l)"
    unfolding up by (rule linked_remove [OF lk]) (use d xs in \<open>auto simp: distinct_map inj_on_def\<close>)
  moreover have len: "uxNumberOfItems s l - 1 = of_nat (length xs - 1)" using r xs by (simp add: ring_def)
  moreover have iw: "index_without i xs j = (if j = Some i then (case rev ys of [] \<Rightarrow> None | y # us \<Rightarrow> Some y) else j)"
    by (simp add: index_without_def ys_def)
  then have "pxIndex s' l = node_at l (index_without i xs j)"
    using r pv unfolding iw by (cases ys rule: rev_cases) (auto simp: up ring_def node_at_def split: option.splits)
  moreover have "set_option (index_without i xs j) \<subseteq> set (ys @ zs)"
    using r xs unfolding iw by (cases ys rule: rev_cases) (auto simp: ring_def)
  ultimately have "ring s' l (ys @ zs) (index_without i xs j)"
    using r d xs by (auto simp: ring_def up)
  moreover have "ring s' k us m" if "k \<noteq> l" "ring s k us m" for k us m
  proof (rule ring_other [OF that(2) r that(1)])
    show "i \<notin> set us" using ring_unique [OF r that(2) that(1)] i by auto
    have "pxPrevious s (Item i) = Marker l \<or> pxPrevious s (Item i) \<in> Item ` set xs"
      "pxNext s (Item i) = Marker l \<or> pxNext s (Item i) \<in> Item ` set xs"
      unfolding pv nx xs by (cases ys rule: rev_cases; simp) (cases zs; simp)
    then show "pxNext s' x = pxNext s x \<and> pxPrevious s' x = pxPrevious s x"
      if "x \<noteq> Marker l" "x \<notin> Item ` set xs" "x \<noteq> Item i" for x
      using that unfolding up by auto
  qed (use that in \<open>auto simp: up\<close>)
  ultimately show ?thesis using run len rm up by auto
qed

lemma vListInitialise_ring:
  assumes "\<And>i. pxContainer s i \<noteq> Some l"
  shows "ring (vListInitialise l s) l [] None" and "k \<noteq> l \<Longrightarrow> ring s k us m \<Longrightarrow> ring (vListInitialise l s) k us m"
proof -
  show "ring (vListInitialise l s) l [] None" using assms by (simp add: ring_def vListInitialise_def Let_def node_at_def)
  show "ring (vListInitialise l s) k us m" if "k \<noteq> l" "ring s k us m"
  proof -
    have "linked (pxNext (vListInitialise l s)) (pxPrevious (vListInitialise l s)) (Marker k) (map Item us) (Marker k)
        = linked (pxNext s) (pxPrevious s) (Marker k) (map Item us) (Marker k)"
      using that(1) by (intro linked_frame) (auto simp: vListInitialise_def Let_def)
    then show ?thesis using that by (simp add: ring_def vListInitialise_def Let_def)
  qed
qed

section \<open>The order of service\<close>

text \<open>The items in the order \<open>listGET_OWNER_OF_NEXT_ENTRY\<close> will come to them.\<close>

definition turns :: "'i list \<Rightarrow> 'i option \<Rightarrow> 'i list" where
  "turns xs j = (case j of None \<Rightarrow> xs | Some i \<Rightarrow> tl (dropWhile (\<lambda>x. x \<noteq> i) xs) @ takeWhile (\<lambda>x. x \<noteq> i) xs @ [i])"

lemma split_at:
  assumes "i \<in> set xs"
  obtains ys zs where "xs = ys @ i # zs" "takeWhile (\<lambda>x. x \<noteq> i) xs = ys" "dropWhile (\<lambda>x. x \<noteq> i) xs = i # zs" "i \<notin> set ys"
proof -
  obtain ys zs where "xs = ys @ i # zs" "i \<notin> set ys" using split_list_first [OF assms] by blast
  moreover have "takeWhile (\<lambda>x. x \<noteq> i) (ys @ i # zs) = ys" "dropWhile (\<lambda>x. x \<noteq> i) (ys @ i # zs) = i # zs"
    using \<open>i \<notin> set ys\<close> by (auto simp: takeWhile_append dropWhile_append)
  ultimately show thesis using that by blast
qed

lemma turns_split: "i \<notin> set ys \<Longrightarrow> turns (ys @ i # zs) (Some i) = zs @ ys @ [i]"
  by (auto simp: turns_def takeWhile_append dropWhile_append)

lemma turns_ends [simp]: "turns [] None = []" "turns (i # zs) (Some i) = zs @ [i]" by (simp_all add: turns_def)

lemma turns_hd:
  assumes "xs \<noteq> []" "distinct xs" "set_option j \<subseteq> set xs"
  shows "hd (turns xs j) \<in> set xs" "turns xs (Some (hd (turns xs j))) = rotate1 (turns xs j)" "mset (turns xs j) = mset xs"
proof -
  have "hd (turns xs j) \<in> set xs \<and> turns xs (Some (hd (turns xs j))) = rotate1 (turns xs j) \<and> mset (turns xs j) = mset xs"
  proof (cases j)
    case None
    then show ?thesis using assms(1) turns_split [of "hd xs" "[]" "tl xs"] by (cases xs) (auto simp: turns_def)
  next
    case (Some i)
    then obtain ys zs where x: "xs = ys @ i # zs" "i \<notin> set ys" using assms(3) split_list_first [of i xs] by fastforce
    have t: "turns xs j = zs @ ys @ [i]" using x Some by (simp add: turns_split)
    show ?thesis
    proof (cases zs)
      case Nil
      show ?thesis using assms(2) unfolding t unfolding x(1) Nil
        by (cases ys) (use x(2) in auto)
    next
      case (Cons z zs')
      have "turns ((ys @ [i]) @ z # zs') (Some z) = zs' @ (ys @ [i]) @ [z]"
        using assms(2) unfolding x(1) Cons by (intro turns_split) auto
      then show ?thesis using t x(1) Cons by simp
    qed
  qed
  then show "hd (turns xs j) \<in> set xs" "turns xs (Some (hd (turns xs j))) = rotate1 (turns xs j)" "mset (turns xs j) = mset xs" by auto
qed

lemma turns_insert:
  assumes "set_option j \<subseteq> set xs" "i \<notin> set xs"
  shows "turns (insert_before j i xs) j = (if j = None then turns xs j @ [i] else butlast (turns xs j) @ [i, last (turns xs j)])"
proof (cases j)
  case (Some x)
  then obtain ys zs where x: "xs = ys @ x # zs" "x \<notin> set ys" using assms(1) split_list_first [of x xs] by fastforce
  have "insert_before j i xs = (ys @ [i]) @ x # zs" using x Some by (auto simp: insert_before_def takeWhile_append dropWhile_append)
  moreover have "turns ((ys @ [i]) @ x # zs) (Some x) = zs @ (ys @ [i]) @ [x]" using x assms(2) by (intro turns_split) auto
  ultimately show ?thesis using turns_split [OF x(2), of zs] x(1) Some by (simp add: butlast_append)
qed (simp add: turns_def insert_before_def)

lemma turns_remove:
  assumes "set_option j \<subseteq> set xs" "i \<in> set xs" "distinct xs"
  shows "turns (remove1 i xs) (index_without i xs j) = remove1 i (turns xs j)"
proof (cases "j = Some i")
  case True
  obtain ys zs where x: "xs = ys @ i # zs" "takeWhile (\<lambda>x. x \<noteq> i) xs = ys" "i \<notin> set ys" using split_at [OF assms(2)] by metis
  have d: "i \<notin> set zs" "distinct (ys @ zs)" using assms(3) x(1) by auto
  have rm: "remove1 i xs = ys @ zs" using x by (simp add: remove1_append)
  have t: "remove1 i (turns xs j) = zs @ ys" using d x(3) unfolding True x(1) turns_split [OF x(3)] by (simp add: remove1_append)
  show ?thesis
  proof (cases ys rule: rev_cases)
    case Nil
    then show ?thesis using rm t x(2) True by (simp add: index_without_def turns_def)
  next
    case (snoc us u)
    have "turns (us @ u # zs) (Some u) = zs @ us @ [u]" using d(2) snoc by (intro turns_split) auto
    then show ?thesis using rm t x(2) True snoc by (simp add: index_without_def)
  qed
next
  case ne: False
  show ?thesis
  proof (cases j)
    case None
    then show ?thesis by (simp add: index_without_def turns_def)
  next
    case (Some x)
    then obtain ys zs where x: "xs = ys @ x # zs" "x \<notin> set ys" using assms(1) split_list_first [of x xs] by fastforce
    have "x \<noteq> i" using ne Some by simp
    moreover have "x \<notin> set (remove1 i ys)" using x(2) by (meson notin_set_remove1)
    ultimately show ?thesis using x Some ne assms(3) turns_split [OF x(2)]
      by (auto simp: index_without_def remove1_append turns_split remove1_idem)
  qed
qed

lemma next_entry_ring:
  assumes r: "ring s l xs j" and ne: "xs \<noteq> []"
  defines "i \<equiv> hd (turns xs j)"
  shows "listGET_OWNER_OF_NEXT_ENTRY l s = (Some (pvOwner s i), s\<lparr>pxIndex := (pxIndex s)(l := Item i)\<rparr>)"
    "ring (s\<lparr>pxIndex := (pxIndex s)(l := Item i)\<rparr>) l xs (Some i)"
    "k \<noteq> l \<Longrightarrow> ring s k us m \<Longrightarrow> ring (s\<lparr>pxIndex := (pxIndex s)(l := Item i)\<rparr>) k us m"
proof -
  have d: "distinct xs" "set_option j \<subseteq> set xs" using r by (simp_all add: ring_def)
  have lk: "linked (pxNext s) (pxPrevious s) (Marker l) (map Item xs) (Marker l)" using r by (simp add: ring_def)
  have first: "pxNext s (Marker l) = Item (hd xs)" using linked_ends [OF lk] ne by (cases xs) auto
  have nx: "pxNext s (node_at l j) = Item i \<or> pxNext s (node_at l j) = Marker l \<and> i = hd xs"
  proof (cases j)
    case None
    then show ?thesis using first by (simp add: node_at_def i_def turns_def)
  next
    case (Some x)
    then obtain ys zs where x: "xs = ys @ x # zs" "x \<notin> set ys" using d(2) split_list_first [of x xs] by fastforce
    have "linked (pxNext s) (pxPrevious s) (Item x) (map Item zs) (Marker l)" using lk x(1) by simp
    then show ?thesis using linked_ends x turns_split [OF x(2), of zs] Some
      by (cases zs; cases ys) (fastforce simp: node_at_def i_def)+
  qed
  show "listGET_OWNER_OF_NEXT_ENTRY l s = (Some (pvOwner s i), s\<lparr>pxIndex := (pxIndex s)(l := Item i)\<rparr>)"
    using nx first r by (auto simp: listGET_OWNER_OF_NEXT_ENTRY_def Let_def ring_def)
  show "ring (s\<lparr>pxIndex := (pxIndex s)(l := Item i)\<rparr>) l xs (Some i)"
    using r turns_hd(1) [OF ne d] by (simp add: ring_def node_at_def i_def)
  show "ring (s\<lparr>pxIndex := (pxIndex s)(l := Item i)\<rparr>) k us m" if "k \<noteq> l" "ring s k us m"
    using that by (simp add: ring_def)
qed

section \<open>Refinement\<close>

text \<open>The lists as sequences with an index, and the operations on them.\<close>

type_synonym ('l, 'i) sequences = "'l \<Rightarrow> 'i list \<times> 'i option"

definition rings :: "'l set \<Rightarrow> ('l, 'i, 'o) lists \<Rightarrow> ('l, 'i) sequences \<Rightarrow> bool" where
  "rings L s R \<longleftrightarrow> (\<forall>l\<in>L. ring s l (fst (R l)) (snd (R l))) \<and> (\<forall>i l. pxContainer s i = Some l \<longrightarrow> l \<in> L)"

datatype ('l, 'i) list_call = InsertEnd 'l 'i | Insert 'l 'i | Remove 'i | Advance 'l

fun list_op :: "('l, 'i) list_call \<Rightarrow> ('l, 'i, 'o) lists \<Rightarrow> ('l, 'i, 'o) lists option" where
  "list_op (InsertEnd l i) s = Some (vListInsertEnd l i s)"
| "list_op (Insert l i) s = vListInsert l i s"
| "list_op (Remove i) s = map_option snd (uxListRemove i s)"
| "list_op (Advance l) s = Some (snd (listGET_OWNER_OF_NEXT_ENTRY l s))"

fun seq_op :: "('i \<Rightarrow> u32) \<Rightarrow> ('l, 'i) list_call \<Rightarrow> ('l, 'i) sequences \<Rightarrow> 'l \<Rightarrow> 'i list \<times> 'i option" where
  "seq_op val (InsertEnd l i) R = R(l := (insert_before (snd (R l)) i (fst (R l)), snd (R l)))"
| "seq_op val (Insert l i) R = R(l := (insert_sorted val i (fst (R l)), snd (R l)))"
| "seq_op val (Remove i) R = (\<lambda>l. if i \<in> set (fst (R l)) then (remove1 i (fst (R l)), index_without i (fst (R l)) (snd (R l))) else R l)"
| "seq_op val (Advance l) R = R(l := (fst (R l), if fst (R l) = [] then snd (R l) else Some (hd (turns (fst (R l)) (snd (R l))))))"

text \<open>An item is put into one list at a time, and taken out of the list it is in.\<close>

fun legal_op :: "'l set \<Rightarrow> ('l, 'i) list_call \<Rightarrow> ('l, 'i) sequences \<Rightarrow> bool" where
  "legal_op L (InsertEnd l i) R = (l \<in> L \<and> i \<notin> (\<Union>l\<in>L. set (fst (R l))) \<and> length (fst (R l)) + 1 < 2 ^ 32)"
| "legal_op L (Insert l i) R = (l \<in> L \<and> i \<notin> (\<Union>l\<in>L. set (fst (R l))) \<and> length (fst (R l)) + 1 < 2 ^ 32)"
| "legal_op L (Remove i) R = (i \<in> (\<Union>l\<in>L. set (fst (R l))))"
| "legal_op L (Advance l) R = (l \<in> L)"

lemma rings_free: "rings L s R \<Longrightarrow> i \<notin> (\<Union>l\<in>L. set (fst (R l))) \<Longrightarrow> pxContainer s i = None"
proof (rule ccontr)
  assume a: "rings L s R" "i \<notin> (\<Union>l\<in>L. set (fst (R l)))" "pxContainer s i \<noteq> None"
  then obtain l where "pxContainer s i = Some l" by auto
  moreover then have "l \<in> L" using a(1) by (simp add: rings_def)
  ultimately show False using a(1,2) by (auto simp: rings_def ring_def)
qed

lemma rings_update:
  assumes "rings L s R" "l \<in> L" "ring s' l xs j" "\<And>k us m. k \<noteq> l \<Longrightarrow> ring s k us m \<Longrightarrow> ring s' k us m"
    "\<And>i k. pxContainer s' i = Some k \<Longrightarrow> k = l \<or> pxContainer s i = Some k"
  shows "rings L s' (R(l := (xs, j)))"
proof -
  have "k \<in> L" if "pxContainer s' i = Some k" for i k using assms(1,2,5) that by (metis rings_def)
  then show ?thesis using assms(1,3,4) unfolding rings_def by auto
qed

lemma list_op_refines:
  assumes R: "rings L s R" and legal: "legal_op L p R"
  shows "\<exists>s'. list_op p s = Some s' \<and> rings L s' (seq_op (item_value s) p R) \<and> xItemValue s' = xItemValue s \<and> pvOwner s' = pvOwner s"
proof (cases p)
  case (InsertEnd l i)
  then have l: "l \<in> L" "ring s l (fst (R l)) (snd (R l))" "pxContainer s i = None" "length (fst (R l)) + 1 < 2 ^ 32"
    using R legal rings_free [OF R, of i] by (auto simp: rings_def)
  note v = vListInsertEnd_ring [OF l(2-4)]
  have "rings L (vListInsertEnd l i s) (seq_op (item_value s) p R)"
    unfolding InsertEnd seq_op.simps
    by (rule rings_update [OF R l(1) v(1) v(2)]) (auto simp: vListInsertEnd_def Let_def split: if_splits)
  then show ?thesis using InsertEnd by (simp add: vListInsertEnd_def Let_def)
next
  case (Insert l i)
  then have l: "l \<in> L" "ring s l (fst (R l)) (snd (R l))" "pxContainer s i = None" "length (fst (R l)) + 1 < 2 ^ 32"
    using R legal rings_free [OF R, of i] by (auto simp: rings_def)
  from vListInsert_ring [OF l(2-4)] obtain s' where s': "vListInsert l i s = Some s'"
    "ring s' l (insert_sorted (item_value s) i (fst (R l))) (snd (R l))" "xItemValue s' = xItemValue s" "pvOwner s' = pvOwner s"
    "pxContainer s' = (pxContainer s)(i := Some l)" "\<And>k us m. k \<noteq> l \<Longrightarrow> ring s k us m \<Longrightarrow> ring s' k us m" by blast
  have "rings L s' (seq_op (item_value s) p R)"
    unfolding Insert seq_op.simps by (rule rings_update [OF R l(1) s'(2,6)]) (auto simp: s'(5) split: if_splits)
  then show ?thesis using Insert s' by simp
next
  case (Remove i)
  then obtain l where l: "l \<in> L" "i \<in> set (fst (R l))" using legal by auto
  have r: "ring s l (fst (R l)) (snd (R l))" using R l(1) by (simp add: rings_def)
  from uxListRemove_ring [OF r l(2)] obtain s' where s': "uxListRemove i s = Some (of_nat (length (fst (R l)) - 1), s')"
    "ring s' l (remove1 i (fst (R l))) (index_without i (fst (R l)) (snd (R l)))" "xItemValue s' = xItemValue s" "pvOwner s' = pvOwner s"
    "pxContainer s' = (pxContainer s)(i := None)" "\<And>k us m. k \<noteq> l \<Longrightarrow> ring s k us m \<Longrightarrow> ring s' k us m" by blast
  have "rings L s' (R(l := (remove1 i (fst (R l)), index_without i (fst (R l)) (snd (R l)))))"
    by (rule rings_update [OF R l(1) s'(2,6)]) (auto simp: s'(5) split: if_splits)
  moreover have "seq_op (item_value s) p R k = (R(l := (remove1 i (fst (R l)), index_without i (fst (R l)) (snd (R l))))) k" if "k \<in> L" for k
    using ring_unique [OF r, of k "fst (R k)" "snd (R k)"] R l(2) that by (auto simp: Remove rings_def)
  ultimately have "rings L s' (seq_op (item_value s) p R)" by (simp add: rings_def)
  then show ?thesis using Remove s' by simp
next
  case (Advance l)
  then have l: "l \<in> L" "ring s l (fst (R l)) (snd (R l))" using R legal by (auto simp: rings_def)
  show ?thesis
  proof (cases "fst (R l) = []")
    case True
    then have "listGET_OWNER_OF_NEXT_ENTRY l s = (None, s)"
      using l(2) by (simp add: ring_def listGET_OWNER_OF_NEXT_ENTRY_def Let_def node_at_def fun_upd_idem split: option.splits)
    moreover have "R(l := ([], snd (R l))) = R" using True by (metis fun_upd_idem prod.collapse)
    ultimately show ?thesis using Advance True R by simp
  next
    case False
    note v = next_entry_ring [OF l(2) False]
    have "rings L (s\<lparr>pxIndex := (pxIndex s)(l := Item (hd (turns (fst (R l)) (snd (R l)))))\<rparr>) (seq_op (item_value s) p R)"
      unfolding Advance seq_op.simps if_not_P [OF False] by (rule rings_update [OF R l(1) v(2,3)]) auto
    then show ?thesis using Advance v(1) by simp
  qed
qed

text \<open>Runs of operations, on the lists and on the sequences.\<close>

fun list_run :: "('l, 'i) list_call list \<Rightarrow> ('l, 'i, 'o) lists \<Rightarrow> ('l, 'i, 'o) lists option" where
  "list_run [] s = Some s"
| "list_run (p # ps) s = (case list_op p s of None \<Rightarrow> None | Some s' \<Rightarrow> list_run ps s')"

fun seq_run :: "('i \<Rightarrow> u32) \<Rightarrow> ('l, 'i) list_call list \<Rightarrow> ('l, 'i) sequences \<Rightarrow> 'l \<Rightarrow> 'i list \<times> 'i option" where
  "seq_run val [] R = R"
| "seq_run val (p # ps) R = seq_run val ps (seq_op val p R)"

fun legal_run :: "'l set \<Rightarrow> ('i \<Rightarrow> u32) \<Rightarrow> ('l, 'i) list_call list \<Rightarrow> ('l, 'i) sequences \<Rightarrow> bool" where
  "legal_run L val [] R = True"
| "legal_run L val (p # ps) R = (legal_op L p R \<and> legal_run L val ps (seq_op val p R))"

text \<open>C29: The doubly linked lists refine sequences with an index. Any run of insertions, sorted
  insertions, removals and index moves, over any set of lists, in which items are inserted when free
  and removed when held, returns (the search loop ends), and every list then holds exactly the
  sequence the same run computes, forwards and backwards linked, counted, with its index.\<close>

theorem kernel_lists_refine:
  assumes "rings L s R" "legal_run L (item_value s) ps R"
  shows "\<exists>s'. list_run ps s = Some s' \<and> rings L s' (seq_run (item_value s) ps R)"
  using assms
proof (induction ps arbitrary: s R)
  case (Cons p ps)
  obtain s' where s': "list_op p s = Some s'" "rings L s' (seq_op (item_value s) p R)" "xItemValue s' = xItemValue s"
    using list_op_refines [OF Cons(2)] Cons(3) by auto
  then show ?case using Cons(1) [OF s'(2)] Cons(3) by simp
qed simp

section \<open>Round robin and order\<close>

fun serve :: "nat \<Rightarrow> 'l \<Rightarrow> ('l, 'i, 'o) lists \<Rightarrow> 'o option list \<times> ('l, 'i, 'o) lists" where
  "serve 0 l s = ([], s)"
| "serve (Suc n) l s = (let (x, s) = listGET_OWNER_OF_NEXT_ENTRY l s; (xs, s) = serve n l s in (x # xs, s))"

lemma serve_turns:
  assumes "ring s l xs j" "xs \<noteq> []" "n \<le> length xs"
  shows "\<exists>s' k. serve n l s = (map (\<lambda>i. Some (pvOwner s i)) (take n (turns xs j)), s') \<and> ring s' l xs k
    \<and> turns xs k = rotate n (turns xs j) \<and> pvOwner s' = pvOwner s"
  using assms
proof (induction n arbitrary: s j)
  case 0
  then show ?case by auto
next
  case (Suc n)
  let ?i = "hd (turns xs j)"
  let ?s = "s\<lparr>pxIndex := (pxIndex s)(l := Item ?i)\<rparr>"
  note v = next_entry_ring [OF Suc(2,3)]
  have t: "turns xs (Some ?i) = rotate1 (turns xs j)" "mset (turns xs j) = mset xs"
    using turns_hd [OF Suc(3)] Suc(2) by (simp_all add: ring_def)
  have len: "length (turns xs j) = length xs" using t(2) by (metis size_mset)
  obtain s' k where s': "serve n l ?s = (map (\<lambda>i. Some (pvOwner ?s i)) (take n (turns xs (Some ?i))), s')" "ring s' l xs k"
    "turns xs k = rotate n (turns xs (Some ?i))" "pvOwner s' = pvOwner ?s"
    using Suc(1) [OF v(2) Suc(3)] Suc(4) by auto
  obtain y ys where y: "turns xs j = y # ys" using len Suc(3) by (cases "turns xs j") auto
  have "rotate n (rotate1 (turns xs j)) = rotate (Suc n) (turns xs j)" by (simp add: rotate_def funpow_swap1)
  moreover have "take n (rotate1 (turns xs j)) = take n ys" using y len Suc(4) by simp
  ultimately show ?case using v(1) s' t(1) y by auto
qed

text \<open>Taking the next entry is round robin: from any state of a list that is not empty, as many
  calls as it has items serve the owner of every item exactly once, and leave the list, its items'
  order and the order of service as they were.\<close>

theorem next_entry_round_robin:
  assumes "ring s l xs j" "xs \<noteq> []"
  shows "\<exists>s' k. serve (length xs) l s = (map (\<lambda>i. Some (pvOwner s i)) (turns xs j), s') \<and> mset (turns xs j) = mset xs
    \<and> ring s' l xs k \<and> turns xs k = turns xs j"
proof -
  have m: "mset (turns xs j) = mset xs" using turns_hd(3) [OF assms(2)] assms(1) by (simp add: ring_def)
  then have "length (turns xs j) = length xs" by (metis size_mset)
  then show ?thesis using serve_turns [OF assms le_refl] m by auto
qed

lemma insert_sorted_Cons [simp]:
  "insert_sorted f x [] = [x]"
  "insert_sorted f x (y # ys) = (if f y \<le> f x then y # insert_sorted f x ys else x # y # ys)"
  by (simp_all add: insert_sorted_def)

lemma insort_insert_sorted: "insort_key f a (insert_sorted f x ys) = insert_sorted f x (insort_key f a ys)"
  by (induction ys) auto

lemma sort_key_snoc: "sort_key f (xs @ [x]) = insert_sorted f x (sort_key f xs)"
  by (induction xs) (auto simp: insort_insert_sorted)

text \<open>C30: \<open>vListInsert\<close> sorts by value and keeps the order of arrival: putting the items \<open>xs\<close> one after
  the other into an empty list, whatever their values (\<open>portMAX_DELAY\<close> included), ends every time and
  leaves the stable sort of \<open>xs\<close>.\<close>

theorem vListInsert_sorts:
  assumes "ring s l [] j" "distinct xs" "\<And>x. x \<in> set xs \<Longrightarrow> pxContainer s x = None" "length xs < 2 ^ 32"
  shows "\<exists>s'. list_run (map (Insert l) xs) s = Some s' \<and> ring s' l (sort_key (item_value s) xs) j"
proof -
  have "\<exists>s'. list_run (map (Insert l) ys) t = Some s' \<and> ring s' l (sort_key (item_value t) (zs @ ys)) j"
    if "ring t l (sort_key (item_value t) zs) j" "distinct (zs @ ys)" "\<And>x. x \<in> set ys \<Longrightarrow> pxContainer t x = None"
      "length (zs @ ys) < 2 ^ 32" for t zs ys
    using that
  proof (induction ys arbitrary: t zs)
    case (Cons y ys)
    have room: "length (sort_key (item_value t) zs) + 1 < 2 ^ 32" using Cons(5) by simp
    obtain t' where t': "vListInsert l y t = Some t'" "ring t' l (insert_sorted (item_value t) y (sort_key (item_value t) zs)) j"
      "xItemValue t' = xItemValue t" "pxContainer t' = (pxContainer t)(y := Some l)"
      using vListInsert_ring [OF Cons(2) Cons(4) room, of y] by auto
    have "\<exists>s'. list_run (map (Insert l) ys) t' = Some s' \<and> ring s' l (sort_key (item_value t') ((zs @ [y]) @ ys)) j"
      by (rule Cons(1)) (use Cons(3-5) t' in \<open>auto simp: sort_key_snoc\<close>)
    then show ?case using t'(1,3) by simp
  qed simp
  from this [of s "[]" xs] show ?thesis using assms by simp
qed

section \<open>Witnesses\<close>

definition two_lists :: "(nat, nat, nat) lists" where
  "two_lists = vListInitialise 0 (vListInitialise 1 \<lparr>pxNext = (\<lambda>_. Marker 0), pxPrevious = (\<lambda>_. Marker 0),
     xItemValue = (\<lambda>n. case n of Item i \<Rightarrow> [30, 10, 20, 10] ! i | Marker l \<Rightarrow> 0), pxContainer = (\<lambda>_. None), pvOwner = (\<lambda>i. i + 100),
     pxIndex = (\<lambda>_. Marker 0), uxNumberOfItems = (\<lambda>_. 0)\<rparr>)"

lemma two_lists_rings: "rings {0, 1} two_lists (\<lambda>_. ([], None))"
proof -
  define b :: "(nat, nat, nat) lists" where "b = \<lparr>pxNext = (\<lambda>_. Marker 0), pxPrevious = (\<lambda>_. Marker 0),
     xItemValue = (\<lambda>n. case n of Item i \<Rightarrow> [30, 10, 20, 10] ! i | Marker l \<Rightarrow> 0), pxContainer = (\<lambda>_. None), pvOwner = (\<lambda>i. i + 100),
     pxIndex = (\<lambda>_. Marker 0), uxNumberOfItems = (\<lambda>_. 0)\<rparr>"
  have free: "pxContainer (vListInitialise l s) = pxContainer s" for l and s :: "(nat, nat, nat) lists" by (simp add: vListInitialise_def Let_def)
  have "ring (vListInitialise 1 b) 1 [] None" by (rule vListInitialise_ring) (simp add: b_def)
  moreover have c: "pxContainer (vListInitialise 1 b) i \<noteq> Some 0" for i unfolding free by (simp add: b_def)
  ultimately have "ring two_lists 1 [] None" "ring two_lists 0 [] None"
    unfolding two_lists_def b_def [symmetric] using vListInitialise_ring [OF c] by auto
  then show ?thesis by (simp add: rings_def) (simp add: two_lists_def free)
qed

lemma two_lists_values: "item_value two_lists = (\<lambda>i. [30, 10, 20, 10] ! i)" "pxContainer two_lists i = None"
  by (simp_all add: two_lists_def vListInitialise_def Let_def)

lemma kernel_lists_refine_witness:
  "\<exists>s'. list_run [Insert 0 0, Insert 0 1, InsertEnd 1 2, Insert 0 3, Advance 0, Remove 1] two_lists = Some s'
    \<and> rings {0, 1} s' (seq_run (item_value two_lists) [Insert 0 0, Insert 0 1, InsertEnd 1 2, Insert 0 3, Advance 0, Remove 1] (\<lambda>_. ([], None)))"
  by (rule kernel_lists_refine [OF two_lists_rings])
    (simp add: two_lists_values insert_before_def turns_def index_without_def)

lemma vListInsert_sorts_witness:
  "\<exists>s'. list_run (map (Insert 0) [0, 1, 2, 3]) two_lists = Some s' \<and> ring s' 0 (sort_key (item_value two_lists) [0, 1, 2, 3]) None"
  by (rule vListInsert_sorts) (use two_lists_rings in \<open>simp_all add: rings_def two_lists_values\<close>)

text \<open>One list of two items, its index on the second.\<close>

definition pair_list :: "(nat, nat, nat) lists" where
  "pair_list = \<lparr>pxNext = (\<lambda>n. if n = Marker 0 then Item 0 else if n = Item 0 then Item 1 else Marker 0),
     pxPrevious = (\<lambda>n. if n = Marker 0 then Item 1 else if n = Item 1 then Item 0 else Marker 0),
     xItemValue = (\<lambda>n. if n = Marker 0 then portMAX_DELAY else 0), pxContainer = (\<lambda>i. if i < 2 then Some 0 else None), pvOwner = (\<lambda>i. i + 100),
     pxIndex = (\<lambda>_. Item 1), uxNumberOfItems = (\<lambda>_. 2)\<rparr>"

lemma next_entry_round_robin_witness:
  "\<exists>s' k. serve (length [0, 1 :: nat]) 0 pair_list = (map (\<lambda>i. Some (pvOwner pair_list i)) (turns [0, 1] (Some 1)), s')
    \<and> mset (turns [0, 1] (Some (1 :: nat))) = mset [0, 1] \<and> ring s' 0 [0, 1] k \<and> turns [0, 1] k = turns [0, 1] (Some 1)"
  by (rule next_entry_round_robin) (auto simp: ring_def pair_list_def node_at_def)

end
