(* ===== verification/Freertos_Tasks.thy ===== *)
theory Freertos_Tasks
  imports Freertos_List "HOL-Library.Monad_Syntax"
begin

text \<open>
  The scheduler (Middleware/FreeRTOS/kernel/tasks.c) as the repository's FreeRTOSConfig.h builds it:
  one core, preemption and time slicing, five priorities, generic task selection, task suspension,
  no mutexes, timers, queues, deletion, delay abortion, tracing or hooks. A task is its TCB's
  address. The kernel's lists are those of \<open>Freertos_List\<close>, one store for all of them.

  An operation returns an option. \<open>None\<close> is a program that does not go on: a \<open>configASSERT\<close> or a
  stack check that fails (\<open>vAssertCalled\<close> and the overflow hook of port_glue.c halt), a
  null pointer that is dereferenced, or a loop that does not end. Code in a critical section is
  atomic; where interrupts are taken in the middle of a call they are an argument of it.
\<close>

section \<open>Data\<close>

type_synonym tcb = u32

abbreviation NULL :: tcb where "NULL \<equiv> 0"

datatype klist = pxReadyTasksLists u32 | xDelayedTaskList1 | xDelayedTaskList2 | xPendingReadyList | xSuspendedTaskList

text \<open>The two list items of a TCB.\<close>

datatype kitem = xStateListItem tcb | xEventListItem tcb

text \<open>The lists, the fields of the TCBs, and the file's variables. Of a task's stack the model has
  the four lowest words, those the overflow check reads.\<close>

record kernel =
  kl :: "(klist, kitem, tcb) lists"
  uxPriority :: "tcb \<Rightarrow> u32"
  pcTaskName :: "tcb \<Rightarrow> u8 list"
  ucNotifyState :: "tcb \<Rightarrow> u8"
  stack_low :: "tcb \<Rightarrow> u32 list"
  pxCurrentTCB :: tcb
  pxDelayedTaskList :: klist
  pxOverflowDelayedTaskList :: klist
  uxCurrentNumberOfTasks :: u32
  xTickCount :: u32
  uxTopReadyPriority :: u32
  xSchedulerRunning :: bool
  xPendedTicks :: u32
  xYieldPendings :: bool
  xNumOfOverflows :: u32
  uxTaskNumber :: u32
  xNextTaskUnblockTime :: u32
  uxSchedulerSuspended :: u32

definition configMAX_PRIORITIES :: u32 where "configMAX_PRIORITIES = 5"
definition configMAX_TASK_NAME_LEN :: nat where "configMAX_TASK_NAME_LEN = 8"
definition tskSTACK_FILL_BYTE :: u8 where "tskSTACK_FILL_BYTE = 0xa5"
definition taskNOT_WAITING_NOTIFICATION :: u8 where "taskNOT_WAITING_NOTIFICATION = 0"
definition taskWAITING_NOTIFICATION :: u8 where "taskWAITING_NOTIFICATION = 1"
definition taskEVENT_LIST_ITEM_VALUE_IN_USE :: u32 where "taskEVENT_LIST_ITEM_VALUE_IN_USE = 0x80000000"

text \<open>A field of the running task.\<close>

definition current_priority :: "kernel \<Rightarrow> u32 option" where
  "current_priority s = (if pxCurrentTCB s = NULL then None else Some (uxPriority s (pxCurrentTCB s)))"

definition list_remove :: "kitem \<Rightarrow> kernel \<Rightarrow> kernel option" where
  "list_remove i s = (case uxListRemove i (kl s) of None \<Rightarrow> None | Some (n, l) \<Rightarrow> Some (s\<lparr>kl := l\<rparr>))"

section \<open>Ready lists\<close>

definition taskRECORD_READY_PRIORITY :: "u32 \<Rightarrow> kernel \<Rightarrow> kernel" where
  "taskRECORD_READY_PRIORITY p s = (if p > uxTopReadyPriority s then s\<lparr>uxTopReadyPriority := p\<rparr> else s)"

definition prvAddTaskToReadyList :: "tcb \<Rightarrow> kernel \<Rightarrow> kernel" where
  "prvAddTaskToReadyList t s =
     (let s = taskRECORD_READY_PRIORITY (uxPriority s t) s
      in s\<lparr>kl := vListInsertEnd (pxReadyTasksLists (uxPriority s t)) (xStateListItem t) (kl s)\<rparr>)"

text \<open>The search for the highest priority with a ready task; it asserts that it does not pass 0.\<close>

function find_ready :: "u32 \<Rightarrow> kernel \<Rightarrow> u32 option" where
  "find_ready p s =
     (if listLIST_IS_EMPTY (pxReadyTasksLists p) (kl s) then (if p = 0 then None else find_ready (p - 1) s) else Some p)"
  by auto
termination
  by (relation "measure (\<lambda>(p, s). unat p)") (auto simp: unat_minus_one unat_gt_0)

declare find_ready.simps [simp del]

definition taskSELECT_HIGHEST_PRIORITY_TASK :: "kernel \<Rightarrow> kernel option" where
  "taskSELECT_HIGHEST_PRIORITY_TASK s = do {
     p \<leftarrow> find_ready (uxTopReadyPriority s) s;
     let (x, l) = listGET_OWNER_OF_NEXT_ENTRY (pxReadyTasksLists p) (kl s);
     t \<leftarrow> x;
     Some (s\<lparr>kl := l, pxCurrentTCB := t, uxTopReadyPriority := p\<rparr>)
   }"

definition taskCHECK_FOR_STACK_OVERFLOW :: "kernel \<Rightarrow> unit option" where
  "taskCHECK_FOR_STACK_OVERFLOW s =
     (if pxCurrentTCB s \<noteq> NULL \<and> stack_low s (pxCurrentTCB s) = replicate 4 0xa5a5a5a5 then Some () else None)"

definition vTaskSwitchContext :: "kernel \<Rightarrow> kernel option" where
  "vTaskSwitchContext s =
     (if uxSchedulerSuspended s \<noteq> 0 then Some (s\<lparr>xYieldPendings := True\<rparr>)
      else do {
        let s = s\<lparr>xYieldPendings := False\<rparr>;
        taskCHECK_FOR_STACK_OVERFLOW s;
        taskSELECT_HIGHEST_PRIORITY_TASK s
      })"

text \<open>\<open>ecall\<close>: the trap handler of the port saves the context and calls \<open>vTaskSwitchContext\<close>.\<close>

definition portYIELD :: "kernel \<Rightarrow> kernel option" where
  "portYIELD s = vTaskSwitchContext s"

definition taskYIELD_ANY_CORE_IF_USING_PREEMPTION :: "tcb \<Rightarrow> kernel \<Rightarrow> kernel option" where
  "taskYIELD_ANY_CORE_IF_USING_PREEMPTION t s = do {
     p \<leftarrow> current_priority s;
     if p < uxPriority s t then portYIELD s else Some s
   }"

section \<open>Creating tasks and starting\<close>

definition prvInitialiseTaskLists :: "kernel \<Rightarrow> kernel" where
  "prvInitialiseTaskLists s =
     (let l = fold (\<lambda>p. vListInitialise (pxReadyTasksLists p)) [0, 1, 2, 3, 4] (kl s);
          l = vListInitialise xDelayedTaskList1 l;
          l = vListInitialise xDelayedTaskList2 l;
          l = vListInitialise xPendingReadyList l;
          l = vListInitialise xSuspendedTaskList l
      in s\<lparr>kl := l, pxDelayedTaskList := xDelayedTaskList1, pxOverflowDelayedTaskList := xDelayedTaskList2\<rparr>)"

text \<open>The name's bytes up to its terminator, at most \<open>configMAX_TASK_NAME_LEN\<close>, over the old field; the
  last byte is a terminator in any case.\<close>

fun copy_name :: "u8 list \<Rightarrow> u8 list \<Rightarrow> u8 list" where
  "copy_name (c # cs) (d # ds) = (if c = 0 then c # ds else c # copy_name cs ds)"
| "copy_name cs ds = ds"

text \<open>\<open>uxPriority < configMAX_PRIORITIES\<close> is asserted, and the assertion halts. The stack is filled
  with \<open>tskSTACK_FILL_BYTE\<close>; the port's initial frame is at its other end.\<close>

definition prvInitialiseNewTask :: "u8 list \<Rightarrow> u32 \<Rightarrow> tcb \<Rightarrow> kernel \<Rightarrow> kernel option" where
  "prvInitialiseNewTask name prio t s =
     (let s = s\<lparr>stack_low := (stack_low s)(t := replicate 4 0xa5a5a5a5)\<rparr>;
          s = s\<lparr>pcTaskName := (pcTaskName s)(t := (copy_name name (pcTaskName s t))[configMAX_TASK_NAME_LEN - 1 := 0])\<rparr>
      in if prio < configMAX_PRIORITIES then
           let s = s\<lparr>uxPriority := (uxPriority s)(t := prio)\<rparr>;
               l = vListInitialiseItem (xStateListItem t) (kl s);
               l = vListInitialiseItem (xEventListItem t) l;
               l = listSET_LIST_ITEM_OWNER (xStateListItem t) t l;
               l = listSET_LIST_ITEM_VALUE (xEventListItem t) (configMAX_PRIORITIES - prio) l;
               l = listSET_LIST_ITEM_OWNER (xEventListItem t) t l
           in Some (s\<lparr>kl := l\<rparr>)
         else None)"

definition prvAddNewTaskToReadyList :: "tcb \<Rightarrow> kernel \<Rightarrow> kernel option" where
  "prvAddNewTaskToReadyList t s =
     (let s = s\<lparr>uxCurrentNumberOfTasks := uxCurrentNumberOfTasks s + 1\<rparr>;
          s = (if pxCurrentTCB s = NULL then
                 let s = s\<lparr>pxCurrentTCB := t\<rparr>
                 in if uxCurrentNumberOfTasks s = 1 then prvInitialiseTaskLists s else s
               else if \<not> xSchedulerRunning s \<and> uxPriority s (pxCurrentTCB s) \<le> uxPriority s t then s\<lparr>pxCurrentTCB := t\<rparr>
               else s);
          s = s\<lparr>uxTaskNumber := uxTaskNumber s + 1\<rparr>;
          s = prvAddTaskToReadyList t s
      in if xSchedulerRunning s then taskYIELD_ANY_CORE_IF_USING_PREEMPTION t s else Some s)"

text \<open>What \<open>xTaskCreate\<close> does once \<open>prvCreateTask\<close> has memory for the TCB, cleared, and the stack.\<close>

definition create_task :: "u8 list \<Rightarrow> u32 \<Rightarrow> tcb \<Rightarrow> kernel \<Rightarrow> kernel option" where
  "create_task name prio t s = do {
     let s = s\<lparr>pcTaskName := (pcTaskName s)(t := replicate 8 0), ucNotifyState := (ucNotifyState s)(t := taskNOT_WAITING_NOTIFICATION)\<rparr>;
     s \<leftarrow> prvInitialiseNewTask name prio t s;
     prvAddNewTaskToReadyList t s
   }"

text \<open>\<open>vTaskStartScheduler\<close> after the idle task is created, up to \<open>xPortStartScheduler\<close>.\<close>

definition start_scheduler :: "kernel \<Rightarrow> kernel" where
  "start_scheduler s = s\<lparr>xNextTaskUnblockTime := portMAX_DELAY, xSchedulerRunning := True, xTickCount := 0\<rparr>"

section \<open>Time\<close>

definition prvResetNextTaskUnblockTime :: "kernel \<Rightarrow> kernel" where
  "prvResetNextTaskUnblockTime s =
     (if listLIST_IS_EMPTY (pxDelayedTaskList s) (kl s) then s\<lparr>xNextTaskUnblockTime := portMAX_DELAY\<rparr>
      else s\<lparr>xNextTaskUnblockTime := listGET_ITEM_VALUE_OF_HEAD_ENTRY (pxDelayedTaskList s) (kl s)\<rparr>)"

definition taskSWITCH_DELAYED_LISTS :: "kernel \<Rightarrow> kernel option" where
  "taskSWITCH_DELAYED_LISTS s =
     (if listLIST_IS_EMPTY (pxDelayedTaskList s) (kl s) then
        let temp = pxDelayedTaskList s;
            s = s\<lparr>pxDelayedTaskList := pxOverflowDelayedTaskList s\<rparr>;
            s = s\<lparr>pxOverflowDelayedTaskList := temp\<rparr>;
            s = s\<lparr>xNumOfOverflows := xNumOfOverflows s + 1\<rparr>
        in Some (prvResetNextTaskUnblockTime s)
      else None)"

text \<open>Taking a task whose time has come out of the blocked state.\<close>

definition unblock :: "tcb \<Rightarrow> kernel \<Rightarrow> kernel option" where
  "unblock t s = do {
     s \<leftarrow> list_remove (xStateListItem t) s;
     s \<leftarrow> (if pxContainer (kl s) (xEventListItem t) \<noteq> None then list_remove (xEventListItem t) s else Some s);
     Some (prvAddTaskToReadyList t s)
   }"

text \<open>The loop over the delayed tasks.\<close>

partial_function (option) wake_loop :: "bool \<Rightarrow> u32 \<Rightarrow> kernel \<Rightarrow> (bool \<times> kernel) option" where
  "wake_loop sw now s =
     (if listLIST_IS_EMPTY (pxDelayedTaskList s) (kl s) then Some (sw, s\<lparr>xNextTaskUnblockTime := portMAX_DELAY\<rparr>)
      else do {
        t \<leftarrow> listGET_OWNER_OF_HEAD_ENTRY (pxDelayedTaskList s) (kl s);
        let v = xItemValue (kl s) (Item (xStateListItem t));
        if now < v then Some (sw, s\<lparr>xNextTaskUnblockTime := v\<rparr>)
        else do {
          s \<leftarrow> unblock t s;
          p \<leftarrow> current_priority s;
          wake_loop (sw \<or> uxPriority s t > p) now s
        }
      })"

definition xTaskIncrementTick :: "kernel \<Rightarrow> (bool \<times> kernel) option" where
  "xTaskIncrementTick s =
     (if uxSchedulerSuspended s = 0 then do {
        let now = xTickCount s + 1;
        let s = s\<lparr>xTickCount := now\<rparr>;
        s \<leftarrow> (if now = 0 then taskSWITCH_DELAYED_LISTS s else Some s);
        (sw, s) \<leftarrow> (if now \<ge> xNextTaskUnblockTime s then wake_loop False now s else Some (False, s));
        p \<leftarrow> current_priority s;
        let sw = (sw \<or> listCURRENT_LIST_LENGTH (pxReadyTasksLists p) (kl s) > 1);
        Some (sw \<or> xYieldPendings s, s)
      } else Some (False, s\<lparr>xPendedTicks := xPendedTicks s + 1\<rparr>))"

text \<open>The machine timer interrupt, as the port's trap handler takes it.\<close>

definition tick_interrupt :: "kernel \<Rightarrow> kernel option" where
  "tick_interrupt s = do {
     (sw, s) \<leftarrow> xTaskIncrementTick s;
     if sw then vTaskSwitchContext s else Some s
   }"

section \<open>Suspending and resuming the scheduler\<close>

definition vTaskSuspendAll :: "kernel \<Rightarrow> kernel" where
  "vTaskSuspendAll s = s\<lparr>uxSchedulerSuspended := uxSchedulerSuspended s + 1\<rparr>"

text \<open>One task of the pending ready list, and the loop over the list; the flag says that it moved one.\<close>

definition ready_pending :: "kernel \<Rightarrow> kernel option" where
  "ready_pending s = do {
     t \<leftarrow> listGET_OWNER_OF_HEAD_ENTRY xPendingReadyList (kl s);
     s \<leftarrow> list_remove (xEventListItem t) s;
     s \<leftarrow> list_remove (xStateListItem t) s;
     let s = prvAddTaskToReadyList t s;
     p \<leftarrow> current_priority s;
     Some (if uxPriority s t > p then s\<lparr>xYieldPendings := True\<rparr> else s)
   }"

partial_function (option) pending_loop :: "bool \<Rightarrow> kernel \<Rightarrow> (bool \<times> kernel) option" where
  "pending_loop moved s =
     (if listLIST_IS_EMPTY xPendingReadyList (kl s) then Some (moved, s)
      else do { s \<leftarrow> ready_pending s; pending_loop True s })"

fun process_ticks :: "nat \<Rightarrow> kernel \<Rightarrow> kernel option" where
  "process_ticks 0 s = Some s"
| "process_ticks (Suc n) s = do {
     (sw, s) \<leftarrow> xTaskIncrementTick s;
     process_ticks n (if sw then s\<lparr>xYieldPendings := True\<rparr> else s)
   }"

definition xTaskResumeAll :: "kernel \<Rightarrow> (bool \<times> kernel) option" where
  "xTaskResumeAll s =
     (if uxSchedulerSuspended s = 0 then None
      else let s = s\<lparr>uxSchedulerSuspended := uxSchedulerSuspended s - 1\<rparr> in
        if uxSchedulerSuspended s = 0 \<and> uxCurrentNumberOfTasks s > 0 then do {
          (moved, s) \<leftarrow> pending_loop False s;
          let s = (if moved then prvResetNextTaskUnblockTime s else s);
          s \<leftarrow> (if xPendedTicks s > 0 then do {
                 s \<leftarrow> process_ticks (unat (xPendedTicks s)) s;
                 Some (s\<lparr>xPendedTicks := 0\<rparr>)
               } else Some s);
          if xYieldPendings s then do { s \<leftarrow> portYIELD s; Some (True, s) } else Some (False, s)
        } else Some (False, s))"

definition xTaskCatchUpTicks :: "u32 \<Rightarrow> kernel \<Rightarrow> (bool \<times> kernel) option" where
  "xTaskCatchUpTicks n s =
     (if uxSchedulerSuspended s = 0 then
        let s = vTaskSuspendAll s;
            s = s\<lparr>xPendedTicks := xPendedTicks s + n\<rparr>
        in xTaskResumeAll s
      else None)"

section \<open>Blocking and resuming tasks\<close>

definition prvAddCurrentTaskToDelayedList :: "u32 \<Rightarrow> bool \<Rightarrow> kernel \<Rightarrow> kernel option" where
  "prvAddCurrentTaskToDelayedList wait indefinitely s = do {
     let now = xTickCount s;
     let t = pxCurrentTCB s;
     s \<leftarrow> list_remove (xStateListItem t) s;
     if wait = portMAX_DELAY \<and> indefinitely then
       Some (s\<lparr>kl := vListInsertEnd xSuspendedTaskList (xStateListItem t) (kl s)\<rparr>)
     else do {
       let wake = now + wait;
       let s = s\<lparr>kl := listSET_LIST_ITEM_VALUE (xStateListItem t) wake (kl s)\<rparr>;
       if wake < now then do {
         l \<leftarrow> vListInsert (pxOverflowDelayedTaskList s) (xStateListItem t) (kl s);
         Some (s\<lparr>kl := l\<rparr>)
       } else do {
         l \<leftarrow> vListInsert (pxDelayedTaskList s) (xStateListItem t) (kl s);
         let s = s\<lparr>kl := l\<rparr>;
         Some (if wake < xNextTaskUnblockTime s then s\<lparr>xNextTaskUnblockTime := wake\<rparr> else s)
       }
     }
   }"

definition prvTaskIsTaskSuspended :: "tcb \<Rightarrow> kernel \<Rightarrow> bool option" where
  "prvTaskIsTaskSuspended t s =
     (if t = NULL then None
      else Some (listIS_CONTAINED_WITHIN xSuspendedTaskList (xStateListItem t) (kl s)
        \<and> \<not> listIS_CONTAINED_WITHIN xPendingReadyList (xEventListItem t) (kl s)
        \<and> pxContainer (kl s) (xEventListItem t) = None
        \<and> ucNotifyState s t \<noteq> taskWAITING_NOTIFICATION))"

definition xTaskResumeFromISR :: "tcb \<Rightarrow> kernel \<Rightarrow> (bool \<times> kernel) option" where
  "xTaskResumeFromISR t s = do {
     susp \<leftarrow> prvTaskIsTaskSuspended t s;
     if susp then
       if uxSchedulerSuspended s = 0 then do {
         p \<leftarrow> current_priority s;
         let need = uxPriority s t > p;
         let s = (if need then s\<lparr>xYieldPendings := True\<rparr> else s);
         s \<leftarrow> list_remove (xStateListItem t) s;
         Some (need, prvAddTaskToReadyList t s)
       } else Some (False, s\<lparr>kl := vListInsertEnd xPendingReadyList (xEventListItem t) (kl s)\<rparr>)
     else Some (False, s)
   }"

text \<open>An interrupt handler: the tick, or one that resumes a task and passes the result to
  \<open>portYIELD_FROM_ISR\<close> or drops it.\<close>

datatype irq = Tick | Resume_from_isr tcb bool

definition portYIELD_FROM_ISR :: "bool \<Rightarrow> kernel \<Rightarrow> kernel option" where
  "portYIELD_FROM_ISR need s = (if need then vTaskSwitchContext s else Some s)"

fun interrupt :: "irq \<Rightarrow> kernel \<Rightarrow> kernel option" where
  "interrupt Tick s = tick_interrupt s"
| "interrupt (Resume_from_isr t pass) s = do {
     (need, s) \<leftarrow> xTaskResumeFromISR t s;
     if pass then portYIELD_FROM_ISR need s else Some s
   }"

fun interrupts :: "irq list \<Rightarrow> kernel \<Rightarrow> kernel option" where
  "interrupts [] s = Some s"
| "interrupts (i # is) s = do { s \<leftarrow> interrupt i s; interrupts is s }"

text \<open>\<open>irqs\<close> are the interrupts taken between \<open>vTaskSuspendAll\<close> and the end of the block, before and
  after the list operation.\<close>

definition vTaskDelay :: "irq list \<times> irq list \<Rightarrow> u32 \<Rightarrow> kernel \<Rightarrow> kernel option" where
  "vTaskDelay irqs n s = do {
     (yielded, s) \<leftarrow> (if n > 0 then do {
        let s = vTaskSuspendAll s;
        s \<leftarrow> interrupts (fst irqs) s;
        if uxSchedulerSuspended s \<noteq> 1 then None
        else do {
          s \<leftarrow> prvAddCurrentTaskToDelayedList n False s;
          s \<leftarrow> interrupts (snd irqs) s;
          xTaskResumeAll s
        }
      } else Some (False, s));
     if yielded then Some s else portYIELD s
   }"

text \<open>Whether \<open>xTaskDelayUntil\<close> delays: the two tests on the tick count and the wake time.\<close>

definition should_delay :: "u32 \<Rightarrow> u32 \<Rightarrow> u32 \<Rightarrow> bool" where
  "should_delay now previous wake =
     (if now < previous then wake < previous \<and> wake > now else wake < previous \<or> wake > now)"

text \<open>The result: the next wake time, stored through the pointer, and whether it delayed.\<close>

definition xTaskDelayUntil :: "irq list \<times> irq list \<Rightarrow> u32 \<Rightarrow> u32 \<Rightarrow> kernel \<Rightarrow> ((u32 \<times> bool) \<times> kernel) option" where
  "xTaskDelayUntil irqs previous inc s =
     (if inc = 0 then None
      else do {
        let s = vTaskSuspendAll s;
        s \<leftarrow> interrupts (fst irqs) s;
        let now = xTickCount s;
        if uxSchedulerSuspended s \<noteq> 1 then None
        else do {
          let wake = previous + inc;
          let should = should_delay now previous wake;
          s \<leftarrow> (if should then prvAddCurrentTaskToDelayedList (wake - now) False s else Some s);
          s \<leftarrow> interrupts (snd irqs) s;
          (yielded, s) \<leftarrow> xTaskResumeAll s;
          s \<leftarrow> (if yielded then Some s else portYIELD s);
          Some ((wake, should), s)
        }
      })"

definition prvGetTCBFromHandle :: "tcb \<Rightarrow> kernel \<Rightarrow> tcb" where
  "prvGetTCBFromHandle h s = (if h = NULL then pxCurrentTCB s else h)"

definition vTaskSuspend :: "tcb \<Rightarrow> kernel \<Rightarrow> kernel option" where
  "vTaskSuspend h s = do {
     let t = prvGetTCBFromHandle h s;
     s \<leftarrow> list_remove (xStateListItem t) s;
     s \<leftarrow> (if pxContainer (kl s) (xEventListItem t) \<noteq> None then list_remove (xEventListItem t) s else Some s);
     let s = s\<lparr>kl := vListInsertEnd xSuspendedTaskList (xStateListItem t) (kl s)\<rparr>;
     let s = (if ucNotifyState s t = taskWAITING_NOTIFICATION then s\<lparr>ucNotifyState := (ucNotifyState s)(t := taskNOT_WAITING_NOTIFICATION)\<rparr> else s);
     let s = (if xSchedulerRunning s then prvResetNextTaskUnblockTime s else s);
     if t = pxCurrentTCB s then
       if xSchedulerRunning s then (if uxSchedulerSuspended s = 0 then portYIELD s else None)
       else if listCURRENT_LIST_LENGTH xSuspendedTaskList (kl s) = uxCurrentNumberOfTasks s then Some (s\<lparr>pxCurrentTCB := NULL\<rparr>)
       else vTaskSwitchContext s
     else Some s
   }"

definition vTaskResume :: "tcb \<Rightarrow> kernel \<Rightarrow> kernel option" where
  "vTaskResume t s =
     (if t = NULL then None
      else if t \<noteq> pxCurrentTCB s then do {
        susp \<leftarrow> prvTaskIsTaskSuspended t s;
        if susp then do {
          s \<leftarrow> list_remove (xStateListItem t) s;
          taskYIELD_ANY_CORE_IF_USING_PREEMPTION t (prvAddTaskToReadyList t s)
        } else Some s
      } else Some s)"

text \<open>\<open>uxNewPriority < configMAX_PRIORITIES\<close> is asserted, so its clamping is not reached.\<close>

definition vTaskPrioritySet :: "tcb \<Rightarrow> u32 \<Rightarrow> kernel \<Rightarrow> kernel option" where
  "vTaskPrioritySet h new s =
     (if new < configMAX_PRIORITIES then
        let t = prvGetTCBFromHandle h s; old = uxPriority s t in
        if t = NULL then None
        else if old \<noteq> new then do {
          yield \<leftarrow> (if new > old then (if t \<noteq> pxCurrentTCB s then do { p \<leftarrow> current_priority s; Some (new > p) } else Some False)
                   else Some (t = pxCurrentTCB s));
          let s = s\<lparr>uxPriority := (uxPriority s)(t := new)\<rparr>;
          let s = (if xItemValue (kl s) (Item (xEventListItem t)) AND taskEVENT_LIST_ITEM_VALUE_IN_USE = 0
                   then s\<lparr>kl := listSET_LIST_ITEM_VALUE (xEventListItem t) (configMAX_PRIORITIES - new) (kl s)\<rparr> else s);
          s \<leftarrow> (if listIS_CONTAINED_WITHIN (pxReadyTasksLists old) (xStateListItem t) (kl s) then do {
                 s \<leftarrow> list_remove (xStateListItem t) s;
                 Some (prvAddTaskToReadyList t s)
               } else Some s);
          if yield then portYIELD s else Some s
        } else Some s
      else None)"

text \<open>One pass of the idle task's loop: it yields when another task shares its priority. There is
  no idle hook, and nothing to clean up.\<close>

definition prvIdleTask :: "kernel \<Rightarrow> kernel option" where
  "prvIdleTask s = (if listCURRENT_LIST_LENGTH (pxReadyTasksLists 0) (kl s) > 1 then portYIELD s else Some s)"

end
