(* ===== verification/Freertos_Sched.thy ===== *)
theory Freertos_Sched
  imports Freertos_Tasks
begin

text \<open>
  The scheduler's invariant and what the tick, a context switch and an interrupt do to it. The
  invariant is stated over where each task's list item is (\<open>pxContainer\<close>), so that an operation
  changes it at one task; that the lists are well-formed rings and the delayed lists sorted is a
  part of it. \<open>Freertos_Calls\<close> has the calls of the kernel, \<open>Freertos_Runs\<close> start-up and runs.
\<close>

section \<open>The kernel's lists\<close>

primrec task_of :: "kitem \<Rightarrow> tcb" where
  "task_of (xStateListItem t) = t"
| "task_of (xEventListItem t) = t"

definition KL :: "klist set" where "KL = {l. \<forall>p. l = pxReadyTasksLists p \<longrightarrow> p < configMAX_PRIORITIES}"

definition delayed_lists :: "klist set" where "delayed_lists = {xDelayedTaskList1, xDelayedTaskList2}"

definition fits :: "klist \<Rightarrow> kitem \<Rightarrow> bool" where
  "fits l i \<longleftrightarrow> l \<in> KL \<and> task_of i \<noteq> NULL \<and> (if l = xPendingReadyList then i = xEventListItem (task_of i) else i = xStateListItem (task_of i))"

definition lists_ok :: "(klist, kitem, tcb) lists \<Rightarrow> bool" where
  "lists_ok s \<longleftrightarrow> (\<forall>l \<in> KL. \<exists>xs j. ring s l xs j \<and> (l \<in> delayed_lists \<longrightarrow> sorted (map (item_value s) xs)))
     \<and> (\<forall>i l. pxContainer s i = Some l \<longrightarrow> fits l i \<and> pvOwner s i = task_of i)"

lemma KL_simps [simp]: "xDelayedTaskList1 \<in> KL" "xDelayedTaskList2 \<in> KL" "xPendingReadyList \<in> KL" "xSuspendedTaskList \<in> KL"
  "pxReadyTasksLists p \<in> KL \<longleftrightarrow> p < configMAX_PRIORITIES"
  by (simp_all add: KL_def)

lemma delayed_KL [simp]: "l \<in> delayed_lists \<Longrightarrow> l \<in> KL" by (auto simp: delayed_lists_def)

lemma not_delayed [simp]: "pxReadyTasksLists p \<notin> delayed_lists" "xSuspendedTaskList \<notin> delayed_lists" "xPendingReadyList \<notin> delayed_lists"
  by (simp_all add: delayed_lists_def)

lemma lists_okE:
  assumes "lists_ok s" "l \<in> KL"
  obtains xs j where "ring s l xs j" "l \<in> delayed_lists \<Longrightarrow> sorted (map (item_value s) xs)" "\<And>i. pxContainer s i = Some l \<longleftrightarrow> i \<in> set xs"
proof -
  obtain xs j where "ring s l xs j" "l \<in> delayed_lists \<longrightarrow> sorted (map (item_value s) xs)" using assms unfolding lists_ok_def by blast
  then show thesis using that unfolding ring_def by blast
qed

lemma lists_ok_item: "lists_ok s \<Longrightarrow> pxContainer s i = Some l \<Longrightarrow> fits l i \<and> pvOwner s i = task_of i"
  unfolding lists_ok_def by blast

lemma ring_room:
  assumes ok: "lists_ok s" and r: "ring s l xs j" and i: "pxContainer s i \<noteq> Some l" "fits l i"
  shows "length xs + 1 < 2 ^ 32"
proof -
  have f: "fits l x" if "x \<in> insert i (set xs)" for x
    using that i r lists_ok_item [OF ok] by (auto simp: ring_def)
  have "inj_on task_of (insert i (set xs))"
  proof (rule inj_onI)
    fix x y assume "x \<in> insert i (set xs)" "y \<in> insert i (set xs)" "task_of x = task_of y"
    then show "x = y" using f [of x] f [of y] by (auto simp: fits_def split: if_splits)
  qed
  moreover have "task_of ` insert i (set xs) \<subseteq> - {0 :: u32}" using f by (auto simp: fits_def)
  ultimately have "card (insert i (set xs)) \<le> card (- {0 :: u32})"
    by (metis card_image card_mono finite)
  also have "\<dots> < CARD(u32)" by (rule psubset_card_mono) auto
  also have "CARD(u32) = 2 ^ 32" by (simp add: card_word)
  finally show ?thesis using r i(1) by (simp add: ring_def distinct_card)
qed

lemma ring_count: "ring s l xs j \<Longrightarrow> unat (uxNumberOfItems s l) = length xs"
  by (simp add: ring_def unat_of_nat take_bit_nat_eq_self)

lemma empty_iff:
  assumes "lists_ok s" "l \<in> KL"
  shows "listLIST_IS_EMPTY l s \<longleftrightarrow> (\<forall>i. pxContainer s i \<noteq> Some l)"
proof -
  obtain xs j where x: "ring s l xs j" "\<And>i. pxContainer s i = Some l \<longleftrightarrow> i \<in> set xs" using lists_okE [OF assms] by metis
  show ?thesis using ring_count [OF x(1)] x(2) by (auto simp: listLIST_IS_EMPTY_def word_unat_eq_iff)
qed

lemma longer_than_1:
  assumes "lists_ok s" "l \<in> KL"
  shows "listCURRENT_LIST_LENGTH l s > 1 \<longleftrightarrow> (\<exists>i k. i \<noteq> k \<and> pxContainer s i = Some l \<and> pxContainer s k = Some l)"
proof -
  obtain xs j where x: "ring s l xs j" "\<And>i. pxContainer s i = Some l \<longleftrightarrow> i \<in> set xs" using lists_okE [OF assms] by metis
  have "listCURRENT_LIST_LENGTH l s > 1 \<longleftrightarrow> length xs > 1"
    using ring_count [OF x(1)] by (simp add: listCURRENT_LIST_LENGTH_def word_less_nat_alt)
  moreover have "distinct xs" using x(1) by (simp add: ring_def)
  then have "length xs > 1 \<longleftrightarrow> (\<exists>i k. i \<noteq> k \<and> i \<in> set xs \<and> k \<in> set xs)"
    by (cases xs; cases "tl xs") auto
  ultimately show ?thesis by (simp add: x(2))
qed

text \<open>One list changes, the others stay.\<close>

lemma lists_ok_update:
  assumes ok: "lists_ok s" and l: "l \<in> KL" "ring s' l xs j" "l \<in> delayed_lists \<Longrightarrow> sorted (map (item_value s') xs)"
    and others: "\<And>k us m. k \<noteq> l \<Longrightarrow> ring s k us m \<Longrightarrow> ring s' k us m"
    and items: "\<And>i k. pxContainer s' i = Some k \<Longrightarrow> fits k i \<and> pvOwner s' i = task_of i"
    and vals: "\<And>i k. k \<noteq> l \<Longrightarrow> k \<in> delayed_lists \<Longrightarrow> pxContainer s i = Some k \<Longrightarrow> item_value s' i = item_value s i"
  shows "lists_ok s'"
proof -
  have "\<exists>ys m. ring s' k ys m \<and> (k \<in> delayed_lists \<longrightarrow> sorted (map (item_value s') ys))" if k: "k \<in> KL" for k
  proof (cases "k = l")
    case False
    obtain ys m where y: "ring s k ys m" "k \<in> delayed_lists \<Longrightarrow> sorted (map (item_value s) ys)" "\<And>i. pxContainer s i = Some k \<longleftrightarrow> i \<in> set ys"
      using lists_okE [OF ok k] by metis
    have "k \<in> delayed_lists \<Longrightarrow> map (item_value s') ys = map (item_value s) ys" using vals [OF False] y(3) by simp
    then show ?thesis using others [OF False y(1)] y(2) by metis
  qed (use l in blast)
  then show ?thesis using items by (simp add: lists_ok_def)
qed

lemma insert_end_ok:
  assumes ok: "lists_ok s" and free: "pxContainer s i = None" and i: "fits l i" "l \<notin> delayed_lists" "pvOwner s i = task_of i"
  shows "lists_ok (vListInsertEnd l i s)"
proof -
  have l: "l \<in> KL" using i(1) by (simp add: fits_def)
  obtain xs j where x: "ring s l xs j" using lists_okE [OF ok l] by metis
  have room: "length xs + 1 < 2 ^ 32" by (rule ring_room [OF ok x]) (use free i in simp_all)
  note v = vListInsertEnd_ring [OF x free room]
  show ?thesis
    by (rule lists_ok_update [OF ok l v(1)])
      (use v(2) i lists_ok_item [OF ok] in \<open>auto simp: vListInsertEnd_def Let_def split: if_splits\<close>)
qed

lemma insert_end_frame [simp]: "pxContainer (vListInsertEnd l i s) = (pxContainer s)(i := Some l)"
  "xItemValue (vListInsertEnd l i s) = xItemValue s" "pvOwner (vListInsertEnd l i s) = pvOwner s"
  by (simp_all add: vListInsertEnd_def Let_def)

lemma sorted_insert_sorted: "sorted (map f xs) \<Longrightarrow> sorted (map f (insert_sorted f x xs))"
proof (induction xs)
  case (Cons y ys)
  have "set (insert_sorted f x ys) \<subseteq> insert x (set ys)" by (induction ys) auto
  then show ?case using Cons by (auto simp: not_le)
qed simp

lemma insert_ok:
  assumes ok: "lists_ok s" and free: "pxContainer s i = None" and i: "fits l i" "pvOwner s i = task_of i"
  obtains s' where "vListInsert l i s = Some s'" "lists_ok s'" "pxContainer s' = (pxContainer s)(i := Some l)"
    "xItemValue s' = xItemValue s" "pvOwner s' = pvOwner s"
proof -
  have l: "l \<in> KL" using i(1) by (simp add: fits_def)
  obtain xs j where x: "ring s l xs j" "l \<in> delayed_lists \<Longrightarrow> sorted (map (item_value s) xs)" using lists_okE [OF ok l] by metis
  have room: "length xs + 1 < 2 ^ 32" by (rule ring_room [OF ok x(1)]) (use free i in simp_all)
  obtain s' where s': "vListInsert l i s = Some s'" "ring s' l (insert_sorted (item_value s) i xs) j"
    "xItemValue s' = xItemValue s" "pvOwner s' = pvOwner s" "pxContainer s' = (pxContainer s)(i := Some l)"
    "\<And>k us m. k \<noteq> l \<Longrightarrow> ring s k us m \<Longrightarrow> ring s' k us m" using vListInsert_ring [OF x(1) free room] by auto
  have "lists_ok s'"
    by (rule lists_ok_update [OF ok l s'(2)])
      (use x(2) s' i lists_ok_item [OF ok] in \<open>auto simp: sorted_insert_sorted split: if_splits\<close>)
  then show thesis using that s' by simp
qed

lemma remove_ok:
  assumes ok: "lists_ok s" and i: "pxContainer s i = Some l"
  obtains n s' where "uxListRemove i s = Some (n, s')" "lists_ok s'" "pxContainer s' = (pxContainer s)(i := None)"
    "xItemValue s' = xItemValue s" "pvOwner s' = pvOwner s"
proof -
  have l: "l \<in> KL" using lists_ok_item [OF ok i] by (simp add: fits_def)
  obtain xs j where x: "ring s l xs j" "l \<in> delayed_lists \<Longrightarrow> sorted (map (item_value s) xs)" "i \<in> set xs"
    using lists_okE [OF ok l] i by metis
  obtain n s' where s': "uxListRemove i s = Some (n, s')" "ring s' l (remove1 i xs) (index_without i xs j)"
    "xItemValue s' = xItemValue s" "pvOwner s' = pvOwner s" "pxContainer s' = (pxContainer s)(i := None)"
    "\<And>k us m. k \<noteq> l \<Longrightarrow> ring s k us m \<Longrightarrow> ring s' k us m" using uxListRemove_ring [OF x(1,3)] by auto
  have "lists_ok s'"
    by (rule lists_ok_update [OF ok l s'(2)])
      (use x(2) s' lists_ok_item [OF ok] in \<open>auto simp: sorted_map_remove1 split: if_splits\<close>)
  then show thesis using that s' by simp
qed

lemma set_value_ok:
  assumes ok: "lists_ok s" and i: "\<And>l. pxContainer s i = Some l \<Longrightarrow> l \<notin> delayed_lists"
  shows "lists_ok (listSET_LIST_ITEM_VALUE i v s)"
proof -
  have "\<exists>ys m. ring (listSET_LIST_ITEM_VALUE i v s) k ys m \<and> (k \<in> delayed_lists \<longrightarrow> sorted (map (item_value (listSET_LIST_ITEM_VALUE i v s)) ys))"
    if k: "k \<in> KL" for k
  proof -
    obtain ys m where y: "ring s k ys m" "k \<in> delayed_lists \<Longrightarrow> sorted (map (item_value s) ys)" "\<And>i. pxContainer s i = Some k \<longleftrightarrow> i \<in> set ys"
      using lists_okE [OF ok k] by metis
    have "ring (listSET_LIST_ITEM_VALUE i v s) k ys m" using y(1) by (simp add: ring_def listSET_LIST_ITEM_VALUE_def)
    moreover have "k \<in> delayed_lists \<Longrightarrow> i \<notin> set ys" using i y(3) by blast
    then have "k \<in> delayed_lists \<Longrightarrow> map (item_value (listSET_LIST_ITEM_VALUE i v s)) ys = map (item_value s) ys"
      by (auto simp: listSET_LIST_ITEM_VALUE_def)
    ultimately show ?thesis using y(2) by metis
  qed
  then show ?thesis using lists_ok_item [OF ok] by (simp add: lists_ok_def listSET_LIST_ITEM_VALUE_def)
qed

lemma set_value_frame [simp]: "pxContainer (listSET_LIST_ITEM_VALUE i v s) = pxContainer s"
  "item_value (listSET_LIST_ITEM_VALUE i v s) = (item_value s)(i := v)" "pvOwner (listSET_LIST_ITEM_VALUE i v s) = pvOwner s"
  by (auto simp: listSET_LIST_ITEM_VALUE_def)

lemma next_entry_ok:
  assumes ok: "lists_ok s" and l: "l \<in> KL" "pxContainer s i = Some l"
  obtains t s' where "listGET_OWNER_OF_NEXT_ENTRY l s = (Some t, s')" "lists_ok s'" "pxContainer s' = pxContainer s"
    "xItemValue s' = xItemValue s" "pvOwner s' = pvOwner s" "\<exists>x. pxContainer s x = Some l \<and> task_of x = t"
proof -
  obtain xs j where x: "ring s l xs j" "l \<in> delayed_lists \<Longrightarrow> sorted (map (item_value s) xs)" "\<And>i. pxContainer s i = Some l \<longleftrightarrow> i \<in> set xs"
    using lists_okE [OF ok l(1)] by metis
  have ne: "xs \<noteq> []" using x(3) l(2) by auto
  let ?x = "hd (turns xs j)" and ?s = "s\<lparr>pxIndex := (pxIndex s)(l := Item (hd (turns xs j)))\<rparr>"
  note v = next_entry_ring [OF x(1) ne]
  have m: "pxContainer s ?x = Some l" using turns_hd(1) [OF ne] x by (auto simp: ring_def)
  have "lists_ok ?s"
    by (rule lists_ok_update [OF ok l(1) v(2)]) (use v(3) x(2) lists_ok_item [OF ok] in auto)
  then show thesis using that [of "pvOwner s ?x" ?s] v(1) lists_ok_item [OF ok m] m by auto
qed

lemma head_ok:
  assumes ok: "lists_ok s" and l: "l \<in> KL" "pxContainer s i = Some l"
  obtains x where "pxNext s (Marker l) = Item x" "listGET_OWNER_OF_HEAD_ENTRY l s = Some (task_of x)" "pxContainer s x = Some l"
    "l \<in> delayed_lists \<Longrightarrow> \<forall>k. pxContainer s k = Some l \<longrightarrow> item_value s x \<le> item_value s k"
proof -
  obtain xs j where x: "ring s l xs j" "l \<in> delayed_lists \<Longrightarrow> sorted (map (item_value s) xs)" "\<And>i. pxContainer s i = Some l \<longleftrightarrow> i \<in> set xs"
    using lists_okE [OF ok l(1)] by metis
  obtain y ys where y: "xs = y # ys" using x(3) l(2) by (cases xs) auto
  have n: "pxNext s (Marker l) = Item y" using x(1) y by (simp add: ring_def)
  have "pxContainer s y = Some l" using x(3) y by simp
  then show thesis using that [OF n] lists_ok_item [OF ok] x(2,3) y n by (auto simp: listGET_OWNER_OF_HEAD_ENTRY_def)
qed

section \<open>The invariant\<close>

abbreviation state_of :: "kernel \<Rightarrow> tcb \<Rightarrow> klist option" where
  "state_of s t \<equiv> pxContainer (kl s) (xStateListItem t)"

abbreviation event_of :: "kernel \<Rightarrow> tcb \<Rightarrow> klist option" where
  "event_of s t \<equiv> pxContainer (kl s) (xEventListItem t)"

abbreviation wake :: "kernel \<Rightarrow> tcb \<Rightarrow> u32" where
  "wake s t \<equiv> item_value (kl s) (xStateListItem t)"

text \<open>\<open>T\<close> are the tasks that exist. Each is in the list of its state; a task that was resumed while
  the scheduler was suspended is still in the suspended list, its event item in the pending list.\<close>

definition kbase :: "tcb set \<Rightarrow> tcb \<Rightarrow> kernel \<Rightarrow> bool" where
  "kbase T idle s \<longleftrightarrow> lists_ok (kl s)
     \<and> (\<forall>t \<in> T. t \<noteq> NULL \<and> pvOwner (kl s) (xStateListItem t) = t \<and> pvOwner (kl s) (xEventListItem t) = t
          \<and> stack_low s t = replicate 4 0xa5a5a5a5 \<and> uxPriority s t < configMAX_PRIORITIES \<and> state_of s t \<noteq> None)
     \<and> (\<forall>t l. state_of s t = Some l \<longrightarrow> t \<in> T)
     \<and> (\<forall>t p. state_of s t = Some (pxReadyTasksLists p) \<longrightarrow> p = uxPriority s t \<and> p \<le> uxTopReadyPriority s)
     \<and> uxTopReadyPriority s < configMAX_PRIORITIES
     \<and> (\<forall>t l. event_of s t = Some l \<longrightarrow> state_of s t = Some xSuspendedTaskList)
     \<and> (pxDelayedTaskList s, pxOverflowDelayedTaskList s) \<in> {(xDelayedTaskList1, xDelayedTaskList2), (xDelayedTaskList2, xDelayedTaskList1)}
     \<and> idle \<in> T \<and> state_of s idle = Some (pxReadyTasksLists (uxPriority s idle)) \<and> pxCurrentTCB s \<in> T"

text \<open>A delayed task's time is after the tick count, or below it in the overflow list, and the next
  unblock time is not too late.\<close>

definition timely :: "kernel \<Rightarrow> bool" where
  "timely s \<longleftrightarrow> (\<forall>t. state_of s t = Some (pxDelayedTaskList s) \<longrightarrow> xTickCount s < wake s t \<and> xNextTaskUnblockTime s \<le> wake s t)
     \<and> (\<forall>t. state_of s t = Some (pxOverflowDelayedTaskList s) \<longrightarrow> wake s t < xTickCount s)"

definition delayed :: "kernel \<Rightarrow> tcb \<Rightarrow> bool" where
  "delayed s t \<longleftrightarrow> state_of s t = Some (pxDelayedTaskList s) \<or> state_of s t = Some (pxOverflowDelayedTaskList s)"

definition ready :: "kernel \<Rightarrow> tcb \<Rightarrow> bool" where
  "ready s t \<longleftrightarrow> state_of s t = Some (pxReadyTasksLists (uxPriority s t))"

text \<open>No ready task has a higher priority than the running one.\<close>

definition runs_highest :: "kernel \<Rightarrow> bool" where
  "runs_highest s \<longleftrightarrow> (\<forall>t. ready s t \<longrightarrow> uxPriority s t \<le> uxPriority s (pxCurrentTCB s))"

lemma kbaseD:
  assumes "kbase T idle s"
  shows "lists_ok (kl s)"
    "\<forall>t \<in> T. t \<noteq> NULL \<and> pvOwner (kl s) (xStateListItem t) = t \<and> pvOwner (kl s) (xEventListItem t) = t
          \<and> stack_low s t = replicate 4 0xa5a5a5a5 \<and> uxPriority s t < configMAX_PRIORITIES \<and> state_of s t \<noteq> None"
    "\<forall>t l. state_of s t = Some l \<longrightarrow> t \<in> T"
    "\<forall>t p. state_of s t = Some (pxReadyTasksLists p) \<longrightarrow> p = uxPriority s t \<and> p \<le> uxTopReadyPriority s"
    "uxTopReadyPriority s < configMAX_PRIORITIES"
    "\<forall>t l. event_of s t = Some l \<longrightarrow> state_of s t = Some xSuspendedTaskList"
    "(pxDelayedTaskList s, pxOverflowDelayedTaskList s) \<in> {(xDelayedTaskList1, xDelayedTaskList2), (xDelayedTaskList2, xDelayedTaskList1)}"
    "idle \<in> T" "state_of s idle = Some (pxReadyTasksLists (uxPriority s idle))" "pxCurrentTCB s \<in> T"
  using assms unfolding kbase_def by - (elim conjE, assumption)+

lemma kbaseI:
  assumes "lists_ok (kl s)"
    "\<And>t. t \<in> T \<Longrightarrow> t \<noteq> NULL \<and> pvOwner (kl s) (xStateListItem t) = t \<and> pvOwner (kl s) (xEventListItem t) = t
          \<and> stack_low s t = replicate 4 0xa5a5a5a5 \<and> uxPriority s t < configMAX_PRIORITIES \<and> state_of s t \<noteq> None"
    "\<And>t l. state_of s t = Some l \<Longrightarrow> t \<in> T"
    "\<And>t p. state_of s t = Some (pxReadyTasksLists p) \<Longrightarrow> p = uxPriority s t \<and> p \<le> uxTopReadyPriority s"
    "uxTopReadyPriority s < configMAX_PRIORITIES"
    "\<And>t l. event_of s t = Some l \<Longrightarrow> state_of s t = Some xSuspendedTaskList"
    "(pxDelayedTaskList s, pxOverflowDelayedTaskList s) \<in> {(xDelayedTaskList1, xDelayedTaskList2), (xDelayedTaskList2, xDelayedTaskList1)}"
    "idle \<in> T" "state_of s idle = Some (pxReadyTasksLists (uxPriority s idle))" "pxCurrentTCB s \<in> T"
  shows "kbase T idle s"
  unfolding kbase_def using assms by - (intro conjI; blast)

lemmas kbase_lists = kbaseD(1)
lemmas kbase_current = kbaseD(10)

lemma kbase_tasks: "kbase T idle s \<Longrightarrow> t \<in> T \<Longrightarrow> t \<noteq> NULL \<and> pvOwner (kl s) (xStateListItem t) = t
    \<and> pvOwner (kl s) (xEventListItem t) = t \<and> stack_low s t = replicate 4 0xa5a5a5a5 \<and> uxPriority s t < configMAX_PRIORITIES \<and> state_of s t \<noteq> None"
  using kbaseD(2) by blast

lemma kbase_ready: "kbase T idle s \<Longrightarrow> state_of s t = Some (pxReadyTasksLists p) \<Longrightarrow> p = uxPriority s t \<and> p \<le> uxTopReadyPriority s"
  using kbaseD(4) by blast

lemma kbase_delayed: "kbase T idle s \<Longrightarrow> pxDelayedTaskList s \<in> delayed_lists \<and> pxOverflowDelayedTaskList s \<in> delayed_lists
    \<and> pxDelayedTaskList s \<noteq> pxOverflowDelayedTaskList s"
  using kbaseD(7) [of T idle s] by (auto simp: delayed_lists_def)

lemma kbase_state: "kbase T idle s \<Longrightarrow> state_of s t = Some l \<Longrightarrow> t \<in> T" using kbaseD(3) by blast

lemma kbase_event: "kbase T idle s \<Longrightarrow> event_of s t = Some l \<Longrightarrow> state_of s t = Some xSuspendedTaskList \<and> l = xPendingReadyList"
  using lists_ok_item [OF kbase_lists, of T idle s "xEventListItem t" l] kbaseD(6) [of T idle s] by (auto simp: fits_def split: if_splits)

lemma kbase_state_item: "kbase T idle s \<Longrightarrow> pxContainer (kl s) i = Some l \<Longrightarrow> l \<noteq> xPendingReadyList \<Longrightarrow> i = xStateListItem (task_of i)"
  using lists_ok_item [of "kl s" i l] kbase_lists by (auto simp: fits_def)

lemma current_priority_eq: "kbase T idle s \<Longrightarrow> current_priority s = Some (uxPriority s (pxCurrentTCB s))"
  using kbase_tasks kbase_current by (fastforce simp: current_priority_def)

lemma list_remove_eq: "uxListRemove i (kl s) = Some (n, l) \<Longrightarrow> list_remove i s = Some (s\<lparr>kl := l\<rparr>)"
  by (simp add: list_remove_def)

text \<open>A task that moves to another list: everything else of the invariant carries over.\<close>

lemma kbase_move:
  assumes b: "kbase T idle s" and t: "t \<in> T" and l: "lists_ok l"
    and c: "pxContainer l = (pxContainer (kl s))(xStateListItem t := Some k, xEventListItem t := e)" and o: "pvOwner l = pvOwner (kl s)"
    and e: "e = None \<or> k = xSuspendedTaskList"
    and k: "\<And>p. k = pxReadyTasksLists p \<Longrightarrow> p = uxPriority s t \<and> p \<le> m" and m: "uxTopReadyPriority s \<le> m" "m < configMAX_PRIORITIES"
    and i: "t = idle \<Longrightarrow> k = pxReadyTasksLists (uxPriority s t)"
  shows "kbase T idle (s\<lparr>kl := l, uxTopReadyPriority := m\<rparr>)"
proof -
  let ?s = "s\<lparr>kl := l, uxTopReadyPriority := m\<rparr>"
  note d = kbaseD [OF b]
  have st: "state_of ?s x = (if x = t then Some k else state_of s x)" "event_of ?s x = (if x = t then e else event_of s x)" for x
    by (simp_all add: c)
  show ?thesis
  proof (rule kbaseI)
    fix x assume "x \<in> T"
    then show "x \<noteq> NULL \<and> pvOwner (kl ?s) (xStateListItem x) = x \<and> pvOwner (kl ?s) (xEventListItem x) = x
      \<and> stack_low ?s x = replicate 4 0xa5a5a5a5 \<and> uxPriority ?s x < configMAX_PRIORITIES \<and> state_of ?s x \<noteq> None"
      using d(2) unfolding st by (simp add: o)
  next
    fix x p assume x: "state_of ?s x = Some (pxReadyTasksLists p)"
    show "p = uxPriority ?s x \<and> p \<le> uxTopReadyPriority ?s"
    proof (cases "x = t")
      case True
      then show ?thesis using k [of p] x unfolding st by auto
    next
      case False
      then have "p = uxPriority s x \<and> p \<le> uxTopReadyPriority s" using kbase_ready [OF b] x unfolding st by simp
      then show ?thesis using m(1) by auto
    qed
  next
    show "state_of ?s x = Some l \<Longrightarrow> x \<in> T" for x l using d(3) t unfolding st by (auto split: if_splits)
    show "event_of ?s x = Some l \<Longrightarrow> state_of ?s x = Some xSuspendedTaskList" for x l
      using d(6) e unfolding st by (auto split: if_splits)
    show "state_of ?s idle = Some (pxReadyTasksLists (uxPriority ?s idle))" using d(9) i unfolding st by auto
  qed (use l m(2) d(7,8,10) in simp_all)
qed

section \<open>Choosing the next task\<close>

lemma find_ready_finds:
  assumes "lists_ok (kl s)" "p < configMAX_PRIORITIES" "pxContainer (kl s) i = Some (pxReadyTasksLists q)" "q \<le> p"
  obtains r z where "find_ready p s = Some r" "r \<le> p" "pxContainer (kl s) z = Some (pxReadyTasksLists r)"
    "\<And>x y. pxContainer (kl s) x = Some (pxReadyTasksLists y) \<Longrightarrow> y \<le> p \<Longrightarrow> y \<le> r"
proof -
  have "\<exists>r. find_ready p s = Some r \<and> r \<le> p \<and> (\<exists>x. pxContainer (kl s) x = Some (pxReadyTasksLists r))
      \<and> (\<forall>x y. pxContainer (kl s) x = Some (pxReadyTasksLists y) \<longrightarrow> y \<le> p \<longrightarrow> y \<le> r)"
    using assms
  proof (induction p s rule: find_ready.induct)
    case (1 p s)
    show ?case
    proof (cases "listLIST_IS_EMPTY (pxReadyTasksLists p) (kl s)")
      case True
      then have e: "\<And>x. pxContainer (kl s) x \<noteq> Some (pxReadyTasksLists p)" using empty_iff [OF 1(2)] 1(3) by simp
      then have ne: "q \<noteq> p" using 1(4) by blast
      then have p0: "p \<noteq> 0" using 1(5) by auto
      have dec: "y \<le> p - 1 \<longleftrightarrow> y \<le> p" if "y \<noteq> p" for y
        using that p0 unat_minus_one [of p] by (auto simp: word_le_nat_alt word_unat_eq_iff)
      have "p - 1 < configMAX_PRIORITIES" using 1(3) p0 unat_minus_one [of p] by (simp add: word_less_nat_alt word_unat_eq_iff)
      moreover have "q \<le> p - 1" using dec [OF ne] 1(5) by simp
      ultimately obtain r where r: "find_ready (p - 1) s = Some r" "r \<le> p - 1" "\<exists>x. pxContainer (kl s) x = Some (pxReadyTasksLists r)"
        "\<And>x y. pxContainer (kl s) x = Some (pxReadyTasksLists y) \<Longrightarrow> y \<le> p - 1 \<Longrightarrow> y \<le> r"
        using 1(1) [OF True p0 1(2) _ 1(4)] by blast
      have "r \<le> p" using r(2,3) e dec by metis
      moreover have "y \<le> r" if "pxContainer (kl s) x = Some (pxReadyTasksLists y)" "y \<le> p" for x y
        using r(4) [OF that(1)] that e dec by metis
      ultimately show ?thesis using r(1,3) True p0 by (subst find_ready.simps) auto
    next
      case False
      then show ?thesis using empty_iff [OF 1(2)] 1(3) by (subst find_ready.simps) auto
    qed
  qed
  then show thesis using that by blast
qed

text \<open>A switch: the task chosen is ready, of the highest priority, and nothing else changes.\<close>

lemma switch_ok:
  assumes b: "kbase T idle s" and u: "uxSchedulerSuspended s = 0"
  obtains l c m where "vTaskSwitchContext s = Some (s\<lparr>kl := l, uxTopReadyPriority := m, pxCurrentTCB := c, xYieldPendings := False\<rparr>)"
    "pxContainer l = pxContainer (kl s)" "xItemValue l = xItemValue (kl s)" "pvOwner l = pvOwner (kl s)" "ready s c"
    "\<And>t. ready s t \<Longrightarrow> uxPriority s t \<le> uxPriority s c"
    "kbase T idle (s\<lparr>kl := l, uxTopReadyPriority := m, pxCurrentTCB := c, xYieldPendings := False\<rparr>)"
proof -
  let ?s = "s\<lparr>xYieldPendings := False\<rparr>"
  note d = kbaseD [OF b]
  have idle: "pxContainer (kl ?s) (xStateListItem idle) = Some (pxReadyTasksLists (uxPriority s idle))" "uxPriority s idle \<le> uxTopReadyPriority ?s"
    using kbase_ready [OF b d(9)] d(9) by simp_all
  obtain r x where r: "find_ready (uxTopReadyPriority ?s) ?s = Some r" "r \<le> uxTopReadyPriority ?s"
    "pxContainer (kl ?s) x = Some (pxReadyTasksLists r)"
    "\<And>x y. pxContainer (kl ?s) x = Some (pxReadyTasksLists y) \<Longrightarrow> y \<le> uxTopReadyPriority ?s \<Longrightarrow> y \<le> r"
    by (rule find_ready_finds [of ?s "uxTopReadyPriority ?s", OF _ _ idle]) (use d(1,5) in simp_all)
  have r5: "pxReadyTasksLists r \<in> KL" using r(2) d(5) by (simp add: order_le_less_trans)
  obtain c l where c: "listGET_OWNER_OF_NEXT_ENTRY (pxReadyTasksLists r) (kl s) = (Some c, l)" "lists_ok l"
    "pxContainer l = pxContainer (kl s)" "xItemValue l = xItemValue (kl s)" "pvOwner l = pvOwner (kl s)"
    "\<exists>y. pxContainer (kl s) y = Some (pxReadyTasksLists r) \<and> task_of y = c"
    using next_entry_ok [OF d(1) r5, of x] r(3) by (auto elim: that)
  obtain y where y: "pxContainer (kl s) y = Some (pxReadyTasksLists r)" "task_of y = c" using c(6) by blast
  have st: "state_of s c = Some (pxReadyTasksLists r)" using kbase_state_item [OF b y(1)] y by simp
  have rc: "r = uxPriority s c" using kbase_ready [OF b st] by simp
  have sw: "vTaskSwitchContext s = Some (s\<lparr>kl := l, uxTopReadyPriority := r, pxCurrentTCB := c, xYieldPendings := False\<rparr>)"
    using u r(1) c(1) kbase_tasks [OF b d(10)]
    by (simp add: vTaskSwitchContext_def taskCHECK_FOR_STACK_OVERFLOW_def taskSELECT_HIGHEST_PRIORITY_TASK_def)
  have hi: "p \<le> r" if "state_of s t = Some (pxReadyTasksLists p)" for t p
    using r(4) [of "xStateListItem t" p] kbase_ready [OF b that] that by auto
  let ?s' = "s\<lparr>kl := l, uxTopReadyPriority := r, pxCurrentTCB := c, xYieldPendings := False\<rparr>"
  have "kbase T idle ?s'"
  proof (rule kbaseI)
    fix x p assume "state_of ?s' x = Some (pxReadyTasksLists p)"
    then show "p = uxPriority ?s' x
      \<and> p \<le> uxTopReadyPriority ?s'"
      using kbase_ready [OF b, of x p] hi [of x p] by (auto simp: c(3))
  next
    show "pxCurrentTCB ?s' \<in> T"
      using kbase_state [OF b st] by simp
  next
    show "uxTopReadyPriority ?s' < configMAX_PRIORITIES"
      using r5 by simp
  next
    fix t assume "t \<in> T"
    from kbase_tasks [OF b this]
    show "t \<noteq> NULL \<and> pvOwner (kl ?s') (xStateListItem t) = t
      \<and> pvOwner (kl ?s') (xEventListItem t) = t
      \<and> stack_low ?s' t = replicate 4 0xa5a5a5a5
      \<and> uxPriority ?s' t < configMAX_PRIORITIES
      \<and> state_of ?s' t \<noteq> None"
      by (simp add: c(3,5))
  qed (use c(2) d(3,6-9) in \<open>simp_all add: c(3,5)\<close>)
  then show thesis using that [OF sw c(3,4,5)] st hi unfolding ready_def rc by blast
qed

section \<open>Making a task ready\<close>

text \<open>Taking an item out of the list it is in, and out of one if it is in any.\<close>

lemma list_remove_ok:
  assumes "lists_ok (kl s)" "pxContainer (kl s) i = Some k"
  obtains l where "list_remove i s = Some (s\<lparr>kl := l\<rparr>)" "lists_ok l" "pxContainer l = (pxContainer (kl s))(i := None)"
    "xItemValue l = xItemValue (kl s)" "pvOwner l = pvOwner (kl s)"
proof -
  obtain n l where "uxListRemove i (kl s) = Some (n, l)" "lists_ok l" "pxContainer l = (pxContainer (kl s))(i := None)"
    "xItemValue l = xItemValue (kl s)" "pvOwner l = pvOwner (kl s)" by (rule remove_ok [OF assms])
  then show thesis using that list_remove_eq by blast
qed

lemma list_remove_if_ok:
  assumes "lists_ok (kl s)"
  obtains l where "(if pxContainer (kl s) i \<noteq> None then list_remove i s else Some s) = Some (s\<lparr>kl := l\<rparr>)" "lists_ok l"
    "pxContainer l = (pxContainer (kl s))(i := None)" "xItemValue l = xItemValue (kl s)" "pvOwner l = pvOwner (kl s)"
proof (cases "pxContainer (kl s) i")
  case None
  then show thesis using that [of "kl s"] assms by (simp add: fun_upd_idem)
next
  case (Some k)
  then show thesis using list_remove_ok [OF assms Some] that by (metis option.distinct(1))
qed

lemma add_ready_eq: "prvAddTaskToReadyList t s
    = s\<lparr>kl := vListInsertEnd (pxReadyTasksLists (uxPriority s t)) (xStateListItem t) (kl s), uxTopReadyPriority := max (uxTopReadyPriority s) (uxPriority s t)\<rparr>"
  by (auto simp: prvAddTaskToReadyList_def taskRECORD_READY_PRIORITY_def Let_def max_def not_le)

lemma add_ready_ok:
  assumes b: "kbase T idle s" and t: "t \<in> T" and l: "lists_ok l"
    and c: "pxContainer l = (pxContainer (kl s))(xStateListItem t := None, xEventListItem t := None)"
    and v: "xItemValue l = xItemValue (kl s)" "pvOwner l = pvOwner (kl s)"
  obtains l' where "prvAddTaskToReadyList t (s\<lparr>kl := l\<rparr>) = s\<lparr>kl := l', uxTopReadyPriority := max (uxTopReadyPriority s) (uxPriority s t)\<rparr>"
    "pxContainer l' = (pxContainer (kl s))(xStateListItem t := Some (pxReadyTasksLists (uxPriority s t)), xEventListItem t := None)"
    "xItemValue l' = xItemValue (kl s)" "pvOwner l' = pvOwner (kl s)"
    "kbase T idle (s\<lparr>kl := l', uxTopReadyPriority := max (uxTopReadyPriority s) (uxPriority s t)\<rparr>)"
proof -
  let ?r = "pxReadyTasksLists (uxPriority s t)" and ?l = "vListInsertEnd (pxReadyTasksLists (uxPriority s t)) (xStateListItem t) l"
  note tt = kbase_tasks [OF b t]
  have ok: "lists_ok ?l" by (rule insert_end_ok [OF l]) (use tt in \<open>simp_all add: c v fits_def\<close>)
  have k: "pxContainer ?l = (pxContainer (kl s))(xStateListItem t := Some ?r, xEventListItem t := None)" by (simp add: c fun_upd_twist)
  have "kbase T idle (s\<lparr>kl := ?l, uxTopReadyPriority := max (uxTopReadyPriority s) (uxPriority s t)\<rparr>)"
    by (rule kbase_move [OF b t ok k]) (use tt kbaseD(5) [OF b] in \<open>simp_all add: v\<close>)
  then show thesis using that [of ?l] k by (simp add: add_ready_eq v)
qed

lemma unblock_ok:
  assumes b: "kbase T idle s" and t: "t \<in> T"
  obtains l where "unblock t s = Some (s\<lparr>kl := l, uxTopReadyPriority := max (uxTopReadyPriority s) (uxPriority s t)\<rparr>)"
    "pxContainer l = (pxContainer (kl s))(xStateListItem t := Some (pxReadyTasksLists (uxPriority s t)), xEventListItem t := None)"
    "xItemValue l = xItemValue (kl s)" "pvOwner l = pvOwner (kl s)"
    "kbase T idle (s\<lparr>kl := l, uxTopReadyPriority := max (uxTopReadyPriority s) (uxPriority s t)\<rparr>)"
proof -
  obtain k where k: "state_of s t = Some k" using kbase_tasks [OF b t] by auto
  obtain l1 where l1: "list_remove (xStateListItem t) s = Some (s\<lparr>kl := l1\<rparr>)" "lists_ok l1"
    "pxContainer l1 = (pxContainer (kl s))(xStateListItem t := None)" "xItemValue l1 = xItemValue (kl s)" "pvOwner l1 = pvOwner (kl s)"
    by (rule list_remove_ok [OF kbase_lists [OF b] k])
  obtain l2 where l2: "(if pxContainer l1 (xEventListItem t) \<noteq> None then list_remove (xEventListItem t) (s\<lparr>kl := l1\<rparr>) else Some (s\<lparr>kl := l1\<rparr>))
      = Some (s\<lparr>kl := l2\<rparr>)" "lists_ok l2" "pxContainer l2 = (pxContainer l1)(xEventListItem t := None)"
    "xItemValue l2 = xItemValue l1" "pvOwner l2 = pvOwner l1"
    using list_remove_if_ok [of "s\<lparr>kl := l1\<rparr>" "xEventListItem t"] l1(2) by (auto elim: that)
  have c: "pxContainer l2 = (pxContainer (kl s))(xStateListItem t := None, xEventListItem t := None)" by (simp add: l2 l1)
  obtain l where l: "prvAddTaskToReadyList t (s\<lparr>kl := l2\<rparr>) = s\<lparr>kl := l, uxTopReadyPriority := max (uxTopReadyPriority s) (uxPriority s t)\<rparr>"
    "pxContainer l = (pxContainer (kl s))(xStateListItem t := Some (pxReadyTasksLists (uxPriority s t)), xEventListItem t := None)"
    "xItemValue l = xItemValue (kl s)" "pvOwner l = pvOwner (kl s)"
    "kbase T idle (s\<lparr>kl := l, uxTopReadyPriority := max (uxTopReadyPriority s) (uxPriority s t)\<rparr>)"
    by (rule add_ready_ok [OF b t l2(2) c]) (simp_all add: l1 l2)
  show thesis by (rule that [OF _ l(2-5)]) (use l1(1) l2(1) l(1) in \<open>simp add: unblock_def\<close>)
qed

section \<open>The tick\<close>

lemma kbase_other [simp]:
  "kbase T idle (s\<lparr>xNextTaskUnblockTime := n\<rparr>) = kbase T idle s" "kbase T idle (s\<lparr>xTickCount := n\<rparr>) = kbase T idle s"
  "kbase T idle (s\<lparr>xPendedTicks := n\<rparr>) = kbase T idle s" "kbase T idle (s\<lparr>xYieldPendings := f\<rparr>) = kbase T idle s"
  "kbase T idle (s\<lparr>uxSchedulerSuspended := n\<rparr>) = kbase T idle s" "kbase T idle (s\<lparr>xNumOfOverflows := n\<rparr>) = kbase T idle s"
  "kbase T idle (s\<lparr>ucNotifyState := g\<rparr>) = kbase T idle s"
  by (simp_all add: kbase_def)

definition due :: "u32 \<Rightarrow> kernel \<Rightarrow> tcb \<Rightarrow> bool" where
  "due now s t \<longleftrightarrow> state_of s t = Some (pxDelayedTaskList s) \<and> wake s t \<le> now"

text \<open>Where the items are once the tasks of \<open>D\<close> are ready.\<close>

definition readied :: "(tcb \<Rightarrow> bool) \<Rightarrow> kernel \<Rightarrow> kitem \<Rightarrow> klist option" where
  "readied D s i = (case i of xStateListItem t \<Rightarrow> if D t then Some (pxReadyTasksLists (uxPriority s t)) else state_of s t
     | xEventListItem t \<Rightarrow> event_of s t)"

lemma readied_simps [simp]: "readied D s (xStateListItem t) = (if D t then Some (pxReadyTasksLists (uxPriority s t)) else state_of s t)"
  "readied D s (xEventListItem t) = event_of s t"
  by (simp_all add: readied_def)

lemma readied_none: "(\<And>t. \<not> D t) \<Longrightarrow> readied D s = pxContainer (kl s)"
  by (auto simp: readied_def fun_eq_iff split: kitem.split)

lemma wake_loop_ok:
  assumes "kbase T idle s"
  shows "\<exists>l m n. wake_loop sw now s = Some (sw \<or> (\<exists>t. due now s t \<and> uxPriority s t > uxPriority s (pxCurrentTCB s)),
      s\<lparr>kl := l, uxTopReadyPriority := m, xNextTaskUnblockTime := n\<rparr>)
    \<and> pxContainer l = readied (due now s) s \<and> xItemValue l = xItemValue (kl s) \<and> pvOwner l = pvOwner (kl s)
    \<and> kbase T idle (s\<lparr>kl := l, uxTopReadyPriority := m\<rparr>)
    \<and> (\<forall>t. pxContainer l (xStateListItem t) = Some (pxDelayedTaskList s) \<longrightarrow> n \<le> wake s t)"
  using assms
proof (induction "card {t. state_of s t = Some (pxDelayedTaskList s)}" arbitrary: s sw rule: less_induct)
  case less
  note b = less(2)
  let ?d = "pxDelayedTaskList s"
  have dl: "?d \<in> delayed_lists" "?d \<in> KL" using kbase_delayed [OF b] by simp_all
  show ?case
  proof (cases "listLIST_IS_EMPTY ?d (kl s)")
    case True
    then have "\<And>i. pxContainer (kl s) i \<noteq> Some ?d" using empty_iff [OF kbase_lists [OF b] dl(2)] by blast
    then have n: "\<And>t. \<not> due now s t" "\<And>i. pxContainer (kl s) i \<noteq> Some ?d" by (auto simp: due_def)
    have "wake_loop sw now s = Some (sw, s\<lparr>xNextTaskUnblockTime := portMAX_DELAY\<rparr>)" using True by (subst wake_loop.simps) simp
    moreover have "s\<lparr>kl := kl s, uxTopReadyPriority := uxTopReadyPriority s\<rparr> = s" by simp
    ultimately show ?thesis using n b
      by - (rule exI [of _ "kl s"], rule exI [of _ "uxTopReadyPriority s"], rule exI [of _ portMAX_DELAY], simp add: readied_none)
  next
    case False
    then obtain i where "pxContainer (kl s) i = Some ?d" using empty_iff [OF kbase_lists [OF b] dl(2)] by blast
    then obtain x where x: "listGET_OWNER_OF_HEAD_ENTRY ?d (kl s) = Some (task_of x)" "pxContainer (kl s) x = Some ?d"
      "\<forall>k. pxContainer (kl s) k = Some ?d \<longrightarrow> item_value (kl s) x \<le> item_value (kl s) k"
      using head_ok [OF kbase_lists [OF b] dl(2)] dl(1) by metis
    define t where "t = task_of x"
    have xt: "x = xStateListItem t" using kbase_state_item [OF b x(2)] dl(1) by (auto simp: t_def delayed_lists_def)
    have hd: "listGET_OWNER_OF_HEAD_ENTRY ?d (kl s) = Some t" using x(1) by (simp only: t_def)
    have st: "state_of s t = Some ?d" and min: "\<And>u. state_of s u = Some ?d \<Longrightarrow> wake s t \<le> wake s u" using x(2,3) xt by auto
    show ?thesis
    proof (cases "now < wake s t")
      case True
      have "wake_loop sw now s = Some (sw, s\<lparr>xNextTaskUnblockTime := wake s t\<rparr>)"
        using False hd True by (subst wake_loop.simps) simp
      moreover have "\<not> due now s u" for u using True min [of u] by (auto simp: due_def)
      ultimately show ?thesis using b min
        by - (rule exI [of _ "kl s"], rule exI [of _ "uxTopReadyPriority s"], rule exI [of _ "wake s t"], simp add: readied_none)
    next
      case now: False
      have tT: "t \<in> T" by (rule kbase_state [OF b st])
      have ev: "event_of s t = None" using kbase_event [OF b, of t] st dl(1) by (cases "event_of s t") (auto simp: delayed_lists_def)
      obtain l where l: "unblock t s = Some (s\<lparr>kl := l, uxTopReadyPriority := max (uxTopReadyPriority s) (uxPriority s t)\<rparr>)"
        "pxContainer l = (pxContainer (kl s))(xStateListItem t := Some (pxReadyTasksLists (uxPriority s t)), xEventListItem t := None)"
        "xItemValue l = xItemValue (kl s)" "pvOwner l = pvOwner (kl s)"
        "kbase T idle (s\<lparr>kl := l, uxTopReadyPriority := max (uxTopReadyPriority s) (uxPriority s t)\<rparr>)"
        by (rule unblock_ok [OF b tT])
      let ?s = "s\<lparr>kl := l, uxTopReadyPriority := max (uxTopReadyPriority s) (uxPriority s t)\<rparr>"
      have st': "state_of ?s u = (if u = t then Some (pxReadyTasksLists (uxPriority s t)) else state_of s u)" for u by (simp add: l(2))
      have nd: "pxReadyTasksLists p \<noteq> ?d" for p using dl(1) by (auto simp: delayed_lists_def)
      have "{u. state_of ?s u = Some (pxDelayedTaskList ?s)} \<subset> {u. state_of s u = Some ?d}" using st nd unfolding st' by (auto split: if_splits)
      then have "card {u. state_of ?s u = Some (pxDelayedTaskList ?s)} < card {u. state_of s u = Some ?d}" by (intro psubset_card_mono) simp_all
      from less(1) [OF this l(5), of "sw \<or> uxPriority s t > uxPriority s (pxCurrentTCB s)"] obtain l' m n where
        r: "wake_loop (sw \<or> uxPriority s t > uxPriority s (pxCurrentTCB s)) now ?s
            = Some ((sw \<or> uxPriority s t > uxPriority s (pxCurrentTCB s)) \<or> (\<exists>t. due now ?s t \<and> uxPriority ?s t > uxPriority ?s (pxCurrentTCB ?s)),
              ?s\<lparr>kl := l', uxTopReadyPriority := m, xNextTaskUnblockTime := n\<rparr>)"
        "pxContainer l' = readied (due now ?s) ?s" "xItemValue l' = xItemValue (kl ?s)" "pvOwner l' = pvOwner (kl ?s)"
        "kbase T idle (?s\<lparr>kl := l', uxTopReadyPriority := m\<rparr>)"
        "\<forall>t. pxContainer l' (xStateListItem t) = Some (pxDelayedTaskList ?s) \<longrightarrow> n \<le> wake ?s t" by blast
      have du: "due now ?s u \<longleftrightarrow> due now s u \<and> u \<noteq> t" for u using nd unfolding due_def st' by (auto simp: l(3))
      have dt: "due now s t" using st now by (simp add: due_def not_less)
      have "wake_loop sw now s = wake_loop (sw \<or> uxPriority s t > uxPriority s (pxCurrentTCB s)) now ?s"
        using False hd now l(1) current_priority_eq [OF l(5)] by (subst wake_loop.simps) simp
      moreover have "((sw \<or> uxPriority s t > uxPriority s (pxCurrentTCB s)) \<or> (\<exists>u. due now ?s u \<and> uxPriority ?s u > uxPriority ?s (pxCurrentTCB ?s)))
          = (sw \<or> (\<exists>u. due now s u \<and> uxPriority s u > uxPriority s (pxCurrentTCB s)))"
        using dt unfolding du by auto
      moreover have "readied (due now ?s) ?s = readied (due now s) s"
        using dt ev by (auto simp: readied_def du fun_eq_iff l(2) split: kitem.split)
      ultimately show ?thesis using r
        by - (rule exI [of _ l'], rule exI [of _ m], rule exI [of _ n], simp add: l(3,4))
    qed
  qed
qed

text \<open>What a tick leaves alone.\<close>

definition same_tasks :: "kernel \<Rightarrow> kernel \<Rightarrow> bool" where
  "same_tasks s s' \<longleftrightarrow> uxPriority s' = uxPriority s \<and> ucNotifyState s' = ucNotifyState s \<and> xSchedulerRunning s' = xSchedulerRunning s
     \<and> uxCurrentNumberOfTasks s' = uxCurrentNumberOfTasks s"

lemma wake_phase:
  assumes b: "kbase T idle s" and n: "\<And>t. state_of s t = Some (pxDelayedTaskList s) \<Longrightarrow> xNextTaskUnblockTime s \<le> wake s t"
  shows "\<exists>l m n. (if now \<ge> xNextTaskUnblockTime s then wake_loop False now s else Some (False, s))
      = Some (\<exists>t. due now s t \<and> uxPriority s t > uxPriority s (pxCurrentTCB s), s\<lparr>kl := l, uxTopReadyPriority := m, xNextTaskUnblockTime := n\<rparr>)
    \<and> pxContainer l = readied (due now s) s \<and> xItemValue l = xItemValue (kl s) \<and> pvOwner l = pvOwner (kl s)
    \<and> kbase T idle (s\<lparr>kl := l, uxTopReadyPriority := m\<rparr>)
    \<and> (\<forall>t. pxContainer l (xStateListItem t) = Some (pxDelayedTaskList s) \<longrightarrow> n \<le> wake s t)"
proof (cases "now \<ge> xNextTaskUnblockTime s")
  case True
  then show ?thesis using wake_loop_ok [OF b, of False now] by simp
next
  case False
  then have none: "\<not> due now s t" for t using n [of t] by (auto simp: due_def)
  then show ?thesis using False b n
    by - (rule exI [of _ "kl s"], rule exI [of _ "uxTopReadyPriority s"], rule exI [of _ "xNextTaskUnblockTime s"], simp add: readied_none)
qed

lemma longer_ready:
  assumes "kbase T idle s" "p < configMAX_PRIORITIES"
  shows "listCURRENT_LIST_LENGTH (pxReadyTasksLists p) (kl s) > 1
    \<longleftrightarrow> (\<exists>t u. t \<noteq> u \<and> state_of s t = Some (pxReadyTasksLists p) \<and> state_of s u = Some (pxReadyTasksLists p))"
proof -
  have "(\<exists>i k. i \<noteq> k \<and> pxContainer (kl s) i = Some (pxReadyTasksLists p) \<and> pxContainer (kl s) k = Some (pxReadyTasksLists p))
      \<longleftrightarrow> (\<exists>t u. t \<noteq> u \<and> state_of s t = Some (pxReadyTasksLists p) \<and> state_of s u = Some (pxReadyTasksLists p))" (is "?l = ?r")
  proof
    assume ?l
    then obtain i k where ik: "i \<noteq> k" "pxContainer (kl s) i = Some (pxReadyTasksLists p)" "pxContainer (kl s) k = Some (pxReadyTasksLists p)" by blast
    have "i = xStateListItem (task_of i)" "k = xStateListItem (task_of k)"
      using kbase_state_item [OF assms(1) ik(2)] kbase_state_item [OF assms(1) ik(3)] by simp_all
    then show ?r using ik by metis
  next
    assume ?r
    then show ?l by (metis kitem.inject(1))
  qed
  then show ?thesis using longer_than_1 [OF kbase_lists [OF assms(1)], of "pxReadyTasksLists p"] assms(2) by simp
qed

definition wakes :: "kernel \<Rightarrow> tcb \<Rightarrow> bool" where
  "wakes s t \<longleftrightarrow> delayed s t \<and> wake s t = xTickCount s + 1"

lemma word_succ_le: "(x :: u32) < y \<Longrightarrow> x + 1 \<le> y \<and> x + 1 \<noteq> 0"
proof -
  assume l: "x < y"
  have "unat x + 1 < 2 ^ 32 \<or> unat x + 1 = 2 ^ 32" using u32_bound [of x] by linarith
  moreover have "unat x + 1 \<noteq> 2 ^ 32" using l u32_bound [of y] by (simp add: word_less_nat_alt)
  ultimately have "unat (x + 1) = unat x + 1" by (simp add: unat_word_ariths)
  then show ?thesis using l by (simp add: word_le_nat_alt word_less_nat_alt word_unat_eq_iff)
qed

lemma word_succ_less: "(x :: u32) + 1 \<noteq> 0 \<Longrightarrow> x < x + 1"
proof -
  assume n: "x + 1 \<noteq> 0"
  have "unat x + 1 < 2 ^ 32 \<or> unat x + 1 = 2 ^ 32" using u32_bound [of x] by linarith
  then show ?thesis
  proof
    assume "unat x + 1 = 2 ^ 32"
    then have "unat (x + 1) = 0" by (simp add: unat_word_ariths)
    then show ?thesis using n by (simp add: unat_eq_0)
  qed (simp add: unat_word_ariths word_less_nat_alt)
qed

lemma tick_ok:
  assumes b: "kbase T idle s" and tm: "timely s" and u: "uxSchedulerSuspended s = 0"
  shows "\<exists>sw s'. xTaskIncrementTick s = Some (sw, s') \<and> pxContainer (kl s') = readied (wakes s) s \<and> xItemValue (kl s') = xItemValue (kl s)
    \<and> sw = ((\<exists>t. wakes s t \<and> uxPriority s t > uxPriority s (pxCurrentTCB s))
        \<or> (\<exists>t v. t \<noteq> v \<and> state_of s' t = Some (pxReadyTasksLists (uxPriority s (pxCurrentTCB s))) \<and> state_of s' v = Some (pxReadyTasksLists (uxPriority s (pxCurrentTCB s))))
        \<or> xYieldPendings s)
    \<and> same_tasks s s' \<and> pxCurrentTCB s' = pxCurrentTCB s \<and> xYieldPendings s' = xYieldPendings s \<and> uxSchedulerSuspended s' = 0
    \<and> xPendedTicks s' = xPendedTicks s \<and> xTickCount s' = xTickCount s + 1 \<and> (\<forall>t. delayed s' t \<longleftrightarrow> delayed s t \<and> \<not> wakes s t)
    \<and> kbase T idle s' \<and> timely s'"
proof -
  let ?now = "xTickCount s + 1"
  have dl: "pxDelayedTaskList s \<in> delayed_lists" "pxOverflowDelayedTaskList s \<in> delayed_lists" "pxDelayedTaskList s \<noteq> pxOverflowDelayedTaskList s"
    using kbase_delayed [OF b] by simp_all
  obtain s1 where s1: "(if ?now = 0 then taskSWITCH_DELAYED_LISTS (s\<lparr>xTickCount := ?now\<rparr>) else Some (s\<lparr>xTickCount := ?now\<rparr>)) = Some s1"
    "kl s1 = kl s" "same_tasks s s1" "pxCurrentTCB s1 = pxCurrentTCB s" "xYieldPendings s1 = xYieldPendings s" "uxSchedulerSuspended s1 = 0"
    "xPendedTicks s1 = xPendedTicks s" "xTickCount s1 = ?now" "kbase T idle s1"
    "\<And>t. delayed s1 t \<longleftrightarrow> delayed s t" "\<And>t. due ?now s1 t \<longleftrightarrow> wakes s t"
    "\<And>t. state_of s t = Some (pxDelayedTaskList s1) \<Longrightarrow> ?now \<le> wake s t \<and> xNextTaskUnblockTime s1 \<le> wake s t"
    "\<And>t. state_of s t = Some (pxOverflowDelayedTaskList s1) \<Longrightarrow> wake s t < ?now"
  proof (cases "?now = 0")
    case False
    have ov: "state_of s t = Some (pxOverflowDelayedTaskList s) \<Longrightarrow> wake s t < ?now" for t
      using tm word_succ_less [OF False] by (fastforce simp: timely_def dest: less_trans)
    have dt: "state_of s t = Some (pxDelayedTaskList s) \<Longrightarrow> ?now \<le> wake s t \<and> xNextTaskUnblockTime s \<le> wake s t" for t
      using tm word_succ_le by (auto simp: timely_def)
    have "due ?now (s\<lparr>xTickCount := ?now\<rparr>) t \<longleftrightarrow> wakes s t" for t
      using ov [of t] dt [of t] dl(3) by (auto simp: due_def wakes_def delayed_def)
    then show thesis
      by (intro that [of "s\<lparr>xTickCount := ?now\<rparr>"]) (use False b u ov dt in \<open>simp_all add: same_tasks_def delayed_def\<close>)
  next
    case True
    have mx: "\<not> xTickCount s < y" for y using word_succ_le [of "xTickCount s" y] True by blast
    then have none: "state_of s t \<noteq> Some (pxDelayedTaskList s)" for t using tm by (auto simp: timely_def)
    then have nc: "pxContainer (kl s) i \<noteq> Some (pxDelayedTaskList s)" for i
      using kbase_state_item [OF b, of i "pxDelayedTaskList s"] dl(1) by (metis not_delayed(3))
    then have e: "listLIST_IS_EMPTY (pxDelayedTaskList s) (kl s)" using empty_iff [OF kbase_lists [OF b]] dl(1) by simp
    let ?s = "s\<lparr>xTickCount := ?now, pxDelayedTaskList := pxOverflowDelayedTaskList s, pxOverflowDelayedTaskList := pxDelayedTaskList s,
      xNumOfOverflows := xNumOfOverflows s + 1\<rparr>"
    let ?n = "if listLIST_IS_EMPTY (pxOverflowDelayedTaskList s) (kl s) then portMAX_DELAY
      else listGET_ITEM_VALUE_OF_HEAD_ENTRY (pxOverflowDelayedTaskList s) (kl s)"
    have "kbase T idle ?s"
    proof (rule kbaseI)
      show "state_of ?s t = Some (pxReadyTasksLists p) \<Longrightarrow> p = uxPriority ?s t \<and> p \<le> uxTopReadyPriority ?s" for t p
        using kbase_ready [OF b, of t p] by auto
      show "(pxDelayedTaskList ?s, pxOverflowDelayedTaskList ?s) \<in> {(xDelayedTaskList1, xDelayedTaskList2), (xDelayedTaskList2, xDelayedTaskList1)}"
        using kbaseD(7) [OF b] by auto
      show "t \<in> T \<Longrightarrow> t \<noteq> NULL \<and> pvOwner (kl ?s) (xStateListItem t) = t \<and> pvOwner (kl ?s) (xEventListItem t) = t
          \<and> stack_low ?s t = replicate 4 0xa5a5a5a5 \<and> uxPriority ?s t < configMAX_PRIORITIES \<and> state_of ?s t \<noteq> None" for t
        using kbase_tasks [OF b, of t] by simp
    qed (use kbaseD(1,3,5,6,8-10) [OF b] in simp_all)
    moreover have "?n \<le> wake s t" if ot: "state_of s t = Some (pxOverflowDelayedTaskList s)" for t
    proof -
      obtain x where x: "pxNext (kl s) (Marker (pxOverflowDelayedTaskList s)) = Item x" "\<forall>k. pxContainer (kl s) k = Some (pxOverflowDelayedTaskList s) \<longrightarrow> item_value (kl s) x \<le> item_value (kl s) k"
        using head_ok [OF kbase_lists [OF b] _ ot] dl(2) by (metis delayed_KL)
      have "\<not> listLIST_IS_EMPTY (pxOverflowDelayedTaskList s) (kl s)" using empty_iff [OF kbase_lists [OF b]] ot dl(2) by auto
      then show ?thesis using x ot by (simp add: listGET_ITEM_VALUE_OF_HEAD_ENTRY_def)
    qed
    ultimately show thesis
      by (intro that [of "?s\<lparr>xNextTaskUnblockTime := ?n\<rparr>"])
        (use True b u e none in \<open>auto simp: taskSWITCH_DELAYED_LISTS_def prvResetNextTaskUnblockTime_def same_tasks_def delayed_def due_def wakes_def\<close>)
  qed
  obtain l m n where w: "(if ?now \<ge> xNextTaskUnblockTime s1 then wake_loop False ?now s1 else Some (False, s1))
      = Some (\<exists>t. due ?now s1 t \<and> uxPriority s1 t > uxPriority s1 (pxCurrentTCB s1), s1\<lparr>kl := l, uxTopReadyPriority := m, xNextTaskUnblockTime := n\<rparr>)"
    "pxContainer l = readied (due ?now s1) s1" "xItemValue l = xItemValue (kl s1)" "pvOwner l = pvOwner (kl s1)"
    "kbase T idle (s1\<lparr>kl := l, uxTopReadyPriority := m\<rparr>)"
    "\<And>t. pxContainer l (xStateListItem t) = Some (pxDelayedTaskList s1) \<Longrightarrow> n \<le> wake s1 t"
    using wake_phase [OF s1(9), of ?now] s1(2,12) by auto
  let ?s' = "s1\<lparr>kl := l, uxTopReadyPriority := m, xNextTaskUnblockTime := n\<rparr>"
  let ?p = "uxPriority s (pxCurrentTCB s)"
  have b': "kbase T idle ?s'" using w(5) by simp
  have pr: "uxPriority s1 = uxPriority s" using s1(3) by (simp add: same_tasks_def)
  have du: "due ?now s1 = wakes s" using s1(11) by blast
  have c: "pxContainer l = readied (wakes s) s" unfolding w(2) du by (auto simp: readied_def s1(2) pr fun_eq_iff split: kitem.split)
  have p5: "?p < configMAX_PRIORITIES" using kbase_tasks [OF b kbase_current [OF b]] by simp
  have run: "xTaskIncrementTick s = Some ((\<exists>t. wakes s t \<and> uxPriority s t > ?p)
      \<or> listCURRENT_LIST_LENGTH (pxReadyTasksLists ?p) l > 1 \<or> xYieldPendings s, ?s')"
    using s1(1) w(1) u current_priority_eq [OF b'] s1(4,5) pr du by (simp add: xTaskIncrementTick_def disj_assoc)
  have nd: "pxReadyTasksLists p \<noteq> pxDelayedTaskList s1" "pxReadyTasksLists p \<noteq> pxOverflowDelayedTaskList s1" for p
    using kbase_delayed [OF s1(9)] by (auto simp: delayed_lists_def)
  have de: "delayed ?s' t \<longleftrightarrow> delayed s t \<and> \<not> wakes s t" for t
    using nd s1(10) [of t] by (auto simp: delayed_def c s1(2))
  have "timely ?s'"
    unfolding timely_def
  proof (intro conjI allI impI)
    fix t assume "state_of ?s' t = Some (pxDelayedTaskList ?s')"
    then have t: "state_of s t = Some (pxDelayedTaskList s1)" "\<not> wakes s t" "n \<le> wake s1 t" using nd w(6) by (auto simp: c split: if_splits)
    have "wake s t \<noteq> ?now" using t(1,2) s1(10) [of t] by (auto simp: wakes_def delayed_def s1(2))
    then show "xTickCount ?s' < wake ?s' t" using s1(12) [OF t(1)] s1(2,8) w(3) by (simp add: order_less_le)
    show "xNextTaskUnblockTime ?s' \<le> wake ?s' t" using t(3) w(3) by simp
  next
    fix t assume "state_of ?s' t = Some (pxOverflowDelayedTaskList ?s')"
    then have t: "state_of s t = Some (pxOverflowDelayedTaskList s1)" using nd by (auto simp: c split: if_splits)
    then show "wake ?s' t < xTickCount ?s'" using s1(13) [OF t] s1(2,8) w(3) by simp
  qed
  then show ?thesis using run c w(3) s1 de b' longer_ready [OF b' p5] by (intro exI [of _ ?s'] exI) (simp add: same_tasks_def)
qed

section \<open>What every operation keeps\<close>

text \<open>Between \<open>s\<close> and \<open>s'\<close> the kernel counted \<open>n\<close> ticks: outside \<open>X\<close>, a delayed task whose time is not
  reached is still delayed until the same time, one whose time is reached is ready, and a ready
  task stays ready.\<close>

definition elapsed :: "nat \<Rightarrow> tcb set \<Rightarrow> kernel \<Rightarrow> kernel \<Rightarrow> bool" where
  "elapsed n X s s' \<longleftrightarrow> xTickCount s' = xTickCount s + of_nat n
     \<and> (\<forall>t. t \<notin> X \<longrightarrow> delayed s t \<longrightarrow> (if n < unat (wake s t - xTickCount s) then delayed s' t \<and> wake s' t = wake s t else ready s' t))
     \<and> (\<forall>t. t \<notin> X \<longrightarrow> ready s t \<longrightarrow> ready s' t)"

lemma elapsed_trans:
  assumes "elapsed n X s s'" "elapsed m X s' s''"
  shows "elapsed (n + m) X s s''"
proof -
  have c: "xTickCount s' = xTickCount s + of_nat n" "xTickCount s'' = xTickCount s' + of_nat m" using assms by (simp_all add: elapsed_def)
  have "if n + m < unat (wake s t - xTickCount s) then delayed s'' t \<and> wake s'' t = wake s t else ready s'' t"
    if t: "t \<notin> X" "delayed s t" for t
  proof (cases "n < unat (wake s t - xTickCount s)")
    case True
    then have d: "delayed s' t" "wake s' t = wake s t" using assms(1) t by (auto simp: elapsed_def)
    have lt: "of_nat n \<le> wake s t - xTickCount s" "unat (of_nat n :: u32) = n"
      using True u32_bound [of "wake s t - xTickCount s"] by (simp_all add: word_le_nat_alt unat_of_nat take_bit_nat_eq_self)
    have "wake s' t - xTickCount s' = (wake s t - xTickCount s) - of_nat n" by (simp add: c d)
    then have "unat (wake s' t - xTickCount s') = unat (wake s t - xTickCount s) - n" using lt by (simp add: unat_sub)
    then have "n + m < unat (wake s t - xTickCount s) \<longleftrightarrow> m < unat (wake s' t - xTickCount s')" using True by linarith
    then show ?thesis using assms(2) t(1) d by (simp add: elapsed_def)
  next
    case False
    then have "ready s' t" using assms(1) t by (auto simp: elapsed_def)
    then show ?thesis using False assms(2) t(1) by (auto simp: elapsed_def)
  qed
  then show ?thesis using assms c by (auto simp: elapsed_def)
qed

lemma elapsed_mono: "elapsed n X s s' \<Longrightarrow> X \<subseteq> Y \<Longrightarrow> elapsed n Y s s'"
  by (auto simp: elapsed_def)

lemma timely_pos: "timely s \<Longrightarrow> delayed s t \<Longrightarrow> 0 < unat (wake s t - xTickCount s)"
  by (auto simp: timely_def delayed_def unat_gt_0)

text \<open>Nothing that counts moves.\<close>

lemma elapsed_none:
  assumes "timely s" "xTickCount s' = xTickCount s" "\<And>t. t \<notin> X \<Longrightarrow> delayed s t \<Longrightarrow> delayed s' t \<and> wake s' t = wake s t"
    "\<And>t. t \<notin> X \<Longrightarrow> ready s t \<Longrightarrow> ready s' t"
  shows "elapsed 0 X s s'"
  using assms timely_pos [OF assms(1)] by (auto simp: elapsed_def)

definition ksafe :: "tcb set \<Rightarrow> tcb \<Rightarrow> kernel \<Rightarrow> bool" where
  "ksafe T idle s \<longleftrightarrow> kbase T idle s \<and> timely s \<and> (runs_highest s \<or> xYieldPendings s) \<and> xSchedulerRunning s \<and> uxCurrentNumberOfTasks s \<noteq> 0"

lemma ksafeD: "ksafe T idle s \<Longrightarrow> kbase T idle s" "ksafe T idle s \<Longrightarrow> timely s" "ksafe T idle s \<Longrightarrow> runs_highest s \<or> xYieldPendings s"
  "ksafe T idle s \<Longrightarrow> xSchedulerRunning s" "ksafe T idle s \<Longrightarrow> uxCurrentNumberOfTasks s \<noteq> 0"
  by (simp_all add: ksafe_def)

lemma switch_safe:
  assumes b: "kbase T idle s" and t: "timely s" and r: "xSchedulerRunning s" "uxCurrentNumberOfTasks s \<noteq> 0" and u: "uxSchedulerSuspended s = 0"
  shows "\<exists>s'. vTaskSwitchContext s = Some s' \<and> ksafe T idle s' \<and> elapsed 0 X s s' \<and> ready s' (pxCurrentTCB s') \<and> runs_highest s'
    \<and> \<not> xYieldPendings s' \<and> uxSchedulerSuspended s' = 0 \<and> xPendedTicks s' = xPendedTicks s"
proof -
  obtain l c m where w: "vTaskSwitchContext s = Some (s\<lparr>kl := l, uxTopReadyPriority := m, pxCurrentTCB := c, xYieldPendings := False\<rparr>)"
    "pxContainer l = pxContainer (kl s)" "xItemValue l = xItemValue (kl s)" "pvOwner l = pvOwner (kl s)" "ready s c"
    "\<And>t. ready s t \<Longrightarrow> uxPriority s t \<le> uxPriority s c"
    "kbase T idle (s\<lparr>kl := l, uxTopReadyPriority := m, pxCurrentTCB := c, xYieldPendings := False\<rparr>)"
    by (rule switch_ok [OF b u]) (rule that)
  let ?s = "s\<lparr>kl := l, uxTopReadyPriority := m, pxCurrentTCB := c, xYieldPendings := False\<rparr>"
  have rd: "ready ?s = ready s" by (simp add: ready_def w(2) fun_eq_iff)
  have "timely ?s" using t by (simp add: timely_def w(2,3))
  moreover have "elapsed 0 X s ?s" by (rule elapsed_none [OF t]) (simp_all add: delayed_def rd w(2,3))
  moreover have "runs_highest ?s" using w(6) by (simp add: runs_highest_def rd)
  ultimately show ?thesis using w(1,5,7) r u rd by (simp add: ksafe_def)
qed

text \<open>The switch, or the note that one is due when the scheduler is suspended.\<close>

lemma yield_safe:
  assumes b: "kbase T idle s" and t: "timely s" and r: "xSchedulerRunning s" "uxCurrentNumberOfTasks s \<noteq> 0"
  shows "\<exists>s'. portYIELD s = Some s' \<and> ksafe T idle s' \<and> elapsed 0 X s s' \<and> uxSchedulerSuspended s' = uxSchedulerSuspended s
    \<and> xPendedTicks s' = xPendedTicks s \<and> (if uxSchedulerSuspended s = 0 then ready s' (pxCurrentTCB s') \<and> runs_highest s' else pxCurrentTCB s' = pxCurrentTCB s)"
proof (cases "uxSchedulerSuspended s = 0")
  case True
  then show ?thesis using switch_safe [OF assms True] by (fastforce simp: portYIELD_def)
next
  case False
  let ?s = "s\<lparr>xYieldPendings := True\<rparr>"
  have "timely ?s" using t by (simp add: timely_def)
  moreover have "elapsed 0 X s ?s" by (rule elapsed_none [OF t]) (simp_all add: delayed_def ready_def)
  ultimately show ?thesis using False b r by (simp add: portYIELD_def vTaskSwitchContext_def ksafe_def)
qed

lemma tick_safe:
  assumes k: "ksafe T idle s" and u: "uxSchedulerSuspended s = 0"
  shows "\<exists>sw s'. xTaskIncrementTick s = Some (sw, s') \<and> kbase T idle s' \<and> timely s' \<and> (runs_highest s' \<or> xYieldPendings s' \<or> sw)
    \<and> xSchedulerRunning s' \<and> uxCurrentNumberOfTasks s' \<noteq> 0 \<and> elapsed 1 X s s' \<and> uxSchedulerSuspended s' = 0 \<and> xPendedTicks s' = xPendedTicks s
    \<and> pxCurrentTCB s' = pxCurrentTCB s"
proof -
  note b = ksafeD(1) [OF k] and t = ksafeD(2) [OF k]
  obtain sw s' where s': "xTaskIncrementTick s = Some (sw, s')" "pxContainer (kl s') = readied (wakes s) s" "xItemValue (kl s') = xItemValue (kl s)"
    "sw = ((\<exists>t. wakes s t \<and> uxPriority s t > uxPriority s (pxCurrentTCB s))
        \<or> (\<exists>t v. t \<noteq> v \<and> state_of s' t = Some (pxReadyTasksLists (uxPriority s (pxCurrentTCB s))) \<and> state_of s' v = Some (pxReadyTasksLists (uxPriority s (pxCurrentTCB s))))
        \<or> xYieldPendings s)"
    "same_tasks s s'" "pxCurrentTCB s' = pxCurrentTCB s" "xYieldPendings s' = xYieldPendings s" "uxSchedulerSuspended s' = 0"
    "xPendedTicks s' = xPendedTicks s" "xTickCount s' = xTickCount s + 1" "\<And>t. delayed s' t \<longleftrightarrow> delayed s t \<and> \<not> wakes s t"
    "kbase T idle s'" "timely s'"
    using tick_ok [OF b t u] by blast
  have pr: "uxPriority s' = uxPriority s" using s'(5) by (simp add: same_tasks_def)
  have rd: "ready s' t \<longleftrightarrow> ready s t \<or> wakes s t" for t by (auto simp: ready_def s'(2) pr)
  have "runs_highest s' \<or> xYieldPendings s' \<or> sw" using ksafeD(3) [OF k] unfolding s'(4,7) runs_highest_def rd pr s'(6) by (auto simp: not_less)
  moreover have "elapsed 1 X s s'"
  proof -
    have "1 < unat (wake s t - xTickCount s) \<longleftrightarrow> \<not> wakes s t" if "delayed s t" for t
    proof -
      have "wakes s t \<longleftrightarrow> wake s t - xTickCount s = 1" using that by (auto simp: wakes_def algebra_simps)
      also have "\<dots> \<longleftrightarrow> unat (wake s t - xTickCount s) = 1" by (simp add: word_unat_eq_iff)
      finally show ?thesis using timely_pos [OF t that] by linarith
    qed
    then show ?thesis using s'(3,10,11) rd by (auto simp: elapsed_def)
  qed
  ultimately show ?thesis using s' ksafeD(4,5) [OF k] by (auto simp: same_tasks_def)
qed

section \<open>Interrupts\<close>

lemma timely_more [simp]:
  "timely (s\<lparr>xPendedTicks := n\<rparr>) = timely s" "timely (s\<lparr>xYieldPendings := f\<rparr>) = timely s" "timely (s\<lparr>uxSchedulerSuspended := n\<rparr>) = timely s"
  "timely (s\<lparr>uxTopReadyPriority := n\<rparr>) = timely s" "timely (s\<lparr>ucNotifyState := g\<rparr>) = timely s"
  by (simp_all add: timely_def)

lemma elapsed_more [simp]:
  "elapsed n X s (s'\<lparr>xPendedTicks := m\<rparr>) = elapsed n X s s'" "elapsed n X s (s'\<lparr>xYieldPendings := f\<rparr>) = elapsed n X s s'"
  "elapsed n X s (s'\<lparr>uxSchedulerSuspended := m\<rparr>) = elapsed n X s s'" "elapsed n X s (s'\<lparr>xNextTaskUnblockTime := m\<rparr>) = elapsed n X s s'"
  "elapsed n X (s\<lparr>xPendedTicks := m\<rparr>) s' = elapsed n X s s'" "elapsed n X (s\<lparr>xYieldPendings := f\<rparr>) s' = elapsed n X s s'"
  "elapsed n X (s\<lparr>uxSchedulerSuspended := m\<rparr>) s' = elapsed n X s s'"
  by (simp_all add: elapsed_def delayed_def ready_def)

lemma runs_highest_more [simp]:
  "runs_highest (s\<lparr>xPendedTicks := n\<rparr>) = runs_highest s" "runs_highest (s\<lparr>xYieldPendings := f\<rparr>) = runs_highest s"
  "runs_highest (s\<lparr>uxSchedulerSuspended := n\<rparr>) = runs_highest s" "runs_highest (s\<lparr>xNextTaskUnblockTime := n\<rparr>) = runs_highest s"
  by (simp_all add: runs_highest_def ready_def)

lemma ready_more [simp]:
  "ready (s\<lparr>xPendedTicks := n\<rparr>) = ready s" "ready (s\<lparr>xYieldPendings := f\<rparr>) = ready s"
  "ready (s\<lparr>uxSchedulerSuspended := n\<rparr>) = ready s" "ready (s\<lparr>xNextTaskUnblockTime := n\<rparr>) = ready s"
  by (simp_all add: ready_def fun_eq_iff)

lemma elapsed_refl: "timely s \<Longrightarrow> elapsed 0 X s s" by (rule elapsed_none) simp_all

text \<open>A suspended task becomes ready.\<close>

lemma readied_safe:
  assumes b: "kbase T idle s" and t: "timely s" and st: "state_of s t = Some xSuspendedTaskList"
    and l: "pxContainer l = (pxContainer (kl s))(xStateListItem t := Some (pxReadyTasksLists (uxPriority s t)), xEventListItem t := None)"
      "xItemValue l = xItemValue (kl s)"
  shows "timely (s\<lparr>kl := l, uxTopReadyPriority := m\<rparr>)" "elapsed 0 X s (s\<lparr>kl := l, uxTopReadyPriority := m\<rparr>)"
    "ready (s\<lparr>kl := l, uxTopReadyPriority := m\<rparr>) u \<longleftrightarrow> ready s u \<or> u = t"
proof -
  have dl: "pxDelayedTaskList s \<in> delayed_lists" "pxOverflowDelayedTaskList s \<in> delayed_lists" using kbase_delayed [OF b] by simp_all
  have nd: "pxReadyTasksLists p \<noteq> pxDelayedTaskList s" "pxReadyTasksLists p \<noteq> pxOverflowDelayedTaskList s"
    "xSuspendedTaskList \<noteq> pxDelayedTaskList s" "xSuspendedTaskList \<noteq> pxOverflowDelayedTaskList s" for p
    using dl by (auto simp: delayed_lists_def)
  let ?s = "s\<lparr>kl := l, uxTopReadyPriority := m\<rparr>"
  have so: "state_of ?s v = (if v = t then Some (pxReadyTasksLists (uxPriority s t)) else state_of s v)" for v by (simp add: l(1))
  show rd: "ready ?s u \<longleftrightarrow> ready s u \<or> u = t" for u unfolding ready_def so by auto
  show "timely ?s" using t nd unfolding timely_def so by (auto simp: l(2) split: if_splits)
  show "elapsed 0 X s ?s"
  proof (rule elapsed_none [OF t])
    fix v assume "delayed s v"
    then show "delayed ?s v \<and> wake ?s v = wake s v" using st nd unfolding delayed_def so by (auto simp: l(2))
  qed (use rd in simp_all)
qed

lemma tick_interrupt_safe:
  assumes k: "ksafe T idle s" and u: "uxSchedulerSuspended s = 0"
  shows "\<exists>s'. tick_interrupt s = Some s' \<and> ksafe T idle s' \<and> elapsed 1 {} s s' \<and> uxSchedulerSuspended s' = 0 \<and> xPendedTicks s' = xPendedTicks s
    \<and> (ready s (pxCurrentTCB s) \<longrightarrow> ready s' (pxCurrentTCB s'))"
proof -
  obtain sw s1 where s1: "xTaskIncrementTick s = Some (sw, s1)" "kbase T idle s1" "timely s1" "runs_highest s1 \<or> xYieldPendings s1 \<or> sw"
    "xSchedulerRunning s1" "uxCurrentNumberOfTasks s1 \<noteq> 0" "elapsed 1 {} s s1" "uxSchedulerSuspended s1 = 0" "xPendedTicks s1 = xPendedTicks s"
    "pxCurrentTCB s1 = pxCurrentTCB s"
    using tick_safe [OF assms] by blast
  show ?thesis
  proof (cases sw)
    case True
    obtain s2 where s2: "vTaskSwitchContext s1 = Some s2" "ksafe T idle s2" "elapsed 0 {} s1 s2" "ready s2 (pxCurrentTCB s2)"
      "uxSchedulerSuspended s2 = 0" "xPendedTicks s2 = xPendedTicks s1"
      using switch_safe [OF s1(2,3,5,6,8)] by blast
    have "elapsed 1 {} s s2" using elapsed_trans [OF s1(7) s2(3)] by simp
    then show ?thesis using s1(1,9) s2 True by (simp add: tick_interrupt_def)
  next
    case False
    then have "ksafe T idle s1" using s1 by (simp add: ksafe_def)
    moreover have "ready s (pxCurrentTCB s) \<longrightarrow> ready s1 (pxCurrentTCB s1)" using s1(7,10) by (simp add: elapsed_def)
    ultimately show ?thesis using False s1 by (simp add: tick_interrupt_def)
  qed
qed

lemma task_suspended_eq: "t \<noteq> NULL \<Longrightarrow> prvTaskIsTaskSuspended t s
    = Some (state_of s t = Some xSuspendedTaskList \<and> event_of s t = None \<and> ucNotifyState s t \<noteq> taskWAITING_NOTIFICATION)"
  by (auto simp: prvTaskIsTaskSuspended_def listIS_CONTAINED_WITHIN_def)

lemma resume_ready:
  assumes b: "kbase T idle s" and st: "state_of s t = Some xSuspendedTaskList" "event_of s t = None"
  obtains r l where "list_remove (xStateListItem t) s = Some r"
    "prvAddTaskToReadyList t r = s\<lparr>kl := l, uxTopReadyPriority := max (uxTopReadyPriority s) (uxPriority s t)\<rparr>"
    "pxContainer l = (pxContainer (kl s))(xStateListItem t := Some (pxReadyTasksLists (uxPriority s t)), xEventListItem t := None)"
    "xItemValue l = xItemValue (kl s)" "kbase T idle (s\<lparr>kl := l, uxTopReadyPriority := max (uxTopReadyPriority s) (uxPriority s t)\<rparr>)"
proof -
  have tT: "t \<in> T" by (rule kbase_state [OF b st(1)])
  obtain l1 where l1: "list_remove (xStateListItem t) s = Some (s\<lparr>kl := l1\<rparr>)" "lists_ok l1"
    "pxContainer l1 = (pxContainer (kl s))(xStateListItem t := None)" "xItemValue l1 = xItemValue (kl s)" "pvOwner l1 = pvOwner (kl s)"
    by (rule list_remove_ok [OF kbase_lists [OF b] st(1)])
  have c: "pxContainer l1 = (pxContainer (kl s))(xStateListItem t := None, xEventListItem t := None)" using st(2) by (auto simp: l1 fun_eq_iff)
  obtain l where l: "prvAddTaskToReadyList t (s\<lparr>kl := l1\<rparr>) = s\<lparr>kl := l, uxTopReadyPriority := max (uxTopReadyPriority s) (uxPriority s t)\<rparr>"
    "pxContainer l = (pxContainer (kl s))(xStateListItem t := Some (pxReadyTasksLists (uxPriority s t)), xEventListItem t := None)"
    "xItemValue l = xItemValue (kl s)" "pvOwner l = pvOwner (kl s)"
    "kbase T idle (s\<lparr>kl := l, uxTopReadyPriority := max (uxTopReadyPriority s) (uxPriority s t)\<rparr>)"
    by (rule add_ready_ok [OF b tT l1(2) c l1(4,5)])
  show thesis by (rule that [OF l1(1) l(1,2,3,5)])
qed

lemma resume_isr_safe:
  assumes k: "ksafe T idle s" and u: "uxSchedulerSuspended s = 0" and t: "t \<noteq> NULL"
  shows "\<exists>need s'. xTaskResumeFromISR t s = Some (need, s') \<and> ksafe T idle s' \<and> elapsed 0 {} s s' \<and> uxSchedulerSuspended s' = 0
    \<and> xPendedTicks s' = xPendedTicks s \<and> pxCurrentTCB s' = pxCurrentTCB s"
proof (cases "prvTaskIsTaskSuspended t s = Some True")
  case False
  then have "prvTaskIsTaskSuspended t s = Some False" using t by (auto simp: task_suspended_eq)
  then have "xTaskResumeFromISR t s = Some (False, s)" by (simp add: xTaskResumeFromISR_def)
  then show ?thesis using k u elapsed_refl [OF ksafeD(2) [OF k]] by auto
next
  case True
  then have st: "state_of s t = Some xSuspendedTaskList" "event_of s t = None" using t by (simp_all add: task_suspended_eq)
  note b = ksafeD(1) [OF k] and tm = ksafeD(2) [OF k]
  let ?need = "uxPriority s t > uxPriority s (pxCurrentTCB s)"
  define s1 where "s1 = (if ?need then s\<lparr>xYieldPendings := True\<rparr> else s)"
  have s1: "kbase T idle s1" "timely s1" "runs_highest s1 = runs_highest s" "kl s1 = kl s" "uxPriority s1 = uxPriority s" "pxCurrentTCB s1 = pxCurrentTCB s"
    "xYieldPendings s1 = (?need \<or> xYieldPendings s)" "uxSchedulerSuspended s1 = 0" "xPendedTicks s1 = xPendedTicks s" "xSchedulerRunning s1"
    "uxCurrentNumberOfTasks s1 \<noteq> 0" "elapsed 0 {} s1 = elapsed 0 {} s"
    using b tm u ksafeD(4,5) [OF k] by (simp_all add: s1_def fun_eq_iff)
  have st': "state_of s1 t = Some xSuspendedTaskList" "event_of s1 t = None" using st by (simp_all add: s1(4))
  obtain q l where q: "list_remove (xStateListItem t) s1 = Some q"
    "prvAddTaskToReadyList t q = s1\<lparr>kl := l, uxTopReadyPriority := max (uxTopReadyPriority s1) (uxPriority s1 t)\<rparr>"
    and l:
    "pxContainer l = (pxContainer (kl s1))(xStateListItem t := Some (pxReadyTasksLists (uxPriority s1 t)), xEventListItem t := None)"
    "xItemValue l = xItemValue (kl s1)" "kbase T idle (s1\<lparr>kl := l, uxTopReadyPriority := max (uxTopReadyPriority s1) (uxPriority s1 t)\<rparr>)"
    by (rule resume_ready [OF s1(1) st']) (rule that)
  let ?s' = "s1\<lparr>kl := l, uxTopReadyPriority := max (uxTopReadyPriority s1) (uxPriority s1 t)\<rparr>"
  note r = readied_safe [OF s1(1,2) st'(1) l(1,2)]
  have "xTaskResumeFromISR t s = Some (?need, ?s')"
    using True u current_priority_eq [OF b] q unfolding s1_def by (simp add: xTaskResumeFromISR_def Let_def)
  moreover have "runs_highest ?s' \<or> xYieldPendings ?s'"
  proof (cases "xYieldPendings s1")
    case False
    then have "runs_highest s1" "\<not> ?need" using ksafeD(3) [OF k] s1(3,7) by auto
    then show ?thesis unfolding runs_highest_def r(3) by (auto simp: s1(5,6))
  qed simp
  then have "ksafe T idle ?s'" using l(3) r(1) s1(10,11) by (simp add: ksafe_def)
  moreover have "elapsed 0 {} s ?s'" using r(2) [of "{}"] s1(12) by simp
  ultimately show ?thesis using s1(6,8,9) by simp
qed

definition legal_irq :: "irq \<Rightarrow> bool" where "legal_irq i = (case i of Tick \<Rightarrow> True | Resume_from_isr t pass \<Rightarrow> t \<noteq> NULL)"

primrec irq_ticks :: "irq \<Rightarrow> nat" where
  "irq_ticks Tick = 1" | "irq_ticks (Resume_from_isr t pass) = 0"

lemma interrupt_safe:
  assumes k: "ksafe T idle s" and u: "uxSchedulerSuspended s = 0" and i: "legal_irq i"
  shows "\<exists>s'. interrupt i s = Some s' \<and> ksafe T idle s' \<and> elapsed (irq_ticks i) {} s s' \<and> uxSchedulerSuspended s' = 0 \<and> xPendedTicks s' = xPendedTicks s
    \<and> (ready s (pxCurrentTCB s) \<longrightarrow> ready s' (pxCurrentTCB s'))"
proof (cases i)
  case Tick
  then show ?thesis using tick_interrupt_safe [OF k u] by simp
next
  case (Resume_from_isr t pass)
  then have t: "t \<noteq> NULL" using i by (simp add: legal_irq_def)
  obtain need s1 where s1: "xTaskResumeFromISR t s = Some (need, s1)" "ksafe T idle s1" "elapsed 0 {} s s1" "uxSchedulerSuspended s1 = 0"
    "xPendedTicks s1 = xPendedTicks s" "pxCurrentTCB s1 = pxCurrentTCB s"
    using resume_isr_safe [OF k u t] by blast
  show ?thesis
  proof (cases "pass \<and> need")
    case True
    obtain s2 where s2: "vTaskSwitchContext s1 = Some s2" "ksafe T idle s2" "elapsed 0 {} s1 s2" "ready s2 (pxCurrentTCB s2)"
      "uxSchedulerSuspended s2 = 0" "xPendedTicks s2 = xPendedTicks s1"
      using switch_safe [OF ksafeD(1,2,4,5) [OF s1(2)] s1(4)] by blast
    have "elapsed 0 {} s s2" using elapsed_trans [OF s1(3) s2(3)] by simp
    then show ?thesis using s1(1,5) s2 True Resume_from_isr by (simp add: portYIELD_FROM_ISR_def)
  next
    case False
    then have "interrupt i s = Some s1" using s1(1) Resume_from_isr by (auto simp: portYIELD_FROM_ISR_def)
    then show ?thesis using s1 Resume_from_isr by (simp add: elapsed_def)
  qed
qed

text \<open>While the scheduler is suspended an interrupt moves no task.\<close>

definition kept :: "kernel \<Rightarrow> kernel \<Rightarrow> bool" where
  "kept s s' \<longleftrightarrow> (\<forall>t. state_of s' t = state_of s t \<and> wake s' t = wake s t) \<and> uxPriority s' = uxPriority s \<and> pxCurrentTCB s' = pxCurrentTCB s
     \<and> xTickCount s' = xTickCount s \<and> uxSchedulerSuspended s' = uxSchedulerSuspended s \<and> pxDelayedTaskList s' = pxDelayedTaskList s
     \<and> pxOverflowDelayedTaskList s' = pxOverflowDelayedTaskList s \<and> xNextTaskUnblockTime s' = xNextTaskUnblockTime s
     \<and> xYieldPendings s' = xYieldPendings s"

lemma kept_trans: "kept s s' \<Longrightarrow> kept s' s'' \<Longrightarrow> kept s s''" by (simp add: kept_def)

lemma kept_safe:
  assumes "kept s s'"
  shows "timely s' = timely s" "runs_highest s' = runs_highest s" "ready s' = ready s" "delayed s' = delayed s" "elapsed 0 X s s' \<longleftrightarrow> elapsed 0 X s s"
  using assms by (auto simp: kept_def timely_def runs_highest_def ready_def delayed_def elapsed_def fun_eq_iff)

lemma interrupt_suspended:
  assumes b: "kbase T idle s" and u: "uxSchedulerSuspended s \<noteq> 0" and i: "legal_irq i"
  shows "\<exists>s'. interrupt i s = Some s' \<and> kbase T idle s' \<and> kept s s' \<and> xPendedTicks s' = xPendedTicks s + of_nat (irq_ticks i)
    \<and> xSchedulerRunning s' = xSchedulerRunning s \<and> uxCurrentNumberOfTasks s' = uxCurrentNumberOfTasks s"
proof (cases i)
  case Tick
  then show ?thesis using u b by (simp add: tick_interrupt_def xTaskIncrementTick_def kept_def)
next
  case (Resume_from_isr t pass)
  then have t: "t \<noteq> NULL" using i by (simp add: legal_irq_def)
  show ?thesis
  proof (cases "prvTaskIsTaskSuspended t s = Some True")
    case False
    then have "prvTaskIsTaskSuspended t s = Some False" using t by (auto simp: task_suspended_eq)
    then have "interrupt i s = Some s" using Resume_from_isr by (simp add: xTaskResumeFromISR_def portYIELD_FROM_ISR_def)
    then show ?thesis using b Resume_from_isr by (simp add: kept_def)
  next
    case True
    then have st: "state_of s t = Some xSuspendedTaskList" "event_of s t = None" using t by (simp_all add: task_suspended_eq)
    let ?l = "vListInsertEnd xPendingReadyList (xEventListItem t) (kl s)"
    have tT: "t \<in> T" by (rule kbase_state [OF b st(1)])
    have ok: "lists_ok ?l" by (rule insert_end_ok [OF kbase_lists [OF b] st(2)]) (use t kbase_tasks [OF b tT] in \<open>simp_all add: fits_def\<close>)
    have c: "pxContainer ?l = (pxContainer (kl s))(xStateListItem t := Some xSuspendedTaskList, xEventListItem t := Some xPendingReadyList)"
      using st(1) by (auto simp: fun_eq_iff)
    have ne: "t \<noteq> idle" using kbaseD(9) [OF b] st(1) by auto
    have "kbase T idle (s\<lparr>kl := ?l, uxTopReadyPriority := uxTopReadyPriority s\<rparr>)"
      by (rule kbase_move [OF b tT ok c]) (use ne kbaseD(5) [OF b] in simp_all)
    moreover have "interrupt i s = Some (s\<lparr>kl := ?l\<rparr>)"
      using True u Resume_from_isr by (simp add: xTaskResumeFromISR_def portYIELD_FROM_ISR_def)
    ultimately show ?thesis using Resume_from_isr by (simp add: kept_def)
  qed
qed

lemma interrupts_suspended:
  assumes "kbase T idle s" "uxSchedulerSuspended s \<noteq> 0" "list_all legal_irq is"
  shows "\<exists>s'. interrupts is s = Some s' \<and> kbase T idle s' \<and> kept s s' \<and> xPendedTicks s' = xPendedTicks s + of_nat (sum_list (map irq_ticks is))
    \<and> xSchedulerRunning s' = xSchedulerRunning s \<and> uxCurrentNumberOfTasks s' = uxCurrentNumberOfTasks s"
  using assms
proof (induction "is" arbitrary: s)
  case Nil
  then show ?case by (simp add: kept_def)
next
  case (Cons i "is")
  obtain s1 where s1: "interrupt i s = Some s1" "kbase T idle s1" "kept s s1" "xPendedTicks s1 = xPendedTicks s + of_nat (irq_ticks i)"
    "xSchedulerRunning s1 = xSchedulerRunning s" "uxCurrentNumberOfTasks s1 = uxCurrentNumberOfTasks s"
    using interrupt_suspended [OF Cons(2,3)] Cons(4) by auto
  have "uxSchedulerSuspended s1 \<noteq> 0" using s1(3) Cons(3) by (simp add: kept_def)
  from Cons(1) [OF s1(2) this] Cons(4) obtain s2 where s2: "interrupts is s1 = Some s2" "kbase T idle s2" "kept s1 s2"
    "xPendedTicks s2 = xPendedTicks s1 + of_nat (sum_list (map irq_ticks is))"
    "xSchedulerRunning s2 = xSchedulerRunning s1" "uxCurrentNumberOfTasks s2 = uxCurrentNumberOfTasks s1" by auto
  then show ?case using s1 kept_trans [OF s1(3) s2(3)] by (simp add: algebra_simps)
qed

end
