(* ===== verification/Freertos_Calls.thy ===== *)
theory Freertos_Calls
  imports Freertos_Sched
begin

text \<open>
  Every call of the scheduler keeps the invariant of \<open>Freertos_Sched\<close>, counts the ticks that occur in
  it, and leaves the delay of other tasks alone: resuming the scheduler with pended ticks and tasks,
  delays with the interrupts taken in the middle of them, suspension, priorities, creation.
\<close>

section \<open>Resuming the scheduler\<close>

lemma ready_pending_safe:
  assumes k: "ksafe T idle s" and u: "uxSchedulerSuspended s = 0" and p: "\<not> listLIST_IS_EMPTY xPendingReadyList (kl s)"
  shows "\<exists>s'. ready_pending s = Some s' \<and> ksafe T idle s' \<and> elapsed 0 {} s s' \<and> uxSchedulerSuspended s' = 0
    \<and> xPendedTicks s' = xPendedTicks s \<and> pxCurrentTCB s' = pxCurrentTCB s \<and> {t. event_of s' t \<noteq> None} \<subset> {t. event_of s t \<noteq> None}"
proof -
  note b = ksafeD(1) [OF k] and tm = ksafeD(2) [OF k]
  have ok: "lists_ok (kl s)" by (rule kbase_lists [OF b])
  obtain i where "pxContainer (kl s) i = Some xPendingReadyList" using p empty_iff [OF ok, of xPendingReadyList] by auto
  then obtain x where x: "listGET_OWNER_OF_HEAD_ENTRY xPendingReadyList (kl s) = Some (task_of x)" "pxContainer (kl s) x = Some xPendingReadyList"
    using head_ok [OF ok, of xPendingReadyList] by (metis KL_simps(3))
  obtain t where t: "x = xEventListItem t" using lists_ok_item [OF ok x(2)] by (auto simp: fits_def)
  have st: "state_of s t = Some xSuspendedTaskList" "event_of s t = Some xPendingReadyList" using kbase_event [OF b, of t] x(2) t by auto
  have tT: "t \<in> T" by (rule kbase_state [OF b st(1)])
  obtain l1 where l1: "list_remove (xEventListItem t) s = Some (s\<lparr>kl := l1\<rparr>)" "lists_ok l1"
    "pxContainer l1 = (pxContainer (kl s))(xEventListItem t := None)" "xItemValue l1 = xItemValue (kl s)" "pvOwner l1 = pvOwner (kl s)"
    by (rule list_remove_ok [OF ok st(2)])
  have st1: "state_of (s\<lparr>kl := l1\<rparr>) t = Some xSuspendedTaskList" "lists_ok (kl (s\<lparr>kl := l1\<rparr>))" using st(1) l1(2) by (simp_all add: l1(3))
  obtain l2 where l2: "list_remove (xStateListItem t) (s\<lparr>kl := l1\<rparr>) = Some (s\<lparr>kl := l1\<rparr>\<lparr>kl := l2\<rparr>)" "lists_ok l2"
    "pxContainer l2 = (pxContainer (kl (s\<lparr>kl := l1\<rparr>)))(xStateListItem t := None)" "xItemValue l2 = xItemValue (kl (s\<lparr>kl := l1\<rparr>))"
    "pvOwner l2 = pvOwner (kl (s\<lparr>kl := l1\<rparr>))"
    by (rule list_remove_ok [OF st1(2,1)])
  have c: "pxContainer l2 = (pxContainer (kl s))(xStateListItem t := None, xEventListItem t := None)" by (auto simp: l2 l1 fun_eq_iff)
  obtain l where l: "prvAddTaskToReadyList t (s\<lparr>kl := l2\<rparr>) = s\<lparr>kl := l, uxTopReadyPriority := max (uxTopReadyPriority s) (uxPriority s t)\<rparr>"
    "pxContainer l = (pxContainer (kl s))(xStateListItem t := Some (pxReadyTasksLists (uxPriority s t)), xEventListItem t := None)"
    "xItemValue l = xItemValue (kl s)" "pvOwner l = pvOwner (kl s)"
    "kbase T idle (s\<lparr>kl := l, uxTopReadyPriority := max (uxTopReadyPriority s) (uxPriority s t)\<rparr>)"
    by (rule add_ready_ok [OF b tT l2(2) c]) (simp_all add: l1 l2)
  let ?s = "s\<lparr>kl := l, uxTopReadyPriority := max (uxTopReadyPriority s) (uxPriority s t)\<rparr>"
  let ?need = "uxPriority s t > uxPriority s (pxCurrentTCB s)"
  let ?s' = "if ?need then ?s\<lparr>xYieldPendings := True\<rparr> else ?s"
  note r = readied_safe [OF b tm st(1) l(2,3)]
  have run: "ready_pending s = Some ?s'"
    using x(1) t l1(1) l2(1) l(1) current_priority_eq [OF l(5)] by (simp add: ready_pending_def Let_def)
  have safe: "runs_highest ?s \<or> ?need \<or> xYieldPendings s"
    using ksafeD(3) [OF k] unfolding runs_highest_def r(3) by (auto simp: not_less)
  have "ksafe T idle ?s'"
  proof (cases ?need)
    case True
    then show ?thesis using l(5) r(1) ksafeD(4,5) [OF k] by (simp add: ksafe_def)
  next
    case False
    then show ?thesis using safe l(5) r(1) ksafeD(4,5) [OF k] by (simp add: ksafe_def)
  qed
  moreover have "elapsed 0 {} s ?s'" using r(2) [of "{}"] by simp
  moreover have "{v. event_of ?s' v \<noteq> None} \<subset> {v. event_of s v \<noteq> None}" using st(2) by (auto simp: l(2))
  ultimately show ?thesis using run u by (intro exI [of _ ?s']) simp
qed

lemma pending_loop_safe:
  assumes "ksafe T idle s" "uxSchedulerSuspended s = 0"
  shows "\<exists>m s'. pending_loop moved s = Some (m, s') \<and> ksafe T idle s' \<and> elapsed 0 {} s s' \<and> uxSchedulerSuspended s' = 0
    \<and> xPendedTicks s' = xPendedTicks s \<and> pxCurrentTCB s' = pxCurrentTCB s"
  using assms
proof (induction "card {t. event_of s t \<noteq> None}" arbitrary: s moved rule: less_induct)
  case less
  show ?case
  proof (cases "listLIST_IS_EMPTY xPendingReadyList (kl s)")
    case True
    then show ?thesis using less(2,3) elapsed_refl [OF ksafeD(2) [OF less(2)]] by (subst pending_loop.simps) auto
  next
    case False
    obtain s1 where s1: "ready_pending s = Some s1" "ksafe T idle s1" "elapsed 0 {} s s1" "uxSchedulerSuspended s1 = 0"
      "xPendedTicks s1 = xPendedTicks s" "pxCurrentTCB s1 = pxCurrentTCB s" "{t. event_of s1 t \<noteq> None} \<subset> {t. event_of s t \<noteq> None}"
      using ready_pending_safe [OF less(2,3) False] by blast
    have "card {t. event_of s1 t \<noteq> None} < card {t. event_of s t \<noteq> None}" by (rule psubset_card_mono [OF _ s1(7)]) simp
    from less(1) [OF this s1(2,4), of True] obtain m s2 where s2: "pending_loop True s1 = Some (m, s2)" "ksafe T idle s2" "elapsed 0 {} s1 s2"
      "uxSchedulerSuspended s2 = 0" "xPendedTicks s2 = xPendedTicks s1" "pxCurrentTCB s2 = pxCurrentTCB s1" by blast
    have "elapsed 0 {} s s2" using elapsed_trans [OF s1(3) s2(3)] by simp
    moreover have "pending_loop moved s = Some (m, s2)" using False s1(1) s2(1) by (subst pending_loop.simps) simp
    ultimately show ?thesis using s1(5,6) s2 by auto
  qed
qed

lemma reset_unblock_ok:
  assumes b: "kbase T idle s" and n: "\<And>t. state_of s t = Some (pxDelayedTaskList s) \<Longrightarrow> xTickCount s < wake s t"
    "\<And>t. state_of s t = Some (pxOverflowDelayedTaskList s) \<Longrightarrow> wake s t < xTickCount s"
  shows "\<exists>m. prvResetNextTaskUnblockTime s = s\<lparr>xNextTaskUnblockTime := m\<rparr> \<and> timely (s\<lparr>xNextTaskUnblockTime := m\<rparr>)"
proof -
  have d: "pxDelayedTaskList s \<in> KL" using kbase_delayed [OF b] by simp
  show ?thesis
  proof (cases "listLIST_IS_EMPTY (pxDelayedTaskList s) (kl s)")
    case True
    then have "state_of s t \<noteq> Some (pxDelayedTaskList s)" for t using empty_iff [OF kbase_lists [OF b] d] by blast
    then show ?thesis using True n(2) by (simp add: prvResetNextTaskUnblockTime_def timely_def exI [of _ portMAX_DELAY])
  next
    case False
    then obtain i where "pxContainer (kl s) i = Some (pxDelayedTaskList s)" using empty_iff [OF kbase_lists [OF b] d] by auto
    then obtain x where x: "pxNext (kl s) (Marker (pxDelayedTaskList s)) = Item x"
      "\<forall>k. pxContainer (kl s) k = Some (pxDelayedTaskList s) \<longrightarrow> item_value (kl s) x \<le> item_value (kl s) k"
      using head_ok [OF kbase_lists [OF b] d] kbase_delayed [OF b] by metis
    have "prvResetNextTaskUnblockTime s = s\<lparr>xNextTaskUnblockTime := item_value (kl s) x\<rparr>"
      using False x(1) by (simp add: prvResetNextTaskUnblockTime_def listGET_ITEM_VALUE_OF_HEAD_ENTRY_def)
    moreover have "timely (s\<lparr>xNextTaskUnblockTime := item_value (kl s) x\<rparr>)"
      using n x(2) by (simp add: timely_def)
    ultimately show ?thesis by blast
  qed
qed

lemma process_ticks_safe:
  assumes "ksafe T idle s" "uxSchedulerSuspended s = 0"
  shows "\<exists>s'. process_ticks n s = Some s' \<and> ksafe T idle s' \<and> elapsed n {} s s' \<and> uxSchedulerSuspended s' = 0 \<and> pxCurrentTCB s' = pxCurrentTCB s"
  using assms
proof (induction n arbitrary: s)
  case 0
  then show ?case using elapsed_refl [OF ksafeD(2) [OF 0(1)]] by simp
next
  case (Suc n)
  obtain sw s1 where s1: "xTaskIncrementTick s = Some (sw, s1)" "kbase T idle s1" "timely s1" "runs_highest s1 \<or> xYieldPendings s1 \<or> sw"
    "xSchedulerRunning s1" "uxCurrentNumberOfTasks s1 \<noteq> 0" "elapsed 1 {} s s1" "uxSchedulerSuspended s1 = 0" "pxCurrentTCB s1 = pxCurrentTCB s"
    using tick_safe [OF Suc(2,3)] by blast
  define s2 where "s2 = (if sw then s1\<lparr>xYieldPendings := True\<rparr> else s1)"
  have s2: "ksafe T idle s2" "uxSchedulerSuspended s2 = 0" "elapsed 1 {} s s2" "pxCurrentTCB s2 = pxCurrentTCB s"
    using s1 by (auto simp: s2_def ksafe_def)
  obtain s3 where s3: "process_ticks n s2 = Some s3" "ksafe T idle s3" "elapsed n {} s2 s3" "uxSchedulerSuspended s3 = 0" "pxCurrentTCB s3 = pxCurrentTCB s2"
    using Suc(1) [OF s2(1,2)] by blast
  have "elapsed (Suc n) {} s s3" using elapsed_trans [OF s2(3) s3(3)] by simp
  then show ?case using s1(1) s3 s2(4) by (simp add: s2_def)
qed

text \<open>\<open>xTaskResumeAll\<close> makes pending tasks ready and counts the pended ticks; a switch that became due is made.\<close>

lemma resume_all_safe:
  assumes k: "ksafe T idle s" and u: "uxSchedulerSuspended s = 1"
  shows "\<exists>y s'. xTaskResumeAll s = Some (y, s') \<and> ksafe T idle s' \<and> elapsed (unat (xPendedTicks s)) {} s s' \<and> uxSchedulerSuspended s' = 0
    \<and> xPendedTicks s' = 0 \<and> runs_highest s' \<and> (if y then ready s' (pxCurrentTCB s') else pxCurrentTCB s' = pxCurrentTCB s)"
proof -
  let ?s = "s\<lparr>uxSchedulerSuspended := 0\<rparr>"
  have k0: "ksafe T idle ?s" "uxSchedulerSuspended ?s = 0" using k by (simp_all add: ksafe_def)
  have n: "0 < uxCurrentNumberOfTasks s" using ksafeD(5) [OF k] by (simp add: word_neq_0_conv)
  obtain moved s1 where s1: "pending_loop False ?s = Some (moved, s1)" "ksafe T idle s1" "elapsed 0 {} ?s s1" "uxSchedulerSuspended s1 = 0"
    "xPendedTicks s1 = xPendedTicks s" "pxCurrentTCB s1 = pxCurrentTCB s"
    using pending_loop_safe [OF k0, of False] by auto
  define s2 where "s2 = (if moved then prvResetNextTaskUnblockTime s1 else s1)"
  have s2: "ksafe T idle s2 \<and> uxSchedulerSuspended s2 = 0 \<and> elapsed 0 {} s s2 \<and> xPendedTicks s2 = xPendedTicks s \<and> pxCurrentTCB s2 = pxCurrentTCB s"
  proof (cases moved)
    case True
    obtain m where m: "prvResetNextTaskUnblockTime s1 = s1\<lparr>xNextTaskUnblockTime := m\<rparr>" "timely (s1\<lparr>xNextTaskUnblockTime := m\<rparr>)"
      using reset_unblock_ok [OF ksafeD(1) [OF s1(2)]] ksafeD(2) [OF s1(2)] by (auto simp: timely_def)
    then show ?thesis using True s1 by (simp add: s2_def ksafe_def)
  qed (use s1 in \<open>simp add: s2_def\<close>)
  obtain s3 where s3: "(if xPendedTicks s2 > 0 then process_ticks (unat (xPendedTicks s2)) s2 \<bind> (\<lambda>s. Some (s\<lparr>xPendedTicks := 0\<rparr>)) else Some s2) = Some s3"
    "ksafe T idle s3" "elapsed (unat (xPendedTicks s)) {} s s3" "uxSchedulerSuspended s3 = 0" "xPendedTicks s3 = 0" "pxCurrentTCB s3 = pxCurrentTCB s"
  proof (cases "xPendedTicks s2 > 0")
    case True
    obtain s3 where s3: "process_ticks (unat (xPendedTicks s)) s2 = Some s3" "ksafe T idle s3" "elapsed (unat (xPendedTicks s)) {} s2 s3"
      "uxSchedulerSuspended s3 = 0" "pxCurrentTCB s3 = pxCurrentTCB s2"
      using process_ticks_safe [of T idle s2] s2 by blast
    have e: "elapsed 0 {} s s2" using s2 by simp
    have "elapsed (unat (xPendedTicks s)) {} s s3" using elapsed_trans [OF e s3(3)] by simp
    then show thesis using that [of "s3\<lparr>xPendedTicks := 0\<rparr>"] True s3 s2 by (simp add: ksafe_def)
  next
    case False
    then have "xPendedTicks s2 = 0" using word_neq_0_conv by blast
    then show thesis using that [of s2] s2 by simp
  qed
  have run: "xTaskResumeAll s = (if xYieldPendings s3 then portYIELD s3 \<bind> (\<lambda>s. Some (True, s)) else Some (False, s3))"
    using u n s1(1) s3(1) [unfolded s2_def] by (simp add: xTaskResumeAll_def Let_def split del: if_split)
  show ?thesis
  proof (cases "xYieldPendings s3")
    case True
    obtain s4 where s4: "portYIELD s3 = Some s4" "ksafe T idle s4" "elapsed 0 {} s3 s4" "uxSchedulerSuspended s4 = uxSchedulerSuspended s3"
      "xPendedTicks s4 = xPendedTicks s3" "if uxSchedulerSuspended s3 = 0 then ready s4 (pxCurrentTCB s4) \<and> runs_highest s4 else pxCurrentTCB s4 = pxCurrentTCB s3"
      using yield_safe [OF ksafeD(1,2,4,5) [OF s3(2)]] by blast
    have "elapsed (unat (xPendedTicks s)) {} s s4" using elapsed_trans [OF s3(3) s4(3)] by simp
    then show ?thesis using run True s4 s3(4,5) by (intro exI [of _ True]) simp
  next
    case False
    then show ?thesis using run s3 ksafeD(3) [OF s3(2)] by auto
  qed
qed

section \<open>Blocking\<close>

lemma add_delayed_ok:
  assumes b: "kbase T idle s" and tm: "timely s" and n: "n \<noteq> 0" and c: "pxCurrentTCB s \<noteq> idle" and ev: "event_of s (pxCurrentTCB s) = None"
  shows "\<exists>s'. prvAddCurrentTaskToDelayedList n False s = Some s' \<and> kbase T idle s' \<and> timely s'
    \<and> delayed s' (pxCurrentTCB s) \<and> wake s' (pxCurrentTCB s) = xTickCount s + n \<and> elapsed 0 {pxCurrentTCB s} s s'
    \<and> (\<forall>u. ready s' u \<longleftrightarrow> ready s u \<and> u \<noteq> pxCurrentTCB s) \<and> uxPriority s' = uxPriority s \<and> pxCurrentTCB s' = pxCurrentTCB s
    \<and> xTickCount s' = xTickCount s \<and> uxSchedulerSuspended s' = uxSchedulerSuspended s \<and> xPendedTicks s' = xPendedTicks s
    \<and> xYieldPendings s' = xYieldPendings s \<and> xSchedulerRunning s' = xSchedulerRunning s \<and> uxCurrentNumberOfTasks s' = uxCurrentNumberOfTasks s"
proof -
  define t where "t = pxCurrentTCB s"
  let ?w = "xTickCount s + n"
  define k where "k = (if ?w < xTickCount s then pxOverflowDelayedTaskList s else pxDelayedTaskList s)"
  have tT: "t \<in> T" using kbase_current [OF b] by (simp add: t_def)
  note tt = kbase_tasks [OF b tT]
  obtain k0 where k0: "state_of s t = Some k0" using tt by auto
  have dl: "pxDelayedTaskList s \<in> delayed_lists" "pxOverflowDelayedTaskList s \<in> delayed_lists" "pxDelayedTaskList s \<noteq> pxOverflowDelayedTaskList s"
    using kbase_delayed [OF b] by simp_all
  have kd: "k \<in> delayed_lists" using dl by (simp add: k_def)
  have nd: "pxReadyTasksLists p \<noteq> k" "k \<noteq> xPendingReadyList" "k \<noteq> xSuspendedTaskList" for p using kd by (auto simp: delayed_lists_def)
  obtain l1 where l1: "list_remove (xStateListItem t) s = Some (s\<lparr>kl := l1\<rparr>)" "lists_ok l1"
    "pxContainer l1 = (pxContainer (kl s))(xStateListItem t := None)" "xItemValue l1 = xItemValue (kl s)" "pvOwner l1 = pvOwner (kl s)"
    by (rule list_remove_ok [OF kbase_lists [OF b] k0])
  let ?l2 = "listSET_LIST_ITEM_VALUE (xStateListItem t) ?w l1"
  have ok2: "lists_ok ?l2" by (rule set_value_ok [OF l1(2)]) (simp add: l1(3))
  obtain l3 where l3: "vListInsert k (xStateListItem t) ?l2 = Some l3" "lists_ok l3" "pxContainer l3 = (pxContainer ?l2)(xStateListItem t := Some k)"
    "xItemValue l3 = xItemValue ?l2" "pvOwner l3 = pvOwner ?l2"
    by (rule insert_ok [OF ok2, of "xStateListItem t" k]) (use tt kd nd in \<open>simp_all add: l1 fits_def\<close>)
  let ?s = "s\<lparr>kl := l3, uxTopReadyPriority := uxTopReadyPriority s\<rparr>"
  have con: "pxContainer l3 = (pxContainer (kl s))(xStateListItem t := Some k, xEventListItem t := None)"
    using ev by (auto simp: l3(3) l1(3) fun_eq_iff t_def)
  have b3: "kbase T idle ?s"
    by (rule kbase_move [OF b tT l3(2) con]) (use nd c kbaseD(5) [OF b] in \<open>auto simp: l3(5) l1(5) t_def\<close>)
  have st: "state_of ?s u = (if u = t then Some k else state_of s u)" for u by (simp add: con)
  have wk: "wake ?s u = (if u = t then ?w else wake s u)" for u using l3(4) l1(4) by (simp add: listSET_LIST_ITEM_VALUE_def)
  define m where "m = (if \<not> ?w < xTickCount s \<and> ?w < xNextTaskUnblockTime s then ?w else xNextTaskUnblockTime s)"
  let ?s' = "s\<lparr>kl := l3, xNextTaskUnblockTime := m\<rparr>"
  have run: "prvAddCurrentTaskToDelayedList n False s = Some ?s'"
    using l1(1) l3(1) by (cases "?w < xTickCount s") (simp_all add: prvAddCurrentTaskToDelayedList_def Let_def t_def k_def m_def)
  have "timely ?s'"
    unfolding timely_def
  proof (intro conjI allI impI)
    fix u assume "state_of ?s' u = Some (pxDelayedTaskList ?s')"
    then have u: "(if u = t then Some k else state_of s u) = Some (pxDelayedTaskList s)" using st [of u] by simp
    have "xTickCount s < (if u = t then ?w else wake s u) \<and> m \<le> (if u = t then ?w else wake s u)"
    proof (cases "u = t")
      case True
      then have "\<not> ?w < xTickCount s" using u dl(3) by (auto simp: k_def split: if_splits)
      moreover have "?w \<noteq> xTickCount s" using n by simp
      ultimately show ?thesis using True by (auto simp: m_def not_less order_less_le)
    next
      case False
      then have "xTickCount s < wake s u \<and> xNextTaskUnblockTime s \<le> wake s u" using u tm by (simp add: timely_def)
      then show ?thesis using False by (auto simp: m_def)
    qed
    then show "xTickCount ?s' < wake ?s' u" "xNextTaskUnblockTime ?s' \<le> wake ?s' u" using wk [of u] by simp_all
  next
    fix u assume "state_of ?s' u = Some (pxOverflowDelayedTaskList ?s')"
    then have u: "(if u = t then Some k else state_of s u) = Some (pxOverflowDelayedTaskList s)" using st [of u] by simp
    have "(if u = t then ?w else wake s u) < xTickCount s"
      using u tm dl(3) by (auto simp: k_def timely_def split: if_splits)
    then show "wake ?s' u < xTickCount ?s'" using wk [of u] by simp
  qed
  moreover have "delayed ?s' t" using st [of t] by (auto simp: delayed_def k_def)
  moreover have "wake ?s' t = ?w" using wk [of t] by simp
  moreover have rd: "ready ?s' u \<longleftrightarrow> ready s u \<and> u \<noteq> t" for u using st [of u] nd by (auto simp: ready_def)
  moreover have "elapsed 0 {t} s ?s'"
  proof (rule elapsed_none [OF tm])
    fix u assume "u \<notin> {t}" "delayed s u"
    then show "delayed ?s' u \<and> wake ?s' u = wake s u" using st [of u] wk [of u] by (simp add: delayed_def)
  qed (use rd in simp_all)
  moreover have "kbase T idle ?s'" using b3 by simp
  ultimately show ?thesis using run by (intro exI [of _ ?s']) (simp add: t_def)
qed

definition legal_irqs :: "irq list \<times> irq list \<Rightarrow> bool" where
  "legal_irqs w \<longleftrightarrow> list_all legal_irq (fst w) \<and> list_all legal_irq (snd w)"

definition window_ticks :: "irq list \<times> irq list \<Rightarrow> nat" where
  "window_ticks w = sum_list (map irq_ticks (fst w)) + sum_list (map irq_ticks (snd w))"

lemma interrupts_kept_safe:
  assumes k: "ksafe T idle s" and u: "uxSchedulerSuspended s \<noteq> 0" and i: "list_all legal_irq is"
  shows "\<exists>s'. interrupts is s = Some s' \<and> ksafe T idle s' \<and> kept s s' \<and> elapsed 0 {} s s' \<and> xPendedTicks s' = xPendedTicks s + of_nat (sum_list (map irq_ticks is))"
proof -
  obtain s' where s': "interrupts is s = Some s'" "kbase T idle s'" "kept s s'" "xPendedTicks s' = xPendedTicks s + of_nat (sum_list (map irq_ticks is))"
    "xSchedulerRunning s' = xSchedulerRunning s" "uxCurrentNumberOfTasks s' = uxCurrentNumberOfTasks s"
    using interrupts_suspended [OF ksafeD(1) [OF k] u i] by blast
  have "xYieldPendings s' = xYieldPendings s" using s'(3) by (simp add: kept_def)
  then have "ksafe T idle s'" using s' k by (simp add: ksafe_def kept_safe [OF s'(3)])
  moreover have "elapsed 0 {} s s'" using elapsed_refl [OF ksafeD(2) [OF k]] kept_safe(5) [OF s'(3)] by blast
  ultimately show ?thesis using s' by blast
qed

text \<open>The end of a blocking call: interrupts, \<open>xTaskResumeAll\<close>, and a yield unless that has switched.\<close>

lemma finish_block_safe:
  assumes k: "ksafe T idle s" and u: "uxSchedulerSuspended s = 1" and i: "list_all legal_irq is"
  shows "\<exists>s1 y s2 s'. interrupts is s = Some s1 \<and> xTaskResumeAll s1 = Some (y, s2) \<and> (if y then Some s2 else portYIELD s2) = Some s'
    \<and> ksafe T idle s' \<and> elapsed (unat (xPendedTicks s + of_nat (sum_list (map irq_ticks is)))) {} s s' \<and> uxSchedulerSuspended s' = 0
    \<and> xPendedTicks s' = 0 \<and> runs_highest s' \<and> ready s' (pxCurrentTCB s')"
proof -
  obtain s1 where s1: "interrupts is s = Some s1" "ksafe T idle s1" "kept s s1" "elapsed 0 {} s s1"
    "xPendedTicks s1 = xPendedTicks s + of_nat (sum_list (map irq_ticks is))"
    using interrupts_kept_safe [OF k _ i] u by auto
  have u1: "uxSchedulerSuspended s1 = 1" using s1(3) u by (simp add: kept_def)
  obtain y s2 where s2: "xTaskResumeAll s1 = Some (y, s2)" "ksafe T idle s2" "elapsed (unat (xPendedTicks s1)) {} s1 s2" "uxSchedulerSuspended s2 = 0"
    "xPendedTicks s2 = 0" "runs_highest s2" "if y then ready s2 (pxCurrentTCB s2) else pxCurrentTCB s2 = pxCurrentTCB s1"
    using resume_all_safe [OF s1(2) u1] by blast
  have e2: "elapsed (unat (xPendedTicks s1)) {} s s2" using elapsed_trans [OF s1(4) s2(3)] by simp
  show ?thesis
  proof (cases y)
    case True
    then show ?thesis using s1(1,5) s2 e2 by auto
  next
    case False
    obtain s3 where s3: "portYIELD s2 = Some s3" "ksafe T idle s3" "elapsed 0 {} s2 s3" "uxSchedulerSuspended s3 = uxSchedulerSuspended s2"
      "xPendedTicks s3 = xPendedTicks s2" "if uxSchedulerSuspended s2 = 0 then ready s3 (pxCurrentTCB s3) \<and> runs_highest s3 else pxCurrentTCB s3 = pxCurrentTCB s2"
      using yield_safe [OF ksafeD(1,2,4,5) [OF s2(2)]] by blast
    have "elapsed (unat (xPendedTicks s1)) {} s s3" using elapsed_trans [OF e2 s3(3)] by simp
    then show ?thesis using s1(1,5) s2(1,4,5) s3 False by (intro exI [of _ s1] exI [of _ y] exI [of _ s2] exI [of _ s3]) simp
  qed
qed

text \<open>What holds between kernel calls.\<close>

definition kgood :: "tcb set \<Rightarrow> tcb \<Rightarrow> kernel \<Rightarrow> bool" where
  "kgood T idle s \<longleftrightarrow> ksafe T idle s \<and> ready s (pxCurrentTCB s) \<and> (uxSchedulerSuspended s = 0 \<longrightarrow> xPendedTicks s = 0)"

lemma kgoodD: "kgood T idle s \<Longrightarrow> ksafe T idle s" "kgood T idle s \<Longrightarrow> ready s (pxCurrentTCB s)"
  "kgood T idle s \<Longrightarrow> uxSchedulerSuspended s = 0 \<Longrightarrow> xPendedTicks s = 0"
  by (simp_all add: kgood_def)

lemma ready_no_event: "kbase T idle s \<Longrightarrow> ready s t \<Longrightarrow> event_of s t = None"
  using kbase_event [of T idle s t] by (cases "event_of s t") (auto simp: ready_def)

lemma enter_block_safe:
  assumes g: "kgood T idle s" and u: "uxSchedulerSuspended s = 0" and i: "list_all legal_irq is"
  shows "\<exists>s1. interrupts is (vTaskSuspendAll s) = Some s1 \<and> ksafe T idle s1 \<and> elapsed 0 {} s s1 \<and> ready s1 = ready s \<and> delayed s1 = delayed s
    \<and> pxCurrentTCB s1 = pxCurrentTCB s \<and> xTickCount s1 = xTickCount s \<and> uxSchedulerSuspended s1 = 1 \<and> xPendedTicks s1 = of_nat (sum_list (map irq_ticks is))"
proof -
  let ?s = "vTaskSuspendAll s"
  have s0: "?s = s\<lparr>uxSchedulerSuspended := 1\<rparr>" using u by (simp add: vTaskSuspendAll_def)
  have k0: "ksafe T idle ?s" "uxSchedulerSuspended ?s \<noteq> 0" using kgoodD(1) [OF g] by (simp_all add: s0 ksafe_def)
  obtain s1 where s1: "interrupts is ?s = Some s1" "ksafe T idle s1" "kept ?s s1" "elapsed 0 {} ?s s1"
    "xPendedTicks s1 = xPendedTicks ?s + of_nat (sum_list (map irq_ticks is))"
    using interrupts_kept_safe [OF k0 i] by blast
  have e: "elapsed 0 {} s s1" using s1(4) by (simp add: s0)
  have "delayed ?s = delayed s" "ready ?s = ready s" by (simp_all add: s0 delayed_def fun_eq_iff)
  then show ?thesis using s1 e kept_safe(3,4) [OF s1(3)] kgoodD(3) [OF g u] by (simp add: kept_def s0)
qed

lemma delayed_block_safe:
  assumes k: "ksafe T idle s" and u: "uxSchedulerSuspended s = 1" and c: "pxCurrentTCB s \<noteq> idle" "ready s (pxCurrentTCB s)"
    and n: "n \<noteq> 0" and i: "list_all legal_irq is"
  shows "\<exists>s0 s1 y s2 s'. prvAddCurrentTaskToDelayedList n False s = Some s0 \<and> interrupts is s0 = Some s1 \<and> xTaskResumeAll s1 = Some (y, s2)
    \<and> (if y then Some s2 else portYIELD s2) = Some s'
    \<and> kgood T idle s' \<and> uxSchedulerSuspended s' = 0 \<and> elapsed (unat (xPendedTicks s + of_nat (sum_list (map irq_ticks is)))) {pxCurrentTCB s} s s'
    \<and> (if unat (xPendedTicks s + of_nat (sum_list (map irq_ticks is))) < unat n
       then delayed s' (pxCurrentTCB s) \<and> wake s' (pxCurrentTCB s) = xTickCount s + n else ready s' (pxCurrentTCB s))"
proof -
  let ?t = "pxCurrentTCB s"
  obtain s0 where s0: "prvAddCurrentTaskToDelayedList n False s = Some s0" "kbase T idle s0" "timely s0" "delayed s0 ?t" "wake s0 ?t = xTickCount s + n"
    "elapsed 0 {?t} s s0" "\<And>u. ready s0 u \<longleftrightarrow> ready s u \<and> u \<noteq> ?t" "uxPriority s0 = uxPriority s" "pxCurrentTCB s0 = ?t"
    "xTickCount s0 = xTickCount s" "uxSchedulerSuspended s0 = uxSchedulerSuspended s" "xPendedTicks s0 = xPendedTicks s"
    "xYieldPendings s0 = xYieldPendings s" "xSchedulerRunning s0 = xSchedulerRunning s" "uxCurrentNumberOfTasks s0 = uxCurrentNumberOfTasks s"
    using add_delayed_ok [OF ksafeD(1,2) [OF k] n c(1) ready_no_event [OF ksafeD(1) [OF k] c(2)]] by blast
  have "runs_highest s0 \<or> xYieldPendings s0" using ksafeD(3) [OF k] by (auto simp: runs_highest_def s0(7,8,9,13))
  then have k0: "ksafe T idle s0" "uxSchedulerSuspended s0 = 1" using s0 ksafeD(4,5) [OF k] u by (simp_all add: ksafe_def)
  obtain s1 y s2 s' where f: "interrupts is s0 = Some s1" "xTaskResumeAll s1 = Some (y, s2)" "(if y then Some s2 else portYIELD s2) = Some s'"
    "ksafe T idle s'" "elapsed (unat (xPendedTicks s0 + of_nat (sum_list (map irq_ticks is)))) {} s0 s'" "uxSchedulerSuspended s' = 0"
    "xPendedTicks s' = 0" "runs_highest s'" "ready s' (pxCurrentTCB s')"
    using finish_block_safe [OF k0 i] by blast
  let ?N = "unat (xPendedTicks s + of_nat (sum_list (map irq_ticks is)))"
  have e: "elapsed ?N {} s0 s'" using f(5) by (simp add: s0(12))
  have "elapsed ?N {?t} s0 s'" by (rule elapsed_mono [OF e]) simp
  then have "elapsed ?N {?t} s s'" using elapsed_trans [OF s0(6)] by fastforce
  moreover have "if ?N < unat n then delayed s' ?t \<and> wake s' ?t = xTickCount s + n else ready s' ?t"
    using e s0(4) unfolding elapsed_def by (auto simp: s0(5,10))
  ultimately show ?thesis using s0(1) f by (auto simp: kgood_def)
qed

lemma window_count:
  "window_ticks w < 2 ^ 32 \<Longrightarrow> unat (of_nat (sum_list (map irq_ticks (fst w))) + of_nat (sum_list (map irq_ticks (snd w))) :: u32) = window_ticks w"
  unfolding of_nat_add [symmetric] by (simp only: unat_of_nat window_ticks_def) (simp add: take_bit_nat_eq_self)

lemma delay_safe:
  assumes g: "kgood T idle s" and u: "uxSchedulerSuspended s = 0" and i: "legal_irqs w" "window_ticks w < 2 ^ 32"
    and c: "pxCurrentTCB s \<noteq> idle" and n: "n \<noteq> 0"
  shows "\<exists>s'. vTaskDelay w n s = Some s' \<and> kgood T idle s' \<and> uxSchedulerSuspended s' = 0 \<and> elapsed (window_ticks w) {pxCurrentTCB s} s s'
    \<and> (if window_ticks w < unat n then delayed s' (pxCurrentTCB s) \<and> wake s' (pxCurrentTCB s) = xTickCount s + n else ready s' (pxCurrentTCB s))"
proof -
  have i2: "list_all legal_irq (fst w)" "list_all legal_irq (snd w)" using i(1) by (simp_all add: legal_irqs_def)
  obtain s1 where s1: "interrupts (fst w) (vTaskSuspendAll s) = Some s1" "ksafe T idle s1" "elapsed 0 {} s s1" "ready s1 = ready s"
    "pxCurrentTCB s1 = pxCurrentTCB s" "xTickCount s1 = xTickCount s" "uxSchedulerSuspended s1 = 1"
    "xPendedTicks s1 = of_nat (sum_list (map irq_ticks (fst w)))"
    using enter_block_safe [OF g u i2(1)] by blast
  have c1: "pxCurrentTCB s1 \<noteq> idle" "ready s1 (pxCurrentTCB s1)" using c kgoodD(2) [OF g] by (simp_all add: s1(4,5))
  obtain t0 t1 y t2 s' where f: "prvAddCurrentTaskToDelayedList n False s1 = Some t0" "interrupts (snd w) t0 = Some t1"
    "xTaskResumeAll t1 = Some (y, t2)" "(if y then Some t2 else portYIELD t2) = Some s'" "kgood T idle s'" "uxSchedulerSuspended s' = 0"
    "elapsed (unat (xPendedTicks s1 + of_nat (sum_list (map irq_ticks (snd w))))) {pxCurrentTCB s1} s1 s'"
    "if unat (xPendedTicks s1 + of_nat (sum_list (map irq_ticks (snd w)))) < unat n
       then delayed s' (pxCurrentTCB s1) \<and> wake s' (pxCurrentTCB s1) = xTickCount s1 + n else ready s' (pxCurrentTCB s1)"
    using delayed_block_safe [OF s1(2,7) c1 n i2(2)] by blast
  note N = window_count [OF i(2)]
  have run: "vTaskDelay w n s = Some s'" using n s1(1,7) f(1-4) by (simp add: vTaskDelay_def Let_def word_neq_0_conv)
  have "elapsed (0 + window_ticks w) {pxCurrentTCB s} s s'"
    by (rule elapsed_trans [OF elapsed_mono [OF s1(3)]]) (use f(7) in \<open>simp_all add: s1(5,8) N\<close>)
  then show ?thesis using run f(5,6) f(8) [unfolded s1(5,6,8) N] by simp
qed

lemma should_delay_later: "should_delay now previous later \<Longrightarrow> later - now \<noteq> 0"
  by (auto simp: should_delay_def split: if_splits)

lemma delay_until_safe:
  assumes g: "kgood T idle s" and u: "uxSchedulerSuspended s = 0" and i: "legal_irqs w" "window_ticks w < 2 ^ 32"
    and c: "pxCurrentTCB s \<noteq> idle" and n: "inc \<noteq> 0"
  shows "\<exists>s'. xTaskDelayUntil w previous inc s = Some ((previous + inc, should_delay (xTickCount s) previous (previous + inc)), s')
    \<and> kgood T idle s' \<and> uxSchedulerSuspended s' = 0 \<and> elapsed (window_ticks w) {pxCurrentTCB s} s s'
    \<and> (if should_delay (xTickCount s) previous (previous + inc) \<and> window_ticks w < unat (previous + inc - xTickCount s)
       then delayed s' (pxCurrentTCB s) \<and> wake s' (pxCurrentTCB s) = previous + inc else ready s' (pxCurrentTCB s))"
proof -
  have i2: "list_all legal_irq (fst w)" "list_all legal_irq (snd w)" using i(1) by (simp_all add: legal_irqs_def)
  obtain s1 where s1: "interrupts (fst w) (vTaskSuspendAll s) = Some s1" "ksafe T idle s1" "elapsed 0 {} s s1" "ready s1 = ready s"
    "pxCurrentTCB s1 = pxCurrentTCB s" "xTickCount s1 = xTickCount s" "uxSchedulerSuspended s1 = 1"
    "xPendedTicks s1 = of_nat (sum_list (map irq_ticks (fst w)))"
    using enter_block_safe [OF g u i2(1)] by blast
  have c1: "pxCurrentTCB s1 \<noteq> idle" "ready s1 (pxCurrentTCB s1)" using c kgoodD(2) [OF g] by (simp_all add: s1(4,5))
  let ?should = "should_delay (xTickCount s) previous (previous + inc)" and ?n = "previous + inc - xTickCount s"
  note N = window_count [OF i(2)]
  show ?thesis
  proof (cases ?should)
    case True
    obtain t0 t1 y t2 s' where f: "prvAddCurrentTaskToDelayedList ?n False s1 = Some t0" "interrupts (snd w) t0 = Some t1"
      "xTaskResumeAll t1 = Some (y, t2)" "(if y then Some t2 else portYIELD t2) = Some s'" "kgood T idle s'" "uxSchedulerSuspended s' = 0"
      "elapsed (unat (xPendedTicks s1 + of_nat (sum_list (map irq_ticks (snd w))))) {pxCurrentTCB s1} s1 s'"
      "if unat (xPendedTicks s1 + of_nat (sum_list (map irq_ticks (snd w)))) < unat ?n
         then delayed s' (pxCurrentTCB s1) \<and> wake s' (pxCurrentTCB s1) = xTickCount s1 + ?n else ready s' (pxCurrentTCB s1)"
      using delayed_block_safe [OF s1(2,7) c1 should_delay_later [OF True] i2(2)] by blast
    have run: "xTaskDelayUntil w previous inc s = Some ((previous + inc, ?should), s')"
      using n s1(1,6,7) f(1-4) True by (simp add: xTaskDelayUntil_def Let_def)
    have "elapsed (0 + window_ticks w) {pxCurrentTCB s} s s'"
      by (rule elapsed_trans [OF elapsed_mono [OF s1(3)]]) (use f(7) in \<open>simp_all add: s1(5,8) N\<close>)
    then show ?thesis using run f(5,6) f(8) [unfolded s1(5,6,8) N] True by simp
  next
    case False
    obtain t1 y t2 s' where f: "interrupts (snd w) s1 = Some t1" "xTaskResumeAll t1 = Some (y, t2)" "(if y then Some t2 else portYIELD t2) = Some s'"
      "ksafe T idle s'" "elapsed (unat (xPendedTicks s1 + of_nat (sum_list (map irq_ticks (snd w))))) {} s1 s'" "uxSchedulerSuspended s' = 0"
      "xPendedTicks s' = 0" "runs_highest s'" "ready s' (pxCurrentTCB s')"
      using finish_block_safe [OF s1(2,7) i2(2)] by blast
    have run: "xTaskDelayUntil w previous inc s = Some ((previous + inc, ?should), s')"
      using n s1(1,6,7) f(1-3) False by (simp add: xTaskDelayUntil_def Let_def)
    have e: "elapsed (0 + window_ticks w) {} s s'"
      by (rule elapsed_trans [OF s1(3)]) (use f(5) in \<open>simp add: s1(8) N\<close>)
    then have "ready s' (pxCurrentTCB s)" using kgoodD(2) [OF g] by (simp add: elapsed_def)
    moreover have "elapsed (window_ticks w) {pxCurrentTCB s} s s'" using elapsed_mono [OF e, of "{pxCurrentTCB s}"] by simp
    ultimately show ?thesis using run f(4,6-9) False by (simp add: kgood_def)
  qed
qed

text \<open>On unbounded times: with the last wake time not in the future, the two tests decide whether the
  next one is, whatever has wrapped.\<close>

lemma should_delay_iff:
  assumes "P \<le> N" "N < P + 2 ^ 32" "I < 2 ^ 32"
  shows "should_delay (of_nat N) (of_nat P) (of_nat P + of_nat I) \<longleftrightarrow> N < P + I"
proof -
  obtain d where d: "N = P + d" using assms(1) le_Suc_ex by blast
  let ?p = "P mod 2 ^ 32"
  have p: "?p < 2 ^ 32" by simp
  have u: "unat (of_nat P + of_nat k :: u32) = (if ?p + k < 2 ^ 32 then ?p + k else ?p + k - 2 ^ 32)" if "k < 2 ^ 32" for k
  proof -
    have "unat (of_nat P + of_nat k :: u32) = (?p + k) mod 2 ^ 32"
      unfolding of_nat_add [symmetric] by (simp only: unat_of_nat) (simp add: take_bit_eq_mod mod_simps)
    also have "\<dots> = (if ?p + k < 2 ^ 32 then ?p + k else ?p + k - 2 ^ 32)"
    proof (cases "?p + k < 2 ^ 32")
      case False
      then have "(?p + k) mod 2 ^ 32 = (?p + k - 2 ^ 32) mod 2 ^ 32" by (simp add: le_mod_geq)
      also have "\<dots> = ?p + k - 2 ^ 32" using that p by (intro mod_less) linarith
      finally show ?thesis using False by simp
    qed simp
    finally show ?thesis .
  qed
  have uP: "unat (of_nat P :: u32) = ?p" by (simp add: unat_of_nat take_bit_eq_mod)
  have dd: "d < 2 ^ 32" using assms(2) d by simp
  show ?thesis
    unfolding should_delay_def d word_less_nat_alt of_nat_add u [OF dd] u [OF assms(3)] uP
    using p dd assms(3) by (auto split: if_splits)
qed

section \<open>Suspending and resuming tasks, priorities\<close>

lemma same_record: "s\<lparr>kl := l, uxTopReadyPriority := uxTopReadyPriority s\<rparr> = s\<lparr>kl := l\<rparr>" by simp

lemma yield_good:
  assumes g: "kbase T idle s" "timely s" "xSchedulerRunning s" "uxCurrentNumberOfTasks s \<noteq> 0"
    and r: "uxSchedulerSuspended s \<noteq> 0 \<Longrightarrow> ready s (pxCurrentTCB s)" and p: "uxSchedulerSuspended s = 0 \<Longrightarrow> xPendedTicks s = 0"
  shows "\<exists>s'. portYIELD s = Some s' \<and> kgood T idle s' \<and> elapsed 0 {} s s' \<and> uxSchedulerSuspended s' = uxSchedulerSuspended s \<and> xPendedTicks s' = xPendedTicks s"
proof -
  obtain s' where s': "portYIELD s = Some s'" "ksafe T idle s'" "elapsed 0 {} s s'" "uxSchedulerSuspended s' = uxSchedulerSuspended s"
    "xPendedTicks s' = xPendedTicks s" "if uxSchedulerSuspended s = 0 then ready s' (pxCurrentTCB s') \<and> runs_highest s' else pxCurrentTCB s' = pxCurrentTCB s"
    using yield_safe [OF g] by blast
  have "ready s' (pxCurrentTCB s')" using s'(3,6) r by (auto simp: elapsed_def split: if_splits)
  then show ?thesis using s' p by (auto simp: kgood_def)
qed

lemma yield_any_good:
  assumes g: "kbase T idle s" "timely s" "xSchedulerRunning s" "uxCurrentNumberOfTasks s \<noteq> 0" "ready s (pxCurrentTCB s)"
    and p: "uxSchedulerSuspended s = 0 \<Longrightarrow> xPendedTicks s = 0"
    and h: "uxPriority s t \<le> uxPriority s (pxCurrentTCB s) \<Longrightarrow> runs_highest s \<or> xYieldPendings s"
  shows "\<exists>s'. taskYIELD_ANY_CORE_IF_USING_PREEMPTION t s = Some s' \<and> kgood T idle s' \<and> elapsed 0 {} s s'
    \<and> uxSchedulerSuspended s' = uxSchedulerSuspended s \<and> xPendedTicks s' = xPendedTicks s"
proof (cases "uxPriority s (pxCurrentTCB s) < uxPriority s t")
  case True
  then show ?thesis using yield_good [OF g(1-4)] g(5) p current_priority_eq [OF g(1)] by (simp add: taskYIELD_ANY_CORE_IF_USING_PREEMPTION_def)
next
  case False
  then have "ksafe T idle s" using g h by (simp add: ksafe_def not_less)
  then show ?thesis using False g p current_priority_eq [OF g(1)] elapsed_refl [OF g(2)]
    by (simp add: taskYIELD_ANY_CORE_IF_USING_PREEMPTION_def kgood_def)
qed

lemma resume_good:
  assumes g: "kgood T idle s" and t: "t \<noteq> NULL"
  shows "\<exists>s'. vTaskResume t s = Some s' \<and> kgood T idle s' \<and> elapsed 0 {} s s' \<and> uxSchedulerSuspended s' = uxSchedulerSuspended s \<and> xPendedTicks s' = xPendedTicks s"
proof (cases "t \<noteq> pxCurrentTCB s \<and> prvTaskIsTaskSuspended t s = Some True")
  case False
  then have "vTaskResume t s = Some s" using t by (auto simp: vTaskResume_def task_suspended_eq)
  then show ?thesis using g elapsed_refl [OF ksafeD(2) [OF kgoodD(1) [OF g]]] by simp
next
  case True
  then have st: "state_of s t = Some xSuspendedTaskList" "event_of s t = None" using t by (simp_all add: task_suspended_eq)
  note k = kgoodD(1) [OF g]
  note b = ksafeD(1) [OF k] and tm = ksafeD(2) [OF k]
  obtain q l where q: "list_remove (xStateListItem t) s = Some q"
    "prvAddTaskToReadyList t q = s\<lparr>kl := l, uxTopReadyPriority := max (uxTopReadyPriority s) (uxPriority s t)\<rparr>"
    and l: "pxContainer l = (pxContainer (kl s))(xStateListItem t := Some (pxReadyTasksLists (uxPriority s t)), xEventListItem t := None)"
    "xItemValue l = xItemValue (kl s)" "kbase T idle (s\<lparr>kl := l, uxTopReadyPriority := max (uxTopReadyPriority s) (uxPriority s t)\<rparr>)"
    by (rule resume_ready [OF b st]) (rule that)
  let ?s = "s\<lparr>kl := l, uxTopReadyPriority := max (uxTopReadyPriority s) (uxPriority s t)\<rparr>"
  note r = readied_safe [OF b tm st(1) l(1,2)]
  have rc: "ready ?s (pxCurrentTCB ?s)" using kgoodD(2) [OF g] by (simp add: r(3))
  have h: "runs_highest ?s \<or> xYieldPendings ?s" if "uxPriority ?s t \<le> uxPriority ?s (pxCurrentTCB ?s)"
    using ksafeD(3) [OF k] that unfolding runs_highest_def r(3) by auto
  obtain s' where s': "taskYIELD_ANY_CORE_IF_USING_PREEMPTION t ?s = Some s'" "kgood T idle s'" "elapsed 0 {} ?s s'"
    "uxSchedulerSuspended s' = uxSchedulerSuspended ?s" "xPendedTicks s' = xPendedTicks ?s"
    using yield_any_good [OF l(3) r(1) _ _ rc _ h] ksafeD(4,5) [OF k] kgoodD(3) [OF g] by auto
  have "elapsed 0 {} s s'" using elapsed_trans [OF r(2) s'(3)] by simp
  then show ?thesis using True t q s' by (simp add: vTaskResume_def)
qed

lemma suspend_good:
  assumes g: "kgood T idle s" and t: "prvGetTCBFromHandle h s \<in> T" "prvGetTCBFromHandle h s \<noteq> idle"
    and u: "prvGetTCBFromHandle h s = pxCurrentTCB s \<Longrightarrow> uxSchedulerSuspended s = 0"
  shows "\<exists>s'. vTaskSuspend h s = Some s' \<and> kgood T idle s' \<and> elapsed 0 {prvGetTCBFromHandle h s} s s'
    \<and> uxSchedulerSuspended s' = uxSchedulerSuspended s \<and> xPendedTicks s' = xPendedTicks s"
proof -
  define v where "v = prvGetTCBFromHandle h s"
  note k = kgoodD(1) [OF g]
  note b = ksafeD(1) [OF k] and tm = ksafeD(2) [OF k]
  have vT: "v \<in> T" using t(1) by (simp add: v_def)
  note tt = kbase_tasks [OF b vT]
  obtain k0 where k0: "state_of s v = Some k0" using tt by auto
  have dl: "pxDelayedTaskList s \<in> delayed_lists" "pxOverflowDelayedTaskList s \<in> delayed_lists" using kbase_delayed [OF b] by simp_all
  have nd: "xSuspendedTaskList \<noteq> pxDelayedTaskList s" "xSuspendedTaskList \<noteq> pxOverflowDelayedTaskList s" using dl by (auto simp: delayed_lists_def)
  obtain l1 where l1: "list_remove (xStateListItem v) s = Some (s\<lparr>kl := l1\<rparr>)" "lists_ok l1"
    "pxContainer l1 = (pxContainer (kl s))(xStateListItem v := None)" "xItemValue l1 = xItemValue (kl s)" "pvOwner l1 = pvOwner (kl s)"
    by (rule list_remove_ok [OF kbase_lists [OF b] k0])
  obtain l2 where l2: "(if pxContainer (kl (s\<lparr>kl := l1\<rparr>)) (xEventListItem v) \<noteq> None then list_remove (xEventListItem v) (s\<lparr>kl := l1\<rparr>) else Some (s\<lparr>kl := l1\<rparr>))
      = Some (s\<lparr>kl := l1\<rparr>\<lparr>kl := l2\<rparr>)" "lists_ok l2" "pxContainer l2 = (pxContainer (kl (s\<lparr>kl := l1\<rparr>)))(xEventListItem v := None)"
    "xItemValue l2 = xItemValue (kl (s\<lparr>kl := l1\<rparr>))" "pvOwner l2 = pvOwner (kl (s\<lparr>kl := l1\<rparr>))"
    by (rule list_remove_if_ok [of "s\<lparr>kl := l1\<rparr>" "xEventListItem v"]) (use l1(2) in simp_all)
  let ?l = "vListInsertEnd xSuspendedTaskList (xStateListItem v) l2"
  have ok: "lists_ok ?l" by (rule insert_end_ok [OF l2(2)]) (use tt in \<open>simp_all add: l2 l1 fits_def\<close>)
  have c: "pxContainer ?l = (pxContainer (kl s))(xStateListItem v := Some xSuspendedTaskList, xEventListItem v := None)"
    by (auto simp: l2 l1 fun_eq_iff)
  have "kbase T idle (s\<lparr>kl := ?l, uxTopReadyPriority := uxTopReadyPriority s\<rparr>)"
    by (rule kbase_move [OF b vT ok c]) (use t(2) kbaseD(5) [OF b] in \<open>simp_all add: l2 l1 v_def\<close>)
  then have b1: "kbase T idle (s\<lparr>kl := ?l\<rparr>)" by (simp only: same_record)
  define s2 where "s2 = (if ucNotifyState s v = taskWAITING_NOTIFICATION then s\<lparr>kl := ?l, ucNotifyState := (ucNotifyState s)(v := taskNOT_WAITING_NOTIFICATION)\<rparr> else s\<lparr>kl := ?l\<rparr>)"
  have s2: "kbase T idle s2" "kl s2 = ?l" "pxDelayedTaskList s2 = pxDelayedTaskList s" "pxOverflowDelayedTaskList s2 = pxOverflowDelayedTaskList s"
    "xTickCount s2 = xTickCount s" "uxPriority s2 = uxPriority s" "pxCurrentTCB s2 = pxCurrentTCB s" "xSchedulerRunning s2"
    "uxCurrentNumberOfTasks s2 \<noteq> 0" "uxSchedulerSuspended s2 = uxSchedulerSuspended s" "xPendedTicks s2 = xPendedTicks s" "xYieldPendings s2 = xYieldPendings s"
    "xNextTaskUnblockTime s2 = xNextTaskUnblockTime s"
    using b1 ksafeD(4,5) [OF k] by (simp_all add: s2_def)
  have st: "state_of s2 x = (if x = v then Some xSuspendedTaskList else state_of s x)" "wake s2 x = wake s x" for x
    by (simp_all add: s2(2) l2(3,4) l1(3,4))
  obtain m where m: "prvResetNextTaskUnblockTime s2 = s2\<lparr>xNextTaskUnblockTime := m\<rparr>" "timely (s2\<lparr>xNextTaskUnblockTime := m\<rparr>)"
  proof -
    have "xTickCount s2 < wake s2 x" if "state_of s2 x = Some (pxDelayedTaskList s2)" for x
      using that tm nd unfolding st s2(3-5) by (auto simp: timely_def split: if_splits)
    moreover have "wake s2 x < xTickCount s2" if "state_of s2 x = Some (pxOverflowDelayedTaskList s2)" for x
      using that tm nd unfolding st s2(3-5) by (auto simp: timely_def split: if_splits)
    ultimately show thesis using reset_unblock_ok [OF s2(1)] that by blast
  qed
  let ?s3 = "s2\<lparr>xNextTaskUnblockTime := m\<rparr>"
  have b3: "kbase T idle ?s3" using s2(1) by simp
  have rd: "ready s2 x \<longleftrightarrow> ready s x \<and> x \<noteq> v" for x by (auto simp: ready_def st(1) s2(6) split: if_splits)
  have e3: "elapsed 0 {v} s ?s3"
  proof (rule elapsed_none [OF tm])
    fix x assume "x \<notin> {v}" "delayed s x"
    then show "delayed ?s3 x \<and> wake ?s3 x = wake s x" using st [of x] by (simp add: delayed_def s2(3,4))
  qed (use rd in \<open>simp_all add: s2(5)\<close>)
  have run: "vTaskSuspend h s = (if v = pxCurrentTCB s then portYIELD ?s3 else Some ?s3)"
  proof -
    have f: "(if event_of (s\<lparr>kl := l1\<rparr>) v \<noteq> None then list_remove (xEventListItem v) (s\<lparr>kl := l1\<rparr>) else Some (s\<lparr>kl := l1\<rparr>)) = Some (s\<lparr>kl := l2\<rparr>)"
      using l2(1) by simp
    have "vTaskSuspend h s = (let s = s2 in let s = (if xSchedulerRunning s then prvResetNextTaskUnblockTime s else s) in
      if v = pxCurrentTCB s then
        if xSchedulerRunning s then (if uxSchedulerSuspended s = 0 then portYIELD s else None)
        else if listCURRENT_LIST_LENGTH xSuspendedTaskList (kl s) = uxCurrentNumberOfTasks s then Some (s\<lparr>pxCurrentTCB := NULL\<rparr>)
        else vTaskSwitchContext s
      else Some s)"
      unfolding vTaskSuspend_def v_def [symmetric] Let_def l1(1) bind.bind_lunit f s2_def
      by (cases "ucNotifyState s v = taskWAITING_NOTIFICATION") simp_all
    then show ?thesis using m(1) s2(7,8,10) u by (auto simp: Let_def v_def)
  qed
  show ?thesis
  proof (cases "v = pxCurrentTCB s")
    case True
    obtain s' where s': "portYIELD ?s3 = Some s'" "kgood T idle s'" "elapsed 0 {} ?s3 s'" "uxSchedulerSuspended s' = uxSchedulerSuspended ?s3"
      "xPendedTicks s' = xPendedTicks ?s3"
      using yield_good [OF b3 m(2)] s2(8-11) u True kgoodD(3) [OF g] by (auto simp: v_def)
    have "elapsed 0 {v} ?s3 s'" by (rule elapsed_mono [OF s'(3)]) simp
    then have "elapsed 0 {v} s s'" using elapsed_trans [OF e3] by fastforce
    then show ?thesis using run True s' s2(10,11) by (simp add: v_def)
  next
    case False
    have "runs_highest ?s3 \<or> xYieldPendings ?s3" using ksafeD(3) [OF k] by (auto simp: runs_highest_def rd s2(6,7,12))
    then have "kgood T idle ?s3" using b3 m(2) s2(7-11) rd False kgoodD(2,3) [OF g] by (simp add: kgood_def ksafe_def)
    then show ?thesis using run False e3 s2(10,11) by (simp add: v_def)
  qed
qed

lemma event_value_set:
  assumes "lists_ok l"
  shows "lists_ok (listSET_LIST_ITEM_VALUE (xEventListItem t) v l)" "item_value (listSET_LIST_ITEM_VALUE (xEventListItem t) v l) (xStateListItem u) = item_value l (xStateListItem u)"
proof -
  show "lists_ok (listSET_LIST_ITEM_VALUE (xEventListItem t) v l)"
    by (rule set_value_ok [OF assms]) (use lists_ok_item [OF assms] in \<open>fastforce simp: fits_def delayed_lists_def split: if_splits\<close>)
qed (simp add: listSET_LIST_ITEM_VALUE_def)

text \<open>A task of a new priority, moved to its list when it is ready.\<close>

lemma kbase_priority:
  assumes b: "kbase T idle s" and t: "t \<in> T" and p: "p < configMAX_PRIORITIES" and l: "lists_ok l" and o: "pvOwner l = pvOwner (kl s)"
    and c: "pxContainer l = (if ready s t then (pxContainer (kl s))(xStateListItem t := Some (pxReadyTasksLists p)) else pxContainer (kl s))"
    and m: "uxTopReadyPriority s \<le> m" "m < configMAX_PRIORITIES" "ready s t \<Longrightarrow> p \<le> m"
  shows "kbase T idle (s\<lparr>kl := l, uxPriority := (uxPriority s)(t := p), uxTopReadyPriority := m\<rparr>)" (is "kbase T idle ?s")
proof -
  note d = kbaseD [OF b]
  have st: "state_of ?s x = (if x = t \<and> ready s t then Some (pxReadyTasksLists p) else state_of s x)" "event_of ?s x = event_of s x" for x
    by (auto simp: c)
  show ?thesis
  proof (rule kbaseI)
    fix x assume "x \<in> T"
    then show "x \<noteq> NULL \<and> pvOwner (kl ?s) (xStateListItem x) = x \<and> pvOwner (kl ?s) (xEventListItem x) = x
      \<and> stack_low ?s x = replicate 4 0xa5a5a5a5 \<and> uxPriority ?s x < configMAX_PRIORITIES \<and> state_of ?s x \<noteq> None"
      using kbase_tasks [OF b, of x] p unfolding st by (auto simp: o)
  next
    fix x q assume x: "state_of ?s x = Some (pxReadyTasksLists q)"
    show "q = uxPriority ?s x \<and> q \<le> uxTopReadyPriority ?s"
    proof (cases "x = t")
      case True
      have "ready s t" using x True kbase_ready [OF b, of t q] unfolding st by (auto simp: ready_def split: if_splits)
      then show ?thesis using x True m(3) unfolding st by auto
    next
      case False
      then have "q = uxPriority s x \<and> q \<le> uxTopReadyPriority s" using kbase_ready [OF b] x unfolding st by simp
      then show ?thesis using False m(1) by auto
    qed
  next
    show "state_of ?s x = Some k \<Longrightarrow> x \<in> T" for x k using d(3) t unfolding st by (auto split: if_splits)
    show "event_of ?s x = Some k \<Longrightarrow> state_of ?s x = Some xSuspendedTaskList" for x k
      using kbase_event [OF b, of x k] unfolding st by (auto simp: ready_def)
    show "state_of ?s idle = Some (pxReadyTasksLists (uxPriority ?s idle))" using d(9) unfolding st by (auto simp: ready_def)
  qed (use l m(2) d(7,8,10) in simp_all)
qed

lemma priority_good:
  assumes g: "kgood T idle s" and t: "prvGetTCBFromHandle h s \<in> T" and p: "p < configMAX_PRIORITIES"
  shows "\<exists>s'. vTaskPrioritySet h p s = Some s' \<and> kgood T idle s' \<and> elapsed 0 {} s s'
    \<and> uxSchedulerSuspended s' = uxSchedulerSuspended s \<and> xPendedTicks s' = xPendedTicks s"
proof -
  define v where "v = prvGetTCBFromHandle h s"
  note k = kgoodD(1) [OF g]
  note b = ksafeD(1) [OF k] and tm = ksafeD(2) [OF k]
  have vT: "v \<in> T" using t(1) by (simp add: v_def)
  note tt = kbase_tasks [OF b vT]
  show ?thesis
  proof (cases "uxPriority s v = p")
    case True
    then have "vTaskPrioritySet h p s = Some s" using p tt by (simp add: vTaskPrioritySet_def Let_def v_def [symmetric])
    then show ?thesis using g elapsed_refl [OF tm] by simp
  next
    case False
    define l0 where "l0 = (if xItemValue (kl s) (Item (xEventListItem v)) AND taskEVENT_LIST_ITEM_VALUE_IN_USE = 0
        then listSET_LIST_ITEM_VALUE (xEventListItem v) (configMAX_PRIORITIES - p) (kl s) else kl s)"
    have l0: "lists_ok l0" "pxContainer l0 = pxContainer (kl s)" "pvOwner l0 = pvOwner (kl s)" "\<And>u. item_value l0 (xStateListItem u) = wake s u"
      using event_value_set [OF kbase_lists [OF b]] kbase_lists [OF b] by (simp_all add: l0_def)
    define m where "m = (if ready s v then max (uxTopReadyPriority s) p else uxTopReadyPriority s)"
    let ?u = "(uxPriority s)(v := p)"
    let ?s1 = "s\<lparr>kl := l0, uxPriority := ?u\<rparr>"
    obtain l where l: "(if listIS_CONTAINED_WITHIN (pxReadyTasksLists (uxPriority s v)) (xStateListItem v) l0
        then list_remove (xStateListItem v) ?s1 \<bind> (\<lambda>s. Some (prvAddTaskToReadyList v s)) else Some ?s1) = Some (s\<lparr>kl := l, uxPriority := ?u, uxTopReadyPriority := m\<rparr>)"
      "lists_ok l" "pxContainer l = (if ready s v then (pxContainer (kl s))(xStateListItem v := Some (pxReadyTasksLists p)) else pxContainer (kl s))"
      "pvOwner l = pvOwner (kl s)" "\<And>u. item_value l (xStateListItem u) = wake s u"
    proof (cases "ready s v")
      case True
      then have c0: "pxContainer (kl ?s1) (xStateListItem v) = Some (pxReadyTasksLists (uxPriority s v))" using l0(2) by (simp add: ready_def)
      have ok1: "lists_ok (kl ?s1)" using l0(1) by simp
      obtain l1 where l1: "list_remove (xStateListItem v) ?s1 = Some (?s1\<lparr>kl := l1\<rparr>)" "lists_ok l1"
        "pxContainer l1 = (pxContainer (kl ?s1))(xStateListItem v := None)" "xItemValue l1 = xItemValue (kl ?s1)" "pvOwner l1 = pvOwner (kl ?s1)"
        by (rule list_remove_ok [OF ok1 c0])
      let ?l = "vListInsertEnd (pxReadyTasksLists p) (xStateListItem v) l1"
      have "lists_ok ?l" by (rule insert_end_ok [OF l1(2)]) (use tt p l0(3) in \<open>simp_all add: l1 fits_def\<close>)
      then show thesis
        by (rule that [of ?l, rotated]) (use True c0 l1 l0 in \<open>auto simp: listIS_CONTAINED_WITHIN_def add_ready_eq m_def fun_eq_iff\<close>)
    next
      case False
      then have "\<not> listIS_CONTAINED_WITHIN (pxReadyTasksLists (uxPriority s v)) (xStateListItem v) l0"
        by (simp add: listIS_CONTAINED_WITHIN_def ready_def l0(2))
      then show thesis using that [of l0] False l0 by (simp add: m_def)
    qed
    let ?s = "s\<lparr>kl := l, uxPriority := ?u, uxTopReadyPriority := m\<rparr>"
    have b2: "kbase T idle ?s"
      by (rule kbase_priority [OF b vT p l(2,4,3)]) (use p kbaseD(5) [OF b] in \<open>simp_all add: m_def\<close>)
    have st: "state_of ?s x = (if x = v \<and> ready s v then Some (pxReadyTasksLists p) else state_of s x)" for x by (auto simp: l(3))
    have nd: "pxReadyTasksLists q \<noteq> pxDelayedTaskList s" "pxReadyTasksLists q \<noteq> pxOverflowDelayedTaskList s" for q
      using kbase_delayed [OF b] by (auto simp: delayed_lists_def)
    have rd: "ready ?s x \<longleftrightarrow> ready s x" for x using kbase_ready [OF b, of x] unfolding ready_def st by (auto simp: ready_def)
    have de: "delayed ?s x \<longleftrightarrow> delayed s x" for x using nd unfolding delayed_def st by (auto simp: ready_def)
    have tm2: "timely ?s" using tm nd unfolding timely_def st by (auto simp: l(5) split: if_splits)
    have e2: "elapsed 0 {} s ?s" by (rule elapsed_none [OF tm]) (simp_all add: rd de l(5))
    have rc: "ready ?s (pxCurrentTCB ?s)" using kgoodD(2) [OF g] by (simp add: rd)
    define y where "y = (if p > uxPriority s v then v \<noteq> pxCurrentTCB s \<and> p > uxPriority s (pxCurrentTCB s) else v = pxCurrentTCB s)"
    have run: "vTaskPrioritySet h p s = (if y then portYIELD ?s else Some ?s)"
    proof -
      have f: "(if listIS_CONTAINED_WITHIN (pxReadyTasksLists (uxPriority s v)) (xStateListItem v) (kl ?s1)
        then list_remove (xStateListItem v) ?s1 \<bind> (\<lambda>s. Some (prvAddTaskToReadyList v s)) else Some ?s1) = Some ?s" using l(1) by simp
      have s1: "(if xItemValue (kl (s\<lparr>uxPriority := ?u\<rparr>)) (Item (xEventListItem v)) AND taskEVENT_LIST_ITEM_VALUE_IN_USE = 0
          then (s\<lparr>uxPriority := ?u\<rparr>)\<lparr>kl := listSET_LIST_ITEM_VALUE (xEventListItem v) (configMAX_PRIORITIES - p) (kl (s\<lparr>uxPriority := ?u\<rparr>))\<rparr>
          else s\<lparr>uxPriority := ?u\<rparr>) = ?s1" by (simp add: l0_def)
      have y: "(if p > uxPriority s v then (if v \<noteq> pxCurrentTCB s then current_priority s \<bind> (\<lambda>q. Some (p > q)) else Some False) else Some (v = pxCurrentTCB s)) = Some y"
        using current_priority_eq [OF b] by (simp add: y_def)
      have "vTaskPrioritySet h p s = (if listIS_CONTAINED_WITHIN (pxReadyTasksLists (uxPriority s v)) (xStateListItem v) (kl ?s1)
          then list_remove (xStateListItem v) ?s1 \<bind> (\<lambda>s. Some (prvAddTaskToReadyList v s)) else Some ?s1) \<bind> (\<lambda>s. if y then portYIELD s else Some s)"
        using p False tt unfolding vTaskPrioritySet_def v_def [symmetric] Let_def y s1 bind.bind_lunit by simp
      then show ?thesis unfolding f bind.bind_lunit .
    qed
    show ?thesis
    proof (cases y)
      case True
      obtain s' where s': "portYIELD ?s = Some s'" "kgood T idle s'" "elapsed 0 {} ?s s'" "uxSchedulerSuspended s' = uxSchedulerSuspended ?s"
        "xPendedTicks s' = xPendedTicks ?s"
        using yield_good [OF b2 tm2 _ _ rc] ksafeD(4,5) [OF k] kgoodD(3) [OF g] by auto
      have "elapsed 0 {} s s'" using elapsed_trans [OF e2 s'(3)] by simp
      then show ?thesis using run True s' by simp
    next
      case False
      have "runs_highest ?s \<or> xYieldPendings ?s"
      proof (cases "xYieldPendings s")
        case np: False
        then have hi: "\<And>x. ready s x \<Longrightarrow> uxPriority s x \<le> uxPriority s (pxCurrentTCB s)" using ksafeD(3) [OF k] by (auto simp: runs_highest_def)
        have "?u x \<le> ?u (pxCurrentTCB s)" if "ready s x" for x
          using hi [OF that] False \<open>uxPriority s v \<noteq> p\<close> unfolding y_def by (auto split: if_splits)
        then show ?thesis by (simp add: runs_highest_def rd)
      qed simp
      then have "kgood T idle ?s" using b2 tm2 rc ksafeD(4,5) [OF k] kgoodD(3) [OF g] by (simp add: kgood_def ksafe_def)
      then show ?thesis using run False e2 by simp
    qed
  qed
qed

section \<open>Creating tasks\<close>

lemma set_owner_ok:
  assumes ok: "lists_ok l" and i: "pxContainer l i = None"
  shows "lists_ok (listSET_LIST_ITEM_OWNER i x l)"
proof -
  have "ring (listSET_LIST_ITEM_OWNER i x l) k ys m = ring l k ys m" for k ys m by (simp add: ring_def listSET_LIST_ITEM_OWNER_def)
  moreover have "item_value (listSET_LIST_ITEM_OWNER i x l) = item_value l" by (simp add: listSET_LIST_ITEM_OWNER_def)
  moreover have "pxContainer (listSET_LIST_ITEM_OWNER i x l) = pxContainer l" by (simp add: listSET_LIST_ITEM_OWNER_def)
  moreover have "pvOwner (listSET_LIST_ITEM_OWNER i x l) k = pvOwner l k" if "pxContainer l k \<noteq> None" for k
    using that i by (auto simp: listSET_LIST_ITEM_OWNER_def)
  ultimately show ?thesis using ok unfolding lists_ok_def by (metis option.distinct(1))
qed

lemma initialise_item_id: "pxContainer l i = None \<Longrightarrow> vListInitialiseItem i l = l"
  by (simp add: vListInitialiseItem_def fun_upd_idem)

text \<open>The lists after \<open>prvInitialiseNewTask\<close>: only the owners and the event value of the new task changed.\<close>

definition new_items :: "tcb \<Rightarrow> u32 \<Rightarrow> (klist, kitem, tcb) lists \<Rightarrow> (klist, kitem, tcb) lists" where
  "new_items t p l = listSET_LIST_ITEM_OWNER (xEventListItem t) t (listSET_LIST_ITEM_VALUE (xEventListItem t) (configMAX_PRIORITIES - p)
     (listSET_LIST_ITEM_OWNER (xStateListItem t) t l))"

lemma new_items_frame [simp]: "pxContainer (new_items t p l) = pxContainer l"
  "pvOwner (new_items t p l) = (pvOwner l)(xStateListItem t := t, xEventListItem t := t)"
  "item_value (new_items t p l) (xStateListItem u) = item_value l (xStateListItem u)"
  by (simp_all add: new_items_def listSET_LIST_ITEM_OWNER_def listSET_LIST_ITEM_VALUE_def)

lemma new_items_ok:
  assumes "lists_ok l" "pxContainer l (xStateListItem t) = None" "pxContainer l (xEventListItem t) = None"
  shows "lists_ok (new_items t p l)"
proof -
  have a: "lists_ok (listSET_LIST_ITEM_OWNER (xStateListItem t) t l)" by (rule set_owner_ok [OF assms(1,2)])
  have c: "pxContainer (listSET_LIST_ITEM_OWNER (xStateListItem t) t l) = pxContainer l" by (simp add: listSET_LIST_ITEM_OWNER_def)
  have d: "lists_ok (listSET_LIST_ITEM_VALUE (xEventListItem t) (configMAX_PRIORITIES - p) (listSET_LIST_ITEM_OWNER (xStateListItem t) t l))"
    by (rule set_value_ok [OF a]) (simp add: c assms(3))
  show ?thesis unfolding new_items_def by (rule set_owner_ok [OF d]) (simp add: c assms(3))
qed

text \<open>The fields of a new TCB.\<close>

definition new_tcb :: "u8 list \<Rightarrow> u32 \<Rightarrow> tcb \<Rightarrow> kernel \<Rightarrow> kernel" where
  "new_tcb name p t s = s\<lparr>ucNotifyState := (ucNotifyState s)(t := taskNOT_WAITING_NOTIFICATION), stack_low := (stack_low s)(t := replicate 4 0xa5a5a5a5),
     pcTaskName := (pcTaskName s)(t := (copy_name name (replicate 8 0))[7 := 0]), uxPriority := (uxPriority s)(t := p), kl := new_items t p (kl s)\<rparr>"

lemma initialise_new_task:
  assumes "pxContainer (kl s) (xStateListItem t) = None" "pxContainer (kl s) (xEventListItem t) = None" "p < configMAX_PRIORITIES"
  shows "create_task name p t s = prvAddNewTaskToReadyList t (new_tcb name p t s)"
  using assms by (simp add: create_task_def prvInitialiseNewTask_def Let_def new_tcb_def new_items_def configMAX_TASK_NAME_LEN_def initialise_item_id)

lemma kbase_new:
  fixes name :: "u8 list" and n k :: u32
  assumes b: "kbase T idle s" and t: "t \<notin> T" "t \<noteq> NULL" and p: "p < configMAX_PRIORITIES" and c: "c \<in> insert t T"
  defines "s1 \<equiv> new_tcb name p t s"
  defines "s' \<equiv> prvAddTaskToReadyList t (s1\<lparr>uxCurrentNumberOfTasks := n, pxCurrentTCB := c, uxTaskNumber := k\<rparr>)"
  shows "kbase (insert t T) idle s'" "\<And>x. ready s' x \<longleftrightarrow> ready s x \<or> x = t" "timely s \<Longrightarrow> timely s'" "timely s \<Longrightarrow> elapsed 0 {} s s'"
    "s' = s'\<lparr>pxCurrentTCB := c, uxCurrentNumberOfTasks := n\<rparr>" "uxPriority s' = (uxPriority s)(t := p)"
    "xYieldPendings s' = xYieldPendings s" "uxSchedulerSuspended s' = uxSchedulerSuspended s" "xPendedTicks s' = xPendedTicks s"
    "xSchedulerRunning s' = xSchedulerRunning s" "xTickCount s' = xTickCount s" "\<And>x. x \<noteq> t \<Longrightarrow> state_of s' x = state_of s x"
    "pxDelayedTaskList s' = pxDelayedTaskList s" "pxOverflowDelayedTaskList s' = pxOverflowDelayedTaskList s"
proof -
  note d = kbaseD [OF b]
  have none: "state_of s t = None" "event_of s t = None"
    using kbase_state [OF b, of t] t(1) kbase_event [OF b, of t] by (cases "state_of s t"; cases "event_of s t"; auto)+
  have nid: "t \<noteq> idle" using d(8) t(1) by auto
  let ?l = "vListInsertEnd (pxReadyTasksLists p) (xStateListItem t) (new_items t p (kl s))"
  have ok: "lists_ok ?l"
    by (rule insert_end_ok [OF new_items_ok [OF d(1) none]]) (use t(2) p none in \<open>simp_all add: fits_def\<close>)
  have e: "s' = s\<lparr>kl := ?l, uxPriority := (uxPriority s)(t := p),
     pcTaskName := (pcTaskName s)(t := (copy_name name (replicate 8 0))[7 := 0]),
     ucNotifyState := (ucNotifyState s)(t := taskNOT_WAITING_NOTIFICATION), stack_low := (stack_low s)(t := replicate 4 0xa5a5a5a5),
     pxCurrentTCB := c, uxCurrentNumberOfTasks := n, uxTopReadyPriority := max (uxTopReadyPriority s) p, uxTaskNumber := k\<rparr>"
    by (simp add: s'_def s1_def new_tcb_def add_ready_eq)
  have st: "state_of s' x = (if x = t then Some (pxReadyTasksLists p) else state_of s x)" "event_of s' x = event_of s x" for x by (simp_all add: e)
  have wk: "wake s' x = wake s x" for x by (simp add: e)
  show "kbase (insert t T) idle s'"
  proof (rule kbaseI)
    show "lists_ok (kl s')" using ok by (simp add: e)
    show "x \<in> insert t T \<Longrightarrow> x \<noteq> NULL \<and> pvOwner (kl s') (xStateListItem x) = x \<and> pvOwner (kl s') (xEventListItem x) = x
      \<and> stack_low s' x = replicate 4 0xa5a5a5a5 \<and> uxPriority s' x < configMAX_PRIORITIES \<and> state_of s' x \<noteq> None" for x
      using kbase_tasks [OF b, of x] t(2) p by (cases "x = t") (simp_all add: e)
    show "state_of s' x = Some l \<Longrightarrow> x \<in> insert t T" for x l using d(3) unfolding st by (auto split: if_splits)
    show "state_of s' x = Some (pxReadyTasksLists q) \<Longrightarrow> q = uxPriority s' x \<and> q \<le> uxTopReadyPriority s'" for x q
      using kbase_ready [OF b, of x q] unfolding st by (cases "x = t") (auto simp: e max_def)
    show "event_of s' x = Some l \<Longrightarrow> state_of s' x = Some xSuspendedTaskList" for x l
      using kbase_event [OF b, of x l] none(2) unfolding st by auto
    show "state_of s' idle = Some (pxReadyTasksLists (uxPriority s' idle))" using d(9) nid unfolding st by (simp add: e)
    show "pxCurrentTCB s' \<in> insert t T" using c by (simp add: e)
  qed (use d(5,7,8) p in \<open>simp_all add: e max_def\<close>)
  have nd: "pxReadyTasksLists q \<noteq> pxDelayedTaskList s" "pxReadyTasksLists q \<noteq> pxOverflowDelayedTaskList s" for q
    using kbase_delayed [OF b] by (auto simp: delayed_lists_def)
  show rd: "ready s' x \<longleftrightarrow> ready s x \<or> x = t" for x unfolding ready_def st by (auto simp: e)
  show tm: "timely s \<Longrightarrow> timely s'" using nd unfolding timely_def st wk by (auto simp: e split: if_splits)
  show "elapsed 0 {} s s'" if "timely s"
  proof (rule elapsed_none [OF that])
    fix x assume "delayed s x"
    then show "delayed s' x \<and> wake s' x = wake s x" using none unfolding delayed_def st wk by (auto simp: e)
  qed (use rd in \<open>simp_all add: e\<close>)
qed (simp_all add: s'_def s1_def new_tcb_def add_ready_eq)

lemma create_good:
  assumes g: "kgood T idle s" and t: "t \<notin> T" "t \<noteq> NULL" and p: "p < configMAX_PRIORITIES" and n: "uxCurrentNumberOfTasks s + 1 \<noteq> 0"
  shows "\<exists>s'. create_task name p t s = Some s' \<and> kgood (insert t T) idle s' \<and> elapsed 0 {} s s'
    \<and> uxSchedulerSuspended s' = uxSchedulerSuspended s \<and> xPendedTicks s' = xPendedTicks s"
proof -
  note k = kgoodD(1) [OF g]
  note b = ksafeD(1) [OF k] and tm = ksafeD(2) [OF k]
  have none: "state_of s t = None" "event_of s t = None"
    using kbase_state [OF b, of t] t(1) kbase_event [OF b, of t] by (cases "state_of s t"; cases "event_of s t"; auto)+
  have cT: "pxCurrentTCB s \<in> insert t T" "pxCurrentTCB s \<noteq> NULL" "pxCurrentTCB s \<noteq> t" using kbase_tasks [OF b] kbase_current [OF b] t(1) by auto
  define s' where "s' = prvAddTaskToReadyList t ((new_tcb name p t s)\<lparr>uxCurrentNumberOfTasks := uxCurrentNumberOfTasks s + 1, pxCurrentTCB := pxCurrentTCB s, uxTaskNumber := uxTaskNumber s + 1\<rparr>)"
  note f = kbase_new [OF b t p cT(1), where name = name and n = "uxCurrentNumberOfTasks s + 1" and k = "uxTaskNumber s + 1", folded s'_def]
  have cur: "pxCurrentTCB s' = pxCurrentTCB s" "uxCurrentNumberOfTasks s' = uxCurrentNumberOfTasks s + 1" by (subst f(5), simp)+
  have run: "create_task name p t s = taskYIELD_ANY_CORE_IF_USING_PREEMPTION t s'"
    using cT(2) ksafeD(4) [OF k] unfolding initialise_new_task [OF none p]
    by (simp add: prvAddNewTaskToReadyList_def Let_def s'_def new_tcb_def add_ready_eq)
  have rc: "ready s' (pxCurrentTCB s')" using kgoodD(2) [OF g] by (simp add: f(2) cur)
  have h: "runs_highest s' \<or> xYieldPendings s'" if "uxPriority s' t \<le> uxPriority s' (pxCurrentTCB s')"
    using ksafeD(3) [OF k] that cT(3) unfolding runs_highest_def f(2,6,7) cur by (auto)
  obtain s2 where s2: "taskYIELD_ANY_CORE_IF_USING_PREEMPTION t s' = Some s2" "kgood (insert t T) idle s2" "elapsed 0 {} s' s2"
    "uxSchedulerSuspended s2 = uxSchedulerSuspended s'" "xPendedTicks s2 = xPendedTicks s'"
    using yield_any_good [OF f(1) f(3) [OF tm] _ _ rc _ h] ksafeD(4) [OF k] n kgoodD(3) [OF g] by (auto simp: f(8-10) cur)
  have "elapsed 0 {} s s2" using elapsed_trans [OF f(4) [OF tm] s2(3)] by simp
  then show ?thesis using run s2 by (simp add: f(8,9))
qed

end
