(* ===== verification/Freertos_Runs.thy ===== *)
theory Freertos_Runs
  imports Freertos_Calls
begin

text \<open>
  Runs of kernel calls from start-up. No run halts or hangs, the running task is ready and no ready
  task has a higher priority unless a switch is pending; a delayed task wakes at its tick, across
  the overflow of the tick count and for every interleaving of interrupts; tasks of the same
  priority take turns.
\<close>

section \<open>Runs of kernel calls\<close>

datatype call = Interrupt irq | Yield | Idle_pass | Delay "irq list \<times> irq list" u32 | Delay_until "irq list \<times> irq list" u32 u32
  | Suspend tcb | Resume tcb | Suspend_all | Resume_all | Set_priority tcb u32 | Catch_up u32 | Create "u8 list" u32 tcb

fun exec :: "call \<Rightarrow> kernel \<Rightarrow> kernel option" where
  "exec (Interrupt i) s = interrupt i s"
| "exec Yield s = portYIELD s"
| "exec Idle_pass s = prvIdleTask s"
| "exec (Delay w n) s = vTaskDelay w n s"
| "exec (Delay_until w p inc) s = map_option snd (xTaskDelayUntil w p inc s)"
| "exec (Suspend h) s = vTaskSuspend h s"
| "exec (Resume t) s = vTaskResume t s"
| "exec Suspend_all s = Some (vTaskSuspendAll s)"
| "exec Resume_all s = map_option snd (xTaskResumeAll s)"
| "exec (Set_priority h p) s = vTaskPrioritySet h p s"
| "exec (Catch_up n) s = map_option snd (xTaskCatchUpTicks n s)"
| "exec (Create name p t) s = create_task name p t s"

text \<open>The documented rules: a call that blocks or suspends the running task is not made with the
  scheduler suspended, and not by the idle task; handles are those of tasks; a new TCB is new.
  Fewer than \<open>2 ^ 32\<close> ticks are pended.\<close>

fun legal :: "tcb set \<Rightarrow> tcb \<Rightarrow> call \<Rightarrow> kernel \<Rightarrow> bool" where
  "legal T idle (Interrupt i) s = (legal_irq i \<and> unat (xPendedTicks s) + irq_ticks i < 2 ^ 32)"
| "legal T idle Yield s = True"
| "legal T idle Idle_pass s = True"
| "legal T idle (Delay w n) s = (n = 0 \<or> uxSchedulerSuspended s = 0 \<and> pxCurrentTCB s \<noteq> idle \<and> legal_irqs w \<and> window_ticks w < 2 ^ 32)"
| "legal T idle (Delay_until w p inc) s
    = (inc \<noteq> 0 \<and> uxSchedulerSuspended s = 0 \<and> pxCurrentTCB s \<noteq> idle \<and> legal_irqs w \<and> window_ticks w < 2 ^ 32)"
| "legal T idle (Suspend h) s = (prvGetTCBFromHandle h s \<in> T \<and> prvGetTCBFromHandle h s \<noteq> idle
    \<and> (prvGetTCBFromHandle h s = pxCurrentTCB s \<longrightarrow> uxSchedulerSuspended s = 0))"
| "legal T idle (Resume t) s = (t \<noteq> NULL)"
| "legal T idle Suspend_all s = (uxSchedulerSuspended s + 1 \<noteq> 0)"
| "legal T idle Resume_all s = (uxSchedulerSuspended s \<noteq> 0)"
| "legal T idle (Set_priority h p) s = (prvGetTCBFromHandle h s \<in> T \<and> p < configMAX_PRIORITIES)"
| "legal T idle (Catch_up n) s = (uxSchedulerSuspended s = 0)"
| "legal T idle (Create name p t) s = (t \<notin> T \<and> t \<noteq> NULL \<and> p < configMAX_PRIORITIES \<and> uxCurrentNumberOfTasks s + 1 \<noteq> 0)"

text \<open>The tasks after a call, those it blocks, the ticks that occur in it and those it counts.\<close>

fun tasks_after :: "call \<Rightarrow> tcb set \<Rightarrow> tcb set" where
  "tasks_after (Create name p t) T = insert t T"
| "tasks_after c T = T"

fun blocks :: "call \<Rightarrow> kernel \<Rightarrow> tcb set" where
  "blocks (Delay w n) s = (if n = 0 then {} else {pxCurrentTCB s})"
| "blocks (Delay_until w p inc) s = {pxCurrentTCB s}"
| "blocks (Suspend h) s = {prvGetTCBFromHandle h s}"
| "blocks c s = {}"

fun occurring :: "call \<Rightarrow> nat" where
  "occurring (Interrupt i) = irq_ticks i"
| "occurring (Delay w n) = (if n = 0 then 0 else window_ticks w)"
| "occurring (Delay_until w p inc) = window_ticks w"
| "occurring (Catch_up n) = unat n"
| "occurring c = 0"

definition counted :: "call \<Rightarrow> kernel \<Rightarrow> kernel \<Rightarrow> nat" where
  "counted c s s' = unat (xPendedTicks s) + occurring c - unat (xPendedTicks s')"

lemma unsuspended_interrupt:
  assumes g: "kgood T idle s" and u: "uxSchedulerSuspended s = 0" and i: "legal_irq i"
  shows "\<exists>s'. interrupt i s = Some s' \<and> kgood T idle s' \<and> elapsed (irq_ticks i) {} s s' \<and> xPendedTicks s' = 0 \<and> uxSchedulerSuspended s' = 0"
proof -
  obtain s' where s': "interrupt i s = Some s'" "ksafe T idle s'" "elapsed (irq_ticks i) {} s s'" "uxSchedulerSuspended s' = 0"
    "xPendedTicks s' = xPendedTicks s" "ready s (pxCurrentTCB s) \<longrightarrow> ready s' (pxCurrentTCB s')"
    using interrupt_safe [OF kgoodD(1) [OF g] u i] by blast
  then show ?thesis using kgoodD(2,3) [OF g] u by (simp add: kgood_def)
qed

lemma suspended_interrupt:
  assumes g: "kgood T idle s" and u: "uxSchedulerSuspended s \<noteq> 0" and i: "legal_irq i"
  shows "\<exists>s'. interrupt i s = Some s' \<and> kgood T idle s' \<and> elapsed 0 {} s s' \<and> xPendedTicks s' = xPendedTicks s + of_nat (irq_ticks i)
    \<and> uxSchedulerSuspended s' = uxSchedulerSuspended s"
proof -
  obtain s' where s': "interrupts [i] s = Some s'" "ksafe T idle s'" "kept s s'" "elapsed 0 {} s s'" "xPendedTicks s' = xPendedTicks s + of_nat (irq_ticks i)"
    using interrupts_kept_safe [OF kgoodD(1) [OF g] u, of "[i]"] i by auto
  have "interrupt i s = Some s'" using s'(1) by (cases "interrupt i s") simp_all
  moreover have "pxCurrentTCB s' = pxCurrentTCB s" "uxSchedulerSuspended s' = uxSchedulerSuspended s" using s'(3) by (simp_all add: kept_def)
  ultimately show ?thesis using s' kgoodD(2) [OF g] u by (simp add: kgood_def kept_safe(3) [OF s'(3)])
qed

lemma resume_all_good:
  assumes g: "kgood T idle s" and u: "uxSchedulerSuspended s \<noteq> 0"
  shows "\<exists>y s'. xTaskResumeAll s = Some (y, s') \<and> kgood T idle s'
    \<and> (if uxSchedulerSuspended s = 1 then elapsed (unat (xPendedTicks s)) {} s s' \<and> xPendedTicks s' = 0 \<and> uxSchedulerSuspended s' = 0
       else elapsed 0 {} s s' \<and> xPendedTicks s' = xPendedTicks s \<and> uxSchedulerSuspended s' = uxSchedulerSuspended s - 1)"
proof (cases "uxSchedulerSuspended s = 1")
  case True
  obtain y s' where s': "xTaskResumeAll s = Some (y, s')" "ksafe T idle s'" "elapsed (unat (xPendedTicks s)) {} s s'" "uxSchedulerSuspended s' = 0"
    "xPendedTicks s' = 0" "if y then ready s' (pxCurrentTCB s') else pxCurrentTCB s' = pxCurrentTCB s"
    using resume_all_safe [OF kgoodD(1) [OF g] True] by blast
  have "ready s' (pxCurrentTCB s')" using s'(3,6) kgoodD(2) [OF g] by (auto simp: elapsed_def split: if_splits)
  then show ?thesis using s' True by (simp add: kgood_def)
next
  case False
  then have ne: "uxSchedulerSuspended s - 1 \<noteq> 0" by simp
  let ?s = "s\<lparr>uxSchedulerSuspended := uxSchedulerSuspended s - 1\<rparr>"
  have "kgood T idle ?s" using g ne by (simp add: kgood_def ksafe_def)
  moreover have "elapsed 0 {} s ?s" using elapsed_refl [OF ksafeD(2) [OF kgoodD(1) [OF g]]] by simp
  ultimately show ?thesis using False u ne by (intro exI [of _ False] exI [of _ ?s]) (simp add: xTaskResumeAll_def Let_def)
qed

lemma exec_good:
  assumes g: "kgood T idle s" and l: "legal T idle c s"
  shows "\<exists>s'. exec c s = Some s' \<and> kgood (tasks_after c T) idle s' \<and> elapsed (counted c s s') (blocks c s) s s'
    \<and> unat (xPendedTicks s') \<le> unat (xPendedTicks s) + occurring c"
proof (cases c)
  case (Interrupt i)
  show ?thesis
  proof (cases "uxSchedulerSuspended s = 0")
    case True
    obtain s' where "interrupt i s = Some s'" "kgood T idle s'" "elapsed (irq_ticks i) {} s s'" "xPendedTicks s' = 0"
      using unsuspended_interrupt [OF g True, of i] l Interrupt by auto
    then show ?thesis using kgoodD(3) [OF g True] Interrupt by (simp add: counted_def)
  next
    case False
    obtain s' where s': "interrupt i s = Some s'" "kgood T idle s'" "elapsed 0 {} s s'" "xPendedTicks s' = xPendedTicks s + of_nat (irq_ticks i)"
      using suspended_interrupt [OF g False] l Interrupt by auto
    have "unat (xPendedTicks s') = unat (xPendedTicks s) + irq_ticks i"
      using l Interrupt by (cases i) (simp_all add: s'(4) unat_word_ariths)
    then show ?thesis using s' Interrupt by (simp add: counted_def)
  qed
next
  case Yield
  have "\<exists>s'. portYIELD s = Some s' \<and> kgood T idle s' \<and> elapsed 0 {} s s' \<and> xPendedTicks s' = xPendedTicks s"
    using yield_good [OF ksafeD(1,2,4,5) [OF kgoodD(1) [OF g]]] kgoodD(2,3) [OF g] by blast
  then show ?thesis using Yield by (auto simp: counted_def)
next
  case Idle_pass
  have "\<exists>s'. portYIELD s = Some s' \<and> kgood T idle s' \<and> elapsed 0 {} s s' \<and> xPendedTicks s' = xPendedTicks s"
    using yield_good [OF ksafeD(1,2,4,5) [OF kgoodD(1) [OF g]]] kgoodD(2,3) [OF g] by blast
  then show ?thesis using Idle_pass g elapsed_refl [OF ksafeD(2) [OF kgoodD(1) [OF g]]] by (auto simp: counted_def prvIdleTask_def)
next
  case (Delay w n)
  show ?thesis
  proof (cases "n = 0")
    case True
    have "\<exists>s'. portYIELD s = Some s' \<and> kgood T idle s' \<and> elapsed 0 {} s s' \<and> xPendedTicks s' = xPendedTicks s"
      using yield_good [OF ksafeD(1,2,4,5) [OF kgoodD(1) [OF g]]] kgoodD(2,3) [OF g] by blast
    then show ?thesis using Delay True by (auto simp: counted_def vTaskDelay_def)
  next
    case False
    then have u: "uxSchedulerSuspended s = 0" using l Delay by simp
    obtain s' where s': "vTaskDelay w n s = Some s'" "kgood T idle s'" "uxSchedulerSuspended s' = 0" "elapsed (window_ticks w) {pxCurrentTCB s} s s'"
      using delay_safe [OF g u _ _ _ False, of w] l Delay False by auto
    then show ?thesis using Delay False kgoodD(3) [OF g u] kgoodD(3) [OF s'(2,3)] by (simp add: counted_def)
  qed
next
  case (Delay_until w p inc)
  then have u: "uxSchedulerSuspended s = 0" using l by simp
  obtain s' x where s': "xTaskDelayUntil w p inc s = Some (x, s')" "kgood T idle s'" "uxSchedulerSuspended s' = 0" "elapsed (window_ticks w) {pxCurrentTCB s} s s'"
    using delay_until_safe [OF g u, of w inc p] l Delay_until by auto
  then show ?thesis using Delay_until kgoodD(3) [OF g u] kgoodD(3) [OF s'(2,3)] by (simp add: counted_def)
next
  case (Suspend h)
  then show ?thesis using suspend_good [OF g, of h] l by (auto simp: counted_def)
next
  case (Resume t)
  then show ?thesis using resume_good [OF g, of t] l by (auto simp: counted_def)
next
  case Suspend_all
  have "kgood T idle (vTaskSuspendAll s)" using g l Suspend_all by (simp add: kgood_def ksafe_def vTaskSuspendAll_def)
  then show ?thesis using Suspend_all elapsed_refl [OF ksafeD(2) [OF kgoodD(1) [OF g]]] by (simp add: counted_def vTaskSuspendAll_def)
next
  case Resume_all
  then show ?thesis using resume_all_good [OF g] l by (auto simp: counted_def split: if_splits)
next
  case (Set_priority h p)
  then show ?thesis using priority_good [OF g, of h p] l by (auto simp: counted_def)
next
  case (Catch_up n)
  then have u: "uxSchedulerSuspended s = 0" using l by simp
  let ?s = "s\<lparr>uxSchedulerSuspended := 1, xPendedTicks := n\<rparr>"
  have g1: "kgood T idle ?s" "uxSchedulerSuspended ?s \<noteq> 0" using g by (simp_all add: kgood_def ksafe_def)
  obtain y s' where s': "xTaskResumeAll ?s = Some (y, s')" "kgood T idle s'" "elapsed (unat n) {} ?s s'" "xPendedTicks s' = 0"
    using resume_all_good [OF g1] by auto
  then show ?thesis using Catch_up u kgoodD(3) [OF g u] by (simp add: counted_def xTaskCatchUpTicks_def vTaskSuspendAll_def)
next
  case (Create name p t)
  then show ?thesis using create_good [OF g, where t = t and p = p and name = name] l by (auto simp: counted_def)
qed

fun kernel_run :: "call list \<Rightarrow> kernel \<Rightarrow> kernel option" where
  "kernel_run [] s = Some s"
| "kernel_run (c # cs) s = exec c s \<bind> kernel_run cs"

fun legal_calls :: "tcb set \<Rightarrow> tcb \<Rightarrow> call list \<Rightarrow> kernel \<Rightarrow> bool" where
  "legal_calls T idle [] s = True"
| "legal_calls T idle (c # cs) s = (legal T idle c s \<and> (case exec c s of None \<Rightarrow> True | Some s \<Rightarrow> legal_calls (tasks_after c T) idle cs s))"

lemma kernel_run_good:
  "kgood T idle s \<Longrightarrow> legal_calls T idle cs s \<Longrightarrow> \<exists>s'. kernel_run cs s = Some s' \<and> kgood (fold tasks_after cs T) idle s'"
proof (induction cs arbitrary: T s)
  case (Cons c cs)
  obtain s1 where s1: "exec c s = Some s1" "kgood (tasks_after c T) idle s1" using exec_good [OF Cons(2)] Cons(3) by auto
  then show ?case using Cons(1) [OF s1(2)] Cons(3) by simp
qed simp

section \<open>Start-up\<close>

text \<open>The zeroed variables of the start-up code; no memory is in a list yet.\<close>

definition cleared :: "kernel \<Rightarrow> bool" where
  "cleared s \<longleftrightarrow> (\<forall>i. pxContainer (kl s) i = None) \<and> pxCurrentTCB s = NULL \<and> uxCurrentNumberOfTasks s = 0 \<and> xTickCount s = 0
     \<and> uxTopReadyPriority s = 0 \<and> \<not> xSchedulerRunning s \<and> xPendedTicks s = 0 \<and> \<not> xYieldPendings s \<and> uxSchedulerSuspended s = 0"

type_synonym new_task = "u8 list \<times> u32 \<times> tcb"

fun create_all :: "new_task list \<Rightarrow> kernel \<Rightarrow> kernel option" where
  "create_all [] s = Some s"
| "create_all ((name, p, t) # ts) s = create_task name p t s \<bind> create_all ts"

text \<open>\<open>main\<close> creates the tasks, \<open>vTaskStartScheduler\<close> the idle task.\<close>

definition kernel_boot :: "new_task list \<Rightarrow> tcb \<Rightarrow> kernel \<Rightarrow> kernel option" where
  "kernel_boot ts idle s = do { s \<leftarrow> create_all (ts @ [([73, 68, 76, 69, 0], 0, idle)]) s; Some (start_scheduler s) }"

abbreviation tcb_of :: "new_task \<Rightarrow> tcb" where "tcb_of x \<equiv> snd (snd x)"
abbreviation prio_of :: "new_task \<Rightarrow> u32" where "prio_of x \<equiv> fst (snd x)"

text \<open>The task that runs first: the last one created of the highest priority.\<close>

definition first_to_run :: "new_task list \<Rightarrow> u32 \<times> tcb" where
  "first_to_run ts = foldl (\<lambda>c x. if fst c \<le> prio_of x then snd x else c) (0, NULL) ts"

definition booting :: "new_task list \<Rightarrow> kernel \<Rightarrow> bool" where
  "booting ts s \<longleftrightarrow> kbase (tcb_of ` set ts) (pxCurrentTCB s) s \<and> (\<forall>t \<in> tcb_of ` set ts. ready s t \<and> uxPriority s t \<le> uxPriority s (pxCurrentTCB s))
     \<and> (uxPriority s (pxCurrentTCB s), pxCurrentTCB s) = first_to_run ts
     \<and> (\<forall>p < configMAX_PRIORITIES. ring (kl s) (pxReadyTasksLists p) (map (xStateListItem \<circ> tcb_of) (filter (\<lambda>x. prio_of x = p) ts)) None)
     \<and> uxCurrentNumberOfTasks s = of_nat (length ts) \<and> xTickCount s = 0 \<and> \<not> xSchedulerRunning s \<and> xPendedTicks s = 0 \<and> \<not> xYieldPendings s
     \<and> uxSchedulerSuspended s = 0"

lemma new_items_ring: "ring (new_items t p l) k xs j = ring l k xs j"
  by (simp add: ring_def new_items_def listSET_LIST_ITEM_OWNER_def listSET_LIST_ITEM_VALUE_def)

lemma initialise_frame [simp]: "pxContainer (vListInitialise k l) = pxContainer l" "pvOwner (vListInitialise k l) = pvOwner l"
  by (simp_all add: vListInitialise_def Let_def)

definition all_lists :: "klist list" where
  "all_lists = map pxReadyTasksLists [0, 1, 2, 3, 4] @ [xDelayedTaskList1, xDelayedTaskList2, xPendingReadyList, xSuspendedTaskList]"

lemma all_lists_KL: "set all_lists = KL"
proof -
  have "p < 5 \<Longrightarrow> p = 0 \<or> p = 1 \<or> p = 2 \<or> p = 3 \<or> p = 4" for p :: u32
  proof -
    assume "p < 5"
    then have "unat p < 5" by (simp add: word_less_nat_alt)
    then have "unat p \<in> {0, 1, 2, 3, 4}" by auto
    then have "of_nat (unat p) \<in> {0, 1, 2, 3, 4 :: u32}" by (elim insertE) simp_all
    then show ?thesis by simp
  qed
  then show ?thesis unfolding all_lists_def KL_def configMAX_PRIORITIES_def
    by (auto) (metis klist.exhaust)
qed

lemma fold_initialise:
  assumes "\<forall>i. pxContainer l i = None" "k \<in> set ks \<or> ring l k [] None"
  shows "ring (fold vListInitialise ks l) k [] None"
  using assms
proof (induction ks arbitrary: l)
  case (Cons a ks)
  have "k \<in> set ks \<or> ring (vListInitialise a l) k [] None"
  proof (cases "k = a")
    case True
    then show ?thesis using vListInitialise_ring(1) [of l a] Cons(2) by simp
  next
    case False
    then show ?thesis using vListInitialise_ring(2) [of l a k "[]" None] Cons(2,3) by auto
  qed
  then show ?case using Cons(1) [of "vListInitialise a l"] Cons(2) by simp
qed simp

lemma initialise_lists:
  assumes "\<forall>i. pxContainer (kl s) i = None"
  defines "l \<equiv> kl (prvInitialiseTaskLists s)"
  shows "lists_ok l" "pxContainer l = pxContainer (kl s)" "pvOwner l = pvOwner (kl s)" "k \<in> KL \<Longrightarrow> ring l k [] None"
    "prvInitialiseTaskLists s = s\<lparr>kl := l, pxDelayedTaskList := xDelayedTaskList1, pxOverflowDelayedTaskList := xDelayedTaskList2\<rparr>"
proof -
  have l: "l = fold vListInitialise all_lists (kl s)" by (simp add: l_def prvInitialiseTaskLists_def all_lists_def Let_def)
  show r: "k \<in> KL \<Longrightarrow> ring l k [] None" for k unfolding l using fold_initialise [OF assms(1)] all_lists_KL by blast
  show c: "pxContainer l = pxContainer (kl s)" "pvOwner l = pvOwner (kl s)" by (simp_all add: l all_lists_def)
  have "\<exists>xs j. ring l k xs j \<and> (k \<in> delayed_lists \<longrightarrow> sorted (map (item_value l) xs))" if "k \<in> KL" for k
    using r [OF that] by (intro exI [of _ "[]"]) auto
  then show "lists_ok l" unfolding lists_ok_def using assms(1) c by simp
  show "prvInitialiseTaskLists s = s\<lparr>kl := l, pxDelayedTaskList := xDelayedTaskList1, pxOverflowDelayedTaskList := xDelayedTaskList2\<rparr>"
    by (simp add: l_def prvInitialiseTaskLists_def Let_def)
qed

lemma boot_first:
  assumes c: "cleared s" and t: "t \<noteq> NULL" and p: "p < configMAX_PRIORITIES"
  shows "\<exists>s'. create_task name p t s = Some s' \<and> booting [(name, p, t)] s'"
proof -
  have none: "\<forall>i. pxContainer (kl s) i = None" using c by (simp add: cleared_def)
  define s0 where "s0 = new_tcb name p t s"
  have s0: "pxCurrentTCB s0 = NULL" "uxCurrentNumberOfTasks s0 = 0" "\<not> xSchedulerRunning s0" "uxPriority s0 t = p" "uxTopReadyPriority s0 = 0"
    "xTickCount s0 = 0" "xPendedTicks s0 = 0" "\<not> xYieldPendings s0" "uxSchedulerSuspended s0 = 0" "stack_low s0 t = replicate 4 0xa5a5a5a5"
    using c by (simp_all add: s0_def new_tcb_def cleared_def)
  let ?s1 = "s0\<lparr>uxCurrentNumberOfTasks := 1, pxCurrentTCB := t\<rparr>"
  have n1: "\<forall>i. pxContainer (kl ?s1) i = None" using none by (simp add: s0_def new_tcb_def)
  define l where "l = kl (prvInitialiseTaskLists ?s1)"
  note il = initialise_lists [OF n1, folded l_def]
  let ?l = "vListInsertEnd (pxReadyTasksLists p) (xStateListItem t) l"
  define s' where "s' = ?s1\<lparr>kl := ?l, pxDelayedTaskList := xDelayedTaskList1, pxOverflowDelayedTaskList := xDelayedTaskList2, uxTaskNumber := uxTaskNumber s0 + 1,
    uxTopReadyPriority := p\<rparr>"
  have own: "pvOwner l (xStateListItem t) = t" "pvOwner l (xEventListItem t) = t" using il(3) by (simp_all add: s0_def new_tcb_def)
  have lc: "pxContainer l = (\<lambda>i. None)" using il(2) n1 by auto
  have run: "create_task name p t s = Some s'"
    using s0 unfolding initialise_new_task [OF none [rule_format] none [rule_format] p] s0_def [symmetric] s'_def
    by (simp add: prvAddNewTaskToReadyList_def Let_def il(5) add_ready_eq max_def)
  have "xStateListItem t \<noteq> xStateListItem NULL" using t by simp
  have ok: "lists_ok ?l" by (rule insert_end_ok [OF il(1)]) (use t p own lc in \<open>simp_all add: fits_def\<close>)
  have st: "state_of s' x = (if x = t then Some (pxReadyTasksLists p) else None)" "event_of s' x = None" for x by (simp_all add: s'_def lc)
  have b: "kbase {t} t s'"
  proof (rule kbaseI)
    show "x \<in> {t} \<Longrightarrow> x \<noteq> NULL \<and> pvOwner (kl s') (xStateListItem x) = x \<and> pvOwner (kl s') (xEventListItem x) = x
      \<and> stack_low s' x = replicate 4 0xa5a5a5a5 \<and> uxPriority s' x < configMAX_PRIORITIES \<and> state_of s' x \<noteq> None" for x
      using t p own s0 by (simp add: s'_def)
    show "state_of s' x = Some k \<Longrightarrow> x \<in> {t}" for x k unfolding st by (auto split: if_splits)
    show "state_of s' x = Some (pxReadyTasksLists q) \<Longrightarrow> q = uxPriority s' x \<and> q \<le> uxTopReadyPriority s'" for x q
      unfolding st using s0(4) by (auto simp: s'_def split: if_splits)
    show "event_of s' x = Some k \<Longrightarrow> state_of s' x = Some xSuspendedTaskList" for x k unfolding st by simp
    show "state_of s' t = Some (pxReadyTasksLists (uxPriority s' t))" unfolding st using s0(4) by (simp add: s'_def)
  qed (use ok p in \<open>simp_all add: s'_def\<close>)
  have rings: "ring (kl s') (pxReadyTasksLists q) (if q = p then [xStateListItem t] else []) None" if q: "q < configMAX_PRIORITIES" for q
  proof -
    have r: "ring l (pxReadyTasksLists q) [] None" "ring l (pxReadyTasksLists p) [] None" using il(4) q p by simp_all
    have f: "pxContainer l (xStateListItem t) = None" by (simp add: lc)
    show ?thesis
      using vListInsertEnd_ring(1) [OF r(2) f] vListInsertEnd_ring(2) [OF r(2) f, of "pxReadyTasksLists q" "[]" None] r(1)
      by (auto simp: s'_def insert_before_def)
  qed
  have rr: "\<forall>q < configMAX_PRIORITIES. ring (kl s') (pxReadyTasksLists q) (map (xStateListItem \<circ> tcb_of) (filter (\<lambda>x. prio_of x = q) [(name, p, t)])) None"
  proof (intro allI impI)
    fix q assume "q < configMAX_PRIORITIES"
    from rings [OF this] show "ring (kl s') (pxReadyTasksLists q) (map (xStateListItem \<circ> tcb_of) (filter (\<lambda>x. prio_of x = q) [(name, p, t)])) None"
      by (cases "q = p") simp_all
  qed
  have "booting [(name, p, t)] s'"
    unfolding booting_def by (intro conjI rr) (use b s0 st in \<open>simp_all add: first_to_run_def ready_def s'_def\<close>)
  then show ?thesis using run by blast
qed

lemma kbase_idle: "kbase T i s \<Longrightarrow> j \<in> T \<Longrightarrow> ready s j \<Longrightarrow> kbase T j s"
  unfolding kbase_def ready_def by (elim conjE, intro conjI; assumption)

lemma kbase_started: "kbase T idle (start_scheduler s) = kbase T idle s"
  by (simp add: kbase_def start_scheduler_def)

lemma boot_step:
  assumes g: "booting ts s" and t: "t \<notin> tcb_of ` set ts" "t \<noteq> NULL" and p: "p < configMAX_PRIORITIES"
  shows "\<exists>s'. create_task name p t s = Some s' \<and> booting (ts @ [(name, p, t)]) s'"
proof -
  let ?T = "tcb_of ` set ts" and ?cur = "pxCurrentTCB s"
  have b: "kbase ?T ?cur s" using g by (simp add: booting_def)
  have none: "state_of s t = None" "event_of s t = None"
    using kbase_state [OF b, of t] t(1) kbase_event [OF b, of t] by (cases "state_of s t"; cases "event_of s t"; auto)+
  have cur: "?cur \<in> ?T" "?cur \<noteq> NULL" "?cur \<noteq> t" using kbase_tasks [OF b] kbase_current [OF b] t(1) by auto
  define c where "c = (if uxPriority s ?cur \<le> p then t else ?cur)"
  have cT: "c \<in> insert t ?T" using cur by (simp add: c_def)
  define s' where "s' = prvAddTaskToReadyList t ((new_tcb name p t s)\<lparr>uxCurrentNumberOfTasks := uxCurrentNumberOfTasks s + 1, pxCurrentTCB := c, uxTaskNumber := uxTaskNumber s + 1\<rparr>)"
  note f = kbase_new [OF b t p cT, where name = name and n = "uxCurrentNumberOfTasks s + 1" and k = "uxTaskNumber s + 1", folded s'_def]
  have cn: "pxCurrentTCB s' = c" "uxCurrentNumberOfTasks s' = uxCurrentNumberOfTasks s + 1" by (subst f(5), simp)+
  have run: "create_task name p t s = Some s'"
    using cur g unfolding initialise_new_task [OF none p]
    by (simp add: prvAddNewTaskToReadyList_def Let_def s'_def new_tcb_def add_ready_eq c_def booting_def)
  have rd: "ready s' x" if "x \<in> insert t ?T" for x using that g f(2) by (auto simp: booting_def)
  have hi: "uxPriority s' x \<le> uxPriority s' c" if "x \<in> insert t ?T" for x
  proof (cases "x = t")
    case True
    then show ?thesis using cur(3) unfolding f(6) by (auto simp: c_def not_le dest: less_imp_le)
  next
    case False
    then have "uxPriority s x \<le> uxPriority s ?cur" using that g by (auto simp: booting_def)
    then show ?thesis using False cur(3) unfolding f(6) by (auto simp: c_def dest: order_trans)
  qed
  have "first_to_run (ts @ [(name, p, t)]) = (if fst (first_to_run ts) \<le> p then (p, t) else first_to_run ts)"
    by (simp add: first_to_run_def)
  moreover have "first_to_run ts = (uxPriority s ?cur, ?cur)" using g by (simp add: booting_def)
  ultimately have fr: "(uxPriority s' c, c) = first_to_run (ts @ [(name, p, t)])" using cur(3) unfolding f(6) by (simp add: c_def)
  have rings: "ring (kl s') (pxReadyTasksLists q) (map (xStateListItem \<circ> tcb_of) (filter (\<lambda>x. prio_of x = q) (ts @ [(name, p, t)]))) None"
    if q: "q < configMAX_PRIORITIES" for q
  proof -
    have kl: "kl s' = vListInsertEnd (pxReadyTasksLists p) (xStateListItem t) (new_items t p (kl s))" by (simp add: s'_def new_tcb_def add_ready_eq)
    let ?xs = "\<lambda>q. map (xStateListItem \<circ> tcb_of) (filter (\<lambda>x. prio_of x = q) ts)"
    have r: "ring (new_items t p (kl s)) (pxReadyTasksLists q) (?xs q) None" "ring (new_items t p (kl s)) (pxReadyTasksLists p) (?xs p) None"
      using g q p by (simp_all add: booting_def new_items_ring)
    have n: "pxContainer (new_items t p (kl s)) (xStateListItem t) = None" using none by simp
    have room: "length (?xs p) + 1 < 2 ^ 32"
      by (rule ring_room [OF new_items_ok [OF kbase_lists [OF b] none] r(2), of "xStateListItem t"]) (use none t(2) p in \<open>simp_all add: fits_def\<close>)
    show ?thesis
      using vListInsertEnd_ring(1) [OF r(2) n room] vListInsertEnd_ring(2) [OF r(2) n room, of "pxReadyTasksLists q" "?xs q" None] r(1)
      by (cases "q = p") (auto simp: kl insert_before_def)
  qed
  have TT: "tcb_of ` set (ts @ [(name, p, t)]) = insert t ?T" by auto
  have "kbase (insert t ?T) c s'" by (rule kbase_idle [OF f(1) cT rd [OF cT]])
  then have "booting (ts @ [(name, p, t)]) s'"
    using rd hi fr rings g unfolding booting_def TT cn by (simp add: f(7-11))
  then show ?thesis using run by blast
qed

lemma boot_all:
  assumes "booting ts s" "distinct (map tcb_of (ts @ us))" "\<forall>u \<in> set us. tcb_of u \<noteq> NULL \<and> prio_of u < configMAX_PRIORITIES"
  shows "\<exists>s'. create_all us s = Some s' \<and> booting (ts @ us) s'"
  using assms
proof (induction us arbitrary: ts s)
  case (Cons u us)
  obtain name p t where u: "u = (name, p, t)" by (metis prod_cases3)
  obtain s1 where s1: "create_task name p t s = Some s1" "booting (ts @ [(name, p, t)]) s1"
    using boot_step [OF Cons(2), of t p name] Cons(3,4) u by auto
  then show ?case using Cons(1) [OF s1(2)] Cons(3,4) u by simp
qed simp

lemma boot_good:
  assumes c: "cleared s" and d: "distinct (idle # map tcb_of ts)" "NULL \<notin> set (idle # map tcb_of ts)" and p: "\<forall>u \<in> set ts. prio_of u < configMAX_PRIORITIES"
    and n: "length ts + 1 < 2 ^ 32"
  shows "\<exists>s'. kernel_boot ts idle s = Some s' \<and> kgood (set (idle # map tcb_of ts)) idle s' \<and> uxSchedulerSuspended s' = 0 \<and> xTickCount s' = 0
    \<and> runs_highest s' \<and> \<not> xYieldPendings s' \<and> (uxPriority s' (pxCurrentTCB s'), pxCurrentTCB s') = first_to_run (ts @ [([73, 68, 76, 69, 0], 0, idle)])
    \<and> (\<forall>q < configMAX_PRIORITIES. ring (kl s') (pxReadyTasksLists q)
        (map (xStateListItem \<circ> tcb_of) (filter (\<lambda>x. prio_of x = q) (ts @ [([73, 68, 76, 69, 0], 0, idle)]))) None)"
proof -
  let ?ts = "ts @ [([73, 68, 76, 69, 0], 0, idle)]"
  have ne: "?ts \<noteq> []" by simp
  then obtain u us where u: "?ts = u # us" by (cases ?ts) auto
  obtain name q t where q: "u = (name, q, t)" by (metis prod_cases3)
  have ok: "\<forall>x \<in> set ?ts. tcb_of x \<noteq> NULL \<and> prio_of x < configMAX_PRIORITIES" 
  proof
    fix x assume "x \<in> set ?ts"
    then consider "x \<in> set ts" | "x = ([73, 68, 76, 69, 0], 0, idle)" by auto
    then show "tcb_of x \<noteq> NULL \<and> prio_of x < configMAX_PRIORITIES"
    proof cases
      case 1
      then have "tcb_of x \<in> set (map tcb_of ts)" by simp
      then have "tcb_of x \<noteq> NULL" using d(2) by (metis list.set_intros(2))
      then show ?thesis using p 1 by simp
    next
      case 2
      then show ?thesis using d(2) by (auto simp: configMAX_PRIORITIES_def)
    qed
  qed
  have dist: "distinct (map tcb_of ?ts)" using d(1) by auto
  obtain s1 where s1: "create_task name q t s = Some s1" "booting [u] s1" using boot_first [OF c, of t q name] ok u q by auto
  have dist': "distinct (map tcb_of ([u] @ us))" using dist u by simp
  obtain s2 where s2: "create_all us s1 = Some s2" "booting ([u] @ us) s2" using boot_all [OF s1(2) dist'] ok u by auto
  have bo: "booting ?ts s2" using s2(2) u by simp
  let ?s = "start_scheduler s2"
  have run: "kernel_boot ts idle s = Some ?s" using s1(1) s2(1) q unfolding kernel_boot_def u by simp
  have T: "tcb_of ` set ?ts = set (idle # map tcb_of ts)" by auto
  have rd: "\<forall>x \<in> set (idle # map tcb_of ts). ready s2 x" using bo unfolding booting_def T by blast
  have b2: "kbase (set (idle # map tcb_of ts)) (pxCurrentTCB s2) s2" using bo unfolding booting_def T by blast
  have b3: "kbase (set (idle # map tcb_of ts)) idle ?s"
    using kbase_idle [OF b2] rd by (simp add: kbase_started)
  have ns: "ready ?s x \<longleftrightarrow> ready s2 x" for x by (simp add: ready_def start_scheduler_def)
  have nd: "pxReadyTasksLists q \<noteq> pxDelayedTaskList ?s" "pxReadyTasksLists q \<noteq> pxOverflowDelayedTaskList ?s" for q
    using kbase_delayed [OF b3] by (auto simp: delayed_lists_def)
  have all: "state_of ?s x = Some k \<Longrightarrow> \<exists>q. k = pxReadyTasksLists q" for x k
    using kbase_state [OF b3, of x k] rd by (auto simp: ready_def start_scheduler_def)
  have tm: "timely ?s" unfolding timely_def using all nd by metis
  have cnt: "uxCurrentNumberOfTasks ?s \<noteq> 0"
  proof -
    have "uxCurrentNumberOfTasks ?s = of_nat (length ts + 1)" using bo by (simp add: booting_def start_scheduler_def)
    moreover have "unat (of_nat (length ts + 1) :: u32) = length ts + 1" using n by (simp only: unat_of_nat) (simp add: take_bit_nat_eq_self)
    ultimately show ?thesis by (metis Suc_eq_plus1 nat.distinct(1) unat_0)
  qed
  have hi: "runs_highest ?s"
    unfolding runs_highest_def
  proof (intro allI impI)
    fix x assume "ready ?s x"
    then have "x \<in> set (idle # map tcb_of ts)" using kbase_state [OF b3] by (auto simp: ready_def)
    then show "uxPriority ?s x \<le> uxPriority ?s (pxCurrentTCB ?s)" using bo unfolding booting_def T by (auto simp: start_scheduler_def)
  qed
  have "pxCurrentTCB s2 \<in> set (idle # map tcb_of ts)" using kbase_current [OF b2] by simp
  then have "ready s2 (pxCurrentTCB s2)" using rd by (rule bspec [rotated])
  moreover have "pxCurrentTCB ?s = pxCurrentTCB s2" by (simp add: start_scheduler_def)
  ultimately have rc: "ready ?s (pxCurrentTCB ?s)" by (simp only: ns)
  have eq: "uxSchedulerSuspended ?s = 0" "xTickCount ?s = 0" "xPendedTicks ?s = 0" "xSchedulerRunning ?s" "\<not> xYieldPendings ?s"
    "(uxPriority ?s (pxCurrentTCB ?s), pxCurrentTCB ?s) = first_to_run ?ts"
    "\<forall>q < configMAX_PRIORITIES. ring (kl ?s) (pxReadyTasksLists q) (map (xStateListItem \<circ> tcb_of) (filter (\<lambda>x. prio_of x = q) ?ts)) None"
    using bo unfolding booting_def start_scheduler_def by simp_all
  have good: "kgood (set (idle # map tcb_of ts)) idle ?s"
    unfolding kgood_def ksafe_def using b3 tm hi cnt rc eq(3,4) by blast
  show ?thesis by (rule exI [of _ ?s]) (intro conjI run good eq hi)
qed

section \<open>Properties\<close>

text \<open>A task is left to wait in a run: no call delays or suspends it.\<close>

fun spares :: "tcb \<Rightarrow> call list \<Rightarrow> kernel \<Rightarrow> bool" where
  "spares t [] s = True"
| "spares t (c # cs) s = (t \<notin> blocks c s \<and> (case exec c s of None \<Rightarrow> True | Some s \<Rightarrow> spares t cs s))"

definition ticks_in :: "call list \<Rightarrow> nat" where "ticks_in cs = sum_list (map occurring cs)"

lemma run_elapsed:
  assumes "kgood T idle s" "legal_calls T idle cs s" "spares t cs s"
  shows "\<exists>s'. kernel_run cs s = Some s' \<and> kgood (fold tasks_after cs T) idle s' \<and> unat (xPendedTicks s') \<le> unat (xPendedTicks s) + ticks_in cs
    \<and> elapsed (unat (xPendedTicks s) + ticks_in cs - unat (xPendedTicks s')) (- {t}) s s'"
  using assms
proof (induction cs arbitrary: T s)
  case Nil
  then show ?case using elapsed_refl [OF ksafeD(2) [OF kgoodD(1)]] by (simp add: ticks_in_def)
next
  case (Cons c cs)
  obtain s1 where s1: "exec c s = Some s1" "kgood (tasks_after c T) idle s1" "elapsed (counted c s s1) (blocks c s) s s1"
    "unat (xPendedTicks s1) \<le> unat (xPendedTicks s) + occurring c"
    using exec_good [OF Cons(2)] Cons(3) by auto
  have sp: "t \<notin> blocks c s" "spares t cs s1" "legal_calls (tasks_after c T) idle cs s1" using Cons(3,4) s1(1) by auto
  obtain s2 where s2: "kernel_run cs s1 = Some s2" "kgood (fold tasks_after cs (tasks_after c T)) idle s2"
    "unat (xPendedTicks s2) \<le> unat (xPendedTicks s1) + ticks_in cs"
    "elapsed (unat (xPendedTicks s1) + ticks_in cs - unat (xPendedTicks s2)) (- {t}) s1 s2"
    using Cons(1) [OF s1(2) sp(3,2)] by blast
  have "elapsed (counted c s s1) (- {t}) s s1" by (rule elapsed_mono [OF s1(3)]) (use sp(1) in auto)
  note e = elapsed_trans [OF this s2(4)]
  have "counted c s s1 + (unat (xPendedTicks s1) + ticks_in cs - unat (xPendedTicks s2))
    = unat (xPendedTicks s) + ticks_in (c # cs) - unat (xPendedTicks s2)"
    using s1(4) s2(3) by (simp add: counted_def ticks_in_def)
  then show ?case using s1(1) s2(1-3) e s1(4) by (simp add: ticks_in_def)
qed

lemma switch_turn:
  assumes b: "kbase T idle s" and u: "uxSchedulerSuspended s = 0" and r: "ring (kl s) (pxReadyTasksLists p) xs j" "xs \<noteq> []"
    and p: "p < configMAX_PRIORITIES" and hi: "\<And>t. ready s t \<Longrightarrow> uxPriority s t \<le> p"
  obtains s' where "vTaskSwitchContext s = Some s'" "pxCurrentTCB s' = task_of (hd (turns xs j))" "ring (kl s') (pxReadyTasksLists p) xs (Some (hd (turns xs j)))"
    "pxContainer (kl s') = pxContainer (kl s)" "uxPriority s' = uxPriority s" "kbase T idle s'" "uxSchedulerSuspended s' = 0"
    "pxDelayedTaskList s' = pxDelayedTaskList s" "pxOverflowDelayedTaskList s' = pxOverflowDelayedTaskList s" "xYieldPendings s' = False"
    "xTickCount s' = xTickCount s" "xPendedTicks s' = xPendedTicks s"
proof -
  let ?y = "hd (turns xs j)" and ?s = "s\<lparr>xYieldPendings := False\<rparr>"
  have pK: "pxReadyTasksLists p \<in> KL" using p by simp
  have mem: "pxContainer (kl s) i = Some (pxReadyTasksLists p) \<longleftrightarrow> i \<in> set xs" for i using r(1) by (simp add: ring_def)
  have y: "?y \<in> set xs" using turns_hd(1) [OF r(2)] r(1) by (simp add: ring_def)
  obtain l c m where f: "vTaskSwitchContext s = Some (s\<lparr>kl := l, uxTopReadyPriority := m, pxCurrentTCB := c, xYieldPendings := False\<rparr>)"
    "pxContainer l = pxContainer (kl s)" "kbase T idle (s\<lparr>kl := l, uxTopReadyPriority := m, pxCurrentTCB := c, xYieldPendings := False\<rparr>)"
    by (rule switch_ok [OF b u]) (rule that)
  have top: "q \<le> uxTopReadyPriority s \<and> q \<le> p" if "pxContainer (kl s) x = Some (pxReadyTasksLists q)" for x q
  proof -
    have "state_of s (task_of x) = Some (pxReadyTasksLists q)" using kbase_state_item [OF b that] that by simp
    then show ?thesis using kbase_ready [OF b] hi [of "task_of x"] by (fastforce simp: ready_def)
  qed
  have yp: "pxContainer (kl s) ?y = Some (pxReadyTasksLists p)" using mem y by simp
  obtain q z where q: "find_ready (uxTopReadyPriority ?s) ?s = Some q" "pxContainer (kl ?s) z = Some (pxReadyTasksLists q)"
    "\<And>x y. pxContainer (kl ?s) x = Some (pxReadyTasksLists y) \<Longrightarrow> y \<le> uxTopReadyPriority ?s \<Longrightarrow> y \<le> q"
    by (rule find_ready_finds [of ?s "uxTopReadyPriority ?s" ?y p]) (use kbaseD(1,5) [OF b] yp top in simp_all)
  have qp: "q = p" using q(2) q(3) [of ?y p] yp top by (fastforce intro: antisym)
  have own: "pvOwner (kl s) ?y = task_of ?y" using lists_ok_item [OF kbase_lists [OF b] yp] by simp
  note v = next_entry_ring [OF r]
  have "vTaskSwitchContext s = Some (?s\<lparr>kl := (kl s)\<lparr>pxIndex := (pxIndex (kl s))(pxReadyTasksLists p := Item ?y)\<rparr>, pxCurrentTCB := task_of ?y, uxTopReadyPriority := p\<rparr>)"
    using u q(1) v(1) own kbase_tasks [OF b kbase_current [OF b]] unfolding qp
    by (simp add: vTaskSwitchContext_def taskCHECK_FOR_STACK_OVERFLOW_def taskSELECT_HIGHEST_PRIORITY_TASK_def)
  then have e: "s\<lparr>kl := l, uxTopReadyPriority := m, pxCurrentTCB := c, xYieldPendings := False\<rparr>
    = ?s\<lparr>kl := (kl s)\<lparr>pxIndex := (pxIndex (kl s))(pxReadyTasksLists p := Item ?y)\<rparr>, pxCurrentTCB := task_of ?y, uxTopReadyPriority := p\<rparr>"
    using f(1) by (simp only: option.inject)
  have "c = task_of ?y" "l = (kl s)\<lparr>pxIndex := (pxIndex (kl s))(pxReadyTasksLists p := Item ?y)\<rparr>"
    using arg_cong [OF e, of pxCurrentTCB] arg_cong [OF e, of kl] by simp_all
  then show thesis by (intro that [OF f(1)]) (use v(2) f(2,3) u in simp_all)
qed

text \<open>A tick with no task delayed: nothing moves, and the next of the running task's peers runs.\<close>

definition slicing :: "tcb set \<Rightarrow> tcb \<Rightarrow> u32 \<Rightarrow> kitem list \<Rightarrow> kitem option \<Rightarrow> kernel \<Rightarrow> bool" where
  "slicing T idle p xs j s \<longleftrightarrow> kbase T idle s \<and> timely s \<and> uxSchedulerSuspended s = 0 \<and> \<not> xYieldPendings s \<and> (\<forall>t. \<not> delayed s t)
     \<and> ready s (pxCurrentTCB s) \<and> uxPriority s (pxCurrentTCB s) = p \<and> runs_highest s \<and> ring (kl s) (pxReadyTasksLists p) xs j"

lemma tick_lists:
  assumes b: "kbase T idle s" and u: "uxSchedulerSuspended s = 0" and d: "\<forall>t. \<not> delayed s t" and f: "xTaskIncrementTick s = Some (sw, s')"
  shows "kl s' = kl s"
proof -
  have e: "listLIST_IS_EMPTY (pxDelayedTaskList s) (kl s)" "listLIST_IS_EMPTY (pxOverflowDelayedTaskList s) (kl s)"
  proof -
    have no: "pxContainer (kl s) i \<noteq> Some k" if k: "k = pxDelayedTaskList s \<or> k = pxOverflowDelayedTaskList s" for i k
    proof
      assume i: "pxContainer (kl s) i = Some k"
      have "k \<in> delayed_lists" using k kbase_delayed [OF b] by auto
      then have "k \<noteq> xPendingReadyList" by (auto simp: delayed_lists_def)
      then have "state_of s (task_of i) = Some k" using kbase_state_item [OF b i] i by simp
      then show False using d k by (auto simp: delayed_def)
    qed
    have "k \<in> delayed_lists \<Longrightarrow> k \<in> KL" for k by (auto simp: delayed_lists_def)
    then show "listLIST_IS_EMPTY (pxDelayedTaskList s) (kl s)" "listLIST_IS_EMPTY (pxOverflowDelayedTaskList s) (kl s)"
      using no kbase_delayed [OF b] by (simp_all add: empty_iff [OF kbase_lists [OF b]])
  qed
  let ?now = "xTickCount s + 1"
  obtain s1 where s1: "(if ?now = 0 then taskSWITCH_DELAYED_LISTS (s\<lparr>xTickCount := ?now\<rparr>) else Some (s\<lparr>xTickCount := ?now\<rparr>)) = Some s1"
    "kl s1 = kl s" "pxCurrentTCB s1 = pxCurrentTCB s" "pxDelayedTaskList s1 \<in> {pxDelayedTaskList s, pxOverflowDelayedTaskList s}"
    "uxPriority s1 = uxPriority s"
    using e by (cases "?now = 0") (auto simp: taskSWITCH_DELAYED_LISTS_def prvResetNextTaskUnblockTime_def Let_def)
  have w: "wake_loop False ?now s1 = Some (False, s1\<lparr>xNextTaskUnblockTime := portMAX_DELAY\<rparr>)"
    using s1(4) e by (subst wake_loop.simps) (auto simp: s1(2))
  show ?thesis
    using f u s1(1,2) w by (auto simp: xTaskIncrementTick_def Let_def current_priority_def split: if_splits option.splits)
qed

lemma slicingD:
  assumes "slicing T idle p xs j s"
  shows "xs \<noteq> []" "p < configMAX_PRIORITIES" "\<And>i. pxContainer (kl s) i = Some (pxReadyTasksLists p) \<longleftrightarrow> i \<in> set xs"
    "xStateListItem (pxCurrentTCB s) \<in> set xs" "\<And>x. x \<in> set xs \<Longrightarrow> x = xStateListItem (task_of x)"
proof -
  have h: "kbase T idle s" "ready s (pxCurrentTCB s)" "uxPriority s (pxCurrentTCB s) = p" "ring (kl s) (pxReadyTasksLists p) xs j"
    using assms by (simp_all add: slicing_def)
  show mem: "pxContainer (kl s) i = Some (pxReadyTasksLists p) \<longleftrightarrow> i \<in> set xs" for i using h(4) by (simp add: ring_def)
  then show c: "xStateListItem (pxCurrentTCB s) \<in> set xs" using h(2,3) by (simp add: ready_def)
  then show "xs \<noteq> []" by auto
  show "x = xStateListItem (task_of x)" if "x \<in> set xs" for x using kbase_state_item [OF h(1)] mem that by auto
  show "p < configMAX_PRIORITIES" using kbase_tasks [OF h(1) kbase_current [OF h(1)]] h(3) by simp
qed

lemma slicing_switch:
  assumes sl: "slicing T idle p xs j s"
  obtains s' where "vTaskSwitchContext s = Some s'" "slicing T idle p xs (Some (hd (turns xs j))) s'"
    "turns xs (Some (hd (turns xs j))) = rotate1 (turns xs j)" "pxCurrentTCB s' = task_of (hd (turns xs j))"
proof -
  have h: "kbase T idle s" "uxSchedulerSuspended s = 0" "\<forall>t. \<not> delayed s t" "uxPriority s (pxCurrentTCB s) = p" "runs_highest s"
    "ring (kl s) (pxReadyTasksLists p) xs j" using sl by (simp_all add: slicing_def)
  note m = slicingD [OF sl]
  have hi: "uxPriority s t \<le> p" if "ready s t" for t using that h(4,5) by (auto simp: runs_highest_def)
  obtain s' where f: "vTaskSwitchContext s = Some s'" "pxCurrentTCB s' = task_of (hd (turns xs j))" "ring (kl s') (pxReadyTasksLists p) xs (Some (hd (turns xs j)))"
    "pxContainer (kl s') = pxContainer (kl s)" "uxPriority s' = uxPriority s" "kbase T idle s'" "uxSchedulerSuspended s' = 0"
    "pxDelayedTaskList s' = pxDelayedTaskList s" "pxOverflowDelayedTaskList s' = pxOverflowDelayedTaskList s" "xYieldPendings s' = False"
    by (rule switch_turn [OF h(1,2,6) m(1,2) hi])
  have y: "hd (turns xs j) \<in> set xs" using turns_hd(1) [OF m(1)] h(6) by (simp add: ring_def)
  have st: "state_of s' (task_of (hd (turns xs j))) = Some (pxReadyTasksLists p)" using y m(3,5) by (metis f(4))
  have cur: "ready s' (pxCurrentTCB s')" "uxPriority s' (pxCurrentTCB s') = p"
    using st kbase_ready [OF f(6) st] by (simp_all add: ready_def f(2))
  have dn: "\<not> delayed s' t" for t using h(3) by (simp add: delayed_def f(4,8,9))
  have "timely s'" using dn by (auto simp: timely_def delayed_def)
  moreover have "runs_highest s'" using hi cur(2) by (auto simp: runs_highest_def ready_def f(4,5))
  ultimately have "slicing T idle p xs (Some (hd (turns xs j))) s'" using f cur dn by (simp add: slicing_def)
  moreover have "turns xs (Some (hd (turns xs j))) = rotate1 (turns xs j)" using turns_hd(2) [OF m(1)] h(6) by (simp add: ring_def)
  ultimately show thesis using that f(1,2) by blast
qed

lemma slicing_tick:
  assumes sl: "slicing T idle p xs j s"
  obtains s' k where "tick_interrupt s = Some s'" "slicing T idle p xs k s'" "turns xs k = rotate1 (turns xs j)" "pxCurrentTCB s' = task_of (hd (turns xs j))"
proof -
  have h: "kbase T idle s" "timely s" "uxSchedulerSuspended s = 0" "\<not> xYieldPendings s" "\<forall>t. \<not> delayed s t" "ready s (pxCurrentTCB s)"
    "uxPriority s (pxCurrentTCB s) = p" "runs_highest s" "ring (kl s) (pxReadyTasksLists p) xs j" using sl by (simp_all add: slicing_def)
  note m = slicingD [OF sl]
  let ?c = "xStateListItem (pxCurrentTCB s)"
  obtain sw s1 where s1: "xTaskIncrementTick s = Some (sw, s1)"
    "sw = ((\<exists>t. wakes s t \<and> uxPriority s t > uxPriority s (pxCurrentTCB s))
        \<or> (\<exists>t v. t \<noteq> v \<and> state_of s1 t = Some (pxReadyTasksLists (uxPriority s (pxCurrentTCB s))) \<and> state_of s1 v = Some (pxReadyTasksLists (uxPriority s (pxCurrentTCB s))))
        \<or> xYieldPendings s)"
    "same_tasks s s1" "pxCurrentTCB s1 = pxCurrentTCB s" "xYieldPendings s1 = xYieldPendings s" "uxSchedulerSuspended s1 = 0"
    "\<forall>t. delayed s1 t \<longleftrightarrow> delayed s t \<and> \<not> wakes s t" "kbase T idle s1" "timely s1"
    using tick_ok [OF h(1-3)] by blast
  note kl = tick_lists [OF h(1,3,5) s1(1)]
  have pr: "uxPriority s1 = uxPriority s" using s1(3) by (simp add: same_tasks_def)
  have rd: "ready s1 t = ready s t" for t by (simp add: ready_def kl pr)
  have sl1: "slicing T idle p xs j s1"
  proof -
    have "runs_highest s1" unfolding runs_highest_def s1(4) rd pr using h(8) by (simp only: runs_highest_def)
    moreover have "\<forall>t. \<not> delayed s1 t" using h(5) s1(7) by blast
    moreover have "ready s1 (pxCurrentTCB s1)" unfolding s1(4) rd by (rule h(6))
    moreover have "uxPriority s1 (pxCurrentTCB s1) = p" unfolding s1(4) pr by (rule h(7))
    moreover have "ring (kl s1) (pxReadyTasksLists p) xs j" unfolding kl by (rule h(9))
    moreover have "\<not> xYieldPendings s1" unfolding s1(5) by (rule h(4))
    ultimately show ?thesis unfolding slicing_def using s1(6,8,9) by blast
  qed
  show thesis
  proof (cases sw)
    case True
    obtain s' where "vTaskSwitchContext s1 = Some s'" "slicing T idle p xs (Some (hd (turns xs j))) s'"
      "turns xs (Some (hd (turns xs j))) = rotate1 (turns xs j)" "pxCurrentTCB s' = task_of (hd (turns xs j))" by (rule slicing_switch [OF sl1])
    moreover have "tick_interrupt s = Some s'" using s1(1) calculation(1) True by (simp add: tick_interrupt_def)
    ultimately show thesis using that by blast
  next
    case False
    have sw: "sw \<longleftrightarrow> (\<exists>t v. t \<noteq> v \<and> xStateListItem t \<in> set xs \<and> xStateListItem v \<in> set xs)"
      using h(4,5) s1(2) by (simp add: wakes_def h(7) kl m(3))
    have only: "x = ?c" if "x \<in> set xs" for x using False sw m(4) that m(5) [OF that] by (metis task_of.simps(1))
    have "distinct xs" "set_option j \<subseteq> set xs" using h(9) by (simp_all add: ring_def)
    moreover have "set xs = {?c}" using only m(4) by blast
    ultimately have "length xs = 1" "set_option j \<subseteq> set xs" using distinct_card [of xs] by simp_all
    moreover from this have xs: "xs = [?c]" using only by (metis Suc_length_conv One_nat_def length_0_conv list.set_intros(1))
    ultimately have t: "turns xs j = [?c]" by (cases j) (auto simp: xs turns_def)
    have "tick_interrupt s = Some s1" using s1(1) False by (simp add: tick_interrupt_def)
    then show thesis using that sl1 t s1(4) by simp
  qed
qed

text \<open>The tasks that run after each of \<open>n\<close> timer interrupts.\<close>

fun slices :: "nat \<Rightarrow> kernel \<Rightarrow> (tcb list \<times> kernel) option" where
  "slices 0 s = Some ([], s)"
| "slices (Suc n) s = do { s \<leftarrow> tick_interrupt s; (ts, s') \<leftarrow> slices n s; Some (pxCurrentTCB s # ts, s') }"

lemma slicing_turns:
  assumes "slicing T idle p xs j s" "n \<le> length xs"
  shows "\<exists>s' k. slices n s = Some (map task_of (take n (turns xs j)), s') \<and> slicing T idle p xs k s' \<and> turns xs k = rotate n (turns xs j)"
  using assms
proof (induction n arbitrary: s j)
  case 0
  then show ?case by auto
next
  case (Suc n)
  obtain s1 k1 where s1: "tick_interrupt s = Some s1" "slicing T idle p xs k1 s1" "turns xs k1 = rotate1 (turns xs j)" "pxCurrentTCB s1 = task_of (hd (turns xs j))"
    by (rule slicing_tick [OF Suc(2)])
  obtain s' k where s': "slices n s1 = Some (map task_of (take n (turns xs k1)), s')" "slicing T idle p xs k s'" "turns xs k = rotate n (turns xs k1)"
    using Suc(1) [OF s1(2)] Suc(3) by auto
  have "ring (kl s) (pxReadyTasksLists p) xs j" using Suc(2) by (simp add: slicing_def)
  moreover have ne: "xs \<noteq> []" using Suc(3) by auto
  ultimately have "mset (turns xs j) = mset xs" using turns_hd(3) [OF ne] by (simp add: ring_def)
  then have len: "length (turns xs j) = length xs" by (metis size_mset)
  then obtain y ys where y: "turns xs j = y # ys" using Suc(3) by (cases "turns xs j") auto
  have "rotate n (rotate1 (turns xs j)) = rotate (Suc n) (turns xs j)" by (simp add: rotate_def funpow_swap1)
  moreover have "take n (rotate1 (turns xs j)) = take n ys" using y len Suc(3) by simp
  ultimately show ?case using s1 s' y by auto
qed

definition peers :: "kernel \<Rightarrow> tcb set" where
  "peers s = {t. ready s t \<and> uxPriority s t = uxPriority s (pxCurrentTCB s)}"

text \<open>C35: Time slicing is fair. With the scheduler not suspended and no task delayed, successive timer
  interrupts, as many as there are ready tasks of the running task's priority, run each of these
  tasks exactly once, no other, and the following ones run them again in the same order.\<close>

theorem ticks_share_the_processor:
  assumes g: "kgood T idle s" and u: "uxSchedulerSuspended s = 0" "\<not> xYieldPendings s" and d: "\<And>t. \<not> delayed s t"
  shows "\<exists>ts s' s''. slices (card (peers s)) s = Some (ts, s') \<and> distinct ts \<and> set ts = peers s \<and> slices (card (peers s)) s' = Some (ts, s'')"
proof -
  let ?p = "uxPriority s (pxCurrentTCB s)"
  note k = kgoodD(1) [OF g] and b = ksafeD(1) [OF kgoodD(1) [OF g]]
  have "?p < configMAX_PRIORITIES" using kbase_tasks [OF b kbase_current [OF b]] by simp
  then obtain xs j where x: "ring (kl s) (pxReadyTasksLists ?p) xs j" "\<And>i. pxContainer (kl s) i = Some (pxReadyTasksLists ?p) \<longleftrightarrow> i \<in> set xs"
    using lists_okE [OF kbase_lists [OF b], of "pxReadyTasksLists ?p"] by auto
  have sl: "slicing T idle ?p xs j s" using g k b u d x(1) ksafeD(2,3) [OF k] kgoodD(2) [OF g] by (simp add: slicing_def)
  have items: "y = xStateListItem (task_of y)" if "y \<in> set xs" for y using kbase_state_item [OF b] x(2) that by auto
  have inj: "inj_on task_of (set xs)" by (rule inj_onI) (metis items)
  have P: "task_of ` set xs = peers s"
  proof -
    have "t \<in> peers s \<longleftrightarrow> state_of s t = Some (pxReadyTasksLists ?p)" for t
      using kbase_ready [OF b, of t ?p] unfolding peers_def ready_def mem_Collect_eq by metis
    then have e: "t \<in> peers s \<longleftrightarrow> xStateListItem t \<in> set xs" for t by (simp only: x(2))
    show ?thesis
    proof (intro set_eqI iffI)
      show "t \<in> task_of ` set xs \<Longrightarrow> t \<in> peers s" for t using items e by (elim imageE) metis
      show "t \<in> peers s \<Longrightarrow> t \<in> task_of ` set xs" for t using e by (metis image_eqI task_of.simps(1))
    qed
  qed
  have di: "distinct xs" using x(1) by (simp add: ring_def)
  have n: "card (peers s) = length xs" using card_image [OF inj] distinct_card [OF di] by (simp add: P)
  have "xs \<noteq> []" using P kgoodD(2) [OF g] by (auto simp: peers_def)
  then have m: "mset (turns xs j) = mset xs" using turns_hd(3) [of xs j] x(1) by (simp add: ring_def)
  have len: "length (turns xs j) = length xs" using m by (metis size_mset)
  have st: "set (turns xs j) = set xs" "distinct (turns xs j)" using m di by (metis set_mset_mset, metis mset_eq_imp_distinct_iff)
  obtain s' k where s': "slices (length xs) s = Some (map task_of (turns xs j), s')" "slicing T idle ?p xs k s'" "turns xs k = turns xs j"
    using slicing_turns [OF sl le_refl] len by auto
  obtain s'' where "slices (length xs) s' = Some (map task_of (turns xs j), s'')" using slicing_turns [OF s'(2) le_refl] len s'(3) by auto
  moreover have "distinct (map task_of (turns xs j))" "set (map task_of (turns xs j)) = peers s"
    using st inj P by (simp_all add: distinct_map)
  ultimately show ?thesis unfolding n using s'(1) by blast
qed

section \<open>What the scheduler promises\<close>

text \<open>Tasks and an idle task the kernel may be started with.\<close>

definition startable :: "new_task list \<Rightarrow> tcb \<Rightarrow> bool" where
  "startable ts idle \<longleftrightarrow> distinct (idle # map tcb_of ts) \<and> NULL \<notin> set (idle # map tcb_of ts)
     \<and> (\<forall>u \<in> set ts. prio_of u < configMAX_PRIORITIES) \<and> length ts + 1 < 2 ^ 32"

definition all_tasks :: "new_task list \<Rightarrow> tcb \<Rightarrow> tcb set" where "all_tasks ts idle = set (idle # map tcb_of ts)"

definition with_idle :: "new_task list \<Rightarrow> tcb \<Rightarrow> new_task list" where
  "with_idle ts idle = ts @ [([73, 68, 76, 69, 0], 0, idle)]"

text \<open>The ready lists hold the tasks in the order of their creation.\<close>

definition ready_in_order :: "kernel \<Rightarrow> new_task list \<Rightarrow> bool" where
  "ready_in_order s ts \<longleftrightarrow> (\<forall>p < configMAX_PRIORITIES. ring (kl s) (pxReadyTasksLists p)
     (map (xStateListItem \<circ> tcb_of) (filter (\<lambda>x. prio_of x = p) ts)) None)"

lemma first_to_run_last:
  assumes "ts \<noteq> []"
  shows "first_to_run ts = snd (last (filter (\<lambda>x. prio_of x = Max (prio_of ` set ts)) ts))"
proof -
  have "fst (first_to_run ts) = Max (prio_of ` set ts) \<and> first_to_run ts = snd (last (filter (\<lambda>x. prio_of x = Max (prio_of ` set ts)) ts))"
    using assms
  proof (induction ts rule: rev_induct)
    case (snoc x ts)
    have step: "first_to_run (ts @ [x]) = (if fst (first_to_run ts) \<le> prio_of x then snd x else first_to_run ts)" by (simp add: first_to_run_def)
    show ?case
    proof (cases "ts = []")
      case True
      then show ?thesis by (simp add: first_to_run_def)
    next
      case False
      note ih = snoc(1) [OF False]
      have mx: "Max (prio_of ` set (ts @ [x])) = max (prio_of x) (Max (prio_of ` set ts))" using False by (simp add: Max_insert)
      have le: "prio_of y \<le> Max (prio_of ` set ts)" if "y \<in> set ts" for y using that by simp
      show ?thesis
      proof (cases "Max (prio_of ` set ts) \<le> prio_of x")
        case True
        then have "first_to_run (ts @ [x]) = snd x" using step conjunct1 [OF ih] by simp
        moreover have "Max (prio_of ` set (ts @ [x])) = prio_of x" unfolding mx using True by (simp add: max_def)
        ultimately show ?thesis by simp
      next
        case f: False
        then have a: "first_to_run (ts @ [x]) = first_to_run ts" using step conjunct1 [OF ih] by simp
        have b: "Max (prio_of ` set (ts @ [x])) = Max (prio_of ` set ts)" unfolding mx using f by (auto simp: max_def)
        have c: "filter (\<lambda>x. prio_of x = Max (prio_of ` set ts)) (ts @ [x]) = filter (\<lambda>x. prio_of x = Max (prio_of ` set ts)) ts" using f by auto
        show ?thesis unfolding a b c by (rule ih)
      qed
    qed
  qed simp
  then show ?thesis by blast
qed

lemma started:
  assumes "cleared s" "startable ts idle" "kernel_boot ts idle s = Some s0"
  shows "kgood (all_tasks ts idle) idle s0" "uxSchedulerSuspended s0 = 0"
  using boot_good [of s idle ts] assms unfolding startable_def all_tasks_def by auto

lemma legal_calls_append:
  "legal_calls T idle (cs @ ds) s \<Longrightarrow> legal_calls T idle cs s \<and> (kernel_run cs s = Some s' \<longrightarrow> legal_calls (fold tasks_after cs T) idle ds s')"
  by (induction cs arbitrary: T s) (auto split: option.splits)

text \<open>C31: From the cleared memory of the start-up code, with any tasks \<open>main\<close> may create, the kernel
  starts: no assertion fails, the task that runs is the last one created of the highest priority,
  and the ready lists hold the tasks in the order of their creation.\<close>

theorem kernel_starts:
  assumes "cleared s" "startable ts idle"
  shows "\<exists>s'. kernel_boot ts idle s = Some s' \<and> ready_in_order s' (with_idle ts idle)
    \<and> pxCurrentTCB s' = tcb_of (last (filter (\<lambda>x. prio_of x = Max (prio_of ` set (with_idle ts idle))) (with_idle ts idle)))
    \<and> runs_highest s'"
proof -
  have ne: "with_idle ts idle \<noteq> []" by (simp add: with_idle_def)
  obtain s' where s': "kernel_boot ts idle s = Some s'" "runs_highest s'"
    "(uxPriority s' (pxCurrentTCB s'), pxCurrentTCB s') = first_to_run (with_idle ts idle)" "ready_in_order s' (with_idle ts idle)"
    using boot_good [of s idle ts] assms unfolding startable_def ready_in_order_def with_idle_def by blast
  have "pxCurrentTCB s' = snd (first_to_run (with_idle ts idle))" using s'(3) by (metis snd_conv)
  then show ?thesis using s' by (intro exI [of _ s']) (simp add: first_to_run_last [OF ne])
qed

text \<open>C32: No run of the kernel stops: from start-up, any sequence of kernel calls and interrupts within
  the documented rules ends each call, without a failed assertion, a null pointer or an endless
  loop, and whenever a task runs it is ready, and no ready task has a higher priority unless a
  switch is pending.\<close>

theorem kernel_never_stops:
  assumes "cleared s" "startable ts idle" "kernel_boot ts idle s = Some s0" "legal_calls (all_tasks ts idle) idle cs s0"
  shows "\<exists>s'. kernel_run cs s0 = Some s' \<and> ready s' (pxCurrentTCB s') \<and> (runs_highest s' \<or> xYieldPendings s')"
proof -
  obtain s' where "kernel_run cs s0 = Some s'" "kgood (fold tasks_after cs (all_tasks ts idle)) idle s'"
    using kernel_run_good [OF started(1) [OF assms(1-3)] assms(4)] by blast
  then show ?thesis using kgoodD(1,2) ksafeD(3) by blast
qed

text \<open>A task that was to wait \<open>n\<close> ticks, \<open>k\<close> of which have passed, is left to wait in a run.\<close>

lemma waits_in_run:
  assumes g: "kgood T idle s" "uxSchedulerSuspended s = 0" and now: "xTickCount s = now + of_nat k"
    and t: "if k < unat n then delayed s t \<and> wake s t = now + n else ready s t"
    and l: "legal_calls T idle ds s" "spares t ds s"
  shows "\<exists>s'. kernel_run ds s = Some s' \<and> (if k + ticks_in ds - unat (xPendedTicks s') < unat n then delayed s' t else ready s' t)"
proof -
  obtain s' where s': "kernel_run ds s = Some s'" "unat (xPendedTicks s') \<le> unat (xPendedTicks s) + ticks_in ds"
    "elapsed (unat (xPendedTicks s) + ticks_in ds - unat (xPendedTicks s')) (- {t}) s s'"
    using run_elapsed [OF g(1) l] by blast
  have p0: "xPendedTicks s = 0" using kgoodD(3) [OF g] .
  have le: "unat (xPendedTicks s') \<le> ticks_in ds" and e: "elapsed (ticks_in ds - unat (xPendedTicks s')) (- {t}) s s'" using s'(2,3) by (simp_all add: p0)
  show ?thesis
  proof (cases "k < unat n")
    case True
    then have d: "delayed s t" "wake s t = now + n" using t by auto
    have lt: "of_nat k \<le> n" "unat (of_nat k :: u32) = k"
      using True u32_bound [of n] by (simp_all add: word_le_nat_alt unat_of_nat take_bit_nat_eq_self)
    have "wake s t - xTickCount s = n - of_nat k" by (simp add: d(2) now)
    then have "unat (wake s t - xTickCount s) = unat n - k" using lt by (simp add: unat_sub)
    then have "if ticks_in ds - unat (xPendedTicks s') < unat n - k then delayed s' t else ready s' t"
      using e d(1) by (auto simp: elapsed_def)
    moreover have "ticks_in ds - unat (xPendedTicks s') < unat n - k \<longleftrightarrow> k + ticks_in ds - unat (xPendedTicks s') < unat n" using le True by linarith
    ultimately show ?thesis using s'(1) by simp
  next
    case False
    then have "ready s' t" using e t by (simp add: elapsed_def)
    moreover have "\<not> k + ticks_in ds - unat (xPendedTicks s') < unat n" using le False by linarith
    ultimately show ?thesis using s'(1) by simp
  qed
qed

text \<open>C33: A delay lasts exactly as long as it says. At any point of any run from start-up at which a
  task calls \<open>vTaskDelay n\<close> with \<open>n > 0\<close>, and in any continuation in which nobody suspends that task,
  it is delayed as long as fewer than \<open>n\<close> ticks are counted, and ready from then on; ticks that
  occur inside the call, with the scheduler suspended, or by \<open>xTaskCatchUpTicks\<close> count, those still
  pended do not yet, and the overflow of the tick count changes nothing.\<close>

theorem delay_is_exact:
  assumes "cleared s" "startable ts idle" "kernel_boot ts idle s = Some s0" "kernel_run cs s0 = Some s1"
    and l: "legal_calls (all_tasks ts idle) idle (cs @ Delay w n # ds) s0" and n: "n \<noteq> 0"
    and sp: "case exec (Delay w n) s1 of None \<Rightarrow> True | Some s2 \<Rightarrow> spares (pxCurrentTCB s1) ds s2"
  shows "\<exists>s'. kernel_run (Delay w n # ds) s1 = Some s'
    \<and> (if window_ticks w + ticks_in ds - unat (xPendedTicks s') < unat n then delayed s' (pxCurrentTCB s1) else ready s' (pxCurrentTCB s1))"
proof -
  let ?T = "fold tasks_after cs (all_tasks ts idle)"
  note lg = legal_calls_append [OF l, of s1]
  have g: "kgood ?T idle s1" using kernel_run_good [OF started(1) [OF assms(1-3)]] lg assms(4) by fastforce
  have l1: "legal ?T idle (Delay w n) s1" using lg assms(4) by simp
  then have u: "uxSchedulerSuspended s1 = 0" "pxCurrentTCB s1 \<noteq> idle" "legal_irqs w" "window_ticks w < 2 ^ 32" using n by simp_all
  obtain s2 where s2: "vTaskDelay w n s1 = Some s2" "kgood ?T idle s2" "uxSchedulerSuspended s2 = 0" "elapsed (window_ticks w) {pxCurrentTCB s1} s1 s2"
    "if window_ticks w < unat n then delayed s2 (pxCurrentTCB s1) \<and> wake s2 (pxCurrentTCB s1) = xTickCount s1 + n else ready s2 (pxCurrentTCB s1)"
    using delay_safe [OF g u(1,3,4,2) n] by blast
  have c: "xTickCount s2 = xTickCount s1 + of_nat (window_ticks w)" using s2(4) by (simp add: elapsed_def)
  have ld: "legal_calls ?T idle ds s2" "spares (pxCurrentTCB s1) ds s2" using lg assms(4) s2(1) sp by simp_all
  show ?thesis using waits_in_run [OF s2(2,3) c s2(5) ld] s2(1) by simp
qed

text \<open>C34: \<open>xTaskDelayUntil\<close> keeps a period without drift. When the true time is \<open>N\<close> ticks and the task's
  last wake time was \<open>P\<close>, not in the future and less than \<open>2 ^ 32\<close> ticks ago, the call sets the wake
  time to \<open>P + I\<close> and returns whether that is still to come, both for the wrapped counters; the task
  is then ready exactly from the tick \<open>P + I\<close> on, at once if it is over.\<close>

theorem delay_until_keeps_period:
  assumes g: "kgood T idle s" and l: "legal_calls T idle (Delay_until w (of_nat P) (of_nat I) # ds) s"
    and sp: "case exec (Delay_until w (of_nat P) (of_nat I)) s of None \<Rightarrow> True | Some s2 \<Rightarrow> spares (pxCurrentTCB s) ds s2"
    and now: "xTickCount s = of_nat N" "P \<le> N" "N < P + 2 ^ 32" "I < 2 ^ 32"
  shows "\<exists>s1 s'. xTaskDelayUntil w (of_nat P) (of_nat I) s = Some ((of_nat (P + I), N < P + I), s1) \<and> kernel_run ds s1 = Some s'
    \<and> (if N + (window_ticks w + ticks_in ds - unat (xPendedTicks s')) < P + I then delayed s' (pxCurrentTCB s) else ready s' (pxCurrentTCB s))"
proof -
  let ?p = "of_nat P :: u32" and ?i = "of_nat I :: u32" and ?t = "pxCurrentTCB s"
  have u: "uxSchedulerSuspended s = 0" "?t \<noteq> idle" "legal_irqs w" "window_ticks w < 2 ^ 32" "?i \<noteq> 0" using l by simp_all
  have sh: "should_delay (xTickCount s) ?p (?p + ?i) \<longleftrightarrow> N < P + I" unfolding now(1) by (rule should_delay_iff [OF now(2-4)])
  obtain s1 where s1: "xTaskDelayUntil w ?p ?i s = Some ((?p + ?i, N < P + I), s1)" "kgood T idle s1" "uxSchedulerSuspended s1 = 0"
    "elapsed (window_ticks w) {?t} s s1"
    "if N < P + I \<and> window_ticks w < unat (?p + ?i - xTickCount s) then delayed s1 ?t \<and> wake s1 ?t = ?p + ?i else ready s1 ?t"
    using delay_until_safe [OF g u(1,3,4,2,5), of ?p] unfolding sh by blast
  have c: "xTickCount s1 = xTickCount s + of_nat (window_ticks w)" using s1(4) by (simp add: elapsed_def)
  have ld: "legal_calls T idle ds s1" "spares ?t ds s1" using l sp s1(1) by simp_all
  let ?n = "if N < P + I then ?p + ?i - xTickCount s else 0"
  have un: "unat ?n = P + I - N"
  proof (cases "N < P + I")
    case True
    have "?p + ?i - xTickCount s = of_nat (P + I) - of_nat N" by (simp add: now(1))
    also have "\<dots> = of_nat (P + I - N)" using True by (subst of_nat_diff) simp_all
    finally have e: "?p + ?i - xTickCount s = of_nat (P + I - N)" .
    have "P + I - N < 2 ^ 32" using now(2,4) by linarith
    then have "unat (of_nat (P + I - N) :: u32) = P + I - N" by (simp only: unat_of_nat) (simp add: take_bit_nat_eq_self)
    then show ?thesis using True by (simp only: if_True e)
  qed simp
  have "if window_ticks w < unat ?n then delayed s1 ?t \<and> wake s1 ?t = xTickCount s + ?n else ready s1 ?t"
    using s1(5) by (auto split: if_splits)
  from waits_in_run [OF s1(2,3) c this ld] obtain s' where s': "kernel_run ds s1 = Some s'"
    "if window_ticks w + ticks_in ds - unat (xPendedTicks s') < unat ?n then delayed s' ?t else ready s' ?t" by blast
  have "window_ticks w + ticks_in ds - unat (xPendedTicks s') < P + I - N
    \<longleftrightarrow> N + (window_ticks w + ticks_in ds - unat (xPendedTicks s')) < P + I" by linarith
  then have "if N + (window_ticks w + ticks_in ds - unat (xPendedTicks s')) < P + I then delayed s' ?t else ready s' ?t"
    using s'(2) unfolding un by simp
  then show ?thesis using s1(1) s'(1) unfolding of_nat_add by blast
qed

section \<open>Witnesses\<close>

text \<open>Cleared memory; \<open>main\<close> of the preemption test creates two tasks of priority 1.\<close>

definition power_on :: kernel where
  "power_on = \<lparr>kl = \<lparr>pxNext = (\<lambda>n. n), pxPrevious = (\<lambda>n. n), xItemValue = (\<lambda>_. 0), pxContainer = (\<lambda>_. None), pvOwner = (\<lambda>_. 0),
      pxIndex = Marker, uxNumberOfItems = (\<lambda>_. 0)\<rparr>,
     uxPriority = (\<lambda>_. 0), pcTaskName = (\<lambda>_. []), ucNotifyState = (\<lambda>_. 0), stack_low = (\<lambda>_. []), pxCurrentTCB = 0,
     pxDelayedTaskList = xDelayedTaskList1, pxOverflowDelayedTaskList = xDelayedTaskList1, uxCurrentNumberOfTasks = 0, xTickCount = 0,
     uxTopReadyPriority = 0, xSchedulerRunning = False, xPendedTicks = 0, xYieldPendings = False, xNumOfOverflows = 0, uxTaskNumber = 0,
     xNextTaskUnblockTime = 0, uxSchedulerSuspended = 0\<rparr>"

definition two_tasks :: "new_task list" where "two_tasks = [([84, 49, 0], 1, 1), ([84, 50, 0], 1, 2)]"

definition booted :: kernel where "booted = the (kernel_boot two_tasks 3 power_on)"

text \<open>The executable form of the call rules and of the loops.\<close>

lemma below_2_32: "(n :: nat) < 2 ^ 32 \<longleftrightarrow> int n < 4294967296" by simp

lemma legal_code [code]:
  "legal T idle (Interrupt i) s = (legal_irq i \<and> uint (xPendedTicks s) + int (irq_ticks i) < 4294967296)"
  "legal T idle Yield s = True"
  "legal T idle Idle_pass s = True"
  "legal T idle (Delay w n) s = (n = 0 \<or> uxSchedulerSuspended s = 0 \<and> pxCurrentTCB s \<noteq> idle \<and> legal_irqs w \<and> int (window_ticks w) < 4294967296)"
  "legal T idle (Delay_until w p inc) s
    = (inc \<noteq> 0 \<and> uxSchedulerSuspended s = 0 \<and> pxCurrentTCB s \<noteq> idle \<and> legal_irqs w \<and> int (window_ticks w) < 4294967296)"
  "legal T idle (Suspend h) s = (prvGetTCBFromHandle h s \<in> T \<and> prvGetTCBFromHandle h s \<noteq> idle
    \<and> (prvGetTCBFromHandle h s = pxCurrentTCB s \<longrightarrow> uxSchedulerSuspended s = 0))"
  "legal T idle (Resume t) s = (t \<noteq> NULL)"
  "legal T idle Suspend_all s = (uxSchedulerSuspended s + 1 \<noteq> 0)"
  "legal T idle Resume_all s = (uxSchedulerSuspended s \<noteq> 0)"
  "legal T idle (Set_priority h p) s = (prvGetTCBFromHandle h s \<in> T \<and> p < configMAX_PRIORITIES)"
  "legal T idle (Catch_up n) s = (uxSchedulerSuspended s = 0)"
  "legal T idle (Create name p t) s = (t \<notin> T \<and> t \<noteq> NULL \<and> p < configMAX_PRIORITIES \<and> uxCurrentNumberOfTasks s + 1 \<noteq> 0)"
  by (simp_all only: legal.simps below_2_32 of_nat_add uint_nat)

declare insert_walk.simps [code] wake_loop.simps [code] pending_loop.simps [code]

lemma power_on_cleared: "cleared power_on" by (simp add: cleared_def power_on_def)

lemma two_tasks_startable: "startable two_tasks 3" by (simp add: startable_def two_tasks_def configMAX_PRIORITIES_def)

lemma booted_eq: "kernel_boot two_tasks 3 power_on = Some booted"
proof -
  have "\<not> Option.is_none (kernel_boot two_tasks 3 power_on)" by code_simp
  then show ?thesis by (auto simp: booted_def Option.is_none_def)
qed

lemma booted_good: "kgood (all_tasks two_tasks 3) 3 booted" "uxSchedulerSuspended booted = 0"
  by (rule started [OF power_on_cleared two_tasks_startable booted_eq])+

lemma booted_nobody_delayed: "\<not> delayed booted t"
proof
  assume d: "delayed booted t"
  then obtain l where l: "state_of booted t = Some l" "l \<in> {pxDelayedTaskList booted, pxOverflowDelayedTaskList booted}" by (auto simp: delayed_def)
  have "t \<in> all_tasks two_tasks 3" by (rule kbase_state [OF ksafeD(1) [OF kgoodD(1) [OF booted_good(1)]] l(1)])
  then have t: "t \<in> {1, 2, 3}" by (auto simp: all_tasks_def two_tasks_def)
  have "state_of booted 1 = Some (pxReadyTasksLists 1)" "state_of booted 2 = Some (pxReadyTasksLists 1)" "state_of booted 3 = Some (pxReadyTasksLists 0)"
    "pxDelayedTaskList booted = xDelayedTaskList1" "pxOverflowDelayedTaskList booted = xDelayedTaskList2" by code_simp+
  with t l show False by auto
qed

lemma kernel_starts_witness:
  "\<exists>s'. kernel_boot two_tasks 3 power_on = Some s' \<and> ready_in_order s' (with_idle two_tasks 3)
    \<and> pxCurrentTCB s' = tcb_of (last (filter (\<lambda>x. prio_of x = Max (prio_of ` set (with_idle two_tasks 3))) (with_idle two_tasks 3)))
    \<and> runs_highest s'"
  by (rule kernel_starts [OF power_on_cleared two_tasks_startable])

lemma ticks_share_the_processor_witness:
  "\<exists>ts s' s''. slices (card (peers booted)) booted = Some (ts, s') \<and> distinct ts \<and> set ts = peers booted \<and> slices (card (peers booted)) s' = Some (ts, s'')"
proof -
  have "\<not> xYieldPendings booted" by code_simp
  from ticks_share_the_processor [OF booted_good this booted_nobody_delayed] show ?thesis .
qed

text \<open>A run with time slices, a delay of three ticks with a tick taken inside the call, a new task of a
  higher priority, and a tick with the scheduler suspended.\<close>

definition some_calls :: "call list" where
  "some_calls = [Interrupt Tick, Interrupt Tick, Delay ([], [Tick]) 3, Create [84, 51, 0] 2 4, Set_priority 1 3, Suspend_all, Interrupt Tick,
     Resume_all, Suspend 1, Interrupt (Resume_from_isr 1 True), Delay ([Tick], []) 1, Interrupt Tick, Idle_pass]"

lemma kernel_never_stops_witness:
  "\<exists>s'. kernel_run some_calls booted = Some s' \<and> ready s' (pxCurrentTCB s') \<and> (runs_highest s' \<or> xYieldPendings s')"
proof -
  have "legal_calls (all_tasks two_tasks 3) 3 some_calls booted" by code_simp
  from kernel_never_stops [OF power_on_cleared two_tasks_startable booted_eq this] show ?thesis .
qed

lemma delay_is_exact_witness:
  "\<exists>s'. kernel_run (Delay ([], [Tick]) 3 # [Interrupt Tick, Suspend_all, Interrupt Tick, Interrupt Tick]) (the (kernel_run [Interrupt Tick] booted)) = Some s'
    \<and> (if window_ticks ([], [Tick]) + ticks_in [Interrupt Tick, Suspend_all, Interrupt Tick, Interrupt Tick] - unat (xPendedTicks s') < unat (3 :: u32)
       then delayed s' (pxCurrentTCB (the (kernel_run [Interrupt Tick] booted))) else ready s' (pxCurrentTCB (the (kernel_run [Interrupt Tick] booted))))"
proof (rule delay_is_exact [OF power_on_cleared two_tasks_startable booted_eq])
  have "\<not> Option.is_none (kernel_run [Interrupt Tick] booted)" by code_simp
  then show "kernel_run [Interrupt Tick] booted = Some (the (kernel_run [Interrupt Tick] booted))" by (simp add: Option.is_none_def)
  show "legal_calls (all_tasks two_tasks 3) 3 ([Interrupt Tick] @ Delay ([], [Tick]) 3 # [Interrupt Tick, Suspend_all, Interrupt Tick, Interrupt Tick]) booted"
    by code_simp
  show "case exec (Delay ([], [Tick]) 3) (the (kernel_run [Interrupt Tick] booted)) of None \<Rightarrow> True
    | Some s2 \<Rightarrow> spares (pxCurrentTCB (the (kernel_run [Interrupt Tick] booted))) [Interrupt Tick, Suspend_all, Interrupt Tick, Interrupt Tick] s2"
    by code_simp
qed simp

text \<open>The counter is 0 at the true time \<open>2 ^ 32\<close>; the last wake time was two ticks before, the period is 5.\<close>

lemma delay_until_keeps_period_witness:
  "\<exists>s1 s'. xTaskDelayUntil ([], []) (of_nat 4294967294) (of_nat 5) booted = Some ((of_nat (4294967294 + 5), 4294967296 < 4294967294 + (5 :: nat)), s1)
    \<and> kernel_run [Interrupt Tick, Interrupt Tick] s1 = Some s'
    \<and> (if 4294967296 + (window_ticks ([], []) + ticks_in [Interrupt Tick, Interrupt Tick] - unat (xPendedTicks s')) < 4294967294 + 5
       then delayed s' (pxCurrentTCB booted) else ready s' (pxCurrentTCB booted))"
proof (rule delay_until_keeps_period [OF booted_good(1)])
  have e: "of_nat 4294967294 = (4294967294 :: u32)" "of_nat 5 = (5 :: u32)" by simp_all
  show "legal_calls (all_tasks two_tasks 3) 3 (Delay_until ([], []) (of_nat 4294967294) (of_nat 5) # [Interrupt Tick, Interrupt Tick]) booted"
    unfolding e by code_simp
  show "case exec (Delay_until ([], []) (of_nat 4294967294) (of_nat 5)) booted of None \<Rightarrow> True
    | Some s2 \<Rightarrow> spares (pxCurrentTCB booted) [Interrupt Tick, Interrupt Tick] s2"
    unfolding e by code_simp
  have "xTickCount booted = 0" by code_simp
  then show "xTickCount booted = of_nat 4294967296" by simp
qed simp_all

end
