(* ===== verification/Preempt_Test.thy ===== *)
theory Preempt_Test
  imports Freertos_Runs Runtime
begin

text \<open>
  The preemption test (verif/ip/S5740/FREERTOS/preempt): two tasks of the same priority that never
  yield, on the models of the scheduler, of the UART driver and of \<open>printf\<close>. Every access to a
  shared variable is a step of its own, the critical section is one step, and the timer interrupt
  may come between any two steps. The memory \<open>xTaskCreate\<close> allocates is given by the two TCBs'
  addresses and that of the idle task; there is enough of it.
\<close>

section \<open>The program\<close>

definition PREEMPT_SWITCH_TARGET :: int where "PREEMPT_SWITCH_TARGET = 10"

definition PREEMPT_REPORT :: string where
  "PREEMPT_REPORT = CHR 0x0A # ''RTOSOK c1=%lu c2=%lu s=%d p=%d'' @ [CHR 0x0A]"

text \<open>Where a task is in the loop of \<open>prvSpinTask\<close>.\<close>

datatype spin_pc = Count | Enter_critical | Print | Mark_done | Check_done | Report | Step_aside

record preempt =
  kern :: kernel
  uart_dev :: uart
  pvParameters :: "tcb \<Rightarrow> nat option"
  ulRunCount :: "nat \<Rightarrow> u32"
  iLastRunner :: int
  iSwitchCount :: int
  iDone :: bool
  task_pc :: "nat \<Rightarrow> spin_pc"
  iSwitched :: "nat \<Rightarrow> bool"
  iSeq :: "nat \<Rightarrow> int"
  exit_code :: "u32 option"

definition spin_goto :: "nat \<Rightarrow> spin_pc \<Rightarrow> preempt \<Rightarrow> preempt" where
  "spin_goto me pc s = s\<lparr>task_pc := (task_pc s)(me := pc)\<rparr>"

text \<open>The critical section.\<close>

definition spin_critical :: "nat \<Rightarrow> preempt \<Rightarrow> preempt" where
  "spin_critical me s =
     (let s = s\<lparr>iSwitched := (iSwitched s)(me := False)\<rparr>;
          s = s\<lparr>iSeq := (iSeq s)(me := 0)\<rparr>
      in if iLastRunner s \<noteq> int me \<and> \<not> iDone s then
           let s = s\<lparr>iSwitched := (iSwitched s)(me := True)\<rparr>;
               s = (if iLastRunner s \<ge> 0 then
                      let s = s\<lparr>iSwitchCount := iSwitchCount s + 1\<rparr>
                      in s\<lparr>iSeq := (iSeq s)(me := iSwitchCount s)\<rparr>
                    else s)
           in s\<lparr>iLastRunner := int me\<rparr>
         else s)"

text \<open>Task 0's verdict, with interrupts disabled. \<open>None\<close> is an undefined \<open>printf\<close>, or a UART whose
  FIFO never drains.\<close>

definition spin_report :: "preempt \<Rightarrow> preempt option" where
  "spin_report s = do {
     let pass = (ulRunCount s 0 \<noteq> 0 \<and> ulRunCount s 1 \<noteq> 0 \<and> iSwitchCount s \<ge> PREEMPT_SWITCH_TARGET);
     (ws, n) \<leftarrow> printf (Some PREEMPT_REPORT) [VWord (ulRunCount s 0), VWord (ulRunCount s 1), VWord (of_int (iSwitchCount s)), VWord (of_bool pass)];
     u \<leftarrow> console ws (uart_dev s);
     u \<leftarrow> uart_flush u;
     Some (s\<lparr>uart_dev := u, exit_code := Some (if pass then 0 else 2)\<rparr>)
   }"

definition prvSpinTask :: "nat \<Rightarrow> preempt \<Rightarrow> preempt option" where
  "prvSpinTask me s =
     (case task_pc s me of
        Count \<Rightarrow> Some (spin_goto me Enter_critical (s\<lparr>ulRunCount := (ulRunCount s)(me := ulRunCount s me + 1)\<rparr>))
      | Enter_critical \<Rightarrow> Some (spin_goto me Print (spin_critical me s))
      | Print \<Rightarrow> if iSwitched s me then do { u \<leftarrow> uart_putc (char_of (49 + me)) (uart_dev s); Some (spin_goto me Mark_done (s\<lparr>uart_dev := u\<rparr>)) }
                 else Some (spin_goto me Check_done s)
      | Mark_done \<Rightarrow> Some (spin_goto me Check_done (if iSeq s me \<ge> PREEMPT_SWITCH_TARGET then s\<lparr>iDone := True\<rparr> else s))
      | Check_done \<Rightarrow> Some (spin_goto me (if iDone s then if me = 0 then Report else Step_aside else Count) s)
      | Report \<Rightarrow> spin_report s
      | Step_aside \<Rightarrow> do { k \<leftarrow> portYIELD (kern s); Some (spin_goto me Count (s\<lparr>kern := k\<rparr>)) })"

text \<open>The processor runs the current task, a spinning one or the idle task, or takes the tick.\<close>

datatype cpu = Run | Timer_interrupt

fun preempt_step :: "cpu \<Rightarrow> preempt \<Rightarrow> preempt option" where
  "preempt_step ev s =
     (if exit_code s \<noteq> None then Some s
      else case ev of
        Run \<Rightarrow> (case pvParameters s (pxCurrentTCB (kern s)) of
                  Some me \<Rightarrow> prvSpinTask me s
                | None \<Rightarrow> do { k \<leftarrow> prvIdleTask (kern s); Some (s\<lparr>kern := k\<rparr>) })
      | Timer_interrupt \<Rightarrow> do { k \<leftarrow> tick_interrupt (kern s); Some (s\<lparr>kern := k\<rparr>) })"

fun preempt_run :: "cpu list \<Rightarrow> preempt \<Rightarrow> preempt option" where
  "preempt_run [] s = Some s"
| "preempt_run (ev # evs) s = do { s \<leftarrow> preempt_step ev s; preempt_run evs s }"

text \<open>\<open>main\<close>, up to the first instruction of the first task.\<close>

definition preempt_main :: "tcb \<Rightarrow> tcb \<Rightarrow> tcb \<Rightarrow> kernel \<Rightarrow> uart \<Rightarrow> preempt option" where
  "preempt_main t1 t2 idle k u = do {
     u \<leftarrow> uart_putc (CHR ''R'') (uart_init u);
     k \<leftarrow> kernel_boot [([84, 49, 0], 0 + 1, t1), ([84, 50, 0], 0 + 1, t2)] idle k;
     Some \<lparr>kern = k, uart_dev = u, pvParameters = [t1 \<mapsto> 0, t2 \<mapsto> 1], ulRunCount = (\<lambda>_. 0), iLastRunner = - 1, iSwitchCount = 0, iDone = False,
       task_pc = (\<lambda>_. Count), iSwitched = (\<lambda>_. False), iSeq = (\<lambda>_. 0), exit_code = None\<rparr>
   }"

section \<open>The two tasks alternate\<close>

text \<open>Task \<open>a\<close> runs and \<open>b\<close> is next.\<close>

definition alternating :: "tcb \<Rightarrow> tcb \<Rightarrow> tcb \<Rightarrow> kernel \<Rightarrow> bool" where
  "alternating a b idle k \<longleftrightarrow> pxCurrentTCB k = a
     \<and> (\<exists>xs j. slicing {a, b, idle} idle 1 xs j k \<and> turns xs j = [xStateListItem b, xStateListItem a])"

lemma alternating_current: "alternating a b idle k \<Longrightarrow> pxCurrentTCB k = a" by (simp add: alternating_def)

lemma alternating_tick:
  assumes "alternating a b idle k"
  obtains k' where "tick_interrupt k = Some k'" "alternating b a idle k'"
proof -
  obtain xs j where x: "slicing {a, b, idle} idle 1 xs j k" "turns xs j = [xStateListItem b, xStateListItem a]" using assms by (auto simp: alternating_def)
  obtain k' i where k': "tick_interrupt k = Some k'" "slicing {a, b, idle} idle 1 xs i k'" "turns xs i = rotate1 (turns xs j)"
    "pxCurrentTCB k' = task_of (hd (turns xs j))" by (rule slicing_tick [OF x(1)])
  then have "alternating b a idle k'" using x(2) by (auto simp: alternating_def insert_commute)
  then show thesis by (rule that [OF k'(1)])
qed

lemma alternating_yield:
  assumes "alternating a b idle k"
  obtains k' where "portYIELD k = Some k'" "alternating b a idle k'"
proof -
  obtain xs j where x: "slicing {a, b, idle} idle 1 xs j k" "turns xs j = [xStateListItem b, xStateListItem a]" using assms by (auto simp: alternating_def)
  obtain k' where k': "vTaskSwitchContext k = Some k'" "slicing {a, b, idle} idle 1 xs (Some (hd (turns xs j))) k'"
    "turns xs (Some (hd (turns xs j))) = rotate1 (turns xs j)" "pxCurrentTCB k' = task_of (hd (turns xs j))" by (rule slicing_switch [OF x(1)])
  have "alternating b a idle k'" unfolding alternating_def
    by (intro conjI exI [of _ xs] exI [of _ "Some (hd (turns xs j))"]) (use k' x(2) in \<open>simp_all add: insert_commute\<close>)
  then show thesis by (rule that [OF k'(1) [folded portYIELD_def]])
qed

lemma boot_alternates:
  assumes c: "cleared k" and d: "distinct [t1, t2, idle]" "NULL \<notin> {t1, t2, idle}"
  obtains k' where "kernel_boot [([84, 49, 0], 0 + 1, t1), ([84, 50, 0], 0 + 1, t2)] idle k = Some k'" "alternating t2 t1 idle k'"
proof -
  let ?ts = "[([84, 49, 0], 0 + 1, t1), ([84, 50, 0], 0 + 1, t2)] :: new_task list"
  let ?all = "?ts @ [([73, 68, 76, 69, 0], 0, idle)]"
  have lt: "1 < configMAX_PRIORITIES" "0 < configMAX_PRIORITIES" by (simp_all add: configMAX_PRIORITIES_def)
  have d': "distinct (idle # map tcb_of ?ts)" "NULL \<notin> set (idle # map tcb_of ?ts)" "\<forall>u \<in> set ?ts. prio_of u < configMAX_PRIORITIES"
    using d lt by auto
  obtain k' where k': "kernel_boot ?ts idle k = Some k'" "kgood (set (idle # map tcb_of ?ts)) idle k'" "uxSchedulerSuspended k' = 0" "runs_highest k'"
    "\<not> xYieldPendings k'" "(uxPriority k' (pxCurrentTCB k'), pxCurrentTCB k') = first_to_run ?all"
    and R: "\<forall>q < configMAX_PRIORITIES. ring (kl k') (pxReadyTasksLists q) (map (xStateListItem \<circ> tcb_of) (filter (\<lambda>x. prio_of x = q) ?all)) None"
    using boot_good [OF c d'] by auto
  have r: "ring (kl k') (pxReadyTasksLists 1) [xStateListItem t1, xStateListItem t2] None" "ring (kl k') (pxReadyTasksLists 0) [xStateListItem idle] None"
    using R [rule_format, OF lt(1)] R [rule_format, OF lt(2)] by simp_all
  have cur: "uxPriority k' (pxCurrentTCB k') = 1" "pxCurrentTCB k' = t2" using k'(6) by (auto simp: first_to_run_def)
  have T: "set (idle # map tcb_of ?ts) = {t2, t1, idle}" by auto
  note g = k'(2) [unfolded T]
  note b = ksafeD(1) [OF kgoodD(1) [OF g]]
  have st: "state_of k' t1 = Some (pxReadyTasksLists 1)" "state_of k' t2 = Some (pxReadyTasksLists 1)" "state_of k' idle = Some (pxReadyTasksLists 0)"
    using r by (simp_all add: ring_def)
  have "\<not> delayed k' t" for t
  proof
    assume dl: "delayed k' t"
    then obtain l where l: "state_of k' t = Some l" "l = pxDelayedTaskList k' \<or> l = pxOverflowDelayedTaskList k'" by (auto simp: delayed_def)
    have "t \<in> {t2, t1, idle}" by (rule kbase_state [OF b l(1)])
    then have "\<exists>q. l = pxReadyTasksLists q" using st l(1) by auto
    then show False using l(2) kbase_delayed [OF b] by (auto simp: delayed_lists_def)
  qed
  then have "slicing {t2, t1, idle} idle 1 [xStateListItem t1, xStateListItem t2] None k'"
    unfolding slicing_def using b ksafeD(2) [OF kgoodD(1) [OF g]] k'(3-5) r(1) kgoodD(2) [OF g] cur(1) by blast
  then have "alternating t2 t1 idle k'" unfolding alternating_def
    by (intro conjI cur(2) exI [of _ "[xStateListItem t1, xStateListItem t2]"] exI [of _ None]) (simp_all add: turns_def)
  then show thesis by (rule that [OF k'(1)])
qed

section \<open>The report\<close>

definition report_text :: "u32 \<Rightarrow> u32 \<Rightarrow> string \<Rightarrow> string \<Rightarrow> string" where
  "report_text c1 c2 n p = CHR 0x0A # ''RTOSOK c1='' @ num_string 10 False (unat c1) @ '' c2='' @ num_string 10 False (unat c2) @ '' s='' @ n @ '' p='' @ p @ [CHR 0x0A]"

lemma report_defined: "\<exists>s. vformat PREEMPT_REPORT [VWord a, VWord b, VWord c, VWord d] = Some s \<and> int (length s) \<le> INT_MAX"
proof -
  have n: "length (num_string 10 False m) \<le> 20" if "m < 10 ^ 20" for m
    using num_string_length(2) [of 10 m 20 False] that by simp
  have u: "length (num_string 10 False (unat (ucast w :: u64))) \<le> 20" for w :: u32
    using u64_bound [of "ucast w"] by (intro n) simp
  have i: "length (num_string 10 False (nat (sint w))) \<le> 20 \<and> length (num_string 10 False (nat (- sint w))) \<le> 20
    \<and> sint w \<noteq> - 9223372036854775808" for w :: u32
    using sint_ge [of w] sint_lt [of w] by (intro conjI n) simp_all
  show ?thesis using u [of a] u [of b] i [of c] i [of d]
    by (simp add: format_eval utoa_buf_eq scast_u64 PREEMPT_REPORT_def INT_MAX_def)
qed

lemma report_passed: "vformat PREEMPT_REPORT [VWord a, VWord b, VWord 10, VWord 1] = Some (report_text a b ''10'' ''1'')"
proof -
  have u: "unat (ucast w :: u64) = unat w" for w :: u32 using u32_bound [of w] by (simp add: unsigned_ucast_eq take_bit_nat_eq_self)
  have n: "num_string 10 False 10 = ''10''" "num_string 10 False (Suc 0) = ''1''" by code_simp+
  have i: "sint (10 :: u32) = 10" "sint (1 :: u32) = 1" by simp_all
  show ?thesis by (simp add: format_eval utoa_buf_eq scast_u64 PREEMPT_REPORT_def report_text_def u n i)
qed

text \<open>The UART is on and works; a character does not change that.\<close>

definition console_up :: "uart \<Rightarrow> bool" where
  "console_up u \<longleftrightarrow> uart_works u \<and> txen u"

lemma console_up_same: "same_device u v \<Longrightarrow> console_up u \<Longrightarrow> console_up v"
  using same_device_works by (auto simp: console_up_def same_device_def)

lemma putc_up:
  assumes "console_up u"
  obtains v where "uart_putc c u = Some v" "tx_out v = tx_out u @ [c]" "console_up v"
  using uart_putc_sends [of u c] assms console_up_same unfolding console_up_def by blast

section \<open>Every interleaving\<close>

text \<open>Which task is which; the rest of the state after at most \<open>n\<close> steps.\<close>

definition params :: "tcb \<Rightarrow> tcb \<Rightarrow> tcb \<Rightarrow> preempt \<Rightarrow> bool" where
  "params t1 t2 idle s \<longleftrightarrow> distinct [t1, t2, idle] \<and> pvParameters s = [t1 \<mapsto> 0, t2 \<mapsto> 1]
     \<and> (alternating t1 t2 idle (kern s) \<or> alternating t2 t1 idle (kern s))"

definition counts_ok :: "nat \<Rightarrow> preempt \<Rightarrow> bool" where
  "counts_ok n s \<longleftrightarrow> (\<forall>me \<in> {0, 1}. unat (ulRunCount s me) \<le> n \<and> iSeq s me \<le> iSwitchCount s
       \<and> (task_pc s me = Enter_critical \<or> iLastRunner s = int me \<or> 0 < iSwitchCount s \<longrightarrow> ulRunCount s me \<noteq> 0))
     \<and> iLastRunner s \<in> {- 1, 0, 1} \<and> 0 \<le> iSwitchCount s \<and> (iDone s \<longrightarrow> PREEMPT_SWITCH_TARGET \<le> iSwitchCount s)
     \<and> (task_pc s 0 = Report \<longrightarrow> iDone s) \<and> task_pc s 1 \<noteq> Report"

definition preempt_safe :: "tcb \<Rightarrow> tcb \<Rightarrow> tcb \<Rightarrow> nat \<Rightarrow> preempt \<Rightarrow> bool" where
  "preempt_safe t1 t2 idle n s \<longleftrightarrow> (if exit_code s = None then params t1 t2 idle s \<and> counts_ok n s \<and> console_up (uart_dev s) else exit_code s = Some 0)"

lemma params_runs:
  assumes "params t1 t2 idle s"
  obtains me where "pvParameters s (pxCurrentTCB (kern s)) = Some me" "me \<in> {0, 1}"
  using assms alternating_current by (fastforce simp: params_def)

lemma params_frame: "params t1 t2 idle s \<Longrightarrow> kern s' = kern s \<Longrightarrow> pvParameters s' = pvParameters s \<Longrightarrow> params t1 t2 idle s'"
  by (simp add: params_def)

lemma params_switch:
  assumes "params t1 t2 idle s" "\<And>a b. alternating a b idle (kern s) \<Longrightarrow> alternating b a idle k"
  shows "params t1 t2 idle (s\<lparr>kern := k\<rparr>)"
  using assms by (auto simp: params_def)

lemma counts_critical:
  assumes "counts_ok n s" "me \<in> {0, 1}" "task_pc s me = Enter_critical"
  shows "counts_ok n (spin_goto me Print (spin_critical me s))"
  using assms by (auto simp: counts_ok_def spin_critical_def spin_goto_def Let_def)

lemma counts_count:
  assumes "counts_ok n s" "me \<in> {0, 1}" "task_pc s me = Count" "n + 1 < 2 ^ 32"
  shows "counts_ok (n + 1) (spin_goto me Enter_critical (s\<lparr>ulRunCount := (ulRunCount s)(me := ulRunCount s me + 1)\<rparr>))"
proof -
  have "unat (ulRunCount s me) \<le> n" using assms(1,2) by (auto simp: counts_ok_def)
  then have "unat (ulRunCount s me + 1) = unat (ulRunCount s me) + 1" using assms(4) by (simp add: unat_word_ariths)
  then have "unat (ulRunCount s me + 1) \<le> n + 1" "ulRunCount s me + 1 \<noteq> 0" using \<open>unat (ulRunCount s me) \<le> n\<close> by (simp_all add: unat_eq_zero [symmetric] del: unat_eq_zero)
  then show ?thesis using assms(1-3) by (auto simp: counts_ok_def spin_goto_def)
qed

lemma counts_frame [simp]: "counts_ok n (s\<lparr>uart_dev := u\<rparr>) = counts_ok n s" "counts_ok n (s\<lparr>kern := k\<rparr>) = counts_ok n s"
  by (simp_all add: counts_ok_def)

lemma counts_goto:
  assumes "counts_ok n s" "me \<in> {0, 1}" "pc \<noteq> Enter_critical" "pc = Report \<Longrightarrow> me = 0 \<and> iDone s"
  shows "counts_ok n (spin_goto me pc s)"
proof -
  have "pc \<noteq> Report \<or> me = 0 \<and> iDone s" using assms(4) by blast
  then show ?thesis using assms(1-3) unfolding counts_ok_def by (auto simp: spin_goto_def)
qed

lemma counts_mark: "counts_ok n s \<Longrightarrow> me \<in> {0, 1} \<Longrightarrow> PREEMPT_SWITCH_TARGET \<le> iSeq s me \<Longrightarrow> counts_ok n (s\<lparr>iDone := True\<rparr>)"
  unfolding counts_ok_def by fastforce

lemma spin_goto_frame [simp]: "kern (spin_goto me pc s) = kern s" "pvParameters (spin_goto me pc s) = pvParameters s"
  "exit_code (spin_goto me pc s) = exit_code s" "uart_dev (spin_goto me pc s) = uart_dev s"
  by (simp_all add: spin_goto_def)

lemma spin_critical_frame [simp]: "kern (spin_critical me s) = kern s" "pvParameters (spin_critical me s) = pvParameters s"
  "exit_code (spin_critical me s) = exit_code s" "uart_dev (spin_critical me s) = uart_dev s"
  by (simp_all add: spin_critical_def Let_def)

text \<open>The report reaches the line whole: nothing is left in the FIFO when the program exits.\<close>

lemma report_prints:
  assumes "console_up (uart_dev s)"
    and "pass \<longleftrightarrow> ulRunCount s 0 \<noteq> 0 \<and> ulRunCount s 1 \<noteq> 0 \<and> iSwitchCount s \<ge> PREEMPT_SWITCH_TARGET"
    and "vformat PREEMPT_REPORT [VWord (ulRunCount s 0), VWord (ulRunCount s 1), VWord (of_int (iSwitchCount s)), VWord (of_bool pass)] = Some t"
    and "int (length t) \<le> INT_MAX"
  shows "\<exists>u. spin_report s = Some (s\<lparr>uart_dev := u, exit_code := Some (if pass then 0 else 2)\<rparr>)
    \<and> tx_line u = tx_out (uart_dev s) @ crlf t \<and> tx_fifo u = []"
proof -
  obtain ws u v where "printf (Some PREEMPT_REPORT) [VWord (ulRunCount s 0), VWord (ulRunCount s 1), VWord (of_int (iSwitchCount s)), VWord (of_bool pass)]
      = Some (ws, int (length t))" "console ws (uart_dev s) = Some u" "uart_flush u = Some v"
    "tx_fifo v = []" "tx_line v = tx_out (uart_dev s) @ crlf t"
    using printf_sent [OF assms(3,4)] assms(1) unfolding console_up_def by blast
  then show ?thesis unfolding spin_report_def Let_def assms(2) [symmetric] by (intro exI [of _ v]) simp
qed

lemma report_safe:
  assumes c: "counts_ok n s" and r: "task_pc s 0 = Report" and f: "console_up (uart_dev s)"
  shows "\<exists>s'. spin_report s = Some s' \<and> exit_code s' = Some 0"
proof -
  have pass: "True \<longleftrightarrow> ulRunCount s 0 \<noteq> 0 \<and> ulRunCount s 1 \<noteq> 0 \<and> iSwitchCount s \<ge> PREEMPT_SWITCH_TARGET"
    using c r by (auto simp: counts_ok_def PREEMPT_SWITCH_TARGET_def)
  obtain t where "vformat PREEMPT_REPORT [VWord (ulRunCount s 0), VWord (ulRunCount s 1), VWord (of_int (iSwitchCount s)), VWord (of_bool True)] = Some t"
    "int (length t) \<le> INT_MAX" using report_defined by blast
  from report_prints [OF f pass this] show ?thesis by auto
qed

lemma preempt_step_safe:
  assumes s: "preempt_safe t1 t2 idle n s" and n: "n + 1 < 2 ^ 32"
  shows "\<exists>s'. preempt_step ev s = Some s' \<and> preempt_safe t1 t2 idle (n + 1) s'"
proof (cases "exit_code s = None")
  case True
  then have p: "params t1 t2 idle s" and c: "counts_ok n s" and f: "console_up (uart_dev s)" using s by (simp_all add: preempt_safe_def)
  have mono: "counts_ok (n + 1) s'" if "counts_ok n s'" for s' using that by (auto simp: counts_ok_def)
  show ?thesis
  proof (cases ev)
    case Timer_interrupt
    obtain k where k: "tick_interrupt (kern s) = Some k" "\<And>a b. alternating a b idle (kern s) \<Longrightarrow> alternating b a idle k"
      using p alternating_tick unfolding params_def by (metis option.inject)
    have "counts_ok n (s\<lparr>kern := k\<rparr>)" using c by (simp add: counts_ok_def)
    then show ?thesis using k(1) True Timer_interrupt params_switch [OF p k(2)] mono f by (simp add: preempt_safe_def)
  next
    case Run
    obtain me where me: "pvParameters s (pxCurrentTCB (kern s)) = Some me" "me \<in> {0, 1}" by (rule params_runs [OF p])
    have step: "preempt_step ev s = prvSpinTask me s" using Run True me(1) by simp
    have ok: "\<exists>t. Some s' = Some t \<and> preempt_safe t1 t2 idle (n + 1) t" if "kern s' = kern s" "pvParameters s' = pvParameters s" "exit_code s' = None"
      "counts_ok (n + 1) s'" "console_up (uart_dev s')" for s'
      using that params_frame [OF p that(1,2)] by (simp add: preempt_safe_def)
    show ?thesis
    proof (cases "task_pc s me")
      case Count
      show ?thesis unfolding step prvSpinTask_def Count spin_pc.case
        by (rule ok) (simp_all add: True f counts_count [OF c me(2) Count n, simplified])
    next
      case Enter_critical
      show ?thesis unfolding step prvSpinTask_def Enter_critical spin_pc.case
        by (rule ok) (simp_all add: True f mono [OF counts_critical [OF c me(2) Enter_critical], simplified])
    next
      case Print
      obtain u where u: "uart_putc (char_of (49 + me)) (uart_dev s) = Some u" "console_up u" by (rule putc_up [OF f])
      have c': "counts_ok n (spin_goto me Mark_done (s\<lparr>uart_dev := u\<rparr>))" "counts_ok n (spin_goto me Check_done s)"
        by (rule counts_goto; use c me(2) in simp)+
      have "\<exists>t. Some (spin_goto me Mark_done (s\<lparr>uart_dev := u\<rparr>)) = Some t \<and> preempt_safe t1 t2 idle (n + 1) t"
        "\<exists>t. Some (spin_goto me Check_done s) = Some t \<and> preempt_safe t1 t2 idle (n + 1) t"
        using c' u(2) f by (intro ok mono; simp add: True)+
      then show ?thesis unfolding step prvSpinTask_def Print spin_pc.case using u(1) by simp
    next
      case Mark_done
      have "counts_ok n (if iSeq s me \<ge> PREEMPT_SWITCH_TARGET then s\<lparr>iDone := True\<rparr> else s)" using counts_mark [OF c me(2)] c by simp
      then have "counts_ok n (spin_goto me Check_done (if iSeq s me \<ge> PREEMPT_SWITCH_TARGET then s\<lparr>iDone := True\<rparr> else s))"
        by (rule counts_goto) (use me(2) in simp_all)
      then show ?thesis unfolding step prvSpinTask_def Mark_done spin_pc.case
        by (intro ok mono) (simp_all add: True f)
    next
      case Check_done
      have "counts_ok n (spin_goto me (if iDone s then if me = 0 then Report else Step_aside else Count) s)"
        by (rule counts_goto [OF c me(2)]) (auto split: if_splits)
      then show ?thesis unfolding step prvSpinTask_def Check_done spin_pc.case
        by (intro ok mono) (simp_all add: True f)
    next
      case Report
      then have "me = 0" using c me(2) by (auto simp: counts_ok_def)
      with Report obtain s' where "spin_report s = Some s'" "exit_code s' = Some 0" using report_safe [OF c _ f] by auto
      then show ?thesis unfolding step prvSpinTask_def Report by (simp add: preempt_safe_def)
    next
      case Step_aside
      obtain k where k: "portYIELD (kern s) = Some k" "\<And>a b. alternating a b idle (kern s) \<Longrightarrow> alternating b a idle k"
        using p alternating_yield unfolding params_def by (metis option.inject)
      have "counts_ok n (spin_goto me Count (s\<lparr>kern := k\<rparr>))" using c me(2) by (auto simp: counts_ok_def spin_goto_def)
      moreover have "params t1 t2 idle (spin_goto me Count (s\<lparr>kern := k\<rparr>))"
        using params_frame [OF params_switch [OF p k(2)]] by (simp add: spin_goto_def)
      ultimately show ?thesis unfolding step prvSpinTask_def Step_aside using k(1) mono f True by (simp add: preempt_safe_def)
    qed
  qed
next
  case False
  then show ?thesis using s by (auto simp: preempt_safe_def)
qed

declare preempt_step.simps [simp del]

lemma preempt_run_safe:
  "preempt_safe t1 t2 idle n s \<Longrightarrow> n + length evs < 2 ^ 32 \<Longrightarrow> \<exists>s'. preempt_run evs s = Some s' \<and> preempt_safe t1 t2 idle (n + length evs) s'"
proof (induction evs arbitrary: n s)
  case (Cons ev evs)
  obtain s1 where s1: "preempt_step ev s = Some s1" "preempt_safe t1 t2 idle (n + 1) s1" using preempt_step_safe [OF Cons(2), of ev] Cons(3) by auto
  then show ?case using Cons(1) [OF s1(2)] Cons(3) by simp
qed simp

section \<open>Slices long enough for a character\<close>

text \<open>Task \<open>me\<close> runs and nobody is done; neither task is about to print.\<close>

definition quiet :: "nat \<Rightarrow> preempt \<Rightarrow> bool" where
  "quiet me s \<longleftrightarrow> task_pc s me \<in> {Count, Enter_critical, Check_done} \<or> task_pc s me = Print \<and> \<not> iSwitched s me"

definition playing :: "tcb \<Rightarrow> tcb \<Rightarrow> tcb \<Rightarrow> nat \<Rightarrow> preempt \<Rightarrow> bool" where
  "playing t1 t2 idle me s \<longleftrightarrow> distinct [t1, t2, idle] \<and> pvParameters s = [t1 \<mapsto> 0, t2 \<mapsto> 1] \<and> me \<in> {0, 1} \<and> exit_code s = None \<and> console_up (uart_dev s)
     \<and> (if me = 0 then alternating t1 t2 idle (kern s) else alternating t2 t1 idle (kern s)) \<and> quiet (1 - me) s"

lemma playing_runs: "playing t1 t2 idle me s \<Longrightarrow> preempt_step Run s = prvSpinTask me s"
  using alternating_current by (fastforce simp: playing_def preempt_step.simps split: if_splits)

lemma playing_frame:
  "playing t1 t2 idle me s \<Longrightarrow> kern s' = kern s \<Longrightarrow> pvParameters s' = pvParameters s \<Longrightarrow> exit_code s' = None \<Longrightarrow> console_up (uart_dev s')
    \<Longrightarrow> task_pc s' (1 - me) = task_pc s (1 - me) \<Longrightarrow> iSwitched s' (1 - me) = iSwitched s (1 - me) \<Longrightarrow> playing t1 t2 idle me s'"
  by (simp add: playing_def quiet_def)

text \<open>How far the running task is from having shown itself: \<open>l\<close> ran before, \<open>c\<close> switches are counted.\<close>

definition stage :: "nat \<Rightarrow> int \<Rightarrow> int \<Rightarrow> string \<Rightarrow> nat \<Rightarrow> preempt \<Rightarrow> bool" where
  "stage me l c out k s \<longleftrightarrow>
     (if k = 0 then quiet me s \<and> iLastRunner s = int me \<and> tx_out (uart_dev s) = out @ [char_of (49 + me)]
      else if k = 1 then task_pc s me = Mark_done \<and> iLastRunner s = int me \<and> tx_out (uart_dev s) = out @ [char_of (49 + me)]
      else if k = 2 then task_pc s me = Print \<and> iSwitched s me \<and> iLastRunner s = int me \<and> tx_out (uart_dev s) = out
      else if k = 3 then task_pc s me = Enter_critical \<and> iLastRunner s = l \<and> tx_out (uart_dev s) = out
      else if k = 4 then task_pc s me = Count \<and> iLastRunner s = l \<and> tx_out (uart_dev s) = out
      else if k = 5 then task_pc s me = Check_done \<and> iLastRunner s = l \<and> tx_out (uart_dev s) = out
      else k = 6 \<and> task_pc s me = Print \<and> \<not> iSwitched s me \<and> iLastRunner s = l \<and> tx_out (uart_dev s) = out)
     \<and> \<not> iDone s \<and> iSwitchCount s = (if k < 3 \<and> 0 \<le> l then c + 1 else c) \<and> (k = 1 \<or> k = 2 \<longrightarrow> iSeq s me = (if 0 \<le> l then c + 1 else 0))"

lemma stage_quiet:
  assumes "quiet me s" "iLastRunner s = l" "tx_out (uart_dev s) = out" "\<not> iDone s" "iSwitchCount s = c"
  obtains k where "3 \<le> k" "k \<le> 6" "stage me l c out k s"
proof -
  from assms(1) consider "task_pc s me = Enter_critical" | "task_pc s me = Count" | "task_pc s me = Check_done" | "task_pc s me = Print" "\<not> iSwitched s me"
    by (auto simp: quiet_def)
  then show thesis
  proof cases
    case 1 then show thesis using assms by (intro that [of 3]) (simp_all add: stage_def)
  next
    case 2 then show thesis using assms by (intro that [of 4]) (simp_all add: stage_def)
  next
    case 3 then show thesis using assms by (intro that [of 5]) (simp_all add: stage_def)
  next
    case 4 then show thesis using assms by (intro that [of 6]) (simp_all add: stage_def)
  qed
qed

lemma stage_step:
  assumes p: "playing t1 t2 idle me s" and k: "stage me l c out k s" and l: "l \<noteq> int me" and c: "k = 1 \<Longrightarrow> c + 1 < PREEMPT_SWITCH_TARGET"
  shows "\<exists>s'. preempt_step Run s = Some s' \<and> playing t1 t2 idle me s' \<and> stage me l c out (k - 1) s'"
proof -
  have me: "1 - me \<noteq> me" "exit_code s = None" "console_up (uart_dev s)" using p by (auto simp: playing_def)
  note P = playing_runs [OF p] playing_frame [OF p]
  have "k \<le> 6" using k by (auto simp: stage_def split: if_splits)
  then consider "k = 0" | "k = 1" | "k = 2" | "k = 3" | "k = 4" | "k = 5" | "k = 6" by linarith
  then show ?thesis
  proof cases
    case 1
    then have q: "quiet me s" "iLastRunner s = int me" "\<not> iDone s" using k by (simp_all add: stage_def)
    from q(1) consider "task_pc s me = Enter_critical" | "task_pc s me = Count" | "task_pc s me = Check_done" | "task_pc s me = Print" "\<not> iSwitched s me"
      by (auto simp: quiet_def)
    then show ?thesis
      by cases (use k 1 q me in \<open>simp_all add: P prvSpinTask_def stage_def quiet_def spin_goto_def spin_critical_def Let_def\<close>)
  next
    case 2
    then have "task_pc s me = Mark_done" "iSeq s me < PREEMPT_SWITCH_TARGET" using k c [OF 2] by (simp_all add: stage_def PREEMPT_SWITCH_TARGET_def split: if_splits)
    then show ?thesis using k 2 me by (simp add: P prvSpinTask_def stage_def quiet_def spin_goto_def Let_def)
  next
    case 3
    obtain u where u: "uart_putc (char_of (49 + me)) (uart_dev s) = Some u" "tx_out u = tx_out (uart_dev s) @ [char_of (49 + me)]" "console_up u"
      by (rule putc_up [OF me(3)])
    show ?thesis using k 3 me u by (simp add: P prvSpinTask_def stage_def quiet_def spin_goto_def Let_def)
  next
    case 4
    then show ?thesis using k me l by (simp add: P prvSpinTask_def stage_def quiet_def spin_goto_def spin_critical_def Let_def)
  next
    case 5
    then show ?thesis using k me by (simp add: P prvSpinTask_def stage_def quiet_def spin_goto_def Let_def)
  next
    case 6
    then show ?thesis using k me by (simp add: P prvSpinTask_def stage_def quiet_def spin_goto_def Let_def)
  next
    case 7
    then show ?thesis using k me by (simp add: P prvSpinTask_def stage_def quiet_def spin_goto_def Let_def)
  qed
qed

lemma stage_run:
  assumes "playing t1 t2 idle me s" "stage me l c out k s" "k \<le> n" "l \<noteq> int me" "c + 1 < PREEMPT_SWITCH_TARGET"
  shows "\<exists>s'. preempt_run (replicate n Run) s = Some s' \<and> playing t1 t2 idle me s' \<and> stage me l c out 0 s'"
  using assms(1-3)
proof (induction n arbitrary: k s)
  case 0
  then show ?case by simp
next
  case (Suc n)
  obtain s1 where s1: "preempt_step Run s = Some s1" "playing t1 t2 idle me s1" "stage me l c out (k - 1) s1"
    using stage_step [OF Suc(2,3) assms(4,5)] by blast
  have "k - 1 \<le> n" using Suc(4) by linarith
  from Suc(1) [OF s1(2,3) this] s1(1) show ?case by simp
qed

text \<open>The start of a slice of \<open>me\<close>, after one in which \<open>l\<close> has shown itself.\<close>

definition turn :: "tcb \<Rightarrow> tcb \<Rightarrow> tcb \<Rightarrow> nat \<Rightarrow> int \<Rightarrow> int \<Rightarrow> string \<Rightarrow> preempt \<Rightarrow> bool" where
  "turn t1 t2 idle me l c out s \<longleftrightarrow> playing t1 t2 idle me s \<and> quiet me s \<and> iLastRunner s = l \<and> \<not> iDone s \<and> iSwitchCount s = c \<and> tx_out (uart_dev s) = out"

definition time_slice :: "nat \<Rightarrow> cpu list" where "time_slice n = replicate n Run @ [Timer_interrupt]"

lemma preempt_run_append: "preempt_run (as @ bs) s = preempt_run as s \<bind> preempt_run bs"
  by (induction as arbitrary: s) (auto split: Option.bind_splits)

lemma tick_turns:
  assumes "playing t1 t2 idle me s" "quiet me s"
  shows "\<exists>k. preempt_step Timer_interrupt s = Some (s\<lparr>kern := k\<rparr>) \<and> playing t1 t2 idle (1 - me) (s\<lparr>kern := k\<rparr>) \<and> quiet (1 - me) (s\<lparr>kern := k\<rparr>)"
proof -
  have me: "me = 0 \<or> me = 1" "exit_code s = None" using assms(1) by (auto simp: playing_def)
  obtain k where k: "tick_interrupt (kern s) = Some k" "if me = 0 then alternating t2 t1 idle k else alternating t1 t2 idle k"
    using assms(1) alternating_tick unfolding playing_def by (metis (full_types))
  have "playing t1 t2 idle (1 - me) (s\<lparr>kern := k\<rparr>)" "quiet (1 - me) (s\<lparr>kern := k\<rparr>)"
    using assms k(2) me by (auto simp: playing_def quiet_def)
  then show ?thesis using k(1) me(2) by (intro exI [of _ k]) (simp add: preempt_step.simps)
qed

lemma slice_turns:
  assumes t: "turn t1 t2 idle me l c out s" and n: "6 \<le> n" and l: "l \<noteq> int me" "c + 1 < PREEMPT_SWITCH_TARGET"
  shows "\<exists>s'. preempt_run (time_slice n) s = Some s'
    \<and> turn t1 t2 idle (1 - me) (int me) (if 0 \<le> l then c + 1 else c) (out @ [char_of (49 + me)]) s'"
proof -
  have p: "playing t1 t2 idle me s" "quiet me s" "iLastRunner s = l" "\<not> iDone s" "iSwitchCount s = c" "tx_out (uart_dev s) = out"
    using t by (simp_all add: turn_def)
  obtain k where k: "k \<le> 6" "stage me l c out k s" by (rule stage_quiet [OF p(2,3,6,4,5)])
  obtain s1 where s1: "preempt_run (replicate n Run) s = Some s1" "playing t1 t2 idle me s1" "stage me l c out 0 s1"
    using stage_run [OF p(1) k(2) _ l] k(1) n by (metis le_trans)
  have d: "quiet me s1" "iLastRunner s1 = int me" "tx_out (uart_dev s1) = out @ [char_of (49 + me)]" "\<not> iDone s1" "iSwitchCount s1 = (if 0 \<le> l then c + 1 else c)"
    using s1(3) by (simp_all add: stage_def)
  obtain q where "preempt_step Timer_interrupt s1 = Some (s1\<lparr>kern := q\<rparr>)" "playing t1 t2 idle (1 - me) (s1\<lparr>kern := q\<rparr>)" "quiet (1 - me) (s1\<lparr>kern := q\<rparr>)"
    using tick_turns [OF s1(2) d(1)] by blast
  then show ?thesis using s1(1) d by (simp add: time_slice_def preempt_run_append turn_def)
qed

lemma task_chars: "char_of (49 :: nat) = CHR ''1''" "char_of (50 :: nat) = CHR ''2''" by code_simp+

fun marks :: "nat \<Rightarrow> nat \<Rightarrow> string" where
  "marks me 0 = []"
| "marks me (Suc m) = char_of (49 + me) # marks (1 - me) m"

lemma slices_turn:
  assumes "turn t1 t2 idle me (int (1 - me)) c out s" "\<forall>n \<in> set ns. 6 \<le> n" "c + int (length ns) < PREEMPT_SWITCH_TARGET" "0 \<le> c"
  shows "\<exists>s'. preempt_run (concat (map time_slice ns)) s = Some s'
    \<and> (let me' = if even (length ns) then me else 1 - me in turn t1 t2 idle me' (int (1 - me')) (c + int (length ns)) (out @ marks me (length ns)) s')"
  using assms
proof (induction ns arbitrary: me c out s)
  case (Cons n ns)
  have me: "me = 0 \<or> me = 1" using Cons(2) by (auto simp: turn_def playing_def)
  then have l: "int (1 - me) \<noteq> int me" "1 - (1 - me) = me" by auto
  obtain s1 where s1: "preempt_run (time_slice n) s = Some s1"
    "turn t1 t2 idle (1 - me) (int me) (c + 1) (out @ [char_of (49 + me)]) s1"
    using slice_turns [OF Cons(2) _ l(1)] Cons(3,4) by auto
  have c: "c + 1 + int (length ns) < PREEMPT_SWITCH_TARGET" "0 \<le> c + 1" using Cons(4,5) by simp_all
  have t1': "turn t1 t2 idle (1 - me) (int (1 - (1 - me))) (c + 1) (out @ [char_of (49 + me)]) s1" unfolding l(2) by (rule s1(2))
  obtain s2 where "preempt_run (concat (map time_slice ns)) s1 = Some s2"
    "let me' = if even (length ns) then 1 - me else 1 - (1 - me) in turn t1 t2 idle me' (int (1 - me')) (c + 1 + int (length ns))
      ((out @ [char_of (49 + me)]) @ marks (1 - me) (length ns)) s2"
    using Cons(1) [OF t1' _ c] Cons(3) by auto
  then show ?case using s1(1) l(2) by (simp add: preempt_run_append Let_def ac_simps split: if_splits)
qed (simp add: turn_def)

section \<open>The end\<close>

definition closing :: "tcb \<Rightarrow> tcb \<Rightarrow> tcb \<Rightarrow> string \<Rightarrow> nat \<Rightarrow> preempt \<Rightarrow> bool" where
  "closing t1 t2 idle out k s \<longleftrightarrow> distinct [t1, t2, idle] \<and> pvParameters s = [t1 \<mapsto> 0, t2 \<mapsto> 1] \<and> exit_code s = None \<and> iDone s
     \<and> iSwitchCount s = PREEMPT_SWITCH_TARGET \<and> tx_out (uart_dev s) = out \<and> console_up (uart_dev s)
     \<and> (if k = 7 then alternating t2 t1 idle (kern s) \<and> quiet 0 s \<and> task_pc s 1 = Check_done
        else if k = 6 then alternating t2 t1 idle (kern s) \<and> quiet 0 s \<and> task_pc s 1 = Step_aside
        else alternating t1 t2 idle (kern s)
          \<and> (if k = 5 then task_pc s 0 = Count else if k = 4 then task_pc s 0 = Enter_critical else if k = 3 then task_pc s 0 = Print \<and> \<not> iSwitched s 0
             else if k = 2 then task_pc s 0 = Check_done else k = 1 \<and> task_pc s 0 = Report))"

definition reported :: "string \<Rightarrow> preempt \<Rightarrow> bool" where
  "reported out s \<longleftrightarrow> exit_code s \<noteq> None \<and> (exit_code s = Some 0 \<longrightarrow> tx_fifo (uart_dev s) = []
     \<and> tx_line (uart_dev s) = out @ crlf (report_text (ulRunCount s 0) (ulRunCount s 1) ''10'' ''1''))"

lemma report_reports:
  assumes "console_up (uart_dev s)" "tx_out (uart_dev s) = out" "iSwitchCount s = PREEMPT_SWITCH_TARGET"
  shows "\<exists>s'. spin_report s = Some s' \<and> reported out s'"
proof -
  let ?pass = "ulRunCount s 0 \<noteq> 0 \<and> ulRunCount s 1 \<noteq> 0 \<and> iSwitchCount s \<ge> PREEMPT_SWITCH_TARGET"
  obtain t where t: "vformat PREEMPT_REPORT [VWord (ulRunCount s 0), VWord (ulRunCount s 1), VWord (of_int (iSwitchCount s)), VWord (of_bool ?pass)] = Some t"
    "int (length t) \<le> INT_MAX" using report_defined by blast
  have "t = report_text (ulRunCount s 0) (ulRunCount s 1) ''10'' ''1''" if ?pass
    using t(1) that assms(3) report_passed [of "ulRunCount s 0" "ulRunCount s 1"] by (simp add: PREEMPT_SWITCH_TARGET_def)
  then show ?thesis using report_prints [OF assms(1) HOL.refl t] assms(2) by (auto simp: reported_def)
qed

lemma closing_step:
  assumes c: "closing t1 t2 idle out k s" and k: "1 < k"
  shows "\<exists>s' k'. preempt_step Run s = Some s' \<and> closing t1 t2 idle out k' s' \<and> 1 \<le> k' \<and> k' < k"
proof -
  have "k \<le> 7" using c by (auto simp: closing_def split: if_splits)
  have h: "t1 \<noteq> t2" "pvParameters s = [t1 \<mapsto> 0, t2 \<mapsto> 1]" "exit_code s = None" "iDone s" using c by (simp_all add: closing_def)
  have me0: "preempt_step Run s = prvSpinTask 0 s" if "k < 6"
    using c that h alternating_current by (fastforce simp: closing_def preempt_step.simps)
  have me1: "preempt_step Run s = prvSpinTask 1 s" if "k = 6 \<or> k = 7"
    using c that h alternating_current by (fastforce simp: closing_def preempt_step.simps)
  consider "k = 2" | "k = 3" | "k = 4" | "k = 5" | "k = 6" | "k = 7" using k \<open>k \<le> 7\<close> by linarith
  then show ?thesis
  proof cases
    case 1 show ?thesis by (intro exI [of _ "spin_goto 0 Report s"] exI [of _ 1]) (use c 1 me0 in \<open>simp add: closing_def prvSpinTask_def spin_goto_def\<close>)
  next
    case 2 show ?thesis by (intro exI [of _ "spin_goto 0 Check_done s"] exI [of _ 2]) (use c 2 me0 in \<open>simp add: closing_def prvSpinTask_def spin_goto_def\<close>)
  next
    case 3 show ?thesis by (intro exI [of _ "spin_goto 0 Print (spin_critical 0 s)"] exI [of _ 3]) (use c 3 me0 in \<open>simp add: closing_def prvSpinTask_def spin_goto_def spin_critical_def Let_def\<close>)
  next
    case 4 show ?thesis
      by (intro exI [of _ "spin_goto 0 Enter_critical (s\<lparr>ulRunCount := (ulRunCount s)(0 := ulRunCount s 0 + 1)\<rparr>)"] exI [of _ 4])
        (use c 4 me0 in \<open>simp add: closing_def prvSpinTask_def spin_goto_def\<close>)
  next
    case 5
    have a: "alternating t2 t1 idle (kern s)" "quiet 0 s" "task_pc s 1 = Step_aside" using c 5 by (simp_all add: closing_def)
    obtain q where q: "portYIELD (kern s) = Some q" "alternating t1 t2 idle q" by (rule alternating_yield [OF a(1)])
    let ?s = "spin_goto 1 Count (s\<lparr>kern := q\<rparr>)"
    have "\<exists>k'. closing t1 t2 idle out k' ?s \<and> 1 \<le> k' \<and> k' < 6"
    proof -
      from a(2) consider "task_pc s 0 = Enter_critical" | "task_pc s 0 = Count" | "task_pc s 0 = Check_done" | "task_pc s 0 = Print" "\<not> iSwitched s 0"
        by (auto simp: quiet_def)
      then show ?thesis
      proof cases
        case 1 then show ?thesis using c 5 q(2) by (intro exI [of _ 4]) (simp add: closing_def spin_goto_def)
      next
        case 2 then show ?thesis using c 5 q(2) by (intro exI [of _ 5]) (simp add: closing_def spin_goto_def)
      next
        case 3 then show ?thesis using c 5 q(2) by (intro exI [of _ 2]) (simp add: closing_def spin_goto_def)
      next
        case 4 then show ?thesis using c 5 q(2) by (intro exI [of _ 3]) (simp add: closing_def spin_goto_def)
      qed
    qed
    moreover have "preempt_step Run s = Some ?s" using me1 5 a(3) q(1) by (simp add: prvSpinTask_def)
    ultimately show ?thesis using 5 by blast
  next
    case 6 show ?thesis by (intro exI [of _ "spin_goto 1 Step_aside s"] exI [of _ 6]) (use c 6 me1 in \<open>simp add: closing_def prvSpinTask_def spin_goto_def quiet_def\<close>)
  qed
qed

lemma run_exited: "exit_code s \<noteq> None \<Longrightarrow> preempt_run evs s = Some s"
  by (induction evs) (simp_all add: preempt_step.simps)

lemma closing_run:
  assumes "closing t1 t2 idle out k s" "k \<le> n" "1 \<le> k"
  shows "\<exists>s'. preempt_run (replicate n Run) s = Some s' \<and> reported out s'"
  using assms
proof (induction n arbitrary: k s)
  case (Suc n)
  show ?case
  proof (cases "k = 1")
    case True
    then have c: "alternating t1 t2 idle (kern s)" "task_pc s 0 = Report" "pvParameters s = [t1 \<mapsto> 0, t2 \<mapsto> 1]" "t1 \<noteq> t2" "exit_code s = None"
      "iSwitchCount s = PREEMPT_SWITCH_TARGET" "tx_out (uart_dev s) = out" "console_up (uart_dev s)" using Suc(2) by (simp_all add: closing_def)
    obtain s' where s': "spin_report s = Some s'" "reported out s'" using report_reports [OF c(8,7,6)] by blast
    have "preempt_step Run s = Some s'" using c(2-5) alternating_current [OF c(1)] s'(1) by (simp add: preempt_step.simps prvSpinTask_def)
    moreover have "exit_code s' \<noteq> None" using s'(2) by (simp add: reported_def)
    ultimately show ?thesis using s'(2) by (simp add: run_exited)
  next
    case False
    then have "1 < k" using Suc(4) by simp
    then obtain s1 k1 where s1: "preempt_step Run s = Some s1" "closing t1 t2 idle out k1 s1" "1 \<le> k1" "k1 < k" using closing_step [OF Suc(2)] by blast
    then show ?thesis using Suc(1) [OF s1(2) _ s1(3)] Suc(3) by simp
  qed
qed simp

text \<open>The slice in which task 1 counts the last switch.\<close>

lemma last_slice:
  assumes t: "turn t1 t2 idle 1 0 (PREEMPT_SWITCH_TARGET - 1) out s" and n: "13 \<le> n"
  shows "\<exists>s'. preempt_run (replicate n Run) s = Some s' \<and> reported (out @ ''2'') s'"
proof -
  have p: "playing t1 t2 idle 1 s" "quiet 1 s" "iLastRunner s = 0" "\<not> iDone s" "iSwitchCount s = PREEMPT_SWITCH_TARGET - 1" "tx_out (uart_dev s) = out"
    using t by (simp_all add: turn_def)
  obtain k where k: "3 \<le> k" "k \<le> 6" "stage 1 0 (PREEMPT_SWITCH_TARGET - 1) out k s" by (rule stage_quiet [OF p(2,3,6,4,5)])
  have to_mark: "\<exists>s'. preempt_run (replicate m Run) s = Some s' \<and> playing t1 t2 idle 1 s' \<and> stage 1 0 (PREEMPT_SWITCH_TARGET - 1) out (k - m) s'" if "playing t1 t2 idle 1 s" "stage 1 0 (PREEMPT_SWITCH_TARGET - 1) out k s" "m < k" for m k s
    using that
  proof (induction m arbitrary: k s)
    case (Suc m)
    have k1: "k \<noteq> 1" using Suc(4) by simp
    obtain s1 where s1: "preempt_step Run s = Some s1" "playing t1 t2 idle 1 s1" "stage 1 0 (PREEMPT_SWITCH_TARGET - 1) out (k - 1) s1"
      using stage_step [OF Suc(2,3)] k1 by fastforce
    have "m < k - 1" using Suc(4) by linarith
    from Suc(1) [OF s1(2,3) this] s1(1) show ?case by simp
  qed simp
  have "k - (k - 1) = 1" "k - 1 < k" using k(1) by simp_all
  then obtain s1 where s1: "preempt_run (replicate (k - 1) Run) s = Some s1" "playing t1 t2 idle 1 s1" "stage 1 0 (PREEMPT_SWITCH_TARGET - 1) out 1 s1"
    using to_mark [OF p(1) k(3), of "k - 1"] by metis
  let ?s = "spin_goto 1 Check_done (s1\<lparr>iDone := True\<rparr>)"
  have m: "task_pc s1 1 = Mark_done" "iSeq s1 1 = PREEMPT_SWITCH_TARGET" "iSwitchCount s1 = PREEMPT_SWITCH_TARGET" "tx_out (uart_dev s1) = out @ ''2''"
    using s1(3) by (simp_all add: stage_def task_chars)
  have step: "preempt_step Run s1 = Some ?s" using playing_runs [OF s1(2)] m(1,2) by (simp add: prvSpinTask_def)
  have cl: "closing t1 t2 idle (out @ ''2'') 7 ?s"
    using s1(2) m by (simp add: closing_def playing_def quiet_def) (simp add: spin_goto_def)
  have "7 \<le> n - k" using k(2) n by linarith
  then obtain s2 where s2: "preempt_run (replicate (n - k) Run) ?s = Some s2" "reported (out @ ''2'') s2" using closing_run [OF cl, of "n - k"] by auto
  have "replicate n Run = replicate (k - 1) Run @ Run # replicate (n - k) Run"
    using k n by (simp add: replicate_add [symmetric] replicate_Suc [symmetric] del: replicate_Suc)
  then show ?thesis using s1(1) step s2 by (simp add: preempt_run_append)
qed

section \<open>The properties\<close>

lemma preempt_starts:
  assumes c: "cleared k" and d: "distinct [t1, t2, idle]" "NULL \<notin> {t1, t2, idle}" and f: "uart_works u"
  obtains s where "preempt_main t1 t2 idle k u = Some s" "preempt_safe t1 t2 idle 0 s" "turn t1 t2 idle 1 (- 1) 0 (tx_out u @ ''R'') s"
proof -
  obtain k' where k': "kernel_boot [([84, 49, 0], 0 + 1, t1), ([84, 50, 0], 0 + 1, t2)] idle k = Some k'" "alternating t2 t1 idle k'"
    by (rule boot_alternates [OF c d])
  have "same_device u (uart_init u)" "txen (uart_init u)" "tx_out (uart_init u) = tx_out u"
    by (simp_all add: same_device_def txen_def uart_init_def UART_TXCTRL_TXEN_def tx_out_def)
  then obtain v where v: "uart_putc (CHR ''R'') (uart_init u) = Some v" "tx_out v = tx_out u @ ''R''" "console_up v"
    using putc_up [of "uart_init u" "CHR ''R''"] same_device_works f unfolding console_up_def by metis
  let ?s = "\<lparr>kern = k', uart_dev = v, pvParameters = [t1 \<mapsto> 0, t2 \<mapsto> 1], ulRunCount = (\<lambda>_. 0), iLastRunner = - 1, iSwitchCount = 0, iDone = False,
       task_pc = (\<lambda>_. Count), iSwitched = (\<lambda>_. False), iSeq = (\<lambda>_. 0), exit_code = None\<rparr>"
  show thesis
  proof (rule that [of ?s])
    show "preempt_main t1 t2 idle k u = Some ?s" using k'(1) v(1) by (simp add: preempt_main_def)
    show "preempt_safe t1 t2 idle 0 ?s" using k'(2) v(3) d(1) by (simp add: preempt_safe_def params_def counts_ok_def PREEMPT_SWITCH_TARGET_def)
    show "turn t1 t2 idle 1 (- 1) 0 (tx_out u @ ''R'') ?s" using k'(2) d(1) v(2,3) by (simp add: turn_def playing_def quiet_def)
  qed
qed

text \<open>C36: The preemption test cannot fail. Whatever the interleaving of the two tasks' steps with timer
  interrupts, on every UART that works, the kernel never stops, no wait for the UART is endless, and if the program exits it exits with code 0; the runs are
  those of fewer than \<open>2 ^ 32\<close> steps, since the loop counters it tests for zero wrap.\<close>

theorem preempt_never_fails:
  assumes "cleared k" "distinct [t1, t2, idle]" "NULL \<notin> {t1, t2, idle}" "uart_works u" "length evs < 2 ^ 32"
  shows "\<exists>s s'. preempt_main t1 t2 idle k u = Some s \<and> preempt_run evs s = Some s' \<and> (exit_code s' = None \<or> exit_code s' = Some 0)"
proof -
  obtain s where s: "preempt_main t1 t2 idle k u = Some s" "preempt_safe t1 t2 idle 0 s" by (rule preempt_starts [OF assms(1-4)])
  obtain s' where "preempt_run evs s = Some s'" "preempt_safe t1 t2 idle (0 + length evs) s'" using preempt_run_safe [OF s(2)] assms(5) by auto
  then show ?thesis using s(1) by (auto simp: preempt_safe_def split: if_splits)
qed

text \<open>C37: The preemption test ends and prints its switches. When each time slice lets a task make at
  least 13 steps and the UART works, the program exits with code 0 in the eleventh slice with the FIFO empty, and the line has carried \<open>R\<close>, the
  eleven characters \<open>21212121212\<close> (the second task created runs first; that character is not counted
  as a switch) and the report with both loop counts, 10 switches and \<open>p=1\<close>.\<close>

theorem preempt_prints_switches:
  assumes k: "cleared k" "distinct [t1, t2, idle]" "NULL \<notin> {t1, t2, idle}" "uart_works u"
    and ns: "length ns = 11" "\<forall>n \<in> set ns. 13 \<le> n" "length (concat (map time_slice ns)) < 2 ^ 32"
  shows "\<exists>s s'. preempt_main t1 t2 idle k u = Some s \<and> preempt_run (concat (map time_slice ns)) s = Some s' \<and> exit_code s' = Some 0
    \<and> tx_fifo (uart_dev s') = [] \<and> tx_line (uart_dev s') = tx_out u @ ''R'' @ ''21212121212'' @ crlf (report_text (ulRunCount s' 0) (ulRunCount s' 1) ''10'' ''1'')"
proof -
  obtain s where s: "preempt_main t1 t2 idle k u = Some s" "preempt_safe t1 t2 idle 0 s" "turn t1 t2 idle 1 (- 1) 0 (tx_out u @ ''R'') s" by (rule preempt_starts [OF k])
  obtain n ms m where n: "ns = n # ms @ [m]" "length ms = 9"
  proof -
    obtain n xs where "ns = n # xs" "length xs = 10" using ns(1) by (cases ns) auto
    moreover from this obtain ms m where "xs = ms @ [m]" "length ms = 9" by (cases xs rule: rev_cases) auto
    ultimately show thesis using that by blast
  qed
  have ge: "6 \<le> n" "\<forall>x \<in> set ms. 6 \<le> x" "13 \<le> m" using ns(2) unfolding n(1) by auto
  have "(- 1 :: int) \<noteq> int 1" "(0 :: int) + 1 < PREEMPT_SWITCH_TARGET" by (simp_all add: PREEMPT_SWITCH_TARGET_def)
  then obtain s1 where s1: "preempt_run (time_slice n) s = Some s1"
    "turn t1 t2 idle 0 1 0 (tx_out u @ ''R'' @ ''2'') s1"
    using slice_turns [OF s(3) ge(1)] by (auto simp: task_chars)
  have t: "turn t1 t2 idle 0 (int (1 - 0)) 0 (tx_out u @ ''R'' @ ''2'') s1" using s1(2) by simp
  have "0 + int (length ms) < PREEMPT_SWITCH_TARGET" by (simp add: n(2) PREEMPT_SWITCH_TARGET_def)
  from slices_turn [OF t ge(2) this] obtain s2 where s2: "preempt_run (concat (map time_slice ms)) s1 = Some s2"
    "turn t1 t2 idle 1 0 9 ((tx_out u @ ''R'' @ ''2'') @ marks 0 9) s2" by (auto simp: n(2))
  have mk: "marks 0 9 = ''121212121''" by code_simp
  have t2': "turn t1 t2 idle 1 0 (PREEMPT_SWITCH_TARGET - 1) (tx_out u @ ''R'' @ ''2121212121'') s2" using s2(2) by (simp add: mk PREEMPT_SWITCH_TARGET_def)
  obtain s3 where s3: "preempt_run (replicate m Run) s2 = Some s3" "reported ((tx_out u @ ''R'' @ ''2121212121'') @ ''2'') s3"
    using last_slice [OF t2' ge(3)] by blast
  have "preempt_run (time_slice m) s2 = Some s3" using s3 run_exited [of s3 "[Timer_interrupt]"] by (simp add: time_slice_def preempt_run_append reported_def)
  then have run: "preempt_run (concat (map time_slice ns)) s = Some s3" using s1(1) s2(1) by (simp add: n(1) preempt_run_append)
  have "exit_code s3 = Some 0"
    using preempt_run_safe [OF s(2), of "concat (map time_slice ns)"] ns(3) run s3(2) by (auto simp: preempt_safe_def reported_def split: if_splits)
  then show ?thesis using s(1) run s3(2) by (auto simp: reported_def)
qed

section \<open>Witnesses\<close>

lemma preempt_never_fails_witness:
  "\<exists>s s'. preempt_main 16 32 48 power_on slow_uart = Some s \<and> preempt_run (concat (replicate 3 (replicate 7 Run @ [Timer_interrupt, Timer_interrupt]))) s = Some s'
    \<and> (exit_code s' = None \<or> exit_code s' = Some 0)"
  by (rule preempt_never_fails [OF power_on_cleared _ _ slow_uart_works(1)]) (simp_all add: length_concat sum_list_replicate)

lemma preempt_prints_switches_witness:
  "\<exists>s s'. preempt_main 16 32 48 power_on slow_uart = Some s \<and> preempt_run (concat (map time_slice (replicate 11 20))) s = Some s' \<and> exit_code s' = Some 0
    \<and> tx_fifo (uart_dev s') = [] \<and> tx_line (uart_dev s') = tx_out slow_uart @ ''R'' @ ''21212121212'' @ crlf (report_text (ulRunCount s' 0) (ulRunCount s' 1) ''10'' ''1'')"
  by (rule preempt_prints_switches [OF power_on_cleared _ _ slow_uart_works(1)]) (simp_all add: time_slice_def map_replicate length_concat sum_list_replicate)

end
