(* ===== verification/Freertos_Heap.thy ===== *)
theory Freertos_Heap
  imports Libc "HOL-Library.Monad_Syntax"
begin

text \<open>
  The kernel's allocator (Middleware/FreeRTOS/kernel/portable/MemMang/heap_4.c) with the
  repository's configuration: a heap of 10 KB, 16-byte alignment, 32-bit pointers, no heap protector,
  no clearing on free, the failure hook enabled. Memory is bytes; a block's header is the link and
  the size in front of it, the list of free blocks starts at the variable \<open>xStart\<close>. The body of an
  operation runs with the scheduler suspended and is one step. The invariant: the free and the live
  blocks tile the heap, and the free list has the free ones in address order with no two adjacent.
\<close>

section \<open>The allocator\<close>

definition portBYTE_ALIGNMENT :: u32 where "portBYTE_ALIGNMENT = 16"
definition portBYTE_ALIGNMENT_MASK :: u32 where "portBYTE_ALIGNMENT_MASK = 0xf"
definition configTOTAL_HEAP_SIZE :: u32 where "configTOTAL_HEAP_SIZE = 10 * 1024"
definition heapSIZE_MAX :: u32 where "heapSIZE_MAX = NOT 0"
definition heapBLOCK_ALLOCATED_BITMASK :: u32 where "heapBLOCK_ALLOCATED_BITMASK = push_bit (4 * 8 - 1) 1"

definition xHeapStructSize :: u32 where
  "xHeapStructSize = (8 + (portBYTE_ALIGNMENT - 1)) AND NOT portBYTE_ALIGNMENT_MASK"

definition heapMINIMUM_BLOCK_SIZE :: u32 where "heapMINIMUM_BLOCK_SIZE = push_bit 1 xHeapStructSize"

definition heapADD_WILL_OVERFLOW :: "u32 \<Rightarrow> u32 \<Rightarrow> bool" where
  "heapADD_WILL_OVERFLOW a b \<longleftrightarrow> a > heapSIZE_MAX - b"

definition heapMULTIPLY_WILL_OVERFLOW :: "u32 \<Rightarrow> u32 \<Rightarrow> bool" where
  "heapMULTIPLY_WILL_OVERFLOW a b \<longleftrightarrow> a > 0 \<and> b > heapSIZE_MAX div a"

definition heapBLOCK_SIZE_IS_VALID :: "u32 \<Rightarrow> bool" where
  "heapBLOCK_SIZE_IS_VALID n \<longleftrightarrow> n AND heapBLOCK_ALLOCATED_BITMASK = 0"

text \<open>\<open>ucHeap\<close> and \<open>xStart\<close> are the addresses the linker gives these variables.\<close>

record heap =
  ram :: mem
  ucHeap :: u32
  xStart :: u32
  pxEnd :: u32
  xFreeBytesRemaining :: u32
  xMinimumEverFreeBytesRemaining :: u32
  xNumberOfSuccessfulAllocations :: u32
  xNumberOfSuccessfulFrees :: u32

text \<open>The fields of the \<open>BlockLink_t\<close> at an address.\<close>

definition pxNextFreeBlock :: "heap \<Rightarrow> u32 \<Rightarrow> u32" where "pxNextFreeBlock s p = ld32 (ram s) p"
definition xBlockSize :: "heap \<Rightarrow> u32 \<Rightarrow> u32" where "xBlockSize s p = ld32 (ram s) (p + 4)"
definition set_pxNextFreeBlock :: "u32 \<Rightarrow> u32 \<Rightarrow> heap \<Rightarrow> heap" where "set_pxNextFreeBlock p v s = s\<lparr>ram := st32 (ram s) p v\<rparr>"
definition set_xBlockSize :: "u32 \<Rightarrow> u32 \<Rightarrow> heap \<Rightarrow> heap" where "set_xBlockSize p v s = s\<lparr>ram := st32 (ram s) (p + 4) v\<rparr>"

text \<open>An assertion that fails halts; \<open>None\<close> is that, or a loop that does not end.\<close>

definition configASSERT :: "bool \<Rightarrow> unit option" where "configASSERT b = (if b then Some () else None)"

definition heapVALIDATE_BLOCK_POINTER :: "u32 \<Rightarrow> heap \<Rightarrow> unit option" where
  "heapVALIDATE_BLOCK_POINTER p s = configASSERT (ucHeap s \<le> p \<and> p \<le> ucHeap s + (configTOTAL_HEAP_SIZE - 1))"

definition heapBLOCK_IS_ALLOCATED :: "u32 \<Rightarrow> heap \<Rightarrow> bool" where
  "heapBLOCK_IS_ALLOCATED p s \<longleftrightarrow> xBlockSize s p AND heapBLOCK_ALLOCATED_BITMASK \<noteq> 0"

definition heapALLOCATE_BLOCK :: "u32 \<Rightarrow> heap \<Rightarrow> heap" where
  "heapALLOCATE_BLOCK p s = set_xBlockSize p (xBlockSize s p OR heapBLOCK_ALLOCATED_BITMASK) s"

definition heapFREE_BLOCK :: "u32 \<Rightarrow> heap \<Rightarrow> heap" where
  "heapFREE_BLOCK p s = set_xBlockSize p (xBlockSize s p AND NOT heapBLOCK_ALLOCATED_BITMASK) s"

definition prvHeapInit :: "heap \<Rightarrow> heap" where
  "prvHeapInit s =
     (let start = ucHeap s;
          total = configTOTAL_HEAP_SIZE;
          (start, total) = (if start AND portBYTE_ALIGNMENT_MASK \<noteq> 0 then
                              let a = (start + (portBYTE_ALIGNMENT - 1)) AND NOT portBYTE_ALIGNMENT_MASK in (a, total - (a - ucHeap s))
                            else (start, total));
          s = set_pxNextFreeBlock (xStart s) start s;
          s = set_xBlockSize (xStart s) 0 s;
          end = (start + total - xHeapStructSize) AND NOT portBYTE_ALIGNMENT_MASK;
          s = s\<lparr>pxEnd := end\<rparr>;
          s = set_xBlockSize end 0 s;
          s = set_pxNextFreeBlock end 0 s;
          s = set_xBlockSize start (end - start) s;
          s = set_pxNextFreeBlock start end s;
          s = s\<lparr>xMinimumEverFreeBytesRemaining := xBlockSize s start\<rparr>
      in s\<lparr>xFreeBytesRemaining := xBlockSize s start\<rparr>)"

text \<open>The size of the block for a request; 0 when there is none.\<close>

definition wanted_size :: "u32 \<Rightarrow> u32" where
  "wanted_size w =
     (if w > 0 then
        if \<not> heapADD_WILL_OVERFLOW w xHeapStructSize then
          let w = w + xHeapStructSize in
          if w AND portBYTE_ALIGNMENT_MASK \<noteq> 0 then
            let more = portBYTE_ALIGNMENT - (w AND portBYTE_ALIGNMENT_MASK)
            in if \<not> heapADD_WILL_OVERFLOW w more then w + more else 0
          else w
        else 0
      else w)"

text \<open>The search for a block: the one before it in the list, and it.\<close>

partial_function (option) find_fit :: "u32 \<Rightarrow> u32 \<Rightarrow> u32 \<Rightarrow> heap \<Rightarrow> (u32 \<times> u32) option" where
  "find_fit w prev b s = do {
     heapVALIDATE_BLOCK_POINTER b s;
     if xBlockSize s b < w \<and> pxNextFreeBlock s b \<noteq> 0 then find_fit w b (pxNextFreeBlock s b) s else Some (prev, b)
   }"

definition split_block :: "u32 \<Rightarrow> u32 \<Rightarrow> u32 \<Rightarrow> heap \<Rightarrow> heap option" where
  "split_block w prev b s =
     (if xBlockSize s b - w > heapMINIMUM_BLOCK_SIZE then do {
        let new = b + w;
        configASSERT (new AND portBYTE_ALIGNMENT_MASK = 0);
        let s = set_xBlockSize new (xBlockSize s b - w) s;
        let s = set_xBlockSize b w s;
        let s = set_pxNextFreeBlock new (pxNextFreeBlock s prev) s;
        Some (set_pxNextFreeBlock prev new s)
      } else Some s)"

definition commit_block :: "u32 \<Rightarrow> heap \<Rightarrow> heap" where
  "commit_block b s =
     (let s = s\<lparr>xFreeBytesRemaining := xFreeBytesRemaining s - xBlockSize s b\<rparr>;
          s = (if xFreeBytesRemaining s < xMinimumEverFreeBytesRemaining s then s\<lparr>xMinimumEverFreeBytesRemaining := xFreeBytesRemaining s\<rparr> else s);
          s = heapALLOCATE_BLOCK b s;
          s = set_pxNextFreeBlock b 0 s
      in s\<lparr>xNumberOfSuccessfulAllocations := xNumberOfSuccessfulAllocations s + 1\<rparr>)"

definition take_block :: "u32 \<Rightarrow> u32 \<Rightarrow> u32 \<Rightarrow> heap \<Rightarrow> (u32 \<times> heap) option" where
  "take_block w prev b s = do {
     let pv = pxNextFreeBlock s prev + xHeapStructSize;
     heapVALIDATE_BLOCK_POINTER pv s;
     let s = set_pxNextFreeBlock prev (pxNextFreeBlock s b) s;
     configASSERT (\<not> xBlockSize s b < w);
     s \<leftarrow> split_block w prev b s;
     Some (pv, commit_block b s)
   }"

text \<open>\<open>vApplicationMallocFailedHook\<close> of port_glue.c halts.\<close>

datatype malloc_stop = Assertion_failed | Malloc_failed_hook

definition pvPortMalloc :: "u32 \<Rightarrow> heap \<Rightarrow> malloc_stop + u32 \<times> heap" where
  "pvPortMalloc w s =
     (let w = wanted_size w;
          s = (if pxEnd s = 0 then prvHeapInit s else s);
          r = (if heapBLOCK_SIZE_IS_VALID w \<and> w > 0 \<and> w \<le> xFreeBytesRemaining s then do {
                 (prev, b) \<leftarrow> find_fit w (xStart s) (pxNextFreeBlock s (xStart s)) s;
                 if b \<noteq> pxEnd s then take_block w prev b s else Some (0, s)
               } else Some (0, s))
      in case r of
           None \<Rightarrow> Inl Assertion_failed
         | Some (pv, s) \<Rightarrow>
             if pv = 0 then Inl Malloc_failed_hook
             else if pv AND portBYTE_ALIGNMENT_MASK = 0 then Inr (pv, s)
             else Inl Assertion_failed)"

text \<open>The search for the place of a block in the list.\<close>

partial_function (option) free_walk :: "u32 \<Rightarrow> u32 \<Rightarrow> heap \<Rightarrow> u32 option" where
  "free_walk it b s = (if pxNextFreeBlock s it < b then free_walk (pxNextFreeBlock s it) b s else Some it)"

definition prvInsertBlockIntoFreeList :: "u32 \<Rightarrow> heap \<Rightarrow> heap option" where
  "prvInsertBlockIntoFreeList b s = do {
     it \<leftarrow> free_walk (xStart s) b s;
     (if it \<noteq> xStart s then heapVALIDATE_BLOCK_POINTER it s else Some ());
     let (b, s) = (if it + xBlockSize s it = b then (it, set_xBlockSize it (xBlockSize s it + xBlockSize s b) s) else (b, s));
     let s = (if b + xBlockSize s b = pxNextFreeBlock s it then
                if pxNextFreeBlock s it \<noteq> pxEnd s then
                  let s = set_xBlockSize b (xBlockSize s b + xBlockSize s (pxNextFreeBlock s it)) s
                  in set_pxNextFreeBlock b (pxNextFreeBlock s (pxNextFreeBlock s it)) s
                else set_pxNextFreeBlock b (pxEnd s) s
              else set_pxNextFreeBlock b (pxNextFreeBlock s it) s);
     Some (if it \<noteq> b then set_pxNextFreeBlock it b s else s)
   }"

definition vPortFree :: "u32 \<Rightarrow> heap \<Rightarrow> heap option" where
  "vPortFree pv s =
     (if pv \<noteq> 0 then do {
        let b = pv - xHeapStructSize;
        heapVALIDATE_BLOCK_POINTER b s;
        configASSERT (heapBLOCK_IS_ALLOCATED b s);
        configASSERT (pxNextFreeBlock s b = 0);
        let s = heapFREE_BLOCK b s;
        let s = s\<lparr>xFreeBytesRemaining := xFreeBytesRemaining s + xBlockSize s b\<rparr>;
        s \<leftarrow> prvInsertBlockIntoFreeList b s;
        Some (s\<lparr>xNumberOfSuccessfulFrees := xNumberOfSuccessfulFrees s + 1\<rparr>)
      } else Some s)"

definition xPortGetFreeHeapSize :: "heap \<Rightarrow> u32" where "xPortGetFreeHeapSize s = xFreeBytesRemaining s"
definition xPortGetMinimumEverFreeHeapSize :: "heap \<Rightarrow> u32" where "xPortGetMinimumEverFreeHeapSize s = xMinimumEverFreeBytesRemaining s"

definition vPortHeapResetState :: "heap \<Rightarrow> heap" where
  "vPortHeapResetState s = s\<lparr>pxEnd := 0, xFreeBytesRemaining := 0, xMinimumEverFreeBytesRemaining := 0, xNumberOfSuccessfulAllocations := 0,
     xNumberOfSuccessfulFrees := 0\<rparr>"

text \<open>\<open>pvPortCalloc\<close> clears the memory with the \<open>memset\<close> of port_glue.c. It does not call the hook when the product overflows.\<close>

definition pvPortCalloc :: "u32 \<Rightarrow> u32 \<Rightarrow> heap \<Rightarrow> malloc_stop + u32 \<times> heap" where
  "pvPortCalloc n sz s =
     (if \<not> heapMULTIPLY_WILL_OVERFLOW n sz then
        case pvPortMalloc (n * sz) s of
          Inl e \<Rightarrow> Inl e
        | Inr (pv, s) \<Rightarrow> Inr (pv, if pv \<noteq> 0 then s\<lparr>ram := fst (glue_memset (ram s) pv 0 (n * sz))\<rparr> else s)
      else Inr (0, s))"

text \<open>\<open>vPortGetHeapStats\<close>: number, largest and smallest of the free blocks.\<close>

partial_function (option) stats_walk :: "u32 \<Rightarrow> u32 \<Rightarrow> u32 \<Rightarrow> u32 \<Rightarrow> heap \<Rightarrow> (u32 \<times> u32 \<times> u32) option" where
  "stats_walk b n mx mn s =
     (if b \<noteq> pxEnd s then
        stats_walk (pxNextFreeBlock s b) (n + 1) (if xBlockSize s b > mx then xBlockSize s b else mx) (if xBlockSize s b < mn then xBlockSize s b else mn) s
      else Some (n, mx, mn))"

record HeapStats =
  xAvailableHeapSpaceInBytes :: u32
  xSizeOfLargestFreeBlockInBytes :: u32
  xSizeOfSmallestFreeBlockInBytes :: u32
  xNumberOfFreeBlocks :: u32
  xMinimumEverFree :: u32
  xSuccessfulAllocations :: u32
  xSuccessfulFrees :: u32

definition vPortGetHeapStats :: "heap \<Rightarrow> HeapStats option" where
  "vPortGetHeapStats s = do {
     let b = pxNextFreeBlock s (xStart s);
     (n, mx, mn) \<leftarrow> (if b \<noteq> 0 then stats_walk b 0 0 0xffffffff s else Some (0, 0, 0xffffffff));
     Some \<lparr>xAvailableHeapSpaceInBytes = xFreeBytesRemaining s, xSizeOfLargestFreeBlockInBytes = mx, xSizeOfSmallestFreeBlockInBytes = mn,
       xNumberOfFreeBlocks = n, xMinimumEverFree = xMinimumEverFreeBytesRemaining s, xSuccessfulAllocations = xNumberOfSuccessfulAllocations s,
       xSuccessfulFrees = xNumberOfSuccessfulFrees s\<rparr>
   }"

section \<open>Headers in memory\<close>

lemma unat_plus_small: "unat (a :: u32) + k < 2 ^ 32 \<Longrightarrow> unat (a + of_nat k) = unat a + k"
  by (simp add: unat_word_ariths unat_of_nat)

lemma st32_byte:
  assumes "unat p + 4 \<le> 2 ^ 32" "unat x < unat p \<or> unat p + 4 \<le> unat x"
  shows "st32 m p v x = m x"
proof -
  have "unat (p + of_nat k) = unat p + k" if "k < 4" for k using assms(1) that by (intro unat_plus_small) simp
  from this [of 1] this [of 2] this [of 3] have "x \<noteq> p" "x \<noteq> p + 1" "x \<noteq> p + 2" "x \<noteq> p + 3" using assms(2) by auto
  then show ?thesis by (simp add: st32_def)
qed

lemma ld32_other:
  assumes "unat p + 4 \<le> 2 ^ 32" "unat q + 4 \<le> 2 ^ 32" "unat q + 4 \<le> unat p \<or> unat p + 4 \<le> unat q"
  shows "ld32 (st32 m p v) q = ld32 m q"
proof -
  have q: "unat (q + of_nat k) = unat q + k" if "k < 4" for k using assms(2) that by (intro unat_plus_small) simp
  have "st32 m p v (q + of_nat k) = m (q + of_nat k)" if "k < 4" for k
    by (rule st32_byte [OF assms(1)]) (use assms(3) q [OF that] that in auto)
  from this [of 0] this [of 1] this [of 2] this [of 3] show ?thesis by (simp add: ld32_def)
qed

text \<open>Two places for a header do not overlap.\<close>

definition hdr :: "u32 \<Rightarrow> bool" where "hdr p \<longleftrightarrow> unat p + 8 \<le> 2 ^ 32"

definition clear_of :: "u32 \<Rightarrow> u32 \<Rightarrow> bool" where
  "clear_of p q \<longleftrightarrow> hdr p \<and> hdr q \<and> (unat p + 8 \<le> unat q \<or> unat q + 8 \<le> unat p)"

lemma clear_of_sym: "clear_of p q \<Longrightarrow> clear_of q p" by (auto simp: clear_of_def)
lemma clear_of_neq: "clear_of p q \<Longrightarrow> p \<noteq> q" by (auto simp: clear_of_def)

lemma plus4: "hdr p \<Longrightarrow> unat (p + 4) = unat p + 4"
  using unat_plus_small [of p 4] by (simp add: hdr_def)

lemma set_fields [simp]:
  "ucHeap (set_pxNextFreeBlock p v s) = ucHeap s" "xStart (set_pxNextFreeBlock p v s) = xStart s" "pxEnd (set_pxNextFreeBlock p v s) = pxEnd s"
  "xFreeBytesRemaining (set_pxNextFreeBlock p v s) = xFreeBytesRemaining s"
  "xMinimumEverFreeBytesRemaining (set_pxNextFreeBlock p v s) = xMinimumEverFreeBytesRemaining s"
  "ucHeap (set_xBlockSize p v s) = ucHeap s" "xStart (set_xBlockSize p v s) = xStart s" "pxEnd (set_xBlockSize p v s) = pxEnd s"
  "xFreeBytesRemaining (set_xBlockSize p v s) = xFreeBytesRemaining s"
  "xMinimumEverFreeBytesRemaining (set_xBlockSize p v s) = xMinimumEverFreeBytesRemaining s"
  by (simp_all add: set_pxNextFreeBlock_def set_xBlockSize_def)

lemma get_update [simp]:
  "pxNextFreeBlock (s\<lparr>xFreeBytesRemaining := a\<rparr>) = pxNextFreeBlock s" "xBlockSize (s\<lparr>xFreeBytesRemaining := a\<rparr>) = xBlockSize s"
  "pxNextFreeBlock (s\<lparr>xMinimumEverFreeBytesRemaining := a\<rparr>) = pxNextFreeBlock s" "xBlockSize (s\<lparr>xMinimumEverFreeBytesRemaining := a\<rparr>) = xBlockSize s"
  "pxNextFreeBlock (s\<lparr>xNumberOfSuccessfulAllocations := a\<rparr>) = pxNextFreeBlock s" "xBlockSize (s\<lparr>xNumberOfSuccessfulAllocations := a\<rparr>) = xBlockSize s"
  "pxNextFreeBlock (s\<lparr>xNumberOfSuccessfulFrees := a\<rparr>) = pxNextFreeBlock s" "xBlockSize (s\<lparr>xNumberOfSuccessfulFrees := a\<rparr>) = xBlockSize s"
  "pxNextFreeBlock (s\<lparr>pxEnd := b\<rparr>) = pxNextFreeBlock s" "xBlockSize (s\<lparr>pxEnd := b\<rparr>) = xBlockSize s"
  by (auto simp: pxNextFreeBlock_def xBlockSize_def)

lemma get_set [simp]:
  "pxNextFreeBlock (set_pxNextFreeBlock p v s) p = v" "xBlockSize (set_xBlockSize p v s) p = v"
  by (simp_all add: pxNextFreeBlock_def xBlockSize_def set_pxNextFreeBlock_def set_xBlockSize_def mem_simps)

lemma get_set_field [simp]:
  assumes "hdr p"
  shows "pxNextFreeBlock (set_xBlockSize p v s) p = pxNextFreeBlock s p" "xBlockSize (set_pxNextFreeBlock p v s) p = xBlockSize s p"
proof -
  have "unat p + 8 \<le> 2 ^ 32" using assms by (simp add: hdr_def)
  then show "pxNextFreeBlock (set_xBlockSize p v s) p = pxNextFreeBlock s p" "xBlockSize (set_pxNextFreeBlock p v s) p = xBlockSize s p"
    unfolding pxNextFreeBlock_def xBlockSize_def set_pxNextFreeBlock_def set_xBlockSize_def
    by (simp; intro ld32_other; simp add: plus4 [OF assms])+
qed

lemma get_set_other [simp]:
  assumes "clear_of p q"
  shows "pxNextFreeBlock (set_pxNextFreeBlock p v s) q = pxNextFreeBlock s q" "xBlockSize (set_pxNextFreeBlock p v s) q = xBlockSize s q"
    "pxNextFreeBlock (set_xBlockSize p v s) q = pxNextFreeBlock s q" "xBlockSize (set_xBlockSize p v s) q = xBlockSize s q"
proof -
  have h: "hdr p" "hdr q" "unat p + 8 \<le> unat q \<or> unat q + 8 \<le> unat p" using assms by (simp_all add: clear_of_def)
  have b: "unat p + 8 \<le> 2 ^ 32" "unat q + 8 \<le> 2 ^ 32" using h by (simp_all add: hdr_def)
  show "pxNextFreeBlock (set_pxNextFreeBlock p v s) q = pxNextFreeBlock s q" "xBlockSize (set_pxNextFreeBlock p v s) q = xBlockSize s q"
    "pxNextFreeBlock (set_xBlockSize p v s) q = pxNextFreeBlock s q" "xBlockSize (set_xBlockSize p v s) q = xBlockSize s q"
    unfolding pxNextFreeBlock_def xBlockSize_def set_pxNextFreeBlock_def set_xBlockSize_def
    by (simp; intro ld32_other; use b h(3) in \<open>simp add: plus4 [OF h(1)] plus4 [OF h(2)]\<close>; linarith?)+
qed

text \<open>The bytes an update leaves alone.\<close>

lemma header_bytes:
  assumes "hdr p" "unat x < unat p \<or> unat p + 8 \<le> unat x"
  shows "ram (set_pxNextFreeBlock p v s) x = ram s x" "ram (set_xBlockSize p v s) x = ram s x"
  using assms plus4 [OF assms(1)] by (auto simp: set_pxNextFreeBlock_def set_xBlockSize_def hdr_def intro!: st32_byte)

section \<open>Blocks that tile the heap\<close>

type_synonym block = "u32 \<times> u32"

definition bytes :: "block \<Rightarrow> nat set" where "bytes x = {unat (fst x) ..< unat (fst x) + unat (snd x)}"

definition block_ok :: "block \<Rightarrow> bool" where
  "block_ok x \<longleftrightarrow> unat (fst x) mod 16 = 0 \<and> unat (snd x) mod 16 = 0 \<and> 0 < unat (snd x)"

definition tiling :: "block set \<Rightarrow> u32 \<Rightarrow> u32 \<Rightarrow> bool" where
  "tiling G b e \<longleftrightarrow> (\<forall>x \<in> G. block_ok x) \<and> (\<forall>x \<in> G. \<forall>y \<in> G. x \<noteq> y \<longrightarrow> bytes x \<inter> bytes y = {}) \<and> \<Union> (bytes ` G) = {unat b ..< unat e}"

lemma tiling_split:
  assumes t: "tiling G b e" and x: "x \<in> G" and u: "bytes x = bytes y \<union> bytes z" "bytes y \<inter> bytes z = {}" and ok: "block_ok y" "block_ok z"
  shows "tiling (insert y (insert z (G - {x}))) b e"
proof -
  have d: "bytes y \<inter> bytes w = {} \<and> bytes z \<inter> bytes w = {}" if "w \<in> G - {x}" for w
    using t x u(1) that unfolding tiling_def by blast
  have "\<Union> (bytes ` insert y (insert z (G - {x}))) = \<Union> (bytes ` G)" using x u(1) by auto
  then show ?thesis using t d u(2) ok unfolding tiling_def by (simp add: Int_commute)
qed

lemma tiling_merge:
  assumes t: "tiling G b e" and xy: "x \<in> G" "y \<in> G" and u: "bytes z = bytes x \<union> bytes y" and ok: "block_ok z"
  shows "tiling (insert z (G - {x, y})) b e"
proof -
  have d: "bytes z \<inter> bytes w = {}" if "w \<in> G - {x, y}" for w
    using t xy u that unfolding tiling_def by blast
  have "\<Union> (bytes ` insert z (G - {x, y})) = \<Union> (bytes ` G)" using xy u by auto
  then show ?thesis using t d ok unfolding tiling_def by (simp add: Int_commute)
qed

lemma tiling_block:
  assumes "tiling G b e" "(a, n) \<in> G"
  shows "unat a mod 16 = 0" "unat n mod 16 = 0" "16 \<le> unat n" "unat b \<le> unat a" "unat a + unat n \<le> unat e"
proof -
  have ok: "unat a mod 16 = 0" "unat n mod 16 = 0" "0 < unat n" using assms by (auto simp: tiling_def block_ok_def)
  then show "unat a mod 16 = 0" "unat n mod 16 = 0" "16 \<le> unat n" by (simp_all add: dvd_imp_le mod_eq_0_iff_dvd)
  have "bytes (a, n) \<subseteq> {unat b ..< unat e}" using assms unfolding tiling_def by blast
  then have "unat a \<in> {unat b ..< unat e}" "unat a + unat n - 1 \<in> {unat b ..< unat e}" using ok(3) by (auto simp: bytes_def)
  then show "unat b \<le> unat a" "unat a + unat n \<le> unat e" by auto
qed

lemma tiling_apart:
  assumes "tiling G b e" "(a, n) \<in> G" "(c, k) \<in> G" "(a, n) \<noteq> (c, k)"
  shows "unat a + unat n \<le> unat c \<or> unat c + unat k \<le> unat a"
proof -
  have "bytes (a, n) \<inter> bytes (c, k) = {}" using assms by (auto simp: tiling_def)
  moreover have "16 \<le> unat n" "16 \<le> unat k" using tiling_block(3) [OF assms(1)] assms(2,3) by blast+
  ultimately have "\<not> (unat a \<in> bytes (c, k))" "\<not> (unat c \<in> bytes (a, n))" by (auto simp: bytes_def)
  then show ?thesis using \<open>16 \<le> unat n\<close> \<open>16 \<le> unat k\<close> by (auto simp: bytes_def)
qed

lemma tiling_same: "tiling G b e \<Longrightarrow> (a, n) \<in> G \<Longrightarrow> (a, k) \<in> G \<Longrightarrow> n = k"
  using tiling_apart [of G b e a n a k] tiling_block(3) [of G b e a n] tiling_block(3) [of G b e a k] by fastforce

section \<open>The free list\<close>

fun free_seg :: "heap \<Rightarrow> u32 \<Rightarrow> block list \<Rightarrow> u32 \<Rightarrow> bool" where
  "free_seg s p [] q = (pxNextFreeBlock s p = q)"
| "free_seg s p ((a, n) # xs) q = (pxNextFreeBlock s p = a \<and> xBlockSize s a = n \<and> free_seg s a xs q)"

lemma free_seg_append: "free_seg s p (xs @ (a, n) # ys) q \<longleftrightarrow> free_seg s p xs a \<and> xBlockSize s a = n \<and> free_seg s a ys q"
  by (induction s p xs a rule: free_seg.induct) auto

lemma seg_frame:
  "free_seg s p xs q \<Longrightarrow> (\<And>x. x \<in> insert p (fst ` set xs) \<Longrightarrow> pxNextFreeBlock s' x = pxNextFreeBlock s x)
    \<Longrightarrow> (\<And>x. x \<in> fst ` set xs \<Longrightarrow> xBlockSize s' x = xBlockSize s x) \<Longrightarrow> free_seg s' p xs q"
  by (induction s p xs q rule: free_seg.induct) auto

text \<open>The linker places the heap and \<open>xStart\<close>.\<close>

definition heap_linked :: "heap \<Rightarrow> bool" where
  "heap_linked s \<longleftrightarrow> 0 < unat (ucHeap s) \<and> unat (ucHeap s) + 10240 < 2 ^ 32 \<and> hdr (xStart s)
     \<and> (unat (xStart s) + 8 \<le> unat (ucHeap s) \<or> unat (ucHeap s) + 10240 \<le> unat (xStart s))"

definition heap_start :: "heap \<Rightarrow> u32" where
  "heap_start s = (ucHeap s + 15) AND NOT 15"

definition heap_wf :: "block set \<Rightarrow> block list \<Rightarrow> heap \<Rightarrow> bool" where
  "heap_wf live fs s \<longleftrightarrow> heap_linked s \<and> unat (ucHeap s) \<le> unat (heap_start s) \<and> unat (heap_start s) + 10208 \<le> unat (pxEnd s) \<and> unat (pxEnd s) + 16 \<le> unat (ucHeap s) + 10240
     \<and> free_seg s (xStart s) fs (pxEnd s) \<and> pxNextFreeBlock s (pxEnd s) = 0 \<and> xBlockSize s (pxEnd s) = 0 \<and> xBlockSize s (xStart s) = 0
     \<and> (\<forall>x \<in> live. xBlockSize s (fst x) = snd x OR heapBLOCK_ALLOCATED_BITMASK \<and> pxNextFreeBlock s (fst x) = 0)
     \<and> tiling (live \<union> set fs) (heap_start s) (pxEnd s) \<and> live \<inter> set fs = {} \<and> distinct (map fst fs)
     \<and> unat (xFreeBytesRemaining s) = (\<Sum>x \<leftarrow> fs. unat (snd x))"

lemma heap_wfD:
  assumes "heap_wf live fs s"
  shows "heap_linked s" "unat (ucHeap s) \<le> unat (heap_start s) \<and> unat (heap_start s) < unat (pxEnd s)" "unat (pxEnd s) + 16 \<le> unat (ucHeap s) + 10240"
    "free_seg s (xStart s) fs (pxEnd s)" "pxNextFreeBlock s (pxEnd s) = 0" "xBlockSize s (pxEnd s) = 0" "xBlockSize s (xStart s) = 0"
    "\<And>a n. (a, n) \<in> live \<Longrightarrow> xBlockSize s a = n OR heapBLOCK_ALLOCATED_BITMASK \<and> pxNextFreeBlock s a = 0"
    "tiling (live \<union> set fs) (heap_start s) (pxEnd s)" "live \<inter> set fs = {}" "distinct (map fst fs)"
    "unat (xFreeBytesRemaining s) = (\<Sum>x \<leftarrow> fs. unat (snd x))" "unat (heap_start s) + 10208 \<le> unat (pxEnd s)"
  using assms by (auto simp: heap_wf_def)

text \<open>Between two operations no two free blocks are adjacent, and they are in address order.\<close>

definition gaps :: "block list \<Rightarrow> bool" where
  "gaps fs \<longleftrightarrow> sorted_wrt (\<lambda>x y. unat (fst x) + unat (snd x) < unat (fst y)) fs"

definition heap_ok :: "block set \<Rightarrow> block list \<Rightarrow> heap \<Rightarrow> bool" where
  "heap_ok live fs s \<longleftrightarrow> heap_wf live fs s \<and> gaps fs"

text \<open>The headers in use are apart from each other.\<close>

lemma heap_wf_clear:
  assumes h: "heap_wf live fs s"
  shows "(a, n) \<in> live \<union> set fs \<Longrightarrow> clear_of (xStart s) a" "(a, n) \<in> live \<union> set fs \<Longrightarrow> clear_of a (pxEnd s)" "clear_of (xStart s) (pxEnd s)"
    "(a, n) \<in> live \<union> set fs \<Longrightarrow> (c, k) \<in> live \<union> set fs \<Longrightarrow> a \<noteq> c \<Longrightarrow> clear_of a c"
    "(a, n) \<in> live \<union> set fs \<Longrightarrow> unat (ucHeap s) \<le> unat a \<and> unat a + unat n + 16 \<le> unat (ucHeap s) + 10240"
proof -
  note d = heap_wfD [OF h]
  have l: "unat (ucHeap s) + 10240 < 2 ^ 32" "hdr (xStart s)" "unat (xStart s) + 8 \<le> unat (ucHeap s) \<or> unat (ucHeap s) + 10240 \<le> unat (xStart s)"
    using d(1) by (simp_all add: heap_linked_def)
  have le: "unat (heap_start s) \<le> unat (pxEnd s)" if "(a, n) \<in> live \<union> set fs" for a n
    using tiling_block(4,5) [OF d(9) that] by linarith
  have blk: "16 \<le> unat n \<and> unat (ucHeap s) \<le> unat a \<and> unat a + unat n \<le> unat (pxEnd s) \<and> hdr a" if "(a, n) \<in> live \<union> set fs" for a n
    using tiling_block(3-5) [OF d(9) that] d(2,3) l(1) by (auto simp: hdr_def)
  have e: "hdr (pxEnd s)" using d(3) l(1) by (simp add: hdr_def)
  show "clear_of (xStart s) a" if "(a, n) \<in> live \<union> set fs" using blk [OF that] l(2,3) d(3) by (auto simp: clear_of_def)
  show "clear_of a (pxEnd s)" if "(a, n) \<in> live \<union> set fs" using blk [OF that] e by (auto simp: clear_of_def)
  show "clear_of a c" if "(a, n) \<in> live \<union> set fs" "(c, k) \<in> live \<union> set fs" "a \<noteq> c"
    using tiling_apart [OF d(9) that(1,2)] that(3) blk [OF that(1)] blk [OF that(2)] by (auto simp: clear_of_def)
  show "unat (ucHeap s) \<le> unat a \<and> unat a + unat n + 16 \<le> unat (ucHeap s) + 10240" if "(a, n) \<in> live \<union> set fs"
    using blk [OF that] d(3) by auto
  show "clear_of (xStart s) (pxEnd s)" using d(2,3) l e by (auto simp: clear_of_def)
qed

definition headers :: "block set \<Rightarrow> block list \<Rightarrow> heap \<Rightarrow> u32 set" where
  "headers live fs s = insert (xStart s) (insert (pxEnd s) (fst ` (live \<union> set fs)))"

lemma headers_cases:
  assumes "x \<in> headers live fs s"
  obtains "x = xStart s" | "x = pxEnd s" | n where "(x, n) \<in> live \<union> set fs"
  using assms by (force simp: headers_def)

lemma headers_clear:
  assumes h: "heap_wf live fs s" and x: "x \<in> headers live fs s" and y: "y \<in> headers live fs s" and ne: "x \<noteq> y"
  shows "clear_of x y"
proof -
  note c = heap_wf_clear [OF h]
  from x show ?thesis
  proof (cases rule: headers_cases)
    case 1 from y show ?thesis by (cases rule: headers_cases) (use c(1,3) ne 1 in auto)
  next
    case 2 from y show ?thesis by (cases rule: headers_cases) (use c(2,3) [THEN clear_of_sym] ne 2 in auto)
  next
    case (3 n) from y show ?thesis by (cases rule: headers_cases) (use c(1) [OF 3, THEN clear_of_sym] c(2) [OF 3] c(4) [OF 3] ne in auto)
  qed
qed

lemma headers_hdr: "heap_wf live fs s \<Longrightarrow> x \<in> headers live fs s \<Longrightarrow> hdr x"
  using headers_clear [of live fs s x "pxEnd s"] headers_clear [of live fs s x "xStart s"] heap_wf_clear(3) [of live fs s]
  by (cases "x = pxEnd s") (auto simp: clear_of_def headers_def)

text \<open>No header is in the payload of a live block.\<close>

definition payload :: "block \<Rightarrow> nat set" where "payload x = {unat (fst x) + 16 ..< unat (fst x) + unat (snd x)}"

definition same_payload :: "block set \<Rightarrow> heap \<Rightarrow> heap \<Rightarrow> bool" where
  "same_payload live s s' \<longleftrightarrow> (\<forall>x y. x \<in> live \<longrightarrow> unat y \<in> payload x \<longrightarrow> ram s' y = ram s y)"

lemma same_payloadI: "(\<And>b k y. (b, k) \<in> live \<Longrightarrow> unat y \<in> payload (b, k) \<Longrightarrow> ram s' y = ram s y) \<Longrightarrow> same_payload live s s'"
  by (auto simp: same_payload_def)

lemma payload_clear:
  assumes h: "heap_wf live fs s" and b: "(b, k) \<in> live" "y \<in> payload (b, k)" and x: "x \<in> headers live fs s"
  shows "y < unat x \<or> unat x + 8 \<le> y"
proof -
  note d = heap_wfD [OF h] and c = heap_wf_clear [OF h]
  have bk: "(b, k) \<in> live \<union> set fs" using b(1) by blast
  note B = c(5) [OF bk] tiling_block(3-5) [OF d(9) bk]
  from x show ?thesis
  proof (cases rule: headers_cases)
    case 1
    then show ?thesis using d(1) B b(2) by (auto simp: heap_linked_def payload_def)
  next
    case 2
    then show ?thesis using B b(2) by (auto simp: payload_def)
  next
    case (3 n)
    show ?thesis
    proof (cases "x = b")
      case True
      then show ?thesis using b(2) by (auto simp: payload_def)
    next
      case False
      then show ?thesis using tiling_apart [OF d(9) 3 bk] tiling_block(3) [OF d(9) 3] b(2) by (auto simp: payload_def)
    qed
  qed
qed

lemma seg_relink:
  "free_seg s p xs q \<Longrightarrow> distinct (p # map fst xs) \<Longrightarrow> pxNextFreeBlock s' (last (p # map fst xs)) = r
    \<Longrightarrow> (\<And>x. x \<in> set (p # map fst xs) \<Longrightarrow> x \<noteq> last (p # map fst xs) \<Longrightarrow> pxNextFreeBlock s' x = pxNextFreeBlock s x)
    \<Longrightarrow> (\<And>x. x \<in> fst ` set xs \<Longrightarrow> xBlockSize s' x = xBlockSize s x) \<Longrightarrow> free_seg s' p xs r"
proof (induction s p xs q rule: free_seg.induct)
  case (2 s p a n xs q)
  have "last (a # map fst xs) \<noteq> p" using 2(3) last_in_set [of "a # map fst xs"] by fastforce
  then have "pxNextFreeBlock s' p = a" using 2(2,5) by auto
  moreover have "free_seg s' a xs r" by (rule 2(1)) (use 2(2-6) in auto)
  ultimately show ?case using 2(2,6) by simp
qed simp

lemma gaps_mid:
  "gaps (xs @ (a, n) # ys) \<longleftrightarrow> gaps xs \<and> gaps ys \<and> (\<forall>x \<in> set xs. unat (fst x) + unat (snd x) < unat a)
    \<and> (\<forall>y \<in> set ys. unat a + unat n < unat (fst y)) \<and> (\<forall>x \<in> set xs. \<forall>y \<in> set ys. unat (fst x) + unat (snd x) < unat (fst y))"
  unfolding gaps_def by (auto simp: sorted_wrt_append)

lemma gaps_append: "gaps (xs @ ys) \<longleftrightarrow> gaps xs \<and> gaps ys \<and> (\<forall>x \<in> set xs. \<forall>y \<in> set ys. unat (fst x) + unat (snd x) < unat (fst y))"
  unfolding gaps_def by (simp add: sorted_wrt_append)

lemma heap_wf_distinct:
  assumes h: "heap_wf live fs s"
  shows "distinct (xStart s # map fst fs)" "x \<in> live \<Longrightarrow> fst x \<notin> fst ` set fs"
proof -
  note d = heap_wfD [OF h]
  note d(11)
  moreover have "xStart s \<notin> fst ` set fs" using heap_wf_clear(1) [OF h] by (fastforce dest: clear_of_neq)
  ultimately show "distinct (xStart s # map fst fs)" by simp
  show "fst x \<notin> fst ` set fs" if "x \<in> live"
  proof
    assume "fst x \<in> fst ` set fs"
    then obtain n where n: "(fst x, n) \<in> set fs" by force
    moreover have "(fst x, snd x) \<in> live" using that by simp
    ultimately have "snd x = n" using tiling_same [OF d(9), of "fst x" "snd x" n] by blast
    then show False using n that d(10) by (metis IntI empty_iff prod.collapse)
  qed
qed

lemma validate_ok:
  assumes "heap_linked s" "unat (ucHeap s) \<le> unat p" "unat p < unat (ucHeap s) + 10240"
  shows "heapVALIDATE_BLOCK_POINTER p s = Some ()"
proof -
  have "unat (ucHeap s + of_nat 10239) = unat (ucHeap s) + 10239" using assms(1) by (intro unat_plus_small) (simp add: heap_linked_def)
  then show ?thesis using assms by (simp add: heapVALIDATE_BLOCK_POINTER_def configASSERT_def configTOTAL_HEAP_SIZE_def word_le_nat_alt)
qed

lemma find_fit_finds:
  assumes h: "heap_wf live fs s" and w: "0 < w"
  shows "free_seg s p xs (pxEnd s) \<Longrightarrow> set xs \<subseteq> set fs \<Longrightarrow>
    find_fit w p (pxNextFreeBlock s p) s = Some (last (p # map fst (takeWhile (\<lambda>x. snd x < w) xs)),
      case dropWhile (\<lambda>x. snd x < w) xs of [] \<Rightarrow> pxEnd s | x # ys \<Rightarrow> fst x)"
proof (induction xs arbitrary: p)
  note d = heap_wfD [OF h]
  case Nil
  have "heapVALIDATE_BLOCK_POINTER (pxEnd s) s = Some ()" using d(2,3) by (intro validate_ok [OF d(1)]) auto
  then show ?case using Nil d(5,6) w by (subst find_fit.simps) (simp add: word_gt_0_no)
next
  case (Cons x xs)
  note d = heap_wfD [OF h]
  obtain a n where x: "x = (a, n)" by force
  have p: "pxNextFreeBlock s p = a" "xBlockSize s a = n" "free_seg s a xs (pxEnd s)" using Cons(2) x by auto
  have "(a, n) \<in> live \<union> set fs" using Cons(3) x by auto
  note b = heap_wf_clear(5) [OF h this] tiling_block(3) [OF d(9) this]
  have v: "heapVALIDATE_BLOCK_POINTER a s = Some ()" using b by (intro validate_ok [OF d(1)]) auto
  have nz: "pxNextFreeBlock s a \<noteq> 0"
  proof -
    have "unat (ucHeap s) \<le> unat (pxNextFreeBlock s a)"
    proof (cases xs)
      case Nil
      then show ?thesis using p(3) d(2) by auto
    next
      case (Cons y ys)
      then have "y \<in> live \<union> set fs" using Cons.prems(2) by auto
      then show ?thesis using heap_wf_clear(5) [OF h, of "fst y" "snd y"] p(3) Cons by (cases y) auto
    qed
    then show ?thesis using d(1) by (auto simp: heap_linked_def)
  qed
  show ?case
  proof (cases "n < w")
    case True
    have "find_fit w p a s = find_fit w a (pxNextFreeBlock s a) s" using v True nz p by (subst find_fit.simps) simp
    then show ?thesis using Cons(1) [OF p(3)] Cons(3) True x p(1) by simp
  next
    case False
    then show ?thesis using v p x by (subst find_fit.simps) simp
  qed
qed

section \<open>Words\<close>

lemma unat_and15: "unat ((x :: u32) AND 15) = unat x mod 16"
proof -
  have "x AND 15 = take_bit 4 x" by (simp add: take_bit_eq_mask mask_eq_exp_minus_1)
  then have "unat (x AND 15) = take_bit 4 (unat x)" by (simp only: unsigned_take_bit_eq)
  then show ?thesis by (simp add: take_bit_eq_mod)
qed

lemma aligned_iff: "(x :: u32) AND 15 = 0 \<longleftrightarrow> unat x mod 16 = 0"
  by (metis unat_and15 unat_eq_zero)

lemma unat_align: "unat ((x :: u32) AND NOT 15) = unat x - unat x mod 16"
proof -
  have "x AND NOT m = x - (x AND m)" for m
  proof -
    have "(x AND NOT m) AND (x AND m) = 0" by (rule bit_word_eqI) (auto simp: bit_and_iff bit_not_iff)
    then have "(x AND NOT m) + (x AND m) = (x AND NOT m) OR (x AND m)" by (rule disjunctive_add_eq_or)
    also have "\<dots> = x" by (rule bit_word_eqI) (auto simp: bit_and_iff bit_or_iff bit_not_iff)
    finally show ?thesis by (simp add: algebra_simps)
  qed
  moreover have "x AND 15 \<le> x" by (simp add: word_le_nat_alt unat_and15)
  ultimately show ?thesis by (simp only: unat_sub unat_and15)
qed

lemma allocated_mark:
  assumes "unat (n :: u32) < 2 ^ 31"
  shows "(n OR heapBLOCK_ALLOCATED_BITMASK) AND heapBLOCK_ALLOCATED_BITMASK \<noteq> 0"
    "(n OR heapBLOCK_ALLOCATED_BITMASK) AND NOT heapBLOCK_ALLOCATED_BITMASK = n" "n AND heapBLOCK_ALLOCATED_BITMASK = 0"
proof -
  have m: "bit heapBLOCK_ALLOCATED_BITMASK k \<longleftrightarrow> k = 31" for k
  proof -
    have "(4 * 8 - 1 :: nat) = 31" by simp
    then show ?thesis unfolding heapBLOCK_ALLOCATED_BITMASK_def by (simp only: bit_push_bit_iff bit_1_iff possible_bit_word) auto
  qed
  have "take_bit 31 (unat n) = unat n" using assms by (simp add: take_bit_nat_eq_self)
  then have "bit (unat n) k \<Longrightarrow> k < 31" for k by (metis bit_take_bit_iff)
  then have hi: "bit n k \<Longrightarrow> k < 31" for k by (simp add: bit_unsigned_iff bit_imp_possible_bit)
  show "(n OR heapBLOCK_ALLOCATED_BITMASK) AND heapBLOCK_ALLOCATED_BITMASK \<noteq> 0"
  proof
    assume "(n OR heapBLOCK_ALLOCATED_BITMASK) AND heapBLOCK_ALLOCATED_BITMASK = 0"
    then have "\<not> bit ((n OR heapBLOCK_ALLOCATED_BITMASK) AND heapBLOCK_ALLOCATED_BITMASK) 31" by simp
    then show False by (simp add: bit_and_iff bit_or_iff m)
  qed
  show "(n OR heapBLOCK_ALLOCATED_BITMASK) AND NOT heapBLOCK_ALLOCATED_BITMASK = n"
    by (rule bit_word_eqI) (use hi m in \<open>auto simp: bit_and_iff bit_or_iff bit_not_iff\<close>)
  show "n AND heapBLOCK_ALLOCATED_BITMASK = 0"
    by (rule bit_word_eqI) (use hi m in \<open>auto simp: bit_and_iff\<close>)
qed

lemma struct_size [simp]: "xHeapStructSize = 16" "heapMINIMUM_BLOCK_SIZE = 32"
proof -
  show x: "xHeapStructSize = 16" by (simp add: xHeapStructSize_def portBYTE_ALIGNMENT_def portBYTE_ALIGNMENT_MASK_def)
  show "heapMINIMUM_BLOCK_SIZE = 32" unfolding heapMINIMUM_BLOCK_SIZE_def x by simp
qed

lemma mod16_diff: "n mod 16 = (0 :: nat) \<Longrightarrow> w mod 16 = 0 \<Longrightarrow> w < n \<Longrightarrow> (n - w) mod 16 = 0 \<and> w + 16 \<le> n"
  by presburger

lemma member_le_sum: "(x :: block) \<in> set fs \<Longrightarrow> unat (snd x) \<le> (\<Sum>x \<leftarrow> fs. unat (snd x))"
  by (induction fs) auto

section \<open>Allocation\<close>

lemma last_header: "last (xStart s # map fst xs) \<in> insert (xStart s) (fst ` set xs)"
  using last_in_set [of "xStart s # map fst xs"] by auto

text \<open>The free list without the block \<open>a\<close>, or with its tail.\<close>

lemma seg_skip:
  assumes "free_seg s a ys q" "free_seg s' p xs (pxNextFreeBlock s a)"
    "\<And>x. x \<in> fst ` set ys \<Longrightarrow> pxNextFreeBlock s' x = pxNextFreeBlock s x \<and> xBlockSize s' x = xBlockSize s x"
  shows "free_seg s' p (xs @ ys) q"
proof (cases ys)
  case Nil
  then show ?thesis using assms(1,2) by simp
next
  case (Cons y zs)
  obtain b k where y: "y = (b, k)" by force
  have b: "pxNextFreeBlock s a = b" "xBlockSize s b = k" "free_seg s b zs q" using assms(1) Cons y by auto
  have "free_seg s' b zs q" by (rule seg_frame [OF b(3)]) (use assms(3) Cons y in auto)
  then show ?thesis using assms(2,3) b Cons y by (simp add: free_seg_append)
qed

lemma taken_all:
  assumes h: "heap_wf live fs s" and fs: "fs = xs @ (a, n) # ys"
    and N: "\<And>x. x \<in> headers live fs s \<Longrightarrow> pxNextFreeBlock s' x = (if x = a then 0 else if x = last (xStart s # map fst xs) then pxNextFreeBlock s a else pxNextFreeBlock s x)"
    and S: "\<And>x. x \<in> headers live fs s \<Longrightarrow> xBlockSize s' x = (if x = a then n OR heapBLOCK_ALLOCATED_BITMASK else xBlockSize s x)"
    and e: "ucHeap s' = ucHeap s" "xStart s' = xStart s" "pxEnd s' = pxEnd s" "xFreeBytesRemaining s' = xFreeBytesRemaining s - n"
  shows "heap_wf (insert (a, n) live) (xs @ ys) s'"
proof -
  let ?prev = "last (xStart s # map fst xs)"
  note d = heap_wfD [OF h] and c = heap_wf_clear [OF h] and dist = heap_wf_distinct [OF h]
  have an: "(a, n) \<in> set fs" by (simp add: fs)
  have seg1: "free_seg s (xStart s) xs a" "free_seg s a ys (pxEnd s)" using d(4) by (simp_all add: fs free_seg_append)
  have di: "distinct (xStart s # map fst xs)" "a \<notin> insert (xStart s) (fst ` set xs)" "a \<notin> fst ` set ys" "insert (xStart s) (fst ` set xs) \<inter> fst ` set ys = {}"
    using dist(1) by (auto simp: fs)
  have H: "insert (xStart s) (fst ` set xs) \<subseteq> headers live fs s" "fst ` set ys \<subseteq> headers live fs s" "fst ` live \<subseteq> headers live fs s" "pxEnd s \<in> headers live fs s"
    by (auto simp: headers_def fs)
  have pr: "?prev \<in> insert (xStart s) (fst ` set xs)" by (rule last_header)
  have before: "pxNextFreeBlock s' x = (if x = ?prev then pxNextFreeBlock s a else pxNextFreeBlock s x) \<and> xBlockSize s' x = xBlockSize s x"
    if "x \<in> insert (xStart s) (fst ` set xs)" for x
  proof -
    have "x \<noteq> a" "x \<in> headers live fs s" using that di(2) H(1) by blast+
    then show ?thesis using N [of x] S [of x] by simp
  qed
  have after: "pxNextFreeBlock s' x = pxNextFreeBlock s x \<and> xBlockSize s' x = xBlockSize s x" if "x \<in> fst ` set ys" for x
  proof -
    have "x \<noteq> a" "x \<noteq> ?prev" "x \<in> headers live fs s" using that di(3,4) pr H(2) by blast+
    then show ?thesis using N [of x] S [of x] by simp
  qed
  have ss: "set (xStart s # map fst xs) = insert (xStart s) (fst ` set xs)" by simp
  have "free_seg s' (xStart s) xs (pxNextFreeBlock s a)"
  proof (rule seg_relink [OF seg1(1) di(1)])
    show "pxNextFreeBlock s' ?prev = pxNextFreeBlock s a" using before [OF pr] by simp
    show "pxNextFreeBlock s' x = pxNextFreeBlock s x" if "x \<in> set (xStart s # map fst xs)" "x \<noteq> ?prev" for x
      using before [of x] that unfolding ss by simp
    show "xBlockSize s' x = xBlockSize s x" if "x \<in> fst ` set xs" for x using before that by blast
  qed
  then have sg: "free_seg s' (xStart s) (xs @ ys) (pxEnd s)"
    by (rule seg_skip [OF seg1(2)]) (rule after)
  have E: "pxEnd s \<noteq> a" "pxEnd s \<noteq> ?prev"
    using c(2) an pr c(2,3) by (fastforce simp: fs dest: clear_of_neq)+
  have lv: "xBlockSize s' (fst x) = snd x OR heapBLOCK_ALLOCATED_BITMASK \<and> pxNextFreeBlock s' (fst x) = 0" if x: "x \<in> insert (a, n) live" for x
  proof (cases "x = (a, n)")
    case True
    then show ?thesis using N [of a] S [of a] an by (force simp: headers_def)
  next
    case False
    then have x: "x \<in> live" using that by simp
    have "set fs = insert (a, n) (set xs \<union> set ys)" by (auto simp: fs)
    then have ne: "fst x \<noteq> a" "fst x \<notin> fst ` set xs" using dist(2) [OF x] by (simp_all add: image_Un)
    have "fst x \<noteq> xStart s" using c(1) [of "fst x" "snd x"] x by (auto dest: clear_of_neq)
    then have "fst x \<notin> insert (xStart s) (fst ` set xs)" using ne(2) by simp
    then have "fst x \<noteq> ?prev" using pr by metis
    moreover have "fst x \<in> headers live fs s" using x H(3) by blast
    moreover have "xBlockSize s (fst x) = snd x OR heapBLOCK_ALLOCATED_BITMASK \<and> pxNextFreeBlock s (fst x) = 0" using d(8) x by (cases x) simp
    ultimately show ?thesis using N [of "fst x"] S [of "fst x"] ne(1) by simp
  qed
  have xs0: "xBlockSize s' (xStart s) = 0" using before [of "xStart s"] d(7) by simp
  have un: "insert (a, n) live \<union> set (xs @ ys) = live \<union> set fs" by (auto simp: fs)
  have "(a, n) \<notin> set (xs @ ys)" using di(2,3) by force
  then have inter: "insert (a, n) live \<inter> set (xs @ ys) = {}" using d(10) by (auto simp: fs)
  have g: "distinct (map fst (xs @ ys))" using d(11) by (simp add: fs)
  have "unat (xFreeBytesRemaining s) = (\<Sum>x \<leftarrow> xs @ ys. unat (snd x)) + unat n" using d(12) by (simp add: fs)
  then have fr: "unat (xFreeBytesRemaining s') = (\<Sum>x \<leftarrow> xs @ ys. unat (snd x))"
    unfolding e(4) by (subst unat_sub) (simp_all add: word_le_nat_alt)
  have st: "heap_linked s'" "heap_start s' = heap_start s" using d(1) e(1,2) by (simp_all add: heap_linked_def heap_start_def)
  show ?thesis
    unfolding heap_wf_def e(1-3) st(2) un
    using st(1) d(2,13,3,9) sg lv xs0 inter g fr N [OF H(4)] S [OF H(4)] E d(5,6) by simp
qed

lemma seg_mid_relink:
  assumes "free_seg s p (xs @ (a, n) # ys) q" "distinct (p # map fst (xs @ (a, n) # ys))"
    and N: "\<And>x. x \<in> insert p (fst ` (set xs \<union> set ys)) \<Longrightarrow> pxNextFreeBlock s' x = pxNextFreeBlock s x"
    and S: "\<And>x. x \<in> fst ` (set xs \<union> set ys) \<Longrightarrow> xBlockSize s' x = xBlockSize s x"
  shows "free_seg s' p xs a" "free_seg s a ys q" "free_seg s' c ys q \<longleftrightarrow> (case ys of [] \<Rightarrow> pxNextFreeBlock s' c = q | y # _ \<Rightarrow> pxNextFreeBlock s' c = fst y)"
proof -
  have g: "free_seg s p xs a" "free_seg s a ys q" using assms(1) by (simp_all add: free_seg_append)
  show "free_seg s' p xs a" by (rule seg_frame [OF g(1)]) (use N S in auto)
  show "free_seg s a ys q" by (rule g(2))
  show "free_seg s' c ys q \<longleftrightarrow> (case ys of [] \<Rightarrow> pxNextFreeBlock s' c = q | y # _ \<Rightarrow> pxNextFreeBlock s' c = fst y)"
  proof (cases ys)
    case (Cons y zs)
    obtain b k where y: "y = (b, k)" by force
    have "xBlockSize s b = k" "free_seg s b zs q" using g(2) Cons y by auto
    moreover from this(2) have "free_seg s' b zs q" by (rule seg_frame) (use N S Cons y in auto)
    ultimately show ?thesis using S [of b] Cons y by auto
  qed simp
qed

lemma seg_first: "free_seg s p ys q \<Longrightarrow> (case ys of [] \<Rightarrow> pxNextFreeBlock s p = q | y # _ \<Rightarrow> pxNextFreeBlock s p = fst y)"
  by (cases ys) auto

definition others :: "block set \<Rightarrow> block list \<Rightarrow> block list \<Rightarrow> heap \<Rightarrow> u32 set" where
  "others live xs ys s = insert (xStart s) (insert (pxEnd s) (fst ` (live \<union> (set xs \<union> set ys))))"

lemma heap_wf_mid:
  assumes h: "heap_wf live (xs @ (a, n) # ys) s"
  shows "a \<in> headers live (xs @ (a, n) # ys) s" "x \<in> others live xs ys s \<Longrightarrow> x \<in> headers live (xs @ (a, n) # ys) s \<and> x \<noteq> a"
    "(a, n) \<notin> live" "(a, n) \<notin> set xs" "(a, n) \<notin> set ys"
proof -
  have an: "(a, n) \<in> live \<union> set (xs @ (a, n) # ys)" by simp
  note c = heap_wf_clear [OF h] and dist = heap_wf_distinct [OF h]
  have S: "set (xs @ (a, n) # ys) = insert (a, n) (set xs \<union> set ys)" by auto
  show "a \<in> headers live (xs @ (a, n) # ys) s" by (simp add: headers_def)
  have 1: "xStart s \<noteq> a" by (rule clear_of_neq [OF c(1) [OF an]])
  have 2: "pxEnd s \<noteq> a" using clear_of_neq [OF c(2) [OF an]] by simp
  have 3: "a \<notin> fst ` set xs" "a \<notin> fst ` set ys" using dist(1) by auto
  have 4: "fst y \<noteq> a" if "y \<in> live" for y using dist(2) [OF that] by simp
  show "x \<in> headers live (xs @ (a, n) # ys) s \<and> x \<noteq> a" if "x \<in> others live xs ys s"
  proof
    have "others live xs ys s \<subseteq> headers live (xs @ (a, n) # ys) s" unfolding others_def headers_def S by blast
    then show "x \<in> headers live (xs @ (a, n) # ys) s" using that by blast
    show "x \<noteq> a" using that 1 2 3 4 unfolding others_def by blast
  qed
  show "(a, n) \<notin> live" using 4 [of "(a, n)"] by auto
  show "(a, n) \<notin> set xs" "(a, n) \<notin> set ys" using 3 by force+
qed

lemma split_wf:
  assumes h: "heap_wf live (xs @ (a, n) # ys) s" and w: "unat w < unat n" "unat w mod 16 = 0" "0 < unat w"
    and N: "\<And>x. x \<in> headers live (xs @ (a, n) # ys) s \<Longrightarrow> pxNextFreeBlock s' x = (if x = a then a + w else pxNextFreeBlock s x)"
    and S: "\<And>x. x \<in> headers live (xs @ (a, n) # ys) s \<Longrightarrow> xBlockSize s' x = (if x = a then w else xBlockSize s x)"
    and new: "pxNextFreeBlock s' (a + w) = pxNextFreeBlock s a" "xBlockSize s' (a + w) = n - w"
    and e: "ucHeap s' = ucHeap s" "xStart s' = xStart s" "pxEnd s' = pxEnd s" "xFreeBytesRemaining s' = xFreeBytesRemaining s"
  shows "heap_wf live (xs @ (a, w) # (a + w, n - w) # ys) s'"
proof -
  let ?fs = "xs @ (a, n) # ys" and ?G = "live \<union> set (xs @ (a, n) # ys)"
  note d = heap_wfD [OF h] and c = heap_wf_clear [OF h] and dist = heap_wf_distinct [OF h]
  have an: "(a, n) \<in> ?G" by simp
  note A = c(5) [OF an] tiling_block [OF d(9) an]
  have bound: "unat (ucHeap s) + 10240 < 2 ^ 32" using d(1) by (simp add: heap_linked_def)
  have aw: "unat (a + w) = unat a + unat w" using A(1) w(1) bound by (simp add: unat_word_ariths)
  have nw: "unat (n - w) = unat n - unat w" using w(1) by (simp add: unat_sub word_le_nat_alt)
  have m: "(unat n - unat w) mod 16 = 0" using mod16_diff [OF A(3) w(2,1)] by simp
  have t: "tiling (insert (a, w) (insert (a + w, n - w) (?G - {(a, n)}))) (heap_start s) (pxEnd s)"
  proof (rule tiling_split [OF d(9) an])
    show "bytes (a, n) = bytes (a, w) \<union> bytes (a + w, n - w)" using aw nw w(1) by (auto simp: bytes_def)
    show "bytes (a, w) \<inter> bytes (a + w, n - w) = {}" using aw by (auto simp: bytes_def)
    show "block_ok (a, w)" using A(2) w by (simp add: block_ok_def)
    have "(unat a + unat w) mod 16 = 0" using A(2) w(2) by presburger
    then show "block_ok (a + w, n - w)" using m w(1) by (simp add: block_ok_def aw nw)
  qed
  have inside: "x \<noteq> a + w" if "(x, k) \<in> ?G" for x k
  proof
    assume x: "x = a + w"
    then have "(x, k) \<noteq> (a, n)" using aw w(3) by auto
    then show False using tiling_apart [OF d(9) that an] tiling_block(3) [OF d(9) that] aw w unfolding x by linarith
  qed
  note anG = heap_wf_mid(3-5) [OF h]
  have G: "live \<union> set (xs @ (a, w) # (a + w, n - w) # ys) = insert (a, w) (insert (a + w, n - w) (?G - {(a, n)}))" using anG by auto
  have nl: "(a, w) \<notin> live"
  proof
    assume "(a, w) \<in> live"
    then show False using dist(2) [of "(a, w)"] by simp
  qed
  have inter: "live \<inter> set (xs @ (a, w) # (a + w, n - w) # ys) = {}"
    using d(10) inside [of "a + w" "n - w"] nl by auto
  have "a + w \<notin> fst ` set xs" "a + w \<notin> fst ` set ys" "a + w \<noteq> a" using inside inside [OF an] by force+
  then have di: "distinct (map fst (xs @ (a, w) # (a + w, n - w) # ys))" using d(11) by auto
  have N': "pxNextFreeBlock s' x = pxNextFreeBlock s x" "xBlockSize s' x = xBlockSize s x" if "x \<in> others live xs ys s" for x
    using heap_wf_mid(2) [OF h that] N S by simp_all
  have sg: "free_seg s (xStart s) (xs @ (a, n) # ys) (pxEnd s)" by (rule d(4))
  note M = seg_mid_relink [OF sg dist(1), of s', OF N'(1) N'(2)]
  note aH = heap_wf_mid(1) [OF h]
  have na: "pxNextFreeBlock s' a = a + w" "xBlockSize s' a = w" using N [OF aH] S [OF aH] by simp_all
  have s1: "free_seg s' (xStart s) xs a" by (rule M(1)) (auto simp: others_def)
  have "free_seg s a ys (pxEnd s)" by (rule M(2)) (auto simp: others_def)
  from seg_first [OF this] have s2: "free_seg s' (a + w) ys (pxEnd s)" by (subst M(3)) (use new(1) in \<open>auto simp: others_def split: list.splits\<close>)
  have seg': "free_seg s' (xStart s) (xs @ (a, w) # (a + w, n - w) # ys) (pxEnd s)" using s1 s2 na new(2) by (simp add: free_seg_append)
  have "(\<Sum>x \<leftarrow> xs @ (a, w) # (a + w, n - w) # ys. unat (snd x)) = (\<Sum>x \<leftarrow> ?fs. unat (snd x))" using nw w(1) by simp
  then have fr: "unat (xFreeBytesRemaining s') = (\<Sum>x \<leftarrow> xs @ (a, w) # (a + w, n - w) # ys. unat (snd x))" using d(12) e(4) by simp
  have lv: "\<forall>x \<in> live. xBlockSize s' (fst x) = snd x OR heapBLOCK_ALLOCATED_BITMASK \<and> pxNextFreeBlock s' (fst x) = 0"
  proof
    fix x assume x: "x \<in> live"
    then have "fst x \<in> others live xs ys s" by (auto simp: others_def)
    then show "xBlockSize s' (fst x) = snd x OR heapBLOCK_ALLOCATED_BITMASK \<and> pxNextFreeBlock s' (fst x) = 0"
      using N' d(8) [of "fst x" "snd x"] x by simp
  qed
  have st: "heap_linked s'" "heap_start s' = heap_start s" using d(1) e(1,2) by (simp_all add: heap_linked_def heap_start_def)
  show ?thesis
    unfolding heap_wf_def e(1-3) st(2) G
    using st(1) d(2,13,3) t seg' lv inter di fr N' [of "pxEnd s"] N' [of "xStart s"] d(5-7) by (simp add: others_def)
qed

lemma tiling_sum:
  assumes t: "tiling G b e" and z: "distinct zs" "set zs \<subseteq> G"
  shows "(\<Sum>x \<leftarrow> zs. unat (snd x)) \<le> unat e - unat b"
proof -
  have dj: "bytes x \<inter> bytes y = {}" if "x \<in> set zs" "y \<in> set zs" "x \<noteq> y" for x y
    using t that z(2) unfolding tiling_def by blast
  have "(\<Sum>x \<leftarrow> zs. unat (snd x)) = (\<Sum>x \<in> set zs. card (bytes x))" using z(1) by (simp add: sum_list_distinct_conv_sum_set bytes_def)
  also have "\<dots> = card (\<Union> (bytes ` set zs))"
    by (rule card_UN_disjoint [symmetric]) (simp, simp add: bytes_def, metis dj)
  also have "\<Union> (bytes ` set zs) \<subseteq> {unat b ..< unat e}" using t z(2) unfolding tiling_def by blast
  then have "card (\<Union> (bytes ` set zs)) \<le> card {unat b ..< unat e}" by (rule card_mono [rotated]) simp
  finally show ?thesis by simp
qed

lemma seg_tail:
  assumes "free_seg s c ys q" "pxNextFreeBlock s' r = pxNextFreeBlock s c"
    "\<And>x. x \<in> fst ` set ys \<Longrightarrow> pxNextFreeBlock s' x = pxNextFreeBlock s x \<and> xBlockSize s' x = xBlockSize s x"
  shows "free_seg s' r ys q"
proof (cases ys)
  case Nil
  then show ?thesis using assms by simp
next
  case (Cons y zs)
  obtain b k where y: "y = (b, k)" by force
  have "pxNextFreeBlock s c = b" "xBlockSize s b = k" "free_seg s b zs q" using assms(1) Cons y by auto
  moreover from this(3) have "free_seg s' b zs q" by (rule seg_frame) (use assms(3) Cons y in auto)
  ultimately show ?thesis using assms(2,3) Cons y by auto
qed

lemma seg_prefix:
  "free_seg s p (xs @ ys) q \<Longrightarrow> free_seg s p xs (pxNextFreeBlock s (last (p # map fst xs))) \<and> free_seg s (last (p # map fst xs)) ys q"
  by (induction s p xs q rule: free_seg.induct) auto

lemma merge_wf:
  assumes h: "heap_wf live (xs @ (a, n) # (c, k) # ys) s" and adj: "unat a + unat n = unat c"
    and N: "\<And>x. x \<in> others live xs ys s \<Longrightarrow> pxNextFreeBlock s' x = pxNextFreeBlock s x"
    and S: "\<And>x. x \<in> others live xs ys s \<Longrightarrow> xBlockSize s' x = xBlockSize s x"
    and na: "pxNextFreeBlock s' a = pxNextFreeBlock s c" "xBlockSize s' a = n + k"
    and e: "ucHeap s' = ucHeap s" "xStart s' = xStart s" "pxEnd s' = pxEnd s" "xFreeBytesRemaining s' = xFreeBytesRemaining s"
  shows "heap_wf live (xs @ (a, n + k) # ys) s'"
proof -
  let ?fs = "xs @ (a, n) # (c, k) # ys" and ?G = "live \<union> set (xs @ (a, n) # (c, k) # ys)"
  have h2: "heap_wf live ((xs @ [(a, n)]) @ (c, k) # ys) s" using h by simp
  note d = heap_wfD [OF h] and cl = heap_wf_clear [OF h] and dist = heap_wf_distinct [OF h]
  have an: "(a, n) \<in> ?G" and ck: "(c, k) \<in> ?G" by simp_all
  note A = cl(5) [OF an] tiling_block [OF d(9) an] and C = cl(5) [OF ck] tiling_block [OF d(9) ck]
  have bound: "unat (ucHeap s) + 10240 < 2 ^ 32" using d(1) by (simp add: heap_linked_def)
  have nk: "unat (n + k) = unat n + unat k" using A(1) C(1) bound adj by (simp add: unat_word_ariths)
  have t: "tiling (insert (a, n + k) (?G - {(a, n), (c, k)})) (heap_start s) (pxEnd s)"
  proof (rule tiling_merge [OF d(9) an ck])
    show "bytes (a, n + k) = bytes (a, n) \<union> bytes (c, k)" using nk adj by (auto simp: bytes_def)
    have "(unat n + unat k) mod 16 = 0" using A(3) C(3) by presburger
    then show "block_ok (a, n + k)" using A(2,4) nk by (simp add: block_ok_def)
  qed
  note anG = heap_wf_mid(3-5) [OF h] and ckG = heap_wf_mid(3-5) [OF h2]
  have G: "live \<union> set (xs @ (a, n + k) # ys) = insert (a, n + k) (?G - {(a, n), (c, k)})" using anG ckG by auto
  have "(a, n + k) \<notin> live" using dist(2) [of "(a, n + k)"] by auto
  then have inter: "live \<inter> set (xs @ (a, n + k) # ys) = {}" using d(10) by auto
  have di: "distinct (map fst (xs @ (a, n + k) # ys))" using d(11) by simp
  have sg: "free_seg s (xStart s) xs a" "free_seg s c ys (pxEnd s)" using d(4) by (simp_all add: free_seg_append)
  have s1: "free_seg s' (xStart s) xs a" by (rule seg_frame [OF sg(1)]) (rule N S; auto simp: others_def)+
  have s2: "free_seg s' a ys (pxEnd s)" by (rule seg_tail [OF sg(2) na(1)]) (intro conjI N S; auto simp: others_def)+
  have seg': "free_seg s' (xStart s) (xs @ (a, n + k) # ys) (pxEnd s)" using s1 s2 na(2) by (simp add: free_seg_append)
  have "(\<Sum>x \<leftarrow> xs @ (a, n + k) # ys. unat (snd x)) = (\<Sum>x \<leftarrow> ?fs. unat (snd x))" using nk by simp
  then have fr: "unat (xFreeBytesRemaining s') = (\<Sum>x \<leftarrow> xs @ (a, n + k) # ys. unat (snd x))" using d(12) e(4) by simp
  have lv: "\<forall>x \<in> live. xBlockSize s' (fst x) = snd x OR heapBLOCK_ALLOCATED_BITMASK \<and> pxNextFreeBlock s' (fst x) = 0"
  proof
    fix x assume x: "x \<in> live"
    then have "fst x \<in> others live xs ys s" by (auto simp: others_def)
    then show "xBlockSize s' (fst x) = snd x OR heapBLOCK_ALLOCATED_BITMASK \<and> pxNextFreeBlock s' (fst x) = 0"
      using N S d(8) [of "fst x" "snd x"] x by simp
  qed
  have st: "heap_linked s'" "heap_start s' = heap_start s" using d(1) e(1,2) by (simp_all add: heap_linked_def heap_start_def)
  show ?thesis
    unfolding heap_wf_def e(1-3) st(2) G
    using st(1) d(2,13,3) t seg' lv inter di fr N [of "pxEnd s"] S [of "pxEnd s"] S [of "xStart s"] d(5-7) by (simp add: others_def)
qed

lemma insert_wf:
  assumes h: "heap_wf live (xs @ ys) s" and b: "(b, n) \<in> live"
    and N: "\<And>x. x \<in> headers live (xs @ ys) s \<Longrightarrow> pxNextFreeBlock s' x = (if x = b then pxNextFreeBlock s (last (xStart s # map fst xs))
        else if x = last (xStart s # map fst xs) then b else pxNextFreeBlock s x)"
    and S: "\<And>x. x \<in> headers live (xs @ ys) s \<Longrightarrow> xBlockSize s' x = (if x = b then n else xBlockSize s x)"
    and e: "ucHeap s' = ucHeap s" "xStart s' = xStart s" "pxEnd s' = pxEnd s" "xFreeBytesRemaining s' = xFreeBytesRemaining s + n"
  shows "heap_wf (live - {(b, n)}) (xs @ (b, n) # ys) s'"
proof -
  let ?p = "last (xStart s # map fst xs)" and ?G = "live \<union> set (xs @ ys)"
  note d = heap_wfD [OF h] and cl = heap_wf_clear [OF h] and dist = heap_wf_distinct [OF h]
  have bn: "(b, n) \<in> ?G" using b by simp
  note B = cl(5) [OF bn] tiling_block [OF d(9) bn]
  have bound: "unat (ucHeap s) + 10240 < 2 ^ 32" using d(1) by (simp add: heap_linked_def)
  have nb: "b \<notin> fst ` set xs" "b \<notin> fst ` set ys" using dist(2) [OF b] by (simp_all add: image_Un)
  have bs: "b \<noteq> xStart s" "b \<noteq> pxEnd s" using clear_of_neq [OF cl(1) [OF bn]] clear_of_neq [OF cl(2) [OF bn]] by simp_all
  have pr: "?p \<in> insert (xStart s) (fst ` set xs)" by (rule last_header)
  have "b \<notin> insert (xStart s) (fst ` set xs)" using nb(1) bs(1) by simp
  then have pb: "?p \<noteq> b" using pr by metis
  have bH: "b \<in> headers live (xs @ ys) s" using b by (force simp: headers_def)
  have bb: "pxNextFreeBlock s' b = pxNextFreeBlock s ?p" "xBlockSize s' b = n" using N [OF bH] S [OF bH] by simp_all
  have before: "pxNextFreeBlock s' x = (if x = ?p then b else pxNextFreeBlock s x) \<and> xBlockSize s' x = xBlockSize s x"
    if "x \<in> insert (xStart s) (fst ` set xs)" for x
  proof -
    have "x \<noteq> b" using that nb(1) bs(1) by blast
    moreover have "x \<in> headers live (xs @ ys) s" using that by (auto simp: headers_def)
    ultimately show ?thesis using N [of x] S [of x] by simp
  qed
  have dd: "distinct (xStart s # map fst xs)" "insert (xStart s) (fst ` set xs) \<inter> fst ` set ys = {}" using dist(1) by auto
  have after: "pxNextFreeBlock s' x = pxNextFreeBlock s x \<and> xBlockSize s' x = xBlockSize s x" if "x \<in> fst ` set ys" for x
  proof -
    have "x \<noteq> b" using that nb(2) by blast
    moreover have "x \<noteq> ?p" using that pr dd(2) by blast
    moreover have "x \<in> headers live (xs @ ys) s" using that by (auto simp: headers_def)
    ultimately show ?thesis using N [of x] S [of x] by simp
  qed
  note sg = seg_prefix [OF d(4)]
  have ss: "set (xStart s # map fst xs) = insert (xStart s) (fst ` set xs)" by simp
  have s1: "free_seg s' (xStart s) xs b"
  proof (rule seg_relink [OF conjunct1 [OF sg] dd(1)])
    show "pxNextFreeBlock s' ?p = b" using before [OF pr] by simp
    show "pxNextFreeBlock s' x = pxNextFreeBlock s x" if "x \<in> set (xStart s # map fst xs)" "x \<noteq> ?p" for x
      using before [of x] that unfolding ss by simp
    show "xBlockSize s' x = xBlockSize s x" if "x \<in> fst ` set xs" for x using before that by blast
  qed
  have s2: "free_seg s' b ys (pxEnd s)" by (rule seg_tail [OF conjunct2 [OF sg] bb(1)]) (rule after)
  have seg': "free_seg s' (xStart s) (xs @ (b, n) # ys) (pxEnd s)" using s1 s2 bb(2) by (simp add: free_seg_append)
  have G: "(live - {(b, n)}) \<union> set (xs @ (b, n) # ys) = ?G" using b by auto
  have inter: "(live - {(b, n)}) \<inter> set (xs @ (b, n) # ys) = {}" using d(10) by auto
  have di: "distinct (map fst (xs @ (b, n) # ys))" using d(11) nb by auto
  have room: "unat (xFreeBytesRemaining s) + unat n < 2 ^ 32"
  proof -
    have "distinct (map fst ((b, n) # xs @ ys))" using d(11) nb by auto
    then have "distinct ((b, n) # xs @ ys)" unfolding distinct_map by blast
    from tiling_sum [OF d(9) this] have "unat n + unat (xFreeBytesRemaining s) \<le> unat (pxEnd s) - unat (heap_start s)" using b d(12) by auto
    then show ?thesis using d(2,3) bound by linarith
  qed
  have fr: "unat (xFreeBytesRemaining s') = (\<Sum>x \<leftarrow> xs @ (b, n) # ys. unat (snd x))"
    using room d(12) unfolding e(4) by (simp add: unat_word_ariths)
  have lv: "\<forall>x \<in> live - {(b, n)}. xBlockSize s' (fst x) = snd x OR heapBLOCK_ALLOCATED_BITMASK \<and> pxNextFreeBlock s' (fst x) = 0"
  proof
    fix x assume x: "x \<in> live - {(b, n)}"
    then have xl: "x \<in> live" "fst x \<in> headers live (xs @ ys) s" by (auto simp: headers_def)
    have "fst x \<noteq> b" using tiling_same [OF d(9), of b "snd x" n] x b by (metis Diff_iff UnI1 insertI1 prod.collapse)
    moreover have "fst x \<notin> insert (xStart s) (fst ` set xs)" using dist(2) [OF xl(1)] clear_of_neq [OF cl(1), of "fst x" "snd x"] xl(1) by (auto simp: image_Un)
    then have "fst x \<noteq> ?p" using pr by metis
    ultimately show "xBlockSize s' (fst x) = snd x OR heapBLOCK_ALLOCATED_BITMASK \<and> pxNextFreeBlock s' (fst x) = 0"
      using N [OF xl(2)] S [OF xl(2)] d(8) [of "fst x" "snd x"] xl(1) by simp
  qed
  have eH: "pxEnd s \<in> headers live (xs @ ys) s" by (simp add: headers_def)
  have "pxEnd s \<notin> insert (xStart s) (fst ` set xs)" using cl(2,3) by (fastforce dest: clear_of_neq)
  then have ep: "pxEnd s \<noteq> ?p" using pr by metis
  have st: "heap_linked s'" "heap_start s' = heap_start s" using d(1) e(1,2) by (simp_all add: heap_linked_def heap_start_def)
  show ?thesis
    unfolding heap_wf_def e(1-3) st(2) G
    using st(1) d(2,13,3,9) seg' lv inter di fr N [OF eH] S [OF eH] ep bs d(5-7) before [of "xStart s"] by simp
qed

lemma commit_fields [simp]:
  "ucHeap (commit_block b s) = ucHeap s" "xStart (commit_block b s) = xStart s" "pxEnd (commit_block b s) = pxEnd s"
  "xFreeBytesRemaining (commit_block b s) = xFreeBytesRemaining s - xBlockSize s b"
  by (simp_all add: commit_block_def heapALLOCATE_BLOCK_def Let_def)

lemma commit_at:
  assumes "hdr b"
  shows "pxNextFreeBlock (commit_block b s) b = 0" "xBlockSize (commit_block b s) b = xBlockSize s b OR heapBLOCK_ALLOCATED_BITMASK"
  using assms by (simp_all add: commit_block_def heapALLOCATE_BLOCK_def Let_def)

lemma commit_other:
  assumes "clear_of b x"
  shows "pxNextFreeBlock (commit_block b s) x = pxNextFreeBlock s x" "xBlockSize (commit_block b s) x = xBlockSize s x"
  using assms by (simp_all add: commit_block_def heapALLOCATE_BLOCK_def Let_def)

lemma commit_bytes:
  assumes "hdr b" "unat x < unat b \<or> unat b + 8 \<le> unat x"
  shows "ram (commit_block b s) x = ram s x"
  using assms by (simp add: commit_block_def heapALLOCATE_BLOCK_def Let_def header_bytes)

text \<open>A place inside a block has room for a header.\<close>

lemma inner_clear:
  assumes h: "heap_wf live fs s" and an: "(a, n) \<in> live \<union> set fs" and q: "unat a + 8 \<le> unat q" "unat q + 8 \<le> unat a + unat n"
  shows "x \<in> headers live fs s \<Longrightarrow> clear_of q x"
    "(b, k) \<in> live \<Longrightarrow> (a, n) \<noteq> (b, k) \<Longrightarrow> y \<in> payload (b, k) \<Longrightarrow> y < unat q \<or> unat q + 8 \<le> y"
proof -
  note d = heap_wfD [OF h] and c = heap_wf_clear [OF h]
  note A = c(5) [OF an] tiling_block(3-5) [OF d(9) an]
  have bound: "unat (ucHeap s) + 10240 < 2 ^ 32" using d(1) by (simp add: heap_linked_def)
  have qh: "hdr q" using A q bound by (simp add: hdr_def)
  show "clear_of q x" if x: "x \<in> headers live fs s"
  proof -
    have xh: "hdr x" by (rule headers_hdr [OF h x])
    from x show ?thesis
    proof (cases rule: headers_cases)
      case 1
      then show ?thesis using d(1) A q qh xh by (auto simp: heap_linked_def clear_of_def)
    next
      case 2
      then show ?thesis using A q qh xh by (auto simp: clear_of_def)
    next
      case (3 m)
      show ?thesis
      proof (cases "x = a")
        case True
        then show ?thesis using q qh xh by (simp add: clear_of_def)
      next
        case False
        then show ?thesis using tiling_apart [OF d(9) 3 an] tiling_block(3) [OF d(9) 3] q qh xh by (auto simp: clear_of_def)
      qed
    qed
  qed
  show "y < unat q \<or> unat q + 8 \<le> y" if "(b, k) \<in> live" "(a, n) \<noteq> (b, k)" "y \<in> payload (b, k)"
    using tiling_apart [OF d(9) an, of b k] that q by (auto simp: payload_def)
qed

lemma split_block_eq:
  assumes "unat w \<le> unat (xBlockSize s b)"
  shows "split_block w prev b s =
    (if unat w + 32 < unat (xBlockSize s b) then
       do { configASSERT (unat (b + w) mod 16 = 0);
            let n = xBlockSize s b;
            let s = set_xBlockSize b w (set_xBlockSize (b + w) (n - w) s);
            Some (set_pxNextFreeBlock prev (b + w) (set_pxNextFreeBlock (b + w) (pxNextFreeBlock s prev) s)) }
     else Some s)"
proof -
  have nw: "unat (xBlockSize s b - w) = unat (xBlockSize s b) - unat w" using assms by (simp add: unat_sub word_le_nat_alt)
  have cmp: "xBlockSize s b - w > 32 \<longleftrightarrow> unat w + 32 < unat (xBlockSize s b)" using nw assms by (auto simp: word_less_nat_alt)
  show ?thesis using cmp by (simp add: split_block_def Let_def aligned_iff portBYTE_ALIGNMENT_MASK_def)
qed

lemma seg_last: "free_seg s p xs a \<Longrightarrow> pxNextFreeBlock s (last (p # map fst xs)) = a"
  by (induction s p xs a rule: free_seg.induct) auto

lemma taken_part:
  assumes h: "heap_wf live (xs @ (a, n) # ys) s" and w: "unat w + 32 < unat n" "unat w mod 16 = 0" "16 \<le> unat w"
    and s': "s' = commit_block a (set_pxNextFreeBlock (last (xStart s # map fst xs)) (a + w) (set_pxNextFreeBlock (a + w) (pxNextFreeBlock s a)
      (set_xBlockSize a w (set_xBlockSize (a + w) (n - w) (set_pxNextFreeBlock (last (xStart s # map fst xs)) (pxNextFreeBlock s a) s)))))"
  shows "heap_wf (insert (a, w) live) (xs @ (a + w, n - w) # ys) s'"
proof -
  define p where "p = last (xStart s # map fst xs)"
  note s2 = s' [folded p_def]
  let ?fs = "xs @ (a, n) # ys" and ?q = "a + w"
  note d = heap_wfD [OF h] and c = heap_wf_clear [OF h]
  have an: "(a, n) \<in> live \<union> set ?fs" by simp
  have bound: "unat (ucHeap s) + 10240 < 2 ^ 32" using d(1) by (simp add: heap_linked_def)
  have q: "unat ?q = unat a + unat w" using c(5) [OF an] w(1) bound by (simp add: unat_word_ariths)
  have aH: "a \<in> headers live ?fs s" by (simp add: headers_def)
  have pr: "p \<in> insert (xStart s) (fst ` set xs)" unfolding p_def by (rule last_header)
  have "insert (xStart s) (fst ` set xs) \<subseteq> headers live ?fs s" by (auto simp: headers_def)
  then have pH: "p \<in> headers live ?fs s" using pr by blast
  have "a \<notin> insert (xStart s) (fst ` set xs)" using heap_wf_distinct(1) [OF h] by auto
  then have pa: "p \<noteq> a" using pr by blast
  have qc: "clear_of ?q x" if "x \<in> headers live ?fs s" for x
    by (rule inner_clear(1) [OF h an _ _ that]) (use q w in auto)
  have hd: "hdr a" "hdr p" "hdr ?q" using headers_hdr [OF h] aH pH qc [OF aH] by (auto simp: clear_of_def)
  have aq: "clear_of a ?q" "clear_of p ?q" "clear_of ?q a" "clear_of ?q p" "clear_of p a" "clear_of a p"
    using qc [OF aH] qc [OF pH] headers_clear [OF h aH pH] headers_clear [OF h pH aH] pa clear_of_sym by auto
  let ?t = "set_xBlockSize ?q (n - w) (set_pxNextFreeBlock ?q (pxNextFreeBlock s a) (set_xBlockSize a w (set_pxNextFreeBlock a ?q s)))"
  have tx: "pxNextFreeBlock ?t x = (if x = a then ?q else pxNextFreeBlock s x)" "xBlockSize ?t x = (if x = a then w else xBlockSize s x)"
    if x: "x \<in> headers live ?fs s" for x
    using qc [OF x] headers_clear [OF h aH x] hd aq by (auto simp: clear_of_neq)
  have t: "heap_wf live (xs @ (a, w) # (?q, n - w) # ys) ?t"
    by (rule split_wf [OF h]) (use w hd aq in \<open>simp_all add: tx\<close>)
  have pt: "last (xStart ?t # map fst xs) = p" by (simp add: p_def)
  have next_: "pxNextFreeBlock s' x = (if x = a then 0 else if x = p then pxNextFreeBlock ?t a else pxNextFreeBlock ?t x)"
    and size_: "xBlockSize s' x = (if x = a then w OR heapBLOCK_ALLOCATED_BITMASK else xBlockSize ?t x)"
    if x: "x \<in> headers live (xs @ (a, w) # (?q, n - w) # ys) ?t" for x
  proof -
    consider "x = a" | "x = p" | "x = ?q" | "x \<noteq> a" "x \<noteq> p" "clear_of ?q x" "clear_of a x" "clear_of p x"
      using x qc headers_clear [OF h aH] headers_clear [OF h pH] unfolding headers_def by auto
    then have "pxNextFreeBlock s' x = (if x = a then 0 else if x = p then pxNextFreeBlock ?t a else pxNextFreeBlock ?t x)
        \<and> xBlockSize s' x = (if x = a then w OR heapBLOCK_ALLOCATED_BITMASK else xBlockSize ?t x)"
      by cases (use hd aq clear_of_neq [OF aq(2)] clear_of_neq [OF aq(1)] pa in
        \<open>simp_all add: s2 commit_at commit_other\<close>)
    then show "pxNextFreeBlock s' x = (if x = a then 0 else if x = p then pxNextFreeBlock ?t a else pxNextFreeBlock ?t x)"
      "xBlockSize s' x = (if x = a then w OR heapBLOCK_ALLOCATED_BITMASK else xBlockSize ?t x)" by auto
  qed
  have f: "xFreeBytesRemaining s' = xFreeBytesRemaining s - w" using hd aq by (simp add: s2)
  show ?thesis
    by (rule taken_all [OF t HOL.refl]) (simp_all only: pt next_ size_, simp_all add: s2 hd aq f)
qed

lemma taken_small:
  assumes h: "heap_wf live (xs @ (a, n) # ys) s"
    and s': "s' = commit_block a (set_pxNextFreeBlock (last (xStart s # map fst xs)) (pxNextFreeBlock s a) s)"
  shows "heap_wf (insert (a, n) live) (xs @ ys) s'"
proof -
  define p where "p = last (xStart s # map fst xs)"
  note s2 = s' [folded p_def]
  let ?fs = "xs @ (a, n) # ys"
  note d = heap_wfD [OF h]
  have aH: "a \<in> headers live ?fs s" by (simp add: headers_def)
  have pr: "p \<in> insert (xStart s) (fst ` set xs)" unfolding p_def by (rule last_header)
  have "insert (xStart s) (fst ` set xs) \<subseteq> headers live ?fs s" by (auto simp: headers_def)
  then have pH: "p \<in> headers live ?fs s" using pr by blast
  have "a \<notin> insert (xStart s) (fst ` set xs)" using heap_wf_distinct(1) [OF h] by auto
  then have pa: "p \<noteq> a" using pr by blast
  have hd: "hdr a" "hdr p" using headers_hdr [OF h] aH pH by auto
  have ap: "clear_of p a" "clear_of a p" using headers_clear [OF h aH pH] headers_clear [OF h pH aH] pa by auto
  have sa: "xBlockSize s a = n" using d(4) by (simp add: free_seg_append)
  have x: "pxNextFreeBlock s' x = (if x = a then 0 else if x = p then pxNextFreeBlock s a else pxNextFreeBlock s x)
      \<and> xBlockSize s' x = (if x = a then n OR heapBLOCK_ALLOCATED_BITMASK else xBlockSize s x)" if x: "x \<in> headers live ?fs s" for x
  proof -
    consider "x = a" | "x = p" | "x \<noteq> a" "x \<noteq> p" "clear_of a x" "clear_of p x"
      using headers_clear [OF h aH x] headers_clear [OF h pH x] by auto
    then show ?thesis by cases (use hd ap pa sa in \<open>simp_all add: s2 commit_at commit_other\<close>)
  qed
  show ?thesis
    by (rule taken_all [OF h HOL.refl]) (simp_all only: p_def [symmetric] x, simp_all add: s2 hd ap sa)
qed

lemma take_block_ok:
  assumes h: "heap_wf live (xs @ (a, n) # ys) s" and w: "unat w \<le> unat n" "unat w mod 16 = 0" "16 \<le> unat w"
  shows "\<exists>s'. take_block w (last (xStart s # map fst xs)) a s = Some (a + 16, s')
    \<and> (if unat w + 32 < unat n then heap_wf (insert (a, w) live) (xs @ (a + w, n - w) # ys) s' else heap_wf (insert (a, n) live) (xs @ ys) s')
    \<and> same_payload live s s' \<and> ucHeap s' = ucHeap s \<and> xStart s' = xStart s \<and> pxEnd s' = pxEnd s"
proof -
  define p where "p = last (xStart s # map fst xs)"
  let ?fs = "xs @ (a, n) # ys" and ?big = "unat w + 32 < unat n" and ?q = "a + w"
  note d = heap_wfD [OF h] and c = heap_wf_clear [OF h]
  have an: "(a, n) \<in> live \<union> set ?fs" by simp
  note A = c(5) [OF an] tiling_block [OF d(9) an]
  have bound: "unat (ucHeap s) + 10240 < 2 ^ 32" using d(1) by (simp add: heap_linked_def)
  have aH: "a \<in> headers live ?fs s" by (simp add: headers_def)
  have pr: "p \<in> insert (xStart s) (fst ` set xs)" unfolding p_def by (rule last_header)
  have "insert (xStart s) (fst ` set xs) \<subseteq> headers live ?fs s" by (auto simp: headers_def)
  then have pH: "p \<in> headers live ?fs s" using pr by blast
  have "a \<notin> insert (xStart s) (fst ` set xs)" using heap_wf_distinct(1) [OF h] by auto
  then have pa: "p \<noteq> a" using pr by blast
  have hd: "hdr a" "hdr p" using headers_hdr [OF h] aH pH by auto
  have ap: "clear_of p a" using headers_clear [OF h pH aH] pa by auto
  have sa: "xBlockSize s a = n" "pxNextFreeBlock s p = a" using d(4) seg_last [of s "xStart s" xs a] by (simp_all add: free_seg_append p_def)
  have a16: "unat (a + 16) = unat a + 16" using unat_plus_small [of a 16] A(1) bound by simp
  have v: "heapVALIDATE_BLOCK_POINTER (a + 16) s = Some ()" using a16 A by (intro validate_ok [OF d(1)]) auto
  have q: "unat ?q = unat a + unat w" using A(1) w(1) bound by (simp add: unat_word_ariths)
  have q16: "unat ?q mod 16 = 0" using q w(2) A(2) by presburger
  let ?s1 = "set_pxNextFreeBlock p (pxNextFreeBlock s a) s"
  let ?s2 = "set_pxNextFreeBlock p ?q (set_pxNextFreeBlock ?q (pxNextFreeBlock s a) (set_xBlockSize a w (set_xBlockSize ?q (n - w) ?s1)))"
  have b1: "xBlockSize ?s1 a = n" using ap sa by simp
  have qin: "unat a + 8 \<le> unat ?q" "unat ?q + 8 \<le> unat a + unat n" if ?big using that q w by simp_all
  have qp: "clear_of ?q p" "hdr ?q" if ?big using inner_clear(1) [OF h an qin pH] that by (simp_all add: clear_of_def)
  have sp: "split_block w p a ?s1 = Some (if ?big then ?s2 else ?s1)"
    using w(1) b1 q16 qp ap clear_of_sym [OF ap] hd by (simp add: split_block_eq configASSERT_def Let_def)
  have tk: "take_block w p a s = Some (a + 16, commit_block a (if ?big then ?s2 else ?s1))"
    using v sp sa w(1) b1 by (simp add: take_block_def Let_def configASSERT_def word_less_nat_alt)
  have pay: "same_payload live s (commit_block a (if ?big then ?s2 else ?s1))"
  proof (rule same_payloadI)
    fix b k and y :: u32 assume bk: "(b, k) \<in> live" and y: "unat y \<in> payload (b, k)"
    note P = payload_clear [OF h bk y]
    have "(a, n) \<noteq> (b, k)" using heap_wf_mid(3) [OF h] bk by auto
    then have Q: "unat y < unat ?q \<or> unat ?q + 8 \<le> unat y" if ?big using inner_clear(2) [OF h an qin bk _ y] that by blast
    show "ram (commit_block a (if ?big then ?s2 else ?s1)) y = ram s y"
      using hd qp P [OF aH] P [OF pH] Q by (simp add: commit_bytes header_bytes)
  qed
  show ?thesis
  proof (intro exI conjI)
    show "take_block w (last (xStart s # map fst xs)) a s = Some (a + 16, commit_block a (if ?big then ?s2 else ?s1))"
      using tk unfolding p_def .
    show "if ?big then heap_wf (insert (a, w) live) (xs @ (?q, n - w) # ys) (commit_block a (if ?big then ?s2 else ?s1))
      else heap_wf (insert (a, n) live) (xs @ ys) (commit_block a (if ?big then ?s2 else ?s1))"
      using taken_part [OF h _ w(2,3) HOL.refl] taken_small [OF h HOL.refl] unfolding p_def by simp
  qed (use pay in simp_all)
qed

lemma add_overflow: "\<not> heapADD_WILL_OVERFLOW a b \<longleftrightarrow> unat a + unat b < 2 ^ 32"
proof -
  have mx: "unat heapSIZE_MAX = 2 ^ 32 - 1" by (simp add: heapSIZE_MAX_def unsigned_minus_1_eq_mask mask_eq_exp_minus_1)
  have lt: "unat x < 2 ^ 32" for x :: u32 using unsigned_less [of x] by simp
  have "b \<le> heapSIZE_MAX" using lt [of b] mx by (simp add: word_le_nat_alt)
  then show ?thesis using mx lt [of b] by (auto simp: heapADD_WILL_OVERFLOW_def word_less_nat_alt unat_sub)
qed

definition rounded :: "nat \<Rightarrow> nat" where "rounded n = (if n mod 16 = 0 then n else n + (16 - n mod 16))"

lemma rounded_bounds: "n \<le> rounded n" "rounded n \<le> n + 15" "rounded n mod 16 = 0"
proof -
  show "n \<le> rounded n" "rounded n \<le> n + 15" by (auto simp: rounded_def)
  have "(n + (16 - n mod 16)) mod 16 = 0" by presburger
  then show "rounded n mod 16 = 0" by (simp add: rounded_def)
qed

lemma wanted_size_value:
  assumes "w > 0"
  shows "unat (wanted_size w) = (if rounded (unat w + 16) < 2 ^ 32 then rounded (unat w + 16) else 0)"
proof (cases "unat w + 16 < 2 ^ 32")
  case False
  then have "wanted_size w = 0" using assms by (simp add: wanted_size_def add_overflow)
  then show ?thesis using False rounded_bounds(1) [of "unat w + 16"] by simp
next
  case True
  define v where "v = w + 16"
  define c where "c = 16 - (v AND 15)"
  have v: "unat v = unat w + 16" using unat_plus_small [of w 16] True by (simp add: v_def)
  have c: "unat c = 16 - (unat w + 16) mod 16"
    unfolding c_def by (subst unat_sub) (simp_all only: word_le_nat_alt unat_and15 v, simp_all)
  have eq: "wanted_size w = (if unat v mod 16 = 0 then v else if unat v + unat c < 2 ^ 32 then v + c else 0)"
    using assms True
    by (simp add: wanted_size_def Let_def add_overflow portBYTE_ALIGNMENT_def portBYTE_ALIGNMENT_MASK_def v_def [symmetric] c_def [symmetric] aligned_iff)
  have "unat (v + c) = unat v + unat c" if "unat v + unat c < 2 ^ 32" using that by (simp add: unat_word_ariths)
  then show ?thesis using True unfolding eq by (simp add: rounded_def v c)
qed

lemma wanted_size_ok:
  assumes "wanted_size w \<noteq> 0"
  shows "unat w + 16 \<le> unat (wanted_size w)" "unat (wanted_size w) \<le> unat w + 31" "unat (wanted_size w) mod 16 = 0" "0 < w"
proof -
  show w: "0 < w" by (rule ccontr) (use assms in \<open>simp add: wanted_size_def word_gt_0\<close>)
  have "unat (wanted_size w) \<noteq> 0" using assms by (simp only: unat_eq_zero not_False_eq_True)
  then have "unat (wanted_size w) = rounded (unat w + 16)" using wanted_size_value [OF w] by (simp split: if_splits)
  then show "unat w + 16 \<le> unat (wanted_size w)" "unat (wanted_size w) \<le> unat w + 31" "unat (wanted_size w) mod 16 = 0"
    using rounded_bounds [of "unat w + 16"] by simp_all
qed

definition heap_stop :: "heap \<Rightarrow> u32" where "heap_stop s = (ucHeap s + 10224) AND NOT 15"

lemma align16: "((x :: nat) - x mod 16) mod 16 = 0" "x - x mod 16 \<le> x" "x < x - x mod 16 + 16"
  by (simp add: minus_mod_eq_mult_div, simp, simp add: less_diff_conv2)

lemma heap_area:
  assumes "heap_linked s"
  shows "unat (heap_start s) mod 16 = 0" "unat (heap_stop s) mod 16 = 0" "unat (ucHeap s) \<le> unat (heap_start s)"
    "unat (heap_start s) + 10208 \<le> unat (heap_stop s)" "unat (heap_stop s) + 16 \<le> unat (ucHeap s) + 10240"
proof -
  have b: "unat (ucHeap s) + 10240 < 2 ^ 32" using assms by (simp add: heap_linked_def)
  have s: "unat (heap_start s) = unat (ucHeap s) + 15 - (unat (ucHeap s) + 15) mod 16"
    using unat_plus_small [of "ucHeap s" 15] b unfolding heap_start_def unat_align by simp
  have e: "unat (heap_stop s) = unat (ucHeap s) + 10224 - (unat (ucHeap s) + 10224) mod 16"
    using unat_plus_small [of "ucHeap s" 10224] b unfolding heap_stop_def unat_align by simp
  show m: "unat (heap_start s) mod 16 = 0" "unat (heap_stop s) mod 16 = 0" unfolding s e by (rule align16(1))+
  have l: "unat (heap_start s) \<le> unat (ucHeap s) + 15" "unat (ucHeap s) + 10224 < unat (heap_stop s) + 16"
    unfolding s e by (rule align16(2,3))+
  then show "unat (heap_start s) + 10208 \<le> unat (heap_stop s)" using m by presburger
  show "unat (ucHeap s) \<le> unat (heap_start s)" "unat (heap_stop s) + 16 \<le> unat (ucHeap s) + 10240"
    using align16(3) [of "unat (ucHeap s) + 15"] align16(2) [of "unat (ucHeap s) + 10224"] unfolding s e by linarith+
qed

lemma init_eq:
  assumes l: "heap_linked s"
  shows "prvHeapInit s = (let st = heap_start s; e = heap_stop s;
      t = set_pxNextFreeBlock st e (set_xBlockSize st (e - st) (set_pxNextFreeBlock e 0 (set_xBlockSize e 0
        ((set_xBlockSize (xStart s) 0 (set_pxNextFreeBlock (xStart s) st s))\<lparr>pxEnd := e\<rparr>))));
      t = t\<lparr>xMinimumEverFreeBytesRemaining := xBlockSize t st\<rparr>
    in t\<lparr>xFreeBytesRemaining := xBlockSize t st\<rparr>)"
proof -
  have st: "(if ucHeap s AND 15 \<noteq> 0 then (ucHeap s + 15) AND NOT 15 else ucHeap s) = heap_start s"
  proof (cases "ucHeap s AND 15 = 0")
    case True
    have b: "unat (ucHeap s) + 10240 < 2 ^ 32" using l by (simp add: heap_linked_def)
    have "unat (heap_start s) = unat (ucHeap s) + 15 - (unat (ucHeap s) + 15) mod 16"
      using unat_plus_small [of "ucHeap s" 15] b unfolding heap_start_def unat_align by simp
    also have "(unat (ucHeap s) + 15) mod 16 = 15" using True by (simp add: aligned_iff mod_add_eq mod_add_left_eq [symmetric] del: mod_add_left_eq)
    finally have "unat (heap_start s) = unat (ucHeap s)" by simp
    then show ?thesis using True by (simp only: word_unat_eq_iff if_True if_False not_True_eq_False simp_thms)
  qed (simp add: heap_start_def)
  have e: "(ucHeap s + 10240 - 16) AND NOT 15 = heap_stop s" "(heap_start s + (10240 - (heap_start s - ucHeap s)) - 16) AND NOT 15 = heap_stop s"
    by (simp_all add: heap_stop_def add.commute)
  have p: "(if ucHeap s AND 15 \<noteq> 0 then ((ucHeap s + (16 - 1)) AND NOT 15, 10 * 1024 - (((ucHeap s + (16 - 1)) AND NOT 15) - ucHeap s)) else (ucHeap s, 10 * 1024))
      = (heap_start s, 10240 - (heap_start s - ucHeap s))"
    using st by (cases "ucHeap s AND 15 = 0") (simp_all add: Let_def)
  show ?thesis
    unfolding prvHeapInit_def portBYTE_ALIGNMENT_MASK_def portBYTE_ALIGNMENT_def configTOTAL_HEAP_SIZE_def struct_size
    by (simp only: Let_def p prod.case e set_fields)
qed

lemma init_ok:
  assumes l: "heap_linked s"
  shows "heap_ok {} [(heap_start s, heap_stop s - heap_start s)] (prvHeapInit s)" "ucHeap (prvHeapInit s) = ucHeap s" "xStart (prvHeapInit s) = xStart s"
    "pxEnd (prvHeapInit s) = heap_stop s"
proof -
  let ?st = "heap_start s" and ?e = "heap_stop s"
  note a = heap_area [OF l]
  have b: "unat (ucHeap s) + 10240 < 2 ^ 32" using l by (simp add: heap_linked_def)
  have sz: "unat (?e - ?st) = unat ?e - unat ?st" using a(4) by (simp add: unat_sub word_le_nat_alt)
  have c: "clear_of (xStart s) ?st" "clear_of (xStart s) ?e" "clear_of ?st ?e" "clear_of ?e ?st"
    using l a b by (auto simp: heap_linked_def clear_of_def hdr_def)
  have h: "hdr (xStart s)" "hdr ?st" "hdr ?e" using c by (simp_all add: clear_of_def)
  let ?t = "prvHeapInit s"
  have f: "ucHeap ?t = ucHeap s" "xStart ?t = xStart s" "pxEnd ?t = ?e" by (simp_all add: init_eq [OF l] Let_def)
  then show "ucHeap (prvHeapInit s) = ucHeap s" "xStart (prvHeapInit s) = xStart s" "pxEnd (prvHeapInit s) = heap_stop s" by simp_all
  have v: "pxNextFreeBlock ?t (xStart s) = ?st" "xBlockSize ?t (xStart s) = 0" "pxNextFreeBlock ?t ?st = ?e" "xBlockSize ?t ?st = ?e - ?st"
    "pxNextFreeBlock ?t ?e = 0" "xBlockSize ?t ?e = 0" "xFreeBytesRemaining ?t = ?e - ?st"
    using h c clear_of_sym [OF c(1)] clear_of_sym [OF c(2)] by (simp_all add: init_eq [OF l] Let_def)
  have "bytes (?st, ?e - ?st) = {unat ?st ..< unat ?e}" using sz a(4) by (simp add: bytes_def)
  moreover have "(unat ?e - unat ?st) mod 16 = 0" using a(1,2) by presburger
  ultimately have "tiling ({} \<union> set [(?st, ?e - ?st)]) ?st ?e" using a sz by (simp add: tiling_def block_ok_def)
  moreover have "heap_linked ?t" "heap_start ?t = ?st" using l f by (simp_all add: heap_linked_def heap_start_def)
  ultimately show "heap_ok {} [(?st, ?e - ?st)] ?t"
    using v a by (simp add: heap_ok_def heap_wf_def gaps_def f)
qed

lemma same_payload_refl [simp]: "same_payload live s s"
  by (simp add: same_payload_def)

lemma same_payload_trans: "same_payload live s t \<Longrightarrow> same_payload live t u \<Longrightarrow> same_payload live s u"
  by (simp add: same_payload_def)

lemma init_once: "heap_wf live fs s \<Longrightarrow> (if pxEnd s = 0 then prvHeapInit s else s) = s"
  using heap_wfD(2) [of live fs s] by auto

lemma gaps_taken:
  assumes "gaps (xs @ (a, n) # ys)" "unat (a + w) = unat a + unat w" "unat (n - w) = unat n - unat w" "unat w \<le> unat n"
  shows "gaps (xs @ ys)" "gaps (xs @ (a + w, n - w) # ys)"
  using assms by (auto simp: gaps_def sorted_wrt_append)

text \<open>An allocation on an initialised heap.\<close>

lemma malloc_ok:
  assumes h: "heap_ok live fs s"
  shows "(\<exists>a n fs' s'. pvPortMalloc w s = Inr (a + 16, s') \<and> heap_ok (insert (a, n) live) fs' s' \<and> same_payload live s s'
      \<and> unat w + 16 \<le> unat n \<and> a \<notin> fst ` live \<and> ucHeap s' = ucHeap s \<and> xStart s' = xStart s)
    \<or> pvPortMalloc w s = Inl Malloc_failed_hook \<and> (wanted_size w = 0 \<or> (\<forall>x \<in> set fs. snd x < wanted_size w))"
proof -
  have wf: "heap_wf live fs s" and g: "gaps fs" using h by (simp_all add: heap_ok_def)
  note d = heap_wfD [OF wf] and c = heap_wf_clear [OF wf]
  define r where "r = wanted_size w"
  have bound: "unat (ucHeap s) + 10240 < 2 ^ 32" using d(1) by (simp add: heap_linked_def)
  have m: "pvPortMalloc w s = (case (if heapBLOCK_SIZE_IS_VALID r \<and> r > 0 \<and> r \<le> xFreeBytesRemaining s then do {
                 (prev, b) \<leftarrow> find_fit r (xStart s) (pxNextFreeBlock s (xStart s)) s;
                 if b \<noteq> pxEnd s then take_block r prev b s else Some (0, s)
               } else Some (0, s)) of
           None \<Rightarrow> Inl Assertion_failed
         | Some (pv, s) \<Rightarrow>
             if pv = 0 then Inl Malloc_failed_hook
             else if pv AND portBYTE_ALIGNMENT_MASK = 0 then Inr (pv, s)
             else Inl Assertion_failed)"
    by (simp only: pvPortMalloc_def Let_def init_once [OF wf] r_def)
  show ?thesis
  proof (cases "r \<noteq> 0 \<and> (\<exists>x \<in> set fs. \<not> snd x < r)")
    case False
    then have "wanted_size w = 0 \<or> (\<forall>x \<in> set fs. snd x < wanted_size w)" unfolding r_def by auto
    moreover have "pvPortMalloc w s = Inl Malloc_failed_hook"
    proof (cases "heapBLOCK_SIZE_IS_VALID r \<and> r > 0 \<and> r \<le> xFreeBytesRemaining s")
      case True
      then have r: "0 < r" by simp
      then have all: "dropWhile (\<lambda>x. snd x < r) fs = []" using False by (auto simp: dropWhile_eq_Nil_conv word_gt_0)
      have "find_fit r (xStart s) (pxNextFreeBlock s (xStart s)) s = Some (last (xStart s # map fst (takeWhile (\<lambda>x. snd x < r) fs)), pxEnd s)"
        using find_fit_finds [OF wf r d(4) subset_refl] all by simp
      then show ?thesis using True by (simp add: m)
    next
      case False
      then show ?thesis unfolding m by (simp only: if_False option.case prod.case) simp
    qed
    ultimately show ?thesis by blast
  next
    case True
    define xs where "xs = takeWhile (\<lambda>x. snd x < r) fs"
    obtain x ys where dw: "dropWhile (\<lambda>x. snd x < r) fs = x # ys" using True by (metis dropWhile_eq_Nil_conv list.exhaust)
    obtain a n where x: "x = (a, n)" by force
    have fs: "fs = xs @ (a, n) # ys" using takeWhile_dropWhile_id [of "\<lambda>x. snd x < r" fs] dw x by (simp add: xs_def)
    have "\<not> snd x < r" using hd_dropWhile [of "\<lambda>x. snd x < r" fs] dw by simp
    then have rn: "unat r \<le> unat n" using x by (simp add: word_less_nat_alt)
    note W = wanted_size_ok [of w, folded r_def]
    have r: "r \<noteq> 0" "0 < r" using True by (simp_all add: word_gt_0)
    have r16: "unat r mod 16 = 0" "16 \<le> unat r" "unat w + 16 \<le> unat r" using W r(1) by auto
    have an: "(a, n) \<in> live \<union> set fs" by (simp add: fs)
    note A = c(5) [OF an] tiling_block [OF d(9) an]
    have n31: "unat r < 2 ^ 31" using rn A(1) by auto
    have fre: "unat r \<le> unat (xFreeBytesRemaining s)" using member_le_sum [of "(a, n)" fs] d(12) rn by (simp add: fs)
    have ne: "a \<noteq> pxEnd s" by (rule clear_of_neq [OF c(2) [OF an]])
    have ff: "find_fit r (xStart s) (pxNextFreeBlock s (xStart s)) s = Some (last (xStart s # map fst xs), a)"
      using find_fit_finds [OF wf r(2) d(4) subset_refl] dw x unfolding xs_def by simp
    obtain s' where t: "take_block r (last (xStart s # map fst xs)) a s = Some (a + 16, s')"
      and ok: "if unat r + 32 < unat n then heap_wf (insert (a, r) live) (xs @ (a + r, n - r) # ys) s' else heap_wf (insert (a, n) live) (xs @ ys) s'"
      and sp: "same_payload live s s'" "ucHeap s' = ucHeap s" "xStart s' = xStart s"
      using take_block_ok [OF wf [unfolded fs] rn r16(1,2)] by blast
    have a16: "unat (a + 16) = unat a + 16" using unat_plus_small [of a 16] A(1) bound by simp
    have "unat (a + 16) mod 16 = 0" using a16 A(2) by simp
    then have al: "(a + 16) AND portBYTE_ALIGNMENT_MASK = 0" by (simp add: portBYTE_ALIGNMENT_MASK_def aligned_iff)
    have nz: "a + 16 \<noteq> 0" using a16 by (metis add_is_0 unat_0 zero_neq_numeral)
    have mm: "pvPortMalloc w s = Inr (a + 16, s')"
      using n31 allocated_mark(3) [of r] r fre ff ne t al nz unfolding m by (simp add: heapBLOCK_SIZE_IS_VALID_def word_le_nat_alt)
    have fr: "a \<notin> fst ` live" using heap_wf_distinct(2) [OF wf] by (force simp: fs)
    have q: "unat (a + r) = unat a + unat r" using A(1) rn bound by (simp add: unat_word_ariths)
    have nr: "unat (n - r) = unat n - unat r" using rn by (simp add: unat_sub word_le_nat_alt)
    note G = gaps_taken [OF g [unfolded fs] q nr rn]
    show ?thesis
    proof (cases "unat r + 32 < unat n")
      case True
      then have "heap_ok (insert (a, r) live) (xs @ (a + r, n - r) # ys) s'" using ok G(2) by (simp add: heap_ok_def)
      then show ?thesis using mm sp fr r16(3) by blast
    next
      case False
      then have "heap_ok (insert (a, n) live) (xs @ ys) s'" using ok G(1) by (simp add: heap_ok_def)
      moreover have "unat w + 16 \<le> unat n" using rn r16(3) by linarith
      ultimately show ?thesis using mm sp fr by blast
    qed
  qed
qed

lemma free_walk_finds:
  "free_seg s p (xs @ ys) e \<Longrightarrow> (\<And>x. x \<in> set xs \<Longrightarrow> unat (fst x) < unat b) \<Longrightarrow> (\<And>y. y \<in> set ys \<Longrightarrow> unat b \<le> unat (fst y)) \<Longrightarrow> unat b \<le> unat e
    \<Longrightarrow> free_walk p b s = Some (last (p # map fst xs))"
proof (induction xs arbitrary: p)
  case Nil
  then have "\<not> pxNextFreeBlock s p < b" by (cases ys) (fastforce simp: word_less_nat_alt)+
  then show ?case by (subst free_walk.simps) simp
next
  case (Cons x xs)
  obtain a n where x: "x = (a, n)" by force
  have "pxNextFreeBlock s p = a" "free_seg s a (xs @ ys) e" "a < b" using Cons(2) Cons(3) [of x] x by (auto simp: word_less_nat_alt)
  then show ?case using Cons(1) [of a] Cons(3-5) x by (subst free_walk.simps) simp
qed

text \<open>The free list with a block put in its place keeps its order and gaps.\<close>

lemma gaps_insert:
  assumes g: "gaps (xs @ ys)" and x: "\<And>x. x \<in> set xs \<Longrightarrow> unat (fst x) + unat (snd x) \<le> b" and y: "\<And>y. y \<in> set ys \<Longrightarrow> b + unat n \<le> unat (fst y)"
    and l: "\<And>zs c k. xs = zs @ [(c, k)] \<Longrightarrow> unat c + unat k \<noteq> b" and r: "\<And>zs c k. ys = (c, k) # zs \<Longrightarrow> b + unat n \<noteq> unat c"
    and bw: "unat bw = b"
  shows "gaps (xs @ (bw, n) # ys)"
proof -
  have "unat (fst z) + unat (snd z) < b" if z: "z \<in> set xs" for z
  proof (cases xs rule: rev_cases)
    case Nil
    then show ?thesis using z by simp
  next
    case (snoc zs w)
    obtain c k where w: "w = (c, k)" by force
    have "unat c + unat k \<le> b" "unat c + unat k \<noteq> b" using x [of w] l [of zs c k] snoc w by auto
    moreover have "z = w \<or> unat (fst z) + unat (snd z) < unat c" using g z snoc w by (auto simp: gaps_def sorted_wrt_append)
    ultimately show ?thesis using w by fastforce
  qed
  moreover have "b + unat n < unat (fst z)" if z: "z \<in> set ys" for z
  proof (cases ys)
    case Nil
    then show ?thesis using z by simp
  next
    case (Cons w zs)
    obtain c k where w: "w = (c, k)" by force
    have "b + unat n \<le> unat c" "b + unat n \<noteq> unat c" using y [of w] r [of c k zs] Cons w by auto
    moreover have "z = w \<or> unat c + unat k < unat (fst z)" using g z Cons w by (auto simp: gaps_def sorted_wrt_append)
    ultimately show ?thesis using w by fastforce
  qed
  ultimately show ?thesis using g bw unfolding gaps_def by (simp add: sorted_wrt_append)
qed

text \<open>The list a block is put into: what is below it, what is above it.\<close>

lemma free_place:
  assumes h: "heap_ok live fs s" and b: "(b, n) \<in> live"
  obtains xs ys where "fs = xs @ ys"
    "\<And>x. x \<in> set xs \<Longrightarrow> unat (fst x) + unat (snd x) \<le> unat b" "\<And>y. y \<in> set ys \<Longrightarrow> unat b + unat n \<le> unat (fst y)"
proof -
  have wf: "heap_wf live fs s" and g: "gaps fs" using h by (simp_all add: heap_ok_def)
  note d = heap_wfD [OF wf]
  let ?P = "\<lambda>x :: block. fst x < b"
  have bn: "(b, n) \<in> live \<union> set fs" using b by simp
  note B = tiling_block [OF d(9) bn]
  have ne: "x \<noteq> (b, n)" if "x \<in> set fs" for x using d(10) b that by auto
  have ap: "unat (fst x) + unat (snd x) \<le> unat b \<or> unat b + unat n \<le> unat (fst x)" if "x \<in> set fs" for x
    using tiling_apart [OF d(9) _ bn, of "fst x" "snd x"] that ne [OF that] by auto
  have pos: "16 \<le> unat (snd x)" if "x \<in> set fs" for x using tiling_block(3) [OF d(9), of "fst x" "snd x"] that by simp
  show ?thesis
  proof (rule that [of "takeWhile ?P fs" "dropWhile ?P fs"])
    show "unat (fst x) + unat (snd x) \<le> unat b" if "x \<in> set (takeWhile ?P fs)" for x
      using ap [of x] set_takeWhileD [OF that] by (auto simp: word_less_nat_alt)
    show "unat b + unat n \<le> unat (fst y)" if y: "y \<in> set (dropWhile ?P fs)" for y
    proof -
      obtain x ys where dw: "dropWhile ?P fs = x # ys" using y by (cases "dropWhile ?P fs") auto
      have "\<not> fst x < b" using hd_dropWhile [of ?P fs] dw by simp
      then have "unat b \<le> unat (fst x)" by (simp add: word_less_nat_alt)
      moreover have "fs = takeWhile ?P fs @ x # ys" using takeWhile_dropWhile_id [of ?P fs] unfolding dw by (rule sym)
      then have "gaps (takeWhile ?P fs @ x # ys)" using g by (rule subst)
      then have "gaps (x # ys)" unfolding gaps_append by (elim conjE)
      then have "y = x \<or> unat (fst x) < unat (fst y)" using y dw by (auto simp: gaps_def)
      ultimately have "unat b \<le> unat (fst y)" by auto
      moreover have "y \<in> set fs" using y by (rule set_dropWhileD)
      ultimately show ?thesis using ap [of y] pos [of y] by auto
    qed
  qed simp
qed

text \<open>What \<open>prvInsertBlockIntoFreeList\<close> writes, with the block before (\<open>p\<close>) and the address after (\<open>q\<close>).\<close>

lemma insert_eq:
  assumes w: "free_walk (xStart s) b s = Some p" "pxNextFreeBlock s p = q" "xBlockSize s b = n" "p = xStart s \<or> heapVALIDATE_BLOCK_POINTER p s = Some ()"
    and c: "clear_of p b" "clear_of p q" "clear_of b q"
  shows "prvInsertBlockIntoFreeList b s = Some
    (if p + xBlockSize s p = b then
       let k = xBlockSize s p; t = set_xBlockSize p (k + n) s in
       if p + (k + n) = q \<and> q \<noteq> pxEnd s then set_pxNextFreeBlock p (pxNextFreeBlock s q) (set_xBlockSize p (k + n + xBlockSize s q) t)
       else set_pxNextFreeBlock p q t
     else
       set_pxNextFreeBlock p b (if b + n = q \<and> q \<noteq> pxEnd s then set_pxNextFreeBlock b (pxNextFreeBlock s q) (set_xBlockSize b (n + xBlockSize s q) s)
       else set_pxNextFreeBlock b q s))"
proof -
  have h: "hdr p" "hdr b" "hdr q" using c by (simp_all add: clear_of_def)
  have v: "(if p \<noteq> xStart s then heapVALIDATE_BLOCK_POINTER p s else Some ()) = Some ()" using w(4) by auto
  have pb: "p \<noteq> b" by (rule clear_of_neq [OF c(1)])
  show ?thesis
    unfolding prvInsertBlockIntoFreeList_def w(1) bind.bind_lunit v
    using h c clear_of_sym [OF c(1)] clear_of_sym [OF c(3)] pb w(2,3) by (simp add: Let_def)
qed

lemma prev_adjacent:
  assumes h: "heap_wf live (xs @ ys) s" and b: "(b, n) \<in> live"
  shows "last (xStart s # map fst xs) + xBlockSize s (last (xStart s # map fst xs)) = b
    \<longleftrightarrow> (\<exists>zs c k. xs = zs @ [(c, k)] \<and> unat c + unat k = unat b)"
proof (cases xs rule: rev_cases)
  case Nil
  then show ?thesis using clear_of_neq [OF heap_wf_clear(1) [OF h, of b n]] b heap_wfD(7) [OF h] by simp
next
  case (snoc zs x)
  note d = heap_wfD [OF h]
  obtain c k where x: "x = (c, k)" by force
  have k: "xBlockSize s c = k" using d(4) snoc x by (simp add: free_seg_append)
  have "(c, k) \<in> live \<union> set (xs @ ys)" using snoc x by simp
  then have "unat c + unat k < 2 ^ 32" using heap_wf_clear(5) [OF h] d(1) by (fastforce simp: heap_linked_def)
  then have "unat (c + k) = unat c + unat k" by (simp add: unat_word_ariths)
  then have "c + k = b \<longleftrightarrow> unat c + unat k = unat b" by (metis word_unat_eq_iff)
  then show ?thesis using k snoc x by auto
qed

lemma next_adjacent:
  assumes h: "heap_wf live (xs @ ys) s" and b: "(b, n) \<in> live" and q: "q = pxNextFreeBlock s (last (xStart s # map fst xs))"
  shows "b + n = q \<and> q \<noteq> pxEnd s \<longleftrightarrow> (\<exists>m ws. ys = (q, m) # ws \<and> unat b + unat n = unat q)"
proof (cases ys)
  case Nil
  then show ?thesis using conjunct2 [OF seg_prefix [OF heap_wfD(4) [OF h]]] q by simp
next
  case (Cons y ws)
  note d = heap_wfD [OF h]
  obtain m where y: "y = (q, m)" using conjunct2 [OF seg_prefix [OF d(4)]] q Cons by (cases y) simp
  have "(q, m) \<in> live \<union> set (xs @ ys)" using Cons y by simp
  then have ne: "q \<noteq> pxEnd s" using clear_of_neq [OF heap_wf_clear(2) [OF h]] by blast
  have "(b, n) \<in> live \<union> set (xs @ ys)" using b by simp
  then have "unat b + unat n < 2 ^ 32" using heap_wf_clear(5) [OF h] d(1) by (fastforce simp: heap_linked_def)
  then have "unat (b + n) = unat b + unat n" by (simp add: unat_word_ariths)
  then have "b + n = q \<longleftrightarrow> unat b + unat n = unat q" by (metis word_unat_eq_iff)
  then show ?thesis using ne Cons y by auto
qed

lemma prv_insert_ok:
  assumes h: "heap_wf live (xs @ ys) s" and g: "gaps (xs @ ys)" and b: "(b, n) \<in> live"
    and lo: "\<And>x. x \<in> set xs \<Longrightarrow> unat (fst x) + unat (snd x) \<le> unat b" and hi: "\<And>y. y \<in> set ys \<Longrightarrow> unat b + unat n \<le> unat (fst y)"
    and N: "\<And>x. x \<in> headers live (xs @ ys) s \<Longrightarrow> pxNextFreeBlock s0 x = pxNextFreeBlock s x"
    and S: "\<And>x. x \<in> headers live (xs @ ys) s \<Longrightarrow> xBlockSize s0 x = (if x = b then n else xBlockSize s x)"
    and e: "ucHeap s0 = ucHeap s" "xStart s0 = xStart s" "pxEnd s0 = pxEnd s" "xFreeBytesRemaining s0 = xFreeBytesRemaining s + n"
  shows "\<exists>s' fs'. prvInsertBlockIntoFreeList b s0 = Some s' \<and> heap_ok (live - {(b, n)}) fs' s' \<and> same_payload (live - {(b, n)}) s0 s'
    \<and> ucHeap s' = ucHeap s \<and> xStart s' = xStart s"
proof -
  define p where "p = last (xStart s # map fst xs)"
  define q where "q = pxNextFreeBlock s p"
  let ?H = "headers live (xs @ ys) s" and ?L = "live - {(b, n)}"
  note d = heap_wfD [OF h] and c = heap_wf_clear [OF h] and dist = heap_wf_distinct [OF h]
  have bn: "(b, n) \<in> live \<union> set (xs @ ys)" using b by simp
  note B = c(5) [OF bn] tiling_block [OF d(9) bn]
  have bound: "unat (ucHeap s) + 10240 < 2 ^ 32" using d(1) by (simp add: heap_linked_def)
  have sg: "free_seg s (xStart s) xs q" "free_seg s p ys (pxEnd s)" using seg_prefix [OF d(4)] by (simp_all add: p_def q_def)
  have bH: "b \<in> ?H" using b by (force simp: headers_def)
  have pr: "p \<in> insert (xStart s) (fst ` set xs)" unfolding p_def by (rule last_header)
  have "insert (xStart s) (fst ` set xs) \<subseteq> ?H" by (auto simp: headers_def)
  then have pH: "p \<in> ?H" using pr by blast
  have qr: "q \<in> insert (pxEnd s) (fst ` set ys)" using sg(2) by (cases ys) (auto simp: q_def)
  moreover have "insert (pxEnd s) (fst ` set ys) \<subseteq> ?H" by (auto simp: headers_def)
  ultimately have qH: "q \<in> ?H" by blast
  have nb: "b \<notin> insert (xStart s) (fst ` set xs)" "b \<notin> insert (pxEnd s) (fst ` set ys)"
    using dist(2) [OF b] clear_of_neq [OF c(1) [OF bn]] clear_of_neq [OF c(2) [OF bn]] by (auto simp: image_Un)
  have pE: "insert (xStart s) (fst ` set xs) \<inter> insert (pxEnd s) (fst ` set ys) = {}"
  proof -
    have "fst x \<noteq> pxEnd s" if "x \<in> set xs" for x using clear_of_neq [OF c(2), of "fst x" "snd x"] that by simp
    then have "pxEnd s \<notin> fst ` set xs" by (metis imageE)
    then show ?thesis using dist(1) clear_of_neq [OF c(3)] by auto
  qed
  have ne: "p \<noteq> b" "q \<noteq> b" "p \<noteq> q" using pr qr nb pE by blast+
  have cl: "clear_of p b" "clear_of p q" "clear_of b q" "clear_of b p" "clear_of q p" "clear_of q b"
    using headers_clear [OF h] pH qH bH ne by auto
  have hd: "hdr p" "hdr b" "hdr q" using cl by (simp_all add: clear_of_def)
  have sz: "xBlockSize s0 b = n" "pxNextFreeBlock s0 p = q" "xBlockSize s0 p = xBlockSize s p" using S [OF bH] N [OF pH] S [OF pH] ne by (simp_all add: q_def)
  have sg0: "free_seg s0 (xStart s0) (xs @ ys) (pxEnd s)"
    unfolding e(2) by (rule seg_frame [OF d(4)]; subst N S; use nb in \<open>auto simp: headers_def\<close>)
  have xn: "unat (fst x) < unat b" if "x \<in> set xs" for x
    using lo [OF that] tiling_block(3) [OF d(9), of "fst x" "snd x"] that by fastforce
  have w: "free_walk (xStart s0) b s0 = Some p"
    using free_walk_finds [OF sg0, of b] xn hi B(6) unfolding p_def e(2) by fastforce
  have v: "p = xStart s0 \<or> heapVALIDATE_BLOCK_POINTER p s0 = Some ()"
  proof (cases "p = xStart s0")
    case False
    then obtain k where "(p, k) \<in> set xs" using pr e(2) by auto
    then have "(p, k) \<in> live \<union> set (xs @ ys)" by simp
    note P = c(5) [OF this] tiling_block(3) [OF d(9) this]
    have "heap_linked s0" using d(1) e by (simp add: heap_linked_def)
    then have "heapVALIDATE_BLOCK_POINTER p s0 = Some ()" using P unfolding e(1) [symmetric] by (intro validate_ok) auto
    then show ?thesis ..
  qed simp
  note E = insert_eq [OF w sz(2,1) v cl(1-3)]
  let ?t = "set_pxNextFreeBlock p b (set_pxNextFreeBlock b q s0)"
  have tx: "pxNextFreeBlock ?t x = (if x = b then q else if x = p then b else pxNextFreeBlock s x) \<and> xBlockSize ?t x = (if x = b then n else xBlockSize s x)"
    if x: "x \<in> ?H" for x
  proof -
    consider "x = b" | "x = p" | "x \<noteq> b" "x \<noteq> p" "clear_of b x" "clear_of p x"
      using headers_clear [OF h bH x] headers_clear [OF h pH x] by auto
    then show ?thesis by cases (use N [OF x] S [OF x] hd cl ne sz in \<open>simp_all add:\<close>)
  qed
  have t: "heap_wf ?L (xs @ (b, n) # ys) ?t"
    by (rule insert_wf [OF h b]) (simp_all only: tx p_def [symmetric] q_def [symmetric], simp_all add: e)
  have pay: "same_payload ?L s0 s'" if R: "\<And>y. unat y < unat p \<or> unat p + 8 \<le> unat y \<Longrightarrow> unat y < unat b \<or> unat b + 8 \<le> unat y \<Longrightarrow> ram s' y = ram s0 y" for s'
  proof (rule same_payloadI)
    fix a k and y :: u32 assume a: "(a, k) \<in> ?L" and y: "unat y \<in> payload (a, k)"
    then have al: "(a, k) \<in> live" by simp
    show "ram s' y = ram s0 y" by (rule R) (rule payload_clear [OF h al y pH], rule payload_clear [OF h al y bH])
  qed
  have sb: "ram (set_pxNextFreeBlock p v z) y = ram z y \<and> ram (set_xBlockSize p v z) y = ram z y" if "unat y < unat p \<or> unat p + 8 \<le> unat y" for v z y
    using header_bytes [OF hd(1) that] by simp
  have sb': "ram (set_pxNextFreeBlock b v z) y = ram z y \<and> ram (set_xBlockSize b v z) y = ram z y" if "unat y < unat b \<or> unat b + 8 \<le> unat y" for v z y
    using header_bytes [OF hd(2) that] by simp
  have fin: ?thesis if "prvInsertBlockIntoFreeList b s0 = Some s'" "heap_wf ?L fs' s'" "gaps fs'" "same_payload ?L s0 s'" "ucHeap s' = ucHeap s" "xStart s' = xStart s" for s' fs'
    using that by (auto simp: heap_ok_def)
  have other: "x \<in> ?H \<and> x \<noteq> b" if x: "x \<in> others ?L xs ys ?t" for x
    using heap_wf_mid(2) [OF t x] b e by (auto simp: headers_def others_def)
  show ?thesis
  proof (cases "p + xBlockSize s p = b")
    case True
    then obtain zs k where xs: "xs = zs @ [(p, k)]" and adj: "unat p + unat k = unat b"
      using prev_adjacent [OF h b] unfolding p_def by auto
    have k: "xBlockSize s p = k" using d(4) xs by (simp add: free_seg_append)
    have pk: "p + (k + n) = b + n" using True k by (simp add: add.assoc [symmetric])
    let ?u = "set_pxNextFreeBlock p q (set_xBlockSize p (k + n) s0)"
    have t2: "heap_wf ?L (zs @ (p, k) # (b, n) # ys) ?t" using t unfolding xs by simp
    have ot: "x \<in> ?H \<and> x \<noteq> b \<and> x \<noteq> p" if x: "x \<in> others ?L zs ys ?t" for x
    proof -
      have "x \<in> others ?L xs ys ?t" "x \<in> others ?L zs ((b, n) # ys) ?t" using x unfolding xs others_def by auto
      then show ?thesis using other heap_wf_mid(2) [OF t2] by blast
    qed
    have ux: "pxNextFreeBlock ?u x = pxNextFreeBlock s x \<and> xBlockSize ?u x = xBlockSize s x" if x: "x \<in> ?H" "x \<noteq> b" "x \<noteq> p" for x
      using headers_clear [OF h pH x(1)] x N [OF x(1)] S [OF x(1)] by simp
    have u: "heap_wf ?L (zs @ (p, k + n) # ys) ?u"
      by (rule merge_wf [OF t2 adj]) (use ot ux tx [OF bH] cl hd in \<open>simp_all add: tx\<close>)
    have nk: "unat (k + n) = unat k + unat n" using B(1) adj bound by (simp add: unat_word_ariths)
    have E2: "prvInsertBlockIntoFreeList b s0 = Some (if b + n = q \<and> q \<noteq> pxEnd s
        then set_pxNextFreeBlock p (pxNextFreeBlock s0 q) (set_xBlockSize p (k + n + xBlockSize s0 q) (set_xBlockSize p (k + n) s0)) else ?u)"
      using True by (simp only: E sz(3) k Let_def pk e(3)) simp
    show ?thesis
    proof (cases "b + n = q \<and> q \<noteq> pxEnd s")
      case True
      then obtain m ws where ys: "ys = (q, m) # ws" and adj2: "unat b + unat n = unat q" using next_adjacent [OF h b] unfolding p_def q_def by auto
      let ?v = "set_pxNextFreeBlock p (pxNextFreeBlock s0 q) (set_xBlockSize p (k + n + xBlockSize s0 q) (set_xBlockSize p (k + n) s0))"
      have m: "xBlockSize s0 q = m" using sg(2) S [OF qH] ne ys by simp
      have u2: "heap_wf ?L (zs @ (p, k + n) # (q, m) # ws) ?u" using u unfolding ys .
      have ou: "x \<in> ?H \<and> x \<noteq> b \<and> x \<noteq> p" if x: "x \<in> others ?L zs ws ?u" for x
        by (rule ot) (use x in \<open>auto simp: ys others_def\<close>)
      have v: "heap_wf ?L (zs @ (p, (k + n) + m) # ws) ?v"
      proof (rule merge_wf [OF u2])
        show "unat p + unat (k + n) = unat q" using nk adj adj2 by simp
        show "pxNextFreeBlock ?v x = pxNextFreeBlock ?u x" "xBlockSize ?v x = xBlockSize ?u x" if "x \<in> others ?L zs ws ?u" for x
        proof -
          have "clear_of p x" using headers_clear [OF h pH, of x] ou [OF that] by blast
          then show "pxNextFreeBlock ?v x = pxNextFreeBlock ?u x" "xBlockSize ?v x = xBlockSize ?u x" by simp_all
        qed
      qed (use cl hd m in simp_all)
      have "(q, m) \<in> live \<union> set (xs @ ys)" by (simp add: ys)
      then have "unat (k + n + m) = unat (k + n) + unat m" using c(5) [of q m] nk adj adj2 bound by (simp add: unat_word_ariths)
      then have "gaps (zs @ (p, k + n + m) # ws)" using g nk adj adj2 unfolding xs ys by (auto simp: gaps_def sorted_wrt_append)
      moreover have "same_payload ?L s0 ?v" by (rule pay) (use sb in simp)
      ultimately show ?thesis using E2 True v e by (intro fin [of ?v "zs @ (p, k + n + m) # ws"]) simp_all
    next
      case False
      have "gaps (zs @ (p, k + n) # ys)"
      proof (rule gaps_insert [where b = "unat p"])
        show "gaps (zs @ ys)" using g unfolding xs by (auto simp: gaps_def sorted_wrt_append)
        show "unat (fst x) + unat (snd x) \<le> unat p" if "x \<in> set zs" for x using g that unfolding xs by (auto simp: gaps_def sorted_wrt_append)
        show "unat c + unat k' \<noteq> unat p" if "zs = ws @ [(c, k')]" for ws c k' using g that unfolding xs by (auto simp: gaps_def sorted_wrt_append)
        show "unat p + unat (k + n) \<le> unat (fst y)" if "y \<in> set ys" for y using hi [OF that] nk adj by simp
        show "unat p + unat (k + n) \<noteq> unat c" if "ys = (c, k') # ws" for ws c k'
          using next_adjacent [OF h b q_def [unfolded p_def]] False sg(2) that nk adj by (auto simp: q_def)
      qed simp
      moreover have "same_payload ?L s0 ?u" by (rule pay) (use sb in simp)
      ultimately show ?thesis using E2 False u e by (intro fin [of ?u "zs @ (p, k + n) # ys"]) simp_all
    qed
  next
    case False
    then have np: "unat c + unat k \<noteq> unat b" if "xs = zs @ [(c, k)]" for zs c k using prev_adjacent [OF h b] that unfolding p_def by auto
    have E2: "prvInsertBlockIntoFreeList b s0 = Some (set_pxNextFreeBlock p b (if b + n = q \<and> q \<noteq> pxEnd s
        then set_pxNextFreeBlock b (pxNextFreeBlock s0 q) (set_xBlockSize b (n + xBlockSize s0 q) s0) else set_pxNextFreeBlock b q s0))"
      using E False sz(3) e(3) by simp
    show ?thesis
    proof (cases "b + n = q \<and> q \<noteq> pxEnd s")
      case True
      then obtain m ws where ys: "ys = (q, m) # ws" and adj2: "unat b + unat n = unat q" using next_adjacent [OF h b] unfolding p_def q_def by auto
      let ?v = "set_pxNextFreeBlock p b (set_pxNextFreeBlock b (pxNextFreeBlock s0 q) (set_xBlockSize b (n + xBlockSize s0 q) s0))"
      have m: "xBlockSize s0 q = m" using sg(2) S [OF qH] ne ys by simp
      have ou: "x \<in> ?H \<and> x \<noteq> b" if x: "x \<in> others ?L xs ws ?t" for x
        by (rule other) (use x in \<open>auto simp: ys others_def\<close>)
      have vx: "pxNextFreeBlock ?v x = pxNextFreeBlock ?t x \<and> xBlockSize ?v x = xBlockSize ?t x" if x: "x \<in> ?H" "x \<noteq> b" for x
      proof (cases "x = p")
        case True
        then show ?thesis using cl hd by simp
      next
        case False
        then show ?thesis using headers_clear [OF h pH x(1)] headers_clear [OF h bH x(1)] x(2) by simp
      qed
      have v: "heap_wf ?L (xs @ (b, n + m) # ws) ?v"
        by (rule merge_wf [OF t [unfolded ys] adj2]) (use ou vx cl hd m in simp_all)
      have "(q, m) \<in> live \<union> set (xs @ ys)" by (simp add: ys)
      then have nm: "unat (n + m) = unat n + unat m" using c(5) [of q m] adj2 bound by (simp add: unat_word_ariths)
      have "gaps (xs @ (b, n + m) # ws)"
      proof (rule gaps_insert [where b = "unat b"])
        show "gaps (xs @ ws)" using g unfolding ys by (auto simp: gaps_def sorted_wrt_append)
        show "unat b + unat (n + m) \<le> unat (fst y)" if "y \<in> set ws" for y using g that nm adj2 unfolding ys by (fastforce simp: gaps_def sorted_wrt_append)
        show "unat b + unat (n + m) \<noteq> unat c" if "ws = (c, k') # ws'" for ws' c k' using g that nm adj2 unfolding ys by (auto simp: gaps_def sorted_wrt_append)
      qed (use lo np in auto)
      moreover have "same_payload ?L s0 ?v" by (rule pay) (use sb sb' in simp)
      ultimately show ?thesis using E2 True v e by (intro fin [of ?v "xs @ (b, n + m) # ws"]) simp_all
    next
      case False
      have "gaps (xs @ (b, n) # ys)"
        by (rule gaps_insert [where b = "unat b", OF g lo hi np])
          (use next_adjacent [OF h b q_def [unfolded p_def]] False sg(2) in \<open>auto simp: q_def\<close>)
      moreover have "same_payload ?L s0 ?t" by (rule pay) (use sb sb' in simp)
      ultimately show ?thesis using E2 False t e by (intro fin [of ?t "xs @ (b, n) # ys"]) simp_all
    qed
  qed
qed

text \<open>The invariant depends on the headers only.\<close>

lemma heap_wf_cong:
  assumes h: "heap_wf live fs s" and NS: "\<And>x. x \<in> headers live fs s \<Longrightarrow> pxNextFreeBlock s' x = pxNextFreeBlock s x \<and> xBlockSize s' x = xBlockSize s x"
    and e: "ucHeap s' = ucHeap s" "xStart s' = xStart s" "pxEnd s' = pxEnd s" "xFreeBytesRemaining s' = xFreeBytesRemaining s"
  shows "heap_wf live fs s'"
proof -
  note d = heap_wfD [OF h]
  have H: "xStart s \<in> headers live fs s" "pxEnd s \<in> headers live fs s" "\<And>x. x \<in> live \<Longrightarrow> fst x \<in> headers live fs s" "\<And>x. x \<in> fst ` set fs \<Longrightarrow> x \<in> headers live fs s"
    by (auto simp: headers_def)
  have st: "heap_linked s'" "heap_start s' = heap_start s" using d(1) e(1,2) by (simp_all add: heap_linked_def heap_start_def)
  have sg: "free_seg s' (xStart s) fs (pxEnd s)" 
  proof (rule seg_frame [OF d(4)])
    show "pxNextFreeBlock s' x = pxNextFreeBlock s x" if "x \<in> insert (xStart s) (fst ` set fs)" for x using NS [of x] H(1,4) that by blast
    show "xBlockSize s' x = xBlockSize s x" if "x \<in> fst ` set fs" for x using NS [OF H(4) [OF that]] by blast
  qed
  have lv: "xBlockSize s' (fst x) = snd x OR heapBLOCK_ALLOCATED_BITMASK \<and> pxNextFreeBlock s' (fst x) = 0" if "x \<in> live" for x
    using NS [OF H(3) [OF that]] d(8) [of "fst x" "snd x"] that by simp
  show ?thesis
    unfolding heap_wf_def e st(2) using st(1) d(2,13,3,5-7,9-12) sg lv NS [OF H(1)] NS [OF H(2)] by simp
qed

lemma heap_ok_count [simp]: "heap_ok live fs s \<Longrightarrow> heap_ok live fs (s\<lparr>xNumberOfSuccessfulFrees := v\<rparr>)"
  unfolding heap_ok_def by (auto intro: heap_wf_cong)

text \<open>The owner of a block writes into it.\<close>

lemma ld32_fun_upd: "unat p + 4 \<le> 2 ^ 32 \<Longrightarrow> unat x < unat p \<or> unat p + 4 \<le> unat x \<Longrightarrow> ld32 (m(x := v)) p = ld32 m p"
proof -
  assume p: "unat p + 4 \<le> 2 ^ 32" and x: "unat x < unat p \<or> unat p + 4 \<le> unat x"
  have "unat (p + of_nat k) = unat p + k" if "k < 4" for k using p that by (intro unat_plus_small) simp
  from this [of 1] this [of 2] this [of 3] have "x \<noteq> p" "x \<noteq> p + 1" "x \<noteq> p + 2" "x \<noteq> p + 3" using x by auto
  then show "ld32 (m(x := v)) p = ld32 m p" by (simp add: ld32_def)
qed

lemma heap_ok_write:
  assumes h: "heap_ok live fs s" and a: "(a, n) \<in> live" "unat y \<in> payload (a, n)"
  shows "heap_ok live fs (s\<lparr>ram := (ram s)(y := v)\<rparr>)"
proof -
  have wf: "heap_wf live fs s" using h by (simp add: heap_ok_def)
  have "heap_wf live fs (s\<lparr>ram := (ram s)(y := v)\<rparr>)"
  proof (rule heap_wf_cong [OF wf])
    fix x assume x: "x \<in> headers live fs s"
    have hd: "hdr x" by (rule headers_hdr [OF wf x])
    have o: "unat y < unat x \<or> unat x + 8 \<le> unat y" by (rule payload_clear [OF wf a x])
    show "pxNextFreeBlock (s\<lparr>ram := (ram s)(y := v)\<rparr>) x = pxNextFreeBlock s x \<and> xBlockSize (s\<lparr>ram := (ram s)(y := v)\<rparr>) x = xBlockSize s x"
      unfolding pxNextFreeBlock_def xBlockSize_def using hd o plus4 [OF hd] by (auto simp: hdr_def intro!: ld32_fun_upd)
  qed simp_all
  then show ?thesis using h by (simp add: heap_ok_def)
qed

lemma free_ok:
  assumes h: "heap_ok live fs s" and b: "(b, n) \<in> live"
  shows "\<exists>s' fs'. vPortFree (b + 16) s = Some s' \<and> heap_ok (live - {(b, n)}) fs' s' \<and> same_payload (live - {(b, n)}) s s'
    \<and> ucHeap s' = ucHeap s \<and> xStart s' = xStart s"
proof -
  obtain xs ys where fs: "fs = xs @ ys"
    and lo: "\<And>x. x \<in> set xs \<Longrightarrow> unat (fst x) + unat (snd x) \<le> unat b" and hi: "\<And>y. y \<in> set ys \<Longrightarrow> unat b + unat n \<le> unat (fst y)"
    by (rule free_place [OF h b]) blast
  have wf: "heap_wf live (xs @ ys) s" and g: "gaps (xs @ ys)" using h fs by (simp_all add: heap_ok_def)
  note d = heap_wfD [OF wf] and c = heap_wf_clear [OF wf]
  have bn: "(b, n) \<in> live \<union> set (xs @ ys)" using b by simp
  note B = c(5) [OF bn] tiling_block [OF d(9) bn]
  have bound: "unat (ucHeap s) + 10240 < 2 ^ 32" using d(1) by (simp add: heap_linked_def)
  have bH: "b \<in> headers live (xs @ ys) s" using b by (force simp: headers_def)
  have hd: "hdr b" by (rule headers_hdr [OF wf bH])
  have n31: "unat n < 2 ^ 31" using B(1) by auto
  note mk = allocated_mark [OF n31]
  have sz: "xBlockSize s b = n OR heapBLOCK_ALLOCATED_BITMASK" "pxNextFreeBlock s b = 0" using d(8) [OF b] by simp_all
  have b16: "unat (b + 16) = unat b + 16" using unat_plus_small [of b 16] B(1) bound by simp
  then have nz: "b + 16 \<noteq> 0" by (metis add_is_0 unat_0 zero_neq_numeral)
  have v: "heapVALIDATE_BLOCK_POINTER b s = Some ()" using B(1,4) by (intro validate_ok [OF d(1)]) auto
  define s0 where "s0 = (set_xBlockSize b n s)\<lparr>xFreeBytesRemaining := xFreeBytesRemaining s + n\<rparr>"
  have fr: "vPortFree (b + 16) s = do { s \<leftarrow> prvInsertBlockIntoFreeList b s0; Some (s\<lparr>xNumberOfSuccessfulFrees := xNumberOfSuccessfulFrees s + 1\<rparr>) }"
    using nz v mk sz by (simp add: vPortFree_def configASSERT_def heapBLOCK_IS_ALLOCATED_def heapFREE_BLOCK_def s0_def)
  have s0: "pxNextFreeBlock s0 x = pxNextFreeBlock s x \<and> xBlockSize s0 x = (if x = b then n else xBlockSize s x)" if x: "x \<in> headers live (xs @ ys) s" for x
    using headers_clear [OF wf bH x] hd by (cases "x = b") (simp_all add: s0_def)
  obtain s' fs' where r: "prvInsertBlockIntoFreeList b s0 = Some s'" "heap_ok (live - {(b, n)}) fs' s'" "same_payload (live - {(b, n)}) s0 s'"
    "ucHeap s' = ucHeap s" "xStart s' = xStart s"
    using prv_insert_ok [OF wf g b lo hi, of s0] s0 by (auto simp: s0_def)
  have "same_payload (live - {(b, n)}) s s0"
  proof (rule same_payloadI)
    fix a k and y :: u32 assume "(a, k) \<in> live - {(b, n)}" "unat y \<in> payload (a, k)"
    then show "ram s0 y = ram s y" using header_bytes(2) [OF hd] payload_clear [OF wf _ _ bH] by (auto simp: s0_def)
  qed
  then have "same_payload (live - {(b, n)}) s s'" using r(3) by (rule same_payload_trans)
  then show ?thesis using fr r by (intro exI [of _ "s'\<lparr>xNumberOfSuccessfulFrees := xNumberOfSuccessfulFrees s' + 1\<rparr>"] exI [of _ fs']) (simp add: same_payload_def)
qed

end
