(* ===== verification/Freertos_Heap_Use.thy ===== *)
theory Freertos_Heap_Use imports Freertos_Heap begin

text \<open>
  What a program sees of the allocator: the memory it holds is its own, in every order of allocations,
  releases and writes; a release gives the memory back in full.
\<close>

section \<open>The clients of the allocator\<close>

text \<open>
  The memory a program holds: the pointers it was given, each with the size it asked for. A step of
  the program is an allocation, a release of a pointer it holds, or a write to memory it holds.
\<close>

type_synonym owned = "(u32 \<times> u32) set"

definition area :: "u32 \<times> u32 \<Rightarrow> nat set" where "area x = {unat (fst x) ..< unat (fst x) + unat (snd x)}"

inductive heap_use :: "owned \<Rightarrow> heap \<Rightarrow> bool" where
  power_on: "heap_linked s \<Longrightarrow> pxEnd s = 0 \<Longrightarrow> heap_use {} s"
| malloc: "heap_use own s \<Longrightarrow> pvPortMalloc w s = Inr (p, s') \<Longrightarrow> heap_use (insert (p, w) own) s'"
| calloc: "heap_use own s \<Longrightarrow> pvPortCalloc n z s = Inr (p, s') \<Longrightarrow> p \<noteq> 0 \<Longrightarrow> heap_use (insert (p, n * z) own) s'"
| free: "heap_use own s \<Longrightarrow> x \<in> own \<Longrightarrow> vPortFree (fst x) s = Some s' \<Longrightarrow> heap_use (own - {x}) s'"
| use_byte: "heap_use own s \<Longrightarrow> x \<in> own \<Longrightarrow> unat y \<in> area x \<Longrightarrow> heap_use own (s\<lparr>ram := (ram s)(y := v)\<rparr>)"

text \<open>The memory held is inside the live blocks, one for each pointer.\<close>

definition holds :: "owned \<Rightarrow> block set \<Rightarrow> bool" where
  "holds own live \<longleftrightarrow> fst ` live = (\<lambda>x. fst x - 16) ` own \<and> inj_on fst own
     \<and> (\<forall>x \<in> own. \<exists>n. (fst x - 16, n) \<in> live \<and> unat (snd x) + 16 \<le> unat n)"

definition heap_inv :: "owned \<Rightarrow> heap \<Rightarrow> bool" where
  "heap_inv own s \<longleftrightarrow> heap_linked s \<and> (pxEnd s = 0 \<and> own = {} \<or> (\<exists>live fs. heap_ok live fs s \<and> holds own live))"

lemma holds_empty [simp]: "holds {} live \<longleftrightarrow> live = {}"
  by (auto simp: holds_def)

lemma holds_block:
  assumes "holds own live" "x \<in> own"
  obtains n where "(fst x - 16, n) \<in> live" "unat (snd x) + 16 \<le> unat n"
  using assms unfolding holds_def by blast

lemma holds_insert:
  assumes h: "holds own live" and a: "a \<notin> fst ` live" "unat w + 16 \<le> unat n"
  shows "holds (insert (a + 16, w) own) (insert (a, n) live)"
proof -
  have "a + 16 \<notin> fst ` own"
  proof
    assume "a + 16 \<in> fst ` own"
    then have "a \<in> (\<lambda>x. fst x - 16) ` own" by force
    then show False using h a(1) by (simp add: holds_def)
  qed
  moreover have "\<exists>k. (fst x - 16, k) \<in> insert (a, n) live \<and> unat (snd x) + 16 \<le> unat k" if "x \<in> insert (a + 16, w) own" for x
  proof (cases "x = (a + 16, w)")
    case True
    then show ?thesis using a(2) by auto
  next
    case False
    then show ?thesis using that holds_block [OF h, of x] by blast
  qed
  ultimately show ?thesis using h unfolding holds_def by (simp add: image_iff)
qed

lemma holds_remove:
  assumes h: "holds own live" and x: "x \<in> own" "(fst x - 16, n) \<in> live" and u: "\<And>k. (fst x - 16, k) \<in> live \<Longrightarrow> k = n"
  shows "holds (own - {x}) (live - {(fst x - 16, n)})"
proof -
  have inj: "fst y - 16 \<noteq> fst x - 16" if "y \<in> own" "y \<noteq> x" for y
    using h x(1) that by (auto simp: holds_def dest: inj_onD)
  have "fst ` (live - {(fst x - 16, n)}) = fst ` live - {fst x - 16}" using u by force
  moreover have "inj_on (\<lambda>x. fst x - 16) own" using h unfolding holds_def inj_on_def by simp
  then have "(\<lambda>x. fst x - 16) ` (own - {x}) = (\<lambda>x. fst x - 16) ` own - (\<lambda>x. fst x - 16) ` {x}"
    by (rule inj_on_image_set_diff) (use x(1) in auto)
  moreover have "\<exists>k. (fst y - 16, k) \<in> live - {(fst x - 16, n)} \<and> unat (snd y) + 16 \<le> unat k" if y: "y \<in> own - {x}" for y
  proof -
    obtain k where k: "(fst y - 16, k) \<in> live" "unat (snd y) + 16 \<le> unat k" by (rule holds_block [OF h]) (use y in auto)
    moreover have "fst y - 16 \<noteq> fst x - 16" using inj y by simp
    ultimately show ?thesis by auto
  qed
  ultimately show ?thesis using h unfolding holds_def by (auto intro: inj_on_diff)
qed

text \<open>The memory a pointer gives is payload of its block.\<close>

lemma area_payload:
  assumes "heap_wf live fs s" "(fst x - 16, n) \<in> live" "unat (snd x) + 16 \<le> unat n"
  shows "unat (fst x) = unat (fst x - 16) + 16" "area x \<subseteq> payload (fst x - 16, n)"
proof -
  have "(fst x - 16, n) \<in> live \<union> set fs" using assms(2) by simp
  then have "unat (fst x - 16) + 16 < 2 ^ 32" using heap_wf_clear(5) [OF assms(1)] heap_wfD(1) [OF assms(1)] by (fastforce simp: heap_linked_def)
  from unat_plus_small [of "fst x - 16" 16, simplified, OF this [simplified]] show e: "unat (fst x) = unat (fst x - 16) + 16" by simp
  show "area x \<subseteq> payload (fst x - 16, n)" using assms(3) e by (auto simp: area_def payload_def)
qed

definition keeps :: "owned \<Rightarrow> heap \<Rightarrow> heap \<Rightarrow> bool" where
  "keeps own s s' \<longleftrightarrow> (\<forall>x y. x \<in> own \<longrightarrow> unat y \<in> area x \<longrightarrow> ram s' y = ram s y)"

lemma same_payload_keeps:
  assumes "heap_ok live fs s" "holds own live" "same_payload live s s'"
  shows "keeps own s s'"
  unfolding keeps_def
proof (intro allI impI)
  fix x and y :: u32 assume x: "x \<in> own" "unat y \<in> area x"
  obtain n where n: "(fst x - 16, n) \<in> live" "unat (snd x) + 16 \<le> unat n" by (rule holds_block [OF assms(2) x(1)])
  have "unat y \<in> payload (fst x - 16, n)" using area_payload(2) [OF _ n] assms(1) x(2) by (auto simp: heap_ok_def)
  then show "ram s' y = ram s y" using assms(3) n(1) by (simp add: same_payload_def)
qed

text \<open>An allocation before the heap is initialised initialises it.\<close>

lemma malloc_init:
  assumes l: "heap_linked s" and z: "pxEnd s = 0"
  shows "pvPortMalloc w s = pvPortMalloc w (prvHeapInit s)"
proof -
  have "heap_wf {} [(heap_start s, heap_stop s - heap_start s)] (prvHeapInit s)" using init_ok(1) [OF l] by (simp add: heap_ok_def)
  note i = init_once [OF this]
  show ?thesis by (simp only: pvPortMalloc_def z simp_thms if_True i)
qed

text \<open>A place that a block list does not hold is free: what an allocation gives is apart from what is held.\<close>

definition fresh :: "u32 \<times> u32 \<Rightarrow> owned \<Rightarrow> bool" where "fresh x own \<longleftrightarrow> (\<forall>y. y \<in> own \<longrightarrow> area x \<inter> area y = {})"

lemma holds_fresh:
  assumes wf: "heap_wf (insert (a, n) live) fs s" and h: "holds own live" and a: "a \<notin> fst ` live" "unat w + 16 \<le> unat n"
  shows "fresh (a + 16, w) own"
  unfolding fresh_def
proof (intro allI impI)
  fix y assume y: "y \<in> own"
  obtain k where k: "(fst y - 16, k) \<in> live" "unat (snd y) + 16 \<le> unat k" by (rule holds_block [OF h y])
  have "area y \<subseteq> payload (fst y - 16, k)" by (rule area_payload(2) [OF wf]) (use k in auto)
  moreover have "area (a + 16, w) \<subseteq> payload (a, n)" using area_payload(2) [OF wf, of "(a + 16, w)" n] a(2) by simp
  moreover have "a \<noteq> fst y - 16" using a(1) k(1) by force
  then have "unat a + unat n \<le> unat (fst y - 16) \<or> unat (fst y - 16) + unat k \<le> unat a"
    using k(1) by (intro tiling_apart [OF heap_wfD(9) [OF wf]]) auto
  then have "payload (a, n) \<inter> payload (fst y - 16, k) = {}" by (auto simp: payload_def)
  ultimately show "area (a + 16, w) \<inter> area y = {}" by blast
qed

text \<open>What an allocation promises.\<close>

definition good_memory :: "u32 \<Rightarrow> u32 \<Rightarrow> owned \<Rightarrow> heap \<Rightarrow> bool" where
  "good_memory p w own s \<longleftrightarrow> p \<noteq> 0 \<and> unat p mod 16 = 0 \<and> unat (ucHeap s) \<le> unat p \<and> unat p + unat w \<le> unat (ucHeap s) + 10240 \<and> fresh (p, w) own"

lemma malloc_inv:
  assumes h: "heap_ok live fs s" and o: "holds own live"
  shows "(\<exists>p s'. pvPortMalloc w s = Inr (p, s') \<and> good_memory p w own s \<and> keeps own s s' \<and> heap_inv (insert (p, w) own) s')
    \<or> pvPortMalloc w s = Inl Malloc_failed_hook \<and> (wanted_size w = 0 \<or> (\<forall>x \<in> set fs. snd x < wanted_size w))"
proof -
  note m = malloc_ok [OF h, of w]
  have "\<exists>p s'. pvPortMalloc w s = Inr (p, s') \<and> good_memory p w own s \<and> keeps own s s' \<and> heap_inv (insert (p, w) own) s'"
    if ex: "\<exists>a n fs' s'. pvPortMalloc w s = Inr (a + 16, s') \<and> heap_ok (insert (a, n) live) fs' s' \<and> same_payload live s s'
      \<and> unat w + 16 \<le> unat n \<and> a \<notin> fst ` live \<and> ucHeap s' = ucHeap s \<and> xStart s' = xStart s"
  proof -
    obtain a n fs' s' where r: "pvPortMalloc w s = Inr (a + 16, s')" "heap_ok (insert (a, n) live) fs' s'" "same_payload live s s'"
      "unat w + 16 \<le> unat n" "a \<notin> fst ` live" "ucHeap s' = ucHeap s" using ex by blast
    have wf: "heap_wf (insert (a, n) live) fs' s'" using r(2) by (simp add: heap_ok_def)
    note e = area_payload(1) [OF wf, of "(a + 16, w)" n, simplified, OF r(4)]
    have an: "(a, n) \<in> insert (a, n) live \<union> set fs'" by simp
    note A = heap_wf_clear(5) [OF wf an] tiling_block(1) [OF heap_wfD(9) [OF wf] an]
    have "a + 16 \<noteq> 0" using e by (metis add_is_0 unat_0 zero_neq_numeral)
    then have "good_memory (a + 16) w own s" using A e r(4,6) holds_fresh [OF wf o r(5,4)] by (simp add: good_memory_def)
    moreover have "keeps own s s'" by (rule same_payload_keeps [OF h o r(3)])
    moreover have "heap_inv (insert (a + 16, w) own) s'" using r(2) holds_insert [OF o r(5,4)] heap_wfD(1) [OF wf] unfolding heap_inv_def by blast
    ultimately show ?thesis using r(1) by blast
  qed
  then show ?thesis using m by blast
qed

lemma free_inv:
  assumes h: "heap_ok live fs s" and o: "holds own live" and x: "x \<in> own"
  shows "\<exists>s'. vPortFree (fst x) s = Some s' \<and> keeps (own - {x}) s s' \<and> heap_inv (own - {x}) s'"
proof -
  have wf: "heap_wf live fs s" using h by (simp add: heap_ok_def)
  obtain n where n: "(fst x - 16, n) \<in> live" "unat (snd x) + 16 \<le> unat n" by (rule holds_block [OF o x])
  obtain s' fs' where f: "vPortFree (fst x) s = Some s'" "heap_ok (live - {(fst x - 16, n)}) fs' s'" "same_payload (live - {(fst x - 16, n)}) s s'"
    using free_ok [OF h n(1)] by auto
  have u: "k = n" if "(fst x - 16, k) \<in> live" for k using tiling_same [OF heap_wfD(9) [OF wf]] n(1) that by blast
  have o': "holds (own - {x}) (live - {(fst x - 16, n)})" by (rule holds_remove [OF o x n(1) u])
  have "keeps (own - {x}) s s'"
    unfolding keeps_def
  proof (intro allI impI)
    fix y and z :: u32 assume y: "y \<in> own - {x}" "unat z \<in> area y"
    obtain k where k: "(fst y - 16, k) \<in> live - {(fst x - 16, n)}" "unat (snd y) + 16 \<le> unat k" by (rule holds_block [OF o' y(1)])
    then have "unat z \<in> payload (fst y - 16, k)" using area_payload(2) [OF wf, of y k] y(2) by blast
    then show "ram s' z = ram s z" using f(3) k(1) unfolding same_payload_def by blast
  qed
  moreover have "heap_inv (own - {x}) s'" using f(2) o' unfolding heap_inv_def by (auto simp: heap_ok_def dest: heap_wfD(1))
  ultimately show ?thesis using f(1) by blast
qed

lemma heap_ready:
  assumes i: "heap_inv own s"
  obtains live fs t where "heap_ok live fs t" "holds own live" "\<And>w. pvPortMalloc w s = pvPortMalloc w t" "ucHeap t = ucHeap s" "xStart t = xStart s" "keeps own s t"
proof (cases "pxEnd s = 0 \<and> own = {}")
  case True
  have l: "heap_linked s" using i by (simp add: heap_inv_def)
  show thesis
    by (rule that [OF init_ok(1) [OF l]]) (use True init_ok(2,3) [OF l] malloc_init [OF l] in \<open>simp_all add: keeps_def\<close>)
next
  case False
  then obtain live fs where "heap_ok live fs s" "holds own live" using i unfolding heap_inv_def by blast
  then show thesis using that [of live fs s] by (simp add: keeps_def)
qed

lemma inv_write:
  assumes i: "heap_inv own s" and x: "x \<in> own" "unat (y :: u32) \<in> area x"
  shows "heap_inv own (s\<lparr>ram := (ram s)(y := v)\<rparr>)"
proof -
  obtain live fs where l: "heap_ok live fs s" "holds own live" using i x(1) unfolding heap_inv_def by blast
  obtain n where n: "(fst x - 16, n) \<in> live" "unat (snd x) + 16 \<le> unat n" by (rule holds_block [OF l(2) x(1)])
  have "heap_wf live fs s" using l(1) by (simp add: heap_ok_def)
  then have "unat y \<in> payload (fst x - 16, n)" using area_payload(2) [OF _ n] x(2) by blast
  from heap_ok_write [OF l(1) n(1) this] show ?thesis using l(2) i unfolding heap_inv_def heap_linked_def by auto
qed

lemma inv_memset:
  assumes x: "x \<in> own" and b: "unat (fst x) + unat (snd x) < 2 ^ 32"
  shows "heap_inv own s \<Longrightarrow> unat (fst x) \<le> unat q \<Longrightarrow> unat q + k \<le> unat (fst x) + unat (snd x)
    \<Longrightarrow> heap_inv own (s\<lparr>ram := set_bytes (ram s) q v k\<rparr>)"
proof (induction k arbitrary: q s)
  case (Suc k)
  have "unat (q + 1) = unat q + 1" using unat_plus_small [of q 1] Suc(4) b by simp
  moreover have "heap_inv own (s\<lparr>ram := (ram s)(q := v)\<rparr>)" by (rule inv_write [OF Suc(2) x]) (use Suc(3,4) in \<open>simp add: area_def\<close>)
  ultimately show ?case using Suc(1) [of "s\<lparr>ram := (ram s)(q := v)\<rparr>" "q + 1"] Suc(3,4) by (simp add: fun_upd_def)
qed simp

lemma malloc_step:
  assumes i: "heap_inv own s" and m: "pvPortMalloc w s = Inr (p, s')"
  shows "good_memory p w own s \<and> keeps own s s' \<and> heap_inv (insert (p, w) own) s'"
proof -
  obtain live fs t where t: "heap_ok live fs t" "holds own live" "\<And>w. pvPortMalloc w s = pvPortMalloc w t" "ucHeap t = ucHeap s" "keeps own s t"
    using heap_ready [OF i] by metis
  show ?thesis using malloc_inv [OF t(1,2), of w] m t(3) [of w] t(4,5) by (auto simp: good_memory_def keeps_def)
qed

lemma calloc_step:
  assumes i: "heap_inv own s" and m: "pvPortCalloc n z s = Inr (p, s')" and p: "p \<noteq> 0"
  obtains s1 where "pvPortMalloc (n * z) s = Inr (p, s1)" "s' = s1\<lparr>ram := fst (glue_memset (ram s1) p 0 (n * z))\<rparr>" "heap_inv (insert (p, n * z) own) s'"
    "good_memory p (n * z) own s" "keeps own s s1"
proof -
  obtain s1 where s1: "pvPortMalloc (n * z) s = Inr (p, s1)" "s' = s1\<lparr>ram := fst (glue_memset (ram s1) p 0 (n * z))\<rparr>"
    using m p by (auto simp: pvPortCalloc_def split: if_splits sum.splits)
  note g = malloc_step [OF i s1(1)]
  have b: "unat p + unat (n * z) < 2 ^ 32" using g i by (auto simp: good_memory_def heap_inv_def heap_linked_def)
  have "heap_inv (insert (p, n * z) own) (s1\<lparr>ram := fst (glue_memset (ram s1) p 0 (n * z))\<rparr>)"
    unfolding glue_memset_def fst_conv by (rule inv_memset [of "(p, n * z)"]) (use g b in simp_all)
  then show thesis using that s1 g by blast
qed

lemma heap_use_inv: "heap_use own s \<Longrightarrow> heap_inv own s"
proof (induction rule: heap_use.induct)
  case (power_on s)
  then show ?case by (simp add: heap_inv_def)
next
  case (malloc own s w p s')
  then show ?case using malloc_step by blast
next
  case (calloc own s n z p s')
  then show ?case using calloc_step by blast
next
  case (free own s x s')
  have "own \<noteq> {}" using free(2) by blast
  then obtain live fs where "heap_ok live fs s" "holds own live" using free(4) unfolding heap_inv_def by blast
  from free_inv [OF this free(2)] show ?case using free(3) by auto
next
  case (use_byte own s x y v)
  then show ?case by (intro inv_write)
qed

text \<open>A heap that nothing is held of is one block.\<close>

lemma whole_heap:
  assumes h: "heap_ok {} fs s"
  shows "\<exists>x \<in> set fs. 10208 \<le> unat (snd x)"
proof -
  have wf: "heap_wf {} fs s" and g: "gaps fs" using h by (simp_all add: heap_ok_def)
  note d = heap_wfD [OF wf]
  have cov: "\<Union> (bytes ` set fs) = {unat (heap_start s) ..< unat (pxEnd s)}" using d(9) by (simp add: tiling_def)
  have "unat (heap_start s) \<in> \<Union> (bytes ` set fs)" using d(2) unfolding cov by simp
  then obtain x ys where fs: "fs = x # ys" by (cases fs) auto
  have above: "unat (fst x) + unat (snd x) < unat (fst y)" if "y \<in> set ys" for y using g that by (simp add: gaps_def fs)
  have x: "unat (fst x) \<le> unat (heap_start s)"
  proof -
    obtain y where y: "y \<in> set fs" "unat (fst y) \<le> unat (heap_start s)" using \<open>unat (heap_start s) \<in> _\<close> by (auto simp: bytes_def)
    then show ?thesis using above [of y] fs by fastforce
  qed
  have "unat (pxEnd s) \<le> unat (fst x) + unat (snd x)"
  proof (rule ccontr)
    assume "\<not> unat (pxEnd s) \<le> unat (fst x) + unat (snd x)"
    moreover have "unat (heap_start s) \<le> unat (fst x)" using tiling_block(4) [OF d(9), of "fst x" "snd x"] fs by simp
    ultimately have "unat (fst x) + unat (snd x) \<in> \<Union> (bytes ` set fs)" unfolding cov by simp
    then obtain y where "y \<in> set fs" "unat (fst x) + unat (snd x) \<in> bytes y" by blast
    then show False using above [of y] fs by (auto simp: bytes_def)
  qed
  then show ?thesis using x d(13) fs by auto
qed

declare find_fit.simps [code] free_walk.simps [code] stats_walk.simps [code]

lemma free_step:
  assumes i: "heap_inv own s" and x: "x \<in> own"
  shows "\<exists>s'. vPortFree (fst x) s = Some s' \<and> keeps (own - {x}) s s'"
proof -
  have "own \<noteq> {}" using x by blast
  then obtain live fs where "heap_ok live fs s" "holds own live" using i unfolding heap_inv_def by blast
  from free_inv [OF this x] show ?thesis by blast
qed

lemma multiply_overflow: "heapMULTIPLY_WILL_OVERFLOW n z \<longleftrightarrow> 2 ^ 32 \<le> unat n * unat z"
proof (cases "n = 0")
  case True
  then show ?thesis by (simp add: heapMULTIPLY_WILL_OVERFLOW_def)
next
  case False
  then have n: "0 < unat n" by (simp add: unat_gt_0)
  have "unat (heapSIZE_MAX div n) = (2 ^ 32 - 1) div unat n"
    by (simp add: heapSIZE_MAX_def unat_div unsigned_minus_1_eq_mask mask_eq_exp_minus_1)
  moreover have "(2 ^ 32 - 1) div unat n < unat z \<longleftrightarrow> 2 ^ 32 - 1 < unat z * unat n" using n by (rule div_less_iff_less_mult)
  ultimately show ?thesis using False n by (auto simp: heapMULTIPLY_WILL_OVERFLOW_def word_gt_0 word_less_nat_alt mult.commute)
qed

lemma memset_bytes:
  "unat q + k < 2 ^ 32 \<Longrightarrow> set_bytes m q v k y = (if unat q \<le> unat y \<and> unat y < unat q + k then v else m y)"
proof (induction k arbitrary: q m)
  case (Suc k)
  have q: "unat (q + 1) = unat q + 1" using unat_plus_small [of q 1] Suc(2) by simp
  have "unat y = unat q \<longleftrightarrow> y = q" by (metis word_unat_eq_iff)
  then show ?case using Suc(1) [of "q + 1" "m(q := v)"] Suc(2) q by (auto simp: fun_upd_def)
qed auto

definition zeroed :: "u32 \<times> u32 \<Rightarrow> heap \<Rightarrow> bool" where "zeroed x s \<longleftrightarrow> (\<forall>y. unat y \<in> area x \<longrightarrow> ram s y = 0)"

lemma calloc_clears:
  assumes g: "good_memory p w own s" and i: "heap_linked s" and k: "keeps own s s1" and e: "s' = s1\<lparr>ram := fst (glue_memset (ram s1) p 0 w)\<rparr>"
  shows "keeps own s s'" "zeroed (p, w) s'"
proof -
  have b: "unat p + unat w < 2 ^ 32" using g i by (auto simp: good_memory_def heap_linked_def)
  have r: "ram s' y = (if unat y \<in> area (p, w) then 0 else ram s1 y)" for y
    using memset_bytes [OF b, of "ram s1" 0 y] by (simp add: e area_def glue_memset_def)
  show "zeroed (p, w) s'" by (simp add: zeroed_def r)
  have "unat y \<notin> area (p, w)" if "x \<in> own" "unat y \<in> area x" for x and y :: u32
    using g that unfolding good_memory_def fresh_def by blast
  then show "keeps own s s'" using k by (simp add: keeps_def r)
qed

lemma malloc_zero: "pvPortMalloc 0 s = Inl Malloc_failed_hook"
  by (simp add: pvPortMalloc_def wanted_size_def Let_def)

lemma empty_heap_gives:
  assumes "heap_use {} s" "0 < w" "unat w \<le> 10192"
  shows "\<exists>p s'. pvPortMalloc w s = Inr (p, s') \<and> good_memory p w {} s"
proof -
  obtain live fs t where t: "heap_ok live fs t" "holds {} live" "pvPortMalloc w s = pvPortMalloc w t" "ucHeap t = ucHeap s"
    using heap_ready [OF heap_use_inv [OF assms(1)]] by metis
  have l: "live = {}" using t(2) by simp
  obtain x where x: "x \<in> set fs" "10208 \<le> unat (snd x)" using whole_heap [of fs t] t(1) l by blast
  have r: "rounded (unat w + 16) \<le> 10208" using assms(3) rounded_bounds(2,3) [of "unat w + 16"] by presburger
  then have v: "unat (wanted_size w) = rounded (unat w + 16)" using wanted_size_value [OF assms(2)] by simp
  then have z: "wanted_size w \<noteq> 0" using rounded_bounds(1) [of "unat w + 16"] by auto
  have "unat (wanted_size w) \<le> 10208" using r v by simp
  then have "\<not> snd x < wanted_size w" using x(2) by (simp add: word_less_nat_alt)
  then show ?thesis using malloc_inv [OF t(1,2), of w] t(3,4) x(1) z by (auto simp: good_memory_def)
qed

section \<open>The contract\<close>

text \<open>What a program relies on: memory given is apart from memory held, and whatever is held can be released.\<close>

fun release_all :: "(u32 \<Rightarrow> 'h \<Rightarrow> 'h option) \<Rightarrow> (u32 \<times> u32) list \<Rightarrow> 'h \<Rightarrow> 'h option" where
  "release_all r [] s = Some s"
| "release_all r (x # xs) s = do { s \<leftarrow> r (fst x) s; release_all r xs s }"

locale allocator =
  fixes inv :: "owned \<Rightarrow> 'h \<Rightarrow> bool" and alloc :: "u32 \<Rightarrow> 'h \<Rightarrow> (u32 \<times> 'h) option" and release :: "u32 \<Rightarrow> 'h \<Rightarrow> 'h option"
  assumes alloc_gives: "inv own s \<Longrightarrow> alloc w s = Some (p, s') \<Longrightarrow> inv (insert (p, w) own) s' \<and> fresh (p, w) own"
    and release_takes: "inv own s \<Longrightarrow> x \<in> own \<Longrightarrow> \<exists>s'. release (fst x) s = Some s' \<and> inv (own - {x}) s'"
begin

lemma all_released: "inv (set xs) s \<Longrightarrow> distinct xs \<Longrightarrow> \<exists>s'. release_all release xs s = Some s' \<and> inv {} s'"
proof (induction xs arbitrary: s)
  case (Cons x xs)
  obtain t where t: "release (fst x) s = Some t" "inv (set (x # xs) - {x}) t" using release_takes [OF Cons(2), of x] by auto
  have "set (x # xs) - {x} = set xs" using Cons(3) by auto
  then have "inv (set xs) t" using t(2) by simp
  from Cons(1) [OF this] show ?case using Cons(3) t(1) by simp
qed simp

text \<open>The stack and the control block of a task: two pieces of memory that do not overlap.\<close>

lemma two_pieces:
  assumes "inv own s" "alloc v s = Some (p, s1)" "alloc w s1 = Some (q, s2)"
  shows "area (p, v) \<inter> area (q, w) = {}" "inv (insert (q, w) (insert (p, v) own)) s2"
proof -
  have 1: "inv (insert (p, v) own) s1" using alloc_gives [OF assms(1,2)] by blast
  show "inv (insert (q, w) (insert (p, v) own)) s2" using alloc_gives [OF 1 assms(3)] by blast
  have "fresh (q, w) (insert (p, v) own)" using alloc_gives [OF 1 assms(3)] by blast
  then show "area (p, v) \<inter> area (q, w) = {}" unfolding fresh_def by blast
qed

end

definition malloc_opt :: "u32 \<Rightarrow> heap \<Rightarrow> (u32 \<times> heap) option" where
  "malloc_opt w s = (case pvPortMalloc w s of Inl _ \<Rightarrow> None | Inr r \<Rightarrow> Some r)"

interpretation heap4: allocator heap_use malloc_opt vPortFree
proof
  fix own s w p and s' :: heap
  assume u: "heap_use own s" and m: "malloc_opt w s = Some (p, s')"
  have e: "pvPortMalloc w s = Inr (p, s')" using m by (simp add: malloc_opt_def split: sum.splits)
  then show "heap_use (insert (p, w) own) s' \<and> fresh (p, w) own"
    using malloc_step [OF heap_use_inv [OF u] e] heap_use.malloc [OF u e] by (simp add: good_memory_def)
next
  fix own and s :: heap and x
  assume u: "heap_use own s" and x: "x \<in> own"
  then show "\<exists>s'. vPortFree (fst x) s = Some s' \<and> heap_use (own - {x}) s'"
    using free_step [OF heap_use_inv [OF u] x] heap_use.free [OF u x] by blast
qed

section \<open>A concrete program\<close>

definition power_on_heap :: heap where
  "power_on_heap = \<lparr>ram = (\<lambda>_. 0xa5), ucHeap = 0x80011004, xStart = 0x80010f00, pxEnd = 0, xFreeBytesRemaining = 0,
     xMinimumEverFreeBytesRemaining = 0, xNumberOfSuccessfulAllocations = 0, xNumberOfSuccessfulFrees = 0\<rparr>"

definition one_held :: heap where "one_held = snd (projr (pvPortMalloc 100 power_on_heap))"

lemma power_on_use: "heap_use {} power_on_heap"
  by (rule heap_use.power_on) (simp_all add: heap_linked_def hdr_def power_on_heap_def)

lemma one_held_eq: "pvPortMalloc 100 power_on_heap = Inr (0x80011020, one_held)"
proof -
  have "map_sum (\<lambda>x. x) fst (pvPortMalloc 100 power_on_heap) = Inr 0x80011020" by code_simp
  then show ?thesis by (cases "pvPortMalloc 100 power_on_heap") (auto simp: one_held_def)
qed

lemma one_held_use: "heap_use {(0x80011020, 100)} one_held"
  using heap_use.malloc [OF power_on_use one_held_eq] .

section \<open>The properties\<close>

text \<open>C38: Whatever a program did before, an allocation never fails an assertion of the allocator. It either ends in
  the hook for a failed allocation or gives a pointer: not NULL, 16-byte aligned, in the heap with
  all the bytes asked for, apart from all the memory the program holds, whose contents it leaves as they were.
\<close>

theorem malloc_gives_memory:
  assumes "heap_use own s"
  shows "pvPortMalloc w s = Inl Malloc_failed_hook \<or> (\<exists>p s'. pvPortMalloc w s = Inr (p, s') \<and> good_memory p w own s \<and> keeps own s s')"
proof -
  obtain live fs t where t: "heap_ok live fs t" "holds own live" "pvPortMalloc w s = pvPortMalloc w t" "ucHeap t = ucHeap s" "keeps own s t"
    using heap_ready [OF heap_use_inv [OF assms]] by metis
  show ?thesis using malloc_inv [OF t(1,2), of w] t(3-5) by (auto simp: good_memory_def keeps_def)
qed

theorem malloc_gives_memory_witness:
  "pvPortMalloc 200 one_held = Inl Malloc_failed_hook
    \<or> (\<exists>p s'. pvPortMalloc 200 one_held = Inr (p, s') \<and> good_memory p 200 {(0x80011020, 100)} one_held \<and> keeps {(0x80011020, 100)} one_held s')"
  by (rule malloc_gives_memory [OF one_held_use])

text \<open>C39: A program can release any pointer it holds, in any order: no assertion fails, the walk through the
  list of free blocks ends, and the memory the program still holds keeps its contents.
\<close>

theorem free_takes_back:
  assumes "heap_use own s" "x \<in> own"
  shows "\<exists>s'. vPortFree (fst x) s = Some s' \<and> keeps (own - {x}) s s'"
  using free_step [OF heap_use_inv [OF assms(1)] assms(2)] .

theorem free_takes_back_witness:
  "\<exists>s'. vPortFree (fst (0x80011020 :: u32, 100 :: u32)) one_held = Some s' \<and> keeps ({(0x80011020, 100)} - {(0x80011020, 100)}) one_held s'"
  by (rule free_takes_back [OF one_held_use]) simp

text \<open>
  \<open>pvPortCalloc\<close> gives memory for all the elements, cleared, and touches nothing the program holds; when the
  size of the elements together does not fit a \<open>size_t\<close>, and only then, it gives NULL and leaves the heap alone.
\<close>

theorem calloc_gives_cleared_memory:
  assumes u: "heap_use own s" and c: "pvPortCalloc n z s = Inr (p, s')"
  shows "if 2 ^ 32 \<le> unat n * unat z then p = 0 \<and> s' = s
    else good_memory p (n * z) own s \<and> unat (n * z) = unat n * unat z \<and> keeps own s s' \<and> zeroed (p, n * z) s'"
proof (cases "2 ^ 32 \<le> unat n * unat z")
  case True
  then show ?thesis using c multiply_overflow [of n z] by (auto simp: pvPortCalloc_def)
next
  case False
  note i = heap_use_inv [OF u]
  obtain t where "pvPortMalloc (n * z) s = Inr (p, t)" using c False multiply_overflow [of n z] by (auto simp: pvPortCalloc_def split: sum.splits)
  then have "p \<noteq> 0" using malloc_step [OF i] by (auto simp: good_memory_def)
  then obtain s1 where s1: "s' = s1\<lparr>ram := fst (glue_memset (ram s1) p 0 (n * z))\<rparr>" "good_memory p (n * z) own s" "keeps own s s1"
    by (rule calloc_step [OF i c])
  have "heap_linked s" using i by (simp add: heap_inv_def)
  note k = calloc_clears [OF s1(2) this s1(3,1)]
  have "unat (n * z) = unat n * unat z" using False by (simp add: unat_word_ariths)
  then show ?thesis using False s1(2) k by simp
qed

theorem calloc_gives_cleared_memory_witness:
  "\<exists>p s'. pvPortCalloc 5 20 power_on_heap = Inr (p, s') \<and> good_memory p 100 {} power_on_heap \<and> zeroed (p, 100) s'"
proof -
  have "pvPortCalloc 5 20 power_on_heap = Inr (0x80011020, one_held\<lparr>ram := fst (glue_memset (ram one_held) 0x80011020 0 100)\<rparr>)"
    using one_held_eq by (simp add: pvPortCalloc_def heapMULTIPLY_WILL_OVERFLOW_def heapSIZE_MAX_def)
  from calloc_gives_cleared_memory [OF power_on_use this] this show ?thesis by auto
qed

text \<open>C40: Fragments do not stay: a program can release all it holds in any order, after whatever history, and then
  the free blocks have merged into one again: a request of up to 10192 bytes is met.
\<close>

theorem released_heap_is_whole:
  assumes "heap_use (set xs) s" "distinct xs" "0 < w" "unat w \<le> 10192"
  shows "\<exists>s1 p s2. release_all vPortFree xs s = Some s1 \<and> pvPortMalloc w s1 = Inr (p, s2) \<and> good_memory p w {} s1"
proof -
  obtain s1 where s1: "release_all vPortFree xs s = Some s1" "heap_use {} s1" using heap4.all_released [OF assms(1,2)] by blast
  show ?thesis using s1(1) empty_heap_gives [OF s1(2) assms(3,4)] by blast
qed

theorem released_heap_is_whole_witness:
  "\<exists>s1 p s2. release_all vPortFree [(0x80011020, 100)] one_held = Some s1 \<and> pvPortMalloc 10192 s1 = Inr (p, s2) \<and> good_memory p 10192 {} s1"
  by (rule released_heap_is_whole) (use one_held_use in simp_all)

text \<open>The statistics: the number of free blocks, the largest and the smallest.\<close>

lemma stats_walk_list:
  "free_seg s p xs (pxEnd s) \<Longrightarrow> pxEnd s \<notin> fst ` set xs \<Longrightarrow>
    stats_walk (pxNextFreeBlock s p) n mx mn s = Some (n + of_nat (length xs), fold max (map snd xs) mx, fold min (map snd xs) mn)"
proof (induction xs arbitrary: p n mx mn)
  case Nil
  then show ?case by (subst stats_walk.simps) simp
next
  case (Cons x xs)
  obtain a k where x: "x = (a, k)" by force
  have p: "pxNextFreeBlock s p = a" "xBlockSize s a = k" "free_seg s a xs (pxEnd s)" "a \<noteq> pxEnd s" "pxEnd s \<notin> fst ` set xs" using Cons(2,3) x by auto
  have "(if k > mx then k else mx) = max k mx" "(if k < mn then k else mn) = min k mn" by (auto simp: max_def min_def)
  then show ?case using Cons(1) [OF p(3,5)] p(1,2,4) x by (subst stats_walk.simps) (simp add: algebra_simps)
qed

lemma heap_stats:
  assumes h: "heap_ok live fs s"
  shows "\<exists>r. vPortGetHeapStats s = Some r \<and> xNumberOfFreeBlocks r = of_nat (length fs) \<and> unat (xAvailableHeapSpaceInBytes r) = (\<Sum>x \<leftarrow> fs. unat (snd x))
    \<and> xSizeOfLargestFreeBlockInBytes r = fold max (map snd fs) 0 \<and> xSizeOfSmallestFreeBlockInBytes r = fold min (map snd fs) 0xffffffff"
proof -
  have wf: "heap_wf live fs s" using h by (simp add: heap_ok_def)
  note d = heap_wfD [OF wf]
  have "pxEnd s \<noteq> fst x" if "x \<in> set fs" for x using clear_of_neq [OF heap_wf_clear(2) [OF wf, of "fst x" "snd x"]] that by auto
  then have e: "pxEnd s \<notin> fst ` set fs" by blast
  have "pxNextFreeBlock s (xStart s) \<noteq> 0"
  proof (cases fs)
    case Nil
    then show ?thesis using d(2,4) by auto
  next
    case (Cons x xs)
    then have "x \<in> live \<union> set fs" by simp
    then show ?thesis using heap_wf_clear(5) [OF wf, of "fst x" "snd x"] d(1,4) Cons by (cases x) (auto simp: heap_linked_def)
  qed
  then show ?thesis using stats_walk_list [OF d(4) e, of 0 0 "0xffffffff"] d(12) by (simp add: vPortGetHeapStats_def)
qed

end
