(* ===== verification/Spec2Isabelle.thy ===== *)
theory Spec2Isabelle
  imports Pmp Libc Printf Timer Trap Timing_Model Gdb_Rsp Mailbox Runtime Ca_Measure Virtual_Platform Coremark_State Coremark_Matrix Coremark_List Self_Tests I2sr_Test Freertos_List Freertos_Runs Preempt_Test Freertos_Heap_Use
begin

text \<open>
  A verification development of the chip platform: the bare-metal runtime and drivers of an rv32
  microcontroller, its real-time kernel, its benchmarks, its self-checking tests and the virtual
  platform and hosts that run them. Everything is a shallow embedding: a C function is a HOL function
  on the state it reads and writes, machine integers are words of their width (\<open>u8\<close> to \<open>u64\<close>), memory
  is a function from 32-bit addresses to bytes where a claim depends on addresses, and a value that
  does not exist (undefined behaviour, a failed assertion, a loop that does not end, a run that
  outlasts the supplied inputs) is \<open>None\<close> or a constructor of an outcome type.

  \<^bold>\<open>The platform layer\<close> (src/Platform/Common).
  \<open>Pmp\<close> is pmp.c, on CSR accesses that are parameters with the laws of the privileged specification
  (locale \<open>pmp_csrs\<close>, interpreted on the register file \<open>hw_read\<close>, \<open>hw_write\<close>): which addresses an
  entry matches after each call, the result codes, and that a locked region stays.
  \<open>Libc\<close> is bench_libc.c, the memory and string routines of the port's port_glue.c and util.c, on bytes.
  \<open>Printf\<close> is printf.c, against a specification without buffer and without 64-bit division; a call whose
  character count passes \<open>INT_MAX\<close> is undefined behaviour on both sides.
  \<open>Timer\<close> is timer.c: the invariant of the ten slots under every sequence of calls and callbacks (locale
  \<open>timer_callbacks\<close>, interpreted on the timer test), and what the interrupt does to repeating timers.
  \<open>Trap\<close> is trap.h, exceptions.c, interrupt.c and syscalls.c: what each exception does is determined by
  the history of calls that configured it, and the two interrupt dispatchers are compared on every
  32-bit cause.
  \<open>Runtime\<close> is uart.c, data_init.c, boot.c, newlib_glue.c, log.h and the end of a run: the state
  before \<open>main\<close> for any link map, and the path of a character from \<open>printf\<close> to the line, on a UART that
  drops what is written to a full FIFO and drains at its own pace.

  \<^bold>\<open>The kernel\<close> (src/Middleware/FreeRTOS).
  \<open>Freertos_List\<close> is list.c: every operation on rings of nodes refines the operation on sequences.
  \<open>Freertos_Tasks\<close> is the part of tasks.c listed below, on those lists; \<open>Freertos_Sched\<close> states its
  invariant and proves it for ticks and switches, \<open>Freertos_Calls\<close> for each kernel call with interrupts
  taken inside it, and \<open>Freertos_Runs\<close> for runs from start-up: no halt, exact delays, fair slices.
  \<open>Freertos_Heap\<close> is heap_4.c on bytes: the live and the free blocks tile the heap and the free list
  has the free ones in address order with no two adjacent; \<open>Freertos_Heap_Use\<close> has its clients (an
  inductive relation of allocations, releases and writes) and their contract (locale \<open>allocator\<close>).

  \<^bold>\<open>The virtual platform and the hosts\<close> (src/vp/spike, src/verif/backend).
  \<open>Timing_Model\<close> is timing_model.h: the cache with age counters refines per-set recency lists, and the
  cycle count is the sum of the costs. \<open>Gdb_Rsp\<close> is gdb_rsp.h: framing, the packets, stops.
  \<open>Mailbox\<close> is the handshake between device and host with each access a step, under every interleaving.
  \<open>Virtual_Platform\<close> is verif_spike.h and its drivers, with the bring-up shim of
  Platform/Chipset/TinyRocket; it runs \<open>Timing_Model\<close>, and both hosts report the table that
  \<open>Ca_Measure\<close> (verif_ca.h and CA_measure.c) writes to shared memory, row for row. The instruction-set simulator libriscv is a parameter.

  \<^bold>\<open>Programs on the platform\<close>.
  \<open>Coremark_State\<close>, \<open>Coremark_Matrix\<close> and \<open>Coremark_List\<close> are the three kernels of CoreMark
  (Middleware/benchmark/coremark); the in-place merge sort refines the bottom-up sort of a list (locale
  \<open>total_comparison\<close>, interpreted on both comparison functions). \<open>Self_Tests\<close> (PMP/violation and
  EXCEPTION/traps), \<open>I2sr_Test\<close> (I2SR/int_muldiv with nested interrupts) and \<open>Preempt_Test\<close>
  (FREERTOS/preempt, on the scheduler, UART and printf models) are tests of src/verif/ip: they pass
  under the interleavings their properties state, and the verdicts are those the source intends. Runs of
  the nested interrupt test are unguarded; it passes in those where the host ends the test after the device
  last looked, and a run where it does not gets stuck.

  \<^bold>\<open>Groups of lemmas\<close>. In each theory the definitions come first, in the order of the source. The
  lemmas that follow give the effect of single operations (rewrite rules), then the invariant and its
  preservation, then the refinement or functional result; the properties and their witnesses, closed
  instances on concrete states, come last. \<open>Platform_Prelude\<close> has the words, memory and bit facts.

  \<^bold>\<open>Loops and bounds\<close>. Counted loops recurse on their count. A loop over memory or a list whose end is not
  evident is \<open>partial_function (option)\<close>, and the claims say that it returns: the walks of the allocator
  and of the kernel lists end by the invariant, \<open>bench_strlen\<close> when there is a terminator. The
  driver's wait for room in the UART is one too: it ends on a UART that works, which the claims of
  completion assume, and may not on another. Fuel bounds only what may run for ever by design: the steps of the program a debugger
  continues and the packets a server handles; the claims hold for every fuel beyond the stop they
  describe, and running out is the separate outcome \<open>Still_running\<close>. Interleavings are step relations or
  lists of choices of any length.
  The sizes are those of the source: ten timers, eight PMP entries, 64 sets of eight ways, five
  priorities, 24 table rows, a heap of 10 KB.

  \<^bold>\<open>Not modelled\<close>. Assembly (start-up, trap entry, context save) except where a claim needs its effect
  on the state, which is then a named definition. What is not under src/: libriscv, the RTL and its
  test engine, newlib, the compiler; each is a parameter with the documented behaviour as hypotheses.
  Of the kernel: queues, event groups, stream buffers, software timers and co-routines, which no program
  of the repository uses, and what FreeRTOSConfig.h leaves out (SMP, MPU, static allocation, deletion,
  tickless idle). The register constants of encoding.h, printing in the benchmarks' reports, and glue
  whose whole content is a call of modelled code.
\<close>

end
